(* ===== verification/Prelude.thy ===== *)
theory Prelude
  imports Main "HOL-Library.Word" "HOL-Library.Monad_Syntax"
begin

text \<open>
  What every component shares: the machine integer types, the convention for results, the
  store of C objects that the linked structures live in, and the generic lemmas about them.

  A C function that can fail to have a defined result (it dereferences NULL or a freed object,
  an \<open>assert\<close> fails, or a loop does not end) is a function into \<open>'a option\<close> and
  \<open>None\<close> is "no defined result". A theorem that a model returns \<open>Some\<close> therefore says that
  the code neither crashes nor diverges. Error codes that the C code returns are ordinary values.
\<close>

section \<open>Machine integers\<close>

type_synonym u8 = "8 word"
type_synonym u16 = "16 word"
type_synonym u32 = "32 word"
type_synonym u64 = "64 word"
type_synonym i32 = "32 word"
type_synonym i64 = "64 word"

text \<open>Conversions between the unsigned types: the low bits, zero-extended.\<close>

abbreviation u8_of :: "'a::len word \<Rightarrow> u8" where "u8_of \<equiv> ucast"
abbreviation u16_of :: "'a::len word \<Rightarrow> u16" where "u16_of \<equiv> ucast"
abbreviation u32_of :: "'a::len word \<Rightarrow> u32" where "u32_of \<equiv> ucast"
abbreviation u64_of :: "'a::len word \<Rightarrow> u64" where "u64_of \<equiv> ucast"

abbreviation shl :: "'a::len word \<Rightarrow> nat \<Rightarrow> 'a word" where "shl w n \<equiv> push_bit n w"
abbreviation shr :: "'a::len word \<Rightarrow> nat \<Rightarrow> 'a word" where "shr w n \<equiv> drop_bit n w"

lemma unat_shr: "unat (shr w n) = unat w div 2 ^ n"
  by (simp only: unat_drop_bit_eq drop_bit_eq_div [of n "unat w"])

section \<open>Results\<close>

named_theorems run_simps "unfolding rules for the option monad of results"

text \<open>The C \<open>assert\<close>: no defined result when the condition is false.\<close>

definition check :: "bool \<Rightarrow> unit option" where
  "check b = (if b then Some () else None)"

lemma check_True [simp]: "check True = Some ()"
  by (simp add: check_def)

lemma check_False [simp]: "check False = None"
  by (simp add: check_def)

lemma check_Some_iff [simp]: "check b = Some u \<longleftrightarrow> b"
  by (simp add: check_def)

lemmas bind_split_asm [run_simps] = bind_eq_Some_conv

text \<open>A loop \<open>for(j = 0; j < n; j++) body\<close> over a list of values, stopping when the body has
  no result.\<close>

primrec foldO :: "('x \<Rightarrow> 's \<Rightarrow> 's option) \<Rightarrow> 'x list \<Rightarrow> 's \<Rightarrow> 's option" where
  "foldO f [] s = Some s"
| "foldO f (x # xs) s = Option.bind (f x s) (foldO f xs)"

lemma foldO_append: "foldO f (xs @ ys) s = Option.bind (foldO f xs s) (foldO f ys)"
proof (induction xs arbitrary: s)
  case Nil
  then show ?case by simp
next
  case (Cons x xs)
  have "foldO f (xs @ ys) = (\<lambda>t. Option.bind (foldO f xs t) (foldO f ys))"
    using Cons.IH by (simp add: fun_eq_iff)
  then show ?case by simp
qed

lemma foldO_mono [partial_function_mono]:
  assumes "\<And>x s. mono_option (\<lambda>f. B f x s)"
  shows "mono_option (\<lambda>f. foldO (B f) xs s)"
proof (induction xs arbitrary: s)
  case (Cons x xs)
  then show ?case using assms by (simp add: bind_mono)
qed (simp add: option.const_mono)

text \<open>An allocator seen from outside: the outcomes of the coming allocations, True for one that
  fails. Allocations beyond the list succeed, so an empty list is an allocator that never fails.\<close>

type_synonym faults = "bool list"

definition alloc_ok :: "faults \<Rightarrow> bool" where
  "alloc_ok ms = (case ms of [] \<Rightarrow> True | m # _ \<Rightarrow> \<not> m)"

definition no_fault :: "faults \<Rightarrow> bool" where
  "no_fault ms = (True \<notin> set ms)"

lemma no_fault_alloc: "no_fault ms \<Longrightarrow> alloc_ok ms" "no_fault ms \<Longrightarrow> no_fault (tl ms)"
  by (cases ms; auto simp: no_fault_def alloc_ok_def)+

text \<open>An array access; out of bounds it has no result.\<close>

definition nth_opt :: "'a list \<Rightarrow> nat \<Rightarrow> 'a option" where
  "nth_opt xs i = (if i < length xs then Some (xs ! i) else None)"

lemma nth_opt_simps [simp]:
  "nth_opt [] i = None" "nth_opt (x # xs) 0 = Some x" "nth_opt (x # xs) (Suc i) = nth_opt xs i"
  "nth_opt (x # xs) (numeral k) = nth_opt xs (pred_numeral k)"
  by (simp_all add: nth_opt_def numeral_eq_Suc)

lemma nth_opt_append: "nth_opt (xs @ ys) i = (if i < length xs then Some (xs ! i) else nth_opt ys (i - length xs))"
  by (auto simp: nth_opt_def nth_append)

section \<open>Pointers and the store\<close>

text \<open>
  Addresses are natural numbers and 0 is NULL. A store holds the live objects of one C type;
  \<open>brk\<close> is the next address \<open>malloc\<close> hands out, \<open>avail\<close> the number of allocations that still
  succeed (an exhausted allocator returns NULL) and \<open>junk\<close> what \<open>malloc\<close> leaves in a fresh
  object: it is arbitrary, so no theorem can depend on uninitialised fields.
\<close>

type_synonym ptr = nat

abbreviation (input) NULL :: ptr where
  "NULL \<equiv> 0"

record 'n heap =
  cells :: "ptr \<Rightarrow> 'n option"
  brk :: ptr
  avail :: nat
  junk :: 'n

definition load :: "'n heap \<Rightarrow> ptr \<Rightarrow> 'n option" where
  "load h p = (if p = NULL then None else cells h p)"

definition store :: "'n heap \<Rightarrow> ptr \<Rightarrow> 'n \<Rightarrow> 'n heap" where
  "store h p n = h\<lparr>cells := (cells h)(p \<mapsto> n)\<rparr>"

definition modify :: "'n heap \<Rightarrow> ptr \<Rightarrow> ('n \<Rightarrow> 'n) \<Rightarrow> 'n heap option" where
  "modify h p f = do { n \<leftarrow> load h p; Some (store h p (f n)) }"

definition malloc :: "'n heap \<Rightarrow> 'n heap \<times> ptr" where
  "malloc h =
     (if avail h = 0 then (h, NULL)
      else (h\<lparr>cells := (cells h)(brk h \<mapsto> junk h), brk := Suc (brk h), avail := avail h - 1\<rparr>, brk h))"

definition dealloc :: "'n heap \<Rightarrow> ptr \<Rightarrow> 'n heap option" where
  "dealloc h p = do { _ \<leftarrow> load h p; Some (h\<lparr>cells := (cells h)(p := None)\<rparr>) }"

text \<open>A store is well formed when every live object lies below \<open>brk\<close> and none is at NULL.\<close>

definition wf_heap :: "'n heap \<Rightarrow> bool" where
  "wf_heap h \<longleftrightarrow> 0 < brk h \<and> dom (cells h) \<subseteq> {0<..<brk h}"

lemma wf_heap_fresh: "wf_heap h \<Longrightarrow> cells h (brk h) = None"
  by (auto simp: wf_heap_def)

lemma wf_heap_NULL: "wf_heap h \<Longrightarrow> cells h 0 = None"
  by (auto simp: wf_heap_def)

lemma wf_heap_brk: "wf_heap h \<Longrightarrow> brk h \<noteq> 0"
  by (simp add: wf_heap_def)

lemma load_cells: "wf_heap h \<Longrightarrow> load h p = cells h p"
  by (auto simp: load_def wf_heap_NULL)

lemma load_NULL [simp]: "load h 0 = None"
  by (simp add: load_def)

lemma load_store [simp]: "p \<noteq> 0 \<Longrightarrow> load (store h q n) p = (if p = q then Some n else load h p)"
  by (simp add: load_def store_def)

lemma store_sel [simp]:
  "cells (store h p n) = (cells h)(p \<mapsto> n)"
  "brk (store h p n) = brk h"
  "avail (store h p n) = avail h"
  "junk (store h p n) = junk h"
  by (simp_all add: store_def)

lemma wf_heap_store: "wf_heap h \<Longrightarrow> cells h p = Some m \<Longrightarrow> wf_heap (store h p n)"
  by (auto simp: wf_heap_def store_def dom_def)

lemma modify_Some: "p \<noteq> 0 \<Longrightarrow> cells h p = Some n \<Longrightarrow> modify h p f = Some (store h p (f n))"
  by (simp add: modify_def load_def)

lemma modify_NULL [simp]: "modify h 0 f = None"
  by (simp add: modify_def)

lemma malloc_fail: "avail h = 0 \<Longrightarrow> malloc h = (h, NULL)"
  by (simp add: malloc_def)

lemma malloc_ok:
  assumes "wf_heap h" and "0 < avail h"
  obtains h' where "malloc h = (h', brk h)" and "brk h \<noteq> 0" and "cells h (brk h) = None"
    and "cells h' = (cells h)(brk h \<mapsto> junk h)" and "wf_heap h'"
    and "brk h' = Suc (brk h)" and "avail h' = avail h - 1" and "junk h' = junk h"
proof -
  let ?h = "h\<lparr>cells := (cells h)(brk h \<mapsto> junk h), brk := Suc (brk h), avail := avail h - 1\<rparr>"
  have "malloc h = (?h, brk h)"
    using assms(2) by (simp add: malloc_def)
  moreover have "wf_heap ?h"
    using assms(1) by (auto simp: wf_heap_def)
  ultimately show thesis
    using assms by (intro that [of ?h]) (simp_all add: wf_heap_fresh wf_heap_brk)
qed

text \<open>
  Frame of an operation: \<open>h'\<close> is well formed, agrees with \<open>h\<close> outside the addresses \<open>A\<close>, and
  comes from it by \<open>n\<close> allocations.
\<close>

definition hstep :: "ptr set \<Rightarrow> nat \<Rightarrow> 'n heap \<Rightarrow> 'n heap \<Rightarrow> bool" where
  "hstep A n h h' \<longleftrightarrow> wf_heap h' \<and> (\<forall>a. a \<notin> A \<longrightarrow> cells h' a = cells h a)
     \<and> brk h' = brk h + n \<and> avail h' = avail h - n \<and> junk h' = junk h"

lemma hstep_refl: "wf_heap h \<Longrightarrow> hstep A 0 h h"
  by (simp add: hstep_def)

lemma hstep_trans: "hstep A m h h' \<Longrightarrow> hstep B n h' h'' \<Longrightarrow> hstep (A \<union> B) (m + n) h h''"
  by (simp add: hstep_def)

lemma hstep_mono: "hstep A n h h' \<Longrightarrow> A \<subseteq> B \<Longrightarrow> hstep B n h h'"
  by (auto simp: hstep_def)

lemma hstep_trans2:
  "hstep A m h h' \<Longrightarrow> hstep B n h' h'' \<Longrightarrow> A \<subseteq> C \<Longrightarrow> B \<subseteq> C \<Longrightarrow> k = m + n \<Longrightarrow> hstep C k h h''"
  using hstep_mono [OF hstep_trans [of A m h h' B n h''], of C] by simp

lemma hstep_wf: "hstep A n h h' \<Longrightarrow> wf_heap h'"
  by (simp add: hstep_def)

lemma hstep_cells: "hstep A n h h' \<Longrightarrow> a \<notin> A \<Longrightarrow> cells h' a = cells h a"
  by (simp add: hstep_def)

lemma hstep_store: "wf_heap h \<Longrightarrow> cells h p = Some m \<Longrightarrow> hstep {p} 0 h (store h p n)"
  by (simp add: hstep_def wf_heap_store)

lemma hstep_malloc: "wf_heap h \<Longrightarrow> 0 < avail h \<Longrightarrow> hstep {brk h} 1 h (fst (malloc h))"
  by (auto simp: hstep_def malloc_def wf_heap_def)

lemma dealloc_ok:
  assumes "wf_heap h" and "cells h p = Some n"
  obtains h' where "dealloc h p = Some h'" and "hstep {p} 0 h h'"
    and "cells h' = (cells h)(p := None)"
proof -
  have p: "p \<noteq> 0" by (rule notI) (use assms in \<open>simp add: wf_heap_NULL\<close>)
  show thesis
    by (rule that [of "h\<lparr>cells := (cells h)(p := None)\<rparr>"])
      (use assms p in \<open>auto simp: dealloc_def load_def hstep_def wf_heap_def dom_def\<close>)
qed

lemma modify_ok:
  assumes "wf_heap h" and "cells h p = Some n"
  obtains h' where "modify h p f = Some h'" and "hstep {p} 0 h h'"
    and "cells h' = (cells h)(p \<mapsto> f n)"
proof -
  have p: "p \<noteq> 0" by (rule notI) (use assms in \<open>simp add: wf_heap_NULL\<close>)
  show thesis
    by (rule that [of "store h p (f n)"])
      (use assms p in \<open>auto simp: modify_Some hstep_store\<close>)
qed

lemma modify_loaded:
  assumes "load h a = Some r"
  shows "modify h a g = Some (store h a (g r))" and "load (store h a r') a = Some r'"
proof -
  have "a \<noteq> 0" using assms by (cases "a = 0") auto
  then show "modify h a g = Some (store h a (g r))" "load (store h a r') a = Some r'"
    using assms by (simp_all add: modify_def)
qed

end
