(* ===== verification/Varint.thy ===== *)
theory Varint
  imports Prelude
begin

text \<open>
  The variable-length integers and the four-byte integers of tsrc/util.c. A buffer is a list of bytes; a
  read beyond its end has no result. A writer is modelled by the bytes that it writes from \<open>p[0]\<close>
  on; their number is what the C function returns. The local variables \<open>a\<close>, \<open>b\<close> and \<open>s\<close> are 32-bit,
  as in the code, so the shifts drop the high bits; every reassignment of the code is a \<open>let\<close>.
\<close>

unbundle bit_operations_syntax

section \<open>Writing\<close>

text \<open>The loop \<open>do \<dots> while( v!=0 )\<close>: the buffer from \<open>buf[n]\<close> on.\<close>

function putVarint_groups :: "u64 \<Rightarrow> u8 list" where
  "putVarint_groups v =
     (let b = u8_of ((v AND 0x7f) OR 0x80); v = shr v 7 in
      b # (if v \<noteq> 0 then putVarint_groups v else []))"
  by pat_completeness auto
termination
proof (relation "measure unat", simp)
  fix b v v' :: u64 and w :: u8
  assume v': "v' = shr v 7" "v' \<noteq> 0"
  then have "unat v' = unat v div 2 ^ 7" by (simp only: unat_shr)
  moreover have "unat v' \<noteq> 0" using v'(2) by (simp add: unat_eq_zero)
  ultimately show "(v', v) \<in> measure unat" by simp
qed

declare putVarint_groups.simps [simp del]

text \<open>The nine-byte form writes the eight groups of seven bits of \<open>v >> 8\<close>, the last one first.\<close>

definition putVarint64 :: "u64 \<Rightarrow> u8 list option" where
  "putVarint64 v =
     (if v AND shl 0xff000000 32 \<noteq> 0 then
        let p8 = u8_of v; v = shr v 8 in
        Some (map (\<lambda>i. u8_of ((shr v (7 * (7 - i)) AND 0x7f) OR 0x80)) [0..<8] @ [p8])
      else
        let buf = putVarint_groups v; buf = buf[0 := buf ! 0 AND 0x7f] in do {
          check (length buf \<le> 9);
          Some (rev buf) })"

definition sqlite3PutVarint :: "u64 \<Rightarrow> u8 list option" where
  "sqlite3PutVarint v =
     (if v \<le> 0x7f then Some [u8_of (v AND 0x7f)]
      else if v \<le> 0x3fff
      then Some [u8_of ((shr v 7 AND 0x7f) OR 0x80), u8_of (v AND 0x7f)]
      else putVarint64 v)"

section \<open>Reading\<close>

definition SLOT_2_0 :: u32 where "SLOT_2_0 = 0x001fc07f"
definition SLOT_4_2_0 :: u32 where "SLOT_4_2_0 = 0xf01fc07f"

abbreviation byte_at :: "u8 list \<Rightarrow> nat \<Rightarrow> u32 option" where
  "byte_at p i \<equiv> map_option u32_of (nth_opt p i)"

definition hi_lo :: "u32 \<Rightarrow> u32 \<Rightarrow> u64" where
  "hi_lo s a = shl (u64_of s) 32 OR u64_of a"

text \<open>The value and the number of bytes read.\<close>

definition sqlite3GetVarint :: "u8 list \<Rightarrow> (u64 \<times> u8) option" where
  "sqlite3GetVarint p = do {
     a \<leftarrow> byte_at p 0;
     if a AND 0x80 = 0 then Some (u64_of a, 1) else do {
     b \<leftarrow> byte_at p 1;
     if b AND 0x80 = 0 then
       let a = a AND 0x7f; a = shl a 7; a = a OR b in Some (u64_of a, 2)
     else do {
     check (SLOT_2_0 = (shl 0x7f 14 OR 0x7f));
     check (SLOT_4_2_0 = (shl 0xf 28 OR shl 0x7f 14 OR 0x7f));
     let a = shl a 14;
     p2 \<leftarrow> byte_at p 2;
     let a = a OR p2;
     if a AND 0x80 = 0 then
       let a = a AND SLOT_2_0; b = b AND 0x7f; b = shl b 7; a = a OR b in Some (u64_of a, 3)
     else do {
     let a = a AND SLOT_2_0;
     let b = shl b 14;
     p3 \<leftarrow> byte_at p 3;
     let b = b OR p3;
     if b AND 0x80 = 0 then
       let b = b AND SLOT_2_0; a = shl a 7; a = a OR b in Some (u64_of a, 4)
     else do {
     let b = b AND SLOT_2_0;
     let s = a;
     let a = shl a 14;
     p4 \<leftarrow> byte_at p 4;
     let a = a OR p4;
     if a AND 0x80 = 0 then
       let b = shl b 7; a = a OR b; s = shr s 18 in Some (hi_lo s a, 5)
     else do {
     let s = shl s 7;
     let s = s OR b;
     let b = shl b 14;
     p5 \<leftarrow> byte_at p 5;
     let b = b OR p5;
     if b AND 0x80 = 0 then
       let a = a AND SLOT_2_0; a = shl a 7; a = a OR b; s = shr s 18 in Some (hi_lo s a, 6)
     else do {
     let a = shl a 14;
     p6 \<leftarrow> byte_at p 6;
     let a = a OR p6;
     if a AND 0x80 = 0 then
       let a = a AND SLOT_4_2_0; b = b AND SLOT_2_0; b = shl b 7; a = a OR b; s = shr s 11 in Some (hi_lo s a, 7)
     else do {
     let a = a AND SLOT_2_0;
     let b = shl b 14;
     p7 \<leftarrow> byte_at p 7;
     let b = b OR p7;
     if b AND 0x80 = 0 then
       let b = b AND SLOT_4_2_0; a = shl a 7; a = a OR b; s = shr s 4 in Some (hi_lo s a, 8)
     else do {
     let a = shl a 15;
     p8 \<leftarrow> byte_at p 8;
     let a = a OR p8;
     let b = b AND SLOT_2_0;
     let b = shl b 8;
     let a = a OR b;
     let s = shl s 4;
     b \<leftarrow> byte_at p 4;
     let b = b AND 0x7f;
     let b = shr b 3;
     let s = s OR b;
     Some (hi_lo s a, 9) } } } } } } } } }"

text \<open>\<open>sqlite3GetVarint32\<close> is compiled without its one-byte case, which the macro \<open>getVarint32\<close> handles.\<close>

definition sqlite3GetVarint32 :: "u8 list \<Rightarrow> (u32 \<times> u8) option" where
  "sqlite3GetVarint32 p = do {
     a \<leftarrow> byte_at p 0;
     b \<leftarrow> byte_at p 1;
     if b AND 0x80 = 0 then let a = a AND 0x7f; a = shl a 7 in Some (a OR b, 2)
     else do {
       let a = shl a 14;
       p2 \<leftarrow> byte_at p 2;
       let a = a OR p2;
       if a AND 0x80 = 0 then
         let a = a AND (shl 0x7f 14 OR 0x7f); b = b AND 0x7f; b = shl b 7 in Some (a OR b, 3)
       else do {
         (v64, n) \<leftarrow> sqlite3GetVarint p;
         check (n > 3 \<and> n \<le> 9);
         Some (if v64 AND 0xffffffff \<noteq> v64 then 0xffffffff else u32_of v64, n) } } }"

definition getVarint32 :: "u8 list \<Rightarrow> (u32 \<times> u8) option" where
  "getVarint32 p = do {
     a \<leftarrow> nth_opt p 0;
     if a < 0x80 then Some (u32_of a, 1) else sqlite3GetVarint32 p }"

definition putVarint32 :: "u32 \<Rightarrow> u8 list option" where
  "putVarint32 v = (if v < 0x80 then Some [u8_of v] else sqlite3PutVarint (u64_of v))"

text \<open>The loop of \<open>sqlite3VarintLen\<close>, before its test.\<close>

function varintLen_loop :: "nat \<Rightarrow> u64 \<Rightarrow> nat option" where
  "varintLen_loop i v =
     (let v = shr v 7 in
      if v \<noteq> 0 then (if i < 10 then varintLen_loop (i + 1) v else None) else Some i)"
  by pat_completeness auto
termination
  by (relation "measure (\<lambda>(i, v). 10 - i)") auto

declare varintLen_loop.simps [simp del]

definition sqlite3VarintLen :: "u64 \<Rightarrow> nat option" where
  "sqlite3VarintLen v = varintLen_loop 1 v"

section \<open>Four-byte integers\<close>

text \<open>The portable branch; the others are the same function of the bytes in memory.\<close>

definition sqlite3Get4byte :: "u8 list \<Rightarrow> u32 option" where
  "sqlite3Get4byte p = do {
     p0 \<leftarrow> byte_at p 0; p1 \<leftarrow> byte_at p 1; p2 \<leftarrow> byte_at p 2; p3 \<leftarrow> byte_at p 3;
     Some (shl p0 24 OR shl p1 16 OR shl p2 8 OR p3) }"

definition sqlite3Put4byte :: "u32 \<Rightarrow> u8 list" where
  "sqlite3Put4byte v = [u8_of (shr v 24), u8_of (shr v 16), u8_of (shr v 8), u8_of v]"

end
