(* ===== verification/Varint_Spec.thy ===== *)
theory Varint_Spec
  imports Varint
begin

text \<open>
  The reader of variable-length integers is an unrolled version of a short loop, \<open>varint_ref\<close>; reading what
  the writer wrote gives the number back; the lengths agree. The unrolled cases are compared bit by bit.
\<close>

section \<open>Comparing words bit by bit\<close>

lemma bits64:
  fixes v w :: u64
  assumes "list_all (\<lambda>n. bit v n = bit w n) [0, 1, 2, 3, 4, 5, 6, 7, 8, 9, 10, 11, 12, 13, 14, 15, 16, 17, 18, 19, 20, 21, 22, 23, 24, 25, 26,
    27, 28, 29, 30, 31, 32, 33, 34, 35, 36, 37, 38, 39, 40, 41, 42, 43, 44, 45, 46, 47, 48, 49, 50, 51,
    52, 53, 54, 55, 56, 57, 58, 59, 60, 61, 62, 63]"
  shows "v = w"
proof (rule bit_word_eqI)
  have l: "[0..<64] = [0, 1, 2, 3, 4, 5, 6, 7, 8, 9, 10, 11, 12, 13, 14, 15, 16, 17, 18, 19, 20, 21, 22, 23, 24, 25, 26,
    27, 28, 29, 30, 31, 32, 33, 34, 35, 36, 37, 38, 39, 40, 41, 42, 43, 44, 45, 46, 47, 48, 49, 50, 51,
    52, 53, 54, 55, 56, 57, 58, 59, 60, 61, 62, 63]"
    by code_simp
  fix n assume "n < LENGTH(64)"
  then have "n \<in> set [0..<64]" by simp
  then show "bit v n = bit w n" using assms unfolding l [symmetric] by (simp only: list_all_iff)
qed

lemma bits8:
  fixes v w :: u8
  assumes "list_all (\<lambda>n. bit v n = bit w n) [0, 1, 2, 3, 4, 5, 6, 7]"
  shows "v = w"
proof (rule bit_word_eqI)
  have l: "[0..<8] = [0, 1, 2, 3, 4, 5, 6, 7]" by code_simp
  fix n assume "n < LENGTH(8)"
  then have "n \<in> set [0..<8]" by simp
  then show "bit v n = bit w n" using assms unfolding l [symmetric] by (simp only: list_all_iff)
qed

lemma bits32:
  fixes v w :: u32
  assumes "list_all (\<lambda>n. bit v n = bit w n) [0, 1, 2, 3, 4, 5, 6, 7, 8, 9, 10, 11, 12, 13, 14, 15, 16, 17, 18, 19, 20, 21, 22, 23, 24, 25, 26, 27, 28, 29, 30, 31]"
  shows "v = w"
proof (rule bit_word_eqI)
  have l: "[0..<32] = [0, 1, 2, 3, 4, 5, 6, 7, 8, 9, 10, 11, 12, 13, 14, 15, 16, 17, 18, 19, 20, 21, 22, 23, 24, 25, 26, 27, 28, 29, 30, 31]"
    by code_simp
  fix n assume "n < LENGTH(32)"
  then have "n \<in> set [0..<32]" by simp
  then show "bit v n = bit w n" using assms unfolding l [symmetric] by (simp only: list_all_iff)
qed

lemma byte_bit_ge [simp]: "8 \<le> n \<Longrightarrow> \<not> bit (b :: u8) n"
  by (simp add: impossible_bit)

lemma word_bit_ge [simp]: "32 \<le> n \<Longrightarrow> \<not> bit (v :: u32) n"
  by (simp add: impossible_bit)

lemma long_bit_ge [simp]: "64 \<le> n \<Longrightarrow> \<not> bit (v :: u64) n"
  by (simp add: impossible_bit)

lemma and_0x80: "(w :: u32) AND 0x80 = 0 \<longleftrightarrow> \<not> bit w 7"
  using and_exp_eq_0_iff_not_bit [of w 7] by simp

section \<open>The loop that the reader unrolls\<close>

fun varint_ref :: "nat \<Rightarrow> u64 \<Rightarrow> u8 list \<Rightarrow> (u64 \<times> u8) option" where
  "varint_ref k acc [] = None"
| "varint_ref k acc (b # p) =
     (if k = 8 then Some (shl acc 8 OR u64_of b, 9)
      else if bit b 7 then varint_ref (Suc k) (shl acc 7 OR u64_of (b AND 0x7f)) p
      else Some (shl acc 7 OR u64_of b, word_of_nat (Suc k)))"

lemma byte_cases [case_names empty stop more]:
  "(q = [] \<Longrightarrow> P) \<Longrightarrow> (\<And>b r. q = b # r \<Longrightarrow> \<not> bit b 7 \<Longrightarrow> P) \<Longrightarrow> (\<And>b r. q = b # r \<Longrightarrow> bit b 7 \<Longrightarrow> P) \<Longrightarrow> P"
  for q :: "u8 list"
  by (cases q) blast+

lemmas get_simps = sqlite3GetVarint_def and_0x80 bit_simps hi_lo_def SLOT_2_0_def SLOT_4_2_0_def

lemma sqlite3GetVarint_ref: "sqlite3GetVarint p = varint_ref 0 0 p"
proof -
  show ?thesis
  proof (cases p rule: byte_cases)
    case empty
    then show ?thesis by (simp add: get_simps)
  next
    case (stop p0 q)
    then show ?thesis by (simp add: get_simps) (rule bits64, simp add: bit_simps disj_commute)
  next
    case more0: (more p0 q1)
    show ?thesis
    proof (cases q1 rule: byte_cases)
      case empty
      then show ?thesis using more0 by (simp add: get_simps)
    next
      case (stop p1 q)
      then show ?thesis using more0 by (simp add: get_simps) (rule bits64, simp add: bit_simps disj_commute)
    next
      case more1: (more p1 q2)
      show ?thesis
      proof (cases q2 rule: byte_cases)
        case empty
        then show ?thesis using more0 more1 by (simp add: get_simps)
      next
        case (stop p2 q)
        then show ?thesis using more0 more1 by (simp add: get_simps) (rule bits64, simp add: bit_simps disj_commute)
      next
        case more2: (more p2 q3)
        show ?thesis
        proof (cases q3 rule: byte_cases)
          case empty
          then show ?thesis using more0 more1 more2 by (simp add: get_simps)
        next
          case (stop p3 q)
          then show ?thesis using more0 more1 more2 by (simp add: get_simps) (rule bits64, simp add: bit_simps disj_commute)
        next
          case more3: (more p3 q4)
          show ?thesis
          proof (cases q4 rule: byte_cases)
            case empty
            then show ?thesis using more0 more1 more2 more3 by (simp add: get_simps)
          next
            case (stop p4 q)
            then show ?thesis using more0 more1 more2 more3 by (simp add: get_simps) (rule bits64, simp add: bit_simps disj_commute)
          next
            case more4: (more p4 q5)
            show ?thesis
            proof (cases q5 rule: byte_cases)
              case empty
              then show ?thesis using more0 more1 more2 more3 more4 by (simp add: get_simps)
            next
              case (stop p5 q)
              then show ?thesis using more0 more1 more2 more3 more4 by (simp add: get_simps) (rule bits64, simp add: bit_simps disj_commute)
            next
              case more5: (more p5 q6)
              show ?thesis
              proof (cases q6 rule: byte_cases)
                case empty
                then show ?thesis using more0 more1 more2 more3 more4 more5 by (simp add: get_simps)
              next
                case (stop p6 q)
                then show ?thesis using more0 more1 more2 more3 more4 more5 by (simp add: get_simps) (rule bits64, simp add: bit_simps disj_commute)
              next
                case more6: (more p6 q7)
                show ?thesis
                proof (cases q7 rule: byte_cases)
                  case empty
                  then show ?thesis using more0 more1 more2 more3 more4 more5 more6 by (simp add: get_simps)
                next
                  case (stop p7 q)
                  then show ?thesis using more0 more1 more2 more3 more4 more5 more6 by (simp add: get_simps) (rule bits64, simp add: bit_simps disj_commute)
                next
                  case more7: (more p7 q8)
                  show ?thesis
                  proof (cases q8 rule: byte_cases)
                    case empty
                    then show ?thesis using more0 more1 more2 more3 more4 more5 more6 more7 by (simp add: get_simps)
                  next
                    case (stop p8 q)
                    then show ?thesis using more0 more1 more2 more3 more4 more5 more6 more7 by (simp add: get_simps) (rule bits64, simp add: bit_simps disj_commute)
                  next
                    case more8: (more p8 q9)
                    then show ?thesis using more0 more1 more2 more3 more4 more5 more6 more7 by (simp add: get_simps) (rule bits64, simp add: bit_simps disj_commute)
                  qed
                qed
              qed
            qed
          qed
        qed
      qed
    qed
  qed
qed

section \<open>Writing and reading back\<close>

text \<open>A byte that announces another one, with seven bits of data.\<close>

abbreviation group :: "u64 \<Rightarrow> u8" where
  "group v \<equiv> u8_of ((v AND 0x7f) OR 0x80)"

lemma group_bits:
  "bit (group v) 7" "group v AND 0x7f = u8_of (v AND 0x7f)" "u64_of (u8_of (v AND 0x7f)) = v AND 0x7f"
  by (simp add: bit_simps, rule bits8, simp add: bit_simps, rule bits64, simp add: bit_simps)

lemma join_group: "shl (shr v 7) 7 OR (v AND 0x7f) = (v :: u64)" "shl (shr v 8) 8 OR u64_of (u8_of v) = v"
  by (rule bits64, simp add: bit_simps)+

text \<open>The groups of \<open>w\<close> with the numbers \<open>j \<dots> n-1\<close>, the highest first.\<close>

definition groups :: "u64 \<Rightarrow> nat \<Rightarrow> nat \<Rightarrow> u8 list" where
  "groups w j n = map (\<lambda>i. group (shr w (7 * i))) (rev [j..<n])"

lemma groups_Suc: "j \<le> n \<Longrightarrow> groups w j (Suc n) = group (shr w (7 * n)) # groups w j n"
  by (simp add: groups_def)

lemma varint_ref_groups:
  "j \<le> n \<Longrightarrow> k + (n - j) \<le> 8 \<Longrightarrow>
   varint_ref k (shr w (7 * n)) (groups w j n @ r) = varint_ref (k + (n - j)) (shr w (7 * j)) r"
proof (induction "n - j" arbitrary: n k)
  case 0
  then show ?case by (simp add: groups_def)
next
  case (Suc d)
  then obtain m where m: "n = Suc m" "j \<le> m" by (cases n) auto
  have "shl (shr w (7 * n)) 7 OR (shr w (7 * m) AND 0x7f) = shr w (7 * m)"
    using join_group(1) [of "shr w (7 * m)"] by (simp add: m(1) add.commute)
  moreover have "k \<noteq> 8" using Suc.prems(2) Suc.hyps(2) by simp
  ultimately have "varint_ref k (shr w (7 * n)) (groups w j n @ r) = varint_ref (Suc k) (shr w (7 * m)) (groups w j m @ r)"
    using m by (simp add: groups_Suc group_bits)
  also have "\<dots> = varint_ref (Suc k + (m - j)) (shr w (7 * j)) r"
    by (rule Suc.hyps(1)) (use Suc.prems Suc.hyps(2) m in auto)
  finally show ?case using m by (simp add: Suc_diff_le)
qed

text \<open>The number of groups of seven bits.\<close>

function ngroups :: "u64 \<Rightarrow> nat" where
  "ngroups v = (if shr v 7 = 0 then 1 else Suc (ngroups (shr v 7)))"
  by pat_completeness auto
termination
proof (relation "measure unat", simp)
  fix v :: u64
  assume "shr v 7 \<noteq> 0"
  moreover have "unat (shr v 7) = unat v div 2 ^ 7" by (rule unat_shr)
  ultimately show "(shr v 7, v) \<in> measure unat" using unat_eq_zero [of "shr v 7"] by simp
qed

declare ngroups.simps [simp del]

lemma ngroups_pos: "0 < ngroups v"
  by (subst ngroups.simps) simp

lemma putVarint_groups_eq: "putVarint_groups v = map (\<lambda>i. group (shr v (7 * i))) [0..<ngroups v]"
proof (induction v rule: ngroups.induct)
  case (1 v)
  show ?case
  proof (cases "shr v 7 = 0")
    case True
    then show ?thesis by (simp add: putVarint_groups.simps [of v] ngroups.simps [of v])
  next
    case False
    have "map (\<lambda>i. group (shr v (7 * i))) [0..<Suc (ngroups (shr v 7))]
        = group v # map (\<lambda>i. group (shr v (7 * Suc i))) [0..<ngroups (shr v 7)]"
      by (simp add: upt_conv_Cons map_Suc_upt [symmetric] o_def del: upt_Suc)
    then show ?thesis using False 1
      by (simp add: putVarint_groups.simps [of v] ngroups.simps [of v] add.commute Let_def del: upt_Suc)
  qed
qed

text \<open>The highest group is where the number ends.\<close>

lemma shr_ngroups: "shr v (7 * ngroups v) = 0"
proof (induction v rule: ngroups.induct)
  case (1 v)
  then show ?case
    by (cases "shr v 7 = 0") (simp_all add: ngroups.simps [of v] add.commute)
qed

lemma ngroups_le: "shr v (7 * n) = 0 \<Longrightarrow> 0 < n \<Longrightarrow> ngroups v \<le> n"
proof (induction n arbitrary: v)
  case (Suc n)
  show ?case
  proof (cases "shr v 7 = 0")
    case True
    then show ?thesis by (simp add: ngroups.simps [of v])
  next
    case False
    have "shr (shr v 7) (7 * n) = 0" using Suc.prems(1) by (simp add: add.commute)
    moreover have "0 < n" using False calculation by (cases n) auto
    ultimately show ?thesis using Suc.IH [of "shr v 7"] False by (simp add: ngroups.simps [of v])
  qed
qed simp

text \<open>What the writer writes.\<close>

lemma word7_range: "v \<le> 0x7f \<longleftrightarrow> shr v 7 = (0 :: u64)" "v \<le> 0x3fff \<longleftrightarrow> shr v 14 = (0 :: u64)"
  by (simp add: drop_bit_eq_div word_le_nat_alt word_unat_eq_iff unat_div div_eq_0_iff, arith)+

lemma high_byte: "v AND shl 0xff000000 32 = 0 \<longleftrightarrow> shr v 56 = (0 :: u64)"
proof -
  have "v AND shl 0xff000000 32 = shl (shr v 56) 56" by (rule bits64) (simp add: bit_simps)
  moreover have "shl (shr v 56) 56 = 0 \<longleftrightarrow> shr v 56 = 0"
  proof
    assume "shl (shr v 56) 56 = 0"
    then have "shr (shl (shr v 56) 56) 56 = 0" by simp
    moreover have "shr (shl (shr v 56) 56) 56 = shr v 56" by (rule bits64) (simp add: bit_simps)
    ultimately show "shr v 56 = 0" by simp
  qed simp
  ultimately show ?thesis by simp
qed

definition varint_enc :: "u64 \<Rightarrow> u8 list" where
  "varint_enc v =
     (if shr v 56 = 0 then groups v 1 (ngroups v) @ [u8_of (v AND 0x7f)]
      else groups (shr v 8) 0 8 @ [u8_of v])"

lemma putVarint64_eq: "putVarint64 v = Some (varint_enc v)"
proof (cases "shr v 56 = 0")
  case True
  have n: "ngroups v \<le> 8" using ngroups_le [of 8 v] True by simp
  obtain m where m: "ngroups v = Suc m" using ngroups_pos [of v] by (cases "ngroups v") auto
  have b: "(putVarint_groups v)[0 := putVarint_groups v ! 0 AND 0x7f] =
      u8_of (v AND 0x7f) # map (\<lambda>i. group (shr v (7 * i))) [1..<ngroups v]"
    unfolding putVarint_groups_eq m by (simp add: upt_conv_Cons group_bits del: upt_Suc)
  have "length (putVarint_groups v) \<le> 9" using n by (simp add: putVarint_groups_eq)
  then show ?thesis
    using True high_byte [of v] b by (simp add: putVarint64_def varint_enc_def Let_def groups_def rev_map)
next
  case False
  have e: "map (\<lambda>i. group (shr (shr v 8) (7 * (7 - i)))) [0..<8] = groups (shr v 8) 0 8"
  proof -
    have "rev [0..<8] = map (\<lambda>i. 7 - i) [0..<8]" by code_simp
    then show ?thesis by (simp only: groups_def map_map o_def)
  qed
  then show ?thesis using False high_byte [of v] by (simp only: putVarint64_def varint_enc_def Let_def simp_thms if_False if_True)
qed

lemma put_eq: "sqlite3PutVarint v = Some (varint_enc v)"
proof -
  have 56: "shr v 56 = 0" if "shr v 14 = 0"
  proof -
    have "shr v 56 = shr (shr v 14) 42" by simp
    then show ?thesis using that by (simp only: drop_bit_of_0)
  qed
  consider (one) "shr v 7 = 0" | (two) "shr v 7 \<noteq> 0" "shr v 14 = 0" | (more) "shr v 7 \<noteq> 0" "shr v 14 \<noteq> 0"
    by blast
  then show ?thesis
  proof cases
    case one
    have "shr v 14 = shr (shr v 7) 7" by simp
    then have "shr v 14 = 0" using one by (simp only: drop_bit_of_0)
    then show ?thesis using one 56
      by (simp add: sqlite3PutVarint_def word7_range varint_enc_def ngroups.simps [of v] groups_def)
  next
    case two
    have "shr (shr v 7) 7 = 0" using two by simp
    then have "ngroups v = 2" using two by (simp add: ngroups.simps [of v] ngroups.simps [of "shr v 7"])
    then show ?thesis using two 56
      by (simp add: sqlite3PutVarint_def word7_range varint_enc_def groups_def upt_conv_Cons)
  next
    case more
    then show ?thesis by (simp add: sqlite3PutVarint_def word7_range putVarint64_eq)
  qed
qed

lemma varint_ref_enc: "varint_ref 0 0 (varint_enc v @ r) = Some (v, word_of_nat (length (varint_enc v)))"
proof (cases "shr v 56 = 0")
  case True
  have n: "ngroups v \<le> 8" using ngroups_le [of 8 v] True by simp
  have "varint_ref 0 (shr v (7 * ngroups v)) (groups v 1 (ngroups v) @ u8_of (v AND 0x7f) # r) =
      varint_ref (0 + (ngroups v - 1)) (shr v (7 * 1)) (u8_of (v AND 0x7f) # r)"
    by (rule varint_ref_groups) (use n ngroups_pos [of v] in auto)
  moreover have "\<not> bit (u8_of (v AND 0x7f)) 7" by (simp add: bit_simps)
  moreover have "ngroups v - 1 \<noteq> 8" using n by simp
  ultimately show ?thesis
    using True ngroups_pos [of v] join_group(1) [of v] group_bits(3) [of v]
    by (simp add: varint_enc_def shr_ngroups groups_def)
next
  case False
  have "shr (shr v 8) (7 * 8) = 0" by (rule bits64) (simp add: bit_simps)
  then have "varint_ref 0 0 (groups (shr v 8) 0 8 @ u8_of v # r) = varint_ref 8 (shr v 8) (u8_of v # r)"
    using varint_ref_groups [of 0 8 0 "shr v 8" "u8_of v # r"] by simp
  then show ?thesis using False join_group(2) [of v] by (simp add: varint_enc_def groups_def)
qed

end
