(* ===== verification/Varint_Props.thy ===== *)
theory Varint_Props
  imports Varint_Spec
begin

text \<open>The properties of the variable-length and four-byte integers of tsrc/util.c.\<close>

section \<open>Lengths and the 32-bit reader\<close>

lemma length_varint_enc: "length (varint_enc v) = (if shr v 56 = 0 then ngroups v else 9)"
  using ngroups_pos [of v] by (simp add: varint_enc_def groups_def)

lemma ngroups_56: "shr v 56 = 0 \<Longrightarrow> ngroups v \<le> 8"
  using ngroups_le [of 8 v] by simp

lemma ngroups_10: "ngroups v \<le> 10"
proof (rule ngroups_le)
  show "shr v (7 * 10) = 0" by (rule bits64) (simp add: bit_simps)
qed simp

lemma varintLen_loop_eq: "0 < i \<Longrightarrow> i + ngroups v \<le> 11 \<Longrightarrow> varintLen_loop i v = Some (i + ngroups v - 1)"
proof (induction v arbitrary: i rule: ngroups.induct)
  case (1 v)
  show ?case
  proof (cases "shr v 7 = 0")
    case True
    then show ?thesis by (simp add: varintLen_loop.simps [of i v] ngroups.simps [of v])
  next
    case False
    have n: "ngroups v = Suc (ngroups (shr v 7))" using False by (simp add: ngroups.simps [of v])
    have "i < 10" using 1(3) ngroups_pos [of "shr v 7"] n by simp
    then show ?thesis using 1(1) [OF False, of "Suc i"] 1(3) False n
      by (simp add: varintLen_loop.simps [of i v] Let_def)
  qed
qed

lemma varintLen_eq: "sqlite3VarintLen v = Some (ngroups v)"
  using varintLen_loop_eq [of 1 v] ngroups_10 [of v] by (simp add: sqlite3VarintLen_def)

lemma ngroups_9: "v < 2 ^ 63 \<Longrightarrow> shr v 56 \<noteq> 0 \<Longrightarrow> ngroups v = 9"
proof -
  assume v: "v < 2 ^ 63" "shr v 56 \<noteq> 0"
  have "shr v (7 * 9) = 0"
    using v(1) by (simp add: drop_bit_eq_div word_less_nat_alt word_unat_eq_iff unat_div div_eq_0_iff)
  then have "ngroups v \<le> 9" by (rule ngroups_le) simp
  moreover have "\<not> ngroups v \<le> 8"
  proof
    assume "ngroups v \<le> 8"
    then have "shr v 56 = shr (shr v (7 * ngroups v)) (56 - 7 * ngroups v)" by simp
    then show False using v(2) by (simp only: shr_ngroups drop_bit_of_0)
  qed
  ultimately show ?thesis by simp
qed

lemma ngroups_top: "2 ^ 63 \<le> v \<Longrightarrow> ngroups v = 10"
proof -
  assume v: "2 ^ 63 \<le> v"
  have "\<not> ngroups v \<le> 9"
  proof
    assume "ngroups v \<le> 9"
    then have "shr v 63 = shr (shr v (7 * ngroups v)) (63 - 7 * ngroups v)" by simp
    then have "shr v 63 = 0" by (simp only: shr_ngroups drop_bit_of_0)
    then show False using v by (simp add: drop_bit_eq_div word_le_nat_alt word_unat_eq_iff unat_div div_eq_0_iff)
  qed
  then show ?thesis using ngroups_10 [of v] by simp
qed

section \<open>The 32-bit reader\<close>

lemma byte_high: "(b :: u8) < 0x80 \<longleftrightarrow> \<not> bit b 7"
proof -
  have "unat b < 256" using unsigned_less [of b] by simp
  then have "odd (unat b div 128) \<longleftrightarrow> \<not> unat b < 128"
  proof (cases "unat b < 128")
    case False
    then have "unat b div 128 = 1" using \<open>unat b < 256\<close> by (intro div_nat_eqI) simp_all
    then show ?thesis using False by simp
  qed simp
  moreover have "bit (unat b) 7 \<longleftrightarrow> bit b 7" by (simp add: bit_unsigned_iff)
  ultimately show ?thesis by (simp add: bit_iff_odd word_less_nat_alt)
qed

lemma and_max32: "(v :: u64) AND 0xffffffff = v \<longleftrightarrow> v \<le> 0xffffffff"
proof -
  have "v AND 0xffffffff = take_bit 32 v" by (simp add: take_bit_eq_mask mask_numeral)
  then have "unat (v AND 0xffffffff) = unat v mod 2 ^ 32" by (simp add: take_bit_eq_mod unat_mod_distrib)
  then show ?thesis by (auto simp: word_unat_eq_iff word_le_nat_alt mod_eq_self_iff_div_eq_0 div_eq_0_iff)
qed

definition cap32 :: "u64 \<times> u8 \<Rightarrow> u32 \<times> u8" where
  "cap32 = (\<lambda>(v, n). (if 0xffffffff < v then 0xffffffff else u32_of v, n))"

lemma cap32_small: "v = u64_of (x :: u32) \<Longrightarrow> cap32 (v, n) = (x, n)"
proof -
  have "u64_of x AND 0xffffffff = u64_of x" by (rule bits64) (simp add: bit_simps)
  then have "u64_of x \<le> 0xffffffff" by (simp only: and_max32)
  moreover have "u32_of (u64_of x) = x" by (rule bit_word_eqI) (auto simp: bit_simps)
  moreover assume "v = u64_of x"
  ultimately show ?thesis by (simp add: cap32_def not_less [symmetric])
qed

lemma cap32_and: "(if v AND 0xffffffff \<noteq> v then 0xffffffff else u32_of v, n) = cap32 (v, n)"
  using and_max32 [of v] by (auto simp: cap32_def)

lemma varint_ref_count: "varint_ref k acc p = Some (v, n) \<Longrightarrow> k \<le> 8 \<Longrightarrow> word_of_nat k < n \<and> n \<le> 9"
proof (induction k acc p rule: varint_ref.induct)
  case (2 k acc b p)
  have k: "unat (word_of_nat k :: u8) = k" "unat (word_of_nat (Suc k) :: u8) = Suc k"
    using 2(3) by (simp_all add: unat_of_nat take_bit_eq_mod del: of_nat_Suc)
  show ?case
  proof (cases "k = 8")
    case True
    then show ?thesis using 2(2) by (auto simp: word_less_nat_alt)
  next
    case False
    then have "word_of_nat (Suc k) < n \<and> n \<le> 9 \<or> n = word_of_nat (Suc k)"
      using 2 by (auto split: if_splits)
    then show ?thesis using 2(3) False k by (auto simp: word_less_nat_alt word_le_nat_alt simp del: of_nat_Suc)
  qed
qed simp

lemma getVarint32_eq: "getVarint32 p = map_option cap32 (sqlite3GetVarint p)"
proof (cases p rule: byte_cases)
  case empty
  then show ?thesis by (simp add: getVarint32_def sqlite3GetVarint_ref)
next
  case (stop b0 r)
  then have "b0 < 0x80" by (simp add: byte_high)
  moreover have "u64_of b0 = u64_of (u32_of b0)" by (rule bits64) (simp add: bit_simps)
  ultimately show ?thesis using stop
    by (simp add: getVarint32_def sqlite3GetVarint_ref) (rule sym, rule cap32_small, rule refl)
next
  case m0: (more b0 q)
  then have h: "\<not> b0 < 0x80" by (simp add: byte_high)
  show ?thesis
  proof (cases q rule: byte_cases)
    case empty
    then show ?thesis using m0 h by (simp add: getVarint32_def sqlite3GetVarint_ref sqlite3GetVarint32_def)
  next
    case (stop b1 r)
    then show ?thesis using m0 h
      by (simp add: getVarint32_def sqlite3GetVarint_ref sqlite3GetVarint32_def and_0x80 bit_simps)
        (rule sym, rule cap32_small, rule bits64, simp add: bit_simps disj_commute)
  next
    case m1: (more b1 q1)
    show ?thesis
    proof (cases q1 rule: byte_cases)
      case empty
      then show ?thesis using m0 m1 h
        by (simp add: getVarint32_def sqlite3GetVarint_ref sqlite3GetVarint32_def and_0x80 bit_simps)
    next
      case (stop b2 r)
      then show ?thesis using m0 m1 h
        by (simp add: getVarint32_def sqlite3GetVarint_ref sqlite3GetVarint32_def and_0x80 bit_simps)
          (rule sym, rule cap32_small, rule bits64, simp add: bit_simps disj_commute)
    next
      case m2: (more b2 q2)
      have "varint_ref 0 0 p = varint_ref 3 (shl (shl (shl 0 7 OR u64_of (b0 AND 0x7f)) 7 OR u64_of (b1 AND 0x7f)) 7 OR u64_of (b2 AND 0x7f)) q2"
        using m0 m1 m2 by (simp add: numeral_3_eq_3)
      then have "3 < n \<and> n \<le> 9" if "varint_ref 0 0 p = Some (v, n)" for v n
        using varint_ref_count [of 3 _ q2 v n] that by simp
      then show ?thesis using m0 m1 m2 h cap32_and
        by (cases "varint_ref 0 0 p")
          (auto simp: getVarint32_def sqlite3GetVarint_ref sqlite3GetVarint32_def and_0x80 bit_simps Let_def)
    qed
  qed
qed

lemma get_put_4byte: "sqlite3Get4byte (sqlite3Put4byte v @ r) = Some v"
proof -
  have "shl (u32_of (u8_of (shr v 24))) 24 OR shl (u32_of (u8_of (shr v 16))) 16 OR shl (u32_of (u8_of (shr v 8))) 8
      OR u32_of (u8_of v) = v"
    by (rule bits32) (simp add: bit_simps)
  then show ?thesis by (simp add: sqlite3Get4byte_def sqlite3Put4byte_def)
qed

section \<open>Properties\<close>

text \<open>C16: every 64-bit number written with \<open>sqlite3PutVarint\<close> takes between 1 and 9 bytes, and
  \<open>sqlite3GetVarint\<close> reads the same number and the same length back, whatever bytes follow. No assertion of
  either function fails.\<close>

theorem varint_roundtrip:
  "\<exists>bs. sqlite3PutVarint v = Some bs \<and> 1 \<le> length bs \<and> length bs \<le> 9 \<and>
    (\<forall>r. sqlite3GetVarint (bs @ r) = Some (v, word_of_nat (length bs)))"
  using put_eq [of v] varint_ref_enc [of v] ngroups_56 [of v] ngroups_pos [of v]
  by (auto simp: sqlite3GetVarint_ref length_varint_enc)

text \<open>C17: the unrolled reader \<open>sqlite3GetVarint\<close> with its 32-bit halves computes, for every byte sequence, what
  the plain loop over the bytes computes: seven bits per byte while the high bit is set, eight bits of a ninth
  byte. It never reads past the last byte of the number.\<close>

theorem varint_get_is_loop: "sqlite3GetVarint p = varint_ref 0 0 p"
  by (rule sqlite3GetVarint_ref)

text \<open>C18: \<open>getVarint32\<close> reads exactly what \<open>sqlite3GetVarint\<close> reads, with the same length, and replaces a number
  that does not fit into 32 bits by 0xffffffff; the assertion about the length never fails.\<close>

theorem getVarint32_saturates:
  "getVarint32 p = map_option (\<lambda>(v, n). (if 0xffffffff < v then 0xffffffff else u32_of v, n)) (sqlite3GetVarint p)"
  using getVarint32_eq [of p] by (simp add: cap32_def)

text \<open>\<open>sqlite3VarintLen\<close> is the length that \<open>sqlite3PutVarint\<close> writes for every number below 2^63. From 2^63
  on it says 10, one more than the nine bytes that are written.\<close>

theorem varintLen_length:
  "\<exists>bs. sqlite3PutVarint v = Some bs \<and>
    sqlite3VarintLen v = Some (if v < 2 ^ 63 then length bs else 10) \<and> length bs \<noteq> 10"
  using put_eq [of v] varintLen_eq [of v] length_varint_enc [of v] ngroups_9 [of v] ngroups_top [of v] ngroups_56 [of v]
  by (auto simp: not_less)

text \<open>\<open>sqlite3Put4byte\<close> writes four bytes from which \<open>sqlite3Get4byte\<close> reads the number back.\<close>

theorem four_byte_roundtrip:
  "length (sqlite3Put4byte v) = 4 \<and> (\<forall>r. sqlite3Get4byte (sqlite3Put4byte v @ r) = Some v)"
  using get_put_4byte by (simp add: sqlite3Put4byte_def)

end
