(* ===== verification/Files.thy ===== *)
theory Files
  imports Prelude "HOL-Library.Signed_Division"
begin

text \<open>
  What the file implementations share: result codes and flags of tsrc/sqlite3.h, C integer
  conversions, byte buffers, and the contract of an \<open>sqlite3_io_methods\<close> file as a locale. The
  contract is stated over the bytes a file holds; tsrc/memdb.c and the database file of
  test/test_onefile.c are shown to provide it, and test_onefile.c in turn relies on it for the
  file of its parent VFS that holds the blob.
\<close>

section \<open>Constants\<close>

definition SQLITE_OK :: int where "SQLITE_OK = 0"
definition SQLITE_ERROR :: int where "SQLITE_ERROR = 1"
definition SQLITE_NOMEM :: int where "SQLITE_NOMEM = 7"
definition SQLITE_NOTFOUND :: int where "SQLITE_NOTFOUND = 12"
definition SQLITE_TOOBIG :: int where "SQLITE_TOOBIG = 18"
definition SQLITE_FULL :: int where "SQLITE_FULL = 13"
definition SQLITE_IOERR_SHORT_READ :: int where "SQLITE_IOERR_SHORT_READ = 522"

definition SQLITE_OPEN_MAIN_DB :: u32 where "SQLITE_OPEN_MAIN_DB = 0x100"
definition SQLITE_OPEN_TEMP_DB :: u32 where "SQLITE_OPEN_TEMP_DB = 0x200"
definition SQLITE_OPEN_MEMORY :: u32 where "SQLITE_OPEN_MEMORY = 0x80"
definition SQLITE_SYNC_DATAONLY :: u32 where "SQLITE_SYNC_DATAONLY = 0x10"
definition SQLITE_ACCESS_EXISTS :: int where "SQLITE_ACCESS_EXISTS = 0"

lemmas rc_defs = SQLITE_OK_def SQLITE_ERROR_def SQLITE_NOMEM_def SQLITE_NOTFOUND_def
  SQLITE_FULL_def SQLITE_IOERR_SHORT_READ_def

section \<open>C integers\<close>

text \<open>\<open>c_int\<close> is the conversion to a 32-bit \<open>int\<close>; 64-bit offsets are integers.\<close>

definition c_int :: "int \<Rightarrow> int" where
  "c_int x = signed_take_bit 31 x"

lemma c_int_id [simp]: "- (2 ^ 31) \<le> x \<Longrightarrow> x < 2 ^ 31 \<Longrightarrow> c_int x = x"
  unfolding c_int_def by (rule signed_take_bit_int_eq_self) simp_all

lemma sdiv_pos: "0 \<le> a \<Longrightarrow> 0 < b \<Longrightarrow> (a::int) sdiv b = a div b"
  by (cases "a = 0") (simp_all add: signed_divide_int_def sgn_if)

lemma smod_pos: "0 \<le> a \<Longrightarrow> 0 < b \<Longrightarrow> (a::int) smod b = a mod b"
  by (cases "a = 0") (simp_all add: signed_modulo_int_def sgn_if sdiv_pos minus_div_mult_eq_mod)

section \<open>Buffers\<close>

type_synonym bytes = "u8 list"

text \<open>\<open>memcpy\<close> out of and into a buffer: no result when the range is not inside it.\<close>

definition mem_get :: "bytes \<Rightarrow> int \<Rightarrow> int \<Rightarrow> bytes option" where
  "mem_get buf ofst n =
     (if 0 \<le> ofst \<and> 0 \<le> n \<and> ofst + n \<le> int (length buf)
      then Some (take (nat n) (drop (nat ofst) buf)) else None)"

definition mem_put :: "bytes \<Rightarrow> int \<Rightarrow> bytes \<Rightarrow> bytes option" where
  "mem_put buf ofst z =
     (if 0 \<le> ofst \<and> ofst + int (length z) \<le> int (length buf)
      then Some (take (nat ofst) buf @ z @ drop (nat ofst + length z) buf) else None)"

text \<open>The content of a file after \<open>z\<close> was written at \<open>ofst\<close>, with a gap filled by zeros.\<close>

definition splice :: "bytes \<Rightarrow> nat \<Rightarrow> bytes \<Rightarrow> bytes" where
  "splice xs ofst z = take ofst xs @ replicate (ofst - length xs) 0 @ z @ drop (ofst + length z) xs"

definition slice_of :: "bytes \<Rightarrow> nat \<Rightarrow> nat \<Rightarrow> bytes" where
  "slice_of xs ofst n = take n (drop ofst xs)"

lemma length_splice [simp]: "length (splice xs ofst z) = max (length xs) (ofst + length z)"
  by (auto simp: splice_def)

lemma length_slice_of [simp]: "length (slice_of xs ofst n) = min n (length xs - ofst)"
  by (simp add: slice_of_def min.commute)

lemma nth_splice:
  assumes "ofst \<le> length xs" and "i < max (length xs) (ofst + length z)"
  shows "splice xs ofst z ! i = (if ofst \<le> i \<and> i < ofst + length z then z ! (i - ofst) else xs ! i)"
  using assms by (auto simp: splice_def nth_append)

lemma nth_slice_of: "i < n \<Longrightarrow> ofst + i < length xs \<Longrightarrow> slice_of xs ofst n ! i = xs ! (ofst + i)"
  by (simp add: slice_of_def)

lemma slice_splice_same [simp]:
  "ofst \<le> length xs \<Longrightarrow> slice_of (splice xs ofst z) ofst (length z) = z"
  by (simp add: slice_of_def splice_def)

lemma slice_splice_disjoint:
  assumes "ofst \<le> length xs" and "a + n \<le> length xs" and "a + n \<le> ofst \<or> ofst + length z \<le> a"
  shows "slice_of (splice xs ofst z) a n = slice_of xs a n"
  by (rule nth_equalityI) (use assms in \<open>auto simp: nth_slice_of nth_splice\<close>)

lemma splice_append:
  "ofst \<le> length xs \<Longrightarrow> splice (splice xs ofst y) (ofst + length y) z = splice xs ofst (y @ z)"
  by (rule nth_equalityI) (auto simp: nth_splice nth_append)

lemma splice_overwrite:
  "ofst \<le> length xs \<Longrightarrow> length y = length z \<Longrightarrow> splice (splice xs ofst y) ofst z = splice xs ofst z"
  by (rule nth_equalityI) (auto simp: nth_splice)

lemma splice_commute:
  assumes "a + length y \<le> b" and "b \<le> length xs"
  shows "splice (splice xs a y) b z = splice (splice xs b z) a y"
  by (rule nth_equalityI) (use assms in \<open>auto simp: nth_splice\<close>)

lemma take_splice:
  assumes "ofst \<le> n" and "n \<le> length xs"
  shows "take (max n (ofst + length z)) (splice xs ofst z) = splice (take n xs) ofst z"
  by (rule nth_equalityI) (use assms in \<open>auto simp: nth_splice\<close>)

lemma mem_put_splice:
  "ofst \<le> length xs \<Longrightarrow> ofst + length z \<le> length xs \<Longrightarrow> mem_put xs (int ofst) z = Some (splice xs ofst z)"
  by (simp add: mem_put_def splice_def)

section \<open>The contract of a file\<close>

text \<open>
  \<open>rd\<close>, \<open>wr\<close> and, below, \<open>tr\<close> are xRead, xWrite and xTruncate of one open file, over the state \<open>'s\<close> of
  its implementation. The buffer and its length \<open>iAmt\<close> are one list; xRead returns the buffer as
  it leaves it. \<open>view\<close> is the content of the file and \<open>inv\<close> the implementation's invariant.
\<close>

locale rw_file =
  fixes rd :: "bytes \<Rightarrow> int \<Rightarrow> 's \<Rightarrow> (int \<times> bytes) option"
    and wr :: "bytes \<Rightarrow> int \<Rightarrow> 's \<Rightarrow> (int \<times> 's) option"
    and view :: "'s \<Rightarrow> bytes"
    and inv :: "'s \<Rightarrow> bool"
  assumes rd_full: "inv s \<Longrightarrow> ofst + length buf \<le> length (view s)
      \<Longrightarrow> rd buf (int ofst) s = Some (SQLITE_OK, slice_of (view s) ofst (length buf))"
    and rd_short: "inv s \<Longrightarrow> length (view s) < ofst + length buf
      \<Longrightarrow> \<exists>out. rd buf (int ofst) s = Some (SQLITE_IOERR_SHORT_READ, out) \<and> length out = length buf"
    and wr_total: "inv s \<Longrightarrow> ofst \<le> length (view s) \<Longrightarrow> \<exists>rc s'. wr z (int ofst) s = Some (rc, s')"
    and wr_ok: "inv s \<Longrightarrow> ofst \<le> length (view s) \<Longrightarrow> wr z (int ofst) s = Some (SQLITE_OK, s')
      \<Longrightarrow> view s' = splice (view s) ofst z"
    and wr_frame: "inv s \<Longrightarrow> ofst \<le> length (view s) \<Longrightarrow> wr z (int ofst) s = Some (rc, s')
      \<Longrightarrow> inv s' \<and> length (view s) \<le> length (view s')
        \<and> (\<forall>i < length (view s). i < ofst \<or> ofst + length z \<le> i \<longrightarrow> view s' ! i = view s ! i)"
begin

lemma wr_inv: "inv s \<Longrightarrow> ofst \<le> length (view s) \<Longrightarrow> wr z (int ofst) s = Some (rc, s') \<Longrightarrow> inv s'"
  using wr_frame by blast

lemma read_after_write:
  assumes "inv s" and "ofst \<le> length (view s)" and "wr z (int ofst) s = Some (SQLITE_OK, s')"
    and "length buf = length z"
  shows "rd buf (int ofst) s' = Some (SQLITE_OK, z)"
  using rd_full [OF wr_inv [OF assms(1-3)], of ofst buf] wr_ok [OF assms(1-3)] assms(2,4) by simp

lemma read_unaffected:
  assumes "inv s" and "ofst \<le> length (view s)" and "wr z (int ofst) s = Some (rc, s')"
    and "a + length buf \<le> length (view s)" and "a + length buf \<le> ofst \<or> ofst + length z \<le> a"
  shows "rd buf (int a) s' = rd buf (int a) s"
proof -
  note f = wr_frame [OF assms(1-3)]
  have "slice_of (view s') a (length buf) = slice_of (view s) a (length buf)"
    by (rule nth_equalityI) (use f assms(4,5) in \<open>auto simp: nth_slice_of\<close>)
  then show ?thesis using rd_full [of s' a buf] rd_full [OF assms(1,4)] f assms(4) by simp
qed

text \<open>A file written by consecutive appends holds their concatenation.\<close>

primrec append_all :: "bytes list \<Rightarrow> nat \<Rightarrow> 's \<Rightarrow> 's option" where
  "append_all [] ofst s = Some s"
| "append_all (z # zs) ofst s =
     (case wr z (int ofst) s of
        Some (rc, s') \<Rightarrow> if rc = SQLITE_OK then append_all zs (ofst + length z) s' else None
      | None \<Rightarrow> None)"

lemma append_all_view:
  "inv s \<Longrightarrow> ofst \<le> length (view s) \<Longrightarrow> append_all zs ofst s = Some s'
    \<Longrightarrow> inv s' \<and> view s' = splice (view s) ofst (concat zs)"
proof (induction zs arbitrary: ofst s)
  case Nil
  then show ?case by (simp add: splice_def)
next
  case (Cons z zs)
  obtain s1 where s1: "wr z (int ofst) s = Some (SQLITE_OK, s1)" "append_all zs (ofst + length z) s1 = Some s'"
    using Cons.prems(3) by (auto split: option.splits if_splits)
  have v: "view s1 = splice (view s) ofst z" by (rule wr_ok [OF Cons.prems(1,2) s1(1)])
  show ?case
    using Cons.IH [OF wr_inv [OF Cons.prems(1,2) s1(1)] _ s1(2)] Cons.prems(2) v
    by (simp add: splice_append)
qed

end

text \<open>A file that can be truncated too.\<close>

locale vfs_file = rw_file rd wr view inv
  for rd :: "bytes \<Rightarrow> int \<Rightarrow> 's \<Rightarrow> (int \<times> bytes) option"
    and wr :: "bytes \<Rightarrow> int \<Rightarrow> 's \<Rightarrow> (int \<times> 's) option"
    and view :: "'s \<Rightarrow> bytes"
    and inv :: "'s \<Rightarrow> bool" +
  fixes tr :: "int \<Rightarrow> 's \<Rightarrow> (int \<times> 's) option"
  assumes tr_ok: "inv s \<Longrightarrow> n \<le> length (view s)
      \<Longrightarrow> \<exists>s'. tr (int n) s = Some (SQLITE_OK, s') \<and> inv s' \<and> view s' = take n (view s)"
begin

lemma truncate_then_read_short:
  assumes "inv s" and "n \<le> length (view s)" and "tr (int n) s = Some (rc, s')" and "n < ofst + length buf"
  shows "\<exists>out. rd buf (int ofst) s' = Some (SQLITE_IOERR_SHORT_READ, out)"
  using tr_ok [OF assms(1,2)] assms(3,4) rd_short [of s' ofst buf] assms(2) by auto

lemma truncate_keeps:
  assumes "inv s" and "n \<le> length (view s)" and "tr (int n) s = Some (rc, s')" and "ofst + length buf \<le> n"
  shows "rd buf (int ofst) s' = rd buf (int ofst) s"
  using tr_ok [OF assms(1,2)] assms(2-4) rd_full [of s' ofst buf] rd_full [OF assms(1), of ofst buf]
  by (auto simp: slice_of_def drop_take min_def)

end

end
