(* ===== verification/Ctype.thy ===== *)
theory Ctype
  imports Files
begin

text \<open>
  The character tables of tsrc/global.c (ASCII build), the macros of tsrc/sqliteInt.h that read them and
  the case-insensitive comparisons of tsrc/util.c. A C string is a list of bytes without its terminating
  zero; reading at its length gives the zero and reading beyond has no result.
\<close>

section \<open>C strings\<close>

definition c_at :: "u8 list \<Rightarrow> nat \<Rightarrow> u8 option" where
  "c_at z i = (if i < length z then Some (z ! i) else if i = length z then Some 0 else None)"

lemma c_at_simps [simp]:
  "c_at [] 0 = Some 0" "c_at (c # z) 0 = Some c" "c_at (c # z) (Suc i) = c_at z i"
  "c_at z (length z) = Some 0" "i < length z \<Longrightarrow> c_at z i = Some (z ! i)"
  by (simp_all add: c_at_def)

lemma c_at_append: "c_at (xs @ ys) (length xs + i) = c_at ys i"
  by (simp add: c_at_def nth_append)

text \<open>Bytes of a character.\<close>

abbreviation ch :: "char \<Rightarrow> u8" where
  "ch \<equiv> of_char"

abbreviation chs :: "string \<Rightarrow> u8 list" where
  "chs \<equiv> map of_char"

section \<open>Tables\<close>

definition sqlite3UpperToLower :: "u8 list" where
  "sqlite3UpperToLower = [
   0, 1, 2, 3, 4, 5, 6, 7, 8, 9, 10, 11, 12, 13, 14, 15, 16, 17,
   18, 19, 20, 21, 22, 23, 24, 25, 26, 27, 28, 29, 30, 31, 32, 33, 34, 35,
   36, 37, 38, 39, 40, 41, 42, 43, 44, 45, 46, 47, 48, 49, 50, 51, 52, 53,
   54, 55, 56, 57, 58, 59, 60, 61, 62, 63, 64, 97, 98, 99, 100, 101, 102, 103,
   104, 105, 106, 107, 108, 109, 110, 111, 112, 113, 114, 115, 116, 117, 118, 119, 120, 121,
   122, 91, 92, 93, 94, 95, 96, 97, 98, 99, 100, 101, 102, 103, 104, 105, 106, 107,
   108, 109, 110, 111, 112, 113, 114, 115, 116, 117, 118, 119, 120, 121, 122, 123, 124, 125,
   126, 127, 128, 129, 130, 131, 132, 133, 134, 135, 136, 137, 138, 139, 140, 141, 142, 143,
   144, 145, 146, 147, 148, 149, 150, 151, 152, 153, 154, 155, 156, 157, 158, 159, 160, 161,
   162, 163, 164, 165, 166, 167, 168, 169, 170, 171, 172, 173, 174, 175, 176, 177, 178, 179,
   180, 181, 182, 183, 184, 185, 186, 187, 188, 189, 190, 191, 192, 193, 194, 195, 196, 197,
   198, 199, 200, 201, 202, 203, 204, 205, 206, 207, 208, 209, 210, 211, 212, 213, 214, 215,
   216, 217, 218, 219, 220, 221, 222, 223, 224, 225, 226, 227, 228, 229, 230, 231, 232, 233,
   234, 235, 236, 237, 238, 239, 240, 241, 242, 243, 244, 245, 246, 247, 248, 249, 250, 251,
   252, 253, 254, 255]"

definition sqlite3CtypeMap :: "u8 list" where
  "sqlite3CtypeMap = [
   0x00, 0x00, 0x00, 0x00, 0x00, 0x00, 0x00, 0x00, 0x00, 0x01, 0x01, 0x01, 0x01, 0x01, 0x00, 0x00,
   0x00, 0x00, 0x00, 0x00, 0x00, 0x00, 0x00, 0x00, 0x00, 0x00, 0x00, 0x00, 0x00, 0x00, 0x00, 0x00,
   0x01, 0x00, 0x80, 0x00, 0x40, 0x00, 0x00, 0x80, 0x00, 0x00, 0x00, 0x00, 0x00, 0x00, 0x00, 0x00,
   0x0c, 0x0c, 0x0c, 0x0c, 0x0c, 0x0c, 0x0c, 0x0c, 0x0c, 0x0c, 0x00, 0x00, 0x00, 0x00, 0x00, 0x00,
   0x00, 0x0a, 0x0a, 0x0a, 0x0a, 0x0a, 0x0a, 0x02, 0x02, 0x02, 0x02, 0x02, 0x02, 0x02, 0x02, 0x02,
   0x02, 0x02, 0x02, 0x02, 0x02, 0x02, 0x02, 0x02, 0x02, 0x02, 0x02, 0x80, 0x00, 0x00, 0x00, 0x40,
   0x80, 0x2a, 0x2a, 0x2a, 0x2a, 0x2a, 0x2a, 0x22, 0x22, 0x22, 0x22, 0x22, 0x22, 0x22, 0x22, 0x22,
   0x22, 0x22, 0x22, 0x22, 0x22, 0x22, 0x22, 0x22, 0x22, 0x22, 0x22, 0x00, 0x00, 0x00, 0x00, 0x00,
   0x40, 0x40, 0x40, 0x40, 0x40, 0x40, 0x40, 0x40, 0x40, 0x40, 0x40, 0x40, 0x40, 0x40, 0x40, 0x40,
   0x40, 0x40, 0x40, 0x40, 0x40, 0x40, 0x40, 0x40, 0x40, 0x40, 0x40, 0x40, 0x40, 0x40, 0x40, 0x40,
   0x40, 0x40, 0x40, 0x40, 0x40, 0x40, 0x40, 0x40, 0x40, 0x40, 0x40, 0x40, 0x40, 0x40, 0x40, 0x40,
   0x40, 0x40, 0x40, 0x40, 0x40, 0x40, 0x40, 0x40, 0x40, 0x40, 0x40, 0x40, 0x40, 0x40, 0x40, 0x40,
   0x40, 0x40, 0x40, 0x40, 0x40, 0x40, 0x40, 0x40, 0x40, 0x40, 0x40, 0x40, 0x40, 0x40, 0x40, 0x40,
   0x40, 0x40, 0x40, 0x40, 0x40, 0x40, 0x40, 0x40, 0x40, 0x40, 0x40, 0x40, 0x40, 0x40, 0x40, 0x40,
   0x40, 0x40, 0x40, 0x40, 0x40, 0x40, 0x40, 0x40, 0x40, 0x40, 0x40, 0x40, 0x40, 0x40, 0x40, 0x40,
   0x40, 0x40, 0x40, 0x40, 0x40, 0x40, 0x40, 0x40, 0x40, 0x40, 0x40, 0x40, 0x40, 0x40, 0x40, 0x40]"

definition sqlite3Tolower :: "u8 \<Rightarrow> u8" where
  "sqlite3Tolower x = sqlite3UpperToLower ! unat x"

definition sqlite3Isspace :: "u8 \<Rightarrow> bool" where
  "sqlite3Isspace x \<longleftrightarrow> and (sqlite3CtypeMap ! unat x) 0x01 \<noteq> 0"

definition sqlite3Isalpha :: "u8 \<Rightarrow> bool" where
  "sqlite3Isalpha x \<longleftrightarrow> and (sqlite3CtypeMap ! unat x) 0x02 \<noteq> 0"

definition sqlite3Isdigit :: "u8 \<Rightarrow> bool" where
  "sqlite3Isdigit x \<longleftrightarrow> and (sqlite3CtypeMap ! unat x) 0x04 \<noteq> 0"

definition sqlite3Isalnum :: "u8 \<Rightarrow> bool" where
  "sqlite3Isalnum x \<longleftrightarrow> and (sqlite3CtypeMap ! unat x) 0x06 \<noteq> 0"

definition sqlite3Isxdigit :: "u8 \<Rightarrow> bool" where
  "sqlite3Isxdigit x \<longleftrightarrow> and (sqlite3CtypeMap ! unat x) 0x08 \<noteq> 0"

definition sqlite3Isquote :: "u8 \<Rightarrow> bool" where
  "sqlite3Isquote x \<longleftrightarrow> and (sqlite3CtypeMap ! unat x) 0x80 \<noteq> 0"

definition sqlite3Toupper :: "u8 \<Rightarrow> u8" where
  "sqlite3Toupper x = and x (not (and (sqlite3CtypeMap ! unat x) 0x20))"

definition IdChar :: "u8 \<Rightarrow> bool" where
  "IdChar x \<longleftrightarrow> and (sqlite3CtypeMap ! unat x) 0x46 \<noteq> 0"

text \<open>What the tables say about a byte: both are compared with a list of all bytes, entry by entry.\<close>

definition all_u8 :: "u8 list" where
  "all_u8 = [0, 1, 2, 3, 4, 5, 6, 7, 8, 9, 10, 11, 12, 13, 14, 15, 16, 17, 18, 19, 20, 21, 22, 23, 24, 25, 26,
    27, 28, 29, 30, 31, 32, 33, 34, 35, 36, 37, 38, 39, 40, 41, 42, 43, 44, 45, 46, 47, 48, 49, 50, 51,
    52, 53, 54, 55, 56, 57, 58, 59, 60, 61, 62, 63, 64, 65, 66, 67, 68, 69, 70, 71, 72, 73, 74, 75, 76,
    77, 78, 79, 80, 81, 82, 83, 84, 85, 86, 87, 88, 89, 90, 91, 92, 93, 94, 95, 96, 97, 98, 99, 100,
    101, 102, 103, 104, 105, 106, 107, 108, 109, 110, 111, 112, 113, 114, 115, 116, 117, 118, 119, 120,
    121, 122, 123, 124, 125, 126, 127, 128, 129, 130, 131, 132, 133, 134, 135, 136, 137, 138, 139, 140,
    141, 142, 143, 144, 145, 146, 147, 148, 149, 150, 151, 152, 153, 154, 155, 156, 157, 158, 159, 160,
    161, 162, 163, 164, 165, 166, 167, 168, 169, 170, 171, 172, 173, 174, 175, 176, 177, 178, 179, 180,
    181, 182, 183, 184, 185, 186, 187, 188, 189, 190, 191, 192, 193, 194, 195, 196, 197, 198, 199, 200,
    201, 202, 203, 204, 205, 206, 207, 208, 209, 210, 211, 212, 213, 214, 215, 216, 217, 218, 219, 220,
    221, 222, 223, 224, 225, 226, 227, 228, 229, 230, 231, 232, 233, 234, 235, 236, 237, 238, 239, 240,
    241, 242, 243, 244, 245, 246, 247, 248, 249, 250, 251, 252, 253, 254, 255]"

lemma nth_all_u8: "all_u8 ! unat c = c" "length all_u8 = 256"
proof -
  have l: "[0..<256] = [0, 1, 2, 3, 4, 5, 6, 7, 8, 9, 10, 11, 12, 13, 14, 15, 16, 17, 18, 19, 20, 21, 22, 23, 24, 25, 26,
    27, 28, 29, 30, 31, 32, 33, 34, 35, 36, 37, 38, 39, 40, 41, 42, 43, 44, 45, 46, 47, 48, 49, 50, 51,
    52, 53, 54, 55, 56, 57, 58, 59, 60, 61, 62, 63, 64, 65, 66, 67, 68, 69, 70, 71, 72, 73, 74, 75, 76,
    77, 78, 79, 80, 81, 82, 83, 84, 85, 86, 87, 88, 89, 90, 91, 92, 93, 94, 95, 96, 97, 98, 99, 100,
    101, 102, 103, 104, 105, 106, 107, 108, 109, 110, 111, 112, 113, 114, 115, 116, 117, 118, 119, 120,
    121, 122, 123, 124, 125, 126, 127, 128, 129, 130, 131, 132, 133, 134, 135, 136, 137, 138, 139, 140,
    141, 142, 143, 144, 145, 146, 147, 148, 149, 150, 151, 152, 153, 154, 155, 156, 157, 158, 159, 160,
    161, 162, 163, 164, 165, 166, 167, 168, 169, 170, 171, 172, 173, 174, 175, 176, 177, 178, 179, 180,
    181, 182, 183, 184, 185, 186, 187, 188, 189, 190, 191, 192, 193, 194, 195, 196, 197, 198, 199, 200,
    201, 202, 203, 204, 205, 206, 207, 208, 209, 210, 211, 212, 213, 214, 215, 216, 217, 218, 219, 220,
    221, 222, 223, 224, 225, 226, 227, 228, 229, 230, 231, 232, 233, 234, 235, 236, 237, 238, 239, 240,
    241, 242, 243, 244, 245, 246, 247, 248, 249, 250, 251, 252, 253, 254, 255]" by code_simp
  have e: "all_u8 = map word_of_nat [0..<256]" unfolding l all_u8_def by simp
  have "unat c < 256" using unsigned_less [of c] by simp
  then show "all_u8 ! unat c = c" unfolding e by simp
  show "length all_u8 = 256" unfolding e by simp
qed

lemma table_entry: "list_all2 P all_u8 t \<Longrightarrow> P c (t ! unat c)"
  using list_all2_nthD [of P all_u8 t "unat c"] unsigned_less [of c] by (simp add: nth_all_u8)

lemma tolower_range: "sqlite3Tolower c = (if 65 \<le> c \<and> c \<le> 90 then c + 32 else c)"
proof -
  have "list_all2 (\<lambda>c x. x = (if 65 \<le> c \<and> c \<le> 90 then c + 32 else c)) all_u8 sqlite3UpperToLower"
    unfolding all_u8_def sqlite3UpperToLower_def by simp (simp add: word_le_nat_alt)
  then show ?thesis unfolding sqlite3Tolower_def by (rule table_entry)
qed

definition ctype_ok :: "u8 \<Rightarrow> u8 \<Rightarrow> bool" where
  "ctype_ok c x \<longleftrightarrow> (and x 0x01 \<noteq> 0 \<longleftrightarrow> c = 32 \<or> 9 \<le> c \<and> c \<le> 13) \<and>
     (and x 0x04 \<noteq> 0 \<longleftrightarrow> 48 \<le> c \<and> c \<le> 57) \<and>
     (and x 0x08 \<noteq> 0 \<longleftrightarrow> 48 \<le> c \<and> c \<le> 57 \<or> 65 \<le> c \<and> c \<le> 70 \<or> 97 \<le> c \<and> c \<le> 102) \<and>
     (and x 0x02 \<noteq> 0 \<longleftrightarrow> 65 \<le> c \<and> c \<le> 90 \<or> 97 \<le> c \<and> c \<le> 122) \<and>
     (and x 0x80 \<noteq> 0 \<longleftrightarrow> c = 34 \<or> c = 39 \<or> c = 91 \<or> c = 96) \<and>
     (and x 0x46 \<noteq> 0 \<longleftrightarrow> 48 \<le> c \<and> c \<le> 57 \<or> 65 \<le> c \<and> c \<le> 90 \<or> 97 \<le> c \<and> c \<le> 122 \<or>
       c = 36 \<or> c = 95 \<or> 128 \<le> c)"

lemma ctype_table: "ctype_ok c (sqlite3CtypeMap ! unat c)"
proof -
  have "list_all2 ctype_ok all_u8 sqlite3CtypeMap"
    unfolding all_u8_def sqlite3CtypeMap_def by (simp add: ctype_ok_def) (simp add: word_le_nat_alt)
  then show ?thesis by (rule table_entry)
qed

lemma ctype_ranges:
  "sqlite3Isspace c \<longleftrightarrow> c = 32 \<or> 9 \<le> c \<and> c \<le> 13"
  "sqlite3Isdigit c \<longleftrightarrow> 48 \<le> c \<and> c \<le> 57"
  "sqlite3Isxdigit c \<longleftrightarrow> 48 \<le> c \<and> c \<le> 57 \<or> 65 \<le> c \<and> c \<le> 70 \<or> 97 \<le> c \<and> c \<le> 102"
  "sqlite3Isalpha c \<longleftrightarrow> 65 \<le> c \<and> c \<le> 90 \<or> 97 \<le> c \<and> c \<le> 122"
  "sqlite3Isquote c \<longleftrightarrow> c = 34 \<or> c = 39 \<or> c = 91 \<or> c = 96"
  "IdChar c \<longleftrightarrow> 48 \<le> c \<and> c \<le> 57 \<or> 65 \<le> c \<and> c \<le> 90 \<or> 97 \<le> c \<and> c \<le> 122 \<or> c = 36 \<or> c = 95 \<or> 128 \<le> c"
  using ctype_table [of c]
  by (simp_all only: ctype_ok_def sqlite3Isspace_def sqlite3Isdigit_def sqlite3Isxdigit_def sqlite3Isalpha_def
    sqlite3Isquote_def IdChar_def)

section \<open>Comparisons that ignore case\<close>

partial_function (option) stricmp_loop :: "u8 list \<Rightarrow> u8 list \<Rightarrow> nat \<Rightarrow> int option" where
  "stricmp_loop a b i = do {
     x \<leftarrow> c_at a i;
     y \<leftarrow> c_at b i;
     let c = uint (sqlite3Tolower x) - uint (sqlite3Tolower y);
     if c \<noteq> 0 \<or> x = 0 then Some c else stricmp_loop a b (i + 1) }"

definition sqlite3StrICmp :: "u8 list \<Rightarrow> u8 list \<Rightarrow> int option" where
  "sqlite3StrICmp zLeft zRight = stricmp_loop zLeft zRight 0"

text \<open>None is NULL.\<close>

definition sqlite3_stricmp :: "u8 list option \<Rightarrow> u8 list option \<Rightarrow> int option" where
  "sqlite3_stricmp zLeft zRight =
     (case zLeft of None \<Rightarrow> Some (if zRight \<noteq> None then - 1 else 0)
      | Some l \<Rightarrow> (case zRight of None \<Rightarrow> Some 1 | Some r \<Rightarrow> sqlite3StrICmp l r))"

partial_function (option) strnicmp_loop :: "u8 list \<Rightarrow> u8 list \<Rightarrow> nat \<Rightarrow> int \<Rightarrow> int option" where
  "strnicmp_loop a b i n =
     (if n > 0 then do {
        x \<leftarrow> c_at a i;
        y \<leftarrow> (if x \<noteq> 0 then c_at b i else Some 0);
        if x \<noteq> 0 \<and> sqlite3Tolower x = sqlite3Tolower y then strnicmp_loop a b (i + 1) (n - 1)
        else do {
          y \<leftarrow> c_at b i;
          Some (uint (sqlite3Tolower x) - uint (sqlite3Tolower y)) } }
      else Some 0)"

definition sqlite3_strnicmp :: "u8 list option \<Rightarrow> u8 list option \<Rightarrow> int \<Rightarrow> int option" where
  "sqlite3_strnicmp zLeft zRight n =
     (case zLeft of None \<Rightarrow> Some (if zRight \<noteq> None then - 1 else 0)
      | Some l \<Rightarrow> (case zRight of None \<Rightarrow> Some 1 | Some r \<Rightarrow> strnicmp_loop l r 0 n))"

end
