(* ===== verification/Intmath.thy ===== *)
theory Intmath
  imports Files "HOL-Library.Signed_Division"
begin

text \<open>
  Checked 64-bit arithmetic and the logarithmic estimates of tsrc/util.c. A signed 64-bit number is a
  64-bit word; \<open>sint\<close> reads it, so comparisons are on \<open>sint\<close> and \<open>+\<close>, \<open>-\<close>, \<open>*\<close> wrap. The branches are
  those for compilers without overflow builtins. A \<open>LogEst\<close> (\<open>i16\<close>) is an integer: its operations here
  stay far from the 16-bit limits.
\<close>

section \<open>Checked arithmetic\<close>

definition LARGEST_INT64 :: i64 where "LARGEST_INT64 = 0x7fffffffffffffff"
definition SMALLEST_INT64 :: i64 where "SMALLEST_INT64 = - 1 - LARGEST_INT64"

text \<open>C division truncates.\<close>

definition div64 :: "i64 \<Rightarrow> i64 \<Rightarrow> i64" where
  "div64 a b = word_of_int (sint a sdiv sint b)"

text \<open>The return code and the new \<open>*pA\<close>.\<close>

definition sqlite3AddInt64 :: "i64 \<Rightarrow> i64 \<Rightarrow> int \<times> i64" where
  "sqlite3AddInt64 iA iB =
     (if sint iB \<ge> 0 then
        (if sint iA > 0 \<and> sint (LARGEST_INT64 - iA) < sint iB then (1, iA) else (0, iA + iB))
      else
        (if sint iA < 0 \<and> sint (- (iA + LARGEST_INT64)) > sint (iB + 1) then (1, iA) else (0, iA + iB)))"

definition sqlite3SubInt64 :: "i64 \<Rightarrow> i64 \<Rightarrow> int \<times> i64" where
  "sqlite3SubInt64 iA iB =
     (if iB = SMALLEST_INT64 then (if sint iA \<ge> 0 then (1, iA) else (0, iA - iB))
      else sqlite3AddInt64 iA (- iB))"

definition sqlite3MulInt64 :: "i64 \<Rightarrow> i64 \<Rightarrow> int \<times> i64" where
  "sqlite3MulInt64 iA iB =
     (if sint iB > 0 then
        (if sint iA > sint (div64 LARGEST_INT64 iB) then (1, iA)
         else if sint iA < sint (div64 SMALLEST_INT64 iB) then (1, iA)
         else (0, iA * iB))
      else if sint iB < 0 then
        (if sint iA > 0 then
           (if sint iB < sint (div64 SMALLEST_INT64 iA) then (1, iA) else (0, iA * iB))
         else if sint iA < 0 then
           (if iB = SMALLEST_INT64 then (1, iA)
            else if iA = SMALLEST_INT64 then (1, iA)
            else if sint (- iA) > sint (div64 LARGEST_INT64 (- iB)) then (1, iA)
            else (0, iA * iB))
         else (0, iA * iB))
      else (0, iA * iB))"

definition sqlite3AbsInt32 :: "i32 \<Rightarrow> i32" where
  "sqlite3AbsInt32 x = (if sint x \<ge> 0 then x else if x = 0x80000000 then 0x7fffffff else - x)"

section \<open>Logarithmic estimates\<close>

definition logest_add_x :: "int list" where
  "logest_add_x = [10, 10, 9, 9, 8, 8, 7, 7, 7, 6, 6, 6, 5, 5, 5, 4, 4, 4, 4, 3, 3, 3, 3, 3, 3, 2, 2, 2, 2, 2, 2, 2]"

definition sqlite3LogEstAdd :: "int \<Rightarrow> int \<Rightarrow> int" where
  "sqlite3LogEstAdd a b =
     (if a \<ge> b then
        (if a > b + 49 then a else if a > b + 31 then a + 1 else a + logest_add_x ! nat (a - b))
      else
        (if b > a + 49 then b else if b > a + 31 then b + 1 else b + logest_add_x ! nat (b - a)))"

definition logest_a :: "int list" where
  "logest_a = [0, 2, 3, 5, 6, 7, 8, 9]"

text \<open>The loops of \<open>sqlite3LogEst\<close>: doubling up to 8, and the shifts by four and by one bit.\<close>

function logest_up :: "u64 \<Rightarrow> int \<Rightarrow> u64 \<times> int" where
  "logest_up x y = (if 0 < x \<and> x < 8 then logest_up (push_bit 1 x) (y - 10) else (x, y))"
  by pat_completeness auto
termination
proof (relation "measure (\<lambda>(x, y). 8 - unat x)", simp)
  fix x :: u64 and y :: int
  assume "0 < x \<and> x < 8"
  then have "0 < unat x" "unat x < 8" by (simp_all add: word_less_nat_alt)
  moreover have "unat (push_bit 1 x) = 2 * unat x"
    using \<open>unat x < 8\<close> by (simp add: push_bit_eq_mult unat_word_ariths)
  ultimately show "((push_bit 1 x, y - 10), x, y) \<in> measure (\<lambda>(x, y). 8 - unat x)" by simp
qed

function logest_down :: "nat \<Rightarrow> int \<Rightarrow> u64 \<Rightarrow> u64 \<Rightarrow> int \<Rightarrow> u64 \<times> int" where
  "logest_down k d lim x y = (if lim < x \<and> 0 < k then logest_down k d lim (drop_bit k x) (y + d) else (x, y))"
  by pat_completeness auto
termination
proof (relation "measure (\<lambda>(k, d, lim, x, y). unat x)", simp)
  fix k :: nat and d y :: int and lim x :: u64
  assume a: "lim < x \<and> 0 < k"
  then have "0 < unat x" by (simp add: word_less_nat_alt)
  moreover have "(2 :: nat) ^ k > 1" using a by (intro one_less_power) simp_all
  ultimately have "unat x div 2 ^ k < unat x" by (intro div_less_dividend)
  then show "((k, d, lim, drop_bit k x, y + d), k, d, lim, x, y) \<in> measure (\<lambda>(k, d, lim, x, y). unat x)"
    using unat_shr [of k x] by (simp del: drop_bit_eq_div)
qed

declare logest_up.simps [simp del] logest_down.simps [simp del]

definition sqlite3LogEst :: "u64 \<Rightarrow> int" where
  "sqlite3LogEst x =
     (if x < 8 then
        (if x < 2 then 0
         else let (x, y) = logest_up x 40 in logest_a ! unat (and x 7) + y - 10)
      else
        let (x, y) = logest_down 4 40 255 x 40; (x, y) = logest_down 1 10 15 x y in
        logest_a ! unat (and x 7) + y - 10)"

text \<open>A table of values for numbers \<open>x = 8 * 2^k, \<dots>\<close>; the branch that accepts every \<open>x\<close>.\<close>

definition sqlite3LogEstToInt :: "int \<Rightarrow> u64" where
  "sqlite3LogEstToInt x =
     (let n = word_of_int (x smod 10) :: u64; x = x sdiv 10;
          n = (if n \<ge> 5 then n - 2 else if n \<ge> 1 then n - 1 else n) in
      if x > 60 then LARGEST_INT64
      else if x \<ge> 3 then push_bit (nat (x - 3)) (n + 8) else drop_bit (nat (3 - x)) (n + 8))"

section \<open>Range facts\<close>

lemma sint_range: "- (2 ^ 63) \<le> sint (a :: i64)" "sint (a :: i64) < 2 ^ 63"
  using sint_greater_eq [of a] sint_less [of a] by simp_all

lemma sint_of_int64: "- (2 ^ 63) \<le> x \<Longrightarrow> x < 2 ^ 63 \<Longrightarrow> sint (word_of_int x :: i64) = x"
  by (simp add: signed_of_int signed_take_bit_int_eq_self)

lemma sint_limits: "sint LARGEST_INT64 = 2 ^ 63 - 1" "sint SMALLEST_INT64 = - (2 ^ 63)"
  by (simp_all add: LARGEST_INT64_def SMALLEST_INT64_def)

lemma smallest_eq: "a = SMALLEST_INT64 \<longleftrightarrow> sint a = - (2 ^ 63)"
proof
  assume "sint a = - (2 ^ 63)"
  then have "sint a = sint SMALLEST_INT64" by (simp only: sint_limits(2))
  then show "a = SMALLEST_INT64" by (rule signed_word_eqI)
qed (simp add: sint_limits)

lemma sint_add64: "- (2 ^ 63) \<le> sint a + sint b \<Longrightarrow> sint a + sint b < 2 ^ 63 \<Longrightarrow> sint (a + b :: i64) = sint a + sint b"
proof -
  have "a + b = word_of_int (sint a + sint b)" by simp
  then show "- (2 ^ 63) \<le> sint a + sint b \<Longrightarrow> sint a + sint b < 2 ^ 63 \<Longrightarrow> sint (a + b) = sint a + sint b"
    by (simp only: sint_of_int64)
qed

lemma sint_sub64: "- (2 ^ 63) \<le> sint a - sint b \<Longrightarrow> sint a - sint b < 2 ^ 63 \<Longrightarrow> sint (a - b :: i64) = sint a - sint b"
proof -
  have "a - b = word_of_int (sint a - sint b)" by simp
  then show "- (2 ^ 63) \<le> sint a - sint b \<Longrightarrow> sint a - sint b < 2 ^ 63 \<Longrightarrow> sint (a - b) = sint a - sint b"
    by (simp only: sint_of_int64)
qed

lemma sint_mul64: "- (2 ^ 63) \<le> sint a * sint b \<Longrightarrow> sint a * sint b < 2 ^ 63 \<Longrightarrow> sint (a * b :: i64) = sint a * sint b"
proof -
  have "a * b = word_of_int (sint a * sint b)" by simp
  then show "- (2 ^ 63) \<le> sint a * sint b \<Longrightarrow> sint a * sint b < 2 ^ 63 \<Longrightarrow> sint (a * b) = sint a * sint b"
    by (simp only: sint_of_int64)
qed

lemma sint_neg64: "sint a \<noteq> - (2 ^ 63) \<Longrightarrow> sint (- a :: i64) = - sint a"
  using sint_sub64 [of 0 a] sint_range [of a] by simp

section \<open>Checked arithmetic is exact\<close>

definition in64 :: "int \<Rightarrow> bool" where
  "in64 x \<longleftrightarrow> - (2 ^ 63) \<le> x \<and> x < 2 ^ 63"

text \<open>Code 1 and no change when the exact result does not fit, else code 0 and the exact result.\<close>

definition exact64 :: "int \<Rightarrow> i64 \<Rightarrow> int \<times> i64 \<Rightarrow> bool" where
  "exact64 x old r \<longleftrightarrow> (if in64 x then fst r = 0 \<and> sint (snd r) = x else r = (1, old))"

lemma exact64_overflow: "\<not> in64 x \<Longrightarrow> exact64 x a (1, a)"
  by (simp add: exact64_def)

lemma exact64_fits: "in64 x \<Longrightarrow> sint r = x \<Longrightarrow> exact64 x a (0, r)"
  by (simp add: exact64_def)

lemma add64_exact: "exact64 (sint a + sint b) a (sqlite3AddInt64 a b)"
proof (cases "sint b \<ge> 0")
  case True
  show ?thesis
  proof (cases "sint a > 0 \<and> sint (LARGEST_INT64 - a) < sint b")
    case over: True
    have "sint (LARGEST_INT64 - a) = 2 ^ 63 - 1 - sint a"
      using sint_sub64 [of LARGEST_INT64 a] over sint_range [of a] sint_limits by simp
    then have "\<not> in64 (sint a + sint b)" using over by (simp add: in64_def)
    then show ?thesis using over True by (simp add: sqlite3AddInt64_def exact64_overflow)
  next
    case fits: False
    have "in64 (sint a + sint b)"
    proof (cases "sint a > 0")
      case True
      have "sint (LARGEST_INT64 - a) = 2 ^ 63 - 1 - sint a"
        using sint_sub64 [of LARGEST_INT64 a] True sint_range [of a] sint_limits by simp
      then show ?thesis using True fits sint_range [of a] \<open>sint b \<ge> 0\<close> by (simp add: in64_def)
    next
      case False
      then show ?thesis using sint_range [of a] sint_range [of b] \<open>sint b \<ge> 0\<close> by (simp add: in64_def)
    qed
    then show ?thesis using fits True
      by (simp add: sqlite3AddInt64_def exact64_def sint_add64 in64_def)
  qed
next
  case False
  have n: "sint a < 0 \<Longrightarrow> sint (- (a + LARGEST_INT64)) = - (sint a + 2 ^ 63 - 1)"
    using sint_add64 [of a LARGEST_INT64] sint_neg64 [of "a + LARGEST_INT64"] sint_range [of a] sint_limits by simp
  have b: "sint (b + 1) = sint b + 1" using sint_add64 [of b 1] False sint_range [of b] by simp
  show ?thesis
  proof (cases "sint a < 0 \<and> sint (- (a + LARGEST_INT64)) > sint (b + 1)")
    case True
    then have "\<not> in64 (sint a + sint b)" using n b by (simp add: in64_def)
    then show ?thesis using False True by (simp add: sqlite3AddInt64_def exact64_overflow)
  next
    case fits: False
    have "in64 (sint a + sint b)"
      using fits n b False sint_range [of a] sint_range [of b] by (cases "sint a < 0") (simp_all add: in64_def)
    then show ?thesis using fits False
      by (simp add: sqlite3AddInt64_def exact64_def sint_add64 in64_def)
  qed
qed

lemma sub64_exact: "exact64 (sint a - sint b) a (sqlite3SubInt64 a b)"
proof (cases "b = SMALLEST_INT64")
  case True
  then show ?thesis
    using sint_limits(2) sint_range [of a] sint_sub64 [of a SMALLEST_INT64]
    by (auto simp: sqlite3SubInt64_def exact64_def in64_def)
next
  case False
  then have "sint (- b) = - sint b" by (simp add: sint_neg64 smallest_eq)
  then show ?thesis using add64_exact [of a "- b"] False by (simp add: sqlite3SubInt64_def)
qed

lemma div64_limits:
  assumes "sint b > 0"
  shows "sint (div64 LARGEST_INT64 b) = (2 ^ 63 - 1) div sint b" and "sint (div64 SMALLEST_INT64 b) = - (2 ^ 63 div sint b)"
proof -
  have q: "0 \<le> x div sint b" "x div sint b \<le> x" if "0 \<le> x" for x :: int
    using that assms zdiv_mono2 [of x 1 "sint b"] by (simp_all add: pos_imp_zdiv_nonneg_iff)
  have "sint LARGEST_INT64 sdiv sint b = (2 ^ 63 - 1) div sint b"
    using assms by (simp add: sint_limits signed_divide_int_def sgn_if)
  then show "sint (div64 LARGEST_INT64 b) = (2 ^ 63 - 1) div sint b"
    using q [of "2 ^ 63 - 1"] unfolding div64_def by (simp add: sint_of_int64)
  have "sint SMALLEST_INT64 sdiv sint b = - (2 ^ 63 div sint b)"
    using assms by (simp add: sint_limits signed_divide_int_def sgn_if)
  then show "sint (div64 SMALLEST_INT64 b) = - (2 ^ 63 div sint b)"
    using q [of "2 ^ 63"] sint_of_int64 [of "- (2 ^ 63 div sint b)"] unfolding div64_def by simp
qed

lemma div_less_mult: "0 < c \<Longrightarrow> x div c < a \<longleftrightarrow> x < a * c" for x c a :: int
proof -
  assume c: "0 < c"
  have x: "x = c * (x div c) + x mod c" "0 \<le> x mod c" "x mod c < c" using c by simp_all
  show ?thesis
  proof
    assume "x div c < a"
    then have "c * (x div c + 1) \<le> c * a" using c by (intro mult_left_mono) simp_all
    then have "c * (x div c) + c \<le> a * c" by (simp add: algebra_simps)
    then show "x < a * c" using x by linarith
  next
    assume l: "x < a * c"
    show "x div c < a"
    proof (rule ccontr)
      assume "\<not> x div c < a"
      then have "a * c \<le> c * (x div c)" using c mult_left_mono [of a "x div c" c] by (simp add: mult.commute)
      then show False using l x by linarith
    qed
  qed
qed

lemma mul64_exact: "exact64 (sint a * sint b) a (sqlite3MulInt64 a b)"
proof -
  have ok: "exact64 (sint a * sint b) a (0, a * b)" if "in64 (sint a * sint b)"
    using that sint_mul64 [of a b] by (simp add: exact64_fits in64_def)
  consider (zero) "sint b = 0" | (pos) "sint b > 0" | (nzero) "sint b < 0" "sint a = 0" | (npos) "sint b < 0" "sint a > 0"
    | (min) "sint b < 0" "sint a < 0" "b = SMALLEST_INT64 \<or> a = SMALLEST_INT64"
    | (neg) "sint b < 0" "sint a < 0" "b \<noteq> SMALLEST_INT64" "a \<noteq> SMALLEST_INT64"
    by linarith
  then show ?thesis
  proof cases
    case zero
    then show ?thesis using ok by (simp add: sqlite3MulInt64_def in64_def)
  next
    case pos
    have "2 ^ 63 - 1 < sint a * sint b \<longleftrightarrow> sint a > (2 ^ 63 - 1) div sint b"
      using div_less_mult [OF pos] by simp
    moreover have "sint a * sint b < - (2 ^ 63) \<longleftrightarrow> sint a < - (2 ^ 63 div sint b)"
      using div_less_mult [OF pos, of "2 ^ 63" "- sint a"] by linarith
    ultimately show ?thesis
      using pos ok exact64_overflow [of "sint a * sint b" a] by (auto simp: sqlite3MulInt64_def div64_limits in64_def)
  next
    case nzero
    then show ?thesis using ok by (simp add: sqlite3MulInt64_def in64_def)
  next
    case npos
    have "sint a * sint b < - (2 ^ 63) \<longleftrightarrow> sint b < - (2 ^ 63 div sint a)"
      using div_less_mult [OF npos(2), of "2 ^ 63" "- sint b"] by (simp add: mult.commute) linarith
    moreover have "sint a * sint b < 0" using npos by (simp add: mult_pos_neg)
    ultimately show ?thesis
      using npos ok exact64_overflow [of "sint a * sint b" a] by (auto simp: sqlite3MulInt64_def div64_limits in64_def)
  next
    case min
    have "2 ^ 63 \<le> sint a * sint b"
    proof -
      have "2 ^ 63 * 1 \<le> (- sint a) * (- sint b)"
      proof (cases "a = SMALLEST_INT64")
        case True
        then show ?thesis using min by (intro mult_mono) (simp_all add: sint_limits)
      next
        case False
        then have "2 ^ 63 = - sint b" using min by (simp add: sint_limits)
        then show ?thesis using min mult_mono [of "1" "- sint a" "2 ^ 63" "- sint b"] by simp
      qed
      then show ?thesis by simp
    qed
    then have "\<not> in64 (sint a * sint b)" by (simp add: in64_def)
    then show ?thesis using min exact64_overflow by (auto simp: sqlite3MulInt64_def)
  next
    case neg
    have m: "sint (- a) = - sint a" "sint (- b) = - sint b"
      using neg by (simp_all add: sint_neg64 smallest_eq [simplified])
    have "2 ^ 63 - 1 < sint a * sint b \<longleftrightarrow> - sint a > (2 ^ 63 - 1) div (- sint b)"
      using div_less_mult [of "- sint b" "2 ^ 63 - 1" "- sint a"] neg by simp
    moreover have "0 < sint a * sint b" using neg by (simp add: mult_neg_neg)
    moreover have "sint (div64 LARGEST_INT64 (- b)) = (2 ^ 63 - 1) div (- sint b)"
      using div64_limits(1) [of "- b"] m neg by simp
    ultimately show ?thesis
      using neg m ok exact64_overflow [of "sint a * sint b" a] by (auto simp: sqlite3MulInt64_def in64_def)
  qed
qed

section \<open>Estimates\<close>

lemma logest_add_bounds: "max a b \<le> sqlite3LogEstAdd a b \<and> sqlite3LogEstAdd a b \<le> max a b + 10"
proof -
  have "list_all (\<lambda>x. 0 \<le> x \<and> x \<le> 10) logest_add_x" by (simp add: logest_add_x_def)
  moreover have "length logest_add_x = 32" by (simp add: logest_add_x_def)
  ultimately have "0 \<le> logest_add_x ! nat d \<and> logest_add_x ! nat d \<le> 10" if "d \<le> 31" for d
    using that by (simp add: list_all_length)
  from this [of "a - b"] this [of "b - a"] show ?thesis by (auto simp: sqlite3LogEstAdd_def)
qed

lemma logest_add_commute: "sqlite3LogEstAdd a b = sqlite3LogEstAdd b a"
  by (simp add: sqlite3LogEstAdd_def)

section \<open>Properties\<close>

text \<open>C19: \<open>sqlite3AddInt64\<close>, \<open>sqlite3SubInt64\<close> and \<open>sqlite3MulInt64\<close> detect overflow exactly: when the mathematical
  result fits into 64 bits they return 0 and store it, otherwise they return 1 and leave \<open>*pA\<close> as it was.\<close>

theorem int64_arithmetic_exact:
  "exact64 (sint a + sint b) a (sqlite3AddInt64 a b) \<and> exact64 (sint a - sint b) a (sqlite3SubInt64 a b) \<and>
   exact64 (sint a * sint b) a (sqlite3MulInt64 a b)"
  using add64_exact sub64_exact mul64_exact by blast

text \<open>\<open>sqlite3AbsInt32\<close> is the absolute value, except that the smallest number, whose absolute value does not
  exist, gives the largest.\<close>

theorem absInt32_saturates: "sint (sqlite3AbsInt32 x) = min \<bar>sint x\<bar> (2 ^ 31 - 1)"
proof -
  have r: "- (2 ^ 31) \<le> sint x" "sint x < 2 ^ 31" using sint_greater_eq [of x] sint_less [of x] by simp_all
  have "sint (- x) = - sint x" if "sint x < 0" "sint x \<noteq> - (2 ^ 31)"
  proof -
    have "sint (word_of_int (- sint x) :: i32) = - sint x"
      unfolding signed_of_int using that r by (simp add: signed_take_bit_int_eq_self)
    then show ?thesis by simp
  qed
  moreover have "x = 0x80000000 \<longleftrightarrow> sint x = - (2 ^ 31)"
  proof
    assume "sint x = - (2 ^ 31)"
    then have "sint x = sint (0x80000000 :: i32)" by simp
    then show "x = 0x80000000" by (rule signed_word_eqI)
  qed simp
  ultimately show ?thesis using r by (auto simp: sqlite3AbsInt32_def min_def)
qed

end
