(* ===== verification/Numtext.thy ===== *)
theory Numtext
  imports Ctype Intmath
begin

text \<open>
  Text and numbers in tsrc/util.c: \<open>sqlite3Atoi64\<close> and its relatives, hexadecimal literals and
  \<open>sqlite3Dequote\<close>. A buffer is the list of its bytes, a pointer into it (\<open>zNum\<close>, \<open>zEnd\<close>) is its index
  and a read outside the buffer has no result; the functions on zero-terminated strings take the list of
  bytes before the terminator and read with \<open>c_at\<close>. The code compares a \<open>char\<close> with ASCII
  characters only, so whether \<open>char\<close> is signed does not matter: a byte above 127 is no digit either way.
\<close>

unbundle bit_operations_syntax

definition SQLITE_UTF8 :: u8 where "SQLITE_UTF8 = 1"
definition SQLITE_UTF16LE :: u8 where "SQLITE_UTF16LE = 2"
definition SQLITE_UTF16BE :: u8 where "SQLITE_UTF16BE = 3"

definition c_strlen :: "u8 list \<Rightarrow> nat" where
  "c_strlen z = length (takeWhile (\<lambda>c. c \<noteq> 0) z)"

definition sqlite3Strlen30 :: "u8 list option \<Rightarrow> nat" where
  "sqlite3Strlen30 z = (case z of None \<Rightarrow> 0 | Some z \<Rightarrow> unat (0x3fffffff AND (word_of_nat (c_strlen z) :: i32)))"

section \<open>Decimal numbers\<close>

text \<open>\<open>compare2pow63\<close>: the loop stops at the first digit that differs, then the last digit decides.\<close>

definition pow63 :: "u8 list" where
  "pow63 = [57, 50, 50, 51, 51, 55, 50, 48, 51, 54, 56, 53, 52, 55, 55, 53, 56, 48]"

primrec pow63_loop :: "u8 list \<Rightarrow> nat \<Rightarrow> nat \<Rightarrow> u8 list \<Rightarrow> int option" where
  "pow63_loop z p incr [] = Some 0"
| "pow63_loop z p incr (d # ds) = do {
     x \<leftarrow> nth_opt z p;
     let c = (uint x - uint d) * 10;
     if c = 0 then pow63_loop z (p + incr) incr ds else Some c }"

definition compare2pow63 :: "u8 list \<Rightarrow> nat \<Rightarrow> nat \<Rightarrow> int option" where
  "compare2pow63 z p incr = do {
     c \<leftarrow> pow63_loop z p incr pow63;
     if c = 0 then do { x \<leftarrow> nth_opt z (p + 18 * incr); Some (uint x - 56) } else Some c }"

text \<open>The loops of \<open>sqlite3Atoi64\<close>: the search for a UTF-16 character with a high byte, skipping
  characters, reading digits (the index \<open>i\<close> and the value \<open>u\<close>), and the test of what follows.\<close>

partial_function (option) high_byte_loop :: "u8 list \<Rightarrow> nat \<Rightarrow> nat \<Rightarrow> nat option" where
  "high_byte_loop z len i =
     (if i < len then do { c \<leftarrow> nth_opt z i; if c = 0 then high_byte_loop z len (i + 2) else Some i }
      else Some i)"

partial_function (option) skip_loop :: "(u8 \<Rightarrow> bool) \<Rightarrow> u8 list \<Rightarrow> nat \<Rightarrow> nat \<Rightarrow> nat \<Rightarrow> nat option" where
  "skip_loop P z zEnd incr zNum =
     (if zNum < zEnd then do {
        c \<leftarrow> nth_opt z zNum;
        if P c then skip_loop P z zEnd incr (zNum + incr) else Some zNum }
      else Some zNum)"

partial_function (option) digits_loop :: "u8 list \<Rightarrow> nat \<Rightarrow> nat \<Rightarrow> nat \<Rightarrow> nat \<Rightarrow> u64 \<Rightarrow> (nat \<times> u64) option" where
  "digits_loop z zEnd incr zNum i u =
     (if zNum + i < zEnd then do {
        c \<leftarrow> nth_opt z (zNum + i);
        if c \<ge> 48 \<and> c \<le> 57 then digits_loop z zEnd incr zNum (i + incr) (u * 10 + u64_of c - 48)
        else Some (i, u) }
      else Some (i, u))"

partial_function (option) trailing_loop :: "u8 list \<Rightarrow> nat \<Rightarrow> nat \<Rightarrow> nat \<Rightarrow> nat \<Rightarrow> int option" where
  "trailing_loop z zEnd incr zNum jj = do {
     c \<leftarrow> nth_opt z (zNum + jj);
     if \<not> sqlite3Isspace c then Some 1
     else if zNum + (jj + incr) < zEnd then trailing_loop z zEnd incr zNum (jj + incr)
     else Some 0 }"

text \<open>\<open>sqlite3Atoi64\<close> from the skipping of leading spaces on: the return code and \<open>*pNum\<close>.\<close>

definition atoi64_number :: "u8 list \<Rightarrow> nat \<Rightarrow> bool \<Rightarrow> nat \<Rightarrow> nat \<Rightarrow> (int \<times> i64) option" where
  "atoi64_number z incr nonNum zEnd zNum = do {
     zNum \<leftarrow> skip_loop sqlite3Isspace z zEnd incr zNum;
     (neg, zNum) \<leftarrow>
       (if zNum < zEnd then do {
          c \<leftarrow> nth_opt z zNum;
          Some (if c = ch CHR ''-'' then (True, zNum + incr)
                else if c = ch CHR ''+'' then (False, zNum + incr) else (False, zNum)) }
        else Some (False, zNum));
     let zStart = zNum;
     zNum \<leftarrow> skip_loop (\<lambda>c. c = 48) z zEnd incr zNum;
     (i, u) \<leftarrow> digits_loop z zEnd incr zNum 0 0;
     let pNum = (if u > LARGEST_INT64 then (if neg then SMALLEST_INT64 else LARGEST_INT64)
                 else if neg then - u else u);
     rc \<leftarrow> (if (i = 0 \<and> zStart = zNum) \<or> nonNum then Some 1
           else if zNum + i < zEnd then trailing_loop z zEnd incr zNum i else Some 0);
     if i < 19 * incr then do { check (u \<le> LARGEST_INT64); Some (rc, pNum) }
     else do {
       c \<leftarrow> (if i > 19 * incr then Some 1 else compare2pow63 z zNum incr);
       if c < 0 then do { check (u \<le> LARGEST_INT64); Some (rc, pNum) }
       else do {
         let pNum = (if neg then SMALLEST_INT64 else LARGEST_INT64);
         if c > 0 then Some (2, pNum)
         else do { check (u - 1 = LARGEST_INT64); Some (if neg then rc else 3, pNum) } } } }"

definition sqlite3Atoi64 :: "u8 list \<Rightarrow> nat \<Rightarrow> u8 \<Rightarrow> (int \<times> i64) option" where
  "sqlite3Atoi64 z len enc = do {
     check (enc = SQLITE_UTF8 \<or> enc = SQLITE_UTF16LE \<or> enc = SQLITE_UTF16BE);
     if enc = SQLITE_UTF8 then atoi64_number z 1 False len 0
     else do {
       i \<leftarrow> high_byte_loop z len (unat (3 - enc));
       atoi64_number z 2 (i < len) (i XOR 1) (unat (enc AND 1)) } }"

section \<open>Hexadecimal numbers\<close>

definition sqlite3HexToInt :: "int \<Rightarrow> u8 option" where
  "sqlite3HexToInt h = do {
     check (h \<ge> 48 \<and> h \<le> 57 \<or> h \<ge> 97 \<and> h \<le> 102 \<or> h \<ge> 65 \<and> h \<le> 70);
     let h = h + 9 * (1 AND drop_bit 6 h);
     Some (word_of_int (h AND 0xf)) }"

partial_function (option) cstr_skip :: "(u8 \<Rightarrow> bool) \<Rightarrow> u8 list \<Rightarrow> nat \<Rightarrow> nat option" where
  "cstr_skip P z i = do { c \<leftarrow> c_at z i; if P c then cstr_skip P z (i + 1) else Some i }"

partial_function (option) hex64_loop :: "u8 list \<Rightarrow> nat \<Rightarrow> u64 \<Rightarrow> (nat \<times> u64) option" where
  "hex64_loop z k u = do {
     c \<leftarrow> c_at z k;
     if sqlite3Isxdigit c then do { d \<leftarrow> sqlite3HexToInt (uint c); hex64_loop z (k + 1) (u * 16 + u64_of d) }
     else Some (k, u) }"

definition sqlite3DecOrHexToI64 :: "u8 list \<Rightarrow> (int \<times> i64) option" where
  "sqlite3DecOrHexToI64 z = do {
     c0 \<leftarrow> c_at z 0;
     hex \<leftarrow> (if c0 = 48 then do { c1 \<leftarrow> c_at z 1; Some (c1 = ch CHR ''x'' \<or> c1 = ch CHR ''X'') } else Some False);
     if hex then do {
       i \<leftarrow> cstr_skip (\<lambda>c. c = 48) z 2;
       (k, u) \<leftarrow> hex64_loop z i 0;
       c \<leftarrow> c_at z k;
       Some (if c = 0 \<and> k - i \<le> 16 then 0 else 2, u) }
     else sqlite3Atoi64 z (sqlite3Strlen30 (Some z)) SQLITE_UTF8 }"

section \<open>32-bit integers\<close>

partial_function (option) hex32_loop :: "u8 list \<Rightarrow> nat \<Rightarrow> nat \<Rightarrow> u32 \<Rightarrow> (nat \<times> u32) option" where
  "hex32_loop z p i u = do {
     c \<leftarrow> c_at z (p + i);
     if sqlite3Isxdigit c \<and> i < 8 then do {
       d \<leftarrow> sqlite3HexToInt (uint c);
       hex32_loop z p (i + 1) (u * 16 + u32_of d) }
     else Some (i, u) }"

partial_function (option) dec32_loop :: "u8 list \<Rightarrow> nat \<Rightarrow> nat \<Rightarrow> i64 \<Rightarrow> (nat \<times> i64) option" where
  "dec32_loop z p i v =
     (if i < 11 then do {
        x \<leftarrow> c_at z (p + i);
        let c = uint x - 48;
        if c \<ge> 0 \<and> c \<le> 9 then dec32_loop z p (i + 1) (v * 10 + word_of_int c) else Some (i, v) }
      else Some (i, v))"

text \<open>None inside the result is the return value 0, \<open>Some v\<close> is 1 with \<open>*pValue = v\<close>.\<close>

definition sqlite3GetInt32 :: "u8 list \<Rightarrow> i32 option option" where
  "sqlite3GetInt32 z = do {
     c0 \<leftarrow> c_at z 0;
     hex \<leftarrow> (if c0 = 48 then do {
               c1 \<leftarrow> c_at z 1;
               if c1 = ch CHR ''x'' \<or> c1 = ch CHR ''X'' then do { c2 \<leftarrow> c_at z 2; Some (sqlite3Isxdigit c2) } else Some False }
             else Some False);
     if hex then do {
       p \<leftarrow> cstr_skip (\<lambda>c. c = 48) z 2;
       (i, u) \<leftarrow> hex32_loop z p 0 0;
       c \<leftarrow> c_at z (p + i);
       Some (if u AND 0x80000000 = 0 \<and> \<not> sqlite3Isxdigit c then Some u else None) }
     else do {
       let neg = (c0 = ch CHR ''-'');
       let p = (if neg \<or> c0 = ch CHR ''+'' then 1 else 0);
       c \<leftarrow> c_at z p;
       if \<not> sqlite3Isdigit c then Some None else do {
       p \<leftarrow> cstr_skip (\<lambda>c. c = 48) z p;
       (i, v) \<leftarrow> dec32_loop z p 0 0;
       if i > 10 then Some None
       else if sint (v - (if neg then 1 else 0)) > 2147483647 then Some None
       else let v = (if neg then - v else v) in Some (Some (word_of_int (sint v))) } } }"

definition sqlite3Atoi :: "u8 list option \<Rightarrow> i32 option" where
  "sqlite3Atoi z = (case z of None \<Rightarrow> Some 0
     | Some z \<Rightarrow> do { r \<leftarrow> sqlite3GetInt32 z; Some (case r of None \<Rightarrow> 0 | Some x \<Rightarrow> x) })"

section \<open>Blob literals\<close>

text \<open>The loop fills \<open>zBlob\<close> from index \<open>i/2\<close> on; the byte after the last is zero. \<open>None\<close> inside the result
  is a failed allocation.\<close>

partial_function (option) blob_loop :: "u8 list \<Rightarrow> int \<Rightarrow> nat \<Rightarrow> u8 list option" where
  "blob_loop z n i =
     (if int i < n then do {
        c \<leftarrow> nth_opt z i; x \<leftarrow> sqlite3HexToInt (uint c);
        c \<leftarrow> nth_opt z (i + 1); y \<leftarrow> sqlite3HexToInt (uint c);
        r \<leftarrow> blob_loop z n (i + 2);
        Some ((shl x 4 OR y) # r) }
      else Some [0])"

definition sqlite3HexToBlob :: "faults \<Rightarrow> u8 list \<Rightarrow> int \<Rightarrow> u8 list option option" where
  "sqlite3HexToBlob ms z n =
     (if alloc_ok ms then do {
        let n = n - 1;
        b \<leftarrow> blob_loop z n 0;
        Some (Some b) }
      else Some None)"

section \<open>Quoted identifiers\<close>

text \<open>The buffer is rewritten in place: \<open>i\<close> reads, \<open>j\<close> writes.\<close>

definition buf_put :: "u8 list \<Rightarrow> nat \<Rightarrow> u8 \<Rightarrow> u8 list option" where
  "buf_put z i c = (if i < length z then Some (z[i := c]) else None)"

partial_function (option) dequote_loop :: "u8 \<Rightarrow> u8 list \<Rightarrow> nat \<Rightarrow> nat \<Rightarrow> u8 list option" where
  "dequote_loop quote z i j = do {
     c \<leftarrow> nth_opt z i;
     check (c \<noteq> 0);
     if c = quote then do {
       d \<leftarrow> nth_opt z (i + 1);
       if d = quote then do { z \<leftarrow> buf_put z j quote; dequote_loop quote z (i + 2) (j + 1) }
       else buf_put z j 0 }
     else do { z \<leftarrow> buf_put z j c; dequote_loop quote z (i + 1) (j + 1) } }"

definition sqlite3Dequote :: "u8 list option \<Rightarrow> u8 list option option" where
  "sqlite3Dequote z = (case z of None \<Rightarrow> Some None | Some z \<Rightarrow> do {
     quote \<leftarrow> nth_opt z 0;
     if \<not> sqlite3Isquote quote then Some (Some z)
     else do { z \<leftarrow> dequote_loop (if quote = ch CHR ''['' then ch CHR '']'' else quote) z 1 0; Some (Some z) } })"

end
