(* ===== verification/Numtext_Spec.thy ===== *)
theory Numtext_Spec
  imports Numtext
begin

text \<open>
  What the conversions of Numtext compute: \<open>reads\<close> relates a range of a buffer to the characters in it,
  each loop of \<open>sqlite3Atoi64\<close> becomes a list function on these characters, and the whole routine
  becomes \<open>atoi_spec\<close>, a function of the text that does not depend on its encoding.
\<close>

unbundle bit_operations_syntax

section \<open>Characters in a buffer\<close>

fun reads :: "u8 list \<Rightarrow> nat \<Rightarrow> nat \<Rightarrow> nat \<Rightarrow> u8 list \<Rightarrow> bool" where
  "reads z e incr p [] \<longleftrightarrow> e \<le> p"
| "reads z e incr p (c # us) \<longleftrightarrow> p < e \<and> nth_opt z p = Some c \<and> reads z e incr (p + incr) us"

lemma reads_drop: "reads z e incr p (us @ vs) \<Longrightarrow> reads z e incr (p + incr * length us) vs"
  by (induction us arbitrary: p) (auto simp: add.assoc [symmetric])

lemma reads_nth: "reads z e incr p us \<Longrightarrow> k < length us \<Longrightarrow> nth_opt z (p + k * incr) = Some (us ! k)"
proof (induction us arbitrary: p k)
  case (Cons c us)
  then show ?case by (cases k) (auto simp: add.assoc [symmetric])
qed simp

lemma reads_less: "reads z e incr p us \<Longrightarrow> p < e \<longleftrightarrow> us \<noteq> []"
  by (cases us) auto

lemma skip_loop_reads: "reads z e incr p us \<Longrightarrow> skip_loop P z e incr p = Some (p + incr * length (takeWhile P us))"
proof (induction us arbitrary: p)
  case Nil
  then show ?case by (subst skip_loop.simps) simp
next
  case (Cons c us)
  then show ?case by (subst skip_loop.simps) (simp add: add.assoc)
qed

lemma reads_dropWhile:
  "reads z e incr p us \<Longrightarrow> reads z e incr (p + incr * length (takeWhile P us)) (dropWhile P us)"
  using reads_drop [of z e incr p "takeWhile P us" "dropWhile P us"] by simp

lemma reads_plain: "reads (xs @ us @ ys) (length xs + length us) 1 (length xs) us"
proof (induction us arbitrary: xs)
  case (Cons c us)
  then show ?case using Cons [of "xs @ [c]"] by (simp add: nth_opt_append)
qed simp

section \<open>Digits\<close>

text \<open>Numerals in any base: what the decimal and the hexadecimal conversions share.\<close>

definition pval :: "nat \<Rightarrow> (u8 \<Rightarrow> nat) \<Rightarrow> u8 list \<Rightarrow> nat" where
  "pval base digit ds = foldl (\<lambda>v c. v * base + digit c) 0 ds"

lemma pval_foldl: "foldl (\<lambda>v c. v * base + digit c) n ds = n * base ^ length ds + pval base digit ds"
proof (induction ds arbitrary: n)
  case (Cons d ds)
  have "pval base digit (d # ds) = foldl (\<lambda>v c. v * base + digit c) (0 * base + digit d) ds"
    unfolding pval_def by simp
  then show ?case
    by (simp only: foldl.simps Cons list.size) (simp add: algebra_simps)
qed (simp add: pval_def)

lemma pval_Nil [simp]: "pval base digit [] = 0"
  by (simp add: pval_def)

lemma pval_Cons [simp]: "pval base digit (d # ds) = digit d * base ^ length ds + pval base digit ds"
  using pval_foldl [of base digit 0 "d # ds"] pval_foldl [of base digit "digit d" ds] by simp

lemma pval_snoc: "pval base digit (ds @ [d]) = pval base digit ds * base + digit d"
  by (simp add: pval_def)

locale numeral_system =
  fixes base :: nat and digit :: "u8 \<Rightarrow> nat" and valid :: "u8 \<Rightarrow> bool"
  assumes digit_less: "valid c \<Longrightarrow> digit c < base"
    and digit_pos: "valid c \<Longrightarrow> c \<noteq> 48 \<Longrightarrow> 1 \<le> digit c"
    and digit_zero: "digit 48 = 0" and valid_zero: "valid 48"
begin

lemma val_less: "list_all valid ds \<Longrightarrow> pval base digit ds < base ^ length ds"
proof (induction ds)
  case (Cons d ds)
  then have d: "digit d + 1 \<le> base" and v: "pval base digit ds < base ^ length ds" using digit_less [of d] by auto
  have "(digit d + 1) * base ^ length ds \<le> base * base ^ length ds" using d by (rule mult_le_mono1)
  then show ?case using v by simp
qed simp

lemma val_ge: "valid d \<Longrightarrow> d \<noteq> 48 \<Longrightarrow> base ^ length ds \<le> pval base digit (d # ds)"
  using mult_le_mono1 [OF digit_pos, of d "base ^ length ds"] by (simp add: trans_le_add1)

lemma val_zeros: "pval base digit (takeWhile (\<lambda>c. c = 48) s @ ds) = pval base digit ds"
  by (induction s) (auto simp: digit_zero)

lemma all_valid: "list_all valid (takeWhile valid t)"
  by (induction t) auto

text \<open>Leading zeros do not count.\<close>

lemma zeros_split:
  "takeWhile valid s = takeWhile (\<lambda>c. c = 48) s @ takeWhile valid (dropWhile (\<lambda>c. c = 48) s)"
  "dropWhile valid s = dropWhile valid (dropWhile (\<lambda>c. c = 48) s)"
  using valid_zero by (induction s) auto

lemma val_significant: "pval base digit (takeWhile valid (dropWhile (\<lambda>c. c = 48) s)) = pval base digit (takeWhile valid s)"
  using val_zeros [of s] zeros_split(1) [of s] by simp

lemma significant_ge:
  assumes "takeWhile valid (dropWhile (\<lambda>c. c = 48) s) \<noteq> []"
  shows "base ^ (length (takeWhile valid (dropWhile (\<lambda>c. c = 48) s)) - 1) \<le> pval base digit (takeWhile valid (dropWhile (\<lambda>c. c = 48) s))"
proof -
  obtain d r where d: "dropWhile (\<lambda>c. c = 48) s = d # r" "valid d"
    using assms by (cases "dropWhile (\<lambda>c. c = 48) s") (auto split: if_splits)
  have "d \<noteq> 48" using d(1) by (induction s) (auto split: if_splits)
  then show ?thesis using d val_ge [of d "takeWhile valid r"] by simp
qed

text \<open>The number of significant digits bounds the value on both sides.\<close>

lemma significant_length:
  assumes "1 < base"
  shows "length (takeWhile valid (dropWhile (\<lambda>c. c = 48) s)) \<le> k \<longleftrightarrow> pval base digit (takeWhile valid s) < base ^ k"
proof
  let ?ds = "takeWhile valid (dropWhile (\<lambda>c. c = 48) s)"
  assume "length ?ds \<le> k"
  then have "base ^ length ?ds \<le> base ^ k" using assms by (intro power_increasing) simp_all
  then show "pval base digit (takeWhile valid s) < base ^ k"
    using val_less [OF all_valid, of "dropWhile (\<lambda>c. c = 48) s"] val_significant [of s] by simp
next
  let ?ds = "takeWhile valid (dropWhile (\<lambda>c. c = 48) s)"
  assume v: "pval base digit (takeWhile valid s) < base ^ k"
  show "length ?ds \<le> k"
  proof (rule ccontr)
    assume l: "\<not> length ?ds \<le> k"
    then have "base ^ k \<le> base ^ (length ?ds - 1)" using assms by (intro power_increasing) simp_all
    moreover have "?ds \<noteq> []" using l by force
    ultimately show False using significant_ge [of s] v val_significant [of s] by simp
  qed
qed

end

definition is_dig :: "u8 \<Rightarrow> bool" where
  "is_dig c \<longleftrightarrow> 48 \<le> c \<and> c \<le> 57"

definition dig :: "u8 \<Rightarrow> nat" where
  "dig c = unat c - 48"

definition hexval :: "u8 \<Rightarrow> nat" where
  "hexval c = (if c \<le> 57 then unat c - 48 else if c \<le> 70 then unat c - 55 else unat c - 87)"

abbreviation dval :: "u8 list \<Rightarrow> nat" where
  "dval \<equiv> pval 10 dig"

abbreviation hval :: "u8 list \<Rightarrow> nat" where
  "hval \<equiv> pval 16 hexval"

lemma is_dig_unat: "is_dig c \<longleftrightarrow> 48 \<le> unat c \<and> unat c \<le> 57"
  by (simp add: is_dig_def word_le_nat_alt)

lemma dig_le: "is_dig c \<Longrightarrow> dig c \<le> 9"
  unfolding is_dig_unat dig_def by linarith

lemma unat_dig: "is_dig c \<Longrightarrow> unat c = dig c + 48"
  by (simp add: is_dig_unat dig_def)

lemma uint_dig: "is_dig c \<Longrightarrow> uint c = int (dig c) + 48"
  using unat_dig [of c] uint_nat [of c] by simp

lemma dig_pos: "is_dig d \<Longrightarrow> d \<noteq> 48 \<Longrightarrow> 1 \<le> dig d"
proof -
  assume a: "is_dig d" "d \<noteq> 48"
  then have "unat d \<noteq> 48" using word_unat_eq_iff [of d 48] by simp
  then show ?thesis using a(1) unfolding is_dig_unat dig_def by linarith
qed

interpretation dec: numeral_system 10 dig is_dig
proof unfold_locales
  show "is_dig c \<Longrightarrow> dig c < 10" for c using dig_le [of c] by simp
  show "is_dig c \<Longrightarrow> c \<noteq> 48 \<Longrightarrow> 1 \<le> dig c" for c by (rule dig_pos)
qed (simp_all add: is_dig_def dig_def)

lemma xdigit_unat:
  "sqlite3Isxdigit c \<longleftrightarrow> 48 \<le> unat c \<and> unat c \<le> 57 \<or> 65 \<le> unat c \<and> unat c \<le> 70 \<or> 97 \<le> unat c \<and> unat c \<le> 102"
  by (simp add: ctype_ranges word_le_nat_alt)

lemma hexval_unat: "hexval c = (if unat c \<le> 57 then unat c - 48 else if unat c \<le> 70 then unat c - 55 else unat c - 87)"
  by (simp add: hexval_def word_le_nat_alt)

interpretation hex: numeral_system 16 hexval sqlite3Isxdigit
proof unfold_locales
  show "hexval c < 16" if "sqlite3Isxdigit c" for c using that unfolding xdigit_unat hexval_unat by auto
  show "1 \<le> hexval c" if "sqlite3Isxdigit c" "c \<noteq> 48" for c
  proof -
    have "unat c \<noteq> 48" using that(2) word_unat_eq_iff [of c 48] by simp
    then show ?thesis using that(1) unfolding xdigit_unat hexval_unat by auto
  qed
qed (simp_all add: xdigit_unat hexval_unat)

lemma hexToInt: 
  assumes "sqlite3Isxdigit c"
  shows "sqlite3HexToInt (uint c) = Some (word_of_nat (hexval c))"
proof -
  have all: "\<forall>k\<in>{48, 49, 50, 51, 52, 53, 54, 55, 56, 57, 65, 66, 67, 68, 69, 70, 97, 98, 99, 100, 101, 102}.
    sqlite3HexToInt (int k) = Some (word_of_nat (if k \<le> 57 then k - 48 else if k \<le> 70 then k - 55 else k - 87))"
    by (simp add: sqlite3HexToInt_def)
  have "unat c \<in> {48, 49, 50, 51, 52, 53, 54, 55, 56, 57, 65, 66, 67, 68, 69, 70, 97, 98, 99, 100, 101, 102}"
    using assms unfolding xdigit_unat by simp arith
  from bspec [OF all this] show ?thesis unfolding hexval_unat uint_nat .
qed

text \<open>The accumulator \<open>u\<close> is the value modulo \<open>2 ^ 64\<close>.\<close>

lemma digits_loop_reads:
  "reads z e incr (p + i) us \<Longrightarrow>
   digits_loop z e incr p i (word_of_nat v) =
     Some (i + incr * length (takeWhile is_dig us), word_of_nat (foldl (\<lambda>v c. v * 10 + dig c) v (takeWhile is_dig us)))"
proof (induction us arbitrary: i v)
  case Nil
  then show ?case by (subst digits_loop.simps) simp
next
  case (Cons c us)
  show ?case
  proof (cases "is_dig c")
    case True
    have "u64_of c = word_of_nat (unat c)" by (simp add: unsigned_ucast_eq)
    then have e: "word_of_nat v * 10 + u64_of c - 48 = (word_of_nat (v * 10 + dig c) :: u64)"
      using True by (simp add: unat_dig)
    have "digits_loop z e incr p i (word_of_nat v) = digits_loop z e incr p (i + incr) (word_of_nat (v * 10 + dig c))"
      using True Cons.prems by (subst digits_loop.simps) (simp add: is_dig_def e del: of_nat_add of_nat_mult)
    then show ?thesis using True Cons.prems Cons.IH [of "i + incr" "v * 10 + dig c"] by (simp add: add.assoc)
  next
    case False
    then show ?thesis using Cons.prems by (subst digits_loop.simps) (auto simp: is_dig_def)
  qed
qed

lemma trailing_loop_reads:
  "reads z e incr (p + jj) us \<Longrightarrow> us \<noteq> [] \<Longrightarrow>
   trailing_loop z e incr p jj = Some (if \<exists>c\<in>set us. \<not> sqlite3Isspace c then 1 else 0)"
proof (induction us arbitrary: jj)
  case (Cons c us)
  then show ?case
    by (subst trailing_loop.simps) (cases us; auto simp: add.assoc)
qed simp

text \<open>The comparison with \<open>2 ^ 63\<close> is a comparison of values.\<close>

lemma digit_order:
  fixes a b v w n :: nat
  assumes "a < b" and "v < n"
  shows "a * n + v < b * n + w"
proof -
  have "(a + 1) * n \<le> b * n" using assms by (intro mult_le_mono1) simp
  then show ?thesis using assms by simp
qed

lemma pow63_loop_reads:
  assumes "reads z e incr p us" and "length ps \<le> length us" and "list_all is_dig (take (length ps) us)" and "list_all is_dig ps"
  shows "\<exists>c. pow63_loop z p incr ps = Some c \<and> (c = 0 \<longleftrightarrow> dval (take (length ps) us) = dval ps) \<and>
    (c < 0 \<longleftrightarrow> dval (take (length ps) us) < dval ps)"
  using assms
proof (induction ps arbitrary: p us)
  case (Cons d ps)
  then obtain x xs where us: "us = x # xs" by (cases us) auto
  let ?n = "10 ^ length ps :: nat" and ?v = "dval (take (length ps) xs)"
  have l: "length (take (length ps) xs) = length ps" using Cons.prems us by simp
  have "list_all is_dig (take (length ps) xs)"
    using Cons.prems us by simp
  then have b: "?v < ?n" "dval ps < ?n" using Cons.prems l dec.val_less by fastforce+
  have u: "uint x = int (dig x) + 48" "uint d = int (dig d) + 48" "nth_opt z p = Some x"
    using Cons.prems us by (auto simp: uint_dig)
  consider "dig x = dig d" | "dig x < dig d" | "dig d < dig x" by linarith
  then show ?case
  proof cases
    case 1
    then show ?thesis using Cons.IH [of "p + incr" xs] Cons.prems us u l by auto
  next
    case 2
    then show ?thesis using u l digit_order [OF 2 b(1), of "dval ps"] us by simp
  next
    case 3
    then show ?thesis using u l digit_order [OF 3 b(2), of ?v] us by simp
  qed
qed simp

lemma compare2pow63_reads:
  assumes "reads z e incr p us" and "19 \<le> length us" and "list_all is_dig (take 19 us)"
  obtains c where "compare2pow63 z p incr = Some c" and "c = 0 \<longleftrightarrow> dval (take 19 us) = 2 ^ 63"
    and "c < 0 \<longleftrightarrow> dval (take 19 us) < 2 ^ 63"
proof -
  let ?a = "dval (take 18 us)" and ?x = "dig (us ! 18)"
  have n: "length pow63 = 18" "list_all is_dig pow63" "dval pow63 = 922337203685477580"
    by (simp_all add: pow63_def is_dig_unat dig_def)
  have a18: "list_all is_dig (take (length pow63) us)"
    using assms(2,3) take_Suc_conv_app_nth [of 18 us] n(1) by simp
  obtain c where c: "pow63_loop z p incr pow63 = Some c" "c = 0 \<longleftrightarrow> ?a = dval pow63" "c < 0 \<longleftrightarrow> ?a < dval pow63"
    using pow63_loop_reads [OF assms(1) _ a18 n(2)] n(1) assms(2) by auto
  have x: "nth_opt z (p + 18 * incr) = Some (us ! 18)" using reads_nth [OF assms(1)] assms(2) by simp
  have d: "is_dig (us ! 18)" using assms(2,3) by (simp add: list_all_length)
  have t: "take 19 us = take 18 us @ [us ! 18]" using assms(2) take_Suc_conv_app_nth [of 18 us] by simp
  have v: "dval (take 19 us) = ?a * 10 + ?x" unfolding t by (rule pval_snoc)
  show thesis
  proof (cases "c = 0")
    case True
    then show thesis using c x v dig_le [OF d] uint_dig [OF d] n
      by (intro that [of "int ?x - 8"]) (auto simp: compare2pow63_def)
  next
    case False
    then show thesis using c x v dig_le [OF d] n by (intro that [of c]) (auto simp: compare2pow63_def)
  qed
qed

section \<open>The whole conversion\<close>

definition atoi_sign :: "u8 list \<Rightarrow> bool \<times> u8 list" where
  "atoi_sign us = (case us of [] \<Rightarrow> (False, [])
     | c # r \<Rightarrow> if c = ch CHR ''-'' then (True, r) else if c = ch CHR ''+'' then (False, r) else (False, us))"

definition clamp64 :: "int \<Rightarrow> int" where
  "clamp64 v = max (- (2 ^ 63)) (min (2 ^ 63 - 1) v)"

definition atoi_spec :: "bool \<Rightarrow> u8 list \<Rightarrow> int \<times> int" where
  "atoi_spec nonNum us =
     (let (neg, s) = atoi_sign (dropWhile sqlite3Isspace us);
          v = int (dval (takeWhile is_dig s));
          rc = (if takeWhile is_dig s = [] \<or> nonNum \<or> (\<exists>c\<in>set (dropWhile is_dig s). \<not> sqlite3Isspace c) then 1 else 0)
      in (if v > 2 ^ 63 then 2 else if v = 2 ^ 63 \<and> \<not> neg then 3 else rc, clamp64 (if neg then - v else v)))"

text \<open>The stored number.\<close>

lemma unat_small: "v < 2 ^ 64 \<Longrightarrow> unat (word_of_nat v :: u64) = v"
  by (simp add: unat_of_nat take_bit_eq_mod)

lemma store_small:
  assumes "v < 2 ^ 63"
  shows "(word_of_nat v :: u64) \<le> LARGEST_INT64" and "sint (word_of_nat v :: i64) = int v" and "sint (- word_of_nat v :: i64) = - int v"
proof -
  have u: "unat (word_of_nat v :: u64) = v" using assms by (intro unat_small) simp
  then show "(word_of_nat v :: u64) \<le> LARGEST_INT64"
    using assms by (simp add: word_le_nat_alt LARGEST_INT64_def)
  show p: "sint (word_of_nat v :: i64) = int v"
    using sint_of_int64 [of "int v"] assms by simp
  show "sint (- word_of_nat v :: i64) = - int v"
    using sint_of_int64 [of "- int v"] assms by simp
qed

lemma clamp_small: "v < 2 ^ 63 \<Longrightarrow> clamp64 (int v) = int v" "v < 2 ^ 63 \<Longrightarrow> clamp64 (- int v) = - int v"
  by (simp_all add: clamp64_def)

lemma clamp_big:
  "2 ^ 63 \<le> v \<Longrightarrow> clamp64 (int v) = sint LARGEST_INT64"
  "2 ^ 63 \<le> v \<Longrightarrow> clamp64 (- int v) = sint SMALLEST_INT64"
  by (simp_all add: clamp64_def sint_limits)

lemma sign_reads:
  assumes "reads z e incr p us" and "atoi_sign us = (neg, s)"
  obtains q where "(if p < e then do {
          c \<leftarrow> nth_opt z p;
          Some (if c = ch CHR ''-'' then (True, p + incr)
                else if c = ch CHR ''+'' then (False, p + incr) else (False, p)) }
        else Some (False, p)) = Some (neg, q)" and "reads z e incr q s"
  using assms by (cases us) (auto simp: atoi_sign_def split: if_splits)

text \<open>The return code before the size of the number is known.\<close>

lemma base_rc_reads:
  assumes "reads z e incr p s" and "0 < incr"
    and "ds = takeWhile is_dig (dropWhile (\<lambda>c. c = 48) s)" and "q = p + incr * length (takeWhile (\<lambda>c. c = 48) s)"
  shows "(if (incr * length ds = 0 \<and> p = q) \<or> nonNum then Some 1
          else if q + incr * length ds < e then trailing_loop z e incr q (incr * length ds) else Some 0) =
     Some (if takeWhile is_dig s = [] \<or> nonNum \<or> (\<exists>c\<in>set (dropWhile is_dig s). \<not> sqlite3Isspace c) then 1 else 0)"
proof -
  let ?r = "dropWhile is_dig s"
  have "reads z e incr q (dropWhile (\<lambda>c. c = 48) s)"
    unfolding assms(4) by (rule reads_dropWhile [OF assms(1)])
  from reads_dropWhile [OF this] have r: "reads z e incr (q + incr * length ds) ?r"
    using assms(3) dec.zeros_split(2) [of s] by simp
  have none: "incr * length ds = 0 \<and> p = q \<longleftrightarrow> takeWhile is_dig s = []"
    using assms(2-4) dec.zeros_split(1) [of s] by auto
  have "q + incr * length ds < e \<Longrightarrow> trailing_loop z e incr q (incr * length ds) =
      Some (if \<exists>c\<in>set ?r. \<not> sqlite3Isspace c then 1 else 0)"
    using trailing_loop_reads [OF r] reads_less [OF r] by simp
  then show ?thesis using none reads_less [OF r]
    by (cases "?r = []") (simp_all del: dropWhile_eq_Nil_conv)
qed

text \<open>The last part: the size of the number decides.\<close>

lemma size_cases:
  fixes rc :: int
  assumes r: "reads z e incr q t" and t: "ds = takeWhile is_dig t" and i: "0 < incr"
    and lead: "ds \<noteq> [] \<Longrightarrow> 10 ^ (length ds - 1) \<le> dval ds"
    and pn: "pn = (if (word_of_nat (dval ds) :: u64) > LARGEST_INT64 then (if neg then SMALLEST_INT64 else LARGEST_INT64)
                 else if neg then - word_of_nat (dval ds) else word_of_nat (dval ds))"
  obtains w where "(if incr * length ds < 19 * incr then do { check ((word_of_nat (dval ds) :: u64) \<le> LARGEST_INT64); Some (rc, pn) }
     else do {
       c \<leftarrow> (if incr * length ds > 19 * incr then Some 1 else compare2pow63 z q incr);
       if c < 0 then do { check ((word_of_nat (dval ds) :: u64) \<le> LARGEST_INT64); Some (rc, pn) }
       else do {
         let pNum = (if neg then SMALLEST_INT64 else LARGEST_INT64);
         if c > 0 then Some (2, pNum)
         else do { check ((word_of_nat (dval ds) :: u64) - 1 = LARGEST_INT64); Some (if neg then rc else 3, pNum) } } }) =
    Some (if dval ds > 2 ^ 63 then 2 else if dval ds = 2 ^ 63 \<and> \<not> neg then 3 else rc, w)"
    and "sint w = clamp64 (if neg then - int (dval ds) else int (dval ds))"
proof -
  have all: "list_all is_dig ds" unfolding t by (rule dec.all_valid)
  have small: "sint pn = clamp64 (if neg then - int (dval ds) else int (dval ds))" if "dval ds < 2 ^ 63"
    using store_small [OF that] clamp_small [OF that] pn by (simp add: not_less [symmetric])
  have big: "sint (if neg then SMALLEST_INT64 else LARGEST_INT64) = clamp64 (if neg then - int (dval ds) else int (dval ds))"
    if "2 ^ 63 \<le> dval ds"
    using clamp_big [OF that] by simp
  consider (short) "length ds < 19" | (exact) "length ds = 19" | (long) "19 < length ds" by linarith
  then show thesis
  proof cases
    case short
    then have "(10 :: nat) ^ length ds \<le> 10 ^ 18" by (intro power_increasing) simp_all
    then have v: "dval ds < 2 ^ 63" using dec.val_less [OF all] by simp
    then show thesis using short i store_small(1) [OF v] small by (intro that [of pn]) simp_all
  next
    case exact
    have l: "length t \<ge> 19" "take 19 t = ds"
      using exact t length_takeWhile_le [of is_dig t] takeWhile_eq_take [of is_dig t] by simp_all
    obtain c where c: "compare2pow63 z q incr = Some c" "c = 0 \<longleftrightarrow> dval ds = 2 ^ 63" "c < 0 \<longleftrightarrow> dval ds < 2 ^ 63"
      using compare2pow63_reads [OF r l(1)] l(2) all by auto
    have u: "dval ds < 2 ^ 64" using dec.val_less [OF all] exact by simp
    consider "dval ds < 2 ^ 63" | "dval ds = 2 ^ 63" | "2 ^ 63 < dval ds" by linarith
    then show thesis
    proof cases
      case 1
      then show thesis using exact c store_small(1) [OF 1] small by (intro that [of pn]) simp_all
    next
      case 2
      have "(word_of_nat (dval ds) :: u64) - 1 = LARGEST_INT64" unfolding 2 LARGEST_INT64_def by simp
      then show thesis using 2 exact c big by (intro that [of "if neg then SMALLEST_INT64 else LARGEST_INT64"]) simp_all
    next
      case 3
      then show thesis using exact c big by (intro that [of "if neg then SMALLEST_INT64 else LARGEST_INT64"]) simp_all
    qed
  next
    case long
    then have "(10 :: nat) ^ 19 \<le> 10 ^ (length ds - 1)" by (intro power_increasing) simp_all
    moreover have "10 ^ (length ds - 1) \<le> dval ds" using lead long by (cases ds) simp_all
    ultimately have v: "2 ^ 63 < dval ds" by simp
    then show thesis using long i big by (intro that [of "if neg then SMALLEST_INT64 else LARGEST_INT64"]) simp_all
  qed
qed

theorem atoi64_number_spec:
  assumes r: "reads z e incr p us" and i: "0 < incr"
  shows "map_option (apsnd sint) (atoi64_number z incr nonNum e p) = Some (atoi_spec nonNum us)"
proof -
  obtain neg s where sg: "atoi_sign (dropWhile sqlite3Isspace us) = (neg, s)" by force
  have w: "skip_loop sqlite3Isspace z e incr p = Some (p + incr * length (takeWhile sqlite3Isspace us))"
    by (rule skip_loop_reads [OF r])
  obtain q where q: "(if p + incr * length (takeWhile sqlite3Isspace us) < e then do {
          c \<leftarrow> nth_opt z (p + incr * length (takeWhile sqlite3Isspace us));
          Some (if c = ch CHR ''-'' then (True, p + incr * length (takeWhile sqlite3Isspace us) + incr)
                else if c = ch CHR ''+'' then (False, p + incr * length (takeWhile sqlite3Isspace us) + incr)
                else (False, p + incr * length (takeWhile sqlite3Isspace us))) }
        else Some (False, p + incr * length (takeWhile sqlite3Isspace us))) = Some (neg, q)" "reads z e incr q s"
    using sign_reads [OF reads_dropWhile [OF r] sg] by blast
  let ?z = "takeWhile (\<lambda>c. c = 48) s" and ?t = "dropWhile (\<lambda>c. c = 48) s"
  let ?ds = "takeWhile is_dig ?t" and ?q = "q + incr * length ?z"
  have t: "reads z e incr ?q ?t" by (rule reads_dropWhile [OF q(2)])
  have d: "digits_loop z e incr ?q 0 0 = Some (incr * length ?ds, word_of_nat (dval ?ds))"
    using digits_loop_reads [of z e incr ?q 0 ?t 0] t by (simp add: pval_def)
  have v: "dval (takeWhile is_dig s) = dval ?ds"
    unfolding dec.zeros_split(1) [of s] by (rule dec.val_zeros)
  let ?rc = "if takeWhile is_dig s = [] \<or> nonNum \<or> (\<exists>c\<in>set (dropWhile is_dig s). \<not> sqlite3Isspace c) then 1 else 0 :: int"
  have rc: "(if (incr * length ?ds = 0 \<and> q = ?q) \<or> nonNum then Some 1
          else if ?q + incr * length ?ds < e then trailing_loop z e incr ?q (incr * length ?ds) else Some 0) = Some ?rc"
    by (rule base_rc_reads [OF q(2) i refl refl])
  obtain x where x: "atoi64_number z incr nonNum e p =
      Some (if dval ?ds > 2 ^ 63 then 2 else if dval ?ds = 2 ^ 63 \<and> \<not> neg then 3 else ?rc, x)"
      "sint x = clamp64 (if neg then - int (dval ?ds) else int (dval ?ds))"
    by (rule size_cases [OF t refl i dec.significant_ge refl, where neg = neg and rc = ?rc])
      (assumption, erule that [rotated], simp only: atoi64_number_def w skip_loop_reads [OF q(2)] d rc q(1) Let_def bind.bind_lunit prod.case)
  show ?thesis
    unfolding x(1) atoi_spec_def sg by (simp add: x(2) v Let_def)
qed

section \<open>Encodings\<close>

text \<open>UTF-16 text as its 16-bit units, low byte first in each pair.\<close>

definition utf16 :: "u8 \<Rightarrow> (u8 \<times> u8) list \<Rightarrow> u8 list" where
  "utf16 enc us = concat (map (\<lambda>(lo, hi). if enc = SQLITE_UTF16LE then [lo, hi] else [hi, lo]) us)"

definition utf16_ascii :: "(u8 \<times> u8) list \<Rightarrow> u8 list" where
  "utf16_ascii us = map fst (takeWhile (\<lambda>(lo, hi). hi = 0) us)"

lemma length_utf16 [simp]: "length (utf16 enc us) = 2 * length us"
  by (induction us) (auto simp: utf16_def)

lemma utf16_simps [simp]:
  "utf16 enc [] = []" "utf16 SQLITE_UTF16LE ((lo, hi) # us) = lo # hi # utf16 SQLITE_UTF16LE us"
  "utf16 SQLITE_UTF16BE ((lo, hi) # us) = hi # lo # utf16 SQLITE_UTF16BE us"
  by (simp_all add: utf16_def SQLITE_UTF16LE_def SQLITE_UTF16BE_def)

lemma high_byte_LE:
  "length xs = k \<Longrightarrow> high_byte_loop (xs @ utf16 SQLITE_UTF16LE us) (k + 2 * length us) (k + 1) =
     Some (k + 1 + 2 * length (takeWhile (\<lambda>(lo, hi). hi = 0) us))"
proof (induction us arbitrary: xs k)
  case Nil
  then show ?case by (subst high_byte_loop.simps) simp
next
  case (Cons u us)
  obtain lo hi where u: "u = (lo, hi)" by force
  have "nth_opt (xs @ utf16 SQLITE_UTF16LE (u # us)) (k + 1) = Some hi"
    using Cons.prems by (simp add: u nth_opt_append)
  then show ?case using Cons.prems Cons.IH [of "xs @ [lo, hi]" "k + 2"]
    by (subst high_byte_loop.simps) (auto simp: u)
qed

lemma high_byte_BE:
  "length xs = k \<Longrightarrow> high_byte_loop (xs @ utf16 SQLITE_UTF16BE us) (k + 2 * length us) k =
     Some (k + 2 * length (takeWhile (\<lambda>(lo, hi). hi = 0) us))"
proof (induction us arbitrary: xs k)
  case Nil
  then show ?case by (subst high_byte_loop.simps) simp
next
  case (Cons u us)
  obtain lo hi where u: "u = (lo, hi)" by force
  have "nth_opt (xs @ utf16 SQLITE_UTF16BE (u # us)) k = Some hi"
    using Cons.prems by (simp add: u nth_opt_append)
  then show ?case using Cons.prems Cons.IH [of "xs @ [hi, lo]" "k + 2"]
    by (subst high_byte_loop.simps) (auto simp: u)
qed

lemma reads_LE: "length xs = k \<Longrightarrow>
   reads (xs @ utf16 SQLITE_UTF16LE us) (k + 2 * length (takeWhile (\<lambda>(lo, hi). hi = 0) us)) 2 k (utf16_ascii us)"
proof (induction us arbitrary: xs k)
  case (Cons u us)
  obtain lo hi where u: "u = (lo, hi)" by force
  then show ?case using Cons.prems Cons.IH [of "xs @ [lo, hi]" "k + 2"]
    by (auto simp: utf16_ascii_def nth_opt_append)
qed (simp add: utf16_ascii_def)

lemma reads_BE: "length xs = k \<Longrightarrow>
   reads (xs @ utf16 SQLITE_UTF16BE us) (k + 1 + 2 * length (takeWhile (\<lambda>(lo, hi). hi = 0) us)) 2 (k + 1) (utf16_ascii us)"
proof (induction us arbitrary: xs k)
  case (Cons u us)
  obtain lo hi where u: "u = (lo, hi)" by force
  then show ?case using Cons.prems Cons.IH [of "xs @ [hi, lo]" "k + 2"]
    by (auto simp: utf16_ascii_def nth_opt_append)
qed (simp add: utf16_ascii_def)

lemma takeWhile_shorter: "length (takeWhile P us) < length us \<longleftrightarrow> (\<exists>u\<in>set us. \<not> P u)"
  by (induction us) auto

lemma atoi64_utf8: "n \<le> length z \<Longrightarrow> map_option (apsnd sint) (sqlite3Atoi64 z n SQLITE_UTF8) = Some (atoi_spec False (take n z))"
proof -
  assume n: "n \<le> length z"
  have "reads z n 1 0 (take n z)" using reads_plain [of "[]" "take n z" "drop n z"] n by simp
  then show ?thesis using atoi64_number_spec [of z n 1 0] by (simp add: sqlite3Atoi64_def)
qed

lemma atoi64_utf16:
  assumes "enc = SQLITE_UTF16LE \<or> enc = SQLITE_UTF16BE"
  shows "map_option (apsnd sint) (sqlite3Atoi64 (utf16 enc us) (2 * length us) enc) =
    Some (atoi_spec (\<exists>(lo, hi)\<in>set us. hi \<noteq> 0) (utf16_ascii us))"
proof -
  let ?n = "length (takeWhile (\<lambda>(lo, hi). hi = 0) us)" and ?h = "\<exists>(lo, hi)\<in>set us. hi \<noteq> 0"
  have h: "?n < length us \<longleftrightarrow> ?h" using takeWhile_shorter [of "\<lambda>(lo, hi). hi = 0" us] by auto
  have x: "Suc (2 * k) XOR Suc 0 = 2 * k" "2 * k XOR Suc 0 = Suc (2 * k)" "Suc (2 * k) < 2 * m \<longleftrightarrow> k < m" for k m :: nat
    using xor_one_eq [of "Suc (2 * k)"] xor_one_eq [of "2 * k"] by auto
  show ?thesis using assms
  proof
    assume e: "enc = SQLITE_UTF16LE"
    have "sqlite3Atoi64 (utf16 enc us) (2 * length us) enc = atoi64_number (utf16 SQLITE_UTF16LE us) 2 ?h (2 * ?n) 0"
      using high_byte_LE [of "[]" 0 us] h
      by (simp add: sqlite3Atoi64_def e x) (simp add: SQLITE_UTF16LE_def SQLITE_UTF8_def x)
    then show ?thesis using atoi64_number_spec [OF reads_LE [of "[]" 0 us], of ?h] by simp
  next
    assume e: "enc = SQLITE_UTF16BE"
    have "sqlite3Atoi64 (utf16 enc us) (2 * length us) enc = atoi64_number (utf16 SQLITE_UTF16BE us) 2 ?h (2 * ?n + 1) 1"
      using high_byte_BE [of "[]" 0 us] h
      by (simp add: sqlite3Atoi64_def e x) (simp add: SQLITE_UTF16BE_def SQLITE_UTF8_def x)
    then show ?thesis using atoi64_number_spec [OF reads_BE [of "[]" 0 us], of ?h] by simp
  qed
qed

end
