(* ===== verification/Numtext_Props.thy ===== *)
theory Numtext_Props
  imports Numtext_Spec
begin

text \<open>
  Properties of the text conversions: the conversions to 64 and 32 bits on any text, blob literals, and
  quoted identifiers.
\<close>

unbundle bit_operations_syntax

section \<open>Loops over zero-terminated strings\<close>

lemma c_at_mid: "c_at (xs @ us) (length xs) = Some (case us of [] \<Rightarrow> 0 | c # _ \<Rightarrow> c)"
  by (cases us) (simp_all add: c_at_def nth_append)

lemma cstr_skip_run: "\<not> P 0 \<Longrightarrow> cstr_skip P (xs @ us) (length xs) = Some (length xs + length (takeWhile P us))"
proof (induction us arbitrary: xs)
  case Nil
  then show ?case by (subst cstr_skip.simps) (simp add: c_at_def)
next
  case (Cons c us)
  then show ?case using Cons.IH [of "xs @ [c]"]
    by (subst cstr_skip.simps) (simp add: c_at_mid [of xs "c # us", simplified])
qed

lemma next_char: "\<not> P 0 \<Longrightarrow> \<not> P (case dropWhile P t of [] \<Rightarrow> 0 | c # _ \<Rightarrow> c)"
  by (induction t) auto

lemma cstr_skip_two: "\<not> P 0 \<Longrightarrow> cstr_skip P (a # b # us) 2 = Some (2 + length (takeWhile P us))"
  using cstr_skip_run [of P "[a, b]" us] by (simp add: numeral_2_eq_2)

lemma zero_class: "\<not> sqlite3Isxdigit 0" "\<not> is_dig 0" "\<not> sqlite3Isdigit 0"
  by (simp_all add: xdigit_unat is_dig_unat ctype_ranges)

lemma hex64_loop_run:
  "hex64_loop (xs @ us) (length xs) (word_of_nat v) =
     Some (length xs + length (takeWhile sqlite3Isxdigit us),
       word_of_nat (foldl (\<lambda>v c. v * 16 + hexval c) v (takeWhile sqlite3Isxdigit us)))"
proof (induction us arbitrary: xs v)
  case Nil
  show ?case by (subst hex64_loop.simps) (simp add: c_at_def zero_class)
next
  case (Cons c us)
  have at: "c_at (xs @ c # us) (length xs) = Some c" by (simp add: c_at_mid)
  show ?case
  proof (cases "sqlite3Isxdigit c")
    case True
    have "hexval c < 256" using hex.digit_less [OF True] by simp
    then have "u64_of (word_of_nat (hexval c) :: u8) = word_of_nat (hexval c)"
      by (simp add: unsigned_ucast_eq unsigned_of_nat take_bit_nat_eq_self)
    then show ?thesis using True Cons.IH [of "xs @ [c]" "v * 16 + hexval c"]
      by (subst hex64_loop.simps) (simp add: at hexToInt)
  next
    case False
    then show ?thesis by (subst hex64_loop.simps) (simp add: at)
  qed
qed

lemma hex64_number:
  assumes hs: "list_all sqlite3Isxdigit hs" and x: "x = ch CHR ''x'' \<or> x = ch CHR ''X''"
  shows "sqlite3DecOrHexToI64 (48 # x # hs) = Some (if hval hs < 2 ^ 64 then 0 else 2, word_of_nat (hval hs))"
proof -
  let ?z = "takeWhile (\<lambda>c. c = 48) hs" and ?t = "dropWhile (\<lambda>c. c = 48) hs"
  have all: "takeWhile sqlite3Isxdigit hs = hs" "takeWhile sqlite3Isxdigit ?t = ?t"
    using hs by (simp_all add: list_all_iff) (metis set_dropWhileD takeWhile_eq_all_conv)
  have k: "cstr_skip (\<lambda>c. c = 48) (48 # x # hs) 2 = Some (2 + length ?z)"
    by (rule cstr_skip_two) simp
  have z: "48 # x # hs = ([48, x] @ ?z) @ ?t" by simp
  have l: "hex64_loop (48 # x # hs) (2 + length ?z) 0 = Some (length (48 # x # hs), word_of_nat (hval ?t))"
    using hex64_loop_run [of "[48, x] @ ?z" ?t 0] all by (simp add: pval_def z [symmetric]) (metis length_append takeWhile_dropWhile_id)
  have d: "length (48 # x # hs) - (2 + length ?z) = length ?t"
    using length_append [of ?z ?t] by simp
  have s: "length ?t \<le> 16 \<longleftrightarrow> hval hs < 2 ^ 64" "hval ?t = hval hs"
    using hex.significant_length [of hs 16] hex.val_significant [of hs] all by simp_all
  have at: "c_at (48 # x # hs) 0 = Some 48" "c_at (48 # x # hs) 1 = Some x" "c_at (48 # x # hs) (length (48 # x # hs)) = Some 0"
    by (simp_all add: c_at_def)
  define Z where "Z = 48 # x # hs"
  show ?thesis
    using k l d s at x unfolding Z_def [symmetric] by (simp add: sqlite3DecOrHexToI64_def)
qed

section \<open>32-bit integers\<close>

lemma hex32_loop_run:
  "i \<le> 8 \<Longrightarrow> hex32_loop (xs @ us) (length xs - i) i (word_of_nat v) =
     Some (i + length (takeWhile sqlite3Isxdigit (take (8 - i) us)),
       word_of_nat (foldl (\<lambda>v c. v * 16 + hexval c) v (takeWhile sqlite3Isxdigit (take (8 - i) us))))"
  if "i \<le> length xs"
  using that
proof (induction us arbitrary: xs v i)
  case Nil
  then show ?case by (subst hex32_loop.simps) (simp add: c_at_def zero_class)
next
  case (Cons c us)
  have at: "c_at (xs @ c # us) (length xs - i + i) = Some c" using Cons.prems by (simp add: c_at_mid)
  show ?case
  proof (cases "sqlite3Isxdigit c \<and> i < 8")
    case True
    have "hexval c < 256" using hex.digit_less [of c] True by simp
    then have "u32_of (word_of_nat (hexval c) :: u8) = word_of_nat (hexval c)"
      by (simp add: unsigned_ucast_eq unsigned_of_nat take_bit_nat_eq_self)
    moreover have "8 - i = Suc (8 - Suc i)" using True by linarith
    ultimately show ?thesis using True Cons.prems Cons.IH [of "Suc i" "xs @ [c]" "v * 16 + hexval c"]
      by (subst hex32_loop.simps) (simp add: at hexToInt)
  next
    case False
    then show ?thesis using Cons.prems by (subst hex32_loop.simps) (cases "8 - i"; auto simp: at)
  qed
qed

lemma takeWhile_take: "takeWhile P (take n xs) = take n (takeWhile P xs)"
  by (induction xs arbitrary: n) (auto simp: take_Cons split: nat.splits)

lemma isdigit_is_dig: "sqlite3Isdigit c \<longleftrightarrow> is_dig c"
  by (simp add: ctype_ranges is_dig_def)

lemma dec32_loop_run:
  "i \<le> 11 \<Longrightarrow> dec32_loop (xs @ us) (length xs - i) i (word_of_nat v) =
     Some (i + length (take (11 - i) (takeWhile is_dig us)),
       word_of_nat (foldl (\<lambda>v c. v * 10 + dig c) v (take (11 - i) (takeWhile is_dig us))))"
  if "i \<le> length xs"
  using that
proof (induction us arbitrary: xs v i)
  case Nil
  then show ?case by (subst dec32_loop.simps) (auto simp: c_at_def)
next
  case (Cons c us)
  have at: "c_at (xs @ c # us) (length xs - i + i) = Some c" using Cons.prems by (simp add: c_at_mid)
  have d: "0 \<le> uint c - 48 \<and> uint c - 48 \<le> 9 \<longleftrightarrow> is_dig c" 
  proof -
    have "uint c = int (unat c)" by simp
    then show ?thesis unfolding is_dig_unat by linarith
  qed
  show ?case
  proof (cases "is_dig c \<and> i < 11")
    case True
    have s: "11 - i = Suc (11 - Suc i)" using True by linarith
    have "word_of_int (uint c - 48) = (word_of_nat (dig c) :: i64)" using True by (simp add: uint_dig)
    then have "dec32_loop (xs @ c # us) (length xs - i) i (word_of_nat v) =
      dec32_loop (xs @ c # us) (length xs - i) (Suc i) (word_of_nat (v * 10 + dig c))"
      using True d by (subst dec32_loop.simps) (simp add: at)
    then show ?thesis using True Cons.prems Cons.IH [of "Suc i" "xs @ [c]" "v * 10 + dig c"] by (simp add: s)
  next
    case False
    then show ?thesis using Cons.prems d by (subst dec32_loop.simps) (auto simp: at)
  qed
qed

definition hex_form :: "u8 list \<Rightarrow> bool" where
  "hex_form z = (case z of c0 # c1 # c2 # _ \<Rightarrow> c0 = 48 \<and> (c1 = ch CHR ''x'' \<or> c1 = ch CHR ''X'') \<and> sqlite3Isxdigit c2 | _ \<Rightarrow> False)"

definition fits32 :: "int \<Rightarrow> i32 option" where
  "fits32 v = (if - (2 ^ 31) \<le> v \<and> v < 2 ^ 31 then Some (word_of_int v) else None)"

definition getint32_spec :: "u8 list \<Rightarrow> i32 option" where
  "getint32_spec z =
     (if hex_form z then (let v = hval (takeWhile sqlite3Isxdigit (drop 2 z)) in if v < 2 ^ 31 then Some (word_of_nat v) else None)
      else (let (neg, s) = atoi_sign z; v = int (dval (takeWhile is_dig s)) in
            if takeWhile is_dig s = [] then None else fits32 (if neg then - v else v)))"

lemma scast_of_sint: "(scast (w :: i64) :: i32) = word_of_int (sint w)"
  by simp

text \<open>The decimal branch after the sign: \<open>xs\<close> is the sign.\<close>

lemma dec32_number:
  assumes s: "takeWhile is_dig s \<noteq> []"
  shows "do { p \<leftarrow> cstr_skip (\<lambda>c. c = 48) (xs @ s) (length xs);
       (i, v) \<leftarrow> dec32_loop (xs @ s) p 0 0;
       if i > 10 then Some None
       else if sint (v - (if neg then 1 else 0)) > 2147483647 then Some None
       else let v = (if neg then - v else v) in Some (Some (word_of_int (sint v))) } =
    Some (fits32 (if neg then - int (dval (takeWhile is_dig s)) else int (dval (takeWhile is_dig s))))"
proof -
  let ?z = "takeWhile (\<lambda>c. c = 48) s" and ?t = "dropWhile (\<lambda>c. c = 48) s"
  let ?ds = "takeWhile is_dig ?t"
  have k: "cstr_skip (\<lambda>c. c = 48) (xs @ s) (length xs) = Some (length xs + length ?z)"
    by (rule cstr_skip_run) simp
  have l: "dec32_loop (xs @ s) (length xs + length ?z) 0 0 = Some (length (take 11 ?ds), word_of_nat (dval (take 11 ?ds)))"
    using dec32_loop_run [of 0 "xs @ ?z" ?t 0] by (simp add: pval_def)
  have v: "dval (takeWhile is_dig s) = dval ?ds" using dec.val_significant [of s] by simp
  show ?thesis
  proof (cases "length ?ds \<le> 10")
    case True
    then have "(10 :: nat) ^ length ?ds \<le> 10 ^ 10" by (intro power_increasing) simp_all
    then have d: "dval ?ds < 10 ^ 10" using dec.val_less [OF dec.all_valid, of ?t] by simp
    then have n: "sint (word_of_nat (dval ?ds) :: i64) = int (dval ?ds)" "sint (- word_of_nat (dval ?ds) :: i64) = - int (dval ?ds)"
      using store_small [of "dval ?ds"] by simp_all
    moreover have "sint (word_of_nat (dval ?ds) - 1 :: i64) = int (dval ?ds) - 1"
      using sint_of_int64 [of "int (dval ?ds) - 1"] d by simp
    moreover have "(scast (word_of_nat (dval ?ds) :: i64) :: i32) = word_of_nat (dval ?ds)"
        "(scast (- word_of_nat (dval ?ds) :: i64) :: i32) = - word_of_nat (dval ?ds)"
      unfolding scast_of_sint n by simp_all
    ultimately show ?thesis using True by (cases neg) (auto simp: k l v fits32_def)
  next
    case False
    then have "\<not> dval ?ds < 10 ^ 10" using dec.significant_length [of s 10] v by simp
    then show ?thesis using False by (cases neg) (auto simp: k l v fits32_def)
  qed
qed

lemma sign_bit32: "(u :: u32) AND 0x80000000 = 0 \<longleftrightarrow> unat u < 2 ^ 31"
proof -
  have "u AND 0x80000000 = 0 \<longleftrightarrow> \<not> bit u 31"
    using and_exp_eq_0_iff_not_bit [of u 31] by simp
  also have "bit u 31 \<longleftrightarrow> odd (unat u div 2 ^ 31)"
    using bit_unsigned_iff [of u 31, where ?'a = nat] by (simp add: bit_iff_odd [of "unat u"])
  also have "\<not> odd (unat u div 2 ^ 31) \<longleftrightarrow> unat u < 2 ^ 31"
  proof (cases "unat u < 2 ^ 31")
    case False
    then have "unat u div 2 ^ 31 = 1" using unsigned_less [of u] by (intro div_nat_eqI) simp_all
    then show ?thesis using False by simp
  qed simp
  finally show ?thesis .
qed

lemma hex32_number:
  assumes "sqlite3Isxdigit c2" and z: "z = 48 # x # c2 # r"
  shows "do { p \<leftarrow> cstr_skip (\<lambda>c. c = 48) z 2;
       (i, u) \<leftarrow> hex32_loop z p 0 0;
       c \<leftarrow> c_at z (p + i);
       Some (if u AND 0x80000000 = 0 \<and> \<not> sqlite3Isxdigit c then Some u else None) } =
    Some (let v = hval (takeWhile sqlite3Isxdigit (c2 # r)) in if v < 2 ^ 31 then Some (word_of_nat v) else None)"
proof -
  let ?s = "c2 # r"
  let ?z = "takeWhile (\<lambda>c. c = 48) ?s" and ?t = "dropWhile (\<lambda>c. c = 48) ?s"
  let ?ds = "takeWhile sqlite3Isxdigit ?t"
  have k: "cstr_skip (\<lambda>c. c = 48) z 2 = Some (2 + length ?z)"
    unfolding z by (rule cstr_skip_two) simp
  have zs: "z = ([48, x] @ ?z) @ ?t" unfolding z by simp
  have l: "hex32_loop z (2 + length ?z) 0 0 = Some (length (take 8 ?ds), word_of_nat (hval (take 8 ?ds)))"
    using hex32_loop_run [of 0 "[48, x] @ ?z" ?t 0] unfolding zs [symmetric] by (simp add: pval_def takeWhile_take)
  have v: "hval (takeWhile sqlite3Isxdigit ?s) = hval ?ds" using hex.val_significant [of ?s] by simp
  show ?thesis
  proof (cases "length ?ds \<le> 8")
    case True
    then have t8: "take 8 ?ds = ?ds" by simp
    have zz: "z = (([48, x] @ ?z) @ ?ds) @ dropWhile sqlite3Isxdigit ?t" using zs by simp
    have at: "c_at z (2 + length ?z + length ?ds) = Some (case dropWhile sqlite3Isxdigit ?t of [] \<Rightarrow> 0 | c # _ \<Rightarrow> c)"
      using c_at_mid [of "([48, x] @ ?z) @ ?ds" "dropWhile sqlite3Isxdigit ?t"] unfolding zz [symmetric] by simp
    have fin: "\<not> sqlite3Isxdigit (case dropWhile sqlite3Isxdigit ?t of [] \<Rightarrow> 0 | c # _ \<Rightarrow> c)"
      by (rule next_char) (rule zero_class(1))
    have "(16 :: nat) ^ length ?ds \<le> 16 ^ 8" using True by (intro power_increasing) simp_all
    then have "hval ?ds < 2 ^ 32" using hex.val_less [OF hex.all_valid, of ?t] by simp
    then have "unat (word_of_nat (hval ?ds) :: u32) = hval ?ds" by (simp add: unat_of_nat take_bit_eq_mod)
    then show ?thesis unfolding k v using l at fin by (simp only: t8 bind.bind_lunit prod.case sign_bit32 Let_def) simp
  next
    case False
    then obtain c r' where c: "drop 8 ?ds = c # r'" by (cases "drop 8 ?ds") auto
    have x: "sqlite3Isxdigit c"
      using c by (metis in_set_dropD list.set_intros(1) set_takeWhileD)
    have zz: "z = (([48, x] @ ?z) @ take 8 ?ds) @ c # r' @ dropWhile sqlite3Isxdigit ?t"
      using zs c by (metis append.assoc append_Cons append_take_drop_id takeWhile_dropWhile_id)
    have "length (take 8 ?ds) = 8" using False by simp
    then have at: "c_at z (2 + length ?z + length (take 8 ?ds)) = Some c"
      using c_at_mid [of "([48, x] @ ?z) @ take 8 ?ds" "c # r' @ dropWhile sqlite3Isxdigit ?t"] unfolding zz [symmetric] by simp
    have "\<not> hval ?ds < 16 ^ 8" using False hex.significant_length [of ?s 8] v by simp
    then show ?thesis unfolding k v using l at x by (simp only: bind.bind_lunit prod.case Let_def) simp
  qed
qed

text \<open>Text to a 32-bit integer.\<close>

theorem getint32_ok: "sqlite3GetInt32 z = Some (getint32_spec z)"
proof (cases "hex_form z")
  case True
  then obtain x c2 r where z: "z = 48 # x # c2 # r" "x = ch CHR ''x'' \<or> x = ch CHR ''X''" "sqlite3Isxdigit c2"
    by (auto simp: hex_form_def split: list.splits)
  then show ?thesis
    using hex32_number [OF z(3,1)] True by (auto simp: sqlite3GetInt32_def getint32_spec_def c_at_def)
next
  case False
  obtain neg s where sg: "atoi_sign z = (neg, s)" by force
  let ?c0 = "case z of [] \<Rightarrow> 0 | c # _ \<Rightarrow> c"
  have c0: "c_at z 0 = Some ?c0" using c_at_mid [of "[]" z] by simp
  have hex: "(if ?c0 = 48 then do {
               c1 \<leftarrow> c_at z 1;
               if c1 = ch CHR ''x'' \<or> c1 = ch CHR ''X'' then do { c2 \<leftarrow> c_at z 2; Some (sqlite3Isxdigit c2) } else Some False }
             else Some False) = Some False"
    using False zero_class(1) by (auto simp: hex_form_def c_at_def nth_Cons' split: list.splits)
  define xs where "xs = (if ?c0 = ch CHR ''-'' \<or> ?c0 = ch CHR ''+'' then [?c0] else [])"
  have z: "z = xs @ s" "neg = (?c0 = ch CHR ''-'')" "length xs = (if ?c0 = ch CHR ''-'' \<or> ?c0 = ch CHR ''+'' then 1 else 0)"
    using sg by (auto simp: atoi_sign_def xs_def split: list.splits if_splits)
  have hd: "c_at (xs @ s) (length xs) = Some (case s of [] \<Rightarrow> 0 | c # _ \<Rightarrow> c)" by (rule c_at_mid)
  have none: "sqlite3Isdigit (case s of [] \<Rightarrow> 0 | c # _ \<Rightarrow> c) \<longleftrightarrow> takeWhile is_dig s \<noteq> []"
    using zero_class(3) by (simp add: isdigit_is_dig split: list.split)
  have r: "sqlite3GetInt32 z = do {
       c \<leftarrow> c_at (xs @ s) (length xs);
       if \<not> sqlite3Isdigit c then Some None else do {
       p \<leftarrow> cstr_skip (\<lambda>c. c = 48) (xs @ s) (length xs);
       (i, v) \<leftarrow> dec32_loop (xs @ s) p 0 0;
       if i > 10 then Some None
       else if sint (v - (if neg then 1 else 0)) > 2147483647 then Some None
       else let v = (if neg then - v else v) in Some (Some (word_of_int (sint v))) } }"
    unfolding sqlite3GetInt32_def c0 bind.bind_lunit hex if_False z(1) [symmetric] z(2,3) Let_def by simp
  show ?thesis
    unfolding r hd bind.bind_lunit none using dec32_number [of s xs neg] False sg
    by (simp add: getint32_spec_def)
qed

section \<open>Blob literals\<close>

definition pairs :: "(u8 \<times> u8) list \<Rightarrow> u8 list" where
  "pairs ps = concat (map (\<lambda>(a, b). [a, b]) ps)"

lemma length_pairs: "length (pairs ps) = 2 * length ps"
  by (induction ps) (auto simp: pairs_def)

lemma hex_byte:
  assumes "a < 16" and "b < 16"
  shows "(shl (word_of_nat a) 4 OR word_of_nat b :: u8) = word_of_nat (16 * a + b)"
proof -
  have "(shl (word_of_nat a) 4 AND word_of_nat b :: u8) = 0"
  proof (rule bit_eqI)
    fix n
    have "take_bit 4 b = b" using assms(2) by (simp add: take_bit_nat_eq_self)
    then have "bit b n \<Longrightarrow> n < 4" using bit_take_bit_iff [of 4 b n] by simp
    then show "bit (shl (word_of_nat a) 4 AND word_of_nat b :: u8) n = bit (0 :: u8) n"
      by (auto simp: bit_simps)
  qed
  then have "(shl (word_of_nat a) 4 OR word_of_nat b :: u8) = shl (word_of_nat a) 4 + word_of_nat b"
    by (simp add: disjunctive_add_eq_or)
  then show ?thesis by (simp add: push_bit_eq_mult)
qed

lemma blob_loop_run:
  "list_all (\<lambda>(a, b). sqlite3Isxdigit a \<and> sqlite3Isxdigit b) ps \<Longrightarrow>
   blob_loop (xs @ pairs ps) (int (length xs + 2 * length ps) - 1) (length xs) =
     Some (map (\<lambda>(a, b). word_of_nat (16 * hexval a + hexval b)) ps @ [0])"
proof (induction ps arbitrary: xs)
  case Nil
  then show ?case by (subst blob_loop.simps) simp
next
  case (Cons p ps)
  obtain a b where p: "p = (a, b)" by force
  then have d: "sqlite3Isxdigit a" "sqlite3Isxdigit b" using Cons.prems by simp_all
  have at: "nth_opt (xs @ a # b # pairs ps) (length xs) = Some a" "nth_opt (xs @ a # b # pairs ps) (Suc (length xs)) = Some b"
    by (simp_all add: nth_opt_append)
  have e: "pairs (p # ps) = a # b # pairs ps" by (simp add: pairs_def p)
  have r: "blob_loop (xs @ a # b # pairs ps) (int (length xs + 2 * length (p # ps)) - 1) (length xs + 2) =
      Some (map (\<lambda>(a, b). word_of_nat (16 * hexval a + hexval b)) ps @ [0])"
    using Cons.IH [of "xs @ [a, b]"] Cons.prems by (simp add: p algebra_simps)
  have "(shl (word_of_nat (hexval a)) 4 OR word_of_nat (hexval b) :: u8) = word_of_nat (16 * hexval a + hexval b)"
    using hex.digit_less d by (intro hex_byte)
  then show ?case
    unfolding e using r by (subst blob_loop.simps) (simp add: at hexToInt d p)
qed

text \<open>The literal \<open>x'\<dots>'\<close> with an even number of digits, read by pairs.\<close>

lemma hexToBlob_pairs:
  assumes "list_all (\<lambda>(a, b). sqlite3Isxdigit a \<and> sqlite3Isxdigit b) ps"
  shows "sqlite3HexToBlob [] (pairs ps) (int (2 * length ps)) =
    Some (Some (map (\<lambda>(a, b). word_of_nat (16 * hexval a + hexval b)) ps @ [0]))"
  using blob_loop_run [OF assms, of "[]"] by (simp add: sqlite3HexToBlob_def alloc_ok_def)

section \<open>Quoted identifiers\<close>

definition quoted :: "u8 \<Rightarrow> u8 list \<Rightarrow> u8 list" where
  "quoted q s = concat (map (\<lambda>c. if c = q then [q, q] else [c]) s)"

definition close_quote :: "u8 \<Rightarrow> u8" where
  "close_quote q = (if q = ch CHR ''['' then ch CHR '']'' else q)"

lemma buf_put_gap: "g \<noteq> [] \<Longrightarrow> buf_put (w @ g @ r) (length w) c = Some ((w @ [c]) @ tl g @ r)"
  by (cases g) (simp_all add: buf_put_def)

text \<open>\<open>w\<close> is written, \<open>g\<close> is the gap between the two positions.\<close>

lemma dequote_loop_run:
  "g \<noteq> [] \<Longrightarrow> 0 \<notin> set s \<Longrightarrow> q \<noteq> 0 \<Longrightarrow> t \<noteq> q \<Longrightarrow>
   \<exists>tail. dequote_loop q (w @ g @ quoted q s @ q # t # r) (length w + length g) (length w) = Some (w @ s @ 0 # tail)"
proof (induction s arbitrary: w g)
  case Nil
  have "nth_opt (w @ g @ q # t # r) (length w + length g) = Some q" "nth_opt (w @ g @ q # t # r) (Suc (length w + length g)) = Some t"
    by (simp_all add: nth_opt_append)
  then show ?case using Nil buf_put_gap [of g w "q # t # r" 0]
    by (subst dequote_loop.simps) (simp add: quoted_def)
next
  case (Cons c s)
  let ?r = "quoted q s @ q # t # r"
  have e: "quoted q (c # s) @ q # t # r = (if c = q then [q, q] else [c]) @ ?r" by (simp add: quoted_def)
  show ?case
  proof (cases "c = q")
    case True
    have at: "nth_opt (w @ g @ [q, q] @ ?r) (length w + length g) = Some q" "nth_opt (w @ g @ [q, q] @ ?r) (length w + length g + 1) = Some q"
      by (simp_all add: nth_opt_append)
    have "dequote_loop q (w @ g @ [q, q] @ ?r) (length w + length g) (length w) =
      dequote_loop q ((w @ [c]) @ (tl g @ [q, q]) @ ?r) (length (w @ [c]) + length (tl g @ [q, q])) (length (w @ [c]))"
      using Cons.prems at buf_put_gap [of g w "[q, q] @ ?r" q] True
      by (subst dequote_loop.simps) simp
    then show ?thesis using Cons.IH [of "tl g @ [q, q]" "w @ [c]"] Cons.prems True unfolding e by simp
  next
    case False
    have at: "nth_opt (w @ g @ [c] @ ?r) (length w + length g) = Some c"
      by (simp add: nth_opt_append)
    have "dequote_loop q (w @ g @ [c] @ ?r) (length w + length g) (length w) =
      dequote_loop q ((w @ [c]) @ (tl g @ [c]) @ ?r) (length (w @ [c]) + length (tl g @ [c])) (length (w @ [c]))"
      using Cons.prems at buf_put_gap [of g w "[c] @ ?r" c] False
      by (subst dequote_loop.simps) simp
    then show ?thesis using Cons.IH [of "tl g @ [c]" "w @ [c]"] Cons.prems False unfolding e by simp
  qed
qed

section \<open>Properties\<close>

text \<open>C31: \<open>sqlite3Atoi64\<close> on any text, in UTF-8 and in both UTF-16 byte orders: after leading spaces and a sign, the
  stored number is the value of the digits, clamped to 64 bits; the result is 2 above \<open>2 ^ 63\<close>, 3 for \<open>2 ^ 63\<close> itself
  without a minus sign, and otherwise 1 when there is no digit, when something other than spaces follows the
  digits, or when the UTF-16 text has a character above 255 (which also ends the number), and 0 if not.\<close>

theorem atoi64_text:
  "map_option (apsnd sint) (sqlite3Atoi64 z (length z) SQLITE_UTF8) = Some (atoi_spec False z) \<and>
   map_option (apsnd sint) (sqlite3Atoi64 (utf16 SQLITE_UTF16LE us) (2 * length us) SQLITE_UTF16LE) =
     Some (atoi_spec (\<exists>(lo, hi)\<in>set us. hi \<noteq> 0) (utf16_ascii us)) \<and>
   map_option (apsnd sint) (sqlite3Atoi64 (utf16 SQLITE_UTF16BE us) (2 * length us) SQLITE_UTF16BE) =
     Some (atoi_spec (\<exists>(lo, hi)\<in>set us. hi \<noteq> 0) (utf16_ascii us))"
  using atoi64_utf8 [of "length z" z] atoi64_utf16 [of SQLITE_UTF16LE us] atoi64_utf16 [of SQLITE_UTF16BE us] by simp

text \<open>\<open>sqlite3GetInt32\<close> on any string: with the prefix \<open>0x\<close> and a hexadecimal digit it accepts the digits that follow when
  their value is below \<open>2 ^ 31\<close>; otherwise it accepts an optionally signed run of decimal digits exactly when the number fits
  into 32 bits, and gives that number.\<close>

theorem getInt32_value: "sqlite3GetInt32 z = Some (getint32_spec z)"
  by (rule getint32_ok)

text \<open>Dequoting inverts quoting: for each of the four quote characters, the text between the quotes, with
  its closing quotes doubled, comes back in place as a zero-terminated string.\<close>

theorem dequote_roundtrip:
  assumes "sqlite3Isquote q" and "0 \<notin> set s" and "t \<noteq> close_quote q"
  shows "\<exists>tail. sqlite3Dequote (Some (q # quoted (close_quote q) s @ close_quote q # t # r)) = Some (Some (s @ 0 # tail))"
proof -
  have "close_quote q \<noteq> 0" using assms(1) by (auto simp: close_quote_def ctype_ranges)
  then show ?thesis
    using dequote_loop_run [of "[q]" s "close_quote q" t "[]" r] assms
    by (auto simp: sqlite3Dequote_def close_quote_def)
qed

theorem dequote_roundtrip_witness:
  "\<exists>tail. sqlite3Dequote (Some (ch CHR ''['' # quoted (ch CHR '']'') (chs ''a]b'') @ [ch CHR '']'', 0])) = Some (Some (chs ''a]b'' @ 0 # tail))"
  using dequote_roundtrip [of "ch CHR ''[''" "chs ''a]b''" 0 "[]"]
  by (simp add: ctype_ranges close_quote_def)

end
