(* ===== verification/Utf.thy ===== *)
theory Utf
  imports Numtext
begin

text \<open>
  tsrc/utf.c: reading and writing characters in UTF-8 and UTF-16, the conversion of a value's text, byte
  order marks and character counts. A pointer that only moves forward is the list of the bytes that are
  still ahead; reading when none is left has no result. A macro that writes through \<open>zOut\<close> gives the
  list of the bytes that it writes. Characters are 32-bit words, so shifts drop high bits as in the code.
\<close>

unbundle bit_operations_syntax

section \<open>Characters\<close>

definition sqlite3Utf8Trans1 :: "u8 list" where
  "sqlite3Utf8Trans1 = [
  0x00, 0x01, 0x02, 0x03, 0x04, 0x05, 0x06, 0x07,
  0x08, 0x09, 0x0a, 0x0b, 0x0c, 0x0d, 0x0e, 0x0f,
  0x10, 0x11, 0x12, 0x13, 0x14, 0x15, 0x16, 0x17,
  0x18, 0x19, 0x1a, 0x1b, 0x1c, 0x1d, 0x1e, 0x1f,
  0x00, 0x01, 0x02, 0x03, 0x04, 0x05, 0x06, 0x07,
  0x08, 0x09, 0x0a, 0x0b, 0x0c, 0x0d, 0x0e, 0x0f,
  0x00, 0x01, 0x02, 0x03, 0x04, 0x05, 0x06, 0x07,
  0x00, 0x01, 0x02, 0x03, 0x00, 0x01, 0x00, 0x00]"

definition WRITE_UTF8 :: "u32 \<Rightarrow> u8 list" where
  "WRITE_UTF8 c =
     (if c < 0x00080 then [u8_of (c AND 0xFF)]
      else if c < 0x00800 then [0xC0 + u8_of (shr c 6 AND 0x1F), 0x80 + u8_of (c AND 0x3F)]
      else if c < 0x10000 then
        [0xE0 + u8_of (shr c 12 AND 0x0F), 0x80 + u8_of (shr c 6 AND 0x3F), 0x80 + u8_of (c AND 0x3F)]
      else
        [0xF0 + u8_of (shr c 18 AND 0x07), 0x80 + u8_of (shr c 12 AND 0x3F), 0x80 + u8_of (shr c 6 AND 0x3F),
         0x80 + u8_of (c AND 0x3F)])"

definition WRITE_UTF16LE :: "u32 \<Rightarrow> u8 list" where
  "WRITE_UTF16LE c =
     (if c \<le> 0xFFFF then [u8_of (c AND 0x00FF), u8_of (shr c 8 AND 0x00FF)]
      else
        [u8_of ((shr c 10 AND 0x003F) + (shr (c - 0x10000) 10 AND 0x00C0)),
         u8_of (0x00D8 + (shr (c - 0x10000) 18 AND 0x03)),
         u8_of (c AND 0x00FF),
         u8_of (0x00DC + (shr c 8 AND 0x03))])"

definition WRITE_UTF16BE :: "u32 \<Rightarrow> u8 list" where
  "WRITE_UTF16BE c =
     (if c \<le> 0xFFFF then [u8_of (shr c 8 AND 0x00FF), u8_of (c AND 0x00FF)]
      else
        [u8_of (0x00D8 + (shr (c - 0x10000) 18 AND 0x03)),
         u8_of ((shr c 10 AND 0x003F) + (shr (c - 0x10000) 10 AND 0x00C0)),
         u8_of (0x00DC + (shr c 8 AND 0x03)),
         u8_of (c AND 0x00FF)])"

text \<open>The readers give the character and what is ahead of it. \<open>tm\<close> is tested after the first unit.\<close>

fun READ_UTF16LE :: "(u8 list \<Rightarrow> bool) \<Rightarrow> u8 list \<Rightarrow> (u32 \<times> u8 list) option" where
  "READ_UTF16LE tm (b0 # b1 # r) =
     (let c = u32_of b0 + shl (u32_of b1) 8 in
      if c \<ge> 0xD800 \<and> c < 0xE000 \<and> tm r then
        (case r of b2 # b3 # r' \<Rightarrow>
           let c2 = u32_of b2 + shl (u32_of b3) 8 in
           Some ((c2 AND 0x03FF) + shl (c AND 0x003F) 10 + shl ((c AND 0x03C0) + 0x0040) 10, r')
         | _ \<Rightarrow> None)
      else Some (c, r))"
| "READ_UTF16LE tm _ = None"

fun READ_UTF16BE :: "(u8 list \<Rightarrow> bool) \<Rightarrow> u8 list \<Rightarrow> (u32 \<times> u8 list) option" where
  "READ_UTF16BE tm (b0 # b1 # r) =
     (let c = shl (u32_of b0) 8 + u32_of b1 in
      if c \<ge> 0xD800 \<and> c < 0xE000 \<and> tm r then
        (case r of b2 # b3 # r' \<Rightarrow>
           let c2 = shl (u32_of b2) 8 + u32_of b3 in
           Some ((c2 AND 0x03FF) + shl (c AND 0x003F) 10 + shl ((c AND 0x03C0) + 0x0040) 10, r')
         | _ \<Rightarrow> None)
      else Some (c, r))"
| "READ_UTF16BE tm _ = None"

text \<open>The continuation bytes, up to \<open>zTerm\<close>, and the replacement of what is not a character.\<close>

fun utf8_tail :: "u32 \<Rightarrow> u8 list \<Rightarrow> u32 \<times> u8 list" where
  "utf8_tail c [] = (c, [])"
| "utf8_tail c (b # r) =
     (if b AND 0xc0 = 0x80 then utf8_tail (shl c 6 + (0x3f AND u32_of b)) r else (c, b # r))"

definition utf8_fix :: "u32 \<Rightarrow> u32" where
  "utf8_fix c = (if c < 0x80 \<or> c AND 0xFFFFF800 = 0xD800 \<or> c AND 0xFFFFFFFE = 0xFFFE then 0xFFFD else c)"

fun READ_UTF8 :: "u8 list \<Rightarrow> (u32 \<times> u8 list) option" where
  "READ_UTF8 [] = None"
| "READ_UTF8 (b # r) =
     (if b \<ge> 0xc0 then
        let (c, r) = utf8_tail (u32_of (sqlite3Utf8Trans1 ! unat (b - 0xc0))) r in Some (utf8_fix c, r)
      else Some (u32_of b, r))"

text \<open>\<open>sqlite3Utf8Read\<close> has no \<open>zTerm\<close>: the loop must meet a byte that does not continue the character.\<close>

fun utf8_tail_z :: "u32 \<Rightarrow> u8 list \<Rightarrow> (u32 \<times> u8 list) option" where
  "utf8_tail_z c [] = None"
| "utf8_tail_z c (b # r) =
     (if b AND 0xc0 = 0x80 then utf8_tail_z (shl c 6 + (0x3f AND u32_of b)) r else Some (c, b # r))"

fun sqlite3Utf8Read :: "u8 list \<Rightarrow> (u32 \<times> u8 list) option" where
  "sqlite3Utf8Read [] = None"
| "sqlite3Utf8Read (b # r) =
     (if b \<ge> 0xc0 then do {
        (c, r) \<leftarrow> utf8_tail_z (u32_of (sqlite3Utf8Trans1 ! unat (b - 0xc0))) r;
        Some (utf8_fix c, r) }
      else Some (u32_of b, r))"

section \<open>Values\<close>

text \<open>The fields of a \<open>Mem\<close> that the conversion uses: the bytes at \<open>z\<close>, the length \<open>n\<close> of the text in them,
  the encoding, the flags, and whether \<open>z\<close> is the value's own allocation \<open>zMalloc\<close>.\<close>

record Mem =
  m_z :: "u8 list"
  m_n :: nat
  m_enc :: u8
  m_flags :: u16
  m_own :: bool

definition MEM_Null :: u16 where "MEM_Null = 0x0001"
definition MEM_Str :: u16 where "MEM_Str = 0x0002"
definition MEM_Blob :: u16 where "MEM_Blob = 0x0010"
definition MEM_AffMask :: u16 where "MEM_AffMask = 0x001f"
definition MEM_RowSet :: u16 where "MEM_RowSet = 0x0020"
definition MEM_Term :: u16 where "MEM_Term = 0x0200"
definition MEM_Dyn :: u16 where "MEM_Dyn = 0x0400"
definition MEM_Static :: u16 where "MEM_Static = 0x0800"
definition MEM_Ephem :: u16 where "MEM_Ephem = 0x1000"
definition MEM_Zero :: u16 where "MEM_Zero = 0x4000"
definition MEM_Subtype :: u16 where "MEM_Subtype = 0x8000"

text \<open>Sizes are of type \<open>int\<close>; a computation that leaves its range has no value.\<close>

definition int_value :: "int \<Rightarrow> int option" where
  "int_value x = (if - (2 ^ 31) \<le> x \<and> x < 2 ^ 31 then Some x else None)"

definition SQLITE_MAX_LENGTH :: nat where "SQLITE_MAX_LENGTH = 1000000000"

text \<open>\<open>sqlite3VdbeMemGrow\<close> with \<open>bPreserve\<close> for a value whose text is not in its own allocation: at least 32 bytes are
  allocated and the text is copied, which must fit. The last result is the size of the allocation, of which \<open>m_z\<close>
  holds the bytes that are set. A failed allocation leaves a NULL value.\<close>

definition sqlite3VdbeMemGrow :: "faults \<Rightarrow> Mem \<Rightarrow> int \<Rightarrow> (int \<times> Mem \<times> nat) option" where
  "sqlite3VdbeMemGrow ms p n = do {
     check (m_flags p AND MEM_RowSet = 0);
     check (m_flags p AND (MEM_Blob OR MEM_Str) \<noteq> 0);
     let n = nat (if n < 32 then 32 else n);
     if \<not> alloc_ok ms then Some (SQLITE_NOMEM, p\<lparr>m_z := [], m_own := False, m_flags := MEM_Null\<rparr>, 0)
     else do {
       check (m_n p \<le> n);
       check (m_n p \<le> length (m_z p));
       Some (SQLITE_OK, p\<lparr>m_z := take (m_n p) (m_z p), m_own := True,
         m_flags := m_flags p AND NOT (MEM_Dyn OR MEM_Ephem OR MEM_Static)\<rparr>, n) } }"

text \<open>\<open>vdbeMemAddTerminator\<close>: a copy of the text with two zero bytes, in an allocation of the value's own.\<close>

definition vdbeMemAddTerminator :: "faults \<Rightarrow> Mem \<Rightarrow> (int \<times> Mem) option" where
  "vdbeMemAddTerminator ms p = do {
     n \<leftarrow> int_value (int (m_n p) + 2);
     (rc, p, size) \<leftarrow> sqlite3VdbeMemGrow ms p n;
     if rc \<noteq> SQLITE_OK then Some (SQLITE_NOMEM, p)
     else do {
       check (m_n p + 2 \<le> size);
       Some (SQLITE_OK, p\<lparr>m_z := m_z p @ [0, 0], m_flags := m_flags p OR MEM_Term\<rparr>) } }"

text \<open>Blobs with a zero-filled tail (\<open>MEM_Zero\<close>) are not modelled.\<close>

definition sqlite3VdbeMemMakeWriteable :: "faults \<Rightarrow> Mem \<Rightarrow> (int \<times> Mem) option" where
  "sqlite3VdbeMemMakeWriteable ms p = do {
     check (m_flags p AND MEM_RowSet = 0);
     check (m_flags p AND MEM_Zero = 0);
     (rc, p) \<leftarrow> (if m_flags p AND (MEM_Str OR MEM_Blob) \<noteq> 0 \<and> \<not> m_own p then vdbeMemAddTerminator ms p else Some (SQLITE_OK, p));
     if rc \<noteq> SQLITE_OK then Some (rc, p)
     else Some (SQLITE_OK, p\<lparr>m_flags := m_flags p AND NOT MEM_Ephem\<rparr>) }"

fun swap_pairs :: "u8 list \<Rightarrow> u8 list" where
  "swap_pairs (a # b # r) = b # a # swap_pairs r"
| "swap_pairs r = r"

text \<open>A conversion loop: characters are read up to \<open>zTerm\<close> and written to the output.\<close>

partial_function (option) translate_loop ::
    "(u8 list \<Rightarrow> (u32 \<times> u8 list) option) \<Rightarrow> (u32 \<Rightarrow> u8 list) \<Rightarrow> u8 list \<Rightarrow> u8 list option" where
  "translate_loop rd wr zIn =
     (if zIn \<noteq> [] then do {
        (c, zIn) \<leftarrow> rd zIn;
        out \<leftarrow> translate_loop rd wr zIn;
        Some (wr c @ out) }
      else Some [])"

definition sqlite3VdbeMemTranslate :: "faults \<Rightarrow> Mem \<Rightarrow> u8 \<Rightarrow> (int \<times> Mem) option" where
  "sqlite3VdbeMemTranslate ms p desiredEnc = do {
     check (m_flags p AND MEM_Str \<noteq> 0);
     check (m_enc p \<noteq> desiredEnc);
     check (m_enc p \<noteq> 0);
     check (m_n p \<le> length (m_z p));
     if m_enc p \<noteq> SQLITE_UTF8 \<and> desiredEnc \<noteq> SQLITE_UTF8 then do {
       (rc, p) \<leftarrow> sqlite3VdbeMemMakeWriteable ms p;
       if rc \<noteq> SQLITE_OK then Some (SQLITE_NOMEM, p)
       else do {
         let m = m_n p - m_n p mod 2;
         check (m \<le> length (m_z p));
         Some (SQLITE_OK, p\<lparr>m_z := swap_pairs (take m (m_z p)) @ drop m (m_z p), m_enc := desiredEnc\<rparr>) } }
     else do {
       let p = (if desiredEnc = SQLITE_UTF8 then p\<lparr>m_n := m_n p - m_n p mod 2\<rparr> else p);
       len \<leftarrow> int_value (if desiredEnc = SQLITE_UTF8 then int (m_n p) * 2 + 1 else int (m_n p) * 2 + 2);
       let zIn = take (m_n p) (m_z p);
       if \<not> alloc_ok ms then Some (SQLITE_NOMEM, p)
       else do {
         out \<leftarrow>
           (if m_enc p = SQLITE_UTF8 then
              (if desiredEnc = SQLITE_UTF16LE then translate_loop READ_UTF8 WRITE_UTF16LE zIn
               else do { check (desiredEnc = SQLITE_UTF16BE); translate_loop READ_UTF8 WRITE_UTF16BE zIn })
            else do {
              check (desiredEnc = SQLITE_UTF8);
              (if m_enc p = SQLITE_UTF16LE then translate_loop (READ_UTF16LE (\<lambda>r. r \<noteq> [])) WRITE_UTF8 zIn
               else translate_loop (READ_UTF16BE (\<lambda>r. r \<noteq> [])) WRITE_UTF8 zIn) });
         let z = out @ (if m_enc p = SQLITE_UTF8 then [0] else []) @ [0];
         check (int (length z) \<le> len);
         check (int (length out) + (if desiredEnc = SQLITE_UTF8 then 1 else 2) \<le> len);
         Some (SQLITE_OK, p\<lparr>m_n := length out, m_flags := MEM_Str OR MEM_Term OR (m_flags p AND (MEM_AffMask OR MEM_Subtype)),
           m_enc := desiredEnc, m_z := z, m_own := True\<rparr>) } } }"

definition sqlite3VdbeChangeEncoding :: "faults \<Rightarrow> Mem \<Rightarrow> u8 \<Rightarrow> (int \<times> Mem) option" where
  "sqlite3VdbeChangeEncoding ms p desiredEnc = do {
     check (m_flags p AND MEM_RowSet = 0);
     check (desiredEnc = SQLITE_UTF8 \<or> desiredEnc = SQLITE_UTF16LE \<or> desiredEnc = SQLITE_UTF16BE);
     if m_flags p AND MEM_Str = 0 \<or> m_enc p = desiredEnc then Some (SQLITE_OK, p)
     else do {
       (rc, p) \<leftarrow> sqlite3VdbeMemTranslate ms p desiredEnc;
       check (rc = SQLITE_OK \<or> rc = SQLITE_NOMEM);
       check (rc = SQLITE_OK \<or> m_enc p \<noteq> desiredEnc);
       check (rc = SQLITE_NOMEM \<or> m_enc p = desiredEnc);
       Some (rc, p) } }"

definition sqlite3VdbeMemHandleBom :: "faults \<Rightarrow> Mem \<Rightarrow> (int \<times> Mem) option" where
  "sqlite3VdbeMemHandleBom ms p = do {
     bom \<leftarrow> (if m_n p > 1 then do {
              b1 \<leftarrow> nth_opt (m_z p) 0;
              b2 \<leftarrow> nth_opt (m_z p) 1;
              Some (if b1 = 0xFF \<and> b2 = 0xFE then SQLITE_UTF16LE
                    else if b1 = 0xFE \<and> b2 = 0xFF then SQLITE_UTF16BE else 0) }
            else Some 0);
     if bom \<noteq> 0 then do {
       (rc, p) \<leftarrow> sqlite3VdbeMemMakeWriteable ms p;
       if rc = SQLITE_OK then do {
         check (m_n p \<le> length (m_z p));
         let n = m_n p - 2;
         Some (rc, p\<lparr>m_n := n, m_z := take n (drop 2 (m_z p)) @ [0, 0] @ drop (n + 2) (m_z p),
           m_flags := m_flags p OR MEM_Term, m_enc := bom\<rparr>) }
       else Some (rc, p) }
     else Some (SQLITE_OK, p) }"

section \<open>Lengths\<close>

fun skip_tail :: "u8 list \<Rightarrow> u8 list option" where
  "skip_tail [] = None"
| "skip_tail (b # r) = (if b AND 0xc0 = 0x80 then skip_tail r else Some (b # r))"

fun SQLITE_SKIP_UTF8 :: "u8 list \<Rightarrow> u8 list option" where
  "SQLITE_SKIP_UTF8 [] = None"
| "SQLITE_SKIP_UTF8 (b # r) = (if b \<ge> 0xc0 then skip_tail r else Some r)"

text \<open>\<open>zTerm\<close> is given by the number of bytes ahead of \<open>z\<close> when \<open>z = zTerm\<close>; None is the largest address.\<close>

partial_function (option) charlen_loop :: "nat option \<Rightarrow> u8 list \<Rightarrow> nat \<Rightarrow> nat option" where
  "charlen_loop zTerm z r =
     (case z of [] \<Rightarrow> None
      | b # _ \<Rightarrow>
        if b \<noteq> 0 \<and> (case zTerm of None \<Rightarrow> True | Some t \<Rightarrow> length z > t)
        then do { z \<leftarrow> SQLITE_SKIP_UTF8 z; charlen_loop zTerm z (r + 1) }
        else Some r)"

definition sqlite3Utf8CharLen :: "u8 list \<Rightarrow> int \<Rightarrow> nat option" where
  "sqlite3Utf8CharLen zIn nByte =
     charlen_loop (if nByte \<ge> 0 then Some (length zIn - nat nByte) else None) zIn 0"

text \<open>A little-endian machine.\<close>

partial_function (option) bytelen_loop :: "u8 list \<Rightarrow> int \<Rightarrow> int \<Rightarrow> u8 list option" where
  "bytelen_loop z n nChar =
     (if n < nChar then do { (c, z) \<leftarrow> READ_UTF16LE (\<lambda>_. True) z; bytelen_loop z (n + 1) nChar }
      else Some z)"

definition sqlite3Utf16ByteLen :: "u8 list \<Rightarrow> int \<Rightarrow> nat option" where
  "sqlite3Utf16ByteLen zIn nChar = do {
     z \<leftarrow> bytelen_loop zIn 0 nChar;
     Some (length zIn - length z) }"

end
