(* ===== verification/Utf_Spec.thy ===== *)
theory Utf_Spec
  imports Utf
begin

text \<open>
  The character routines of Utf in numbers: each mask and shift becomes a quotient or a remainder, reading
  becomes the inverse of writing, and the conversion loops are treated once in two locales, one for the
  texts that a codec writes and one for arbitrary input.
\<close>

unbundle bit_operations_syntax

section \<open>Masks and shifts as arithmetic\<close>

lemma unat_take_bit: "unat (take_bit n x) = unat x mod 2 ^ n"
  unfolding unsigned_take_bit_eq by (rule take_bit_eq_mod)

lemma unat_and_mask: "unat (x AND mask n :: 'a::len word) = unat x mod 2 ^ n"
  unfolding take_bit_eq_mask [symmetric] by (rule unat_take_bit)

lemma and_lits:
  "unat (x AND 0xFF :: u32) = unat x mod 256" "unat (x AND 0x3F :: u32) = unat x mod 64"
  "unat (x AND 0x1F :: u32) = unat x mod 32" "unat (x AND 0x0F :: u32) = unat x mod 16"
  "unat (x AND 0x07 :: u32) = unat x mod 8" "unat (x AND 0x03 :: u32) = unat x mod 4"
  "unat (x AND 0x3FF :: u32) = unat x mod 1024"
  using unat_and_mask [of x 8] unat_and_mask [of x 6] unat_and_mask [of x 5] unat_and_mask [of x 4]
    unat_and_mask [of x 3] unat_and_mask [of x 2] unat_and_mask [of x 10]
  by (simp_all add: mask_eq_exp_minus_1)

lemma and_high: "(x :: u32) AND push_bit a (mask b) = push_bit a (take_bit b (drop_bit a x))"
  by (rule bit_word_eqI) (auto simp: bit_simps)

lemma unat_and_high: "a + b \<le> 32 \<Longrightarrow> unat ((x :: u32) AND push_bit a (mask b)) = unat x div 2 ^ a mod 2 ^ b * 2 ^ a"
proof -
  assume ab: "a + b \<le> 32"
  have t: "unat (take_bit b (drop_bit a x)) = unat x div 2 ^ a mod 2 ^ b"
    by (simp only: unat_take_bit unat_shr)
  have "unat x div 2 ^ a mod 2 ^ b * 2 ^ a < 2 ^ b * 2 ^ a" by (intro mult_strict_right_mono) simp_all
  also have "(2 :: nat) ^ b * 2 ^ a \<le> 2 ^ 32" unfolding power_add [symmetric] using ab by (intro power_increasing) simp_all
  finally have "unat x div 2 ^ a mod 2 ^ b * 2 ^ a < 2 ^ 32" .
  then show ?thesis unfolding and_high unsigned_push_bit_eq t by (simp add: push_bit_eq_mult take_bit_eq_mod)
qed

lemma u8_of_nat: "u8_of (x :: u32) = word_of_nat (unat x)"
  by simp

lemma u32_of_nat: "n < 256 \<Longrightarrow> u32_of (word_of_nat n :: u8) = word_of_nat n"
  by (simp add: unsigned_ucast_eq unsigned_of_nat take_bit_nat_eq_self)

lemma unat_u8: "unat (b :: u8) < 256"
  using unsigned_less [of b, where ?'a = nat] by simp

lemma unat32: "n < 2 ^ 32 \<Longrightarrow> unat (word_of_nat n :: u32) = n"
  by (simp add: unat_of_nat take_bit_eq_mod)

lemma unat8: "n < 256 \<Longrightarrow> unat (word_of_nat n :: u8) = n"
  by (simp add: unat_of_nat take_bit_eq_mod)

lemma unat_u32_of: "unat (u32_of (b :: u8)) = unat b"
  using u32_of_nat [OF unat_u8 [of b]] unat32 [of "unat b"] unat_u8 [of b] by simp

section \<open>UTF-8\<close>

lemma write_utf8_nat:
  "WRITE_UTF8 c = map word_of_nat
     (if unat c < 0x80 then [unat c mod 256]
      else if unat c < 0x800 then [0xC0 + unat c div 64 mod 32, 0x80 + unat c mod 64]
      else if unat c < 0x10000 then [0xE0 + unat c div 4096 mod 16, 0x80 + unat c div 64 mod 64, 0x80 + unat c mod 64]
      else [0xF0 + unat c div 262144 mod 8, 0x80 + unat c div 4096 mod 64, 0x80 + unat c div 64 mod 64, 0x80 + unat c mod 64])"
proof -
  have l: "c < 0x80 \<longleftrightarrow> unat c < 0x80" "c < 0x800 \<longleftrightarrow> unat c < 0x800" "c < 0x10000 \<longleftrightarrow> unat c < 0x10000"
    by (simp_all add: word_less_nat_alt)
  show ?thesis
    unfolding WRITE_UTF8_def l u8_of_nat and_lits unat_shr by (simp del: of_nat_unat)
qed

text \<open>A byte continues a character exactly when it is in 0x80 .. 0xbf.\<close>

definition cont :: "u8 \<Rightarrow> bool" where
  "cont b \<longleftrightarrow> b AND 0xc0 = 0x80"

lemma cont_iff: "cont b \<longleftrightarrow> 0x80 \<le> unat b \<and> unat b < 0xc0"
proof -
  have "list_all2 (\<lambda>b b'. (b AND 0xc0 = 0x80) = (0x80 \<le> b' \<and> b' < 0xc0)) all_u8 all_u8"
    unfolding all_u8_def by simp (simp add: word_le_nat_alt)
  from table_entry [OF this, of b] show ?thesis by (simp add: nth_all_u8 cont_def word_le_nat_alt word_less_nat_alt)
qed

lemma tail_step: "k < 64 \<Longrightarrow> utf8_tail (word_of_nat n) (word_of_nat (0x80 + k) # r) = utf8_tail (word_of_nat (n * 64 + k)) r"
proof -
  assume k: "k < 64"
  have "cont (word_of_nat (0x80 + k))" using k unat8 [of "0x80 + k"] by (simp add: cont_iff del: of_nat_add)
  moreover have "0x3f AND u32_of (word_of_nat (0x80 + k) :: u8) = (word_of_nat k :: u32)"
  proof -
    have "unat (u32_of (word_of_nat (0x80 + k) :: u8) AND 0x3f) = k"
    proof -
      have "(2 * 64 + k) mod 64 = k" using k by (simp only: mod_mult_self3 mod_less)
      moreover have "unat (u32_of (word_of_nat (0x80 + k) :: u8)) = 0x80 + k"
        using k u32_of_nat [of "0x80 + k"] unat32 [of "0x80 + k"] by (simp del: of_nat_add)
      ultimately show ?thesis unfolding and_lits by simp
    qed
    moreover have "unat (word_of_nat k :: u32) = k" using k by (intro unat32) simp
    ultimately show ?thesis by (simp only: and.commute word_unat_eq_iff)
  qed
  moreover have "shl (word_of_nat n) 6 + word_of_nat k = (word_of_nat (n * 64 + k) :: u32)"
    by (simp add: push_bit_eq_mult)
  ultimately show ?thesis by (simp add: cont_def)
qed

definition stops :: "u8 list \<Rightarrow> bool" where
  "stops r = (case r of [] \<Rightarrow> True | b # _ \<Rightarrow> \<not> cont b)"

lemma tail_stop: "stops r \<Longrightarrow> utf8_tail c r = (c, r)"
  by (cases r) (simp_all add: stops_def cont_def)

definition trans1 :: "nat \<Rightarrow> nat" where
  "trans1 k = (if k < 32 then k else if k < 48 then k - 32 else if k < 56 then k - 48 else if k < 60 then k - 56
    else if k < 62 then k - 60 else 0)"

lemma trans1_table: "k < 64 \<Longrightarrow> sqlite3Utf8Trans1 ! k = word_of_nat (trans1 k)"
proof -
  have "list_all (\<lambda>k. sqlite3Utf8Trans1 ! k = word_of_nat (trans1 k)) [0..<64]"
    by (simp add: sqlite3Utf8Trans1_def trans1_def upt_rec)
  then show "k < 64 \<Longrightarrow> ?thesis" by (simp add: list_all_iff)
qed

lemma read_lead:
  assumes "k < 64"
  shows "READ_UTF8 (word_of_nat (0xC0 + k) # r) =
    (let (c, r) = utf8_tail (word_of_nat (trans1 k)) r in Some (utf8_fix c, r))"
proof -
  have u: "unat (word_of_nat (0xC0 + k) :: u8) = 0xC0 + k" using assms by (intro unat8) simp
  have "word_of_nat (0xC0 + k) - 0xC0 = (word_of_nat k :: u8)" by simp
  moreover have "trans1 k < 64" using assms by (auto simp: trans1_def)
  moreover have "(0xc0 :: u8) \<le> word_of_nat (0xC0 + k)" using u by (simp add: word_le_nat_alt del: of_nat_add)
  ultimately show ?thesis
    using assms by (simp add: trans1_table u32_of_nat unat8 del: of_nat_add)
qed

lemma fix_nat:
  assumes "n < 2 ^ 32"
  shows "utf8_fix (word_of_nat n) = word_of_nat (if n < 0x80 \<or> n div 2048 = 27 \<or> n div 2 = 0x7FFF then 0xFFFD else n)"
proof -
  let ?c = "word_of_nat n :: u32"
  have m: "unat (?c AND push_bit a (mask (32 - a))) = n div 2 ^ a * 2 ^ a" if "a \<le> 32" for a
  proof -
    have "n div 2 ^ a < 2 ^ (32 - a)"
      using assms that by (simp add: less_mult_imp_div_less power_add [symmetric])
    then show ?thesis using unat_and_high [of a "32 - a" ?c] that by (simp add: unat32 [OF assms])
  qed
  have "?c AND 0xFFFFF800 = 0xD800 \<longleftrightarrow> n div 2048 = 27"
    using m [of 11] by (simp add: word_unat_eq_iff mask_eq_exp_minus_1 push_bit_eq_mult)
  moreover have "?c AND 0xFFFFFFFE = 0xFFFE \<longleftrightarrow> n div 2 = 0x7FFF"
    using m [of 1] by (simp add: word_unat_eq_iff mask_eq_exp_minus_1 push_bit_eq_mult)
  moreover have "?c < 0x80 \<longleftrightarrow> n < 0x80"
    by (simp add: word_less_nat_alt unat32 [OF assms])
  ultimately show ?thesis by (simp add: utf8_fix_def)
qed

definition utf8_value :: "nat \<Rightarrow> nat" where
  "utf8_value n = (if 0x80 \<le> n \<and> (n div 2048 = 27 \<or> n div 2 = 0x7FFF) then 0xFFFD else n)"

text \<open>Reading what was written: surrogates and the two non-characters become 0xFFFD.\<close>

lemma read_write_utf8:
  assumes n: "n < 0x110000" and r: "stops r"
  shows "READ_UTF8 (WRITE_UTF8 (word_of_nat n) @ r) = Some (word_of_nat (utf8_value n), r)"
proof -
  have u: "unat (word_of_nat n :: u32) = n" using n by (intro unat32) simp
  have step: "utf8_tail (word_of_nat m) (word_of_nat (0x80 + k) # s) = utf8_tail (word_of_nat (m * 64 + k)) s"
    if "k < 64" for m k s using that by (rule tail_step)
  have t: "k < 32 \<Longrightarrow> trans1 k = k" "k < 16 \<Longrightarrow> trans1 (32 + k) = k" "k < 8 \<Longrightarrow> trans1 (48 + k) = k" for k
    by (simp_all add: trans1_def)
  have fx: "0x80 \<le> n \<Longrightarrow> utf8_fix (word_of_nat n) = word_of_nat (utf8_value n)"
    using n by (subst fix_nat) (simp_all add: utf8_value_def)
  have d: "n div 4096 * 64 + n div 64 mod 64 = n div 64" "n div 64 * 64 + n mod 64 = n"
      "n div 262144 * 64 + n div 4096 mod 64 = n div 4096"
    by (simp_all only: div_mult2_eq [of n 64 64, simplified] div_mult2_eq [of n 4096 64, simplified] div_mult_mod_eq)
  consider (one) "n < 0x80" | (two) "0x80 \<le> n" "n < 0x800" | (three) "0x800 \<le> n" "n < 0x10000" | (four) "0x10000 \<le> n"
    by linarith
  then show ?thesis
  proof cases
    case one
    then have "\<not> (0xc0 :: u8) \<le> word_of_nat n" by (simp add: word_le_nat_alt unat8)
    moreover have "u32_of (word_of_nat n :: u8) = word_of_nat n" using one by (intro u32_of_nat) simp
    ultimately show ?thesis using one by (simp add: write_utf8_nat u utf8_value_def)
  next
    case two
    then have q: "n div 64 mod 32 = n div 64" "n div 64 < 32" by simp_all
    have "READ_UTF8 (word_of_nat (0xC0 + n div 64) # word_of_nat (0x80 + n mod 64) # r) = Some (word_of_nat (utf8_value n), r)"
      using q two fx by (simp only: read_lead step t tail_stop [OF r] d Let_def prod.case)
    then show ?thesis using two q by (simp only: write_utf8_nat u) simp
  next
    case three
    then have q: "n div 4096 mod 16 = n div 4096" "n div 4096 < 16" by simp_all
    have "READ_UTF8 (word_of_nat (0xC0 + (32 + n div 4096)) # word_of_nat (0x80 + n div 64 mod 64) # word_of_nat (0x80 + n mod 64) # r) =
        Some (word_of_nat (utf8_value n), r)"
      using q three fx by (simp only: read_lead step t tail_stop [OF r] d Let_def prod.case)
    then show ?thesis using three q by (simp only: write_utf8_nat u) simp
  next
    case four
    then have q: "n div 262144 mod 8 = n div 262144" "n div 262144 < 8" using n by simp_all
    have "READ_UTF8 (word_of_nat (0xC0 + (48 + n div 262144)) # word_of_nat (0x80 + n div 4096 mod 64) # word_of_nat (0x80 + n div 64 mod 64) #
        word_of_nat (0x80 + n mod 64) # r) = Some (word_of_nat (utf8_value n), r)"
      using q four fx by (simp only: read_lead step t tail_stop [OF r] d Let_def prod.case)
    then show ?thesis using four q by (simp only: write_utf8_nat u) simp
  qed
qed

section \<open>UTF-16\<close>

text \<open>The two units of a character above 0xFFFF.\<close>

definition hi_unit :: "nat \<Rightarrow> nat" where "hi_unit n = 0xD800 + (n - 0x10000) div 1024"
definition lo_unit :: "nat \<Rightarrow> nat" where "lo_unit n = 0xDC00 + (n - 0x10000) mod 1024"

definition utf16_units :: "nat \<Rightarrow> nat list" where
  "utf16_units n = (if n \<le> 0xFFFF then [n] else [hi_unit n, lo_unit n])"

definition unit_le :: "nat \<Rightarrow> u8 list" where
  "unit_le n = [word_of_nat (n mod 256), word_of_nat (n div 256)]"

definition unit_be :: "nat \<Rightarrow> u8 list" where
  "unit_be n = [word_of_nat (n div 256), word_of_nat (n mod 256)]"

lemma u8_eqI: "unat x = n \<Longrightarrow> u8_of (x :: u32) = word_of_nat n"
  by (simp only: u8_of_nat)

lemma u8_mod: "word_of_nat (n mod 256) = (word_of_nat n :: u8)"
  by (rule word_unat_eq_iff [THEN iffD2]) (simp add: unat_of_nat take_bit_eq_mod)

lemma surrogate_bytes:
  fixes c :: u32
  assumes c: "0x10000 \<le> unat c" "unat c < 0x110000"
  defines "m \<equiv> unat c - 0x10000"
  shows "u8_of ((shr c 10 AND 0x003F) + (shr (c - 0x10000) 10 AND 0x00C0)) = word_of_nat (m div 1024 mod 256)"
    and "u8_of (0x00D8 + (shr (c - 0x10000) 18 AND 0x03)) = word_of_nat (0xD8 + m div 262144)"
    and "u8_of (c AND 0x00FF) = word_of_nat (m mod 256)"
    and "u8_of (0x00DC + (shr c 8 AND 0x03)) = word_of_nat (0xDC + m div 256 mod 4)"
proof -
  have n: "unat c = m + 65536" "m < 0x100000" using c by (simp_all add: m_def)
  have s: "unat (c - 0x10000) = m"
  proof -
    have "(0x10000 :: u32) \<le> c" using c(1) by (simp add: word_le_nat_alt)
    from unat_sub [OF this] show ?thesis by (simp add: m_def)
  qed
  have a: "unat (shr c 10 AND 0x003F) = m div 1024 mod 64"
  proof -
    have "(m + 64 * 1024) div 1024 = m div 1024 + 64" by (simp only: div_mult_self3 [of 1024 m 64] mult.commute)
    then have "unat c div 1024 = m div 1024 + 64" unfolding n(1) by simp
    then show ?thesis unfolding and_lits unat_shr by simp
  qed
  have b: "unat (shr (c - 0x10000) 10 AND 0x00C0) = m div 1024 div 64 mod 4 * 64"
    using unat_and_high [of 6 2 "shr (c - 0x10000) 10"] unfolding unat_shr s
    by (simp add: mask_eq_exp_minus_1 push_bit_eq_mult)
  have "m div 1024 mod (64 * 4) = 64 * (m div 1024 div 64 mod 4) + m div 1024 mod 64" by (rule mod_mult2_eq)
  then have e: "unat (shr c 10 AND 0x003F) + unat (shr (c - 0x10000) 10 AND 0x00C0) = m div 1024 mod 256"
    unfolding a b by simp
  show "u8_of ((shr c 10 AND 0x003F) + (shr (c - 0x10000) 10 AND 0x00C0)) = word_of_nat (m div 1024 mod 256)"
    by (rule u8_eqI) (simp only: unat_word_ariths(1) e, simp?)
  have "m div 262144 mod 4 = m div 262144" using n(2) by simp
  then show "u8_of (0x00D8 + (shr (c - 0x10000) 18 AND 0x03)) = word_of_nat (0xD8 + m div 262144)"
    using n(2) by (intro u8_eqI) (simp only: unat_word_ariths(1) and_lits unat_shr s, simp?)
  have "(m + 256 * 256) mod 256 = m mod 256" by (rule mod_mult_self2)
  then show "u8_of (c AND 0x00FF) = word_of_nat (m mod 256)"
    by (intro u8_eqI) (simp add: and_lits n(1))
  have "(m + 256 * 256) div 256 = m div 256 + 256" by (simp only: div_mult_self2)
  moreover have "(m div 256 + 64 * 4) mod 4 = m div 256 mod 4" by (rule mod_mult_self1)
  ultimately have "unat c div 256 mod 4 = m div 256 mod 4" unfolding n(1) by simp
  then show "u8_of (0x00DC + (shr c 8 AND 0x03)) = word_of_nat (0xDC + m div 256 mod 4)"
    by (intro u8_eqI) (simp only: unat_word_ariths(1) and_lits unat_shr, simp?)
qed

lemma unit_arith:
  fixes m :: nat
  assumes "m < 0x100000"
  shows "(0xD800 + m div 1024) mod 256 = m div 1024 mod 256" "(0xD800 + m div 1024) div 256 = 0xD8 + m div 262144"
    "(0xDC00 + m mod 1024) mod 256 = m mod 256" "(0xDC00 + m mod 1024) div 256 = 0xDC + m div 256 mod 4"
proof -
  have x: "\<And>k j :: nat. (k * 256 + j) mod 256 = j mod 256" "\<And>k j :: nat. (k * 256 + j) div 256 = k + j div 256" by simp_all
  have d: "m div 1024 div 256 = m div 262144" by (simp add: div_mult2_eq [symmetric])
  have "m mod (256 * 4) = 256 * (m div 256 mod 4) + m mod 256" by (rule mod_mult2_eq)
  then have e: "m mod 1024 mod 256 = m mod 256" "m mod 1024 div 256 = m div 256 mod 4" by simp_all
  show "(0xD800 + m div 1024) mod 256 = m div 1024 mod 256" "(0xD800 + m div 1024) div 256 = 0xD8 + m div 262144"
    using x [where k = "0xD8" and j = "m div 1024"] d by simp_all
  show "(0xDC00 + m mod 1024) mod 256 = m mod 256" "(0xDC00 + m mod 1024) div 256 = 0xDC + m div 256 mod 4"
    using x [where k = "0xDC" and j = "m mod 1024"] e by simp_all
qed

lemma write_utf16:
  assumes n: "n < 0x110000"
  shows "WRITE_UTF16LE (word_of_nat n) = concat (map unit_le (utf16_units n))"
    and "WRITE_UTF16BE (word_of_nat n) = concat (map unit_be (utf16_units n))"
proof -
  let ?c = "word_of_nat n :: u32" and ?m = "n - 0x10000"
  have u: "unat ?c = n" using n by (intro unat32) simp
  have l: "?c \<le> 0xFFFF \<longleftrightarrow> n \<le> 0xFFFF" using u by (simp add: word_le_nat_alt)
  have small: "n \<le> 0xFFFF \<Longrightarrow> u8_of (?c AND 0x00FF) = word_of_nat (n mod 256)"
      "n \<le> 0xFFFF \<Longrightarrow> u8_of (shr ?c 8 AND 0x00FF) = word_of_nat (n div 256)"
    by (rule u8_eqI; simp only: and_lits unat_shr u; simp)+
  have big: "u8_of ((shr ?c 10 AND 0x003F) + (shr (?c - 0x10000) 10 AND 0x00C0)) = word_of_nat (hi_unit n mod 256)"
      "u8_of (0x00D8 + (shr (?c - 0x10000) 18 AND 0x03)) = word_of_nat (hi_unit n div 256)"
      "u8_of (?c AND 0x00FF) = word_of_nat (lo_unit n mod 256)"
      "u8_of (0x00DC + (shr ?c 8 AND 0x03)) = word_of_nat (lo_unit n div 256)" if "\<not> n \<le> 0xFFFF"
    using surrogate_bytes [of ?c] unit_arith [of ?m] that n unfolding u hi_unit_def lo_unit_def by simp_all
  show "WRITE_UTF16LE ?c = concat (map unit_le (utf16_units n))" "WRITE_UTF16BE ?c = concat (map unit_be (utf16_units n))"
    using small big by (simp_all only: WRITE_UTF16LE_def WRITE_UTF16BE_def l utf16_units_def) (simp_all add: unit_le_def unit_be_def)
qed

lemma unit_value:
  assumes "n < 0x10000"
  shows "u32_of (word_of_nat (n mod 256) :: u8) + shl (u32_of (word_of_nat (n div 256) :: u8)) 8 = word_of_nat n"
proof -
  have "shl (word_of_nat (n div 256)) 8 = (word_of_nat (n div 256 * 256) :: u32)" by (simp add: push_bit_eq_mult)
  then have "u32_of (word_of_nat (n mod 256) :: u8) + shl (u32_of (word_of_nat (n div 256) :: u8)) 8 =
      word_of_nat (n mod 256 + n div 256 * 256)"
    using assms by (simp only: u32_of_nat of_nat_add less_mult_imp_div_less mod_less_divisor)
  then show ?thesis by simp
qed

lemma pair_value:
  assumes "h < 1024" and "l < 1024"
  shows "((word_of_nat (0xDC00 + l) :: u32) AND 0x03FF) + shl (word_of_nat (0xD800 + h) AND 0x003F) 10 +
    shl ((word_of_nat (0xD800 + h) AND 0x03C0) + 0x0040) 10 = word_of_nat (0x10000 + h * 1024 + l)"
proof -
  have u: "unat (word_of_nat (0xDC00 + l) :: u32) = 55 * 1024 + l" "unat (word_of_nat (0xD800 + h) :: u32) = 864 * 64 + h"
    using assms by (simp_all add: unat32 del: of_nat_add)
  have "(55 * 1024 + l) mod 1024 = l" using assms by (simp only: mod_mult_self3 mod_less)
  then have 1: "(word_of_nat (0xDC00 + l) :: u32) AND 0x03FF = word_of_nat l"
    using assms by (simp only: word_unat_eq_iff and_lits u) (simp add: unat32)
  have "(864 * 64 + h) mod 64 = h mod 64" by (rule mod_mult_self3)
  then have 2: "(word_of_nat (0xD800 + h) :: u32) AND 0x003F = word_of_nat (h mod 64)"
    using assms by (simp only: word_unat_eq_iff and_lits u) (simp add: unat32)
  have "(864 * 64 + h) div 64 mod 16 = h div 64"
  proof -
    have "(864 * 64 + h) div 64 = 54 * 16 + h div 64" by simp
    moreover have "(54 * 16 + h div 64) mod 16 = h div 64" using assms by (simp only: mod_mult_self3) simp
    ultimately show ?thesis by simp
  qed
  then have 3: "(word_of_nat (0xD800 + h) :: u32) AND 0x03C0 = word_of_nat (h div 64 * 64)"
    using unat_and_high [of 6 4 "word_of_nat (0xD800 + h)"] assms
    by (simp add: word_unat_eq_iff u mask_eq_exp_minus_1 push_bit_eq_mult unat32 del: of_nat_add of_nat_mult)
  have s: "shl (word_of_nat x) 10 = (word_of_nat (x * 1024) :: u32)" for x by (simp add: push_bit_eq_mult)
  have "word_of_nat (h div 64 * 64) + 0x0040 = (word_of_nat (h div 64 * 64 + 64) :: u32)" by simp
  then have "((word_of_nat (0xDC00 + l) :: u32) AND 0x03FF) + shl (word_of_nat (0xD800 + h) AND 0x003F) 10 +
    shl ((word_of_nat (0xD800 + h) AND 0x03C0) + 0x0040) 10 = word_of_nat (l + h mod 64 * 1024 + (h div 64 * 64 + 64) * 1024)"
    by (simp only: 1 2 3 s of_nat_add [symmetric])
  also have g: "l + b * 1024 + (a * 64 + 64) * 1024 = 0x10000 + (a * 64 + b) * 1024 + l" for a b :: nat
    by simp
  finally show ?thesis by (simp only: div_mult_mod_eq)
qed

definition surrogate :: "nat \<Rightarrow> bool" where
  "surrogate n \<longleftrightarrow> n div 2048 = 27"

lemma surrogate_range: "surrogate n \<longleftrightarrow> 0xD800 \<le> n \<and> n < 0xE000"
  unfolding surrogate_def by (intro iffI conjI; linarith)

lemma read_one:
  assumes n: "n \<le> 0xFFFF" and t: "\<not> surrogate n \<or> \<not> tm r"
  shows "READ_UTF16LE tm (unit_le n @ r) = Some (word_of_nat n, r)"
    and "READ_UTF16BE tm (unit_be n @ r) = Some (word_of_nat n, r)"
proof -
  have v: "u32_of (word_of_nat (n mod 256) :: u8) + shl (u32_of (word_of_nat (n div 256) :: u8)) 8 = word_of_nat n"
    using n by (intro unit_value) simp
  have "unat (word_of_nat n :: u32) = n" using n by (intro unat32) simp
  then have s: "0xD800 \<le> (word_of_nat n :: u32) \<and> (word_of_nat n :: u32) < 0xE000 \<longleftrightarrow> surrogate n"
    by (simp add: word_le_nat_alt word_less_nat_alt surrogate_range)
  show "READ_UTF16LE tm (unit_le n @ r) = Some (word_of_nat n, r)"
    using v s t by (auto simp: unit_le_def Let_def)
  have v': "shl (u32_of (word_of_nat (n div 256) :: u8)) 8 + u32_of (word_of_nat (n mod 256) :: u8) = word_of_nat n"
    using v by (simp only: add.commute)
  show "READ_UTF16BE tm (unit_be n @ r) = Some (word_of_nat n, r)"
    using v' s t by (auto simp: unit_be_def Let_def)
qed

lemma read_two:
  assumes n: "0xFFFF < n" "n < 0x110000" and t: "tm (unit_le (lo_unit n) @ r)" "tm (unit_be (lo_unit n) @ r)"
  shows "READ_UTF16LE tm (unit_le (hi_unit n) @ unit_le (lo_unit n) @ r) = Some (word_of_nat n, r)"
    and "READ_UTF16BE tm (unit_be (hi_unit n) @ unit_be (lo_unit n) @ r) = Some (word_of_nat n, r)"
proof -
  let ?h = "(n - 0x10000) div 1024" and ?l = "(n - 0x10000) mod 1024"
  have h: "?h < 1024" "?l < 1024" using n by simp_all
  have e: "0x10000 + ?h * 1024 + ?l = n" using n div_mult_mod_eq [of "n - 0x10000" 1024] by linarith
  have u: "hi_unit n < 0x10000" "lo_unit n < 0x10000" "surrogate (hi_unit n)"
    using h by (simp_all add: hi_unit_def lo_unit_def surrogate_range)
  have "unat (word_of_nat (hi_unit n) :: u32) = hi_unit n" using u(1) by (intro unat32) simp
  then have s: "0xD800 \<le> (word_of_nat (hi_unit n) :: u32) \<and> (word_of_nat (hi_unit n) :: u32) < 0xE000"
    using u(3) by (simp add: word_le_nat_alt word_less_nat_alt surrogate_range)
  have p: "((word_of_nat (lo_unit n) :: u32) AND 0x03FF) + shl (word_of_nat (hi_unit n) AND 0x003F) 10 +
      shl ((word_of_nat (hi_unit n) AND 0x03C0) + 0x0040) 10 = word_of_nat n"
    unfolding hi_unit_def lo_unit_def pair_value [OF h] e ..
  note v = unit_value [OF u(1)] unit_value [OF u(2)]
  note v' = v [unfolded add.commute [of "u32_of _"]]
  show "READ_UTF16LE tm (unit_le (hi_unit n) @ unit_le (lo_unit n) @ r) = Some (word_of_nat n, r)"
    using t s p by (simp add: unit_le_def v Let_def)
  show "READ_UTF16BE tm (unit_be (hi_unit n) @ unit_be (lo_unit n) @ r) = Some (word_of_nat n, r)"
    using t s p by (simp add: unit_be_def v' Let_def)
qed

lemma read_write_utf16:
  assumes "n < 0x110000" and "\<not> surrogate n" and "\<And>r. r \<noteq> [] \<Longrightarrow> tm r"
  shows "READ_UTF16LE tm (WRITE_UTF16LE (word_of_nat n) @ r) = Some (word_of_nat n, r)"
    and "READ_UTF16BE tm (WRITE_UTF16BE (word_of_nat n) @ r) = Some (word_of_nat n, r)"
  using read_one [of n tm r] read_two [of n tm r] assms
  by (simp_all add: write_utf16 utf16_units_def) (simp_all add: unit_le_def unit_be_def)

section \<open>Conversion loops\<close>

text \<open>A codec: reading inverts writing on the characters in \<open>S\<close>, before any text that may follow (\<open>G\<close>).\<close>

locale codec =
  fixes rd :: "u8 list \<Rightarrow> (u32 \<times> u8 list) option" and enc :: "u32 \<Rightarrow> u8 list" and S :: "u32 set" and G :: "u8 list \<Rightarrow> bool"
  assumes read_enc: "c \<in> S \<Longrightarrow> G r \<Longrightarrow> rd (enc c @ r) = Some (c, r)"
    and enc_ne: "c \<in> S \<Longrightarrow> enc c \<noteq> []"
    and G_nil: "G []" and G_enc: "c \<in> S \<Longrightarrow> G r \<Longrightarrow> G (enc c @ r)"
begin

lemma G_text: "set cs \<subseteq> S \<Longrightarrow> G (concat (map enc cs))"
  by (induction cs) (simp_all add: G_nil G_enc)

lemma translate_text:
  "set cs \<subseteq> S \<Longrightarrow> translate_loop rd wr (concat (map enc cs)) = Some (concat (map wr cs))"
proof (induction cs)
  case Nil
  show ?case by (subst translate_loop.simps) simp
next
  case (Cons c cs)
  then have "rd (enc c @ concat (map enc cs)) = Some (c, concat (map enc cs))" using G_text [of cs] by (simp add: read_enc)
  then show ?case using Cons enc_ne [of c] by (subst translate_loop.simps) simp
qed

end

text \<open>Characters with an encoding: scalar values other than 0xFFFE and 0xFFFF, which UTF-8 does not deliver.\<close>

definition scalars :: "u32 set" where
  "scalars = {c. unat c < 0x110000 \<and> \<not> surrogate (unat c)}"

definition utf8_chars :: "u32 set" where
  "utf8_chars = {c \<in> scalars. unat c div 2 \<noteq> 0x7FFF}"

lemma write_utf8_first: "unat c < 0x110000 \<Longrightarrow> WRITE_UTF8 c \<noteq> [] \<and> \<not> cont (hd (WRITE_UTF8 c))"
  by (simp add: write_utf8_nat cont_iff unat8 del: of_nat_add of_nat_unat)

interpretation utf8: codec READ_UTF8 WRITE_UTF8 utf8_chars stops
proof unfold_locales
  fix c r
  assume c: "c \<in> utf8_chars"
  then have v: "utf8_value (unat c) = unat c" "unat c < 0x110000"
    by (auto simp: utf8_chars_def scalars_def surrogate_def utf8_value_def)
  show "WRITE_UTF8 c \<noteq> []" using write_utf8_first v(2) by blast
  assume r: "stops r"
  show "READ_UTF8 (WRITE_UTF8 c @ r) = Some (c, r)"
    using read_write_utf8 [OF v(2) r] v by simp
  show "stops (WRITE_UTF8 c @ r)"
    using write_utf8_first [OF v(2)] by (cases "WRITE_UTF8 c") (auto simp: stops_def)
qed (simp add: stops_def)

interpretation utf16le: codec "READ_UTF16LE (\<lambda>r. r \<noteq> [])" WRITE_UTF16LE scalars "\<lambda>_. True"
proof unfold_locales
  fix c r
  assume "c \<in> scalars"
  then show "READ_UTF16LE (\<lambda>r. r \<noteq> []) (WRITE_UTF16LE c @ r) = Some (c, r)"
    using read_write_utf16(1) [of "unat c" "\<lambda>r. r \<noteq> []" r] by (simp add: scalars_def)
  show "WRITE_UTF16LE c \<noteq> []" by (simp add: WRITE_UTF16LE_def)
qed simp_all

interpretation utf16be: codec "READ_UTF16BE (\<lambda>r. r \<noteq> [])" WRITE_UTF16BE scalars "\<lambda>_. True"
proof unfold_locales
  fix c r
  assume "c \<in> scalars"
  then show "READ_UTF16BE (\<lambda>r. r \<noteq> []) (WRITE_UTF16BE c @ r) = Some (c, r)"
    using read_write_utf16(2) [of "unat c" "\<lambda>r. r \<noteq> []" r] by (simp add: scalars_def)
  show "WRITE_UTF16BE c \<noteq> []" by (simp add: WRITE_UTF16BE_def)
qed simp_all

section \<open>Arbitrary input\<close>

text \<open>A reader that consumes at least what \<open>wr\<close> writes, up to a factor of two: then the loop ends and the
  output fits into the buffer. \<open>I\<close> is kept from one character to the next.\<close>

locale bounded_reader =
  fixes rd :: "u8 list \<Rightarrow> (u32 \<times> u8 list) option" and wr :: "u32 \<Rightarrow> u8 list" and I :: "u8 list \<Rightarrow> bool"
  assumes reads_some: "I z \<Longrightarrow> z \<noteq> [] \<Longrightarrow> \<exists>c r. rd z = Some (c, r) \<and> I r \<and> length r < length z \<and>
    length (wr c) \<le> 2 * (length z - length r)"
begin

lemma loop_ends: "I z \<Longrightarrow> \<exists>out. translate_loop rd wr z = Some out \<and> length out \<le> 2 * length z"
proof (induction z rule: length_induct)
  case (1 z)
  show ?case
  proof (cases "z = []")
    case True
    then show ?thesis by (subst translate_loop.simps) simp
  next
    case False
    then obtain c r where c: "rd z = Some (c, r)" "I r" "length r < length z" "length (wr c) \<le> 2 * (length z - length r)"
      using reads_some 1 by blast
    then obtain out where "translate_loop rd wr r = Some out" and "length out \<le> 2 * length r" using 1 by blast
    then have "translate_loop rd wr z = Some (wr c @ out)" using c False by (subst translate_loop.simps) simp
    then show ?thesis using c \<open>length out \<le> 2 * length r\<close> by simp
  qed
qed

end

lemma tail_length: "\<exists>c' r'. utf8_tail c r = (c', r') \<and> length r' \<le> length r \<and> unat c' < (unat c + 1) * 64 ^ (length r - length r')"
proof (induction c r rule: utf8_tail.induct)
  case (2 c b r)
  show ?case
  proof (cases "b AND 0xc0 = 0x80")
    case True
    let ?d = "shl c 6 + (0x3f AND u32_of b)"
    obtain c' r' where t: "utf8_tail ?d r = (c', r')" "length r' \<le> length r" "unat c' < (unat ?d + 1) * 64 ^ (length r - length r')"
      using 2 True by blast
    have "unat (0x3f AND u32_of b) < 64" using and_lits(2) [of "u32_of b"] by (simp add: and.commute)
    moreover have "unat (shl c 6) \<le> 64 * unat c"
      by (simp add: push_bit_eq_mult unat_word_ariths)
    moreover have "unat ?d \<le> unat (shl c 6) + unat (0x3f AND u32_of b)" by (simp add: unat_word_ariths)
    ultimately have "unat ?d + 1 \<le> (unat c + 1) * 64" by simp
    then have "(unat ?d + 1) * 64 ^ (length r - length r') \<le> (unat c + 1) * 64 * 64 ^ (length r - length r')"
      by (rule mult_le_mono1)
    then have "unat c' < (unat c + 1) * 64 * 64 ^ (length r - length r')" by (rule less_le_trans [OF t(3)])
    also have "\<dots> = (unat c + 1) * 64 ^ Suc (length r - length r')" by (simp only: power_Suc mult.assoc)
    also have "Suc (length r - length r') = length (b # r) - length r'" using t(2) by simp
    finally show ?thesis using t(1,2) True by (intro exI [of _ c'] exI [of _ r']) simp
  qed simp
qed simp

lemma fix_bounds: "unat (utf8_fix c) \<le> max (unat c) 0xFFFD"
  by (simp add: utf8_fix_def)

lemma write16_length: "length (WRITE_UTF16LE c) \<le> (if unat c \<le> 0xFFFF then 2 else 4)" "length (WRITE_UTF16BE c) \<le> (if unat c \<le> 0xFFFF then 2 else 4)"
  by (simp_all add: WRITE_UTF16LE_def WRITE_UTF16BE_def word_le_nat_alt)

text \<open>A character above 0xFFFF needs a lead byte and at least two more.\<close>

lemma read_utf8_bounds:
  assumes "z \<noteq> []"
  shows "\<exists>c r. READ_UTF8 z = Some (c, r) \<and> length r < length z \<and> (if unat c \<le> 0xFFFF then 2 else 4) \<le> 2 * (length z - length r)"
proof -
  obtain b s where z: "z = b # s" using assms by (cases z) auto
  show ?thesis
  proof (cases "b \<ge> 0xc0")
    case False
    have "unat (u32_of b) < 256" using unat_u8 [of b] by (simp only: unat_u32_of)
    then show ?thesis using False by (simp add: z)
  next
    case True
    let ?k = "unat (b - 0xc0)"
    have u: "?k = unat b - 0xc0" using unat_sub [OF True] by simp
    have k: "?k < 64" using unat_u8 [of b] unfolding u by simp
    have tr: "trans1 ?k < 32" by (auto simp: trans1_def)
    then have "unat (word_of_nat (trans1 ?k) :: u8) = trans1 ?k" by (intro unat8) simp
    then have t: "unat (u32_of (sqlite3Utf8Trans1 ! ?k)) < 32"
      using k tr by (simp add: trans1_table unat_u32_of)
    obtain c r where c: "utf8_tail (u32_of (sqlite3Utf8Trans1 ! ?k)) s = (c, r)" "length r \<le> length s"
        "unat c < (unat (u32_of (sqlite3Utf8Trans1 ! ?k)) + 1) * 64 ^ (length s - length r)"
      using tail_length by blast
    have "unat c < 32 * 64 ^ (length s - length r)"
      using c(3) t mult_le_mono1 [of "unat (u32_of (sqlite3Utf8Trans1 ! ?k)) + 1" 32 "64 ^ (length s - length r)"] by linarith
    then have "length s - length r = 0 \<Longrightarrow> unat c \<le> 0xFFFF" by simp
    then have "length s - length r = 0 \<Longrightarrow> unat (utf8_fix c) \<le> 0xFFFF" using fix_bounds [of c] by simp
    moreover obtain d where d: "length s = length r + d" using c(2) le_Suc_ex by blast
    ultimately have "(if unat (utf8_fix c) \<le> 0xFFFF then 2 else 4) \<le> 2 * (length z - length r)" by (cases d) (simp_all add: z)
    then show ?thesis using True c(1) d by (simp add: z)
  qed
qed

interpretation to16le: bounded_reader READ_UTF8 WRITE_UTF16LE "\<lambda>_. True"
proof unfold_locales
  fix z :: "u8 list"
  assume "z \<noteq> []"
  then obtain c r where c: "READ_UTF8 z = Some (c, r)" "length r < length z" "(if unat c \<le> 0xFFFF then 2 else 4) \<le> 2 * (length z - length r)"
    using read_utf8_bounds by blast
  have "length (WRITE_UTF16LE c) \<le> 2 * (length z - length r)" by (rule le_trans [OF write16_length(1) c(3)])
  then show "\<exists>c r. READ_UTF8 z = Some (c, r) \<and> True \<and> length r < length z \<and> length (WRITE_UTF16LE c) \<le> 2 * (length z - length r)"
    using c by blast
qed

interpretation to16be: bounded_reader READ_UTF8 WRITE_UTF16BE "\<lambda>_. True"
proof unfold_locales
  fix z :: "u8 list"
  assume "z \<noteq> []"
  then obtain c r where c: "READ_UTF8 z = Some (c, r)" "length r < length z" "(if unat c \<le> 0xFFFF then 2 else 4) \<le> 2 * (length z - length r)"
    using read_utf8_bounds by blast
  have "length (WRITE_UTF16BE c) \<le> 2 * (length z - length r)" by (rule le_trans [OF write16_length(2) c(3)])
  then show "\<exists>c r. READ_UTF8 z = Some (c, r) \<and> True \<and> length r < length z \<and> length (WRITE_UTF16BE c) \<le> 2 * (length z - length r)"
    using c by blast
qed

lemma write8_length: "length (WRITE_UTF8 c) \<le> (if unat c < 0x10000 then 3 else 4)"
  by (simp add: write_utf8_nat)

lemma read_unit_bound: "unat (u32_of (a :: u8) + shl (u32_of (b :: u8)) 8) < 0x10000"
proof -
  have "u32_of a + shl (u32_of b) 8 = word_of_nat (unat b * 256 + unat a)" by (simp add: push_bit_eq_mult)
  moreover have "unat b * 256 + unat a < 0x10000" using unat_u8 [of a] unat_u8 [of b] by simp
  ultimately show ?thesis using unat32 [of "unat b * 256 + unat a"] by (simp only:) simp
qed

lemma even_two: "z \<noteq> [] \<Longrightarrow> even (length z) \<Longrightarrow> \<exists>a b r. z = a # b # r \<and> even (length r)"
  by (cases z; cases "tl z") auto

interpretation from16le: bounded_reader "READ_UTF16LE (\<lambda>r. r \<noteq> [])" WRITE_UTF8 "\<lambda>z. even (length z)"
proof unfold_locales
  fix z :: "u8 list"
  assume "even (length z)" "z \<noteq> []"
  then obtain a b r where z: "z = a # b # r" "even (length r)" using even_two by blast
  let ?c = "u32_of a + shl (u32_of b) 8"
  show "\<exists>c r. READ_UTF16LE (\<lambda>r. r \<noteq> []) z = Some (c, r) \<and> even (length r) \<and> length r < length z \<and>
    length (WRITE_UTF8 c) \<le> 2 * (length z - length r)"
  proof (cases "?c \<ge> 0xD800 \<and> ?c < 0xE000 \<and> r \<noteq> []")
    case False
    have "length (WRITE_UTF8 ?c) \<le> 3" using write8_length [of ?c] read_unit_bound [of a b] by simp
    then show ?thesis using False z by (auto simp: Let_def)
  next
    case True
    then obtain x y s where r: "r = x # y # s" "even (length s)" using even_two z(2) by blast
    have w: "length (WRITE_UTF8 c) \<le> 8" for c using write8_length [of c] by (simp split: if_splits)
    show ?thesis using True z r w by (simp add: Let_def)
  qed
qed

interpretation from16be: bounded_reader "READ_UTF16BE (\<lambda>r. r \<noteq> [])" WRITE_UTF8 "\<lambda>z. even (length z)"
proof unfold_locales
  fix z :: "u8 list"
  assume "even (length z)" "z \<noteq> []"
  then obtain a b r where z: "z = a # b # r" "even (length r)" using even_two by blast
  let ?c = "shl (u32_of a) 8 + u32_of b"
  show "\<exists>c r. READ_UTF16BE (\<lambda>r. r \<noteq> []) z = Some (c, r) \<and> even (length r) \<and> length r < length z \<and>
    length (WRITE_UTF8 c) \<le> 2 * (length z - length r)"
  proof (cases "?c \<ge> 0xD800 \<and> ?c < 0xE000 \<and> r \<noteq> []")
    case False
    have "length (WRITE_UTF8 ?c) \<le> 3" using write8_length [of ?c] read_unit_bound [of b a] by (simp add: add.commute)
    then show ?thesis using False z by (auto simp: Let_def)
  next
    case True
    then obtain x y s where r: "r = x # y # s" "even (length s)" using even_two z(2) by blast
    have w: "length (WRITE_UTF8 c) \<le> 8" for c using write8_length [of c] by (simp split: if_splits)
    show ?thesis using True z r w by (simp add: Let_def)
  qed
qed

end
