(* ===== verification/Utf_Props.thy ===== *)
theory Utf_Props
  imports Utf_Spec
begin

text \<open>
  Properties of the encodings: what the self test of tsrc/utf.c checks, for every character and context; the
  conversion of a value between the three encodings; its safety on arbitrary bytes; and character counts.
\<close>

unbundle bit_operations_syntax

section \<open>The reader of zero-terminated text\<close>

lemma tail_z: "utf8_tail c r = (c', b # r') \<Longrightarrow> utf8_tail_z c r = Some (c', b # r')"
  by (induction c r rule: utf8_tail.induct) (auto split: if_splits)

lemma utf8Read_z: "READ_UTF8 z = Some (c, b # r) \<Longrightarrow> sqlite3Utf8Read z = Some (c, b # r)"
  by (cases z) (auto split: if_splits prod.splits simp: tail_z Let_def)

section \<open>Conversion of a value\<close>

definition writer :: "u8 \<Rightarrow> u32 \<Rightarrow> u8 list" where
  "writer e = (if e = SQLITE_UTF8 then WRITE_UTF8 else if e = SQLITE_UTF16LE then WRITE_UTF16LE else WRITE_UTF16BE)"

definition encode :: "u8 \<Rightarrow> u32 list \<Rightarrow> u8 list" where
  "encode e cs = concat (map (writer e) cs)"

definition encodings :: "u8 set" where
  "encodings = {SQLITE_UTF8, SQLITE_UTF16LE, SQLITE_UTF16BE}"

lemmas enc_defs = SQLITE_UTF8_def SQLITE_UTF16LE_def SQLITE_UTF16BE_def

definition mem_text :: "Mem \<Rightarrow> u8 list" where
  "mem_text p = take (m_n p) (m_z p)"

text \<open>A string value: its text is in its buffer and not longer than the length limit of the library.\<close>

definition string_value :: "Mem \<Rightarrow> bool" where
  "string_value p \<longleftrightarrow> m_flags p AND MEM_Str \<noteq> 0 \<and> m_flags p AND MEM_RowSet = 0 \<and> m_flags p AND MEM_Zero = 0 \<and>
     m_n p \<le> length (m_z p) \<and> m_n p \<le> SQLITE_MAX_LENGTH \<and> m_enc p \<in> encodings"


lemma length_swap [simp]: "length (swap_pairs xs) = length xs"
  by (induction xs rule: swap_pairs.induct) auto




lemma str_flag: "(MEM_Str OR MEM_Term OR x) AND MEM_Str \<noteq> 0" "x AND MEM_Str \<noteq> 0 \<Longrightarrow> x AND (MEM_Str OR MEM_Blob) \<noteq> 0"
proof -
  show "(MEM_Str OR MEM_Term OR x) AND MEM_Str \<noteq> 0"
  proof
    assume "(MEM_Str OR MEM_Term OR x) AND MEM_Str = 0"
    then have "bit ((MEM_Str OR MEM_Term OR x) AND MEM_Str) 1 = bit (0 :: u16) 1" by simp
    then show False by (simp add: bit_simps MEM_Str_def)
  qed
  assume a: "x AND MEM_Str \<noteq> 0"
  have "x AND MEM_Str = (x AND (MEM_Str OR MEM_Blob)) AND MEM_Str" by (rule bit_word_eqI) (auto simp: bit_simps)
  then show "x AND (MEM_Str OR MEM_Blob) \<noteq> 0" using a by auto
qed

text \<open>Making the value writable keeps its text.\<close>

lemma size_values:
  assumes "string_value p"
  shows "int_value (int (m_n p) + 2) = Some (int (m_n p) + 2)" and "n \<le> m_n p \<Longrightarrow> int_value (int n * 2 + 1) = Some (int n * 2 + 1)"
    and "int_value (int (m_n p) * 2 + 2) = Some (int (m_n p) * 2 + 2)"
  using assms by (simp_all add: int_value_def string_value_def SQLITE_MAX_LENGTH_def)

lemma even_size:
  assumes "string_value p"
  shows "int_value (int (m_n p - m_n p mod 2) * 2 + 1) = Some (int (m_n p - m_n p mod 2) * 2 + 1)"
    "int_value ((int (m_n p) - int (m_n p mod 2)) * 2 + 1) = Some (int (m_n p - m_n p mod 2) * 2 + 1)"
    "int_value (int (m_n p) * 2 - 2 * int (m_n p mod 2) + 1) = Some (int (m_n p - m_n p mod 2) * 2 + 1)"
    "int_value (int (m_n p) * 2 - int (m_n p mod 2) * 2 + 1) = Some (int (m_n p - m_n p mod 2) * 2 + 1)"
proof -
  have d: "int (m_n p - m_n p mod 2) = int (m_n p) - int (m_n p mod 2)" by (simp add: of_nat_diff)
  show "int_value (int (m_n p - m_n p mod 2) * 2 + 1) = Some (int (m_n p - m_n p mod 2) * 2 + 1)"
    by (rule size_values(2) [OF assms]) simp
  then show "int_value ((int (m_n p) - int (m_n p mod 2)) * 2 + 1) = Some (int (m_n p - m_n p mod 2) * 2 + 1)"
    "int_value (int (m_n p) * 2 - 2 * int (m_n p mod 2) + 1) = Some (int (m_n p - m_n p mod 2) * 2 + 1)"
    "int_value (int (m_n p) * 2 - int (m_n p mod 2) * 2 + 1) = Some (int (m_n p - m_n p mod 2) * 2 + 1)"
    unfolding d by (simp_all add: algebra_simps)
qed

lemma addTerminator_ok:
  assumes "string_value p"
  shows "vdbeMemAddTerminator ms p =
     (if alloc_ok ms then
        Some (SQLITE_OK, p\<lparr>m_z := take (m_n p) (m_z p) @ [0, 0], m_own := True,
           m_flags := (m_flags p AND NOT (MEM_Dyn OR MEM_Ephem OR MEM_Static)) OR MEM_Term\<rparr>)
      else Some (SQLITE_NOMEM, p\<lparr>m_z := [], m_own := False, m_flags := MEM_Null\<rparr>))"
proof -
  have f: "m_flags p AND (MEM_Blob OR MEM_Str) \<noteq> 0"
    using assms str_flag(2) [of "m_flags p"] by (simp add: string_value_def or.commute)
  have n: "m_n p \<le> nat (if int (m_n p) + 2 < 32 then 32 else int (m_n p) + 2)"
    "m_n p + 2 \<le> nat (if int (m_n p) + 2 < 32 then 32 else int (m_n p) + 2)" by auto
  show ?thesis
    using assms f n
    by (simp add: vdbeMemAddTerminator_def size_values [OF assms] sqlite3VdbeMemGrow_def string_value_def Let_def rc_defs
        split del: if_split cong: if_cong) (simp add: rc_defs)
qed

lemma makeWriteable_ok:
  assumes "string_value p"
  obtains rc p' where "sqlite3VdbeMemMakeWriteable ms p = Some (rc, p')" and "rc = SQLITE_OK \<or> rc = SQLITE_NOMEM"
    and "alloc_ok ms \<longrightarrow> rc = SQLITE_OK"
    and "rc = SQLITE_OK \<Longrightarrow> mem_text p' = mem_text p \<and> m_n p' = m_n p \<and> m_n p \<le> length (m_z p')"
    and "m_enc p' = m_enc p"
  using assms addTerminator_ok [OF assms, of ms]
  by (cases "alloc_ok ms"; cases "m_own p")
    (auto simp: sqlite3VdbeMemMakeWriteable_def string_value_def str_flag mem_text_def rc_defs)

text \<open>The conversion, by direction: what is written for the text that is read.\<close>

definition conv_loop :: "u8 \<Rightarrow> u8 \<Rightarrow> u8 list \<Rightarrow> u8 list option" where
  "conv_loop e e' z =
     (if e = SQLITE_UTF8 then translate_loop READ_UTF8 (writer e') z
      else translate_loop (if e = SQLITE_UTF16LE then READ_UTF16LE (\<lambda>r. r \<noteq> []) else READ_UTF16BE (\<lambda>r. r \<noteq> [])) WRITE_UTF8 z)"

lemma utf8_chars_sub: "utf8_chars \<subseteq> scalars"
  by (auto simp: utf8_chars_def)


lemma conv_total:
  assumes "e \<in> encodings" and "e \<noteq> e'" and "e = SQLITE_UTF8 \<or> even (length z)"
  obtains out where "conv_loop e e' z = Some out" and "length out \<le> 2 * length z"
proof -
  have "\<exists>out. conv_loop e e' z = Some out \<and> length out \<le> 2 * length z"
  proof (cases "e = SQLITE_UTF8")
    case True
    then show ?thesis using assms(2) to16le.loop_ends [of z] to16be.loop_ends [of z] by (auto simp: conv_loop_def writer_def)
  next
    case False
    then show ?thesis using assms(3) from16le.loop_ends [of z] from16be.loop_ends [of z] by (auto simp: conv_loop_def)
  qed
  then show thesis using that by blast
qed

definition even_n :: "u8 \<Rightarrow> nat \<Rightarrow> nat" where
  "even_n e' n = (if e' = SQLITE_UTF8 then n - n mod 2 else n)"

text \<open>Conversion to or from UTF-8: the buffer is always large enough.\<close>

lemma translate_conv:
  assumes s: "string_value p" and e': "e' \<in> encodings" and ne: "m_enc p \<noteq> e'"
    and u: "m_enc p = SQLITE_UTF8 \<or> e' = SQLITE_UTF8" and a: "alloc_ok ms"
    and out: "conv_loop (m_enc p) e' (take (even_n e' (m_n p)) (m_z p)) = Some out"
    and len: "length out \<le> 2 * even_n e' (m_n p)"
  shows "\<exists>tl. sqlite3VdbeMemTranslate ms p e' = Some (SQLITE_OK, p\<lparr>m_n := length out,
    m_flags := MEM_Str OR MEM_Term OR (m_flags p AND (MEM_AffMask OR MEM_Subtype)), m_enc := e', m_z := out @ tl, m_own := True\<rparr>)"
proof (cases "e' = SQLITE_UTF8")
  case True
  then have "m_enc p \<noteq> SQLITE_UTF8" using ne by simp
  moreover have "m_enc p \<noteq> 0" using s by (auto simp: string_value_def encodings_def enc_defs)
  moreover have "int (length out) \<le> int (2 * (m_n p - m_n p mod 2))"
    using len True unfolding of_nat_le_iff by (simp add: even_n_def)
  then have lo: "int (length out) \<le> int (m_n p) * 2 - int (m_n p mod 2) * 2" by (simp add: of_nat_diff)
  ultimately show ?thesis
    using s a out len True unfolding sqlite3VdbeMemTranslate_def string_value_def conv_loop_def even_n_def
    by (intro exI [of _ "[0]"]) (cases "m_enc p = SQLITE_UTF16LE"; simp add: Let_def even_size [OF s] lo)
next
  case False
  then have f: "m_enc p = SQLITE_UTF8" using u by simp
  moreover have "SQLITE_UTF8 \<noteq> 0" by (simp add: enc_defs)
  moreover have "e' = SQLITE_UTF16LE \<or> e' = SQLITE_UTF16BE" using e' False by (simp add: encodings_def)
  ultimately show ?thesis
    using s a out len False unfolding sqlite3VdbeMemTranslate_def string_value_def conv_loop_def even_n_def writer_def
    by (intro exI [of _ "[0, 0]"]) (auto simp: Let_def size_values [OF s])
qed

lemma translate_fault:
  assumes "string_value p" and "e' \<in> encodings" and "m_enc p \<noteq> e'" and "m_enc p = SQLITE_UTF8 \<or> e' = SQLITE_UTF8"
    and "\<not> alloc_ok ms"
  shows "sqlite3VdbeMemTranslate ms p e' = Some (SQLITE_NOMEM, p\<lparr>m_n := even_n e' (m_n p)\<rparr>)"
  using assms size_values [OF assms(1)] even_size [OF assms(1)]
  by (auto simp: sqlite3VdbeMemTranslate_def string_value_def even_n_def encodings_def enc_defs Let_def)

text \<open>Between the two UTF-16 orders the bytes are swapped.\<close>

lemma translate_swap:
  assumes s: "string_value p" and e': "e' \<in> encodings" and ne: "m_enc p \<noteq> e'" and u: "m_enc p \<noteq> SQLITE_UTF8" "e' \<noteq> SQLITE_UTF8"
  obtains rc p' where "sqlite3VdbeMemTranslate ms p e' = Some (rc, p')" and "rc = SQLITE_OK \<or> rc = SQLITE_NOMEM"
    and "alloc_ok ms \<longrightarrow> rc = SQLITE_OK"
    and "rc = SQLITE_OK \<Longrightarrow> m_enc p' = e' \<and> m_n p' = m_n p \<and> m_n p \<le> length (m_z p') \<and>
      (even (m_n p) \<longrightarrow> mem_text p' = swap_pairs (mem_text p))"
    and "rc = SQLITE_NOMEM \<Longrightarrow> m_enc p' \<noteq> e'"
proof -
  obtain rc p1 where w: "sqlite3VdbeMemMakeWriteable ms p = Some (rc, p1)" "rc = SQLITE_OK \<or> rc = SQLITE_NOMEM"
      "alloc_ok ms \<longrightarrow> rc = SQLITE_OK"
      "rc = SQLITE_OK \<Longrightarrow> mem_text p1 = mem_text p \<and> m_n p1 = m_n p \<and> m_n p \<le> length (m_z p1)" "m_enc p1 = m_enc p"
    using makeWriteable_ok [OF s] by blast
  have nz: "m_enc p \<noteq> 0" using s by (auto simp: string_value_def encodings_def enc_defs)
  let ?m = "m_n p - m_n p mod 2"
  let ?q = "p1\<lparr>m_z := swap_pairs (take ?m (m_z p1)) @ drop ?m (m_z p1), m_enc := e'\<rparr>"
  show thesis
  proof (cases "rc = SQLITE_OK")
    case True
    then have le: "m_n p - m_n p mod 2 \<le> length (m_z p1)" using w(4) by linarith
    from True have "sqlite3VdbeMemTranslate ms p e' = Some (SQLITE_OK, ?q)"
      using s ne u nz w le by (simp add: sqlite3VdbeMemTranslate_def string_value_def Let_def)
    moreover have "m_n p \<le> length (m_z p)" using s by (simp add: string_value_def)
    ultimately show thesis using True w(4) by (intro that) (auto simp: mem_text_def min_def rc_defs)
  next
    case False
    then have "sqlite3VdbeMemTranslate ms p e' = Some (SQLITE_NOMEM, p1)"
      using s ne u nz w by (simp add: sqlite3VdbeMemTranslate_def string_value_def)
    then show thesis using False w ne by (intro that [of SQLITE_NOMEM p1]) (auto simp: rc_defs)
  qed
qed

lemma translate_total:
  assumes "string_value p" and "e \<in> encodings" and ne: "m_enc p \<noteq> e"
  shows "\<exists>rc p'. sqlite3VdbeMemTranslate ms p e = Some (rc, p') \<and>
    (rc = SQLITE_OK \<and> m_enc p' = e \<and> m_n p' \<le> length (m_z p') \<or> rc = SQLITE_NOMEM \<and> \<not> alloc_ok ms \<and> m_enc p' \<noteq> e)"
proof (cases "m_enc p = SQLITE_UTF8 \<or> e = SQLITE_UTF8")
  case u: True
  show ?thesis
  proof (cases "alloc_ok ms")
    case True
    have b: "m_n p \<le> length (m_z p)" "m_enc p \<in> encodings" using assms(1) by (simp_all add: string_value_def)
    then have "even_n e (m_n p) \<le> length (m_z p)" by (auto simp: even_n_def)
    then have l: "length (take (even_n e (m_n p)) (m_z p)) = even_n e (m_n p)" by simp
    have "m_enc p = SQLITE_UTF8 \<or> even (even_n e (m_n p))" using u ne by (auto simp: even_n_def)
    then obtain out where "conv_loop (m_enc p) e (take (even_n e (m_n p)) (m_z p)) = Some out" "length out \<le> 2 * even_n e (m_n p)"
      using conv_total [OF b(2) ne, of "take (even_n e (m_n p)) (m_z p)"] unfolding l by blast
    from translate_conv [OF assms u True this] show ?thesis by auto
  next
    case False
    then show ?thesis using translate_fault [OF assms u False] ne by (auto simp: rc_defs)
  qed
next
  case False
  then have u: "m_enc p \<noteq> SQLITE_UTF8" "e \<noteq> SQLITE_UTF8" by simp_all
  obtain rc p' where t: "sqlite3VdbeMemTranslate ms p e = Some (rc, p')" "rc = SQLITE_OK \<or> rc = SQLITE_NOMEM"
    "alloc_ok ms \<longrightarrow> rc = SQLITE_OK" "rc = SQLITE_OK \<Longrightarrow> m_enc p' = e \<and> m_n p' = m_n p \<and> m_n p \<le> length (m_z p')"
    "rc = SQLITE_NOMEM \<Longrightarrow> m_enc p' \<noteq> e"
    by (rule translate_swap [OF assms u, of ms]) blast
  then show ?thesis by (auto simp: rc_defs)
qed

section \<open>Counting\<close>

lemma skip_tail_stops: "utf8_tail c r = (c', b # r') \<Longrightarrow> skip_tail r = Some (b # r')"
  by (induction c r rule: utf8_tail.induct) (auto split: if_splits)

lemma skip_utf8: "READ_UTF8 z = Some (c, b # r) \<Longrightarrow> SQLITE_SKIP_UTF8 z = Some (b # r)"
proof (cases z)
  case (Cons x s)
  assume a: "READ_UTF8 z = Some (c, b # r)"
  show ?thesis
  proof (cases "0xc0 \<le> x")
    case True
    then show ?thesis using a Cons by (auto simp: Let_def skip_tail_stops split: prod.splits)
  next
    case False
    then show ?thesis using a Cons by auto
  qed
qed simp

lemma write_utf8_nonzero: "c \<in> utf8_chars \<Longrightarrow> c \<noteq> 0 \<Longrightarrow> hd (WRITE_UTF8 c) \<noteq> 0"
proof -
  assume c: "c \<in> utf8_chars" "c \<noteq> 0"
  have n: "unat c \<noteq> 0" "unat c < 0x110000" using c by (auto simp: utf8_chars_def scalars_def unat_eq_zero)
  have "unat (hd (WRITE_UTF8 c)) \<noteq> 0" using n by (simp add: write_utf8_nat unat8 del: of_nat_add of_nat_unat)
  then show ?thesis by auto
qed

lemma charlen_text:
  "set cs \<subseteq> utf8_chars - {0} \<Longrightarrow> charlen_loop None (concat (map WRITE_UTF8 cs) @ 0 # r) k = Some (k + length cs)"
proof (induction cs arbitrary: k)
  case Nil
  show ?case by (subst charlen_loop.simps) simp
next
  case (Cons c cs)
  let ?t = "concat (map WRITE_UTF8 cs) @ 0 # r"
  have c: "c \<in> utf8_chars" "c \<noteq> 0" using Cons.prems by auto
  obtain x s where w: "WRITE_UTF8 c = x # s" using utf8.enc_ne [OF c(1)] by (cases "WRITE_UTF8 c") auto
  have "stops (0 # r)" by (simp add: stops_def cont_iff)
  then have "stops ?t"
    using utf8.G_enc [of _ "concat (map WRITE_UTF8 _) @ 0 # r"] Cons.prems
    by (induction cs) auto
  then have rd: "READ_UTF8 (WRITE_UTF8 c @ ?t) = Some (c, ?t)" by (rule utf8.read_enc [OF c(1)])
  obtain b q where t: "?t = b # q" by (cases ?t) auto
  have "SQLITE_SKIP_UTF8 (WRITE_UTF8 c @ ?t) = Some ?t" using skip_utf8 rd t by simp
  moreover have "x \<noteq> 0" using write_utf8_nonzero [OF c] w by simp
  ultimately show ?case using Cons w by (subst charlen_loop.simps) simp
qed

lemma bytelen_text:
  "set cs \<subseteq> scalars \<Longrightarrow> bytelen_loop (concat (map WRITE_UTF16LE cs) @ r) n (n + int (length cs)) = Some r"
proof (induction cs arbitrary: n)
  case Nil
  show ?case by (subst bytelen_loop.simps) simp
next
  case (Cons c cs)
  have "READ_UTF16LE (\<lambda>_. True) (WRITE_UTF16LE c @ concat (map WRITE_UTF16LE cs) @ r) = Some (c, concat (map WRITE_UTF16LE cs) @ r)"
    using read_write_utf16(1) [of "unat c" "\<lambda>_. True"] Cons.prems by (simp add: scalars_def)
  moreover have "n + int (length (c # cs)) = n + 1 + int (length cs)" "n < n + 1 + int (length cs)" by simp_all
  ultimately show ?case using Cons.IH [of "n + 1", unfolded add.assoc] Cons.prems
    by (subst bytelen_loop.simps) (simp del: of_nat_Suc list.size)
qed

section \<open>Properties\<close>

text \<open>C34: What \<open>sqlite3UtfSelfTest\<close> checks, with any text after the character that does not begin with a UTF-8
  continuation byte (0x80 to 0xBF): a character below 0x110000 is written in at most four bytes; reading it back
  consumes exactly these and gives the character, except that UTF-8 gives 0xFFFD for surrogates and for 0xFFFE and
  0xFFFF; both UTF-16 orders give every character other than surrogates.\<close>

theorem utf_characters:
  assumes "n < 0x110000" and "tail = [] \<or> \<not> cont (hd tail)"
  shows "READ_UTF8 (WRITE_UTF8 (word_of_nat n) @ tail) = Some (word_of_nat (utf8_value n), tail) \<and>
    sqlite3Utf8Read (WRITE_UTF8 (word_of_nat n) @ 0 # tail) = Some (word_of_nat (utf8_value n), 0 # tail) \<and>
    length (WRITE_UTF8 (word_of_nat n)) \<le> 4 \<and>
    (surrogate n \<or>
      READ_UTF16LE (\<lambda>_. True) (WRITE_UTF16LE (word_of_nat n) @ tail) = Some (word_of_nat n, tail) \<and>
      READ_UTF16BE (\<lambda>_. True) (WRITE_UTF16BE (word_of_nat n) @ tail) = Some (word_of_nat n, tail))"
proof (intro conjI)
  have "stops tail" using assms(2) by (cases tail) (auto simp: stops_def)
  then show "READ_UTF8 (WRITE_UTF8 (word_of_nat n) @ tail) = Some (word_of_nat (utf8_value n), tail)"
    by (rule read_write_utf8 [OF assms(1)])
  have "stops (0 # tail)" by (simp add: stops_def cont_iff)
  then show "sqlite3Utf8Read (WRITE_UTF8 (word_of_nat n) @ 0 # tail) = Some (word_of_nat (utf8_value n), 0 # tail)"
    by (intro utf8Read_z read_write_utf8 [OF assms(1)])
  show "length (WRITE_UTF8 (word_of_nat n)) \<le> 4" by (rule le_trans [OF write8_length]) simp
  show "surrogate n \<or>
      READ_UTF16LE (\<lambda>_. True) (WRITE_UTF16LE (word_of_nat n) @ tail) = Some (word_of_nat n, tail) \<and>
      READ_UTF16BE (\<lambda>_. True) (WRITE_UTF16BE (word_of_nat n) @ tail) = Some (word_of_nat n, tail)"
    using read_write_utf16 [OF assms(1), of "\<lambda>_. True" tail] by (cases "surrogate n") simp_all
qed

theorem utf_characters_witness:
  "READ_UTF8 (WRITE_UTF8 0xD800 @ [0x41]) = Some (0xFFFD, [0x41])"
  using utf_characters [of "0xD800" "[0x41]"] by (simp add: cont_iff utf8_value_def)



text \<open>C36: Conversion is safe on every string value that keeps the length limit of 1,000,000,000 bytes
  (\<open>SQLITE_MAX_LENGTH\<close>), well formed or not: it ends, no size computation leaves the range of \<open>int\<close>, and all its
  copies and writes stay inside the buffers that it allocated with these sizes, the copy that is made for a byte swap
  included (the model checks this); it only reports OK or NOMEM, NOMEM only when an allocation failed, and after OK
  the value has the desired encoding and a length within its buffer.\<close>

theorem changeEncoding_total:
  assumes "string_value p" and "e \<in> encodings"
  shows "\<exists>rc p'. sqlite3VdbeChangeEncoding ms p e = Some (rc, p') \<and>
    (rc = SQLITE_OK \<and> m_enc p' = e \<and> m_n p' \<le> length (m_z p') \<or> rc = SQLITE_NOMEM \<and> \<not> alloc_ok ms)"
proof (cases "m_enc p = e")
  case True
  then show ?thesis using assms by (auto simp: sqlite3VdbeChangeEncoding_def string_value_def encodings_def)
next
  case ne: False
  have "\<exists>rc p'. sqlite3VdbeMemTranslate ms p e = Some (rc, p') \<and>
    (rc = SQLITE_OK \<and> m_enc p' = e \<and> m_n p' \<le> length (m_z p') \<or> rc = SQLITE_NOMEM \<and> \<not> alloc_ok ms \<and> m_enc p' \<noteq> e)"
    using translate_total [OF assms ne] .
  then show ?thesis using assms ne by (auto simp: sqlite3VdbeChangeEncoding_def string_value_def encodings_def rc_defs)
qed

theorem changeEncoding_total_witness:
  "\<exists>rc p'. sqlite3VdbeChangeEncoding [] \<lparr>m_z = [0xFF, 0xC0, 0x80], m_n = 3, m_enc = SQLITE_UTF8, m_flags = MEM_Str, m_own = True\<rparr> SQLITE_UTF16LE =
     Some (rc, p') \<and> rc = SQLITE_OK"
  using changeEncoding_total [of "\<lparr>m_z = [0xFF, 0xC0, 0x80], m_n = 3, m_enc = SQLITE_UTF8, m_flags = MEM_Str, m_own = True\<rparr>" SQLITE_UTF16LE "[]"]
  by (auto simp: string_value_def SQLITE_MAX_LENGTH_def encodings_def enc_defs MEM_Str_def MEM_RowSet_def MEM_Zero_def alloc_ok_def)

text \<open>\<open>sqlite3Utf8CharLen\<close> counts the characters of a zero-terminated text, and \<open>sqlite3Utf16ByteLen\<close> the bytes of the
  first characters of UTF-16 text.\<close>

theorem utf_lengths:
  assumes "set cs \<subseteq> utf8_chars - {0}"
  shows "sqlite3Utf8CharLen (encode SQLITE_UTF8 cs @ 0 # r) (- 1) = Some (length cs) \<and>
    sqlite3Utf16ByteLen (encode SQLITE_UTF16LE cs @ r) (int (length cs)) = Some (length (encode SQLITE_UTF16LE cs))"
  using charlen_text [OF assms, of r 0] bytelen_text [OF subset_trans [OF assms subset_trans [OF Diff_subset utf8_chars_sub]], of r 0]
  by (auto simp: sqlite3Utf8CharLen_def sqlite3Utf16ByteLen_def encode_def writer_def enc_defs)

theorem utf_lengths_witness: "sqlite3Utf8CharLen (encode SQLITE_UTF8 [0x41, 0x20AC] @ [0]) (- 1) = Some 2"
  using utf_lengths [of "[0x41, 0x20AC]" "[]"] by (simp add: utf8_chars_def scalars_def surrogate_def)

end
