(* ===== verification/Nslice.thy ===== *)
theory Nslice
  imports Prelude
begin

text \<open>
  The slice allocator of util/nlist.c, on top of \<open>malloc\<close> and \<open>free\<close>. The C functions take the
  size of the block; here the store holds objects of one type, so the size is that type. The
  \<open>zero\<close> argument is the object whose bytes are all zero.
\<close>

definition n_slice_alloc :: "'n heap \<Rightarrow> 'n heap \<times> ptr" where
  "n_slice_alloc h = malloc h"

definition n_slice_alloc0 :: "'n \<Rightarrow> 'n heap \<Rightarrow> ('n heap \<times> ptr) option" where
  "n_slice_alloc0 zero h =
     (let (h, mem) = n_slice_alloc h
      in if mem \<noteq> NULL then do { h \<leftarrow> modify h mem (\<lambda>_. zero); Some (h, mem) } else Some (h, mem))"

definition n_slice_copy :: "'n \<Rightarrow> 'n heap \<Rightarrow> ptr \<Rightarrow> ('n heap \<times> ptr) option" where
  "n_slice_copy zero h mem_block = do {
     (h, mem) \<leftarrow> n_slice_alloc0 zero h;
     if mem \<noteq> NULL
     then do { n \<leftarrow> load h mem_block; h \<leftarrow> modify h mem (\<lambda>_. n); Some (h, mem) }
     else Some (h, mem) }"

text \<open>\<open>next\<close> reads the pointer at \<open>next_offset\<close> of an object.\<close>

partial_function (option) n_slice_free_chain_with_offset ::
  "('n \<Rightarrow> ptr) \<Rightarrow> 'n heap \<Rightarrow> ptr \<Rightarrow> 'n heap option" where
  "n_slice_free_chain_with_offset next h mem_chain =
     (if mem_chain = NULL then Some h
      else do {
        current \<leftarrow> load h mem_chain;
        h \<leftarrow> dealloc h mem_chain;
        n_slice_free_chain_with_offset next h (next current) })"

definition n_slice_free1 :: "'n heap \<Rightarrow> ptr \<Rightarrow> 'n heap option" where
  "n_slice_free1 h mem_block = (if mem_block \<noteq> NULL then dealloc h mem_block else Some h)"

definition n_free :: "'n heap \<Rightarrow> ptr \<Rightarrow> 'n heap option" where
  "n_free h mem = (if mem \<noteq> NULL then dealloc h mem else Some h)"

lemma n_slice_alloc0_ok:
  assumes "wf_heap h" and "0 < avail h"
  obtains h' where "n_slice_alloc0 z h = Some (h', brk h)" and "brk h \<noteq> 0"
    and "cells h (brk h) = None" and "cells h' = (cells h)(brk h \<mapsto> z)" and "wf_heap h'"
    and "brk h' = Suc (brk h)" and "avail h' = avail h - 1" and "junk h' = junk h"
proof -
  obtain h1 where h1: "malloc h = (h1, brk h)" "brk h \<noteq> 0" "cells h (brk h) = None"
    "cells h1 = (cells h)(brk h \<mapsto> junk h)" "wf_heap h1" "brk h1 = Suc (brk h)"
    "avail h1 = avail h - 1" "junk h1 = junk h"
    using malloc_ok [OF assms] by blast
  have c: "cells h1 (brk h) = Some (junk h)"
    using h1(4) by simp
  have m: "n_slice_alloc0 z h = Some (store h1 (brk h) z, brk h)"
    using h1 by (simp add: n_slice_alloc0_def n_slice_alloc_def modify_Some [OF _ c])
  have w: "wf_heap (store h1 (brk h) z)"
    by (rule wf_heap_store [OF h1(5) c])
  show thesis
    by (rule that [OF m h1(2,3) _ w]) (simp_all add: h1)
qed

end
