(* ===== verification/Slist.thy ===== *)
theory Slist
  imports Nslice
begin

text \<open>
  The singly linked lists of util/nlist.c (\<open>n_slist_t\<close>). A node is a record in a store; the data
  pointer of a node is an option, \<open>None\<close> for NULL. A function that changes nodes returns the new
  store. Callbacks are HOL functions; \<open>user_data\<close> is their extra argument.
\<close>

section \<open>Nodes\<close>

record 'd snode =
  sdata :: "'d option"
  snext :: ptr

type_synonym 'd sheap = "'d snode heap"
type_synonym ('d, 'u) compare_data_func = "'d option \<Rightarrow> 'd option \<Rightarrow> 'u \<Rightarrow> int"
type_synonym 'd compare_func = "'d option \<Rightarrow> 'd option \<Rightarrow> int"

definition snode_zero :: "'d snode" where
  "snode_zero = \<lparr>sdata = None, snext = NULL\<rparr>"

section \<open>Operations\<close>

definition n_slist_alloc :: "'d sheap \<Rightarrow> ('d sheap \<times> ptr) option" where
  "n_slist_alloc h = n_slice_alloc0 snode_zero h"

definition n_slist_free :: "'d sheap \<Rightarrow> ptr \<Rightarrow> 'd sheap option" where
  "n_slist_free h list = n_slice_free_chain_with_offset snext h list"

definition n_slist_free_1 :: "'d sheap \<Rightarrow> ptr \<Rightarrow> 'd sheap option" where
  "n_slist_free_1 h list = n_slice_free1 h list"

partial_function (option) n_slist_foreach ::
  "('d option \<Rightarrow> 'u \<Rightarrow> 'u) \<Rightarrow> 'd sheap \<Rightarrow> ptr \<Rightarrow> 'u \<Rightarrow> 'u option" where
  "n_slist_foreach func h list user_data =
     (if list = NULL then Some user_data
      else do {
        n \<leftarrow> load h list;
        n_slist_foreach func h (snext n) (func (sdata n) user_data) })"

definition n_slist_free_full ::
  "('d option \<Rightarrow> 'u \<Rightarrow> 'u) \<Rightarrow> 'd sheap \<Rightarrow> ptr \<Rightarrow> 'u \<Rightarrow> ('d sheap \<times> 'u) option" where
  "n_slist_free_full free_func h list w = do {
     w \<leftarrow> n_slist_foreach free_func h list w;
     h \<leftarrow> n_slist_free h list;
     Some (h, w) }"

partial_function (option) n_slist_last_loop :: "'d sheap \<Rightarrow> ptr \<Rightarrow> ptr option" where
  "n_slist_last_loop h list = do {
     n \<leftarrow> load h list;
     if snext n \<noteq> NULL then n_slist_last_loop h (snext n) else Some list }"

definition n_slist_last :: "'d sheap \<Rightarrow> ptr \<Rightarrow> ptr option" where
  "n_slist_last h list = (if list \<noteq> NULL then n_slist_last_loop h list else Some list)"

definition n_slist_append :: "'d sheap \<Rightarrow> ptr \<Rightarrow> 'd option \<Rightarrow> ('d sheap \<times> ptr) option" where
  "n_slist_append h list data =
     (let (h, new_list) = n_slice_alloc h in do {
        h \<leftarrow> modify h new_list (\<lambda>n. n\<lparr>sdata := data\<rparr>);
        h \<leftarrow> modify h new_list (\<lambda>n. n\<lparr>snext := NULL\<rparr>);
        if list \<noteq> NULL then do {
          last \<leftarrow> n_slist_last h list;
          h \<leftarrow> modify h last (\<lambda>n. n\<lparr>snext := new_list\<rparr>);
          Some (h, list) }
        else Some (h, new_list) })"

definition n_slist_prepend :: "'d sheap \<Rightarrow> ptr \<Rightarrow> 'd option \<Rightarrow> ('d sheap \<times> ptr) option" where
  "n_slist_prepend h list data =
     (let (h, new_list) = n_slice_alloc h in do {
        h \<leftarrow> modify h new_list (\<lambda>n. n\<lparr>sdata := data\<rparr>);
        h \<leftarrow> modify h new_list (\<lambda>n. n\<lparr>snext := list\<rparr>);
        Some (h, new_list) })"

text \<open>The loop of \<open>n_slist_insert\<close>: \<open>position\<close> counts down, \<open>prev_list\<close> trails \<open>tmp_list\<close>.\<close>

primrec n_slist_insert_loop :: "nat \<Rightarrow> 'd sheap \<Rightarrow> ptr \<Rightarrow> ptr \<Rightarrow> ptr option" where
  "n_slist_insert_loop 0 h prev_list tmp_list = Some prev_list"
| "n_slist_insert_loop (Suc position) h prev_list tmp_list =
     (if tmp_list = NULL then Some prev_list
      else do { n \<leftarrow> load h tmp_list; n_slist_insert_loop position h tmp_list (snext n) })"

definition n_slist_insert ::
  "'d sheap \<Rightarrow> ptr \<Rightarrow> 'd option \<Rightarrow> i32 \<Rightarrow> ('d sheap \<times> ptr) option" where
  "n_slist_insert h list data position =
     (if sint position < 0 then n_slist_append h list data
      else if position = 0 then n_slist_prepend h list data
      else let (h, new_list) = n_slice_alloc h in do {
        h \<leftarrow> modify h new_list (\<lambda>n. n\<lparr>sdata := data\<rparr>);
        if list = NULL then do {
          h \<leftarrow> modify h new_list (\<lambda>n. n\<lparr>snext := NULL\<rparr>);
          Some (h, new_list) }
        else do {
          prev_list \<leftarrow> n_slist_insert_loop (unat position) h NULL list;
          p \<leftarrow> load h prev_list;
          h \<leftarrow> modify h new_list (\<lambda>n. n\<lparr>snext := snext p\<rparr>);
          h \<leftarrow> modify h prev_list (\<lambda>n. n\<lparr>snext := new_list\<rparr>);
          Some (h, list) } })"

partial_function (option) n_slist_insert_before_loop ::
  "'d sheap \<Rightarrow> ptr \<Rightarrow> ptr \<Rightarrow> ptr \<Rightarrow> ptr option" where
  "n_slist_insert_before_loop h sibling node lst =
     (if node = NULL \<or> node = sibling then Some lst
      else do { n \<leftarrow> load h node; n_slist_insert_before_loop h sibling (snext n) node })"

definition n_slist_insert_before ::
  "'d sheap \<Rightarrow> ptr \<Rightarrow> ptr \<Rightarrow> 'd option \<Rightarrow> ('d sheap \<times> ptr) option" where
  "n_slist_insert_before h slist sibling data =
     (if slist = NULL then
        let (h, slist) = n_slice_alloc h in do {
          h \<leftarrow> modify h slist (\<lambda>n. n\<lparr>sdata := data\<rparr>);
          h \<leftarrow> modify h slist (\<lambda>n. n\<lparr>snext := NULL\<rparr>);
          Some (h, slist) }
      else do {
        last \<leftarrow> n_slist_insert_before_loop h sibling slist NULL;
        (if last = NULL then
           let (h, node) = n_slice_alloc h in do {
             h \<leftarrow> modify h node (\<lambda>n. n\<lparr>sdata := data\<rparr>);
             h \<leftarrow> modify h node (\<lambda>n. n\<lparr>snext := slist\<rparr>);
             Some (h, node) }
         else
           let (h, node) = n_slice_alloc h in do {
             h \<leftarrow> modify h node (\<lambda>n. n\<lparr>sdata := data\<rparr>);
             l \<leftarrow> load h last;
             h \<leftarrow> modify h node (\<lambda>n. n\<lparr>snext := snext l\<rparr>);
             h \<leftarrow> modify h last (\<lambda>n. n\<lparr>snext := node\<rparr>);
             Some (h, slist) }) })"

definition n_slist_concat :: "'d sheap \<Rightarrow> ptr \<Rightarrow> ptr \<Rightarrow> ('d sheap \<times> ptr) option" where
  "n_slist_concat h list1 list2 =
     (if list2 \<noteq> NULL then
        if list1 \<noteq> NULL then do {
          last \<leftarrow> n_slist_last h list1;
          h \<leftarrow> modify h last (\<lambda>n. n\<lparr>snext := list2\<rparr>);
          Some (h, list1) }
        else Some (h, list2)
      else Some (h, list1))"

partial_function (option) n_slist_remove_loop ::
  "'d sheap \<Rightarrow> ptr \<Rightarrow> 'd option \<Rightarrow> ptr \<Rightarrow> ptr \<Rightarrow> ('d sheap \<times> ptr) option" where
  "n_slist_remove_loop h list data tmp prev =
     (if tmp = NULL then Some (h, list)
      else do {
        t \<leftarrow> load h tmp;
        if sdata t = data then
          if prev \<noteq> NULL then do {
            h \<leftarrow> modify h prev (\<lambda>n. n\<lparr>snext := snext t\<rparr>);
            h \<leftarrow> n_slist_free_1 h tmp;
            Some (h, list) }
          else do {
            h \<leftarrow> n_slist_free_1 h tmp;
            Some (h, snext t) }
        else n_slist_remove_loop h list data (snext t) tmp })"

definition n_slist_remove :: "'d sheap \<Rightarrow> ptr \<Rightarrow> 'd option \<Rightarrow> ('d sheap \<times> ptr) option" where
  "n_slist_remove h list data = n_slist_remove_loop h list data list NULL"

partial_function (option) n_slist_remove_all_loop ::
  "'d sheap \<Rightarrow> ptr \<Rightarrow> 'd option \<Rightarrow> ptr \<Rightarrow> ptr \<Rightarrow> ('d sheap \<times> ptr) option" where
  "n_slist_remove_all_loop h list data tmp prev =
     (if tmp = NULL then Some (h, list)
      else do {
        t \<leftarrow> load h tmp;
        if sdata t = data then
          if prev \<noteq> NULL then do {
            h \<leftarrow> modify h prev (\<lambda>n. n\<lparr>snext := snext t\<rparr>);
            h \<leftarrow> n_slist_free_1 h tmp;
            n_slist_remove_all_loop h list data (snext t) prev }
          else do {
            h \<leftarrow> n_slist_free_1 h tmp;
            n_slist_remove_all_loop h (snext t) data (snext t) prev }
        else n_slist_remove_all_loop h list data (snext t) tmp })"

definition n_slist_remove_all :: "'d sheap \<Rightarrow> ptr \<Rightarrow> 'd option \<Rightarrow> ('d sheap \<times> ptr) option" where
  "n_slist_remove_all h list data = n_slist_remove_all_loop h list data list NULL"

partial_function (option) n_slist_remove_link_loop ::
  "'d sheap \<Rightarrow> ptr \<Rightarrow> ptr \<Rightarrow> ptr \<Rightarrow> ptr \<Rightarrow> ('d sheap \<times> ptr) option" where
  "n_slist_remove_link_loop h list link tmp prev =
     (if tmp = NULL then Some (h, list)
      else do {
        t \<leftarrow> load h tmp;
        if tmp = link then do {
          h \<leftarrow> (if prev \<noteq> NULL then modify h prev (\<lambda>n. n\<lparr>snext := snext t\<rparr>) else Some h);
          list' \<leftarrow> (if list = tmp then map_option snext (load h list) else Some list);
          h \<leftarrow> modify h tmp (\<lambda>n. n\<lparr>snext := NULL\<rparr>);
          Some (h, list') }
        else n_slist_remove_link_loop h list link (snext t) tmp })"

text \<open>The static \<open>_n_slist_remove_link\<close> and its exported wrapper.\<close>

definition n_slist_remove_link_static :: "'d sheap \<Rightarrow> ptr \<Rightarrow> ptr \<Rightarrow> ('d sheap \<times> ptr) option" where
  "n_slist_remove_link_static h list link = n_slist_remove_link_loop h list link list NULL"

definition n_slist_remove_link :: "'d sheap \<Rightarrow> ptr \<Rightarrow> ptr \<Rightarrow> ('d sheap \<times> ptr) option" where
  "n_slist_remove_link h list link = n_slist_remove_link_static h list link"

definition n_slist_delete_link :: "'d sheap \<Rightarrow> ptr \<Rightarrow> ptr \<Rightarrow> ('d sheap \<times> ptr) option" where
  "n_slist_delete_link h list link = do {
     (h, list) \<leftarrow> n_slist_remove_link_static h list link;
     h \<leftarrow> n_slice_free1 h link;
     Some (h, list) }"

text \<open>\<open>func\<close> is the optional copy function: \<open>None\<close> is a NULL function pointer.\<close>

definition copy_data :: "('d option \<Rightarrow> 'u \<Rightarrow> 'd option) option \<Rightarrow> 'u \<Rightarrow> 'd option \<Rightarrow> 'd option" where
  "copy_data func user_data d = (case func of Some f \<Rightarrow> f d user_data | None \<Rightarrow> d)"

partial_function (option) n_slist_copy_deep_loop ::
  "('d option \<Rightarrow> 'u \<Rightarrow> 'd option) option \<Rightarrow> 'u \<Rightarrow> 'd sheap \<Rightarrow> ptr \<Rightarrow> ptr \<Rightarrow> ('d sheap \<times> ptr) option" where
  "n_slist_copy_deep_loop func user_data h list lst =
     (if list = NULL then Some (h, lst)
      else let (h, new) = n_slice_alloc h in do {
        h \<leftarrow> modify h lst (\<lambda>n. n\<lparr>snext := new\<rparr>);
        src \<leftarrow> load h list;
        h \<leftarrow> modify h new (\<lambda>n. n\<lparr>sdata := copy_data func user_data (sdata src)\<rparr>);
        n_slist_copy_deep_loop func user_data h (snext src) new })"

definition n_slist_copy_deep ::
  "('d option \<Rightarrow> 'u \<Rightarrow> 'd option) option \<Rightarrow> 'u \<Rightarrow> 'd sheap \<Rightarrow> ptr \<Rightarrow> ('d sheap \<times> ptr) option" where
  "n_slist_copy_deep func user_data h list =
     (if list = NULL then Some (h, NULL)
      else let (h, new_list) = n_slice_alloc h in do {
        src \<leftarrow> load h list;
        h \<leftarrow> modify h new_list (\<lambda>n. n\<lparr>sdata := copy_data func user_data (sdata src)\<rparr>);
        (h, last) \<leftarrow> n_slist_copy_deep_loop func user_data h (snext src) new_list;
        h \<leftarrow> modify h last (\<lambda>n. n\<lparr>snext := NULL\<rparr>);
        Some (h, new_list) })"

definition n_slist_copy :: "'d sheap \<Rightarrow> ptr \<Rightarrow> ('d sheap \<times> ptr) option" where
  "n_slist_copy h list = n_slist_copy_deep None () h list"

partial_function (option) n_slist_reverse_loop ::
  "'d sheap \<Rightarrow> ptr \<Rightarrow> ptr \<Rightarrow> ('d sheap \<times> ptr) option" where
  "n_slist_reverse_loop h prev list =
     (if list = NULL then Some (h, prev)
      else do {
        n \<leftarrow> load h list;
        h \<leftarrow> modify h list (\<lambda>n. n\<lparr>snext := prev\<rparr>);
        n_slist_reverse_loop h list (snext n) })"

definition n_slist_reverse :: "'d sheap \<Rightarrow> ptr \<Rightarrow> ('d sheap \<times> ptr) option" where
  "n_slist_reverse h list = n_slist_reverse_loop h NULL list"

primrec n_slist_nth_loop :: "nat \<Rightarrow> 'd sheap \<Rightarrow> ptr \<Rightarrow> ptr option" where
  "n_slist_nth_loop 0 h list = Some list"
| "n_slist_nth_loop (Suc n) h list =
     (if list = NULL then Some list else do { x \<leftarrow> load h list; n_slist_nth_loop n h (snext x) })"

definition n_slist_nth :: "'d sheap \<Rightarrow> ptr \<Rightarrow> u32 \<Rightarrow> ptr option" where
  "n_slist_nth h list n = n_slist_nth_loop (unat n) h list"

definition n_slist_nth_data :: "'d sheap \<Rightarrow> ptr \<Rightarrow> u32 \<Rightarrow> 'd option option" where
  "n_slist_nth_data h list n = do {
     list \<leftarrow> n_slist_nth_loop (unat n) h list;
     if list \<noteq> NULL then map_option sdata (load h list) else Some None }"

partial_function (option) n_slist_find :: "'d sheap \<Rightarrow> ptr \<Rightarrow> 'd option \<Rightarrow> ptr option" where
  "n_slist_find h list data =
     (if list = NULL then Some list
      else do {
        n \<leftarrow> load h list;
        if sdata n = data then Some list else n_slist_find h (snext n) data })"

partial_function (option) n_slist_find_custom ::
  "'d compare_func \<Rightarrow> 'd sheap \<Rightarrow> ptr \<Rightarrow> 'd option \<Rightarrow> ptr option" where
  "n_slist_find_custom func h list data =
     (if list = NULL then Some NULL
      else do {
        n \<leftarrow> load h list;
        if func (sdata n) data = 0 then Some list
        else n_slist_find_custom func h (snext n) data })"

partial_function (option) n_slist_position_loop :: "'d sheap \<Rightarrow> ptr \<Rightarrow> ptr \<Rightarrow> i32 \<Rightarrow> i32 option" where
  "n_slist_position_loop h list llink i =
     (if list = NULL then Some (- 1)
      else if list = llink then Some i
      else do { n \<leftarrow> load h list; n_slist_position_loop h (snext n) llink (i + 1) })"

definition n_slist_position :: "'d sheap \<Rightarrow> ptr \<Rightarrow> ptr \<Rightarrow> i32 option" where
  "n_slist_position h list llink = n_slist_position_loop h list llink 0"

partial_function (option) n_slist_index_loop ::
  "'d sheap \<Rightarrow> ptr \<Rightarrow> 'd option \<Rightarrow> i32 \<Rightarrow> i32 option" where
  "n_slist_index_loop h list data i =
     (if list = NULL then Some (- 1)
      else do {
        n \<leftarrow> load h list;
        if sdata n = data then Some i else n_slist_index_loop h (snext n) data (i + 1) })"

definition n_slist_index :: "'d sheap \<Rightarrow> ptr \<Rightarrow> 'd option \<Rightarrow> i32 option" where
  "n_slist_index h list data = n_slist_index_loop h list data 0"

partial_function (option) n_slist_length_loop :: "'d sheap \<Rightarrow> ptr \<Rightarrow> u32 \<Rightarrow> u32 option" where
  "n_slist_length_loop h list len =
     (if list = NULL then Some len
      else do { n \<leftarrow> load h list; n_slist_length_loop h (snext n) (len + 1) })"

definition n_slist_length :: "'d sheap \<Rightarrow> ptr \<Rightarrow> u32 option" where
  "n_slist_length h list = n_slist_length_loop h list 0"

section \<open>Sorted insertion and sorting\<close>

partial_function (option) n_slist_insert_sorted_loop ::
  "('d, 'u) compare_data_func \<Rightarrow> 'u \<Rightarrow> 'd option \<Rightarrow> 'd sheap \<Rightarrow> ptr \<Rightarrow> ptr \<Rightarrow> int
     \<Rightarrow> (ptr \<times> ptr \<times> int) option" where
  "n_slist_insert_sorted_loop func user_data data h prev_list tmp_list cmp = do {
     t \<leftarrow> load h tmp_list;
     if snext t \<noteq> NULL \<and> cmp > 0 then do {
       m \<leftarrow> load h (snext t);
       n_slist_insert_sorted_loop func user_data data h tmp_list (snext t)
         (func data (sdata m) user_data) }
     else Some (prev_list, tmp_list, cmp) }"

definition n_slist_insert_sorted_real ::
  "('d, 'u) compare_data_func \<Rightarrow> 'u \<Rightarrow> 'd sheap \<Rightarrow> ptr \<Rightarrow> 'd option \<Rightarrow> ('d sheap \<times> ptr) option" where
  "n_slist_insert_sorted_real func user_data h list data =
     (if list = NULL then
        let (h, new_list) = n_slice_alloc h in do {
          h \<leftarrow> modify h new_list (\<lambda>n. n\<lparr>sdata := data\<rparr>);
          h \<leftarrow> modify h new_list (\<lambda>n. n\<lparr>snext := NULL\<rparr>);
          Some (h, new_list) }
      else do {
        t \<leftarrow> load h list;
        (prev_list, tmp_list, cmp) \<leftarrow> n_slist_insert_sorted_loop func user_data data h NULL list
          (func data (sdata t) user_data);
        (let (h, new_list) = n_slice_alloc h in do {
           h \<leftarrow> modify h new_list (\<lambda>n. n\<lparr>sdata := data\<rparr>);
           t \<leftarrow> load h tmp_list;
           if snext t = NULL \<and> cmp > 0 then do {
             h \<leftarrow> modify h tmp_list (\<lambda>n. n\<lparr>snext := new_list\<rparr>);
             h \<leftarrow> modify h new_list (\<lambda>n. n\<lparr>snext := NULL\<rparr>);
             Some (h, list) }
           else if prev_list \<noteq> NULL then do {
             h \<leftarrow> modify h prev_list (\<lambda>n. n\<lparr>snext := new_list\<rparr>);
             h \<leftarrow> modify h new_list (\<lambda>n. n\<lparr>snext := tmp_list\<rparr>);
             Some (h, list) }
           else do {
             h \<leftarrow> modify h new_list (\<lambda>n. n\<lparr>snext := list\<rparr>);
             Some (h, new_list) } }) })"

text \<open>\<open>n_slist_insert_sorted\<close> casts its two-argument function and passes NULL as the third.\<close>

definition n_slist_insert_sorted ::
  "'d compare_func \<Rightarrow> 'd sheap \<Rightarrow> ptr \<Rightarrow> 'd option \<Rightarrow> ('d sheap \<times> ptr) option" where
  "n_slist_insert_sorted func h list data =
     n_slist_insert_sorted_real (\<lambda>a b _. func a b) () h list data"

definition n_slist_insert_sorted_with_data ::
  "('d, 'u) compare_data_func \<Rightarrow> 'u \<Rightarrow> 'd sheap \<Rightarrow> ptr \<Rightarrow> 'd option \<Rightarrow> ('d sheap \<times> ptr) option" where
  "n_slist_insert_sorted_with_data func user_data h list data =
     n_slist_insert_sorted_real func user_data h list data"

text \<open>
  \<open>n_slist_sort_merge\<close> starts from a node in its own stack frame, \<open>l = &list\<close>. Here \<open>l = NULL\<close>
  stands for \<open>&list\<close> and \<open>head\<close> for the field \<open>list.next\<close>; every other \<open>l\<close> is a node of the store.
\<close>

definition slink :: "'d sheap \<Rightarrow> ptr \<Rightarrow> ptr \<Rightarrow> ptr \<Rightarrow> ('d sheap \<times> ptr) option" where
  "slink h head l x =
     (if l = NULL then Some (h, x)
      else do { h \<leftarrow> modify h l (\<lambda>n. n\<lparr>snext := x\<rparr>); Some (h, head) })"

partial_function (option) n_slist_sort_merge_loop ::
  "('d, 'u) compare_data_func \<Rightarrow> 'u \<Rightarrow> 'd sheap \<Rightarrow> ptr \<Rightarrow> ptr \<Rightarrow> ptr \<Rightarrow> ptr
     \<Rightarrow> ('d sheap \<times> ptr) option" where
  "n_slist_sort_merge_loop func user_data h head l l1 l2 =
     (if l1 \<noteq> NULL \<and> l2 \<noteq> NULL then do {
        a \<leftarrow> load h l1;
        b \<leftarrow> load h l2;
        if func (sdata a) (sdata b) user_data \<le> 0 then do {
          (h, head) \<leftarrow> slink h head l l1;
          a \<leftarrow> load h l1;
          n_slist_sort_merge_loop func user_data h head l1 (snext a) l2 }
        else do {
          (h, head) \<leftarrow> slink h head l l2;
          b \<leftarrow> load h l2;
          n_slist_sort_merge_loop func user_data h head l2 l1 (snext b) } }
      else slink h head l (if l1 \<noteq> NULL then l1 else l2))"

definition n_slist_sort_merge ::
  "('d, 'u) compare_data_func \<Rightarrow> 'u \<Rightarrow> 'd sheap \<Rightarrow> ptr \<Rightarrow> ptr \<Rightarrow> ('d sheap \<times> ptr) option" where
  "n_slist_sort_merge func user_data h l1 l2 =
     n_slist_sort_merge_loop func user_data h NULL NULL l1 l2"

text \<open>The loop that lets \<open>l2\<close> run twice as fast as \<open>l1\<close>; it returns \<open>l1\<close>.\<close>

partial_function (option) n_slist_split_loop :: "'d sheap \<Rightarrow> ptr \<Rightarrow> ptr \<Rightarrow> ptr option" where
  "n_slist_split_loop h l1 l2 = do {
     n \<leftarrow> load h l2;
     if snext n = NULL then Some l1
     else do {
       m \<leftarrow> load h (snext n);
       if snext m = NULL then Some l1
       else do {
         k \<leftarrow> load h l1;
         n_slist_split_loop h (snext k) (snext m) } } }"

partial_function (option) n_slist_sort_real ::
  "('d, 'u) compare_data_func \<Rightarrow> 'u \<Rightarrow> 'd sheap \<Rightarrow> ptr \<Rightarrow> ('d sheap \<times> ptr) option" where
  "n_slist_sort_real func user_data h list =
     (if list = NULL then Some (h, NULL)
      else do {
        n \<leftarrow> load h list;
        if snext n = NULL then Some (h, list)
        else do {
          l1 \<leftarrow> n_slist_split_loop h list (snext n);
          k \<leftarrow> load h l1;
          h \<leftarrow> modify h l1 (\<lambda>n. n\<lparr>snext := NULL\<rparr>);
          (h, a) \<leftarrow> n_slist_sort_real func user_data h list;
          (h, b) \<leftarrow> n_slist_sort_real func user_data h (snext k);
          n_slist_sort_merge func user_data h a b } })"

definition n_slist_sort :: "'d compare_func \<Rightarrow> 'd sheap \<Rightarrow> ptr \<Rightarrow> ('d sheap \<times> ptr) option" where
  "n_slist_sort func h list = n_slist_sort_real (\<lambda>a b _. func a b) () h list"

definition n_slist_sort_with_data ::
  "('d, 'u) compare_data_func \<Rightarrow> 'u \<Rightarrow> 'd sheap \<Rightarrow> ptr \<Rightarrow> ('d sheap \<times> ptr) option" where
  "n_slist_sort_with_data func user_data h list = n_slist_sort_real func user_data h list"

end
