(* ===== verification/Compare.thy ===== *)
theory Compare
  imports Prelude "HOL-Library.Multiset"
begin

text \<open>
  The contract of a comparison callback (\<open>n_compare_func\<close> of util/nlist.c: negative when the first
  argument comes before the second, 0 when they are equal, positive when it comes after) as a
  locale, and the list functions that the heap sorts refine: sorted insertion, the merge of two
  sorted lists and merge sort. Inside the locale they are shown to sort, stably.
\<close>

section \<open>Reference functions\<close>

fun cmerge :: "('a \<Rightarrow> 'a \<Rightarrow> int) \<Rightarrow> 'a list \<Rightarrow> 'a list \<Rightarrow> 'a list" where
  "cmerge c [] ys = ys"
| "cmerge c (x # xs) [] = x # xs"
| "cmerge c (x # xs) (y # ys) =
     (if c x y \<le> 0 then x # cmerge c xs (y # ys) else y # cmerge c (x # xs) ys)"

lemma cmerge_Nil2 [simp]: "cmerge c xs [] = xs"
  by (cases xs) simp_all

function cmsort :: "('a \<Rightarrow> 'a \<Rightarrow> int) \<Rightarrow> 'a list \<Rightarrow> 'a list" where
  "cmsort c xs =
     (if length xs \<le> 1 then xs
      else cmerge c (cmsort c (take (length xs div 2) xs)) (cmsort c (drop (length xs div 2) xs)))"
  by pat_completeness auto
termination
  by (relation "measure (\<lambda>(c, xs). length xs)") auto

declare cmsort.simps [simp del]

definition cinsert :: "('a \<Rightarrow> 'a \<Rightarrow> int) \<Rightarrow> 'a \<Rightarrow> 'a list \<Rightarrow> 'a list" where
  "cinsert c x ys = takeWhile (\<lambda>y. c x y > 0) ys @ x # dropWhile (\<lambda>y. c x y > 0) ys"

text \<open>Induction along the two recursions for one fixed comparison function.\<close>

lemma cmerge_induct [case_names Nil1 Nil2 Cons]:
  fixes c :: "'a \<Rightarrow> 'a \<Rightarrow> int"
  assumes "\<And>ys. P [] ys" and "\<And>x xs. P (x # xs) []"
    and "\<And>x xs y ys. (c x y \<le> 0 \<Longrightarrow> P xs (y # ys)) \<Longrightarrow> (\<not> c x y \<le> 0 \<Longrightarrow> P (x # xs) ys)
      \<Longrightarrow> P (x # xs) (y # ys)"
  shows "P xs ys"
  using assms by (induction c xs ys rule: cmerge.induct) blast+

lemma cmsort_induct [case_names half]:
  assumes "\<And>xs. (\<not> length xs \<le> 1 \<Longrightarrow> P (take (length xs div 2) xs))
      \<Longrightarrow> (\<not> length xs \<le> 1 \<Longrightarrow> P (drop (length xs div 2) xs)) \<Longrightarrow> P xs"
  shows "P xs"
proof (induction xs rule: length_induct)
  case (1 xs)
  have "P (take (length xs div 2) xs)" if "\<not> length xs \<le> 1"
    using 1 that by (simp add: min_def)
  moreover have "P (drop (length xs div 2) xs)" if "\<not> length xs \<le> 1"
    using 1 that by (simp add: div_greater_zero_iff)
  ultimately show ?case by (rule assms)
qed

lemma mset_cmerge [simp]: "mset (cmerge c xs ys) = mset xs + mset ys"
  by (induction c xs ys rule: cmerge.induct) auto

lemma set_cmerge [simp]: "set (cmerge c xs ys) = set xs \<union> set ys"
  by (induction c xs ys rule: cmerge.induct) auto

lemma mset_cmsort [simp]: "mset (cmsort c xs) = mset xs"
proof (induction c xs rule: cmsort.induct)
  case (1 c xs)
  show ?case
  proof (cases "length xs \<le> 1")
    case True
    then show ?thesis by (simp add: cmsort.simps [of c xs])
  next
    case False
    then have "mset (cmsort c xs)
        = mset (take (length xs div 2) xs @ drop (length xs div 2) xs)"
      using 1 unfolding mset_append by (simp add: cmsort.simps [of c xs])
    then show ?thesis by simp
  qed
qed

lemma set_cmsort [simp]: "set (cmsort c xs) = set xs"
  using mset_eq_setD [OF mset_cmsort] .

lemma length_cmsort [simp]: "length (cmsort c xs) = length xs"
  by (metis mset_cmsort size_mset)

lemma mset_cinsert [simp]: "mset (cinsert c x ys) = add_mset x (mset ys)"
proof -
  have "mset (takeWhile (\<lambda>y. c x y > 0) ys) + mset (dropWhile (\<lambda>y. c x y > 0) ys) = mset ys"
    by (metis mset_append takeWhile_dropWhile_id)
  then show ?thesis by (simp add: cinsert_def)
qed

lemma set_cinsert [simp]: "set (cinsert c x ys) = insert x (set ys)"
  using mset_eq_setD [of "cinsert c x ys" "x # ys"] by simp

lemma cmerge_map: "cmerge c (map f xs) (map f ys) = map f (cmerge (\<lambda>x y. c (f x) (f y)) xs ys)"
  by (induction xs ys rule: cmerge_induct [of _ "\<lambda>x y. c (f x) (f y)"]) auto

lemma cmsort_map: "cmsort c (map f xs) = map f (cmsort (\<lambda>x y. c (f x) (f y)) xs)"
proof (induction xs rule: cmsort_induct)
  case (half xs)
  then show ?case
    by (simp add: cmsort.simps [of c "map f xs"] cmsort.simps [of _ xs] take_map drop_map cmerge_map)
qed

lemma cinsert_map: "cinsert c (f x) (map f ys) = map f (cinsert (\<lambda>x y. c (f x) (f y)) x ys)"
  by (simp add: cinsert_def takeWhile_map dropWhile_map o_def)

section \<open>The contract of a comparison callback\<close>

locale comparator =
  fixes cmp :: "'a \<Rightarrow> 'a \<Rightarrow> int"
  assumes cmp_flip: "cmp a b > 0 \<longleftrightarrow> cmp b a < 0"
    and cmp_trans: "cmp a b \<le> 0 \<Longrightarrow> cmp b c \<le> 0 \<Longrightarrow> cmp a c \<le> 0"
begin

lemma cmp_refl: "cmp a a = 0"
  using cmp_flip [of a a] by linarith

lemma cmp_total: "cmp a b \<le> 0 \<or> cmp b a \<le> 0"
  using cmp_flip [of a b] by linarith

lemma cmp_eq_sym: "cmp a b = 0 \<Longrightarrow> cmp b a = 0"
  using cmp_flip [of a b] cmp_flip [of b a] by linarith

abbreviation csorted :: "'a list \<Rightarrow> bool" where
  "csorted \<equiv> sorted_wrt (\<lambda>a b. cmp a b \<le> 0)"

lemma csorted_merge: "csorted xs \<Longrightarrow> csorted ys \<Longrightarrow> csorted (cmerge cmp xs ys)"
proof (induction xs ys rule: cmerge_induct [of _ cmp])
  case (Cons x xs y ys)
  show ?case
  proof (cases "cmp x y \<le> 0")
    case True
    then show ?thesis using Cons by (auto dest: cmp_trans [OF True])
  next
    case False
    then have yx: "cmp y x \<le> 0" using cmp_total by blast
    then show ?thesis using Cons False by (auto dest: cmp_trans [OF yx])
  qed
qed simp_all

lemma csorted_msort: "csorted (cmsort cmp xs)"
proof (induction xs rule: cmsort_induct)
  case (half xs)
  show ?case
  proof (cases "length xs \<le> 1")
    case True
    then have "xs = [] \<or> (\<exists>x. xs = [x])"
      by (cases xs) auto
    then show ?thesis by (auto simp: cmsort.simps [of cmp xs])
  next
    case False
    then show ?thesis using half
      by (simp add: cmsort.simps [of cmp xs] csorted_merge)
  qed
qed

text \<open>Stability: the elements equal to a given one keep their order.\<close>

lemma filter_merge:
  assumes "csorted xs"
  shows "filter (\<lambda>x. cmp k x = 0) (cmerge cmp xs ys)
    = filter (\<lambda>x. cmp k x = 0) xs @ filter (\<lambda>x. cmp k x = 0) ys"
  using assms
proof (induction xs ys rule: cmerge_induct [of _ cmp])
  case (Cons x xs y ys)
  show ?case
  proof (cases "cmp x y \<le> 0")
    case True
    then show ?thesis using Cons by simp
  next
    case False
    have "cmp k z \<noteq> 0" if "cmp k y = 0" and "z \<in> set (x # xs)" for z
    proof
      assume "cmp k z = 0"
      moreover have "cmp x z \<le> 0"
        using that(2) Cons(3) by (auto simp: cmp_refl)
      ultimately have "cmp x y \<le> 0"
        using that(1) cmp_trans [of x z k] cmp_trans [of x k y] cmp_eq_sym by force
      then show False using False by simp
    qed
    then have "filter (\<lambda>z. cmp k z = 0) (x # xs) = []" if "cmp k y = 0"
      using that by (auto simp: filter_empty_conv)
    then show ?thesis using Cons False by auto
  qed
qed simp_all

lemma filter_msort:
  "filter (\<lambda>x. cmp k x = 0) (cmsort cmp xs) = filter (\<lambda>x. cmp k x = 0) xs"
proof (induction xs rule: cmsort_induct)
  case (half xs)
  show ?case
  proof (cases "length xs \<le> 1")
    case True
    then show ?thesis by (simp add: cmsort.simps [of cmp xs])
  next
    case False
    then have "filter (\<lambda>x. cmp k x = 0) (cmsort cmp xs)
      = filter (\<lambda>x. cmp k x = 0) (take (length xs div 2) xs @ drop (length xs div 2) xs)"
      using half unfolding filter_append
      by (simp add: cmsort.simps [of cmp xs] filter_merge csorted_msort)
    then show ?thesis by simp
  qed
qed

lemma csorted_insert:
  assumes "csorted ys"
  shows "csorted (cinsert cmp x ys)"
proof -
  let ?P = "\<lambda>y. cmp x y > 0"
  have "csorted (takeWhile ?P ys @ dropWhile ?P ys)"
    using assms by simp
  then have d: "csorted (dropWhile ?P ys)" and t: "csorted (takeWhile ?P ys)"
    and td: "\<forall>a \<in> set (takeWhile ?P ys). \<forall>b \<in> set (dropWhile ?P ys). cmp a b \<le> 0"
    unfolding sorted_wrt_append by blast+
  have tx: "\<forall>a \<in> set (takeWhile ?P ys). cmp a x \<le> 0"
    using cmp_flip by (auto dest!: set_takeWhileD intro: less_imp_le)
  have dx: "\<forall>b \<in> set (dropWhile ?P ys). cmp x b \<le> 0"
  proof (cases "dropWhile ?P ys")
    case (Cons z zs)
    then have xz: "cmp x z \<le> 0"
      using hd_dropWhile [of ?P ys] by simp
    then show ?thesis using d Cons by (auto dest: cmp_trans [OF xz])
  next
    case Nil
    then show ?thesis by (metis empty_iff list.set(1))
  qed
  show ?thesis using d t td tx dx
    by (auto simp: cinsert_def sorted_wrt_append)
qed

end

text \<open>A comparator on keys gives one on the objects that carry them.\<close>

lemma comparator_key: "comparator cmp \<Longrightarrow> comparator (\<lambda>x y. cmp (f x) (f y))"
  by (simp add: comparator_def)

end
