(* ===== verification/Slist_Spec.thy ===== *)
theory Slist_Spec
  imports Slist Compare
begin

text \<open>
  What a store holds, seen as a list: \<open>slist h p xs\<close> says that the nodes reached from \<open>p\<close> are
  exactly \<open>xs\<close>, a list of (address, data) pairs. The operations of Slist.thy are shown to act on
  \<open>xs\<close> as the list functions their comments promise, to end, and to leave every other node alone.
\<close>

section \<open>Segments\<close>

fun sseg :: "(ptr \<Rightarrow> 'd snode option) \<Rightarrow> ptr \<Rightarrow> (ptr \<times> 'd option) list \<Rightarrow> ptr \<Rightarrow> bool" where
  "sseg c p [] q \<longleftrightarrow> p = q"
| "sseg c p (x # xs) q \<longleftrightarrow> p = fst x \<and> p \<noteq> NULL \<and>
     (case c p of None \<Rightarrow> False | Some n \<Rightarrow> sdata n = snd x \<and> sseg c (snext n) xs q)"

definition slist :: "'d sheap \<Rightarrow> ptr \<Rightarrow> (ptr \<times> 'd option) list \<Rightarrow> bool" where
  "slist h p xs \<longleftrightarrow> sseg (cells h) p xs NULL"

abbreviation addrs :: "(ptr \<times> 'd option) list \<Rightarrow> ptr set" where
  "addrs xs \<equiv> fst ` set xs"

lemma sseg_Cons_iff:
  "sseg c p (x # xs) q \<longleftrightarrow> (p = fst x \<and> p \<noteq> NULL \<and>
     (\<exists>n. c p = Some n \<and> sdata n = snd x \<and> sseg c (snext n) xs q))"
  by (auto split: option.splits)

declare sseg.simps(2) [simp del]

lemma sseg_append: "sseg c p (xs @ ys) q \<longleftrightarrow> (\<exists>r. sseg c p xs r \<and> sseg c r ys q)"
  by (induction xs arbitrary: p) (auto simp: sseg_Cons_iff)

lemma sseg_cong: "(\<And>a. a \<in> addrs xs \<Longrightarrow> c' a = c a) \<Longrightarrow> sseg c' p xs q = sseg c p xs q"
proof (induction xs arbitrary: p)
  case (Cons x xs)
  then have "sseg c' r xs q = sseg c r xs q" for r by simp
  then show ?case using Cons.prems by (auto simp: sseg_Cons_iff)
qed simp

lemma sseg_upd [simp]: "a \<notin> addrs xs \<Longrightarrow> sseg (c(a := v)) p xs q = sseg c p xs q"
  by (rule sseg_cong) auto

lemma sseg_nonzero: "sseg c p xs q \<Longrightarrow> 0 \<notin> addrs xs"
  by (induction xs arbitrary: p) (auto simp: sseg_Cons_iff)

lemma sseg_dom: "sseg c p xs q \<Longrightarrow> addrs xs \<subseteq> dom c"
  by (induction xs arbitrary: p) (auto simp: sseg_Cons_iff)

lemma sseg_NULL [simp]: "sseg c 0 xs q \<longleftrightarrow> xs = [] \<and> q = 0"
  by (cases xs) (auto simp: sseg_Cons_iff)

lemma sseg_unique: "sseg c p xs 0 \<Longrightarrow> sseg c p ys 0 \<Longrightarrow> xs = ys"
proof (induction xs arbitrary: p ys)
  case (Cons x xs)
  then obtain y zs where ys: "ys = y # zs"
    by (cases ys) (auto simp: sseg_Cons_iff)
  show ?case using Cons.prems Cons.IH
    by (auto simp: ys sseg_Cons_iff prod_eq_iff)
qed auto

lemma sseg_distinct: "sseg c p xs 0 \<Longrightarrow> distinct (map fst xs)"
proof (induction xs arbitrary: p)
  case (Cons x xs)
  obtain n where n: "p = fst x" "c p = Some n" "sseg c (snext n) xs 0"
    using Cons.prems by (auto simp: sseg_Cons_iff)
  have "fst x \<notin> addrs xs"
  proof
    assume "fst x \<in> addrs xs"
    then obtain ys y zs where xs: "xs = ys @ y # zs" and y: "fst y = fst x"
      by (auto simp: in_set_conv_decomp dest!: split_list)
    have "sseg c p (y # zs) 0"
      using n y by (auto simp: xs sseg_append sseg_Cons_iff)
    then have "y # zs = x # xs"
      using Cons.prems sseg_unique by blast
    then have "length (y # zs) = length (x # ys @ y # zs)"
      using xs by simp
    then show False by simp
  qed
  then show ?case using Cons.IH [OF n(3)] by simp
qed simp

lemma slist_Nil [simp]: "slist h p [] \<longleftrightarrow> p = 0"
  by (simp add: slist_def)

lemma slist_NULL [simp]: "slist h 0 xs \<longleftrightarrow> xs = []"
  by (auto simp: slist_def)

lemma slist_Cons:
  "slist h p (x # xs) \<longleftrightarrow> (p = fst x \<and> p \<noteq> NULL \<and>
     (\<exists>n. cells h p = Some n \<and> sdata n = snd x \<and> slist h (snext n) xs))"
  by (auto simp: slist_def sseg_Cons_iff)

lemma slist_distinct: "slist h p xs \<Longrightarrow> distinct (map fst xs)"
  by (auto simp: slist_def dest: sseg_distinct)

lemma slist_unique: "slist h p xs \<Longrightarrow> slist h p ys \<Longrightarrow> xs = ys"
  by (auto simp: slist_def dest: sseg_unique)

lemma slist_hstep: "slist h p xs \<Longrightarrow> hstep A n h h' \<Longrightarrow> A \<inter> addrs xs = {} \<Longrightarrow> slist h' p xs"
  unfolding slist_def by (subst sseg_cong [where c = "cells h"]) (auto simp: hstep_def)

lemma slist_fresh: "wf_heap h \<Longrightarrow> slist h p xs \<Longrightarrow> brk h \<notin> addrs xs"
  using sseg_dom [of "cells h" p xs 0] wf_heap_fresh [of h] by (auto simp: slist_def dom_def)

lemma slist_cases:
  assumes "slist h p xs"
  obtains (Nil) "p = 0" "xs = []"
    | (Cons) d ys n where "p \<noteq> 0" "xs = (p, d) # ys" "cells h p = Some n" "load h p = Some n"
        "sdata n = d" "slist h (snext n) ys"
proof (cases xs)
  case Nil
  then show thesis using assms by (intro that(1)) simp_all
next
  case (Cons x ys)
  then obtain n where n: "p = fst x" "p \<noteq> 0" "cells h p = Some n" "sdata n = snd x" "slist h (snext n) ys"
    using assms by (auto simp: slist_Cons)
  show thesis
    by (rule that(2) [of "snd x" ys n]) (use n Cons in \<open>simp_all add: load_def prod_eq_iff\<close>)
qed

text \<open>Redirecting the last node of a segment, and unlinking one in the middle.\<close>

lemma sseg_relink:
  assumes "sseg c p (xs @ [x]) q" and "distinct (map fst (xs @ [x]))" and "c (fst x) = Some n"
  shows "sseg (c(fst x \<mapsto> n\<lparr>snext := r\<rparr>)) p (xs @ [x]) r"
  using assms by (auto simp: sseg_append sseg_Cons_iff)

lemma sseg_split_last:
  assumes "sseg c p xs q" and "xs \<noteq> []"
  shows "\<exists>n. c (fst (last xs)) = Some n \<and> snext n = q \<and> fst (last xs) \<noteq> 0"
  using assms by (induction xs arbitrary: p) (auto simp: sseg_Cons_iff)

lemma slist_ConsE:
  assumes "slist h p (x # xs)"
  obtains n where "x = (p, sdata n)" "p \<noteq> 0" "cells h p = Some n" "load h p = Some n"
    "slist h (snext n) xs"
proof -
  obtain n where n: "p = fst x" "p \<noteq> 0" "cells h p = Some n" "sdata n = snd x" "slist h (snext n) xs"
    using assms by (auto simp: slist_Cons)
  show thesis
    by (rule that [of n]) (use n in \<open>simp_all add: load_def prod_eq_iff\<close>)
qed

section \<open>Queries\<close>

lemma n_slist_last_loop_spec:
  "slist h p (x # xs) \<Longrightarrow> n_slist_last_loop h p = Some (fst (last (x # xs)))"
proof (induction xs arbitrary: p x)
  case Nil
  then obtain n where "x = (p, sdata n)" "load h p = Some n" "snext n = 0"
    by (rule slist_ConsE) simp
  then show ?case by (simp add: n_slist_last_loop.simps [of h p])
next
  case (Cons y ys)
  from Cons.prems obtain n where n: "x = (p, sdata n)" "load h p = Some n" "slist h (snext n) (y # ys)"
    by (rule slist_ConsE)
  then have "snext n \<noteq> 0" by (auto simp: slist_Cons)
  then show ?case using n Cons.IH [OF n(3)] by (simp add: n_slist_last_loop.simps [of h p])
qed

lemma n_slist_last_spec:
  "slist h p xs \<Longrightarrow> n_slist_last h p = Some (if xs = [] then NULL else fst (last xs))"
  by (cases xs) (simp_all add: n_slist_last_def n_slist_last_loop_spec, simp add: slist_Cons)

lemma n_slist_nth_loop_spec:
  "slist h p xs \<Longrightarrow> n_slist_nth_loop n h p = Some (if n < length xs then fst (xs ! n) else NULL)"
proof (induction n arbitrary: p xs)
  case 0
  then show ?case by (cases xs) (auto simp: slist_Cons)
next
  case (Suc n)
  show ?case
  proof (cases xs)
    case Nil
    then show ?thesis using Suc.prems by simp
  next
    case (Cons x ys)
    then show ?thesis using Suc.prems Suc.IH by (auto elim!: slist_ConsE)
  qed
qed

lemma n_slist_nth_spec:
  "slist h p xs \<Longrightarrow> n_slist_nth h p i = Some (if unat i < length xs then fst (xs ! unat i) else NULL)"
  by (simp add: n_slist_nth_def n_slist_nth_loop_spec)

lemma slist_nth_load:
  "slist h p xs \<Longrightarrow> i < length xs \<Longrightarrow>
    fst (xs ! i) \<noteq> 0 \<and> (\<exists>n. load h (fst (xs ! i)) = Some n \<and> sdata n = snd (xs ! i))"
proof (induction xs arbitrary: p i)
  case (Cons x xs)
  then show ?case by (cases i) (auto elim!: slist_ConsE)
qed simp

lemma n_slist_nth_data_spec:
  "slist h p xs \<Longrightarrow> n_slist_nth_data h p i = Some (if unat i < length xs then snd (xs ! unat i) else None)"
  using slist_nth_load [of h p xs "unat i"]
  by (auto simp: n_slist_nth_data_def n_slist_nth_loop_spec)

definition first_addr :: "((ptr \<times> 'd option) \<Rightarrow> bool) \<Rightarrow> (ptr \<times> 'd option) list \<Rightarrow> ptr" where
  "first_addr P xs = (case find P xs of Some x \<Rightarrow> fst x | None \<Rightarrow> NULL)"

lemma first_addr_simps [simp]:
  "first_addr P [] = 0" "first_addr P (x # xs) = (if P x then fst x else first_addr P xs)"
  by (simp_all add: first_addr_def)

lemma n_slist_find_spec:
  "slist h p xs \<Longrightarrow> n_slist_find h p d = Some (first_addr (\<lambda>x. snd x = d) xs)"
proof (induction xs arbitrary: p)
  case (Cons x xs)
  from Cons.prems show ?case
    by (rule slist_ConsE) (auto simp: n_slist_find.simps [of h p] Cons.IH)
qed (simp add: n_slist_find.simps)

lemma n_slist_find_custom_spec:
  "slist h p xs \<Longrightarrow> n_slist_find_custom f h p d = Some (first_addr (\<lambda>x. f (snd x) d = 0) xs)"
proof (induction xs arbitrary: p)
  case (Cons x xs)
  from Cons.prems show ?case
    by (rule slist_ConsE) (auto simp: n_slist_find_custom.simps [of f h p] Cons.IH)
qed (simp add: n_slist_find_custom.simps)

text \<open>The counters: an index below \<open>2 ^ 31\<close> is reported as it is, a missing element as -1.\<close>

fun index_from :: "((ptr \<times> 'd option) \<Rightarrow> bool) \<Rightarrow> (ptr \<times> 'd option) list \<Rightarrow> i32 \<Rightarrow> i32" where
  "index_from P [] i = - 1"
| "index_from P (x # xs) i = (if P x then i else index_from P xs (i + 1))"

lemma n_slist_position_spec:
  "slist h p xs \<Longrightarrow> n_slist_position h p l = Some (index_from (\<lambda>x. fst x = l) xs 0)"
proof -
  have "slist h p xs \<Longrightarrow> n_slist_position_loop h p l i = Some (index_from (\<lambda>x. fst x = l) xs i)" for i
  proof (induction xs arbitrary: p i)
    case (Cons x xs)
    from Cons.prems show ?case
      by (rule slist_ConsE) (auto simp: n_slist_position_loop.simps [of h p] Cons.IH)
  qed (simp add: n_slist_position_loop.simps)
  then show "slist h p xs \<Longrightarrow> ?thesis" by (simp add: n_slist_position_def)
qed

lemma n_slist_index_spec:
  "slist h p xs \<Longrightarrow> n_slist_index h p d = Some (index_from (\<lambda>x. snd x = d) xs 0)"
proof -
  have "slist h p xs \<Longrightarrow> n_slist_index_loop h p d i = Some (index_from (\<lambda>x. snd x = d) xs i)" for i
  proof (induction xs arbitrary: p i)
    case (Cons x xs)
    from Cons.prems show ?case
      by (rule slist_ConsE) (auto simp: n_slist_index_loop.simps [of h p] Cons.IH)
  qed (simp add: n_slist_index_loop.simps)
  then show "slist h p xs \<Longrightarrow> ?thesis" by (simp add: n_slist_index_def)
qed

lemma index_from_nth:
  assumes "k < length xs" and "P (xs ! k)" and "\<And>j. j < k \<Longrightarrow> \<not> P (xs ! j)"
  shows "index_from P xs i = i + of_nat k"
  using assms
proof (induction xs arbitrary: i k)
  case (Cons x xs)
  show ?case
  proof (cases k)
    case 0
    then show ?thesis using Cons.prems by simp
  next
    case (Suc m)
    have "index_from P xs (i + 1) = (i + 1) + of_nat m"
      using Cons.prems(1,2) Cons.prems(3) [of "Suc j" for j] Suc by (intro Cons.IH) auto
    moreover have "\<not> P x" using Cons.prems(3) [of 0] Suc by simp
    ultimately show ?thesis using Suc by simp
  qed
qed simp

lemma n_slist_length_spec:
  "slist h p xs \<Longrightarrow> n_slist_length h p = Some (of_nat (length xs))"
proof -
  have "slist h p xs \<Longrightarrow> n_slist_length_loop h p i = Some (i + of_nat (length xs))" for i
  proof (induction xs arbitrary: p i)
    case (Cons x xs)
    from Cons.prems show ?case
      by (rule slist_ConsE) (auto simp: n_slist_length_loop.simps [of h p] Cons.IH)
  qed (simp add: n_slist_length_loop.simps)
  then show "slist h p xs \<Longrightarrow> ?thesis" by (simp add: n_slist_length_def)
qed

lemma n_slist_foreach_spec:
  "slist h p xs \<Longrightarrow> n_slist_foreach f h p w = Some (fold (\<lambda>x. f (snd x)) xs w)"
proof (induction xs arbitrary: p w)
  case (Cons x xs)
  from Cons.prems show ?case
    by (rule slist_ConsE) (auto simp: n_slist_foreach.simps [of f h p] Cons.IH)
qed (simp add: n_slist_foreach.simps)

section \<open>Updates\<close>

lemmas heap_run = n_slice_alloc_def malloc_def modify_def load_def store_def

lemma slist_cells: "slist h p xs \<Longrightarrow> a \<in> addrs xs \<Longrightarrow> \<exists>n. cells h a = Some n \<and> a \<noteq> 0"
  using sseg_dom [of "cells h" p xs 0] sseg_nonzero [of "cells h" p xs 0]
  by (force simp: slist_def)

lemma n_slist_prepend_spec:
  assumes "wf_heap h" and "0 < avail h" and "slist h p xs"
  shows "\<exists>h'. n_slist_prepend h p d = Some (h', brk h) \<and> hstep {brk h} 1 h h'
    \<and> slist h' (brk h) ((brk h, d) # xs)"
  using assms slist_fresh [OF assms(1,3)]
  by (auto simp: n_slist_prepend_def heap_run slist_def sseg_Cons_iff hstep_def wf_heap_def)

text \<open>
  Redirecting the link out of a node in the middle: what followed it is replaced by the list at
  \<open>q\<close>. Insertion, removal and concatenation are all instances.
\<close>

lemma slist_relink:
  assumes "wf_heap h" and "slist h p (xs @ x # old)" and "slist h q ys"
    and "addrs (xs @ [x]) \<inter> addrs ys = {}"
  shows "\<exists>h'. modify h (fst x) (\<lambda>n. n\<lparr>snext := q\<rparr>) = Some h' \<and> hstep {fst x} 0 h h'
    \<and> slist h' p (xs @ x # ys)"
proof -
  obtain n where n: "cells h (fst x) = Some n"
    using slist_cells [OF assms(2), of "fst x"] by auto
  obtain h' where h': "modify h (fst x) (\<lambda>n. n\<lparr>snext := q\<rparr>) = Some h'" "hstep {fst x} 0 h h'"
    "cells h' = (cells h)(fst x \<mapsto> n\<lparr>snext := q\<rparr>)"
    using modify_ok [OF assms(1) n, of "\<lambda>n. n\<lparr>snext := q\<rparr>"] by blast
  obtain r where "sseg (cells h) p (xs @ [x]) r"
    using assms(2) sseg_append [of "cells h" p "xs @ [x]" old 0] by (auto simp: slist_def)
  then have 1: "sseg (cells h') p (xs @ [x]) q"
    using sseg_relink [of "cells h" p xs x r n q] slist_distinct [OF assms(2)] n by (simp add: h')
  have "slist h' q ys"
    by (rule slist_hstep [OF assms(3) h'(2)]) (use assms(4) in auto)
  then have "slist h' p ((xs @ [x]) @ ys)"
    using 1 unfolding slist_def by (subst sseg_append) blast
  then show ?thesis using h' by auto
qed

lemma slist_suffix: "slist h p (xs @ ys) \<Longrightarrow> \<exists>r. sseg (cells h) p xs r \<and> slist h r ys"
  by (simp add: slist_def sseg_append)

lemma slist_after:
  assumes "slist h p (xs @ x # ys)"
  shows "\<exists>n. load h (fst x) = Some n \<and> cells h (fst x) = Some n \<and> sdata n = snd x
    \<and> slist h (snext n) ys"
  using slist_suffix [OF assms] by (auto simp: slist_Cons load_def)

text \<open>Allocating a node and writing its data.\<close>

lemma alloc_data:
  assumes "wf_heap h" and "0 < avail h"
  obtains h0 h1 where "n_slice_alloc h = (h0, brk h)"
    "modify h0 (brk h) (\<lambda>n. n\<lparr>sdata := d\<rparr>) = Some h1" "hstep {brk h} 1 h h1"
    "cells h1 (brk h) = Some ((junk h)\<lparr>sdata := d\<rparr>)" "brk h \<noteq> 0"
    "hstep {brk h} 1 h h0"
proof -
  let ?h0 = "h\<lparr>brk := Suc (brk h), avail := avail h - 1, cells := (cells h)(brk h \<mapsto> junk h)\<rparr>"
  let ?h1 = "h\<lparr>brk := Suc (brk h), avail := avail h - 1,
    cells := (cells h)(brk h \<mapsto> (junk h)\<lparr>sdata := d\<rparr>)\<rparr>"
  show thesis
    by (rule that [of ?h0 ?h1])
      (use assms in \<open>auto simp: heap_run hstep_def wf_heap_def\<close>)
qed

text \<open>Allocating a node and writing its data and its link.\<close>

lemma alloc_node:
  assumes "wf_heap h" and "0 < avail h"
  obtains h0 h1 h2 where "n_slice_alloc h = (h0, brk h)"
    "modify h0 (brk h) (\<lambda>n. n\<lparr>sdata := d\<rparr>) = Some h1"
    "modify h1 (brk h) (\<lambda>n. n\<lparr>snext := q\<rparr>) = Some h2" "hstep {brk h} 1 h h1" "hstep {brk h} 1 h h2"
    "\<And>xs. slist h q xs \<Longrightarrow> slist h2 (brk h) ((brk h, d) # xs)" "brk h \<noteq> 0"
proof -
  obtain h0 h1 where 1: "n_slice_alloc h = (h0, brk h)"
    "modify h0 (brk h) (\<lambda>n. n\<lparr>sdata := d\<rparr>) = Some h1" "hstep {brk h} 1 h h1"
    "cells h1 (brk h) = Some ((junk h)\<lparr>sdata := d\<rparr>)" "brk h \<noteq> 0"
    using alloc_data [OF assms] by blast
  obtain h2 where 2: "modify h1 (brk h) (\<lambda>n. n\<lparr>snext := q\<rparr>) = Some h2" "hstep {brk h} 0 h1 h2"
    "cells h2 = (cells h1)(brk h \<mapsto> (junk h)\<lparr>sdata := d, snext := q\<rparr>)"
    using modify_ok [OF hstep_wf [OF 1(3)] 1(4), of "\<lambda>n. n\<lparr>snext := q\<rparr>"] by auto
  have st: "hstep {brk h} 1 h h2"
    by (rule hstep_trans2 [OF 1(3) 2(2)]) auto
  have "slist h2 (brk h) ((brk h, d) # xs)" if "slist h q xs" for xs
    using slist_hstep [OF that st] slist_fresh [OF assms(1) that] 2(3) 1(5)
    by (simp add: slist_Cons)
  then show thesis using that 1 2 st by blast
qed

lemma n_slist_append_spec:
  assumes "wf_heap h" and "0 < avail h" and "slist h p xs"
  shows "\<exists>h'. n_slist_append h p d = Some (h', if xs = [] then brk h else p)
    \<and> hstep (insert (brk h) (addrs xs)) 1 h h'
    \<and> slist h' (if xs = [] then brk h else p) (xs @ [(brk h, d)])"
proof -
  let ?h = "h\<lparr>brk := Suc (brk h), avail := avail h - 1,
    cells := (cells h)(brk h \<mapsto> (junk h)\<lparr>sdata := d, snext := 0\<rparr>)\<rparr>"
  have st: "hstep {brk h} 1 h ?h"
    using assms(1,2) by (auto simp: hstep_def wf_heap_def)
  have new: "slist ?h (brk h) [(brk h, d)]"
    using assms(1) by (simp add: slist_Cons wf_heap_brk)
  have old: "slist ?h p xs"
    by (rule slist_hstep [OF assms(3) st]) (use slist_fresh [OF assms(1,3)] in auto)
  have eq: "n_slist_append h p d = (if p \<noteq> NULL then do {
      last \<leftarrow> n_slist_last ?h p;
      h \<leftarrow> modify ?h last (\<lambda>n. n\<lparr>snext := brk h\<rparr>);
      Some (h, p) } else Some (?h, brk h))"
    using assms(1,2) by (simp add: n_slist_append_def heap_run wf_heap_brk)
  show ?thesis
  proof (cases xs rule: rev_cases)
    case Nil
    then show ?thesis using assms(3) eq st new by simp
  next
    case (snoc zs x)
    obtain h' where h': "modify ?h (fst x) (\<lambda>n. n\<lparr>snext := brk h\<rparr>) = Some h'" "hstep {fst x} 0 ?h h'"
      "slist h' p (zs @ x # [(brk h, d)])"
      using slist_relink [OF hstep_wf [OF st] old [unfolded snoc] new]
        slist_fresh [OF assms(1,3)] by (auto simp: snoc)
    have "p \<noteq> 0" using assms(3) snoc by (cases "p = 0") auto
    then have "n_slist_append h p d = Some (h', p)"
      using eq h'(1) n_slist_last_spec [OF old] by (simp add: snoc)
    moreover have "hstep (insert (brk h) (addrs xs)) 1 h h'"
      by (rule hstep_trans2 [OF st h'(2)]) (auto simp: snoc)
    ultimately show ?thesis using h'(3) by (auto simp: snoc)
  qed
qed

lemma n_slist_concat_spec:
  assumes "wf_heap h" and "slist h p xs" and "slist h q ys" and "addrs xs \<inter> addrs ys = {}"
  shows "\<exists>h'. n_slist_concat h p q = Some (h', if p = 0 then q else p)
    \<and> hstep (addrs xs) 0 h h' \<and> slist h' (if p = 0 then q else p) (xs @ ys)"
proof (cases xs rule: rev_cases)
  case Nil
  then show ?thesis using assms by (auto simp: n_slist_concat_def hstep_refl)
next
  case (snoc zs x)
  then have p: "p \<noteq> 0" using assms(2) by (cases "p = 0") auto
  show ?thesis
  proof (cases "q = 0")
    case True
    then show ?thesis using assms p by (auto simp: n_slist_concat_def hstep_refl)
  next
    case False
    obtain h' where h': "modify h (fst x) (\<lambda>n. n\<lparr>snext := q\<rparr>) = Some h'" "hstep {fst x} 0 h h'"
      "slist h' p (zs @ x # ys)"
      using slist_relink [of h p zs x "[]" q ys] assms snoc by auto
    have "hstep (addrs xs) 0 h h'"
      by (rule hstep_mono [OF h'(2)]) (simp add: snoc)
    then show ?thesis using h' p False n_slist_last_spec [OF assms(2)]
      by (auto simp: n_slist_concat_def snoc)
  qed
qed

lemma n_slist_free_spec:
  "wf_heap h \<Longrightarrow> slist h p xs \<Longrightarrow> \<exists>h'. n_slist_free h p = Some h' \<and> hstep (addrs xs) 0 h h'
    \<and> (\<forall>a \<in> addrs xs. cells h' a = None)"
proof (induction xs arbitrary: h p)
  case Nil
  then show ?case
    by (simp add: n_slist_free_def n_slice_free_chain_with_offset.simps hstep_refl)
next
  case (Cons x xs)
  obtain n where n: "x = (p, sdata n)" "p \<noteq> 0" "cells h p = Some n" "load h p = Some n"
    "slist h (snext n) xs"
    using Cons.prems(2) by (rule slist_ConsE)
  have np: "p \<notin> addrs xs" using slist_distinct [OF Cons.prems(2)] n(1) by simp
  obtain h1 where h1: "dealloc h p = Some h1" "hstep {p} 0 h h1" "cells h1 = (cells h)(p := None)"
    using dealloc_ok [OF Cons.prems(1) n(3)] by blast
  obtain h' where h': "n_slist_free h1 (snext n) = Some h'" "hstep (addrs xs) 0 h1 h'"
    "\<forall>a \<in> addrs xs. cells h' a = None"
    using Cons.IH [OF hstep_wf [OF h1(2)] slist_hstep [OF n(5) h1(2)]] np by auto
  have "n_slist_free h p = Some h'"
    using h'(1) n h1(1) unfolding n_slist_free_def
    by (simp add: n_slice_free_chain_with_offset.simps [of snext h p])
  moreover have "hstep (addrs (x # xs)) 0 h h'"
    by (rule hstep_trans2 [OF h1(2) h'(2)]) (auto simp: n(1))
  moreover have "cells h' p = None"
    using hstep_cells [OF h'(2) np] h1(3) by simp
  ultimately show ?case using h'(3) n(1) by auto
qed

lemma n_slist_reverse_loop_spec:
  "wf_heap h \<Longrightarrow> slist h q ys \<Longrightarrow> slist h p xs \<Longrightarrow> addrs xs \<inter> addrs ys = {} \<Longrightarrow>
   \<exists>h' r. n_slist_reverse_loop h q p = Some (h', r) \<and> hstep (addrs xs) 0 h h'
     \<and> slist h' r (rev xs @ ys)"
proof (induction xs arbitrary: h p q ys)
  case Nil
  then show ?case by (simp add: n_slist_reverse_loop.simps hstep_refl)
next
  case (Cons x xs)
  obtain n where n: "x = (p, sdata n)" "p \<noteq> 0" "cells h p = Some n" "load h p = Some n"
    "slist h (snext n) xs"
    using Cons.prems(3) by (rule slist_ConsE)
  have np: "p \<notin> addrs xs" "p \<notin> addrs ys"
    using slist_distinct [OF Cons.prems(3)] Cons.prems(4) n(1) by auto
  obtain h1 where h1: "modify h p (\<lambda>n. n\<lparr>snext := q\<rparr>) = Some h1" "hstep {p} 0 h h1"
    "cells h1 = (cells h)(p \<mapsto> n\<lparr>snext := q\<rparr>)"
    using modify_ok [OF Cons.prems(1) n(3), of "\<lambda>n. n\<lparr>snext := q\<rparr>"] by blast
  have xs: "slist h1 (snext n) xs" and ys: "slist h1 q ys"
    using slist_hstep [OF n(5) h1(2)] slist_hstep [OF Cons.prems(2) h1(2)] np by auto
  have "slist h1 p (x # ys)"
    using n(1,2) h1(3) ys by (simp add: slist_Cons)
  then obtain h' r where h': "n_slist_reverse_loop h1 p (snext n) = Some (h', r)"
    "hstep (addrs xs) 0 h1 h'" "slist h' r (rev xs @ x # ys)"
    using Cons.IH [OF hstep_wf [OF h1(2)] _ xs, of p "x # ys"] Cons.prems(4) np n(1) by auto
  have "hstep (addrs (x # xs)) 0 h h'"
    by (rule hstep_trans2 [OF h1(2) h'(2)]) (auto simp: n(1))
  then show ?case using h' n h1(1) by (simp add: n_slist_reverse_loop.simps [of h q p])
qed

lemma n_slist_reverse_spec:
  assumes "wf_heap h" and "slist h p xs"
  shows "\<exists>h' r. n_slist_reverse h p = Some (h', r) \<and> hstep (addrs xs) 0 h h' \<and> slist h' r (rev xs)"
  using n_slist_reverse_loop_spec [OF assms(1) _ assms(2), of 0 "[]"]
  by (simp add: n_slist_reverse_def)

lemma n_slist_insert_loop_spec:
  "slist h p xs \<Longrightarrow> n_slist_insert_loop k h prev p
     = Some (if k = 0 \<or> xs = [] then prev else fst (xs ! (min k (length xs) - 1)))"
proof (induction k arbitrary: p xs prev)
  case (Suc k)
  show ?case
  proof (cases xs)
    case Nil
    then show ?thesis using Suc.prems by simp
  next
    case (Cons x ys)
    then obtain n where n: "x = (p, sdata n)" "p \<noteq> 0" "load h p = Some n" "slist h (snext n) ys"
      using Suc.prems by (auto elim!: slist_ConsE)
    then show ?thesis using Suc.IH [OF n(4), of p] Cons
      by (cases "k = 0"; cases ys) (auto simp: nth_Cons' min_def)
  qed
qed simp

text \<open>Inserting a fresh node after the node \<open>x\<close>; the new node's data is already written.\<close>

lemma slist_insert_after:
  assumes "wf_heap h" and "slist h p (xs @ x # ys)" and "cells h b = Some m" and "b \<notin> addrs (xs @ x # ys)"
  shows "\<exists>n h1 h2. load h (fst x) = Some n \<and> modify h b (\<lambda>m. m\<lparr>snext := snext n\<rparr>) = Some h1
    \<and> modify h1 (fst x) (\<lambda>n. n\<lparr>snext := b\<rparr>) = Some h2 \<and> hstep {b, fst x} 0 h h2
    \<and> slist h2 p (xs @ x # (b, sdata m) # ys)"
proof -
  obtain n where n: "load h (fst x) = Some n" "slist h (snext n) ys"
    using slist_after [OF assms(2)] by auto
  have b0: "b \<noteq> 0" using assms(1,3) wf_heap_NULL [of h] by (cases "b = 0") auto
  obtain h1 where h1: "modify h b (\<lambda>m. m\<lparr>snext := snext n\<rparr>) = Some h1" "hstep {b} 0 h h1"
    "cells h1 = (cells h)(b \<mapsto> m\<lparr>snext := snext n\<rparr>)"
    using modify_ok [OF assms(1,3), of "\<lambda>m. m\<lparr>snext := snext n\<rparr>"] by blast
  have old: "slist h1 p (xs @ x # ys)"
    by (rule slist_hstep [OF assms(2) h1(2)]) (use assms(4) in auto)
  have new: "slist h1 b ((b, sdata m) # ys)"
    using slist_hstep [OF n(2) h1(2)] assms(4) b0 h1(3) by (auto simp: slist_Cons)
  have "addrs (xs @ [x]) \<inter> addrs ((b, sdata m) # ys) = {}"
    using slist_distinct [OF assms(2)] assms(4) by auto
  then obtain h2 where h2: "modify h1 (fst x) (\<lambda>n. n\<lparr>snext := b\<rparr>) = Some h2" "hstep {fst x} 0 h1 h2"
    "slist h2 p (xs @ x # (b, sdata m) # ys)"
    using slist_relink [OF hstep_wf [OF h1(2)] old new] by blast
  have "hstep {b, fst x} 0 h h2"
    by (rule hstep_trans2 [OF h1(2) h2(2)]) auto
  then show ?thesis using n h1 h2 by blast
qed

definition insert_at :: "nat \<Rightarrow> 'a \<Rightarrow> 'a list \<Rightarrow> 'a list" where
  "insert_at k y xs = take k xs @ y # drop k xs"

text \<open>Where \<open>insert\<close> puts the new element: a negative position means the end.\<close>

definition insert_pos :: "i32 \<Rightarrow> nat \<Rightarrow> nat" where
  "insert_pos pos n = (if sint pos < 0 then n else unat pos)"

lemma n_slist_insert_spec:
  fixes pos :: i32
  assumes "wf_heap h" and "0 < avail h" and "slist h p xs"
  shows "\<exists>h' p'. n_slist_insert h p d pos = Some (h', p')
    \<and> hstep (insert (brk h) (addrs xs)) 1 h h' \<and> slist h' p' (insert_at (insert_pos pos (length xs)) (brk h, d) xs)"
proof -
  define k where "k = (if sint pos < 0 then length xs else unat pos)"
  note goal_def = insert_pos_def
  consider "sint pos < 0" | "pos = 0" | "\<not> sint pos < 0" "pos \<noteq> 0" "xs = []"
    | "\<not> sint pos < 0" "pos \<noteq> 0" "xs \<noteq> []" by blast
  then show ?thesis
  proof cases
    case 1
    then show ?thesis using n_slist_append_spec [OF assms(1-3), of d]
      by (auto simp: n_slist_insert_def goal_def insert_at_def)
  next
    case 2
    obtain h' where "n_slist_prepend h p d = Some (h', brk h)" "hstep {brk h} 1 h h'"
      "slist h' (brk h) ((brk h, d) # xs)"
      using n_slist_prepend_spec [OF assms(1-3)] by blast
    then show ?thesis using 2 hstep_mono [of "{brk h}" 1 h h' "insert (brk h) (addrs xs)"]
      by (auto simp: n_slist_insert_def goal_def insert_at_def)
  next
    case 3
    obtain h0 h1 h2 where "n_slice_alloc h = (h0, brk h)"
      "modify h0 (brk h) (\<lambda>n. n\<lparr>sdata := d\<rparr>) = Some h1"
      "modify h1 (brk h) (\<lambda>n. n\<lparr>snext := 0\<rparr>) = Some h2" "hstep {brk h} 1 h h2"
      "slist h2 (brk h) [(brk h, d)]"
      using alloc_node [OF assms(1,2), of d 0] by (metis slist_NULL)
    then show ?thesis using 3 assms(3) by (auto simp: n_slist_insert_def goal_def insert_at_def)
  next
    case 4
    have p: "p \<noteq> 0" using 4 assms(3) by (cases "p = 0") auto
    have k: "0 < k" using 4 by (simp add: k_def unat_gt_0)
    let ?j = "min k (length xs) - 1"
    have j: "?j < length xs" "Suc ?j = min k (length xs)" using 4(3) k by (auto simp: min_def)
    obtain as x bs where xs: "xs = as @ x # bs" "take k xs = as @ [x]" "drop k xs = bs" "xs ! ?j = x"
    proof (rule that [of "take ?j xs" "xs ! ?j" "drop k xs"])
      have "take k xs = take (Suc ?j) xs" using j(2) by (simp add: min_def)
      then show 1: "take k xs = take ?j xs @ [xs ! ?j]" using take_Suc_conv_app_nth [OF j(1)] by simp
      show "xs = take ?j xs @ xs ! ?j # drop k xs"
        using append_take_drop_id [of k xs] 1 by simp
    qed simp_all
    obtain h0 h1 where h1: "n_slice_alloc h = (h0, brk h)"
      "modify h0 (brk h) (\<lambda>n. n\<lparr>sdata := d\<rparr>) = Some h1" "hstep {brk h} 1 h h1"
      "cells h1 (brk h) = Some ((junk h)\<lparr>sdata := d\<rparr>)"
      using alloc_data [OF assms(1,2)] by blast
    have s1: "slist h1 p xs"
      by (rule slist_hstep [OF assms(3) h1(3)]) (use slist_fresh [OF assms(1,3)] in auto)
    obtain n h2 h3 where h3: "load h1 (fst x) = Some n"
      "modify h1 (brk h) (\<lambda>m. m\<lparr>snext := snext n\<rparr>) = Some h2"
      "modify h2 (fst x) (\<lambda>n. n\<lparr>snext := brk h\<rparr>) = Some h3"
      "hstep {brk h, fst x} 0 h1 h3" "slist h3 p (as @ x # (brk h, d) # bs)"
      using slist_insert_after [OF hstep_wf [OF h1(3)] s1 [unfolded xs(1)] h1(4)]
        slist_fresh [OF assms(1,3)] xs(1) by auto
    have "n_slist_insert_loop (unat pos) h1 0 p = Some (fst x)"
      using n_slist_insert_loop_spec [OF s1, of "unat pos" 0] 4 k xs(4) by (simp add: k_def)
    then have "n_slist_insert h p d pos = Some (h3, p)"
      using h1 h3 4 p by (simp add: n_slist_insert_def)
    moreover have "hstep (insert (brk h) (addrs xs)) 1 h h3"
      by (rule hstep_trans2 [OF h1(3) h3(4)]) (auto simp: xs(1))
    ultimately show ?thesis using h3(5) xs(2,3) by (auto simp: insert_at_def k_def [symmetric] insert_pos_def)
  qed
qed

section \<open>Insertion before a node, removal\<close>

definition laddr :: "(ptr \<times> 'd option) list \<Rightarrow> ptr" where
  "laddr xs = (if xs = [] then NULL else fst (last xs))"

definition haddr :: "(ptr \<times> 'd option) list \<Rightarrow> ptr" where
  "haddr xs = (case xs of [] \<Rightarrow> NULL | x # _ \<Rightarrow> fst x)"

lemma addr_simps [simp]:
  "laddr [] = 0" "laddr (xs @ [x]) = fst x" "haddr [] = 0" "haddr (x # xs) = fst x"
  by (simp_all add: laddr_def haddr_def)

lemma slist_haddr: "slist h p xs \<Longrightarrow> p = haddr xs"
  by (cases xs) (auto simp: slist_Cons)

lemma n_slist_insert_before_loop_spec:
  "slist h p xs \<Longrightarrow> n_slist_insert_before_loop h sib p prev
     = Some (let ys = takeWhile (\<lambda>x. fst x \<noteq> sib) xs in if ys = [] then prev else laddr ys)"
proof (induction xs arbitrary: p prev)
  case Nil
  then show ?case by (simp add: n_slist_insert_before_loop.simps)
next
  case (Cons x xs)
  obtain n where n: "x = (p, sdata n)" "p \<noteq> 0" "load h p = Some n" "slist h (snext n) xs"
    using Cons.prems by (rule slist_ConsE)
  show ?case using n Cons.IH [OF n(4), of p]
    by (auto simp: n_slist_insert_before_loop.simps [of h sib p] Let_def laddr_def)
qed

lemma n_slist_insert_before_spec:
  assumes "wf_heap h" and "0 < avail h" and "slist h p xs"
  shows "\<exists>h' p'. n_slist_insert_before h p sib d = Some (h', p')
    \<and> hstep (insert (brk h) (addrs xs)) 1 h h'
    \<and> slist h' p' (insert_at (length (takeWhile (\<lambda>x. fst x \<noteq> sib) xs)) (brk h, d) xs)"
proof (cases "takeWhile (\<lambda>x. fst x \<noteq> sib) xs" rule: rev_cases)
  case Nil
  obtain h0 h1 h2 where h2: "n_slice_alloc h = (h0, brk h)"
    "modify h0 (brk h) (\<lambda>n. n\<lparr>sdata := d\<rparr>) = Some h1"
    "modify h1 (brk h) (\<lambda>n. n\<lparr>snext := p\<rparr>) = Some h2" "hstep {brk h} 1 h h2"
    "slist h2 (brk h) ((brk h, d) # xs)"
    using alloc_node [OF assms(1,2), of d p] assms(3) by metis
  have "n_slist_insert_before h p sib d = Some (h2, brk h)"
    using h2 Nil n_slist_insert_before_loop_spec [OF assms(3), of sib 0]
    by (auto simp: n_slist_insert_before_def)
  then show ?thesis using h2(4,5) Nil hstep_mono [OF h2(4), of "insert (brk h) (addrs xs)"]
    by (auto simp: insert_at_def)
next
  case (snoc as x)
  define bs where "bs = dropWhile (\<lambda>x. fst x \<noteq> sib) xs"
  have xs: "xs = as @ x # bs"
    using takeWhile_dropWhile_id [of "\<lambda>x. fst x \<noteq> sib" xs] by (simp add: snoc bs_def)
  have p: "p \<noteq> 0" using assms(3) xs by (cases "p = 0") auto
  obtain h0 h1 where h1: "n_slice_alloc h = (h0, brk h)"
    "modify h0 (brk h) (\<lambda>n. n\<lparr>sdata := d\<rparr>) = Some h1" "hstep {brk h} 1 h h1"
    "cells h1 (brk h) = Some ((junk h)\<lparr>sdata := d\<rparr>)"
    using alloc_data [OF assms(1,2)] by blast
  have s1: "slist h1 p (as @ x # bs)"
    by (rule slist_hstep [OF assms(3) [unfolded xs] h1(3)])
      (use slist_fresh [OF assms(1,3)] xs in auto)
  obtain n h2 h3 where h3: "load h1 (fst x) = Some n"
    "modify h1 (brk h) (\<lambda>m. m\<lparr>snext := snext n\<rparr>) = Some h2"
    "modify h2 (fst x) (\<lambda>n. n\<lparr>snext := brk h\<rparr>) = Some h3"
    "hstep {brk h, fst x} 0 h1 h3" "slist h3 p (as @ x # (brk h, d) # bs)"
    using slist_insert_after [OF hstep_wf [OF h1(3)] s1 h1(4)] slist_fresh [OF assms(1,3)] xs by auto
  have x0: "fst x \<noteq> 0" using slist_cells [OF assms(3), of "fst x"] xs by auto
  have "n_slist_insert_before h p sib d = Some (h3, p)"
    using h1 h3 p x0 snoc n_slist_insert_before_loop_spec [OF assms(3), of sib 0]
    by (simp add: n_slist_insert_before_def)
  moreover have "hstep (insert (brk h) (addrs xs)) 1 h h3"
    by (rule hstep_trans2 [OF h1(3) h3(4)]) (auto simp: xs)
  ultimately show ?thesis using h3(5) by (auto simp: insert_at_def snoc) (simp add: xs)
qed

text \<open>Unlinking the node \<open>x\<close> that follows \<open>y\<close>.\<close>

lemma slist_unlink:
  assumes "wf_heap h" and "slist h p (ys @ y # x # zs)"
  shows "\<exists>t h1. load h (fst x) = Some t \<and> sdata t = snd x \<and> snext t = haddr zs
    \<and> modify h (fst y) (\<lambda>n. n\<lparr>snext := snext t\<rparr>) = Some h1
    \<and> hstep {fst y} 0 h h1 \<and> slist h1 p (ys @ y # zs) \<and> cells h1 (fst x) = Some t"
proof -
  obtain t where t: "load h (fst x) = Some t" "cells h (fst x) = Some t" "sdata t = snd x"
    "slist h (snext t) zs"
    using slist_after [of h p "ys @ [y]" x zs] assms(2) by auto
  have d: "distinct (map fst (ys @ y # x # zs))" by (rule slist_distinct [OF assms(2)])
  then have "addrs (ys @ [y]) \<inter> addrs zs = {}" by auto
  then obtain h1 where h1: "modify h (fst y) (\<lambda>n. n\<lparr>snext := snext t\<rparr>) = Some h1"
    "hstep {fst y} 0 h h1" "slist h1 p (ys @ y # zs)"
    using slist_relink [OF assms t(4)] by blast
  have "cells h1 (fst x) = Some t"
    using hstep_cells [OF h1(2), of "fst x"] d t(2) by auto
  then show ?thesis using t h1 slist_haddr [OF t(4)] by blast
qed

lemma slist_dealloc:
  assumes "wf_heap h" and "slist h p xs" and "cells h a = Some t" and "a \<notin> addrs xs"
  shows "\<exists>h'. n_slist_free_1 h a = Some h' \<and> hstep {a} 0 h h' \<and> slist h' p xs \<and> cells h' a = None"
proof -
  have "a \<noteq> 0" using assms(1,3) wf_heap_NULL [of h] by (cases "a = 0") auto
  moreover obtain h' where h': "dealloc h a = Some h'" "hstep {a} 0 h h'" "cells h' = (cells h)(a := None)"
    using dealloc_ok [OF assms(1,3)] by blast
  ultimately show ?thesis using slist_hstep [OF assms(2) h'(2)] assms(4)
    by (auto simp: n_slist_free_1_def n_slice_free1_def)
qed

text \<open>The two ways a loop takes the node \<open>x\<close> out, with and without a predecessor.\<close>

lemma slist_take_out:
  assumes "wf_heap h" and "slist h p (ys @ x # xs)"
  shows "\<exists>t h1 h'. load h (fst x) = Some t \<and> sdata t = snd x \<and> snext t = haddr xs \<and> fst x \<noteq> 0
    \<and> (if laddr ys \<noteq> NULL then modify h (laddr ys) (\<lambda>n. n\<lparr>snext := snext t\<rparr>) else Some h) = Some h1
    \<and> n_slist_free_1 h1 (fst x) = Some h' \<and> hstep (addrs (ys @ x # xs)) 0 h h'
    \<and> slist h' (if laddr ys \<noteq> NULL then p else snext t) (ys @ xs) \<and> cells h' (fst x) = None
    \<and> (laddr ys = 0 \<longleftrightarrow> ys = [])"
proof -
  have x0: "fst x \<noteq> 0" using slist_cells [OF assms(2), of "fst x"] by auto
  show ?thesis
  proof (cases ys rule: rev_cases)
    case Nil
    then obtain t where t: "x = (p, sdata t)" "cells h p = Some t" "load h p = Some t" "slist h (snext t) xs"
      using assms(2) by (auto elim: slist_ConsE)
    obtain h' where h': "n_slist_free_1 h p = Some h'" "hstep {p} 0 h h'" "slist h' (snext t) xs"
      "cells h' p = None"
      using slist_dealloc [OF assms(1) t(4,2)] slist_distinct [OF assms(2)] Nil t(1) by auto
    then show ?thesis using t x0 Nil slist_haddr [OF t(4)] hstep_mono [OF h'(2)]
      by (auto simp: t(1))
  next
    case (snoc zs y)
    obtain t h1 where t: "load h (fst x) = Some t" "sdata t = snd x" "snext t = haddr xs"
      "modify h (fst y) (\<lambda>n. n\<lparr>snext := snext t\<rparr>) = Some h1" "hstep {fst y} 0 h h1"
      "slist h1 p (zs @ y # xs)" "cells h1 (fst x) = Some t"
      using slist_unlink [of h p zs y x xs] assms snoc by auto
    have "fst x \<notin> addrs (zs @ y # xs)"
      using slist_distinct [OF assms(2)] snoc by auto
    then obtain h' where h': "n_slist_free_1 h1 (fst x) = Some h'" "hstep {fst x} 0 h1 h'"
      "slist h' p (zs @ y # xs)" "cells h' (fst x) = None"
      using slist_dealloc [OF hstep_wf [OF t(5)] t(6,7)] by blast
    have "hstep (addrs (ys @ x # xs)) 0 h h'"
      by (rule hstep_trans2 [OF t(5) h'(2)]) (auto simp: snoc)
    moreover have "fst y \<noteq> 0" using slist_cells [OF assms(2), of "fst y"] snoc by auto
    ultimately show ?thesis using t h' x0 snoc by auto
  qed
qed

definition remove_first :: "('a \<Rightarrow> bool) \<Rightarrow> 'a list \<Rightarrow> 'a list" where
  "remove_first P xs = takeWhile (\<lambda>x. \<not> P x) xs @ tl (dropWhile (\<lambda>x. \<not> P x) xs)"

lemma remove_first_simps [simp]:
  "remove_first P [] = []" "remove_first P (x # xs) = (if P x then xs else x # remove_first P xs)"
  by (simp_all add: remove_first_def)

lemma n_slist_remove_loop_spec:
  "wf_heap h \<Longrightarrow> slist h p (ys @ xs) \<Longrightarrow>
   \<exists>h' p'. n_slist_remove_loop h p d (haddr xs) (laddr ys) = Some (h', p')
     \<and> hstep (addrs (ys @ xs)) 0 h h' \<and> slist h' p' (ys @ remove_first (\<lambda>x. snd x = d) xs)"
proof (induction xs arbitrary: ys)
  case Nil
  then show ?case by (simp add: n_slist_remove_loop.simps hstep_refl)
next
  case (Cons x xs)
  obtain t h1 h' where t: "load h (fst x) = Some t" "sdata t = snd x" "snext t = haddr xs" "fst x \<noteq> 0"
    "(if laddr ys \<noteq> NULL then modify h (laddr ys) (\<lambda>n. n\<lparr>snext := snext t\<rparr>) else Some h) = Some h1"
    "n_slist_free_1 h1 (fst x) = Some h'" "hstep (addrs (ys @ x # xs)) 0 h h'"
    "slist h' (if laddr ys \<noteq> NULL then p else snext t) (ys @ xs)"
    using slist_take_out [OF Cons.prems] by blast
  show ?case
  proof (cases "snd x = d")
    case True
    then have "n_slist_remove_loop h p d (haddr (x # xs)) (laddr ys)
      = Some (h', if laddr ys \<noteq> NULL then p else snext t)"
      using t by (simp add: n_slist_remove_loop.simps [of h p d "fst x"] split: if_splits)
    then show ?thesis using t(7,8) True by auto
  next
    case False
    have "slist h p ((ys @ [x]) @ xs)" using Cons.prems(2) by simp
    from Cons.IH [OF Cons.prems(1) this] show ?thesis
      using False t by (simp add: n_slist_remove_loop.simps [of h p d "fst x"])
  qed
qed

lemma n_slist_remove_spec:
  assumes "wf_heap h" and "slist h p xs"
  shows "\<exists>h' p'. n_slist_remove h p d = Some (h', p') \<and> hstep (addrs xs) 0 h h'
    \<and> slist h' p' (remove_first (\<lambda>x. snd x = d) xs)"
  using n_slist_remove_loop_spec [of h p "[]" xs d] assms slist_haddr [OF assms(2)]
  by (simp add: n_slist_remove_def)

lemma n_slist_remove_all_loop_spec:
  "wf_heap h \<Longrightarrow> slist h p (ys @ xs) \<Longrightarrow>
   \<exists>h' p'. n_slist_remove_all_loop h p d (haddr xs) (laddr ys) = Some (h', p')
     \<and> hstep (addrs (ys @ xs)) 0 h h' \<and> slist h' p' (ys @ filter (\<lambda>x. snd x \<noteq> d) xs)
     \<and> (\<forall>x \<in> set xs. snd x = d \<longrightarrow> cells h' (fst x) = None)"
proof (induction xs arbitrary: h p ys)
  case Nil
  then show ?case by (simp add: n_slist_remove_all_loop.simps hstep_refl)
next
  case (Cons x xs)
  obtain t h1 h' where t: "load h (fst x) = Some t" "sdata t = snd x" "snext t = haddr xs" "fst x \<noteq> 0"
    "(if laddr ys \<noteq> NULL then modify h (laddr ys) (\<lambda>n. n\<lparr>snext := snext t\<rparr>) else Some h) = Some h1"
    "n_slist_free_1 h1 (fst x) = Some h'" "hstep (addrs (ys @ x # xs)) 0 h h'"
    "slist h' (if laddr ys \<noteq> NULL then p else snext t) (ys @ xs)" "cells h' (fst x) = None"
    using slist_take_out [OF Cons.prems] by blast
  show ?case
  proof (cases "snd x = d")
    case True
    obtain h'' p'' where h'': "n_slist_remove_all_loop h' (if laddr ys \<noteq> NULL then p else snext t) d
        (haddr xs) (laddr ys) = Some (h'', p'')" "hstep (addrs (ys @ xs)) 0 h' h''"
      "slist h'' p'' (ys @ filter (\<lambda>x. snd x \<noteq> d) xs)"
      "\<forall>x \<in> set xs. snd x = d \<longrightarrow> cells h'' (fst x) = None"
      using Cons.IH [OF hstep_wf [OF t(7)] t(8)] by blast
    have "n_slist_remove_all_loop h p d (haddr (x # xs)) (laddr ys) = Some (h'', p'')"
      using t True h''(1)
      by (simp add: n_slist_remove_all_loop.simps [of h p d "fst x"] split: if_splits)
    moreover have "hstep (addrs (ys @ x # xs)) 0 h h''"
      by (rule hstep_trans2 [OF t(7) h''(2)]) auto
    moreover have "cells h'' (fst x) = None"
      using hstep_cells [OF h''(2), of "fst x"] t(9) slist_distinct [OF Cons.prems(2)] by force
    ultimately show ?thesis using h''(3,4) True by auto
  next
    case False
    have "slist h p ((ys @ [x]) @ xs)" using Cons.prems(2) by simp
    from Cons.IH [OF Cons.prems(1) this] show ?thesis
      using False t by (simp add: n_slist_remove_all_loop.simps [of h p d "fst x"])
  qed
qed

lemma n_slist_remove_all_spec:
  assumes "wf_heap h" and "slist h p xs"
  shows "\<exists>h' p'. n_slist_remove_all h p d = Some (h', p') \<and> hstep (addrs xs) 0 h h'
    \<and> slist h' p' (filter (\<lambda>x. snd x \<noteq> d) xs)
    \<and> (\<forall>x \<in> set xs. snd x = d \<longrightarrow> cells h' (fst x) = None)"
  using n_slist_remove_all_loop_spec [of h p "[]" xs d] assms slist_haddr [OF assms(2)]
  by (simp add: n_slist_remove_all_def)

text \<open>Taking a link out without freeing it leaves it as a list of its own.\<close>

lemma slist_detach:
  assumes "wf_heap h" and "slist h p (ys @ x # xs)"
  shows "\<exists>t h1 h'. load h (fst x) = Some t \<and> fst x \<noteq> 0 \<and> snext t = haddr xs
    \<and> (if laddr ys \<noteq> NULL then modify h (laddr ys) (\<lambda>n. n\<lparr>snext := snext t\<rparr>) else Some h) = Some h1
    \<and> modify h1 (fst x) (\<lambda>n. n\<lparr>snext := NULL\<rparr>) = Some h' \<and> hstep (addrs (ys @ [x])) 0 h h'
    \<and> (if p = fst x then map_option snext (load h1 p) else Some p)
        = Some (haddr (ys @ xs))
    \<and> slist h' (haddr (ys @ xs)) (ys @ xs) \<and> slist h' (fst x) [x] \<and> (laddr ys = 0 \<longleftrightarrow> ys = [])"
proof -
  have x0: "fst x \<noteq> 0" using slist_cells [OF assms(2), of "fst x"] by auto
  have d: "distinct (map fst (ys @ x # xs))" by (rule slist_distinct [OF assms(2)])
  show ?thesis
  proof (cases ys rule: rev_cases)
    case Nil
    then obtain t where t: "x = (p, sdata t)" "cells h p = Some t" "load h p = Some t" "slist h (snext t) xs"
      using assms(2) by (auto elim: slist_ConsE)
    obtain h' where h': "modify h p (\<lambda>n. n\<lparr>snext := 0\<rparr>) = Some h'" "hstep {p} 0 h h'"
      "cells h' = (cells h)(p \<mapsto> t\<lparr>snext := 0\<rparr>)"
      using modify_ok [OF assms(1) t(2), of "\<lambda>n. n\<lparr>snext := 0\<rparr>"] by blast
    have "slist h' (snext t) xs"
      by (rule slist_hstep [OF t(4) h'(2)]) (use d Nil t(1) in auto)
    then show ?thesis using t x0 Nil slist_haddr [OF t(4)] h'
      by (auto simp: t(1) slist_Cons)
  next
    case (snoc zs y)
    obtain t h1 where t: "load h (fst x) = Some t" "sdata t = snd x" "snext t = haddr xs"
      "modify h (fst y) (\<lambda>n. n\<lparr>snext := snext t\<rparr>) = Some h1" "hstep {fst y} 0 h h1"
      "slist h1 p (zs @ y # xs)" "cells h1 (fst x) = Some t"
      using slist_unlink [of h p zs y x xs] assms snoc by auto
    obtain h' where h': "modify h1 (fst x) (\<lambda>n. n\<lparr>snext := 0\<rparr>) = Some h'" "hstep {fst x} 0 h1 h'"
      "cells h' = (cells h1)(fst x \<mapsto> t\<lparr>snext := 0\<rparr>)"
      using modify_ok [OF hstep_wf [OF t(5)] t(7), of "\<lambda>n. n\<lparr>snext := 0\<rparr>"] by blast
    have s: "slist h' p (zs @ y # xs)"
      by (rule slist_hstep [OF t(6) h'(2)]) (use d snoc in auto)
    have "p \<noteq> fst x" using assms(2) d snoc slist_haddr [OF assms(2)] by (cases zs) auto
    moreover have "hstep (addrs (ys @ [x])) 0 h h'"
      by (rule hstep_trans2 [OF t(5) h'(2)]) (auto simp: snoc)
    moreover have "fst y \<noteq> 0" using slist_cells [OF assms(2), of "fst y"] snoc by auto
    moreover have "slist h' (fst x) [x]" using x0 t h' by (simp add: slist_Cons)
    moreover have "haddr (ys @ xs) = p" using slist_haddr [OF s] snoc by simp
    ultimately show ?thesis using t h' x0 s snoc by auto
  qed
qed

lemma n_slist_remove_link_loop_spec:
  "wf_heap h \<Longrightarrow> slist h p (ys @ xs) \<Longrightarrow> l \<notin> addrs ys \<Longrightarrow>
   \<exists>h' p'. n_slist_remove_link_loop h p l (haddr xs) (laddr ys) = Some (h', p')
     \<and> hstep (addrs (ys @ xs)) 0 h h' \<and> slist h' p' (ys @ remove_first (\<lambda>x. fst x = l) xs)
     \<and> (\<forall>x \<in> set xs. fst x = l \<longrightarrow> slist h' l [x])"
proof (induction xs arbitrary: ys)
  case Nil
  then show ?case by (simp add: n_slist_remove_link_loop.simps hstep_refl)
next
  case (Cons x xs)
  obtain t h1 h' where t: "load h (fst x) = Some t" "fst x \<noteq> 0"
    "(if laddr ys \<noteq> NULL then modify h (laddr ys) (\<lambda>n. n\<lparr>snext := snext t\<rparr>) else Some h) = Some h1"
    "modify h1 (fst x) (\<lambda>n. n\<lparr>snext := NULL\<rparr>) = Some h'" "hstep (addrs (ys @ [x])) 0 h h'"
    "(if p = fst x then map_option snext (load h1 p) else Some p) = Some (haddr (ys @ xs))"
    "slist h' (haddr (ys @ xs)) (ys @ xs)" "slist h' (fst x) [x]" "snext t = haddr xs"
    using slist_detach [OF Cons.prems(1,2)] by blast
  show ?case
  proof (cases "fst x = l")
    case True
    have "n_slist_remove_link_loop h p l (haddr (x # xs)) (laddr ys) = Some (h', haddr (ys @ xs))"
      using t True unfolding n_slist_remove_link_loop.simps [of h p l "haddr (x # xs)"] by simp
    moreover have "hstep (addrs (ys @ x # xs)) 0 h h'"
      by (rule hstep_mono [OF t(5)]) auto
    moreover have "\<forall>z \<in> set xs. fst z \<noteq> l"
    proof -
      have "fst x \<notin> addrs xs" using slist_distinct [OF Cons.prems(2)] by simp
      then show ?thesis using True by (metis image_eqI)
    qed
    ultimately show ?thesis using t(7,8) True by auto
  next
    case False
    have "slist h p ((ys @ [x]) @ xs)" "l \<notin> addrs (ys @ [x])" using Cons.prems(2,3) False by auto
    from Cons.IH [OF Cons.prems(1) this] show ?thesis
      using False t by (simp add: n_slist_remove_link_loop.simps [of h p l "fst x"])
  qed
qed

lemma n_slist_remove_link_spec:
  assumes "wf_heap h" and "slist h p xs"
  shows "\<exists>h' p'. n_slist_remove_link h p l = Some (h', p') \<and> hstep (addrs xs) 0 h h'
    \<and> slist h' p' (remove_first (\<lambda>x. fst x = l) xs) \<and> (\<forall>x \<in> set xs. fst x = l \<longrightarrow> slist h' l [x])"
  using n_slist_remove_link_loop_spec [of h p "[]" xs l] assms slist_haddr [OF assms(2)]
  by (simp add: n_slist_remove_link_def n_slist_remove_link_static_def)

lemma remove_first_notin: "distinct (map f xs) \<Longrightarrow> y \<in> set (remove_first (\<lambda>x. f x = l) xs) \<Longrightarrow> f y \<noteq> l"
  by (induction xs) (auto split: if_splits, metis image_eqI)

lemma n_slist_delete_link_spec:
  assumes "wf_heap h" and "slist h p xs" and "l \<in> addrs xs"
  shows "\<exists>h' p'. n_slist_delete_link h p l = Some (h', p') \<and> hstep (addrs xs) 0 h h'
    \<and> slist h' p' (remove_first (\<lambda>x. fst x = l) xs) \<and> cells h' l = None"
proof -
  obtain x where x: "x \<in> set xs" "fst x = l" using assms(3) by auto
  obtain h1 p' where h1: "n_slist_remove_link h p l = Some (h1, p')" "hstep (addrs xs) 0 h h1"
    "slist h1 p' (remove_first (\<lambda>x. fst x = l) xs)" "slist h1 l [x]"
    using n_slist_remove_link_spec [OF assms(1,2), of l] x by blast
  obtain t where t: "cells h1 l = Some t" using h1(4) by (auto simp: slist_Cons)
  have "l \<notin> addrs (remove_first (\<lambda>x. fst x = l) xs)"
    using remove_first_notin [OF slist_distinct [OF assms(2)]] by blast
  then obtain h' where h': "n_slist_free_1 h1 l = Some h'" "hstep {l} 0 h1 h'"
    "slist h' p' (remove_first (\<lambda>x. fst x = l) xs)" "cells h' l = None"
    using slist_dealloc [OF hstep_wf [OF h1(2)] h1(3) t] by blast
  have "hstep (addrs xs) 0 h h'"
    by (rule hstep_trans2 [OF h1(2) h'(2)]) (use assms(3) in auto)
  then show ?thesis using h1(1) h' by (simp add: n_slist_delete_link_def n_slist_remove_link_def n_slist_free_1_def)
qed

section \<open>Copying\<close>

definition fresh_copy ::
  "('d option \<Rightarrow> 'd option) \<Rightarrow> ptr \<Rightarrow> (ptr \<times> 'd option) list \<Rightarrow> (ptr \<times> 'd option) list" where
  "fresh_copy g b xs = zip [b ..< b + length xs] (map (\<lambda>x. g (snd x)) xs)"

lemma fresh_copy_simps [simp]:
  "fresh_copy g b [] = []" "fresh_copy g b (x # xs) = (b, g (snd x)) # fresh_copy g (Suc b) xs"
  by (simp_all add: fresh_copy_def upt_conv_Cons del: upt.simps)

lemma addrs_fresh_copy: "addrs (fresh_copy g b xs) = {b ..< b + length xs}"
  by (induction xs arbitrary: b) auto

lemma data_fresh_copy: "map snd (fresh_copy g b xs) = map (\<lambda>x. g (snd x)) xs"
  by (induction xs arbitrary: b) auto

lemma n_slist_copy_deep_loop_spec:
  "wf_heap h \<Longrightarrow> length xs \<le> avail h \<Longrightarrow> slist h p xs \<Longrightarrow> sseg (cells h) b (bs @ [y]) q \<Longrightarrow>
   distinct (map fst (bs @ [y])) \<Longrightarrow> addrs (bs @ [y]) \<inter> addrs xs = {} \<Longrightarrow>
   \<exists>h' q'. n_slist_copy_deep_loop func u h p (fst y)
       = Some (h', laddr (bs @ y # fresh_copy (copy_data func u) (brk h) xs))
     \<and> hstep ({fst y} \<union> {brk h ..< brk h + length xs}) (length xs) h h'
     \<and> sseg (cells h') b (bs @ y # fresh_copy (copy_data func u) (brk h) xs) q'"
proof (induction xs arbitrary: h p bs y q)
  case Nil
  then show ?case by (auto simp: n_slist_copy_deep_loop.simps hstep_refl)
next
  case (Cons x xs)
  let ?d = "copy_data func u (snd x)"
  obtain h0 where h0: "malloc h = (h0, brk h)" "brk h \<noteq> 0" "cells h (brk h) = None"
    "cells h0 = (cells h)(brk h \<mapsto> junk h)" "wf_heap h0" "brk h0 = Suc (brk h)"
    "avail h0 = avail h - 1" "junk h0 = junk h"
    using malloc_ok [of h] Cons.prems(1,2) by auto
  have fresh: "brk h \<notin> addrs (bs @ [y])" "brk h \<notin> addrs (x # xs)"
    using sseg_dom [OF Cons.prems(4)] slist_fresh [OF Cons.prems(1,3)] h0(3) by auto
  obtain n where n: "cells h (fst y) = Some n" "fst y \<noteq> 0"
    using sseg_split_last [OF Cons.prems(4)] by auto
  obtain h1 where h1: "modify h0 (fst y) (\<lambda>n. n\<lparr>snext := brk h\<rparr>) = Some h1" "hstep {fst y} 0 h0 h1"
    "cells h1 = (cells h0)(fst y \<mapsto> n\<lparr>snext := brk h\<rparr>)"
    using modify_ok [OF h0(5), of "fst y" n] h0(4) n fresh by auto
  have s01: "hstep {brk h, fst y} 1 h h1"
    using h0 h1 by (auto simp: hstep_def)
  obtain t where t: "x = (p, sdata t)" "p \<noteq> 0" "cells h p = Some t" "slist h (snext t) xs"
    using Cons.prems(3) by (rule slist_ConsE)
  have p1: "load h1 p = Some t"
    using hstep_cells [OF s01, of p] t fresh Cons.prems(6) by (auto simp: load_def)
  obtain h2 where h2: "modify h1 (brk h) (\<lambda>n. n\<lparr>sdata := ?d\<rparr>) = Some h2" "hstep {brk h} 0 h1 h2"
    "cells h2 = (cells h1)(brk h \<mapsto> (junk h)\<lparr>sdata := ?d\<rparr>)"
    using modify_ok [OF hstep_wf [OF h1(2)], of "brk h" "junk h"] h0(4) h1(3) fresh by auto
  have s02: "hstep {brk h, fst y} 1 h h2"
    by (rule hstep_trans2 [OF s01 h2(2)]) auto
  have "sseg (cells h1) b (bs @ [y]) (brk h)"
    unfolding h1(3) by (rule sseg_relink [where q = q]) (use Cons.prems(4,5) h0(4) n fresh in auto)
  then have "sseg (cells h2) b (bs @ [y]) (brk h)"
    using fresh by (simp add: h2(3))
  then have seg: "sseg (cells h2) b ((bs @ [y]) @ [(brk h, ?d)]) (snext (junk h))"
    using h0(2) by (subst sseg_append) (auto simp: h2(3) sseg_Cons_iff)
  have xs2: "slist h2 (snext t) xs"
    by (rule slist_hstep [OF t(4) s02]) (use fresh Cons.prems(6) in auto)
  have b2: "brk h2 = Suc (brk h)" "avail h2 = avail h - 1" using s02 by (auto simp: hstep_def)
  have le: "length xs \<le> avail h2" using Cons.prems(2) by (simp add: b2)
  obtain h' q' where h': "n_slist_copy_deep_loop func u h2 (snext t) (brk h)
      = Some (h', laddr ((bs @ [y]) @ (brk h, ?d) # fresh_copy (copy_data func u) (Suc (brk h)) xs))"
    "hstep ({brk h} \<union> {Suc (brk h) ..< Suc (brk h) + length xs}) (length xs) h2 h'"
    "sseg (cells h') b ((bs @ [y]) @ (brk h, ?d) # fresh_copy (copy_data func u) (Suc (brk h)) xs) q'"
    using Cons.IH [OF hstep_wf [OF s02] le xs2 seg] b2 Cons.prems(5,6) fresh by auto
  have "hstep ({fst y} \<union> {brk h ..< brk h + length (x # xs)}) (length (x # xs)) h h'"
    by (rule hstep_trans2 [OF s02 h'(2)]) auto
  moreover have "n_slist_copy_deep_loop func u h p (fst y) = n_slist_copy_deep_loop func u h2 (snext t) (brk h)"
    using t(1,2) h0(1) h1(1) h2(1) p1
    by (simp add: n_slist_copy_deep_loop.simps [of func u h p] n_slice_alloc_def)
  ultimately show ?case using h' by auto
qed

lemma n_slist_copy_deep_spec:
  assumes "wf_heap h" and "length xs \<le> avail h" and "slist h p xs"
  shows "\<exists>h' p'. n_slist_copy_deep func u h p = Some (h', p')
    \<and> hstep {brk h ..< brk h + length xs} (length xs) h h'
    \<and> slist h' p' (fresh_copy (copy_data func u) (brk h) xs)"
proof (cases xs)
  case Nil
  then show ?thesis using assms by (auto simp: n_slist_copy_deep_def hstep_refl)
next
  case (Cons x ys)
  let ?d = "copy_data func u (snd x)" and ?fc = "fresh_copy (copy_data func u)"
  obtain t where t: "x = (p, sdata t)" "p \<noteq> 0" "cells h p = Some t" "slist h (snext t) ys"
    using assms(3) [unfolded Cons] by (rule slist_ConsE)
  obtain h0 h1 where h1: "n_slice_alloc h = (h0, brk h)"
    "modify h0 (brk h) (\<lambda>n. n\<lparr>sdata := ?d\<rparr>) = Some h1" "hstep {brk h} 1 h h1"
    "cells h1 (brk h) = Some ((junk h)\<lparr>sdata := ?d\<rparr>)" "brk h \<noteq> 0" "hstep {brk h} 1 h h0"
    using alloc_data [of h ?d] assms(1,2) Cons by auto
  have fresh: "brk h \<notin> addrs xs" by (rule slist_fresh [OF assms(1,3)])
  have ys1: "slist h1 (snext t) ys"
    by (rule slist_hstep [OF t(4) h1(3)]) (use fresh Cons in auto)
  have seg: "sseg (cells h1) (brk h) ([] @ [(brk h, ?d)]) (snext (junk h))"
    using h1(4,5) by (simp add: sseg_Cons_iff)
  have b1: "brk h1 = Suc (brk h)" "avail h1 = avail h - 1" using h1(3) by (auto simp: hstep_def)
  have le: "length ys \<le> avail h1" using assms(2) Cons by (simp add: b1)
  obtain h2 q where h2: "n_slist_copy_deep_loop func u h1 (snext t) (brk h)
      = Some (h2, laddr ((brk h, ?d) # ?fc (Suc (brk h)) ys))"
    "hstep ({brk h} \<union> {Suc (brk h) ..< Suc (brk h) + length ys}) (length ys) h1 h2"
    "sseg (cells h2) (brk h) ((brk h, ?d) # ?fc (Suc (brk h)) ys) q"
    using n_slist_copy_deep_loop_spec [OF hstep_wf [OF h1(3)] le ys1 seg, of func u] b1 fresh Cons by auto
  have e: "(brk h, ?d) # ?fc (Suc (brk h)) ys = ?fc (brk h) xs" using Cons by simp
  obtain zs z where z: "?fc (brk h) xs = zs @ [z]" using e by (metis rev_exhaust list.distinct(1))
  have zin: "fst z \<in> {brk h ..< brk h + length xs}"
    using addrs_fresh_copy [of "copy_data func u" "brk h" xs] z by auto
  obtain n where n: "cells h2 (fst z) = Some n" "fst z \<noteq> 0"
    using sseg_split_last [OF h2(3)] unfolding e z by auto
  obtain h' where h': "modify h2 (fst z) (\<lambda>n. n\<lparr>snext := 0\<rparr>) = Some h'" "hstep {fst z} 0 h2 h'"
    "cells h' = (cells h2)(fst z \<mapsto> n\<lparr>snext := 0\<rparr>)"
    using modify_ok [OF hstep_wf [OF h2(2)] n(1), of "\<lambda>n. n\<lparr>snext := 0\<rparr>"] by blast
  have dist: "distinct (map fst (?fc (brk h) xs))" by (simp add: fresh_copy_def)
  have "slist h' (brk h) (?fc (brk h) xs)"
    using sseg_relink [of "cells h2" "brk h" zs z q n 0] h2(3) dist n(1)
    unfolding e z slist_def h'(3) by simp
  moreover have st: "hstep {brk h ..< brk h + length xs} (length xs) h h2"
    by (rule hstep_trans2 [OF h1(3) h2(2)]) (auto simp: Cons)
  have "hstep {brk h ..< brk h + length xs} (length xs) h h'"
    by (rule hstep_trans2 [OF st h'(2)]) (use zin in auto)
  moreover have "load h0 p = Some t"
    using hstep_cells [OF h1(6), of p] t fresh Cons by (auto simp: load_def)
  then have "n_slist_copy_deep func u h p = Some (h', brk h)"
    using t(1,2) h1(1,2) h2(1) h'(1) unfolding e z by (simp add: n_slist_copy_deep_def)
  ultimately show ?thesis by blast
qed

end
