(* ===== verification/Slist_Sort.thy ===== *)
theory Slist_Sort
  imports Slist_Spec
begin

text \<open>
  The heap merge sort and the sorted insertion of util/nlist.c for singly linked lists refine the
  list functions of Compare.thy: the same nodes, relinked, in the order \<open>cmsort\<close> and \<open>cinsert\<close>
  compute.
\<close>

section \<open>The comparison on nodes\<close>

definition node_cmp :: "('d, 'u) compare_data_func \<Rightarrow> 'u \<Rightarrow> ptr \<times> 'd option \<Rightarrow> ptr \<times> 'd option \<Rightarrow> int" where
  "node_cmp func u x y = func (snd x) (snd y) u"

section \<open>Merging\<close>

text \<open>The part built so far hangs off \<open>head\<close>; the link out of its last node is still open.\<close>

definition built :: "'d sheap \<Rightarrow> ptr \<Rightarrow> (ptr \<times> 'd option) list \<Rightarrow> bool" where
  "built h head bs \<longleftrightarrow> (bs \<noteq> [] \<longrightarrow> (\<exists>q. sseg (cells h) head bs q))"

lemma slink_spec:
  assumes "wf_heap h" and "built h head bs" and "distinct (map fst bs)" and "slist h r zs"
    and "addrs bs \<inter> addrs zs = {}"
  shows "\<exists>h'. slink h head (laddr bs) r = Some (h', if bs = [] then r else head)
    \<and> hstep (addrs bs) 0 h h' \<and> slist h' (if bs = [] then r else head) (bs @ zs)"
proof (cases bs rule: rev_cases)
  case Nil
  then show ?thesis using assms by (simp add: slink_def hstep_refl)
next
  case (snoc as x)
  obtain q where q: "sseg (cells h) head (as @ [x]) q"
    using assms(2) snoc by (auto simp: built_def)
  obtain n where n: "cells h (fst x) = Some n" "fst x \<noteq> 0"
    using sseg_split_last [OF q] by auto
  obtain h' where h': "modify h (fst x) (\<lambda>n. n\<lparr>snext := r\<rparr>) = Some h'" "hstep {fst x} 0 h h'"
    "cells h' = (cells h)(fst x \<mapsto> n\<lparr>snext := r\<rparr>)"
    using modify_ok [OF assms(1) n(1), of "\<lambda>n. n\<lparr>snext := r\<rparr>"] by blast
  have "sseg (cells h') head (as @ [x]) r"
    unfolding h'(3) by (rule sseg_relink [OF q _ n(1)]) (use assms(3) snoc in simp)
  moreover have "slist h' r zs"
    by (rule slist_hstep [OF assms(4) h'(2)]) (use assms(5) snoc in auto)
  ultimately have "slist h' head ((as @ [x]) @ zs)"
    unfolding slist_def by (subst sseg_append) blast
  moreover have "hstep (addrs bs) 0 h h'"
    by (rule hstep_mono [OF h'(2)]) (simp add: snoc)
  ultimately show ?thesis using h'(1) n(2) snoc by (simp add: slink_def)
qed

lemma n_slist_sort_merge_loop_spec:
  "wf_heap h \<Longrightarrow> built h head bs \<Longrightarrow> slist h l1 xs \<Longrightarrow> slist h l2 ys \<Longrightarrow>
   distinct (map fst (bs @ xs @ ys)) \<Longrightarrow>
   \<exists>h' r. n_slist_sort_merge_loop func u h head (laddr bs) l1 l2 = Some (h', r)
     \<and> hstep (addrs (bs @ xs @ ys)) 0 h h' \<and> slist h' r (bs @ cmerge (node_cmp func u) xs ys)"
proof (induction xs ys arbitrary: h head bs l1 l2 rule: cmerge_induct [of _ "node_cmp func u"])
  case (Nil1 ys)
  have l1: "l1 = 0" using Nil1(3) by simp
  obtain h' where "slink h head (laddr bs) l2 = Some (h', if bs = [] then l2 else head)"
    "hstep (addrs bs) 0 h h'" "slist h' (if bs = [] then l2 else head) (bs @ ys)"
    using slink_spec [OF Nil1(1,2) _ Nil1(4)] Nil1(5) by auto
  then show ?case using l1 hstep_mono [of "addrs bs" 0 h h' "addrs (bs @ [] @ ys)"]
    by (auto simp: n_slist_sort_merge_loop.simps [of func u h head "laddr bs" 0])
next
  case (Nil2 x xs)
  obtain h' where "slink h head (laddr bs) l1 = Some (h', if bs = [] then l1 else head)"
    "hstep (addrs bs) 0 h h'" "slist h' (if bs = [] then l1 else head) (bs @ x # xs)"
    using slink_spec [OF Nil2(1,2) _ Nil2(3)] Nil2(5) by auto
  moreover have "l1 \<noteq> 0" using Nil2(3) by (cases "l1 = 0") auto
  ultimately show ?case using Nil2(4) hstep_mono [of "addrs bs" 0 h h' "addrs (bs @ (x # xs) @ [])"]
    by (auto simp: n_slist_sort_merge_loop.simps [of func u h head "laddr bs" l1])
next
  case (Cons x xs y ys)
  obtain a where a: "x = (l1, sdata a)" "l1 \<noteq> 0" "cells h l1 = Some a" "load h l1 = Some a"
    "slist h (snext a) xs"
    using Cons.prems(3) by (rule slist_ConsE)
  obtain b where b: "y = (l2, sdata b)" "l2 \<noteq> 0" "cells h l2 = Some b" "load h l2 = Some b"
    "slist h (snext b) ys"
    using Cons.prems(4) by (rule slist_ConsE)
  show ?case
  proof (cases "node_cmp func u x y \<le> 0")
    case True
    have dj: "distinct (map fst bs)" "addrs bs \<inter> addrs (x # xs) = {}" using Cons.prems(5) by auto
    obtain h1 where h1: "slink h head (laddr bs) l1 = Some (h1, if bs = [] then l1 else head)"
      "hstep (addrs bs) 0 h h1" "slist h1 (if bs = [] then l1 else head) (bs @ x # xs)"
      using slink_spec [OF Cons.prems(1,2) dj(1) Cons.prems(3) dj(2)] by auto
    let ?hd = "if bs = [] then l1 else head"
    obtain a' where a': "load h1 l1 = Some a'" "slist h1 (snext a') xs"
      using slist_after [OF h1(3)] a(1) by auto
    have bl: "built h1 ?hd (bs @ [x])"
      using slist_suffix [of h1 ?hd "bs @ [x]" xs] h1(3) by (auto simp: built_def)
    have s2: "slist h1 l2 (y # ys)"
      by (rule slist_hstep [OF Cons.prems(4) h1(2)]) (use Cons.prems(5) in auto)
    obtain h' r where h': "n_slist_sort_merge_loop func u h1 ?hd (laddr (bs @ [x])) (snext a') l2 = Some (h', r)"
      "hstep (addrs ((bs @ [x]) @ xs @ y # ys)) 0 h1 h'"
      "slist h' r ((bs @ [x]) @ cmerge (node_cmp func u) xs (y # ys))"
      using Cons.IH(1) [OF True hstep_wf [OF h1(2)] bl a'(2) s2] Cons.prems(5) by auto
    have "hstep (addrs (bs @ (x # xs) @ y # ys)) 0 h h'"
      by (rule hstep_trans2 [OF h1(2) h'(2)]) auto
    moreover have "func (sdata a) (sdata b) u \<le> 0" "fst x = l1" using True a(1) b(1) by (simp_all add: node_cmp_def)
    ultimately show ?thesis using h' h1(1) a(2,4) a'(1) b(2,4) True
      by (auto simp: n_slist_sort_merge_loop.simps [of func u h head "laddr bs" l1])
  next
    case False
    have dj: "distinct (map fst bs)" "addrs bs \<inter> addrs (y # ys) = {}" using Cons.prems(5) by auto
    obtain h1 where h1: "slink h head (laddr bs) l2 = Some (h1, if bs = [] then l2 else head)"
      "hstep (addrs bs) 0 h h1" "slist h1 (if bs = [] then l2 else head) (bs @ y # ys)"
      using slink_spec [OF Cons.prems(1,2) dj(1) Cons.prems(4) dj(2)] by auto
    let ?hd = "if bs = [] then l2 else head"
    obtain b' where b': "load h1 l2 = Some b'" "slist h1 (snext b') ys"
      using slist_after [OF h1(3)] b(1) by auto
    have bl: "built h1 ?hd (bs @ [y])"
      using slist_suffix [of h1 ?hd "bs @ [y]" ys] h1(3) by (auto simp: built_def)
    have s1: "slist h1 l1 (x # xs)"
      by (rule slist_hstep [OF Cons.prems(3) h1(2)]) (use Cons.prems(5) in auto)
    obtain h' r where h': "n_slist_sort_merge_loop func u h1 ?hd (laddr (bs @ [y])) l1 (snext b') = Some (h', r)"
      "hstep (addrs ((bs @ [y]) @ (x # xs) @ ys)) 0 h1 h'"
      "slist h' r ((bs @ [y]) @ cmerge (node_cmp func u) (x # xs) ys)"
      using Cons.IH(2) [OF False hstep_wf [OF h1(2)] bl s1 b'(2)] Cons.prems(5) by auto
    have "hstep (addrs (bs @ (x # xs) @ y # ys)) 0 h h'"
      by (rule hstep_trans2 [OF h1(2) h'(2)]) auto
    moreover have "\<not> func (sdata a) (sdata b) u \<le> 0" "fst y = l2" using False a(1) b(1) by (simp_all add: node_cmp_def)
    ultimately show ?thesis using h' h1(1) a(2,4) b'(1) b(2,4) False
      by (auto simp: n_slist_sort_merge_loop.simps [of func u h head "laddr bs" l1])
  qed
qed

lemma n_slist_sort_merge_spec:
  assumes "wf_heap h" and "slist h l1 xs" and "slist h l2 ys" and "distinct (map fst (xs @ ys))"
  shows "\<exists>h' r. n_slist_sort_merge func u h l1 l2 = Some (h', r) \<and> hstep (addrs (xs @ ys)) 0 h h'
    \<and> slist h' r (cmerge (node_cmp func u) xs ys)"
  using n_slist_sort_merge_loop_spec [OF assms(1) _ assms(2,3), of 0 "[]" func u] assms(4)
  by (simp add: n_slist_sort_merge_def built_def)

section \<open>Splitting\<close>

lemma n_slist_split_loop_spec:
  "slist h l2 zs \<Longrightarrow> slist h l1 xs \<Longrightarrow> zs \<noteq> [] \<Longrightarrow> (length zs - 1) div 2 < length xs \<Longrightarrow>
   n_slist_split_loop h l1 l2 = Some (fst (xs ! ((length zs - 1) div 2)))"
proof (induction zs arbitrary: l1 l2 xs rule: induct_list012)
  case (2 z)
  obtain n where n: "load h l2 = Some n" "snext n = 0"
    using 2(1) by (auto elim: slist_ConsE)
  obtain x ys where xs: "xs = x # ys" using 2 by (cases xs) auto
  then have "fst x = l1" using 2(2) by (simp add: slist_Cons)
  then show ?case using n xs by (simp add: n_slist_split_loop.simps [of h l1])
next
  case (3 z1 z2 zs)
  obtain n1 where n1: "load h l2 = Some n1" "slist h (snext n1) (z2 # zs)"
    using 3(3) by (auto elim: slist_ConsE)
  obtain n2 where n2: "snext n1 \<noteq> 0" "load h (snext n1) = Some n2" "slist h (snext n2) zs"
    using n1(2) by (auto elim: slist_ConsE)
  obtain x ys where xs: "xs = x # ys" using 3(6) by (cases xs) auto
  obtain k where k: "x = (l1, sdata k)" "load h l1 = Some k" "slist h (snext k) ys"
    using 3(4) xs by (auto elim: slist_ConsE)
  show ?case
  proof (cases "zs = []")
    case True
    then show ?thesis using n1 n2 k xs by (simp add: n_slist_split_loop.simps [of h l1])
  next
    case False
    then have nz: "snext n2 \<noteq> 0" using n2(3) by (cases "snext n2 = 0") auto
    have e: "(length (z1 # z2 # zs) - 1) div 2 = Suc ((length zs - 1) div 2)"
      using False by (cases zs) auto
    have "n_slist_split_loop h (snext k) (snext n2) = Some (fst (ys ! ((length zs - 1) div 2)))"
      by (rule "3.IH"(1) [OF n2(3) k(3) False]) (use 3(6) e xs in simp)
    then show ?thesis using n1 n2 k nz xs e by (simp add: n_slist_split_loop.simps [of h l1])
  qed
qed simp

section \<open>Sorting\<close>

lemma n_slist_sort_real_spec:
  "wf_heap h \<Longrightarrow> slist h p xs \<Longrightarrow>
   \<exists>h' r. n_slist_sort_real func u h p = Some (h', r) \<and> hstep (addrs xs) 0 h h'
     \<and> slist h' r (cmsort (node_cmp func u) xs)"
proof (induction xs arbitrary: h p rule: length_induct)
  case (1 xs)
  note wf = 1(2) and sl = 1(3)
  consider "xs = []" | x where "xs = [x]" | x y zs where "xs = x # y # zs"
    by (cases xs; cases "tl xs") auto
  then show ?case
  proof cases
    case 1
    then show ?thesis using sl wf by (simp add: n_slist_sort_real.simps cmsort.simps hstep_refl)
  next
    case (2 x)
    obtain n where "p \<noteq> 0" "load h p = Some n" "snext n = 0"
      using sl 2 by (auto elim: slist_ConsE)
    then show ?thesis using sl wf 2
      by (simp add: n_slist_sort_real.simps [of func u h p] cmsort.simps hstep_refl)
  next
    case (3 x y zs)
    let ?m = "length xs div 2" and ?c = "node_cmp func u"
    have m: "0 < ?m" "?m < length xs" "(length (y # zs) - 1) div 2 = ?m - 1" "\<not> length xs \<le> 1"
      by (auto simp: 3)
    obtain as z where as: "take ?m xs = as @ [z]" using m(1,2)
      by (cases "take ?m xs" rule: rev_cases) auto
    have z: "xs ! (?m - 1) = z" and xs: "xs = as @ z # drop ?m xs"
    proof -
      have la: "length as = ?m - 1" using arg_cong [OF as, of length] m by simp
      show e: "xs = as @ z # drop ?m xs" using append_take_drop_id [of ?m xs] as by simp
      show "xs ! (?m - 1) = z" by (subst e) (simp add: nth_append la)
    qed
    obtain n where n: "p \<noteq> 0" "load h p = Some n" "slist h (snext n) (y # zs)"
      using sl 3 by (auto elim: slist_ConsE)
    have nz: "snext n \<noteq> 0" using n(3) by (cases "snext n = 0") auto
    have split: "n_slist_split_loop h p (snext n) = Some (fst z)"
      using n_slist_split_loop_spec [OF n(3) sl] m z by simp
    obtain k where k: "load h (fst z) = Some k" "slist h (snext k) (drop ?m xs)"
      using slist_after [of h p as z "drop ?m xs"] sl xs by auto
    obtain h1 where h1: "modify h (fst z) (\<lambda>n. n\<lparr>snext := 0\<rparr>) = Some h1" "hstep {fst z} 0 h h1"
      "slist h1 p (take ?m xs)"
      using slist_relink [OF wf, of p as z "drop ?m xs" 0 "[]"] sl xs as by auto
    have d: "distinct (map fst (as @ z # drop ?m xs))" using slist_distinct [OF sl] xs by metis
    have s2: "slist h1 (snext k) (drop ?m xs)"
      by (rule slist_hstep [OF k(2) h1(2)]) (use d in auto)
    have dt: "distinct (map fst (take ?m xs @ drop ?m xs))" using slist_distinct [OF sl] by simp
    then have dj: "addrs (take ?m xs) \<inter> addrs (drop ?m xs) = {}"
      unfolding map_append distinct_append by simp
    obtain h2 a where h2: "n_slist_sort_real func u h1 p = Some (h2, a)"
      "hstep (addrs (take ?m xs)) 0 h1 h2" "slist h2 a (cmsort ?c (take ?m xs))"
      using 1(1) [rule_format, of "take ?m xs" h1 p] m hstep_wf [OF h1(2)] h1(3) by auto
    have s3: "slist h2 (snext k) (drop ?m xs)"
      by (rule slist_hstep [OF s2 h2(2)]) (use dj in auto)
    have lt: "length (drop ?m xs) < length xs" using m by simp
    obtain h3 b where h3: "n_slist_sort_real func u h2 (snext k) = Some (h3, b)"
      "hstep (addrs (drop ?m xs)) 0 h2 h3" "slist h3 b (cmsort ?c (drop ?m xs))"
      using 1(1) [rule_format, OF lt, of h2 "snext k"] hstep_wf [OF h2(2)] s3 by auto
    have s4: "slist h3 a (cmsort ?c (take ?m xs))"
      by (rule slist_hstep [OF h2(3) h3(2)]) (use dj in auto)
    have "mset (map fst (cmsort ?c (take ?m xs) @ cmsort ?c (drop ?m xs)))
        = mset (map fst (take ?m xs @ drop ?m xs))"
      unfolding map_append mset_append mset_map by simp
    then have d4: "distinct (map fst (cmsort ?c (take ?m xs) @ cmsort ?c (drop ?m xs)))"
      using dt mset_eq_imp_distinct_iff by blast
    obtain h' r where h': "n_slist_sort_merge func u h3 a b = Some (h', r)"
      "hstep (addrs (cmsort ?c (take ?m xs) @ cmsort ?c (drop ?m xs))) 0 h3 h'"
      "slist h' r (cmerge ?c (cmsort ?c (take ?m xs)) (cmsort ?c (drop ?m xs)))"
      using n_slist_sort_merge_spec [OF hstep_wf [OF h3(2)] s4 h3(3) d4, of func u] by auto
    have sub: "set (take ?m xs) \<union> set (drop ?m xs) = set xs"
      using set_append [of "take ?m xs" "drop ?m xs"] by simp
    have zx: "fst z \<in> addrs xs" by (subst xs) simp
    have st2: "hstep (addrs xs) 0 h h2"
      by (rule hstep_trans2 [OF h1(2) h2(2)]) (use zx sub in auto)
    have st3: "hstep (addrs xs) 0 h h3"
      by (rule hstep_trans2 [OF st2 h3(2)]) (use sub in auto)
    have "hstep (addrs xs) 0 h h'"
      by (rule hstep_trans2 [OF st3 h'(2)]) (use sub in auto)
    moreover have "n_slist_sort_real func u h p = Some (h', r)"
      using n nz split k h1(1) h2(1) h3(1) h'(1)
      by (simp add: n_slist_sort_real.simps [of func u h p])
    ultimately show ?thesis using h'(3) m(4) by (simp add: cmsort.simps [of ?c xs])
  qed
qed

section \<open>Sorted insertion\<close>

lemma modify_commute:
  assumes "modify h a f = Some h1" and "modify h1 b g = Some h2" and "a \<noteq> b"
  shows "\<exists>h1'. modify h b g = Some h1' \<and> modify h1' a f = Some h2"
proof -
  obtain n where n: "load h a = Some n" "h1 = store h a (f n)"
    using assms(1) by (auto simp: modify_def bind_eq_Some_conv)
  then have a: "a \<noteq> 0" by (cases "a = 0") auto
  obtain m where m: "load h1 b = Some m" "h2 = store h1 b (g m)"
    using assms(2) by (auto simp: modify_def bind_eq_Some_conv)
  then have b: "b \<noteq> 0" by (cases "b = 0") auto
  have "load h b = Some m" using m(1) n(2) assms(3) b by simp
  moreover have "store (store h a (f n)) b (g m) = store (store h b (g m)) a (f n)"
    using assms(3) by (simp add: store_def fun_upd_twist)
  ultimately show ?thesis using n m a assms(3) by (simp add: modify_def)
qed

definition before :: "('d, 'u) compare_data_func \<Rightarrow> 'u \<Rightarrow> 'd option \<Rightarrow> ptr \<times> 'd option \<Rightarrow> bool" where
  "before func u d y \<longleftrightarrow> func d (snd y) u > 0"

lemma n_slist_insert_sorted_loop_spec:
  "slist h p (x # xs) \<Longrightarrow>
   \<exists>pv t c. n_slist_insert_sorted_loop func u d h prev p (func d (snd x) u) = Some (pv, t, c) \<and>
     (case dropWhile (before func u d) (x # xs) of
        [] \<Rightarrow> t = fst (last (x # xs)) \<and> c > 0
      | z # _ \<Rightarrow> t = fst z \<and> \<not> c > 0 \<and>
          pv = (if takeWhile (before func u d) (x # xs) = [] then prev
                else fst (last (takeWhile (before func u d) (x # xs)))))"
proof (induction xs arbitrary: p x prev)
  case Nil
  then obtain n where "x = (p, sdata n)" "load h p = Some n" "snext n = 0"
    by (auto elim: slist_ConsE)
  then show ?case
    by (auto simp: n_slist_insert_sorted_loop.simps [of func u d h prev p] before_def)
next
  case (Cons y ys)
  obtain n where n: "x = (p, sdata n)" "load h p = Some n" "slist h (snext n) (y # ys)"
    using Cons.prems by (rule slist_ConsE)
  obtain m where m: "y = (snext n, sdata m)" "load h (snext n) = Some m" "snext n \<noteq> 0"
    using n(3) by (rule slist_ConsE)
  show ?case
  proof (cases "before func u d x")
    case True
    obtain pv t c where "n_slist_insert_sorted_loop func u d h p (snext n) (func d (snd y) u) = Some (pv, t, c)"
      "case dropWhile (before func u d) (y # ys) of
        [] \<Rightarrow> t = fst (last (y # ys)) \<and> c > 0
      | z # _ \<Rightarrow> t = fst z \<and> \<not> c > 0 \<and>
          pv = (if takeWhile (before func u d) (y # ys) = [] then p
                else fst (last (takeWhile (before func u d) (y # ys))))"
      using Cons.IH [OF n(3), of p] by blast
    moreover have "n_slist_insert_sorted_loop func u d h prev p (func d (snd x) u)
        = n_slist_insert_sorted_loop func u d h p (snext n) (func d (snd y) u)"
      using True n(1,2) m by (simp add: n_slist_insert_sorted_loop.simps [of func u d h prev p] before_def)
    moreover have e: "dropWhile (before func u d) (x # y # ys) = dropWhile (before func u d) (y # ys)"
      "takeWhile (before func u d) (x # y # ys) = x # takeWhile (before func u d) (y # ys)"
      "last (x # y # ys) = last (y # ys)" "fst x = p"
      using True n(1) by (simp_all only: dropWhile.simps takeWhile.simps last.simps if_True) auto
    ultimately show ?thesis unfolding e
      by (cases "dropWhile (before func u d) (y # ys)")
        (auto simp del: dropWhile.simps takeWhile.simps last.simps dropWhile_eq_Nil_conv simp: last_ConsR e(4) last_ConsL)
  next
    case False
    then show ?thesis using n m(3)
      by (simp add: n_slist_insert_sorted_loop.simps [of func u d h prev p] before_def)
  qed
qed

lemma n_slist_insert_sorted_real_spec:
  assumes "wf_heap h" and "0 < avail h" and "slist h p xs"
  shows "\<exists>h' r. n_slist_insert_sorted_real func u h p d = Some (h', r)
    \<and> hstep (insert (brk h) (addrs xs)) 1 h h' \<and> slist h' r (cinsert (node_cmp func u) (brk h, d) xs)"
proof (cases xs)
  case Nil
  obtain h0 h1 h2 where "n_slice_alloc h = (h0, brk h)"
    "modify h0 (brk h) (\<lambda>n. n\<lparr>sdata := d\<rparr>) = Some h1"
    "modify h1 (brk h) (\<lambda>n. n\<lparr>snext := 0\<rparr>) = Some h2" "hstep {brk h} 1 h h2"
    "slist h2 (brk h) [(brk h, d)]"
    using alloc_node [OF assms(1,2), of d 0] by (metis slist_NULL)
  then show ?thesis using Nil assms(3) by (simp add: n_slist_insert_sorted_real_def cinsert_def)
next
  case (Cons x ys)
  let ?P = "before func u d" and ?b = "brk h"
  have P: "(\<lambda>y. node_cmp func u (?b, d) y > 0) = ?P" by (simp add: fun_eq_iff before_def node_cmp_def)
  obtain n where n: "x = (p, sdata n)" "p \<noteq> 0" "load h p = Some n"
    using assms(3) Cons by (auto elim: slist_ConsE)
  obtain pv t c where l: "n_slist_insert_sorted_loop func u d h 0 p (func d (sdata n) u) = Some (pv, t, c)"
    "case dropWhile ?P xs of [] \<Rightarrow> t = fst (last xs) \<and> c > 0
      | z # _ \<Rightarrow> t = fst z \<and> \<not> c > 0 \<and> pv = (if takeWhile ?P xs = [] then 0 else fst (last (takeWhile ?P xs)))"
    using n_slist_insert_sorted_loop_spec [of h p x ys func u d 0] assms(3) n(1) unfolding Cons by auto
  have fr: "?b \<notin> addrs xs" by (rule slist_fresh [OF assms(1,3)])
  obtain h0 h1 where h1: "n_slice_alloc h = (h0, ?b)"
    "modify h0 ?b (\<lambda>n. n\<lparr>sdata := d\<rparr>) = Some h1" "hstep {?b} 1 h h1"
    "cells h1 ?b = Some ((junk h)\<lparr>sdata := d\<rparr>)"
    using alloc_data [OF assms(1,2)] by blast
  have s1: "slist h1 p xs"
    by (rule slist_hstep [OF assms(3) h1(3)]) (use fr in auto)
  have eq: "xs = takeWhile ?P xs @ dropWhile ?P xs" by simp
  show ?thesis
  proof (cases "takeWhile ?P xs" rule: rev_cases)
    case Nil
    then have d: "dropWhile ?P xs = xs" using eq by simp
    obtain h0 h1 h2 where a: "n_slice_alloc h = (h0, ?b)"
      "modify h0 ?b (\<lambda>n. n\<lparr>sdata := d\<rparr>) = Some h1" "modify h1 ?b (\<lambda>n. n\<lparr>snext := p\<rparr>) = Some h2"
      "hstep {?b} 1 h h1" "hstep {?b} 1 h h2" "slist h2 ?b ((?b, d) # xs)"
      using alloc_node [OF assms(1,2), of d p] assms(3) by metis
    have "load h1 p = Some n"
      using hstep_cells [OF a(4), of p] n fr Cons by (auto simp: load_def)
    moreover have "t = p" "\<not> c > 0" "pv = 0" using l(2) Nil d Cons n(1) by auto
    ultimately have "n_slist_insert_sorted_real func u h p d = Some (h2, ?b)"
      using a(1-3) l(1) n by (simp add: n_slist_insert_sorted_real_def)
    moreover have "hstep (insert ?b (addrs xs)) 1 h h2"
      by (rule hstep_mono [OF a(5)]) auto
    ultimately show ?thesis using a(6) Nil d by (simp add: cinsert_def P)
  next
    case (snoc as w)
    obtain D where D: "dropWhile ?P xs = D" by simp
    have xs: "xs = as @ w # D" using eq snoc D by simp
    note l2 = l(2) [unfolded D]
    obtain k h2 h3 where k: "load h1 (fst w) = Some k"
      "modify h1 ?b (\<lambda>m. m\<lparr>snext := snext k\<rparr>) = Some h2"
      "modify h2 (fst w) (\<lambda>n. n\<lparr>snext := ?b\<rparr>) = Some h3"
      "hstep {?b, fst w} 0 h1 h3" "slist h3 p (as @ w # (?b, d) # D)"
      using slist_insert_after [OF hstep_wf [OF h1(3)] s1 [unfolded xs] h1(4)] fr xs by auto
    have wx: "fst w \<in> addrs xs" by (simp add: xs)
    then obtain h2' where h2': "modify h1 (fst w) (\<lambda>n. n\<lparr>snext := ?b\<rparr>) = Some h2'"
      "modify h2' ?b (\<lambda>m. m\<lparr>snext := snext k\<rparr>) = Some h3"
      using modify_commute [OF k(2,3)] fr by metis
    have kd: "slist h1 (snext k) (D)"
      using slist_after [of h1 p as w "D"] s1 xs k(1) by auto
    have w0: "fst w \<noteq> 0" using slist_cells [OF assms(3) wx] by auto
    have "n_slist_insert_sorted_real func u h p d = Some (h3, p)"
    proof (cases D)
      case Nil
      then have "last xs = w" by (simp add: xs)
      then have "t = fst w" "c > 0" "snext k = 0" using l2 Nil kd by auto
      then show ?thesis using n h1(1,2) h2' k(1) l(1) by (simp add: n_slist_insert_sorted_real_def)
    next
      case (Cons z zs)
      have t: "t = fst z" "\<not> c > 0" "pv = fst w" using l2 Cons snoc by auto
      obtain m where m: "load h1 (fst z) = Some m" "snext k = fst z"
        using kd Cons by (auto elim!: slist_ConsE)
      then show ?thesis using n h1(1,2) h2' t l(1) w0 by (simp add: n_slist_insert_sorted_real_def)
    qed
    moreover have "hstep (insert ?b (addrs xs)) 1 h h3"
      by (rule hstep_trans2 [OF h1(3) k(4)]) (use wx in auto)
    ultimately show ?thesis using k(5) snoc D by (auto simp: cinsert_def P)
  qed
qed

section \<open>Freeing with a destructor\<close>

lemma n_slist_free_full_spec:
  assumes "wf_heap h" and "slist h p xs"
  shows "\<exists>h'. n_slist_free_full f h p w = Some (h', fold (\<lambda>x. f (snd x)) xs w)
    \<and> hstep (addrs xs) 0 h h' \<and> (\<forall>a \<in> addrs xs. cells h' a = None)"
  using n_slist_free_spec [OF assms] n_slist_foreach_spec [OF assms(2), of f w]
  by (auto simp: n_slist_free_full_def)

end
