(* ===== verification/Slist_Props.thy ===== *)
theory Slist_Props
  imports Slist_Sort
begin

text \<open>
  The properties of the singly linked lists of util/nlist.c. \<open>slist h p xs\<close> reads the list at \<open>p\<close> as
  its nodes' addresses and data; \<open>hstep A n h h'\<close> says that only nodes in \<open>A\<close> changed and that \<open>n\<close>
  nodes were allocated.
\<close>

section \<open>A comparison callback and a list for the witnesses\<close>

definition int_cmp :: "(int, int) compare_data_func" where
  "int_cmp a b u = (case (a, b) of (Some x, Some y) \<Rightarrow> x - y | (None, Some _) \<Rightarrow> - 1 | (Some _, None) \<Rightarrow> 1 | _ \<Rightarrow> 0)"

interpretation int_cmp: comparator "\<lambda>a b. int_cmp a b u" for u
  by unfold_locales (auto simp: int_cmp_def split: option.splits)

definition list_heap :: "int sheap" where
  "list_heap = \<lparr>cells = [1 \<mapsto> \<lparr>sdata = Some 5, snext = 2\<rparr>, 2 \<mapsto> \<lparr>sdata = Some 3, snext = 3\<rparr>,
     3 \<mapsto> \<lparr>sdata = Some 5, snext = 0\<rparr>], brk = 4, avail = 10, junk = \<lparr>sdata = Some 77, snext = 77\<rparr>\<rparr>"

lemma list_heap_ok: "wf_heap list_heap" "slist list_heap 1 [(1, Some 5), (2, Some 3), (3, Some 5)]"
  "brk list_heap = 4" "avail list_heap = 10"
  by (auto simp: wf_heap_def list_heap_def slist_Cons)

section \<open>Sorting\<close>

text \<open>C38: with a callback that is a comparator, \<open>n_slist_sort_with_data\<close> ends and relinks the nodes of the list
  itself, no node lost, none added and no other node touched, into ascending order, and stably: nodes that
  compare equal keep their order.\<close>

theorem n_slist_sort_sorts:
  assumes "comparator (\<lambda>a b. func a b u)" and "wf_heap h" and "slist h p xs"
  shows "\<exists>h' r ys. n_slist_sort_with_data func u h p = Some (h', r) \<and> hstep (addrs xs) 0 h h' \<and> slist h' r ys \<and>
    mset ys = mset xs \<and> sorted_wrt (\<lambda>x y. func (snd x) (snd y) u \<le> 0) ys \<and>
    (\<forall>d. filter (\<lambda>y. func d (snd y) u = 0) ys = filter (\<lambda>y. func d (snd y) u = 0) xs)"
proof -
  have c: "comparator (\<lambda>x y :: ptr \<times> _. func (snd x) (snd y) u)"
    using comparator_key [OF assms(1), of snd] .
  have n: "node_cmp func u = (\<lambda>x y. func (snd x) (snd y) u)"
    by (simp add: fun_eq_iff node_cmp_def)
  obtain h' r where "n_slist_sort_real func u h p = Some (h', r)" "hstep (addrs xs) 0 h h'"
    "slist h' r (cmsort (node_cmp func u) xs)"
    using n_slist_sort_real_spec [OF assms(2,3), of func u] by auto
  moreover have "sorted_wrt (\<lambda>x y. func (snd x) (snd y) u \<le> 0) (cmsort (node_cmp func u) xs)"
    unfolding n by (rule comparator.csorted_msort [OF c])
  moreover have "filter (\<lambda>y. func d (snd y) u = 0) (cmsort (node_cmp func u) xs)
      = filter (\<lambda>y. func d (snd y) u = 0) xs" for d
    unfolding n using comparator.filter_msort [OF c, of "(0, d)" xs] by simp
  ultimately show ?thesis
    unfolding n_slist_sort_with_data_def using mset_cmsort by blast
qed

theorem n_slist_sort_sorts_witness:
  "\<exists>h' r ys. n_slist_sort_with_data int_cmp 0 list_heap 1 = Some (h', r) \<and> slist h' r ys \<and>
    mset ys = mset [(1, Some 5), (2, Some 3), (3, Some 5)] \<and>
    sorted_wrt (\<lambda>x y. int_cmp (snd x) (snd y) 0 \<le> 0) ys"
  using n_slist_sort_sorts [of int_cmp 0, OF int_cmp.comparator_axioms list_heap_ok(1,2)] by blast

text \<open>\<open>n_slist_insert_sorted_with_data\<close> into a sorted list puts one new node with the given data so that
  the list is sorted again and holds the old nodes and the new one.\<close>

theorem n_slist_insert_sorted_keeps_order:
  assumes "comparator (\<lambda>a b. func a b u)" and "wf_heap h" and "0 < avail h" and "slist h p xs"
    and "sorted_wrt (\<lambda>x y. func (snd x) (snd y) u \<le> 0) xs"
  shows "\<exists>h' r ys. n_slist_insert_sorted_with_data func u h p d = Some (h', r) \<and>
    hstep (insert (brk h) (addrs xs)) 1 h h' \<and> slist h' r ys \<and> mset ys = add_mset (brk h, d) (mset xs) \<and>
    sorted_wrt (\<lambda>x y. func (snd x) (snd y) u \<le> 0) ys"
proof -
  have c: "comparator (\<lambda>x y :: ptr \<times> _. func (snd x) (snd y) u)"
    using comparator_key [OF assms(1), of snd] .
  have n: "node_cmp func u = (\<lambda>x y. func (snd x) (snd y) u)"
    by (simp add: fun_eq_iff node_cmp_def)
  show ?thesis
    using n_slist_insert_sorted_real_spec [OF assms(2-4), of func u d] comparator.csorted_insert [OF c assms(5)]
    unfolding n n_slist_insert_sorted_with_data_def by fastforce
qed

theorem n_slist_insert_sorted_keeps_order_witness:
  "\<exists>h' r ys. n_slist_insert_sorted_with_data int_cmp 0 (list_heap\<lparr>cells := (cells list_heap)(1 := None)\<rparr>) 2 (Some 4)
     = Some (h', r) \<and> slist h' r ys \<and> mset ys = {#(4, Some 4), (2, Some 3), (3, Some 5)#} \<and>
    sorted_wrt (\<lambda>x y. int_cmp (snd x) (snd y) 0 \<le> 0) ys"
proof -
  let ?h = "list_heap\<lparr>cells := (cells list_heap)(1 := None)\<rparr>"
  have "wf_heap ?h" "0 < avail ?h" "slist ?h 2 [(2, Some 3), (3, Some 5)]" "brk ?h = 4"
    by (auto simp: wf_heap_def list_heap_def slist_Cons)
  then show ?thesis
    using n_slist_insert_sorted_keeps_order [of int_cmp 0 ?h 2 "[(2, Some 3), (3, Some 5)]" "Some 4", OF int_cmp.comparator_axioms]
    by (simp add: int_cmp_def) blast
qed

section \<open>Insertion, removal, copying\<close>

text \<open>\<open>n_slist_insert\<close> puts one new node at the given position, counted from 0; a negative position and one
  past the end both mean the end of the list.\<close>

theorem n_slist_insert_position:
  assumes "wf_heap h" and "0 < avail h" and "slist h p xs"
  shows "\<exists>h' p'. n_slist_insert h p d pos = Some (h', p') \<and> hstep (insert (brk h) (addrs xs)) 1 h h' \<and>
    slist h' p' (take (insert_pos pos (length xs)) xs @ (brk h, d) # drop (insert_pos pos (length xs)) xs)"
  using n_slist_insert_spec [OF assms] unfolding insert_at_def .

theorem n_slist_insert_position_witness:
  "\<exists>h' p'. n_slist_insert list_heap 1 (Some 9) 2 = Some (h', p') \<and>
    slist h' p' [(1, Some 5), (2, Some 3), (4, Some 9), (3, Some 5)]"
  using n_slist_insert_position [OF list_heap_ok(1) _ list_heap_ok(2), of "Some 9" 2] list_heap_ok
  by (simp add: insert_pos_def) blast

text \<open>C39: \<open>n_slist_remove_all\<close> frees exactly the nodes that carry the given data and keeps the others in order.\<close>

theorem n_slist_remove_all_removes:
  assumes "wf_heap h" and "slist h p xs"
  shows "\<exists>h' p'. n_slist_remove_all h p d = Some (h', p') \<and> hstep (addrs xs) 0 h h' \<and>
    slist h' p' (filter (\<lambda>x. snd x \<noteq> d) xs) \<and> (\<forall>x \<in> set xs. snd x = d \<longrightarrow> cells h' (fst x) = None)"
  using n_slist_remove_all_spec [OF assms] by blast

theorem n_slist_remove_all_removes_witness:
  "\<exists>h' p'. n_slist_remove_all list_heap 1 (Some 5) = Some (h', p') \<and> slist h' p' [(2, Some 3)] \<and>
    cells h' 1 = None \<and> cells h' 3 = None"
  using n_slist_remove_all_removes [OF list_heap_ok(1,2), of "Some 5"] by fastforce

text \<open>\<open>n_slist_copy_deep\<close> leaves the original list as it is and returns a second list of new nodes whose
  data is the result of the copy function (the data itself when there is none), in the same order.\<close>

theorem n_slist_copy_deep_copies:
  assumes "wf_heap h" and "length xs \<le> avail h" and "slist h p xs"
  shows "\<exists>h' q ys. n_slist_copy_deep func u h p = Some (h', q) \<and> slist h' p xs \<and> slist h' q ys \<and>
    map snd ys = map (\<lambda>x. copy_data func u (snd x)) xs \<and> addrs ys \<inter> dom (cells h) = {} \<and>
    (\<forall>a \<in> dom (cells h). cells h' a = cells h a)"
proof -
  obtain h' q where h': "n_slist_copy_deep func u h p = Some (h', q)"
    "hstep {brk h ..< brk h + length xs} (length xs) h h'"
    "slist h' q (fresh_copy (copy_data func u) (brk h) xs)"
    using n_slist_copy_deep_spec [OF assms, of func u] by auto
  have d: "{brk h ..< brk h + length xs} \<inter> dom (cells h) = {}"
    using assms(1) by (auto simp: wf_heap_def)
  have "slist h' p xs"
    by (rule slist_hstep [OF assms(3) h'(2)]) (use d slist_cells [OF assms(3)] in blast)
  moreover have "\<forall>a \<in> dom (cells h). cells h' a = cells h a"
    using hstep_cells [OF h'(2)] d by blast
  moreover have "addrs (fresh_copy (copy_data func u) (brk h) xs) \<inter> dom (cells h) = {}"
    using d by (simp only: addrs_fresh_copy)
  ultimately show ?thesis using h'(1,3) data_fresh_copy by blast
qed

theorem n_slist_copy_deep_copies_witness:
  "\<exists>h' q ys. n_slist_copy_deep (Some (\<lambda>d u. map_option (\<lambda>x. x + u) d)) 10 list_heap 1 = Some (h', q) \<and>
    slist h' 1 [(1, Some 5), (2, Some 3), (3, Some 5)] \<and> slist h' q ys \<and> map snd ys = [Some 15, Some 13, Some 15]"
proof -
  let ?f = "Some (\<lambda>d u. map_option (\<lambda>x. x + u) d) :: (int option \<Rightarrow> int \<Rightarrow> int option) option"
  have "length [(1 :: ptr, Some (5 :: int)), (2, Some 3), (3, Some 5)] \<le> avail list_heap"
    by (simp add: list_heap_ok(4))
  from n_slist_copy_deep_copies [OF list_heap_ok(1) this list_heap_ok(2), of ?f 10]
  obtain h' q ys where 1: "n_slist_copy_deep ?f 10 list_heap 1 = Some (h', q)"
    "slist h' 1 [(1, Some 5), (2, Some 3), (3, Some 5)]" "slist h' q ys"
    "map snd ys = map (\<lambda>x. copy_data ?f 10 (snd x)) [(1 :: ptr, Some 5), (2, Some 3), (3, Some 5)]"
    by blast
  have "map snd ys = [Some 15, Some 13, Some 15]" unfolding 1(4) by (simp add: copy_data_def)
  then show ?thesis using 1(1-3)
    by (intro exI [of _ h'] exI [of _ q] exI [of _ ys]) simp
qed

text \<open>no list function checks the result of the allocator. When it is exhausted, adding an element follows a
  NULL pointer.\<close>

theorem n_slist_add_out_of_memory:
  assumes "avail h = 0"
  shows "n_slist_append h p d = None \<and> n_slist_prepend h p d = None"
  using assms by (simp add: n_slist_append_def n_slist_prepend_def n_slice_alloc_def malloc_fail)

theorem n_slist_add_out_of_memory_witness:
  "n_slist_append (list_heap\<lparr>avail := 0\<rparr>) 1 (Some 1) = None \<and> n_slist_prepend (list_heap\<lparr>avail := 0\<rparr>) 1 (Some 1) = None"
  by (rule n_slist_add_out_of_memory) simp

end
