(* ===== verification/Dlist_Impl.thy ===== *)
theory Dlist_Impl
  imports Nslice
begin

text \<open>
  The doubly linked lists of util/nlist.c (\<open>n_dlist_t\<close>), in the style of Slist.thy: a node has the
  fields \<open>data\<close>, \<open>next\<close> and \<open>prev\<close>, and a dereference of NULL or of a freed node has no result.
\<close>

section \<open>Nodes\<close>

record 'd dnode =
  ddata :: "'d option"
  dnext :: ptr
  dprev :: ptr

type_synonym 'd dheap = "'d dnode heap"
type_synonym ('d, 'u) dcompare = "'d option \<Rightarrow> 'd option \<Rightarrow> 'u \<Rightarrow> int"

definition dnode_zero :: "'d dnode" where
  "dnode_zero = \<lparr>ddata = None, dnext = NULL, dprev = NULL\<rparr>"

abbreviation set_data :: "'d dheap \<Rightarrow> ptr \<Rightarrow> 'd option \<Rightarrow> 'd dheap option" where
  "set_data h p d \<equiv> modify h p (\<lambda>n. n\<lparr>ddata := d\<rparr>)"

abbreviation set_next :: "'d dheap \<Rightarrow> ptr \<Rightarrow> ptr \<Rightarrow> 'd dheap option" where
  "set_next h p q \<equiv> modify h p (\<lambda>n. n\<lparr>dnext := q\<rparr>)"

abbreviation set_prev :: "'d dheap \<Rightarrow> ptr \<Rightarrow> ptr \<Rightarrow> 'd dheap option" where
  "set_prev h p q \<equiv> modify h p (\<lambda>n. n\<lparr>dprev := q\<rparr>)"

section \<open>Allocation\<close>

definition n_dlist_alloc :: "'d dheap \<Rightarrow> ('d dheap \<times> ptr) option" where
  "n_dlist_alloc h = n_slice_alloc0 dnode_zero h"

definition n_dlist_free :: "'d dheap \<Rightarrow> ptr \<Rightarrow> 'd dheap option" where
  "n_dlist_free h list = n_slice_free_chain_with_offset dnext h list"

definition n_dlist_free_1 :: "'d dheap \<Rightarrow> ptr \<Rightarrow> 'd dheap option" where
  "n_dlist_free_1 h list = n_slice_free1 h list"

section \<open>Traversals\<close>

partial_function (option) n_dlist_foreach ::
  "('d option \<Rightarrow> 'u \<Rightarrow> 'u) \<Rightarrow> 'd dheap \<Rightarrow> ptr \<Rightarrow> 'u \<Rightarrow> 'u option" where
  "n_dlist_foreach func h list user_data =
     (if list = NULL then Some user_data
      else do { n \<leftarrow> load h list; n_dlist_foreach func h (dnext n) (func (ddata n) user_data) })"

definition n_dlist_free_full ::
  "('d option \<Rightarrow> 'u \<Rightarrow> 'u) \<Rightarrow> 'd dheap \<Rightarrow> ptr \<Rightarrow> 'u \<Rightarrow> ('d dheap \<times> 'u) option" where
  "n_dlist_free_full free_func h list w = do {
     w \<leftarrow> n_dlist_foreach free_func h list w;
     h \<leftarrow> n_dlist_free h list;
     Some (h, w) }"

partial_function (option) n_dlist_last_loop :: "'d dheap \<Rightarrow> ptr \<Rightarrow> ptr option" where
  "n_dlist_last_loop h list = do {
     n \<leftarrow> load h list;
     if dnext n \<noteq> NULL then n_dlist_last_loop h (dnext n) else Some list }"

definition n_dlist_last :: "'d dheap \<Rightarrow> ptr \<Rightarrow> ptr option" where
  "n_dlist_last h list = (if list \<noteq> NULL then n_dlist_last_loop h list else Some list)"

partial_function (option) n_dlist_first_loop :: "'d dheap \<Rightarrow> ptr \<Rightarrow> ptr option" where
  "n_dlist_first_loop h list = do {
     n \<leftarrow> load h list;
     if dprev n \<noteq> NULL then n_dlist_first_loop h (dprev n) else Some list }"

definition n_dlist_first :: "'d dheap \<Rightarrow> ptr \<Rightarrow> ptr option" where
  "n_dlist_first h list = (if list \<noteq> NULL then n_dlist_first_loop h list else Some list)"

primrec n_dlist_nth_loop :: "nat \<Rightarrow> 'd dheap \<Rightarrow> ptr \<Rightarrow> ptr option" where
  "n_dlist_nth_loop 0 h list = Some list"
| "n_dlist_nth_loop (Suc n) h list =
     (if list = NULL then Some list else do { x \<leftarrow> load h list; n_dlist_nth_loop n h (dnext x) })"

definition n_dlist_nth :: "'d dheap \<Rightarrow> ptr \<Rightarrow> u32 \<Rightarrow> ptr option" where
  "n_dlist_nth h list n = n_dlist_nth_loop (unat n) h list"

primrec n_dlist_nth_prev_loop :: "nat \<Rightarrow> 'd dheap \<Rightarrow> ptr \<Rightarrow> ptr option" where
  "n_dlist_nth_prev_loop 0 h list = Some list"
| "n_dlist_nth_prev_loop (Suc n) h list =
     (if list = NULL then Some list else do { x \<leftarrow> load h list; n_dlist_nth_prev_loop n h (dprev x) })"

definition n_dlist_nth_prev :: "'d dheap \<Rightarrow> ptr \<Rightarrow> u32 \<Rightarrow> ptr option" where
  "n_dlist_nth_prev h list n = n_dlist_nth_prev_loop (unat n) h list"

definition n_dlist_nth_data :: "'d dheap \<Rightarrow> ptr \<Rightarrow> u32 \<Rightarrow> 'd option option" where
  "n_dlist_nth_data h list n = do {
     list \<leftarrow> n_dlist_nth_loop (unat n) h list;
     if list \<noteq> NULL then map_option ddata (load h list) else Some None }"

partial_function (option) n_dlist_find :: "'d dheap \<Rightarrow> ptr \<Rightarrow> 'd option \<Rightarrow> ptr option" where
  "n_dlist_find h list data =
     (if list = NULL then Some list
      else do { n \<leftarrow> load h list; if ddata n = data then Some list else n_dlist_find h (dnext n) data })"

partial_function (option) n_dlist_find_custom ::
  "('d option \<Rightarrow> 'd option \<Rightarrow> int) \<Rightarrow> 'd dheap \<Rightarrow> ptr \<Rightarrow> 'd option \<Rightarrow> ptr option" where
  "n_dlist_find_custom func h list data =
     (if list = NULL then Some NULL
      else do {
        n \<leftarrow> load h list;
        if func (ddata n) data = 0 then Some list else n_dlist_find_custom func h (dnext n) data })"

partial_function (option) n_dlist_position_loop :: "'d dheap \<Rightarrow> ptr \<Rightarrow> ptr \<Rightarrow> i32 \<Rightarrow> i32 option" where
  "n_dlist_position_loop h list llink i =
     (if list = NULL then Some (- 1)
      else if list = llink then Some i
      else do { n \<leftarrow> load h list; n_dlist_position_loop h (dnext n) llink (i + 1) })"

definition n_dlist_position :: "'d dheap \<Rightarrow> ptr \<Rightarrow> ptr \<Rightarrow> i32 option" where
  "n_dlist_position h list llink = n_dlist_position_loop h list llink 0"

partial_function (option) n_dlist_index_loop :: "'d dheap \<Rightarrow> ptr \<Rightarrow> 'd option \<Rightarrow> i32 \<Rightarrow> i32 option" where
  "n_dlist_index_loop h list data i =
     (if list = NULL then Some (- 1)
      else do {
        n \<leftarrow> load h list;
        if ddata n = data then Some i else n_dlist_index_loop h (dnext n) data (i + 1) })"

definition n_dlist_index :: "'d dheap \<Rightarrow> ptr \<Rightarrow> 'd option \<Rightarrow> i32 option" where
  "n_dlist_index h list data = n_dlist_index_loop h list data 0"

partial_function (option) n_dlist_length_loop :: "'d dheap \<Rightarrow> ptr \<Rightarrow> u32 \<Rightarrow> u32 option" where
  "n_dlist_length_loop h list len =
     (if list = NULL then Some len
      else do { n \<leftarrow> load h list; n_dlist_length_loop h (dnext n) (len + 1) })"

definition n_dlist_length :: "'d dheap \<Rightarrow> ptr \<Rightarrow> u32 option" where
  "n_dlist_length h list = n_dlist_length_loop h list 0"

section \<open>Insertion\<close>

definition n_dlist_append :: "'d dheap \<Rightarrow> ptr \<Rightarrow> 'd option \<Rightarrow> ('d dheap \<times> ptr) option" where
  "n_dlist_append h list data =
     (let (h, new_list) = n_slice_alloc h in do {
        h \<leftarrow> set_data h new_list data;
        h \<leftarrow> set_next h new_list NULL;
        if list \<noteq> NULL then do {
          last \<leftarrow> n_dlist_last h list;
          h \<leftarrow> set_next h last new_list;
          h \<leftarrow> set_prev h new_list last;
          Some (h, list) }
        else do {
          h \<leftarrow> set_prev h new_list NULL;
          Some (h, new_list) } })"

definition n_dlist_prepend :: "'d dheap \<Rightarrow> ptr \<Rightarrow> 'd option \<Rightarrow> ('d dheap \<times> ptr) option" where
  "n_dlist_prepend h list data =
     (let (h, new_list) = n_slice_alloc h in do {
        h \<leftarrow> set_data h new_list data;
        h \<leftarrow> set_next h new_list list;
        if list \<noteq> NULL then do {
          n \<leftarrow> load h list;
          h \<leftarrow> set_prev h new_list (dprev n);
          h \<leftarrow> (if dprev n \<noteq> NULL then set_next h (dprev n) new_list else Some h);
          h \<leftarrow> set_prev h list new_list;
          Some (h, new_list) }
        else do {
          h \<leftarrow> set_prev h new_list NULL;
          Some (h, new_list) } })"

definition n_dlist_insert :: "'d dheap \<Rightarrow> ptr \<Rightarrow> 'd option \<Rightarrow> i32 \<Rightarrow> ('d dheap \<times> ptr) option" where
  "n_dlist_insert h list data position =
     (if sint position < 0 then n_dlist_append h list data
      else if position = 0 then n_dlist_prepend h list data
      else do {
        tmp_list \<leftarrow> n_dlist_nth h list position;
        if tmp_list = NULL then n_dlist_append h list data
        else let (h, new_list) = n_slice_alloc h in do {
          h \<leftarrow> set_data h new_list data;
          t \<leftarrow> load h tmp_list;
          h \<leftarrow> set_prev h new_list (dprev t);
          h \<leftarrow> set_next h (dprev t) new_list;
          h \<leftarrow> set_next h new_list tmp_list;
          h \<leftarrow> set_prev h tmp_list new_list;
          Some (h, list) } })"

definition n_dlist_insert_before ::
  "'d dheap \<Rightarrow> ptr \<Rightarrow> ptr \<Rightarrow> 'd option \<Rightarrow> ('d dheap \<times> ptr) option" where
  "n_dlist_insert_before h list sibling data =
     (if list = NULL then do {
        (h, list) \<leftarrow> n_dlist_alloc h;
        h \<leftarrow> set_data h list data;
        Some (h, list) }
      else if sibling \<noteq> NULL then
        let (h, node) = n_slice_alloc h in do {
          h \<leftarrow> set_data h node data;
          s \<leftarrow> load h sibling;
          h \<leftarrow> set_prev h node (dprev s);
          h \<leftarrow> set_next h node sibling;
          h \<leftarrow> set_prev h sibling node;
          if dprev s \<noteq> NULL then do { h \<leftarrow> set_next h (dprev s) node; Some (h, list) }
          else Some (h, node) }
      else do {
        last \<leftarrow> n_dlist_last_loop h list;
        (let (h, new) = n_slice_alloc h in do {
           h \<leftarrow> set_next h last new;
           h \<leftarrow> set_data h new data;
           h \<leftarrow> set_prev h new last;
           h \<leftarrow> set_next h new NULL;
           Some (h, list) }) })"

definition n_dlist_concat :: "'d dheap \<Rightarrow> ptr \<Rightarrow> ptr \<Rightarrow> ('d dheap \<times> ptr) option" where
  "n_dlist_concat h list1 list2 =
     (if list2 \<noteq> NULL then do {
        tmp_list \<leftarrow> n_dlist_last h list1;
        h \<leftarrow> (if tmp_list \<noteq> NULL then set_next h tmp_list list2 else Some h);
        h \<leftarrow> set_prev h list2 tmp_list;
        Some (h, if tmp_list \<noteq> NULL then list1 else list2) }
      else Some (h, list1))"

section \<open>Removal\<close>

text \<open>
  The static \<open>_n_dlist_remove_link\<close>. A link whose neighbours do not point back to it is reported on
  the standard output and the neighbour is left alone.
\<close>

definition n_dlist_remove_link_static :: "'d dheap \<Rightarrow> ptr \<Rightarrow> ptr \<Rightarrow> ('d dheap \<times> ptr) option" where
  "n_dlist_remove_link_static h list link =
     (if link = NULL then Some (h, list)
      else do {
        l \<leftarrow> load h link;
        h \<leftarrow> (if dprev l \<noteq> NULL then do {
               p \<leftarrow> load h (dprev l);
               if dnext p = link then set_next h (dprev l) (dnext l) else Some h }
             else Some h);
        l \<leftarrow> load h link;
        h \<leftarrow> (if dnext l \<noteq> NULL then do {
               n \<leftarrow> load h (dnext l);
               if dprev n = link then set_prev h (dnext l) (dprev l) else Some h }
             else Some h);
        list' \<leftarrow> (if link = list then map_option dnext (load h list) else Some list);
        h \<leftarrow> set_next h link NULL;
        h \<leftarrow> set_prev h link NULL;
        Some (h, list') })"

definition n_dlist_remove_link :: "'d dheap \<Rightarrow> ptr \<Rightarrow> ptr \<Rightarrow> ('d dheap \<times> ptr) option" where
  "n_dlist_remove_link h list llink = n_dlist_remove_link_static h list llink"

definition n_dlist_delete_link :: "'d dheap \<Rightarrow> ptr \<Rightarrow> ptr \<Rightarrow> ('d dheap \<times> ptr) option" where
  "n_dlist_delete_link h list link = do {
     (h, list) \<leftarrow> n_dlist_remove_link_static h list link;
     h \<leftarrow> n_slice_free1 h link;
     Some (h, list) }"

partial_function (option) n_dlist_remove_loop ::
  "'d dheap \<Rightarrow> ptr \<Rightarrow> 'd option \<Rightarrow> ptr \<Rightarrow> ('d dheap \<times> ptr) option" where
  "n_dlist_remove_loop h list data tmp =
     (if tmp = NULL then Some (h, list)
      else do {
        t \<leftarrow> load h tmp;
        if ddata t \<noteq> data then n_dlist_remove_loop h list data (dnext t)
        else do {
          (h, list) \<leftarrow> n_dlist_remove_link_static h list tmp;
          h \<leftarrow> n_slice_free1 h tmp;
          Some (h, list) } })"

definition n_dlist_remove :: "'d dheap \<Rightarrow> ptr \<Rightarrow> 'd option \<Rightarrow> ('d dheap \<times> ptr) option" where
  "n_dlist_remove h list data = n_dlist_remove_loop h list data list"

partial_function (option) n_dlist_remove_all_loop ::
  "'d dheap \<Rightarrow> ptr \<Rightarrow> 'd option \<Rightarrow> ptr \<Rightarrow> ('d dheap \<times> ptr) option" where
  "n_dlist_remove_all_loop h list data tmp =
     (if tmp = NULL then Some (h, list)
      else do {
        t \<leftarrow> load h tmp;
        if ddata t \<noteq> data then n_dlist_remove_all_loop h list data (dnext t)
        else do {
          h \<leftarrow> (if dprev t \<noteq> NULL then set_next h (dprev t) (dnext t) else Some h);
          h \<leftarrow> (if dnext t \<noteq> NULL then set_prev h (dnext t) (dprev t) else Some h);
          h \<leftarrow> n_slice_free1 h tmp;
          n_dlist_remove_all_loop h (if dprev t \<noteq> NULL then list else dnext t) data (dnext t) } })"

definition n_dlist_remove_all :: "'d dheap \<Rightarrow> ptr \<Rightarrow> 'd option \<Rightarrow> ('d dheap \<times> ptr) option" where
  "n_dlist_remove_all h list data = n_dlist_remove_all_loop h list data list"

section \<open>Copying and reversing\<close>

definition dcopy_data :: "('d option \<Rightarrow> 'u \<Rightarrow> 'd option) option \<Rightarrow> 'u \<Rightarrow> 'd option \<Rightarrow> 'd option" where
  "dcopy_data func user_data d = (case func of Some f \<Rightarrow> f d user_data | None \<Rightarrow> d)"

partial_function (option) n_dlist_copy_deep_loop ::
  "('d option \<Rightarrow> 'u \<Rightarrow> 'd option) option \<Rightarrow> 'u \<Rightarrow> 'd dheap \<Rightarrow> ptr \<Rightarrow> ptr \<Rightarrow> ('d dheap \<times> ptr) option" where
  "n_dlist_copy_deep_loop func user_data h list lst =
     (if list = NULL then Some (h, lst)
      else let (h, new) = n_slice_alloc h in do {
        h \<leftarrow> set_next h lst new;
        h \<leftarrow> set_prev h new lst;
        src \<leftarrow> load h list;
        h \<leftarrow> set_data h new (dcopy_data func user_data (ddata src));
        n_dlist_copy_deep_loop func user_data h (dnext src) new })"

definition n_dlist_copy_deep ::
  "('d option \<Rightarrow> 'u \<Rightarrow> 'd option) option \<Rightarrow> 'u \<Rightarrow> 'd dheap \<Rightarrow> ptr \<Rightarrow> ('d dheap \<times> ptr) option" where
  "n_dlist_copy_deep func user_data h list =
     (if list = NULL then Some (h, NULL)
      else let (h, new_list) = n_slice_alloc h in do {
        src \<leftarrow> load h list;
        h \<leftarrow> set_data h new_list (dcopy_data func user_data (ddata src));
        h \<leftarrow> set_prev h new_list NULL;
        (h, last) \<leftarrow> n_dlist_copy_deep_loop func user_data h (dnext src) new_list;
        h \<leftarrow> set_next h last NULL;
        Some (h, new_list) })"

definition n_dlist_copy :: "'d dheap \<Rightarrow> ptr \<Rightarrow> ('d dheap \<times> ptr) option" where
  "n_dlist_copy h list = n_dlist_copy_deep None () h list"

text \<open>\<open>list\<close> runs ahead; \<open>lst\<close> is the node swapped last.\<close>

partial_function (option) n_dlist_reverse_loop ::
  "'d dheap \<Rightarrow> ptr \<Rightarrow> ptr \<Rightarrow> ('d dheap \<times> ptr) option" where
  "n_dlist_reverse_loop h lst list =
     (if list = NULL then Some (h, lst)
      else do {
        n \<leftarrow> load h list;
        h \<leftarrow> set_next h list (dprev n);
        h \<leftarrow> set_prev h list (dnext n);
        n_dlist_reverse_loop h list (dnext n) })"

definition n_dlist_reverse :: "'d dheap \<Rightarrow> ptr \<Rightarrow> ('d dheap \<times> ptr) option" where
  "n_dlist_reverse h list = n_dlist_reverse_loop h NULL list"

section \<open>Sorted insertion and sorting\<close>

partial_function (option) n_dlist_insert_sorted_loop ::
  "('d, 'u) dcompare \<Rightarrow> 'u \<Rightarrow> 'd option \<Rightarrow> 'd dheap \<Rightarrow> ptr \<Rightarrow> int \<Rightarrow> (ptr \<times> int) option" where
  "n_dlist_insert_sorted_loop func user_data data h tmp_list cmp = do {
     t \<leftarrow> load h tmp_list;
     if dnext t \<noteq> NULL \<and> cmp > 0 then do {
       m \<leftarrow> load h (dnext t);
       n_dlist_insert_sorted_loop func user_data data h (dnext t) (func data (ddata m) user_data) }
     else Some (tmp_list, cmp) }"

definition n_dlist_insert_sorted_real ::
  "('d, 'u) dcompare \<Rightarrow> 'u \<Rightarrow> 'd dheap \<Rightarrow> ptr \<Rightarrow> 'd option \<Rightarrow> ('d dheap \<times> ptr) option" where
  "n_dlist_insert_sorted_real func user_data h list data =
     (if list = NULL then do {
        (h, new_list) \<leftarrow> n_slice_alloc0 dnode_zero h;
        h \<leftarrow> set_data h new_list data;
        Some (h, new_list) }
      else do {
        t \<leftarrow> load h list;
        (tmp_list, cmp) \<leftarrow> n_dlist_insert_sorted_loop func user_data data h list (func data (ddata t) user_data);
        (h, new_list) \<leftarrow> n_slice_alloc0 dnode_zero h;
        h \<leftarrow> set_data h new_list data;
        t \<leftarrow> load h tmp_list;
        if dnext t = NULL \<and> cmp > 0 then do {
          h \<leftarrow> set_next h tmp_list new_list;
          h \<leftarrow> set_prev h new_list tmp_list;
          Some (h, list) }
        else do {
          h \<leftarrow> (if dprev t \<noteq> NULL then do {
                 h \<leftarrow> set_next h (dprev t) new_list;
                 set_prev h new_list (dprev t) }
               else Some h);
          h \<leftarrow> set_next h new_list tmp_list;
          h \<leftarrow> set_prev h tmp_list new_list;
          Some (h, if tmp_list = list then new_list else list) } })"

definition n_dlist_insert_sorted ::
  "('d option \<Rightarrow> 'd option \<Rightarrow> int) \<Rightarrow> 'd dheap \<Rightarrow> ptr \<Rightarrow> 'd option \<Rightarrow> ('d dheap \<times> ptr) option" where
  "n_dlist_insert_sorted func h list data = n_dlist_insert_sorted_real (\<lambda>a b _. func a b) () h list data"

definition n_dlist_insert_sorted_with_data ::
  "('d, 'u) dcompare \<Rightarrow> 'u \<Rightarrow> 'd dheap \<Rightarrow> ptr \<Rightarrow> 'd option \<Rightarrow> ('d dheap \<times> ptr) option" where
  "n_dlist_insert_sorted_with_data func user_data h list data = n_dlist_insert_sorted_real func user_data h list data"

text \<open>
  \<open>l->next = r\<close> in the merge, where \<open>l\<close> is the node on the stack (here NULL) before the first node is
  linked; its \<open>next\<close> is the head of the result.
\<close>

definition dlink :: "'d dheap \<Rightarrow> ptr \<Rightarrow> ptr \<Rightarrow> ptr \<Rightarrow> ('d dheap \<times> ptr) option" where
  "dlink h head l r = (if l = NULL then Some (h, r) else do { h \<leftarrow> set_next h l r; Some (h, head) })"

text \<open>
  When one list is empty from the start, the C code stores the address of its stack node in \<open>prev\<close>;
  that pointer dangles, and the model has no result. \<open>n_dlist_sort_real\<close> merges non-empty lists.
\<close>

partial_function (option) n_dlist_sort_merge_loop ::
  "('d, 'u) dcompare \<Rightarrow> 'u \<Rightarrow> 'd dheap \<Rightarrow> ptr \<Rightarrow> ptr \<Rightarrow> ptr \<Rightarrow> ptr \<Rightarrow> ('d dheap \<times> ptr) option" where
  "n_dlist_sort_merge_loop func user_data h head l l1 l2 =
     (if l1 \<noteq> NULL \<and> l2 \<noteq> NULL then do {
        a \<leftarrow> load h l1;
        b \<leftarrow> load h l2;
        if func (ddata a) (ddata b) user_data \<le> 0 then do {
          (h, head) \<leftarrow> dlink h head l l1;
          a \<leftarrow> load h l1;
          h \<leftarrow> set_prev h l1 l;
          n_dlist_sort_merge_loop func user_data h head l1 (dnext a) l2 }
        else do {
          (h, head) \<leftarrow> dlink h head l l2;
          b \<leftarrow> load h l2;
          h \<leftarrow> set_prev h l2 l;
          n_dlist_sort_merge_loop func user_data h head l2 l1 (dnext b) } }
      else if l = NULL then None
      else do {
        (h, head) \<leftarrow> dlink h head l (if l1 \<noteq> NULL then l1 else l2);
        h \<leftarrow> set_prev h (if l1 \<noteq> NULL then l1 else l2) l;
        Some (h, head) })"

definition n_dlist_sort_merge ::
  "('d, 'u) dcompare \<Rightarrow> 'u \<Rightarrow> 'd dheap \<Rightarrow> ptr \<Rightarrow> ptr \<Rightarrow> ('d dheap \<times> ptr) option" where
  "n_dlist_sort_merge func user_data h l1 l2 = n_dlist_sort_merge_loop func user_data h NULL NULL l1 l2"

partial_function (option) n_dlist_split_loop :: "'d dheap \<Rightarrow> ptr \<Rightarrow> ptr \<Rightarrow> ptr option" where
  "n_dlist_split_loop h l1 l2 = do {
     n \<leftarrow> load h l2;
     if dnext n = NULL then Some l1
     else do {
       m \<leftarrow> load h (dnext n);
       if dnext m = NULL then Some l1
       else do { k \<leftarrow> load h l1; n_dlist_split_loop h (dnext k) (dnext m) } } }"

text \<open>The second half keeps the \<open>prev\<close> pointer of its first node; the merge repairs it.\<close>

partial_function (option) n_dlist_sort_real ::
  "('d, 'u) dcompare \<Rightarrow> 'u \<Rightarrow> 'd dheap \<Rightarrow> ptr \<Rightarrow> ('d dheap \<times> ptr) option" where
  "n_dlist_sort_real func user_data h list =
     (if list = NULL then Some (h, NULL)
      else do {
        n \<leftarrow> load h list;
        if dnext n = NULL then Some (h, list)
        else do {
          l1 \<leftarrow> n_dlist_split_loop h list (dnext n);
          k \<leftarrow> load h l1;
          h \<leftarrow> set_next h l1 NULL;
          (h, a) \<leftarrow> n_dlist_sort_real func user_data h list;
          (h, b) \<leftarrow> n_dlist_sort_real func user_data h (dnext k);
          n_dlist_sort_merge func user_data h a b } })"

definition n_dlist_sort ::
  "('d option \<Rightarrow> 'd option \<Rightarrow> int) \<Rightarrow> 'd dheap \<Rightarrow> ptr \<Rightarrow> ('d dheap \<times> ptr) option" where
  "n_dlist_sort func h list = n_dlist_sort_real (\<lambda>a b _. func a b) () h list"

definition n_dlist_sort_with_data ::
  "('d, 'u) dcompare \<Rightarrow> 'u \<Rightarrow> 'd dheap \<Rightarrow> ptr \<Rightarrow> ('d dheap \<times> ptr) option" where
  "n_dlist_sort_with_data func user_data h list = n_dlist_sort_real func user_data h list"

end
