(* ===== verification/Dlist_Spec.thy ===== *)
theory Dlist_Spec
  imports Dlist_Impl Compare
begin

text \<open>
  What a store holds, seen as a doubly linked list: \<open>dseg c p pr xs q\<close> says that from \<open>p\<close> the \<open>next\<close>
  pointers run through the nodes \<open>xs\<close>, addresses and data, to \<open>q\<close>, and that every \<open>prev\<close> pointer is
  the address of the node before, \<open>pr\<close> for the first. All operations are shown to keep both directions.
\<close>

section \<open>Segments\<close>

type_synonym 'd nodes = "(ptr \<times> 'd option) list"

fun dseg :: "(ptr \<Rightarrow> 'd dnode option) \<Rightarrow> ptr \<Rightarrow> ptr \<Rightarrow> 'd nodes \<Rightarrow> ptr \<Rightarrow> bool" where
  "dseg c p pr [] q \<longleftrightarrow> p = q"
| "dseg c p pr (x # xs) q \<longleftrightarrow> p = fst x \<and> p \<noteq> NULL \<and>
     (case c p of None \<Rightarrow> False
      | Some n \<Rightarrow> ddata n = snd x \<and> dprev n = pr \<and> dseg c (dnext n) p xs q)"

definition dlist :: "'d dheap \<Rightarrow> ptr \<Rightarrow> 'd nodes \<Rightarrow> bool" where
  "dlist h p xs \<longleftrightarrow> dseg (cells h) p NULL xs NULL"

abbreviation nodes_of :: "'d nodes \<Rightarrow> ptr set" where
  "nodes_of xs \<equiv> fst ` set xs"

definition lastp :: "ptr \<Rightarrow> 'd nodes \<Rightarrow> ptr" where
  "lastp pr xs = (if xs = [] then pr else fst (last xs))"

definition headp :: "'d nodes \<Rightarrow> ptr \<Rightarrow> ptr" where
  "headp xs q = (case xs of [] \<Rightarrow> q | x # _ \<Rightarrow> fst x)"

lemma end_simps [simp]:
  "lastp pr [] = pr" "lastp pr (xs @ [x]) = fst x" "headp [] q = q" "headp (x # xs) q = fst x"
  "lastp pr [x] = fst x" "lastp pr (x # y # ys) = lastp pr (y # ys)"
  by (simp_all add: lastp_def headp_def)

lemma lastp_Cons: "lastp pr (x # xs) = lastp (fst x) xs"
  by (simp add: lastp_def)

lemma dseg_Cons:
  "dseg c p pr (x # xs) q \<longleftrightarrow> p = fst x \<and> p \<noteq> 0 \<and>
     (\<exists>n. c p = Some n \<and> ddata n = snd x \<and> dprev n = pr \<and> dseg c (dnext n) p xs q)"
  by (auto split: option.splits)

declare dseg.simps(2) [simp del]

lemma dseg_append: "dseg c p pr (xs @ ys) q \<longleftrightarrow> (\<exists>m. dseg c p pr xs m \<and> dseg c m (lastp pr xs) ys q)"
  by (induction xs arbitrary: p pr) (auto simp: dseg_Cons lastp_Cons)

lemma dseg_cong: "(\<And>a. a \<in> nodes_of xs \<Longrightarrow> c' a = c a) \<Longrightarrow> dseg c' p pr xs q = dseg c p pr xs q"
proof (induction xs arbitrary: p pr)
  case (Cons x xs)
  then have "dseg c' m t xs q = dseg c m t xs q" for m t by simp
  then show ?case using Cons.prems by (auto simp: dseg_Cons)
qed simp

lemma dseg_upd [simp]: "a \<notin> nodes_of xs \<Longrightarrow> dseg (c(a := n)) p pr xs q = dseg c p pr xs q"
  by (rule dseg_cong) auto

lemma dseg_NULL [simp]: "dseg c 0 pr xs q \<longleftrightarrow> xs = [] \<and> q = 0"
  by (cases xs) (auto simp: dseg_Cons)

lemma dseg_headp: "dseg c p pr xs q \<Longrightarrow> p = headp xs q"
  by (cases xs) (auto simp: dseg_Cons)

lemma dseg_unique: "dseg c p pr xs 0 \<Longrightarrow> dseg c p pr' ys 0 \<Longrightarrow> xs = ys"
proof (induction xs arbitrary: p pr pr' ys)
  case (Cons x xs)
  then obtain y zs where ys: "ys = y # zs" by (cases ys) (auto simp: dseg_Cons)
  show ?case using Cons.prems Cons.IH by (auto simp: ys dseg_Cons prod_eq_iff)
qed auto

lemma dseg_distinct: "dseg c p pr xs 0 \<Longrightarrow> distinct (map fst xs)"
proof (induction xs arbitrary: p pr)
  case (Cons x xs)
  obtain n where n: "p = fst x" "c p = Some n" "dseg c (dnext n) p xs 0"
    using Cons.prems by (auto simp: dseg_Cons)
  have "fst x \<notin> nodes_of xs"
  proof
    assume "fst x \<in> nodes_of xs"
    then obtain ys y zs where xs: "xs = ys @ y # zs" and y: "fst y = fst x"
      by (auto dest!: split_list)
    obtain t where t: "dseg c (fst y) t (y # zs) 0"
      using n(3) unfolding xs dseg_append by (auto simp: dseg_Cons)
    have "y # zs = x # xs"
      by (rule dseg_unique [OF t]) (use Cons.prems n(1) y in simp)
    then have "length (y # zs) = length (x # ys @ y # zs)" using xs by simp
    then show False by simp
  qed
  then show ?case using Cons.IH [OF n(3)] by simp
qed simp

lemma dseg_cell: "dseg c p pr xs q \<Longrightarrow> a \<in> nodes_of xs \<Longrightarrow> a \<noteq> 0 \<and> (\<exists>n. c a = Some n)"
  by (induction xs arbitrary: p pr) (auto simp: dseg_Cons)

lemma dseg_hstep: "dseg (cells h) p pr xs q \<Longrightarrow> hstep A n h h' \<Longrightarrow> A \<inter> nodes_of xs = {} \<Longrightarrow> dseg (cells h') p pr xs q"
  by (subst dseg_cong [where c = "cells h"]) (auto simp: hstep_def)

lemma dseg_fresh: "wf_heap h \<Longrightarrow> dseg (cells h) p pr xs q \<Longrightarrow> brk h \<notin> nodes_of xs"
  using dseg_cell [of "cells h" p pr xs q "brk h"] wf_heap_fresh [of h] by auto

lemma dseg_ConsE:
  assumes "dseg (cells h) p pr (x # xs) q"
  obtains n where "x = (p, ddata n)" "p \<noteq> 0" "cells h p = Some n" "load h p = Some n" "dprev n = pr"
    "dseg (cells h) (dnext n) p xs q"
proof -
  obtain n where n: "p = fst x" "p \<noteq> 0" "cells h p = Some n" "ddata n = snd x" "dprev n = pr"
    "dseg (cells h) (dnext n) p xs q"
    using assms by (auto simp: dseg_Cons)
  show thesis
    by (rule that [of n]) (use n in \<open>simp_all add: load_def prod_eq_iff\<close>)
qed

section \<open>Joining two segments\<close>

text \<open>Every update of a list is made of this one: the node before points on, the node after points back.\<close>

definition djoin :: "'d dheap \<Rightarrow> ptr \<Rightarrow> ptr \<Rightarrow> 'd dheap option" where
  "djoin h l q = do {
     h \<leftarrow> (if l \<noteq> NULL then set_next h l q else Some h);
     (if q \<noteq> NULL then set_prev h q l else Some h) }"

lemma set_next_seg:
  assumes "wf_heap h" and "dseg (cells h) p pr xs m0" and "distinct (map fst xs)"
  shows "\<exists>h'. (if lastp 0 xs \<noteq> NULL then set_next h (lastp 0 xs) m else Some h) = Some h' \<and>
    hstep (nodes_of xs \<inter> {lastp 0 xs}) 0 h h' \<and> dseg (cells h') (headp xs m) pr xs m"
proof (cases xs rule: rev_cases)
  case Nil
  then show ?thesis using assms(1) by (simp add: hstep_refl)
next
  case (snoc ys y)
  obtain n where n: "cells h (fst y) = Some n" "fst y \<noteq> 0"
    using dseg_cell [OF assms(2), of "fst y"] snoc by auto
  obtain h' where h': "set_next h (fst y) m = Some h'" "hstep {fst y} 0 h h'"
    "cells h' = (cells h)(fst y \<mapsto> n\<lparr>dnext := m\<rparr>)"
    using modify_ok [OF assms(1) n(1), of "\<lambda>n. n\<lparr>dnext := m\<rparr>"] by blast
  obtain t where t: "dseg (cells h) p pr ys t" "dseg (cells h) t (lastp pr ys) [y] m0"
    using assms(2) unfolding snoc dseg_append by blast
  have "dseg (cells h') p pr ys t" using t(1) assms(3) snoc h'(3) by simp
  moreover have "dseg (cells h') t (lastp pr ys) [y] m" using t(2) n h'(3) by (auto simp: dseg_Cons)
  ultimately have "dseg (cells h') p pr xs m" unfolding snoc dseg_append by blast
  moreover have "p = headp xs m" using dseg_headp [OF assms(2)] snoc by (cases ys) auto
  ultimately show ?thesis using h'(1,2) n(2) snoc by simp
qed

lemma set_prev_seg:
  assumes "wf_heap h" and "dseg (cells h) q pr xs 0" and "distinct (map fst xs)"
  shows "\<exists>h'. (if q \<noteq> NULL then set_prev h q l else Some h) = Some h' \<and>
    hstep (nodes_of xs \<inter> {q}) 0 h h' \<and> dseg (cells h') q l xs 0"
proof (cases xs)
  case Nil
  then show ?thesis using assms by (simp add: hstep_refl)
next
  case (Cons x ys)
  obtain n where n: "x = (q, ddata n)" "q \<noteq> 0" "cells h q = Some n" "dseg (cells h) (dnext n) q ys 0"
    using assms(2) unfolding Cons by (rule dseg_ConsE)
  obtain h' where h': "set_prev h q l = Some h'" "hstep {q} 0 h h'"
    "cells h' = (cells h)(q \<mapsto> n\<lparr>dprev := l\<rparr>)"
    using modify_ok [OF assms(1) n(3), of "\<lambda>n. n\<lparr>dprev := l\<rparr>"] by blast
  have "q \<notin> nodes_of ys" using assms(3) Cons n(1) by simp
  then have "dseg (cells h') q l xs 0" using n h'(3) Cons by (simp add: dseg_Cons)
  then show ?thesis using h'(1,2) n(1,2) Cons by simp
qed

lemma djoin_spec:
  assumes "wf_heap h" and "dseg (cells h) p 0 xs m" and "dseg (cells h) q pr ys 0"
    and "distinct (map fst (xs @ ys))"
  shows "\<exists>h'. djoin h (lastp 0 xs) q = Some h' \<and> hstep (nodes_of (xs @ ys) \<inter> {lastp 0 xs, q}) 0 h h' \<and>
    dlist h' (headp xs q) (xs @ ys)"
proof -
  have d: "distinct (map fst xs)" "distinct (map fst ys)" "nodes_of xs \<inter> nodes_of ys = {}"
    using assms(4) by auto
  obtain h1 where h1: "(if lastp 0 xs \<noteq> NULL then set_next h (lastp 0 xs) q else Some h) = Some h1"
    "hstep (nodes_of xs \<inter> {lastp 0 xs}) 0 h h1" "dseg (cells h1) (headp xs q) 0 xs q"
    using set_next_seg [OF assms(1,2) d(1), of q] by blast
  have ys: "dseg (cells h1) q pr ys 0"
    by (rule dseg_hstep [OF assms(3) h1(2)]) (use d(3) in auto)
  obtain h2 where h2: "(if q \<noteq> NULL then set_prev h1 q (lastp 0 xs) else Some h1) = Some h2"
    "hstep (nodes_of ys \<inter> {q}) 0 h1 h2" "dseg (cells h2) q (lastp 0 xs) ys 0"
    using set_prev_seg [OF hstep_wf [OF h1(2)] ys d(2), of "lastp 0 xs"] by blast
  have "dseg (cells h2) (headp xs q) 0 xs q"
    by (rule dseg_hstep [OF h1(3) h2(2)]) (use d(3) in auto)
  then have "dlist h2 (headp xs q) (xs @ ys)"
    using h2(3) unfolding dlist_def dseg_append by blast
  moreover have "djoin h (lastp 0 xs) q = Some h2" using h1(1) h2(1) by (simp add: djoin_def)
  moreover have "hstep (nodes_of (xs @ ys) \<inter> {lastp 0 xs, q}) 0 h h2"
    by (rule hstep_trans2 [OF h1(2) h2(2)]) auto
  ultimately show ?thesis by blast
qed

section \<open>Taking a node out\<close>

lemma dlist_split:
  assumes "dlist h p (xs @ x # ys)"
  obtains n where "dseg (cells h) p 0 xs (fst x)" "cells h (fst x) = Some n" "load h (fst x) = Some n" "fst x \<noteq> 0"
    "ddata n = snd x" "dprev n = lastp 0 xs" "dnext n = headp ys 0" "dseg (cells h) (headp ys 0) (fst x) ys 0"
proof -
  obtain m where m: "dseg (cells h) p 0 xs m" "dseg (cells h) m (lastp 0 xs) (x # ys) 0"
    using assms unfolding dlist_def dseg_append by blast
  obtain n where n: "x = (m, ddata n)" "m \<noteq> 0" "cells h m = Some n" "load h m = Some n" "dprev n = lastp 0 xs"
    "dseg (cells h) (dnext n) m ys 0"
    using m(2) by (rule dseg_ConsE)
  show thesis
    by (rule that [of n]) (use n m(1) dseg_headp [OF n(6)] in \<open>simp_all add: prod_eq_iff\<close>)
qed

lemma dlist_distinct: "dlist h p xs \<Longrightarrow> distinct (map fst xs)"
  unfolding dlist_def by (rule dseg_distinct)

lemma dlist_hstep: "dlist h p xs \<Longrightarrow> hstep A n h h' \<Longrightarrow> A \<inter> nodes_of xs = {} \<Longrightarrow> dlist h' p xs"
  unfolding dlist_def by (rule dseg_hstep)

lemma dlist_headp: "dlist h p xs \<Longrightarrow> p = headp xs 0"
  unfolding dlist_def by (rule dseg_headp)

lemma djoin_out:
  assumes "wf_heap h" and "dlist h p (xs @ x # ys)"
  obtains h1 h2 where "(if lastp 0 xs \<noteq> NULL then set_next h (lastp 0 xs) (headp ys 0) else Some h) = Some h1"
    "(if headp ys 0 \<noteq> NULL then set_prev h1 (headp ys 0) (lastp 0 xs) else Some h1) = Some h2"
    "hstep (nodes_of (xs @ ys)) 0 h h2" "dlist h2 (headp xs (headp ys 0)) (xs @ ys)"
    "cells h1 (fst x) = cells h (fst x)" "cells h2 (fst x) = cells h (fst x)"
    "ys \<noteq> [] \<Longrightarrow> \<exists>n. cells h1 (headp ys 0) = Some n \<and> dprev n = fst x"
proof -
  have d: "distinct (map fst (xs @ x # ys))" by (rule dlist_distinct [OF assms(2)])
  obtain n where n: "dseg (cells h) p 0 xs (fst x)" "cells h (fst x) = Some n" "fst x \<noteq> 0"
    "dseg (cells h) (headp ys 0) (fst x) ys 0"
    using assms(2) by (rule dlist_split)
  have d': "distinct (map fst (xs @ ys))" using d by auto
  obtain h2 where h2: "djoin h (lastp 0 xs) (headp ys 0) = Some h2"
    "hstep (nodes_of (xs @ ys) \<inter> {lastp 0 xs, headp ys 0}) 0 h h2" "dlist h2 (headp xs (headp ys 0)) (xs @ ys)"
    using djoin_spec [OF assms(1) n(1,4) d'] by blast
  have "distinct (map fst xs)" using d by simp
  then obtain h1 where h1: "(if lastp 0 xs \<noteq> NULL then set_next h (lastp 0 xs) (headp ys 0) else Some h) = Some h1"
    "hstep (nodes_of xs \<inter> {lastp 0 xs}) 0 h h1"
    using set_next_seg [OF assms(1) n(1)] by blast
  have x1: "cells h1 (fst x) = cells h (fst x)" using hstep_cells [OF h1(2)] d by auto
  have x2: "cells h2 (fst x) = cells h (fst x)" using hstep_cells [OF h2(2)] d by auto
  have y: "\<exists>n. cells h1 (headp ys 0) = Some n \<and> dprev n = fst x" if ne: "ys \<noteq> []"
  proof -
    obtain z zs where ys: "ys = z # zs" using ne by (cases ys) auto
    have "fst z \<notin> nodes_of xs" using d ys by auto
    then show ?thesis using hstep_cells [OF h1(2), of "fst z"] n(4) ys by (auto simp: dseg_Cons)
  qed
  have "(if headp ys 0 \<noteq> NULL then set_prev h1 (headp ys 0) (lastp 0 xs) else Some h1) = Some h2"
    using h2(1) h1(1) by (simp add: djoin_def)
  moreover have "hstep (nodes_of (xs @ ys)) 0 h h2" by (rule hstep_mono [OF h2(2)]) auto
  ultimately show thesis using that h1(1) h2(3) x1 x2 y by blast
qed

lemma n_dlist_remove_link_static_spec:
  assumes "wf_heap h" and "dlist h p (xs @ x # ys)"
  shows "\<exists>h'. n_dlist_remove_link_static h p (fst x) = Some (h', headp (xs @ ys) 0) \<and>
    hstep (nodes_of (xs @ x # ys)) 0 h h' \<and> dlist h' (headp (xs @ ys) 0) (xs @ ys) \<and> dlist h' (fst x) [x]"
proof -
  have d: "distinct (map fst (xs @ x # ys))" by (rule dlist_distinct [OF assms(2)])
  obtain n where n: "dseg (cells h) p 0 xs (fst x)" "cells h (fst x) = Some n" "load h (fst x) = Some n" "fst x \<noteq> 0"
    "ddata n = snd x" "dprev n = lastp 0 xs" "dnext n = headp ys 0"
    using assms(2) by (rule dlist_split)
  obtain h1 h2 where h: "(if lastp 0 xs \<noteq> NULL then set_next h (lastp 0 xs) (headp ys 0) else Some h) = Some h1"
    "(if headp ys 0 \<noteq> NULL then set_prev h1 (headp ys 0) (lastp 0 xs) else Some h1) = Some h2"
    "hstep (nodes_of (xs @ ys)) 0 h h2" "dlist h2 (headp xs (headp ys 0)) (xs @ ys)"
    "cells h1 (fst x) = cells h (fst x)" "cells h2 (fst x) = cells h (fst x)"
    "ys \<noteq> [] \<Longrightarrow> \<exists>n. cells h1 (headp ys 0) = Some n \<and> dprev n = fst x"
    using djoin_out [OF assms] by blast
  have bck: "\<exists>k. load h (lastp 0 xs) = Some k \<and> dnext k = fst x" if "lastp 0 xs \<noteq> 0"
  proof (cases xs rule: rev_cases)
    case (snoc zs z)
    obtain t where "dseg (cells h) t (lastp 0 zs) [z] (fst x)"
      using n(1) unfolding snoc dseg_append by blast
    then show ?thesis using snoc by (auto simp: dseg_Cons load_def)
  qed (use that in simp)
  have s1: "(if dprev n \<noteq> NULL then do { p \<leftarrow> load h (dprev n);
      if dnext p = fst x then set_next h (dprev n) (dnext n) else Some h } else Some h) = Some h1"
    using h(1) bck n(6,7) by (cases "lastp 0 xs = 0") auto
  have l1: "load h1 (fst x) = Some n" using h(5) n(2,4) by (simp add: load_def)
  have fwd: "\<exists>k. load h1 (headp ys 0) = Some k \<and> dprev k = fst x" if "headp ys 0 \<noteq> 0"
    using h(7) that by (cases ys) (auto simp: load_def)
  have s2: "(if dnext n \<noteq> NULL then do { k \<leftarrow> load h1 (dnext n);
      if dprev k = fst x then set_prev h1 (dnext n) (dprev n) else Some h1 } else Some h1) = Some h2"
    using h(2) fwd n(6,7) by (cases "headp ys 0 = 0") auto
  have lx: "load h2 (fst x) = Some n" using h(6) n(2,4) by (simp add: load_def)
  have p: "p = headp (xs @ [x]) 0" using dlist_headp [OF assms(2)] by (cases xs) auto
  have hd: "(if fst x = p then map_option dnext (load h2 p) else Some p) = Some (headp (xs @ ys) 0)"
  proof (cases xs)
    case Nil
    then show ?thesis using p lx n(7) by simp
  next
    case (Cons z zs)
    then have "fst x \<noteq> p" using d p by auto
    then show ?thesis using p Cons by simp
  qed
  note m3 = modify_loaded [OF lx]
  let ?h3 = "store h2 (fst x) (n\<lparr>dnext := 0\<rparr>)"
  let ?h4 = "store ?h3 (fst x) (n\<lparr>dnext := 0, dprev := 0\<rparr>)"
  have m4: "set_prev ?h3 (fst x) 0 = Some ?h4"
    using modify_loaded(1) [OF m3(2)] by simp
  have "n_dlist_remove_link_static h p (fst x) = Some (?h4, headp (xs @ ys) 0)"
    using n(3,4) s1 l1 s2 hd m3(1) m4 by (simp add: n_dlist_remove_link_static_def del: if_split cong: if_cong)
  moreover have st: "hstep {fst x} 0 h2 ?h4"
    using hstep_wf [OF h(3)] h(6) n(2) by (auto simp: hstep_def wf_heap_def)
  have "hstep (nodes_of (xs @ x # ys)) 0 h ?h4"
    by (rule hstep_trans2 [OF h(3) st]) auto
  moreover have "dlist ?h4 (headp (xs @ ys) 0) (xs @ ys)"
  proof -
    have "headp xs (headp ys 0) = headp (xs @ ys) 0" by (cases xs) auto
    then show ?thesis using dlist_hstep [OF h(4) st] d by auto
  qed
  moreover have "dlist ?h4 (fst x) [x]" using n(4,5) by (simp add: dlist_def dseg_Cons)
  ultimately show ?thesis by blast
qed

lemma n_dlist_delete_link_spec:
  assumes "wf_heap h" and "dlist h p (xs @ x # ys)"
  shows "\<exists>h'. n_dlist_delete_link h p (fst x) = Some (h', headp (xs @ ys) 0) \<and>
    hstep (nodes_of (xs @ x # ys)) 0 h h' \<and> dlist h' (headp (xs @ ys) 0) (xs @ ys) \<and> cells h' (fst x) = None"
proof -
  have d: "distinct (map fst (xs @ x # ys))" by (rule dlist_distinct [OF assms(2)])
  obtain h1 where h1: "n_dlist_remove_link_static h p (fst x) = Some (h1, headp (xs @ ys) 0)"
    "hstep (nodes_of (xs @ x # ys)) 0 h h1" "dlist h1 (headp (xs @ ys) 0) (xs @ ys)" "dlist h1 (fst x) [x]"
    using n_dlist_remove_link_static_spec [OF assms] by blast
  obtain n where n: "cells h1 (fst x) = Some n" "fst x \<noteq> 0" using h1(4) by (auto simp: dlist_def dseg_Cons)
  obtain h2 where h2: "dealloc h1 (fst x) = Some h2" "hstep {fst x} 0 h1 h2" "cells h2 = (cells h1)(fst x := None)"
    using dealloc_ok [OF hstep_wf [OF h1(2)] n(1)] by blast
  have "dlist h2 (headp (xs @ ys) 0) (xs @ ys)"
    by (rule dlist_hstep [OF h1(3) h2(2)]) (use d in auto)
  moreover have "hstep (nodes_of (xs @ x # ys)) 0 h h2"
    by (rule hstep_trans2 [OF h1(2) h2(2)]) auto
  ultimately show ?thesis
    using h1(1) h2(1,3) n(2) by (simp add: n_dlist_delete_link_def n_slice_free1_def)
qed

lemma n_dlist_remove_loop_spec:
  assumes "wf_heap h"
  shows "dlist h p (xs @ ys) \<Longrightarrow> \<forall>x \<in> set xs. snd x \<noteq> d \<Longrightarrow>
    n_dlist_remove_loop h p d (headp ys 0) =
      (case find (\<lambda>x. snd x = d) ys of Some x \<Rightarrow> n_dlist_delete_link h p (fst x) | None \<Rightarrow> Some (h, p))"
proof (induction ys arbitrary: xs)
  case Nil
  then show ?case by (simp add: n_dlist_remove_loop.simps)
next
  case (Cons y ys)
  obtain n where n: "load h (fst y) = Some n" "fst y \<noteq> 0" "ddata n = snd y" "dnext n = headp ys 0"
    using Cons.prems(1) by (rule dlist_split)
  show ?case
  proof (cases "snd y = d")
    case True
    then show ?thesis using n
      by (simp add: n_dlist_remove_loop.simps [of h p d "fst y"] n_dlist_delete_link_def)
  next
    case False
    then show ?thesis using n Cons.IH [of "xs @ [y]"] Cons.prems
      by (simp add: n_dlist_remove_loop.simps [of h p d "fst y"])
  qed
qed

lemma n_dlist_remove_spec:
  assumes "wf_heap h" and "dlist h p ys"
  shows "n_dlist_remove h p d =
    (case find (\<lambda>x. snd x = d) ys of Some x \<Rightarrow> n_dlist_delete_link h p (fst x) | None \<Rightarrow> Some (h, p))"
  using n_dlist_remove_loop_spec [OF assms(1), of p "[]" ys d] assms(2) dlist_headp [OF assms(2)]
  by (simp add: n_dlist_remove_def)

lemma n_dlist_remove_all_loop_spec:
  "wf_heap h \<Longrightarrow> dlist h p (xs @ ys) \<Longrightarrow>
   \<exists>h'. n_dlist_remove_all_loop h p d (headp ys 0) = Some (h', headp (xs @ filter (\<lambda>x. snd x \<noteq> d) ys) 0) \<and>
     hstep (nodes_of (xs @ ys)) 0 h h' \<and>
     dlist h' (headp (xs @ filter (\<lambda>x. snd x \<noteq> d) ys) 0) (xs @ filter (\<lambda>x. snd x \<noteq> d) ys) \<and>
     (\<forall>x \<in> set ys. snd x = d \<longrightarrow> cells h' (fst x) = None)"
proof (induction ys arbitrary: h p xs)
  case Nil
  then show ?case using dlist_headp [OF Nil.prems(2)] by (simp add: n_dlist_remove_all_loop.simps hstep_refl)
next
  case (Cons y ys)
  have d: "distinct (map fst (xs @ y # ys))" by (rule dlist_distinct [OF Cons.prems(2)])
  obtain n where n: "load h (fst y) = Some n" "cells h (fst y) = Some n" "fst y \<noteq> 0" "ddata n = snd y"
    "dnext n = headp ys 0" "dprev n = lastp 0 xs"
    using Cons.prems(2) by (rule dlist_split)
  show ?case
  proof (cases "snd y = d")
    case False
    then show ?thesis using n Cons.IH [OF Cons.prems(1), of p "xs @ [y]"] Cons.prems(2)
      by (simp add: n_dlist_remove_all_loop.simps [of h p d "fst y"])
  next
    case True
    obtain h1 h2 where h: "(if lastp 0 xs \<noteq> NULL then set_next h (lastp 0 xs) (headp ys 0) else Some h) = Some h1"
      "(if headp ys 0 \<noteq> NULL then set_prev h1 (headp ys 0) (lastp 0 xs) else Some h1) = Some h2"
      "hstep (nodes_of (xs @ ys)) 0 h h2" "dlist h2 (headp xs (headp ys 0)) (xs @ ys)"
      "cells h2 (fst y) = cells h (fst y)"
      using djoin_out [OF Cons.prems(1,2)] by blast
    obtain h3 where h3: "dealloc h2 (fst y) = Some h3" "hstep {fst y} 0 h2 h3" "cells h3 = (cells h2)(fst y := None)"
      using dealloc_ok [OF hstep_wf [OF h(3)]] h(5) n(2) by metis
    have l3: "dlist h3 (headp (xs @ ys) 0) (xs @ ys)"
    proof -
      have "headp xs (headp ys 0) = headp (xs @ ys) 0" by (cases xs) auto
      then show ?thesis using dlist_hstep [OF h(4) h3(2)] d by auto
    qed
    have p: "(if dprev n \<noteq> NULL then p else dnext n) = headp (xs @ ys) 0"
    proof (cases xs rule: rev_cases)
      case (snoc zs z)
      then have "fst z \<noteq> 0" using dseg_cell Cons.prems(2) unfolding dlist_def by fastforce
      moreover have "dprev n = fst z" using n(6) snoc by simp
      ultimately show ?thesis using snoc dlist_headp [OF Cons.prems(2)] by (cases zs) auto
    qed (use n in simp)
    obtain h' where h': "n_dlist_remove_all_loop h3 (headp (xs @ ys) 0) d (headp ys 0)
        = Some (h', headp (xs @ filter (\<lambda>x. snd x \<noteq> d) ys) 0)" "hstep (nodes_of (xs @ ys)) 0 h3 h'"
      "dlist h' (headp (xs @ filter (\<lambda>x. snd x \<noteq> d) ys) 0) (xs @ filter (\<lambda>x. snd x \<noteq> d) ys)"
      "\<forall>x \<in> set ys. snd x = d \<longrightarrow> cells h' (fst x) = None"
      using Cons.IH [OF hstep_wf [OF h3(2)] l3] by blast
    have "n_dlist_remove_all_loop h p d (fst y) = Some (h', headp (xs @ filter (\<lambda>x. snd x \<noteq> d) ys) 0)"
      using n(1,3,4) True h(1,2) h3(1) h'(1) p unfolding n(5,6)
      by (subst n_dlist_remove_all_loop.simps) (simp add: n_slice_free1_def n(5,6) del: if_split cong: if_cong)
    moreover have st: "hstep (nodes_of (xs @ y # ys)) 0 h h3"
      by (rule hstep_trans2 [OF h(3) h3(2)]) auto
    have "hstep (nodes_of (xs @ y # ys)) 0 h h'"
      by (rule hstep_trans2 [OF st h'(2)]) auto
    moreover have "cells h' (fst y) = None"
      using hstep_cells [OF h'(2), of "fst y"] h3(3) d by auto
    ultimately show ?thesis using h'(3,4) True by simp
  qed
qed

lemma n_dlist_remove_all_spec:
  assumes "wf_heap h" and "dlist h p ys"
  shows "\<exists>h'. n_dlist_remove_all h p d = Some (h', headp (filter (\<lambda>x. snd x \<noteq> d) ys) 0) \<and>
    hstep (nodes_of ys) 0 h h' \<and> dlist h' (headp (filter (\<lambda>x. snd x \<noteq> d) ys) 0) (filter (\<lambda>x. snd x \<noteq> d) ys) \<and>
    (\<forall>x \<in> set ys. snd x = d \<longrightarrow> cells h' (fst x) = None)"
  using n_dlist_remove_all_loop_spec [OF assms(1), of p "[]" ys d] assms(2) dlist_headp [OF assms(2)]
  by (simp add: n_dlist_remove_all_def)

section \<open>Adding a node\<close>

lemma dalloc:
  assumes "wf_heap h" and "0 < avail h"
  obtains h0 h1 where "n_slice_alloc h = (h0, brk h)" "set_data h0 (brk h) d = Some h1" "hstep {brk h} 1 h h1"
    "cells h1 (brk h) = Some ((junk h)\<lparr>ddata := d\<rparr>)" "brk h \<noteq> 0"
proof -
  let ?h0 = "h\<lparr>brk := Suc (brk h), avail := avail h - 1, cells := (cells h)(brk h \<mapsto> junk h)\<rparr>"
  let ?h1 = "h\<lparr>brk := Suc (brk h), avail := avail h - 1, cells := (cells h)(brk h \<mapsto> (junk h)\<lparr>ddata := d\<rparr>)\<rparr>"
  show thesis
    by (rule that [of ?h0 ?h1])
      (use assms in \<open>auto simp: n_slice_alloc_def malloc_def modify_def load_def store_def hstep_def wf_heap_def\<close>)
qed

text \<open>Writing one field of a node that is in none of the lists at hand.\<close>

lemma set_field:
  assumes "wf_heap h" and "cells h b = Some n"
  obtains h' where "modify h b g = Some h'" "hstep {b} 0 h h'" "cells h' b = Some (g n)"
  using modify_ok [OF assms, of g] by (metis fun_upd_same)

lemma n_dlist_prepend_spec:
  assumes "wf_heap h" and "0 < avail h" and "dlist h p xs"
  shows "\<exists>h'. n_dlist_prepend h p d = Some (h', brk h) \<and> hstep (insert (brk h) (nodes_of xs)) 1 h h' \<and>
    dlist h' (brk h) ((brk h, d) # xs)"
proof -
  let ?b = "brk h"
  have fr: "?b \<notin> nodes_of xs" using dseg_fresh [OF assms(1)] assms(3) unfolding dlist_def by blast
  obtain h0 h1 where h1: "n_slice_alloc h = (h0, ?b)" "set_data h0 ?b d = Some h1" "hstep {?b} 1 h h1"
    "cells h1 ?b = Some ((junk h)\<lparr>ddata := d\<rparr>)" "?b \<noteq> 0"
    using dalloc [OF assms(1,2)] by blast
  obtain h2 where h2: "set_next h1 ?b p = Some h2" "hstep {?b} 0 h1 h2"
    "cells h2 ?b = Some ((junk h)\<lparr>ddata := d, dnext := p\<rparr>)"
    using set_field [OF hstep_wf [OF h1(3)] h1(4), of "\<lambda>n. n\<lparr>dnext := p\<rparr>"] by auto
  obtain h3 where h3: "set_prev h2 ?b 0 = Some h3" "hstep {?b} 0 h2 h3"
    "cells h3 ?b = Some ((junk h)\<lparr>ddata := d, dnext := p, dprev := 0\<rparr>)"
    using set_field [OF hstep_wf [OF h2(2)] h2(3), of "\<lambda>n. n\<lparr>dprev := 0\<rparr>"] by auto
  have st2: "hstep {?b} 1 h h2" by (rule hstep_trans2 [OF h1(3) h2(2)]) auto
  have st: "hstep {?b} 1 h h3" by (rule hstep_trans2 [OF st2 h3(2)]) auto
  have xs3: "dseg (cells h3) p 0 xs 0"
    using dlist_hstep [OF assms(3) st] fr by (simp add: dlist_def)
  have new: "dseg (cells h3) ?b 0 [(?b, d)] p" using h3(3) h1(5) by (simp add: dseg_Cons)
  have d: "distinct (map fst xs)" by (rule dlist_distinct [OF assms(3)])
  obtain h4 where h4: "(if p \<noteq> NULL then set_prev h3 p ?b else Some h3) = Some h4"
    "hstep (nodes_of xs \<inter> {p}) 0 h3 h4" "dseg (cells h4) p ?b xs 0"
    using set_prev_seg [OF hstep_wf [OF st] xs3 d] by blast
  have "dseg (cells h4) ?b 0 [(?b, d)] p" by (rule dseg_hstep [OF new h4(2)]) (use fr in auto)
  then have l: "dlist h4 ?b ((?b, d) # xs)"
    using h4(3) dseg_append [of "cells h4" ?b 0 "[(?b, d)]" xs 0] by (auto simp: dlist_def)
  have "n_dlist_prepend h p d = Some (h4, ?b)"
  proof (cases "p = 0")
    case True
    then show ?thesis using h1 h2 h3 h4(1) by (simp add: n_dlist_prepend_def)
  next
    case False
    obtain x ys where xs: "xs = x # ys" using assms(3) False by (cases xs) (auto simp: dlist_def)
    obtain n where n: "x = (p, ddata n)" "cells h p = Some n" "dprev n = 0"
      using assms(3) unfolding dlist_def xs by (rule dseg_ConsE)
    have "p \<noteq> ?b" using fr xs n(1) by auto
    then have "load h2 p = Some n" using hstep_cells [OF st2, of p] n(2) False by (simp add: load_def)
    then show ?thesis using h1 h2 h3 h4(1) n(3) False by (simp add: n_dlist_prepend_def)
  qed
  moreover have "hstep (insert ?b (nodes_of xs)) 1 h h4"
    by (rule hstep_trans2 [OF st h4(2)]) auto
  ultimately show ?thesis using l by blast
qed

lemma n_dlist_last_loop_spec:
  "dseg (cells h) p pr (x # xs) 0 \<Longrightarrow> n_dlist_last_loop h p = Some (lastp 0 (x # xs))"
proof (induction xs arbitrary: p pr x)
  case Nil
  then obtain n where "x = (p, ddata n)" "load h p = Some n" "dnext n = 0"
    by (rule dseg_ConsE) simp
  then show ?case by (simp add: n_dlist_last_loop.simps [of h p])
next
  case (Cons y ys)
  obtain n where n: "x = (p, ddata n)" "load h p = Some n" "dseg (cells h) (dnext n) p (y # ys) 0"
    using Cons.prems by (rule dseg_ConsE)
  then have "dnext n \<noteq> 0" by (auto simp: dseg_Cons)
  then show ?case using n Cons.IH [OF n(3)] by (simp add: n_dlist_last_loop.simps [of h p])
qed

lemma n_dlist_last_spec: "dlist h p xs \<Longrightarrow> n_dlist_last h p = Some (lastp 0 xs)"
proof (cases xs)
  case (Cons x ys)
  moreover assume l: "dlist h p xs"
  ultimately have "p \<noteq> 0" by (cases "p = 0") (simp_all add: dlist_def)
  then show ?thesis using l Cons n_dlist_last_loop_spec [of h p 0 x ys] by (simp add: n_dlist_last_def dlist_def)
qed (simp add: n_dlist_last_def dlist_def)

lemma n_dlist_append_spec:
  assumes "wf_heap h" and "0 < avail h" and "dlist h p xs"
  shows "\<exists>h'. n_dlist_append h p d = Some (h', headp (xs @ [(brk h, d)]) 0) \<and>
    hstep (insert (brk h) (nodes_of xs)) 1 h h' \<and> dlist h' (headp (xs @ [(brk h, d)]) 0) (xs @ [(brk h, d)])"
proof -
  let ?b = "brk h"
  have fr: "?b \<notin> nodes_of xs" using dseg_fresh [OF assms(1)] assms(3) unfolding dlist_def by blast
  obtain h0 h1 where h1: "n_slice_alloc h = (h0, ?b)" "set_data h0 ?b d = Some h1" "hstep {?b} 1 h h1"
    "cells h1 ?b = Some ((junk h)\<lparr>ddata := d\<rparr>)" "?b \<noteq> 0"
    using dalloc [OF assms(1,2)] by blast
  obtain h2 where h2: "set_next h1 ?b 0 = Some h2" "hstep {?b} 0 h1 h2"
    "cells h2 ?b = Some ((junk h)\<lparr>ddata := d, dnext := 0\<rparr>)"
    using set_field [OF hstep_wf [OF h1(3)] h1(4), of "\<lambda>n. n\<lparr>dnext := 0\<rparr>"] by auto
  have st: "hstep {?b} 1 h h2" by (rule hstep_trans2 [OF h1(3) h2(2)]) auto
  have xs2: "dlist h2 p xs" by (rule dlist_hstep [OF assms(3) st]) (use fr in auto)
  have new: "dseg (cells h2) ?b (dprev (junk h)) [(?b, d)] 0" using h2(3) h1(5) by (simp add: dseg_Cons)
  have d: "distinct (map fst (xs @ [(?b, d)]))" using dlist_distinct [OF assms(3)] fr by auto
  obtain h3 where h3: "djoin h2 (lastp 0 xs) ?b = Some h3"
    "hstep (nodes_of (xs @ [(?b, d)]) \<inter> {lastp 0 xs, ?b}) 0 h2 h3" "dlist h3 (headp xs ?b) (xs @ [(?b, d)])"
    using djoin_spec [OF hstep_wf [OF st] xs2 [unfolded dlist_def] new d] by blast
  have hp: "headp xs ?b = headp (xs @ [(?b, d)]) 0" by (cases xs) auto
  have "n_dlist_append h p d = Some (h3, headp (xs @ [(?b, d)]) 0)"
  proof (cases xs rule: rev_cases)
    case Nil
    then have "p = 0" using assms(3) by (simp add: dlist_def)
    then show ?thesis using h1 h2 h3(1) Nil by (simp add: n_dlist_append_def djoin_def)
  next
    case (snoc zs z)
    have z: "fst z \<noteq> 0" using dseg_cell [OF assms(3) [unfolded dlist_def], of "fst z"] snoc by auto
    have p: "p \<noteq> 0" using assms(3) snoc by (cases "p = 0") (simp_all add: dlist_def)
    have "p = headp (xs @ [(?b, d)]) 0" using dlist_headp [OF assms(3)] snoc by (cases zs) auto
    then show ?thesis using h1 h2 h3(1) n_dlist_last_spec [OF xs2] z p snoc
      by (auto simp: n_dlist_append_def djoin_def bind_eq_Some_conv)
  qed
  moreover have "hstep (insert ?b (nodes_of xs)) 1 h h3"
    by (rule hstep_trans2 [OF st h3(2)]) auto
  ultimately show ?thesis using h3(3) hp by auto
qed

section \<open>Reversing\<close>

lemma n_dlist_reverse_loop_spec:
  "wf_heap h \<Longrightarrow> dseg (cells h) p q xs 0 \<Longrightarrow> dseg (cells h) q p ys 0 \<Longrightarrow> distinct (map fst (xs @ ys)) \<Longrightarrow>
   \<exists>h'. n_dlist_reverse_loop h q p = Some (h', headp (rev xs @ ys) 0) \<and> hstep (nodes_of xs) 0 h h' \<and>
     dlist h' (headp (rev xs @ ys) 0) (rev xs @ ys)"
proof (induction xs arbitrary: h p q ys)
  case Nil
  then show ?case using dseg_headp [OF Nil(3)]
    by (simp add: n_dlist_reverse_loop.simps hstep_refl dlist_def)
next
  case (Cons x xs)
  obtain n where n: "x = (p, ddata n)" "p \<noteq> 0" "cells h p = Some n" "load h p = Some n" "dprev n = q"
    "dseg (cells h) (dnext n) p xs 0"
    using Cons.prems(2) by (rule dseg_ConsE)
  have np: "p \<notin> nodes_of xs" "p \<notin> nodes_of ys" using Cons.prems(4) n(1) by auto
  note m1 = modify_loaded [OF n(4)]
  let ?h2 = "store (store h p (n\<lparr>dnext := dprev n\<rparr>)) p (n\<lparr>dnext := dprev n, dprev := dnext n\<rparr>)"
  have m2: "set_prev (store h p (n\<lparr>dnext := dprev n\<rparr>)) p (dnext n) = Some ?h2"
    using modify_loaded(1) [OF m1(2)] by simp
  have st: "hstep {p} 0 h ?h2"
    using Cons.prems(1) n(3) by (auto simp: hstep_def wf_heap_def)
  have xs: "dseg (cells ?h2) (dnext n) p xs 0"
    by (rule dseg_hstep [OF n(6) st]) (use np in auto)
  have ys: "dseg (cells ?h2) q p ys 0"
    by (rule dseg_hstep [OF Cons.prems(3) st]) (use np in auto)
  have "dseg (cells ?h2) p (dnext n) (x # ys) 0"
    using ys n(1,2,5) by (simp add: dseg_Cons)
  moreover have "distinct (map fst (xs @ x # ys))" using Cons.prems(4) by auto
  ultimately obtain h' where h': "n_dlist_reverse_loop ?h2 p (dnext n) = Some (h', headp (rev xs @ x # ys) 0)"
    "hstep (nodes_of xs) 0 ?h2 h'" "dlist h' (headp (rev xs @ x # ys) 0) (rev xs @ x # ys)"
    using Cons.IH [OF hstep_wf [OF st] xs] by blast
  have "hstep (nodes_of (x # xs)) 0 h h'"
    by (rule hstep_trans2 [OF st h'(2)]) (use n(1) in auto)
  then show ?case using h' n m1(1) m2 by (simp add: n_dlist_reverse_loop.simps [of h q p])
qed

lemma n_dlist_reverse_spec:
  assumes "wf_heap h" and "dlist h p xs"
  shows "\<exists>h'. n_dlist_reverse h p = Some (h', headp (rev xs) 0) \<and> hstep (nodes_of xs) 0 h h' \<and>
    dlist h' (headp (rev xs) 0) (rev xs)"
  using n_dlist_reverse_loop_spec [OF assms(1), of p 0 xs "[]"] assms(2) dlist_distinct [OF assms(2)]
  by (simp add: n_dlist_reverse_def dlist_def)

end
