(* ===== verification/Onefile.thy ===== *)
theory Onefile
  imports Files
begin

text \<open>
  The "one file" VFS of test/test_onefile.c: a database and its journal inside one blob, a file of
  the parent VFS. The parent is a record of functions over its own state \<open>'p\<close>; \<open>'f\<close> is an open
  file of the parent. A read of the parent does not change its state. \<open>fs_real_file\<close> objects live
  in a store and are linked through \<open>pNext\<close> and \<open>ppThis\<close>.
\<close>

section \<open>State\<close>

record ('f, 'p) parent_vfs =
  xOpen :: "string \<Rightarrow> u32 \<Rightarrow> 'p \<Rightarrow> int \<times> 'f option \<times> 'p"
  xClose :: "'f \<Rightarrow> 'p \<Rightarrow> int \<times> 'p"
  xRead :: "'f \<Rightarrow> bytes \<Rightarrow> int \<Rightarrow> 'p \<Rightarrow> (int \<times> bytes) option"
  xWrite :: "'f \<Rightarrow> bytes \<Rightarrow> int \<Rightarrow> 'p \<Rightarrow> (int \<times> 'p) option"
  xSync :: "'f \<Rightarrow> u32 \<Rightarrow> 'p \<Rightarrow> int \<times> 'p"
  xFileSize :: "'f \<Rightarrow> 'p \<Rightarrow> int \<times> int"
  xAccess :: "string \<Rightarrow> int \<Rightarrow> 'p \<Rightarrow> int \<times> int \<times> 'p"

text \<open>\<open>*ppThis\<close> is either \<open>fs_vfs.pFileList\<close> or the \<open>pNext\<close> of another object.\<close>

datatype slot = PFileList | PNextOf ptr

record 'f fs_real_file =
  pFile :: "'f option"
  zName :: string
  nDatabase :: int
  nJournal :: int
  nBlob :: int
  nRef :: int
  pNext :: ptr
  ppThis :: slot

record fs_file =
  eType :: int
  pReal :: ptr

record ('f, 'p) fs_vfs =
  pFileList :: ptr
  reals :: "'f fs_real_file heap"
  pParent :: 'p

definition BLOCKSIZE :: int where "BLOCKSIZE = 512"
definition BLOBSIZE :: int where "BLOBSIZE = 10485760"
definition DATABASE_FILE :: int where "DATABASE_FILE = 1"
definition JOURNAL_FILE :: int where "JOURNAL_FILE = 2"

definition real_zero :: "'f fs_real_file" where
  "real_zero = \<lparr>pFile = None, zName = [], nDatabase = 0, nJournal = 0, nBlob = 0, nRef = 0,
     pNext = NULL, ppThis = PFileList\<rparr>"

section \<open>Names\<close>

text \<open>\<open>strncmp(a, b, n) == 0\<close>; a negative \<open>n\<close> becomes a huge \<open>size_t\<close>.\<close>

definition strncmp_eq :: "string \<Rightarrow> string \<Rightarrow> int \<Rightarrow> bool" where
  "strncmp_eq a b n =
     (if n < 0 then a = b
      else take (nat n) (a @ [CHR 0x00]) = take (nat n) (b @ [CHR 0x00]))"

partial_function (option) fs_find :: "'f fs_real_file heap \<Rightarrow> string \<Rightarrow> int \<Rightarrow> ptr \<Rightarrow> ptr option" where
  "fs_find h z nName p =
     (if p = NULL then Some NULL
      else do {
        r \<leftarrow> load h p;
        if strncmp_eq (zName r) z nName then Some p else fs_find h z nName (pNext r) })"

section \<open>Opening and closing\<close>

text \<open>The big-endian size in the first four bytes of the blob, as a signed \<open>int\<close>.\<close>

definition get_size :: "bytes \<Rightarrow> int" where
  "get_size zS = c_int (uint (zS ! 0) * 2 ^ 24 + uint (zS ! 1) * 2 ^ 16 + uint (zS ! 2) * 2 ^ 8 + uint (zS ! 3))"

definition put_size :: "int \<Rightarrow> bytes" where
  "put_size n = [word_of_int (n div 2 ^ 24), word_of_int (n div 2 ^ 16), word_of_int (n div 2 ^ 8), word_of_int n]"

definition fs_setup ::
  "('f, 'p) parent_vfs \<Rightarrow> 'f \<Rightarrow> 'f fs_real_file \<Rightarrow> 'p \<Rightarrow> (int \<times> 'f fs_real_file \<times> 'p) option" where
  "fs_setup pm f r p =
     (let (rc, siz) = xFileSize pm f p in
      if rc \<noteq> SQLITE_OK then Some (rc, r, p)
      else if siz = 0 then do {
        (rc, p) \<leftarrow> xWrite pm f [0] (BLOBSIZE - 1) p;
        Some (rc, r\<lparr>nBlob := BLOBSIZE\<rparr>, p) }
      else do {
        let r = r\<lparr>nBlob := c_int siz\<rparr>;
        (rc, zS) \<leftarrow> xRead pm f [0, 0, 0, 0] 0 p;
        let r = r\<lparr>nDatabase := get_size zS\<rparr>;
        if rc = SQLITE_OK then do {
          (rc, zS) \<leftarrow> xRead pm f zS (nBlob r - 4) p;
          Some (rc, if zS ! 0 \<noteq> 0 \<or> zS ! 1 \<noteq> 0 \<or> zS ! 2 \<noteq> 0 \<or> zS ! 3 \<noteq> 0
                    then r\<lparr>nJournal := nBlob r\<rparr> else r, p) }
        else Some (rc, r, p) })"

text \<open>The branch of \<open>fsOpen\<close> that creates a new \<open>fs_real_file\<close>.\<close>

definition fs_new_real ::
  "('f, 'p) parent_vfs \<Rightarrow> string \<Rightarrow> u32 \<Rightarrow> ('f, 'p) fs_vfs \<Rightarrow> (int \<times> ptr \<times> ('f, 'p) fs_vfs) option" where
  "fs_new_real pm z flags v =
     (let real_flags = or (and flags (not SQLITE_OPEN_MAIN_DB)) SQLITE_OPEN_TEMP_DB;
          (h, a) = malloc (reals v) in
      if a = NULL then Some (SQLITE_NOMEM, NULL, v)
      else do {
        let r = real_zero\<lparr>zName := z\<rparr>;
        let (rc, fo, p) = xOpen pm z real_flags (pParent v);
        let r = r\<lparr>pFile := fo\<rparr>;
        if rc \<noteq> SQLITE_OK then Some (rc, a, v\<lparr>reals := store h a r, pParent := p\<rparr>)
        else do {
          f \<leftarrow> fo;
          (rc, r, p) \<leftarrow> fs_setup pm f r p;
          if rc \<noteq> SQLITE_OK then Some (rc, a, v\<lparr>reals := store h a r, pParent := p\<rparr>)
          else do {
            let r = r\<lparr>pNext := pFileList v\<rparr>;
            h \<leftarrow> (if pNext r \<noteq> NULL then modify h (pNext r) (\<lambda>x. x\<lparr>ppThis := PNextOf a\<rparr>) else Some h);
            Some (rc, a, v\<lparr>reals := store h a (r\<lparr>ppThis := PFileList\<rparr>), pFileList := a, pParent := p\<rparr>) } } })"

definition fsOpen ::
  "('f, 'p) parent_vfs \<Rightarrow> string \<Rightarrow> fs_file \<Rightarrow> u32 \<Rightarrow> ('f, 'p) fs_vfs
    \<Rightarrow> (int \<times> fs_file \<times> ('f, 'p) fs_vfs) option" where
  "fsOpen pm z p flags v = do {
     let ty = (if and flags SQLITE_OPEN_MAIN_DB \<noteq> 0 then DATABASE_FILE else JOURNAL_FILE);
     let p = p\<lparr>eType := ty\<rparr>;
     let nName = int (length z) - (if ty = JOURNAL_FILE then 8 else 0);
     a \<leftarrow> fs_find (reals v) z nName (pFileList v);
     (rc, a, v) \<leftarrow> (if a = NULL then do { check (ty = DATABASE_FILE); fs_new_real pm z flags v }
                   else Some (SQLITE_OK, a, v));
     if a \<noteq> NULL then
       if rc = SQLITE_OK then do {
         h \<leftarrow> modify (reals v) a (\<lambda>r. r\<lparr>nRef := nRef r + 1\<rparr>);
         Some (rc, p\<lparr>pReal := a\<rparr>, v\<lparr>reals := h\<rparr>) }
       else do {
         r \<leftarrow> load (reals v) a;
         h \<leftarrow> dealloc (reals v) a;
         Some (rc, p, v\<lparr>reals := h, pParent :=
           (case pFile r of Some f \<Rightarrow> snd (xClose pm f (pParent v)) | None \<Rightarrow> pParent v)\<rparr>) }
     else Some (rc, p, v) }"

definition fs_set_slot :: "slot \<Rightarrow> ptr \<Rightarrow> ('f, 'p) fs_vfs \<Rightarrow> ('f, 'p) fs_vfs option" where
  "fs_set_slot s a v = (case s of
     PFileList \<Rightarrow> Some (v\<lparr>pFileList := a\<rparr>)
   | PNextOf b \<Rightarrow> do { h \<leftarrow> modify (reals v) b (\<lambda>r. r\<lparr>pNext := a\<rparr>); Some (v\<lparr>reals := h\<rparr>) })"

definition fsClose ::
  "('f, 'p) parent_vfs \<Rightarrow> fs_file \<Rightarrow> ('f, 'p) fs_vfs \<Rightarrow> (int \<times> ('f, 'p) fs_vfs) option" where
  "fsClose pm p v = do {
     h \<leftarrow> modify (reals v) (pReal p) (\<lambda>r. r\<lparr>nRef := nRef r - 1\<rparr>);
     let v = v\<lparr>reals := h\<rparr>;
     r \<leftarrow> load (reals v) (pReal p);
     check (nRef r \<ge> 0);
     if nRef r = 0 then do {
       v \<leftarrow> fs_set_slot (ppThis r) (pNext r) v;
       h \<leftarrow> (if pNext r \<noteq> NULL then modify (reals v) (pNext r) (\<lambda>x. x\<lparr>ppThis := ppThis r\<rparr>)
            else Some (reals v));
       f \<leftarrow> pFile r;
       let (rc, p') = xClose pm f (pParent v);
       h \<leftarrow> dealloc h (pReal p);
       Some (rc, v\<lparr>reals := h, pParent := p'\<rparr>) }
     else Some (SQLITE_OK, v) }"

section \<open>Journal offsets\<close>

text \<open>
  The journal grows backwards in blocks: its byte \<open>ii\<close> is at \<open>iRealOff\<close> of the blob, and one
  transfer moves \<open>iRealAmt\<close> bytes, at most to the end of a block. \<open>/\<close> and \<open>%\<close> of C round to zero.
\<close>

definition iRealOff :: "int \<Rightarrow> int \<Rightarrow> int" where
  "iRealOff nB ii = c_int (nB - BLOCKSIZE * (ii sdiv BLOCKSIZE + 1) + ii smod BLOCKSIZE)"

definition iRealAmt :: "int \<Rightarrow> int \<Rightarrow> int" where
  "iRealAmt iRem off = min iRem (BLOCKSIZE - off smod BLOCKSIZE)"

lemma smod_less: "0 < b \<Longrightarrow> (a::int) smod b < b"
proof (cases "0 \<le> a")
  case True
  assume "0 < b" then show ?thesis using True by (simp add: smod_pos)
next
  case False
  assume b: "0 < b"
  have "a smod b = - ((- a) mod b)"
    using False b by (simp add: signed_modulo_int_def signed_divide_int_def minus_div_mult_eq_mod
      minus_mod_eq_mult_div [symmetric] sgn_if algebra_simps)
  then show ?thesis using b pos_mod_sign [of b "- a"] by linarith
qed

lemma iRealAmt_pos: "0 < iRem \<Longrightarrow> 0 < iRealAmt iRem off"
  using smod_less [of BLOCKSIZE off] by (simp add: iRealAmt_def BLOCKSIZE_def)

function fs_journal_read ::
  "('f, 'p) parent_vfs \<Rightarrow> 'f option \<Rightarrow> int \<Rightarrow> 'p \<Rightarrow> int \<Rightarrow> int \<Rightarrow> int \<Rightarrow> int \<Rightarrow> bytes \<Rightarrow> (int \<times> bytes) option" where
  "fs_journal_read pm fo nB p rc iRem iBuf ii zBuf =
     (if iRem > 0 \<and> rc = SQLITE_OK then do {
        let off = iRealOff nB ii;
        let amt = iRealAmt iRem off;
        old \<leftarrow> mem_get zBuf iBuf amt;
        f \<leftarrow> fo;
        (rc, out) \<leftarrow> xRead pm f old off p;
        zBuf \<leftarrow> mem_put zBuf iBuf out;
        fs_journal_read pm fo nB p rc (iRem - amt) (iBuf + amt) (c_int (ii + amt)) zBuf }
      else Some (rc, zBuf))"
  by pat_completeness auto
termination
  by (relation "measure (\<lambda>(pm, f, nB, p, rc, iRem, iBuf, ii, zBuf). nat iRem)") (auto simp: iRealAmt_pos)

function fs_journal_write ::
  "('f, 'p) parent_vfs \<Rightarrow> 'f option \<Rightarrow> int \<Rightarrow> int \<Rightarrow> bytes \<Rightarrow> int \<Rightarrow> int \<Rightarrow> int \<Rightarrow> int \<Rightarrow> 'p \<Rightarrow> (int \<times> 'p) option" where
  "fs_journal_write pm fo nB nDb zBuf rc iRem iBuf ii p =
     (if iRem > 0 \<and> rc = SQLITE_OK then
        let off = iRealOff nB ii; amt = iRealAmt iRem off in
        if off < nDb + BLOCKSIZE then fs_journal_write pm fo nB nDb zBuf SQLITE_FULL iRem iBuf ii p
        else do {
          f \<leftarrow> fo;
          z \<leftarrow> mem_get zBuf iBuf amt;
          (rc, p) \<leftarrow> xWrite pm f z off p;
          fs_journal_write pm fo nB nDb zBuf rc (iRem - amt) (iBuf + amt) (c_int (ii + amt)) p }
      else Some (rc, p))"
  by pat_completeness auto
termination
  by (relation "measures [\<lambda>(pm, f, nB, nDb, zBuf, rc, iRem, iBuf, ii, p). nat iRem,
        \<lambda>(pm, f, nB, nDb, zBuf, rc, iRem, iBuf, ii, p). if rc = SQLITE_OK then 1 else 0]")
    (auto simp: iRealAmt_pos rc_defs)

declare fs_journal_read.simps [simp del] fs_journal_write.simps [simp del]

section \<open>I/O methods\<close>

definition fsRead ::
  "('f, 'p) parent_vfs \<Rightarrow> fs_file \<Rightarrow> bytes \<Rightarrow> int \<Rightarrow> ('f, 'p) fs_vfs \<Rightarrow> (int \<times> bytes) option" where
  "fsRead pm p zBuf iOfst v = do {
     let iAmt = int (length zBuf);
     r \<leftarrow> load (reals v) (pReal p);
     if (eType p = DATABASE_FILE \<and> iAmt + iOfst > nDatabase r)
        \<or> (eType p = JOURNAL_FILE \<and> iAmt + iOfst > nJournal r)
     then Some (SQLITE_IOERR_SHORT_READ, zBuf)
     else if eType p = DATABASE_FILE then do {
       pF \<leftarrow> pFile r;
       xRead pm pF zBuf (iOfst + BLOCKSIZE) (pParent v) }
     else fs_journal_read pm (pFile r) (nBlob r) (pParent v) SQLITE_OK iAmt 0 (c_int iOfst) zBuf }"

definition fsWrite ::
  "('f, 'p) parent_vfs \<Rightarrow> fs_file \<Rightarrow> bytes \<Rightarrow> int \<Rightarrow> ('f, 'p) fs_vfs \<Rightarrow> (int \<times> ('f, 'p) fs_vfs) option" where
  "fsWrite pm p zBuf iOfst v = do {
     let iAmt = int (length zBuf);
     r \<leftarrow> load (reals v) (pReal p);
     if eType p = DATABASE_FILE then
       if iAmt + iOfst + BLOCKSIZE > nBlob r - nJournal r then Some (SQLITE_FULL, v)
       else do {
         pF \<leftarrow> pFile r;
         (rc, w) \<leftarrow> xWrite pm pF zBuf (iOfst + BLOCKSIZE) (pParent v);
         let v = v\<lparr>pParent := w\<rparr>;
         h \<leftarrow> (if rc = SQLITE_OK
              then modify (reals v) (pReal p) (\<lambda>r. r\<lparr>nDatabase := c_int (max (nDatabase r) (iAmt + iOfst))\<rparr>)
              else Some (reals v));
         Some (rc, v\<lparr>reals := h\<rparr>) }
     else do {
       (rc, w) \<leftarrow> fs_journal_write pm (pFile r) (nBlob r) (nDatabase r) zBuf SQLITE_OK iAmt 0 (c_int iOfst) (pParent v);
       let v = v\<lparr>pParent := w\<rparr>;
       h \<leftarrow> (if rc = SQLITE_OK
            then modify (reals v) (pReal p) (\<lambda>r. r\<lparr>nJournal := c_int (max (nJournal r) (iAmt + iOfst))\<rparr>)
            else Some (reals v));
       Some (rc, v\<lparr>reals := h\<rparr>) } }"

definition fsTruncate :: "fs_file \<Rightarrow> int \<Rightarrow> ('f, 'p) fs_vfs \<Rightarrow> (int \<times> ('f, 'p) fs_vfs) option" where
  "fsTruncate p siz v = do {
     h \<leftarrow> modify (reals v) (pReal p) (\<lambda>r.
       if eType p = DATABASE_FILE then r\<lparr>nDatabase := c_int (min (nDatabase r) siz)\<rparr>
       else r\<lparr>nJournal := c_int (min (nJournal r) siz)\<rparr>);
     Some (SQLITE_OK, v\<lparr>reals := h\<rparr>) }"

definition fsSync ::
  "('f, 'p) parent_vfs \<Rightarrow> fs_file \<Rightarrow> u32 \<Rightarrow> ('f, 'p) fs_vfs \<Rightarrow> (int \<times> ('f, 'p) fs_vfs) option" where
  "fsSync pm p flags v = do {
     r \<leftarrow> load (reals v) (pReal p);
     pF \<leftarrow> pFile r;
     (rc, w) \<leftarrow> (if eType p = DATABASE_FILE then xWrite pm pF (put_size (nDatabase r)) 0 (pParent v)
                else Some (SQLITE_OK, pParent v));
     if rc = SQLITE_OK then do {
       let (rc, w) = xSync pm pF (and flags (not SQLITE_SYNC_DATAONLY)) w;
       Some (rc, v\<lparr>pParent := w\<rparr>) }
     else Some (rc, v\<lparr>pParent := w\<rparr>) }"

definition fsFileSize :: "fs_file \<Rightarrow> ('f, 'p) fs_vfs \<Rightarrow> (int \<times> int) option" where
  "fsFileSize p v = do {
     r \<leftarrow> load (reals v) (pReal p);
     Some (SQLITE_OK, if eType p = DATABASE_FILE then nDatabase r else nJournal r) }"

text \<open>Locking is a no-op and no other connection ever holds a lock.\<close>

definition fsLock :: "fs_file \<Rightarrow> int \<Rightarrow> int" where "fsLock p l = SQLITE_OK"
definition fsUnlock :: "fs_file \<Rightarrow> int \<Rightarrow> int" where "fsUnlock p l = SQLITE_OK"
definition fsCheckReservedLock :: "fs_file \<Rightarrow> int \<times> int" where "fsCheckReservedLock p = (SQLITE_OK, 0)"
definition fsFileControl :: "fs_file \<Rightarrow> int \<Rightarrow> int" where "fsFileControl p op = SQLITE_OK"
definition fsSectorSize :: "fs_file \<Rightarrow> int" where "fsSectorSize p = BLOCKSIZE"
definition fsDeviceCharacteristics :: "fs_file \<Rightarrow> int" where "fsDeviceCharacteristics p = 0"

section \<open>Methods of the VFS\<close>

definition JOURNAL_SUFFIX :: string where
  "JOURNAL_SUFFIX = ''-journal''"

definition fsDelete ::
  "('f, 'p) parent_vfs \<Rightarrow> string \<Rightarrow> int \<Rightarrow> ('f, 'p) fs_vfs \<Rightarrow> (int \<times> ('f, 'p) fs_vfs) option" where
  "fsDelete pm z dirSync v = do {
     let nName = int (length z) - 8;
     check (0 \<le> nName \<and> drop (nat nName) z = JOURNAL_SUFFIX);
     a \<leftarrow> fs_find (reals v) z nName (pFileList v);
     if a \<noteq> NULL then do {
       r \<leftarrow> load (reals v) a;
       pF \<leftarrow> pFile r;
       (rc, w) \<leftarrow> xWrite pm pF [0, 0, 0, 0] (nBlob r - BLOCKSIZE) (pParent v);
       let v = v\<lparr>pParent := w\<rparr>;
       h \<leftarrow> (if rc = SQLITE_OK then modify (reals v) a (\<lambda>r. r\<lparr>nJournal := 0\<rparr>) else Some (reals v));
       Some (rc, v\<lparr>reals := h\<rparr>) }
     else Some (SQLITE_OK, v) }"

definition fsAccess ::
  "('f, 'p) parent_vfs \<Rightarrow> string \<Rightarrow> int \<Rightarrow> ('f, 'p) fs_vfs \<Rightarrow> (int \<times> int \<times> ('f, 'p) fs_vfs) option" where
  "fsAccess pm z flags v =
     (if flags \<noteq> SQLITE_ACCESS_EXISTS then
        let (rc, res, w) = xAccess pm z flags (pParent v) in Some (rc, res, v\<lparr>pParent := w\<rparr>)
      else do {
        let nName = int (length z);
        let isJournal = (nName > 8 \<and> drop (nat (nName - 8)) z = JOURNAL_SUFFIX);
        let nName = (if isJournal then nName - 8 else nName);
        a \<leftarrow> fs_find (reals v) z nName (pFileList v);
        if a = NULL then Some (SQLITE_OK, 0, v)
        else do {
          r \<leftarrow> load (reals v) a;
          Some (SQLITE_OK, if \<not> isJournal \<or> nJournal r > 0 then 1 else 0, v) } })"

end
