(* ===== verification/Onefile_Spec.thy ===== *)
theory Onefile_Spec
  imports Onefile
begin

text \<open>
  The database and the journal of test/test_onefile.c, read as two files inside the blob. The locale
  \<open>blob\<close> is what the VFS relies on: the parent's file honours the file contract. Over it, the
  database file and the journal file each honour that contract again, and neither disturbs the
  other within the limits stated here.
\<close>

section \<open>The place of a journal byte\<close>

definition jpos :: "nat \<Rightarrow> nat \<Rightarrow> int" where
  "jpos nB i = int nB - 512 * (int i div 512 + 1) + int i mod 512"

lemma jpos_qm: "m < 512 \<Longrightarrow> jpos nB (512 * q + m) = int nB - 512 * (int q + 1) + int m"
  by (simp add: jpos_def)

lemma qm_cases:
  obtains q m :: nat where "i = 512 * q + m" and "m < 512"
  using that [of "i div 512" "i mod 512"] by simp

lemma jpos_bounds:
  assumes "i < nB" and "512 dvd nB"
  shows "0 \<le> jpos nB i" and "jpos nB i < int nB"
proof -
  obtain k where k: "nB = 512 * k" using assms(2) by (auto simp: dvd_def)
  obtain q m where i: "i = 512 * q + m" "m < 512" by (rule qm_cases [of i])
  have "q < k" using assms(1) unfolding k i(1) by linarith
  then show "0 \<le> jpos nB i" "jpos nB i < int nB"
    unfolding i(1) jpos_qm [OF i(2)] using i(2) k by simp_all
qed

lemma jpos_inj: "jpos nB i = jpos nB j \<Longrightarrow> i = j"
proof -
  obtain q m where i: "i = 512 * q + m" "m < 512" by (rule qm_cases [of i])
  obtain r n where j: "j = 512 * r + n" "n < 512" by (rule qm_cases [of j])
  assume "jpos nB i = jpos nB j"
  then have "int (m + 512 * r) = int (n + 512 * q)"
    unfolding i(1) j(1) jpos_qm [OF i(2)] jpos_qm [OF j(2)] by simp
  then have e: "m + 512 * r = n + 512 * q" by (simp only: of_nat_eq_iff)
  have "m = n" using arg_cong [OF e, of "\<lambda>x. x mod 512"] i(2) j(2) by simp
  then show "i = j" using e i j by simp
qed

lemma jpos_add: "i mod 512 + k < 512 \<Longrightarrow> jpos nB (i + k) = jpos nB i + int k"
proof -
  obtain q m where i: "i = 512 * q + m" "m < 512" by (rule qm_cases [of i])
  assume "i mod 512 + k < 512"
  then have "m + k < 512" using i by simp
  then show ?thesis using jpos_qm [of "m + k" nB q] jpos_qm [OF i(2), of nB q] i(1)
    by (simp add: add.assoc)
qed

lemma iRealOff_jpos: "i \<le> nB \<Longrightarrow> nB < 2 ^ 31 \<Longrightarrow> iRealOff (int nB) (int i) = jpos nB i"
proof -
  assume a: "i \<le> nB" "nB < 2 ^ 31"
  obtain q m where i: "i = 512 * q + m" "m < 512" by (rule qm_cases [of i])
  have "- (2 ^ 31) \<le> jpos nB i \<and> jpos nB i < 2 ^ 31"
    using a i(2) unfolding i(1) jpos_qm [OF i(2)] by simp
  then show ?thesis by (simp add: iRealOff_def BLOCKSIZE_def sdiv_pos smod_pos jpos_def)
qed

lemma jpos_mod:
  assumes "512 dvd nB"
  shows "jpos nB i mod 512 = int (i mod 512)"
proof -
  obtain k where k: "nB = 512 * k" using assms by (auto simp: dvd_def)
  obtain q m where i: "i = 512 * q + m" "m < 512" by (rule qm_cases [of i])
  obtain x where "jpos nB i = int m + 512 * x"
    by (rule that [of "int k - int q - 1"]) (simp add: i(1) jpos_qm [OF i(2)] k)
  then have "jpos nB i mod 512 = int m" using i(2) by simp
  then show ?thesis using i by simp
qed

lemma jpos_end: "512 dvd nB \<Longrightarrow> jpos nB nB = - 512"
  by (auto simp: jpos_def dvd_def)

lemma jblock:
  assumes "i < nB" and "512 dvd nB" and "nB < 2 ^ 31" and "0 < rem"
  obtains n where "iRealAmt (int rem) (jpos nB i) = int n" and "0 < n" and "n \<le> rem"
    and "i + n \<le> nB" and "\<And>k. k < n \<Longrightarrow> jpos nB (i + k) = jpos nB i + int k"
    and "c_int (int i + int n) = int (i + n)"
proof -
  let ?n = "min rem (512 - i mod 512)"
  have "i mod 512 < 512" by simp
  have "jpos nB i smod 512 = int (i mod 512)"
    using jpos_bounds [OF assms(1,2)] jpos_mod [OF assms(2), of i] by (simp add: smod_pos)
  then have 1: "iRealAmt (int rem) (jpos nB i) = int ?n"
    using \<open>i mod 512 < 512\<close> by (simp add: iRealAmt_def BLOCKSIZE_def of_nat_min of_nat_diff)
  have 2: "i + ?n \<le> nB"
  proof -
    obtain k where k: "nB = 512 * k" using assms(2) by (auto simp: dvd_def)
    obtain q m where i: "i = 512 * q + m" "m < 512" by (rule qm_cases [of i])
    have "q < k" using assms(1) unfolding k i(1) by linarith
    then have "512 * q + 512 \<le> nB" using k by linarith
    then show ?thesis using i by simp
  qed
  have 3: "jpos nB (i + k) = jpos nB i + int k" if "k < ?n" for k
    by (rule jpos_add) (use that in \<open>simp add: less_diff_conv\<close>)
  have 4: "c_int (int i + int ?n) = int (i + ?n)"
  proof -
    have "i + ?n < 2 ^ 31" using 2 assms(3) by (rule le_less_trans)
    then have "int (i + ?n) < 2 ^ 31" by simp
    then show ?thesis using c_int_id [of "int (i + ?n)"] by simp
  qed
  show thesis by (rule that [OF 1 _ _ 2 3 4]) (use assms(4) in auto)
qed

text \<open>A journal of whole blocks lies at the end of the blob.\<close>

lemma jpos_ge:
  assumes "k < nJ" and "512 dvd nJ"
  shows "int nB - int nJ \<le> jpos nB k"
proof -
  obtain j where j: "nJ = 512 * j" using assms(2) by (auto simp: dvd_def)
  obtain q m where k: "k = 512 * q + m" "m < 512" by (rule qm_cases [of k])
  have "q < j" using assms(1) unfolding j k(1) by linarith
  then show ?thesis unfolding k(1) jpos_qm [OF k(2)] j using k(2) by simp
qed

section \<open>The two files of a blob\<close>

definition sizes_ok :: "'f fs_real_file \<Rightarrow> bool" where
  "sizes_ok r \<longleftrightarrow> 0 \<le> nDatabase r \<and> nDatabase r + 512 \<le> nBlob r \<and> 0 \<le> nJournal r \<and> nJournal r \<le> nBlob r
     \<and> 512 dvd nBlob r \<and> nBlob r < 2 ^ 31"

definition real_ok :: "('p \<Rightarrow> bytes) \<Rightarrow> ('p \<Rightarrow> bool) \<Rightarrow> 'f \<Rightarrow> ptr \<Rightarrow> ('f, 'p) fs_vfs \<Rightarrow> bool" where
  "real_ok view ok f a v \<longleftrightarrow> ok (pParent v) \<and> (\<exists>r. load (reals v) a = Some r \<and> pFile r = Some f
     \<and> sizes_ok r \<and> nBlob r \<le> int (length (view (pParent v))))"

definition db_view :: "('p \<Rightarrow> bytes) \<Rightarrow> ptr \<Rightarrow> ('f, 'p) fs_vfs \<Rightarrow> bytes" where
  "db_view view a v = (case load (reals v) a of
     Some r \<Rightarrow> slice_of (view (pParent v)) 512 (nat (nDatabase r)) | None \<Rightarrow> [])"

definition journal_view :: "('p \<Rightarrow> bytes) \<Rightarrow> ptr \<Rightarrow> ('f, 'p) fs_vfs \<Rightarrow> bytes" where
  "journal_view view a v = (case load (reals v) a of
     Some r \<Rightarrow> map (\<lambda>k. view (pParent v) ! nat (jpos (nat (nBlob r)) k)) [0..<nat (nJournal r)] | None \<Rightarrow> [])"

definition db_handle :: "ptr \<Rightarrow> fs_file" where
  "db_handle a = \<lparr>eType = DATABASE_FILE, pReal = a\<rparr>"

definition journal_handle :: "ptr \<Rightarrow> fs_file" where
  "journal_handle a = \<lparr>eType = JOURNAL_FILE, pReal = a\<rparr>"

lemmas handle_defs = db_handle_def journal_handle_def DATABASE_FILE_def JOURNAL_FILE_def

lemma real_okE:
  assumes "real_ok view ok f a v"
  obtains r nB nD nJ where "load (reals v) a = Some r" "a \<noteq> 0" "pFile r = Some f" "ok (pParent v)" "nBlob r = int nB"
    "nDatabase r = int nD" "nJournal r = int nJ" "nD + 512 \<le> nB" "nJ \<le> nB" "512 dvd nB" "nB < 2 ^ 31"
    "nB \<le> length (view (pParent v))" "db_view view a v = slice_of (view (pParent v)) 512 nD"
    "journal_view view a v = map (\<lambda>k. view (pParent v) ! nat (jpos nB k)) [0..<nJ]"
    "length (db_view view a v) = nD" "length (journal_view view a v) = nJ"
proof -
  obtain r where r: "load (reals v) a = Some r" "pFile r = Some f" "sizes_ok r" "ok (pParent v)"
    "nBlob r \<le> int (length (view (pParent v)))"
    using assms by (auto simp: real_ok_def)
  obtain nB nD nJ where n: "nBlob r = int nB" "nDatabase r = int nD" "nJournal r = int nJ"
    using r(3) by (metis sizes_ok_def nonneg_int_cases order_trans add_increasing2 zero_le_numeral)
  have "a \<noteq> 0" using r(1) by (cases "a = 0") auto
  have dvd: "512 dvd nB" using r(3) int_dvd_int_iff [of 512 nB] by (simp add: sizes_ok_def n)
  show thesis
    by (rule that [of r nB nD nJ])
      (use r n \<open>a \<noteq> 0\<close> dvd in \<open>auto simp: sizes_ok_def db_view_def journal_view_def\<close>)
qed

lemma slice_slice: "o1 + n \<le> m \<Longrightarrow> slice_of (slice_of xs b m) o1 n = slice_of xs (o1 + b) n"
  by (simp add: slice_of_def drop_take min_def)

lemma slice_splice_window:
  assumes "ofst \<le> n" and "b + n \<le> length xs" and "b + ofst + length z \<le> length xs"
  shows "slice_of (splice xs (ofst + b) z) b (max n (ofst + length z)) = splice (slice_of xs b n) ofst z"
  by (rule nth_equalityI) (use assms in \<open>auto simp: nth_splice nth_slice_of\<close>)

section \<open>Transfers of the journal\<close>

locale blob = rw_file "xRead pm f" "xWrite pm f" view inv
  for pm :: "('f, 'p) parent_vfs" and f :: 'f and view :: "'p \<Rightarrow> bytes" and inv :: "'p \<Rightarrow> bool"
begin

lemma journal_read_loop:
  assumes "inv p" and "nB \<le> length (view p)" and "512 dvd nB" and "nB < 2 ^ 31"
  shows "ii + rem \<le> nB \<Longrightarrow> iBuf + rem = length zBuf \<Longrightarrow>
    fs_journal_read pm (Some f) (int nB) p SQLITE_OK (int rem) (int iBuf) (int ii) zBuf
      = Some (SQLITE_OK, take iBuf zBuf @ map (\<lambda>k. view p ! nat (jpos nB (ii + k))) [0..<rem])"
proof (induction rem arbitrary: ii iBuf zBuf rule: less_induct)
  case (less rem)
  show ?case
  proof (cases "rem = 0")
    case True
    then show ?thesis using less.prems by (simp add: fs_journal_read.simps)
  next
    case False
    then have lt: "ii < nB" using less.prems by linarith
    obtain n where n: "iRealAmt (int rem) (jpos nB ii) = int n" "0 < n" "n \<le> rem" "ii + n \<le> nB"
      "\<And>k. k < n \<Longrightarrow> jpos nB (ii + k) = jpos nB ii + int k" "c_int (int ii + int n) = int (ii + n)"
      using jblock [OF lt assms(3,4), of rem] False by blast
    define off where "off = nat (jpos nB ii)"
    have off: "iRealOff (int nB) (int ii) = int off" "jpos nB ii = int off"
      using iRealOff_jpos [of ii nB] lt assms(4) jpos_bounds [OF lt assms(3)] by (simp_all add: off_def)
    have "jpos nB (ii + (n - 1)) < int nB" by (rule jpos_bounds) (use n assms(3) in auto)
    then have le: "off + n \<le> length (view p)"
      using n(5) [of "n - 1"] n(2) off(2) assms(2) by simp
    have get: "mem_get zBuf (int iBuf) (int n) = Some (slice_of zBuf iBuf n)"
      using less.prems n(3) by (simp add: mem_get_def slice_of_def)
    have len: "length (slice_of zBuf iBuf n) = n" using less.prems n(3) by simp
    have rd: "xRead pm f (slice_of zBuf iBuf n) (int off) p = Some (SQLITE_OK, slice_of (view p) off n)"
      using rd_full [OF assms(1), of off "slice_of zBuf iBuf n"] len le by simp
    have chunk: "slice_of (view p) off n = map (\<lambda>k. view p ! nat (jpos nB (ii + k))) [0..<n]"
      by (rule nth_equalityI) (use le n(5) off(2) in \<open>auto simp: nth_slice_of nat_add_distrib\<close>)
    let ?z = "splice zBuf iBuf (slice_of (view p) off n)"
    have put: "mem_put zBuf (int iBuf) (slice_of (view p) off n) = Some ?z"
      using less.prems n(3) le by (simp add: mem_put_splice)
    have "fs_journal_read pm (Some f) (int nB) p SQLITE_OK (int rem) (int iBuf) (int ii) zBuf
        = fs_journal_read pm (Some f) (int nB) p SQLITE_OK (int (rem - n)) (int (iBuf + n)) (int (ii + n)) ?z"
      using False n(3) by (subst fs_journal_read.simps)
        (simp add: off(1) n(1) [unfolded off(2)] n(6) [simplified] get rd put of_nat_diff Let_def)
    also have "\<dots> = Some (SQLITE_OK, take (iBuf + n) ?z
        @ map (\<lambda>k. view p ! nat (jpos nB (ii + n + k))) [0..<rem - n])"
      by (rule less.IH) (use n less.prems le in auto)
    also have "take (iBuf + n) ?z = take iBuf zBuf @ slice_of (view p) off n"
      using less.prems(2) le False by (simp add: splice_def min_def)
    also have "(take iBuf zBuf @ slice_of (view p) off n)
        @ map (\<lambda>k. view p ! nat (jpos nB (ii + n + k))) [0..<rem - n]
      = take iBuf zBuf @ map (\<lambda>k. view p ! nat (jpos nB (ii + k))) [0..<rem]"
      unfolding chunk by (rule nth_equalityI) (use n(3) in \<open>auto simp: nth_append less_diff_conv2\<close>)
    finally show ?thesis .
  qed
qed

text \<open>
  The bytes a journal write may touch are the images of its range; it stops before the database.
\<close>

lemma journal_write_loop:
  assumes "512 dvd nB" and "nB < 2 ^ 31"
  shows "inv p \<Longrightarrow> nB \<le> length (view p) \<Longrightarrow> ii \<le> nB \<Longrightarrow> iBuf + rem = length zBuf \<Longrightarrow>
    \<exists>rc p'. fs_journal_write pm (Some f) (int nB) (int nDb) zBuf SQLITE_OK (int rem) (int iBuf) (int ii) p = Some (rc, p')
      \<and> inv p' \<and> length (view p) \<le> length (view p')
      \<and> (\<forall>q < length (view p). q < nDb + 512 \<or> (\<forall>k < rem. int q \<noteq> jpos nB (ii + k)) \<longrightarrow> view p' ! q = view p ! q)
      \<and> (rc = SQLITE_OK \<longrightarrow> ii + rem \<le> nB \<and>
          (\<forall>k < rem. int nDb + 512 \<le> jpos nB (ii + k) \<and> view p' ! nat (jpos nB (ii + k)) = zBuf ! (iBuf + k)))"
proof (induction rem arbitrary: ii iBuf p rule: less_induct)
  case (less rem)
  show ?case
  proof (cases "rem = 0")
    case True
    then show ?thesis using less.prems by (simp add: fs_journal_write.simps)
  next
    case False
    have o: "iRealOff (int nB) (int ii) = jpos nB ii" by (rule iRealOff_jpos [OF less.prems(3) assms(2)])
    show ?thesis
    proof (cases "jpos nB ii < int nDb + 512")
      case True
      then have "fs_journal_write pm (Some f) (int nB) (int nDb) zBuf SQLITE_OK (int rem) (int iBuf) (int ii) p
          = Some (SQLITE_FULL, p)"
        by (subst fs_journal_write.simps) (simp add: o BLOCKSIZE_def fs_journal_write.simps rc_defs False)
      then show ?thesis using less.prems by (simp add: rc_defs)
    next
      case room: False
      have lt: "ii < nB" using less.prems(3) room jpos_end [OF assms(1)] by (cases "ii = nB") auto
      obtain n where n: "iRealAmt (int rem) (jpos nB ii) = int n" "0 < n" "n \<le> rem" "ii + n \<le> nB"
        "\<And>k. k < n \<Longrightarrow> jpos nB (ii + k) = jpos nB ii + int k" "c_int (int ii + int n) = int (ii + n)"
        using jblock [OF lt assms, of rem] False by blast
      define off where "off = nat (jpos nB ii)"
      have off: "jpos nB ii = int off"
        using jpos_bounds [OF lt assms(1)] by (simp add: off_def)
      have "jpos nB (ii + (n - 1)) < int nB" by (rule jpos_bounds) (use n assms(1) in auto)
      then have le: "off + n \<le> length (view p)"
        using n(5) [of "n - 1"] n(2) off less.prems(2) by simp
      define z where "z = slice_of zBuf iBuf n"
      have get: "mem_get zBuf (int iBuf) (int n) = Some z"
        using less.prems(4) n(3) by (simp add: mem_get_def slice_of_def z_def)
      have len: "length z = n" using less.prems(4) n(3) by (simp add: z_def)
      have zn: "z ! k = zBuf ! (iBuf + k)" if "k < n" for k
        using that less.prems(4) n(3) by (simp add: z_def nth_slice_of)
      obtain rc p1 where w: "xWrite pm f z (int off) p = Some (rc, p1)"
        using wr_total [OF less.prems(1), of off z] le by auto
      have fr: "inv p1" "length (view p) \<le> length (view p1)"
        "\<And>i. i < length (view p) \<Longrightarrow> i < off \<or> off + n \<le> i \<Longrightarrow> view p1 ! i = view p ! i"
        using wr_frame [OF less.prems(1) _ w] le len by auto
      have step: "fs_journal_write pm (Some f) (int nB) (int nDb) zBuf SQLITE_OK (int rem) (int iBuf) (int ii) p
          = fs_journal_write pm (Some f) (int nB) (int nDb) zBuf rc (int (rem - n)) (int (iBuf + n)) (int (ii + n)) p1"
        using False n(3) room by (subst fs_journal_write.simps)
          (simp add: o off n(1) [unfolded off] n(6) [simplified] get w of_nat_diff Let_def BLOCKSIZE_def)
      have out: "q < off \<or> off + n \<le> q" if "q < nDb + 512 \<or> (\<forall>k < rem. int q \<noteq> jpos nB (ii + k))" for q
      proof (rule ccontr)
        assume "\<not> (q < off \<or> off + n \<le> q)"
        then have "int q = jpos nB (ii + (q - off))" "q - off < rem" "\<not> q < nDb + 512"
          using n(3) n(5) [of "q - off"] off room by auto
        then show False using that by blast
      qed
      show ?thesis
      proof (cases "rc = SQLITE_OK")
        case False
        then have "fs_journal_write pm (Some f) (int nB) (int nDb) zBuf SQLITE_OK (int rem) (int iBuf) (int ii) p
            = Some (rc, p1)" unfolding step by (subst fs_journal_write.simps) simp
        then show ?thesis using fr out False by auto
      next
        case True
        have v1: "view p1 = splice (view p) off z"
          using wr_ok [OF less.prems(1) _ w [unfolded True]] le by simp
        obtain rc' p' where r: "fs_journal_write pm (Some f) (int nB) (int nDb) zBuf SQLITE_OK (int (rem - n))
            (int (iBuf + n)) (int (ii + n)) p1 = Some (rc', p')" "inv p'" "length (view p1) \<le> length (view p')"
          "\<forall>q < length (view p1). q < nDb + 512 \<or> (\<forall>k < rem - n. int q \<noteq> jpos nB (ii + n + k)) \<longrightarrow> view p' ! q = view p1 ! q"
          "rc' = SQLITE_OK \<longrightarrow> ii + n + (rem - n) \<le> nB \<and> (\<forall>k < rem - n. int nDb + 512 \<le> jpos nB (ii + n + k)
            \<and> view p' ! nat (jpos nB (ii + n + k)) = zBuf ! (iBuf + n + k))"
          using less.IH [of "rem - n" p1 "ii + n" "iBuf + n"] fr(1,2) n less.prems by auto
        have keep: "view p' ! q = view p ! q"
          if "q < length (view p)" "q < nDb + 512 \<or> (\<forall>k < rem. int q \<noteq> jpos nB (ii + k))" for q
        proof -
          have "\<forall>k < rem - n. int q \<noteq> jpos nB (ii + n + k) \<or> q < nDb + 512"
            using that(2) n(3) by (metis add.assoc less_diff_conv add.commute)
          then show ?thesis using r(4) fr(2,3) out [OF that(2)] that(1) by (metis order_less_le_trans)
        qed
        have "int nDb + 512 \<le> jpos nB (ii + k) \<and> view p' ! nat (jpos nB (ii + k)) = zBuf ! (iBuf + k)"
          if "rc' = SQLITE_OK" "k < rem" for k
        proof (cases "k < n")
          case False
          then show ?thesis using r(5) that n(3) spec [of _ "k - n"] by (auto dest!: spec [of _ "k - n"])
        next
          case k: True
          have p: "jpos nB (ii + k) = int (off + k)" using n(5) [OF k] off by simp
          have "jpos nB (ii + k) \<noteq> jpos nB (ii + n + j)" for j
            using jpos_inj k by (metis add.assoc add_left_cancel less_add_eq_less not_add_less1)
          then have "view p' ! (off + k) = view p1 ! (off + k)"
            using r(4) fr(2) le k unfolding p by (simp add: less_le_trans)
          also have "\<dots> = zBuf ! (iBuf + k)"
            using le k len zn by (simp add: v1 nth_splice)
          finally show ?thesis using room off unfolding p by (simp only: nat_int) simp
        qed
        then show ?thesis using r(1,2,3,5) fr(2) keep step True n(3) by (auto intro: order_trans)
      qed
    qed
  qed
qed

end

section \<open>Each of the two files honours the contract of a file\<close>

locale blob_file = blob pm f view inv
  for pm :: "('f, 'p) parent_vfs" and f :: 'f and view :: "'p \<Rightarrow> bytes" and inv :: "'p \<Rightarrow> bool" +
  fixes a :: ptr
begin

lemma db_read_full:
  assumes "real_ok view inv f a v" and "ofst + length buf \<le> length (db_view view a v)"
  shows "fsRead pm (db_handle a) buf (int ofst) v = Some (SQLITE_OK, slice_of (db_view view a v) ofst (length buf))"
proof -
  obtain r nB nD nJ where r: "load (reals v) a = Some r" "pFile r = Some f" "inv (pParent v)"
    "nDatabase r = int nD" "nD + 512 \<le> nB" "nB \<le> length (view (pParent v))"
    "db_view view a v = slice_of (view (pParent v)) 512 nD" "length (db_view view a v) = nD"
    using assms(1) by (rule real_okE)
  have "xRead pm f buf (int (ofst + 512)) (pParent v)
      = Some (SQLITE_OK, slice_of (view (pParent v)) (ofst + 512) (length buf))"
    by (rule rd_full [OF r(3)]) (use r assms(2) in simp)
  moreover have "slice_of (db_view view a v) ofst (length buf)
      = slice_of (view (pParent v)) (ofst + 512) (length buf)"
    unfolding r(7) by (rule slice_slice) (use r assms(2) in simp)
  ultimately show ?thesis using r assms(2) by (simp add: fsRead_def handle_defs BLOCKSIZE_def add.commute)
qed

lemma db_read_short:
  assumes "real_ok view inv f a v" and "length (db_view view a v) < ofst + length buf"
  shows "fsRead pm (db_handle a) buf (int ofst) v = Some (SQLITE_IOERR_SHORT_READ, buf)"
  using assms(1) by (rule real_okE) (use assms(2) in \<open>auto simp: fsRead_def handle_defs\<close>)

lemma journal_read_full:
  assumes "real_ok view inv f a v" and "ofst + length buf \<le> length (journal_view view a v)"
  shows "fsRead pm (journal_handle a) buf (int ofst) v
    = Some (SQLITE_OK, slice_of (journal_view view a v) ofst (length buf))"
proof -
  obtain r nB nD nJ where r: "load (reals v) a = Some r" "pFile r = Some f" "inv (pParent v)" "nBlob r = int nB"
    "nJournal r = int nJ" "nJ \<le> nB" "512 dvd nB" "nB < 2 ^ 31" "nB \<le> length (view (pParent v))"
    "journal_view view a v = map (\<lambda>k. view (pParent v) ! nat (jpos nB k)) [0..<nJ]"
    "length (journal_view view a v) = nJ"
    using assms(1) by (rule real_okE)
  have le: "ofst + length buf \<le> nB" "ofst + length buf \<le> nJ" using assms(2) r by auto
  then have "int ofst < 2 ^ 31" using r(8) by simp
  moreover have "fs_journal_read pm (Some f) (int nB) (pParent v) SQLITE_OK (int (length buf)) (int 0) (int ofst) buf
      = Some (SQLITE_OK, take 0 buf @ map (\<lambda>k. view (pParent v) ! nat (jpos nB (ofst + k))) [0..<length buf])"
    by (rule journal_read_loop [OF r(3,9,7,8)]) (use le in auto)
  moreover have "map (\<lambda>k. view (pParent v) ! nat (jpos nB (ofst + k))) [0..<length buf]
      = slice_of (journal_view view a v) ofst (length buf)"
    by (rule nth_equalityI) (use le r(10,11) in \<open>auto simp: nth_slice_of\<close>)
  ultimately show ?thesis using r le by (simp add: fsRead_def handle_defs)
qed

lemma journal_read_short:
  assumes "real_ok view inv f a v" and "length (journal_view view a v) < ofst + length buf"
  shows "fsRead pm (journal_handle a) buf (int ofst) v = Some (SQLITE_IOERR_SHORT_READ, buf)"
  using assms(1) by (rule real_okE) (use assms(2) in \<open>auto simp: fsRead_def handle_defs\<close>)

text \<open>What one transfer of the parent does to the two files; \<open>g\<close> updates the sizes.\<close>

lemma real_ok_step:
  assumes "real_ok view inv f a v" and "load (reals v) a = Some r" and "inv w"
    and "length (view (pParent v)) \<le> length (view w)" and "sizes_ok r'" and "pFile r' = Some f"
    and "nBlob r' = nBlob r"
  shows "real_ok view inv f a (v\<lparr>pParent := w, reals := store (reals v) a r'\<rparr>)"
  using assms modify_loaded(2) [OF assms(2)] by (auto simp: real_ok_def)

lemma db_write_spec:
  assumes "real_ok view inv f a v"
  shows "\<exists>rc v'. fsWrite pm (db_handle a) z (int ofst) v = Some (rc, v') \<and> real_ok view inv f a v'
    \<and> (rc = SQLITE_OK \<and> ofst \<le> length (db_view view a v)
         \<longrightarrow> db_view view a v' = splice (db_view view a v) ofst z)
    \<and> length (db_view view a v) \<le> length (db_view view a v')
    \<and> (\<forall>i < length (db_view view a v). i < ofst \<or> ofst + length z \<le> i
         \<longrightarrow> db_view view a v' ! i = db_view view a v ! i)
    \<and> (512 dvd length (journal_view view a v) \<longrightarrow> journal_view view a v' = journal_view view a v)"
proof -
  obtain r nB nD nJ where r: "load (reals v) a = Some r" "a \<noteq> 0" "pFile r = Some f" "inv (pParent v)"
    "nBlob r = int nB" "nDatabase r = int nD" "nJournal r = int nJ" "nD + 512 \<le> nB" "nJ \<le> nB" "512 dvd nB"
    "nB < 2 ^ 31" "nB \<le> length (view (pParent v))" "db_view view a v = slice_of (view (pParent v)) 512 nD"
    "journal_view view a v = map (\<lambda>k. view (pParent v) ! nat (jpos nB k)) [0..<nJ]"
    "length (db_view view a v) = nD" "length (journal_view view a v) = nJ"
    using assms by (rule real_okE)
  show ?thesis
  proof (cases "length z + ofst + 512 + nJ \<le> nB")
    case False
    then have "int (length z) + int ofst + BLOCKSIZE > nBlob r - nJournal r"
      using r(5,7) by (simp add: BLOCKSIZE_def)
    then have "fsWrite pm (db_handle a) z (int ofst) v = Some (SQLITE_FULL, v)"
      using r(1) by (simp add: fsWrite_def handle_defs)
    then show ?thesis using assms by (simp add: rc_defs)
  next
    case True
    then have room: "\<not> int (length z) + int ofst + BLOCKSIZE > nBlob r - nJournal r"
      using r(5,7) by (simp add: BLOCKSIZE_def)
    obtain rc w where w: "xWrite pm f z (int (ofst + 512)) (pParent v) = Some (rc, w)"
      using wr_total [OF r(4), of "ofst + 512" z] True r(12) by auto
    have fr: "inv w" "length (view (pParent v)) \<le> length (view w)"
      "\<And>i. i < length (view (pParent v)) \<Longrightarrow> i < ofst + 512 \<or> ofst + 512 + length z \<le> i
        \<Longrightarrow> view w ! i = view (pParent v) ! i"
      using wr_frame [OF r(4) _ w] True r(12) by auto
    define r' where "r' = (if rc = SQLITE_OK then r\<lparr>nDatabase := int (max nD (ofst + length z))\<rparr> else r)"
    define v' where "v' = v\<lparr>pParent := w, reals := store (reals v) a r'\<rparr>"
    have "reals v = store (reals v) a r"
      using r(1,2) by (simp add: store_def load_def fun_upd_idem)
    moreover have "c_int (max (int nD) (int (length z) + int ofst)) = int (max nD (ofst + length z))"
    proof -
      have "max nD (ofst + length z) < 2 ^ 31" using True r(8,11) by simp
      then show ?thesis using c_int_id [of "int (max nD (ofst + length z))"] by (simp add: of_nat_max add.commute)
    qed
    ultimately have e: "fsWrite pm (db_handle a) z (int ofst) v = Some (rc, v')"
      using r room w [simplified] modify_loaded(1) [OF r(1)]
      by (auto simp: fsWrite_def handle_defs BLOCKSIZE_def add.commute v'_def r'_def)
    have r': "nBlob r' = int nB" "nJournal r' = int nJ" "pFile r' = Some f" "sizes_ok r'"
      "nDatabase r' = int (if rc = SQLITE_OK then max nD (ofst + length z) else nD)"
      using r True int_dvd_int_iff [of 512 nB] by (auto simp: r'_def sizes_ok_def of_nat_max)
    have ld: "load (reals v') a = Some r'" "pParent v' = w"
      using modify_loaded(2) [OF r(1)] by (simp_all add: v'_def)
    have ok: "real_ok view inv f a v'"
      unfolding v'_def by (rule real_ok_step [OF assms r(1) fr(1,2) r'(4,3)]) (simp add: r' r)
    have db': "db_view view a v' = slice_of (view w) 512 (if rc = SQLITE_OK then max nD (ofst + length z) else nD)"
      using ld r'(5) by (simp add: db_view_def)
    have j': "journal_view view a v' = map (\<lambda>k. view w ! nat (jpos nB k)) [0..<nJ]"
      using ld r' by (simp add: journal_view_def)
    have 1: "db_view view a v' = splice (db_view view a v) ofst z"
      if "rc = SQLITE_OK" "ofst \<le> length (db_view view a v)"
      using wr_ok [OF r(4) _ w [unfolded that(1)]] True r(8,12,13,15) that
      by (simp add: db' slice_splice_window)
    have 2: "db_view view a v' ! i = db_view view a v ! i" if "i < nD" "i < ofst \<or> ofst + length z \<le> i" for i
      using that fr(2) fr(3) [of "512 + i"] r(8,12) by (auto simp: db' r(13) nth_slice_of)
    have 3: "journal_view view a v' = journal_view view a v" if "512 dvd nJ"
    proof -
      have "view w ! nat (jpos nB k) = view (pParent v) ! nat (jpos nB k)" if "k < nJ" for k
      proof -
        have b: "jpos nB k < int nB" "0 \<le> jpos nB k"
          using jpos_bounds [OF _ r(10), of k] that r(9) by auto
        have "int nB - int nJ \<le> jpos nB k" by (rule jpos_ge [OF that \<open>512 dvd nJ\<close>])
        then have "ofst + 512 + length z \<le> nat (jpos nB k)" using True b(2) by linarith
        then show ?thesis using fr(3) b r(12) by simp
      qed
      then show ?thesis by (simp add: j' r(14))
    qed
    have 4: "nD \<le> length (db_view view a v')"
      using fr(2) r(8,12) True by (auto simp: db')
    show ?thesis using e ok 1 2 3 4 r(15,16) by auto
  qed
qed

lemma journal_write_spec:
  assumes "real_ok view inv f a v" and "ofst \<le> length (journal_view view a v)"
  shows "\<exists>rc v'. fsWrite pm (journal_handle a) z (int ofst) v = Some (rc, v') \<and> real_ok view inv f a v'
    \<and> (rc = SQLITE_OK \<longrightarrow> journal_view view a v' = splice (journal_view view a v) ofst z)
    \<and> length (journal_view view a v) \<le> length (journal_view view a v')
    \<and> (\<forall>i < length (journal_view view a v). i < ofst \<or> ofst + length z \<le> i
         \<longrightarrow> journal_view view a v' ! i = journal_view view a v ! i)
    \<and> db_view view a v' = db_view view a v"
proof -
  obtain r nB nD nJ where r: "load (reals v) a = Some r" "a \<noteq> 0" "pFile r = Some f" "inv (pParent v)"
    "nBlob r = int nB" "nDatabase r = int nD" "nJournal r = int nJ" "nD + 512 \<le> nB" "nJ \<le> nB" "512 dvd nB"
    "nB < 2 ^ 31" "nB \<le> length (view (pParent v))" "db_view view a v = slice_of (view (pParent v)) 512 nD"
    "journal_view view a v = map (\<lambda>k. view (pParent v) ! nat (jpos nB k)) [0..<nJ]"
    "length (db_view view a v) = nD" "length (journal_view view a v) = nJ"
    using assms(1) by (rule real_okE)
  have oJ: "ofst \<le> nJ" "ofst \<le> nB" using assms(2) r(9,16) by auto
  obtain rc w where w: "fs_journal_write pm (Some f) (int nB) (int nD) z SQLITE_OK (int (length z)) 0 (int ofst)
      (pParent v) = Some (rc, w)"
    "inv w" "length (view (pParent v)) \<le> length (view w)"
    "\<And>q. q < length (view (pParent v)) \<Longrightarrow> q < nD + 512 \<or> (\<forall>k < length z. int q \<noteq> jpos nB (ofst + k))
      \<Longrightarrow> view w ! q = view (pParent v) ! q"
    "rc = SQLITE_OK \<Longrightarrow> ofst + length z \<le> nB"
    "\<And>k. rc = SQLITE_OK \<Longrightarrow> k < length z \<Longrightarrow> view w ! nat (jpos nB (ofst + k)) = z ! k"
    using journal_write_loop [OF r(10,11,4,12) oJ(2), of 0 "length z" z nD] by auto
  define r' where "r' = (if rc = SQLITE_OK then r\<lparr>nJournal := int (max nJ (ofst + length z))\<rparr> else r)"
  define v' where "v' = v\<lparr>pParent := w, reals := store (reals v) a r'\<rparr>"
  have same: "reals v = store (reals v) a r"
    using r(1,2) by (simp add: store_def load_def fun_upd_idem)
  have c1: "c_int (max (int nJ) (int (length z) + int ofst)) = int (max nJ (ofst + length z))" if "rc = SQLITE_OK"
  proof -
    have "max nJ (ofst + length z) < 2 ^ 31" using w(5) [OF that] r(9,11) by simp
    then show ?thesis using c_int_id [of "int (max nJ (ofst + length z))"] by (simp add: of_nat_max add.commute)
  qed
  have c2: "c_int (int ofst) = int ofst"
  proof -
    have "ofst < 2 ^ 31" using oJ(2) r(11) by simp
    then show ?thesis using c_int_id [of "int ofst"] by simp
  qed
  have e: "fsWrite pm (journal_handle a) z (int ofst) v = Some (rc, v')"
    using same r w(1) c1 c2 modify_loaded(1) [OF r(1)]
    by (auto simp: fsWrite_def handle_defs v'_def r'_def)
  have r': "nBlob r' = int nB" "nDatabase r' = int nD" "pFile r' = Some f" "sizes_ok r'"
    "nJournal r' = int (if rc = SQLITE_OK then max nJ (ofst + length z) else nJ)"
    using r w(5) int_dvd_int_iff [of 512 nB] by (auto simp: r'_def sizes_ok_def of_nat_max)
  have ld: "load (reals v') a = Some r'" "pParent v' = w"
    using modify_loaded(2) [OF r(1)] by (simp_all add: v'_def)
  have ok: "real_ok view inv f a v'"
    unfolding v'_def by (rule real_ok_step [OF assms(1) r(1) w(2,3) r'(4,3)]) (simp add: r' r)
  have db: "db_view view a v' = db_view view a v"
  proof -
    have "view w ! (512 + i) = view (pParent v) ! (512 + i)" if "i < nD" for i
      using w(4) [of "512 + i"] that r(8,12) by simp
    then have "slice_of (view w) 512 nD = slice_of (view (pParent v)) 512 nD"
      using w(3) r(8,12) by (auto simp: nth_slice_of intro!: nth_equalityI)
    then show ?thesis unfolding r(13) using ld r'(2) by (simp add: db_view_def)
  qed
  have j': "journal_view view a v' = map (\<lambda>k. view w ! nat (jpos nB k))
      [0..<(if rc = SQLITE_OK then max nJ (ofst + length z) else nJ)]"
    using ld r' by (simp add: journal_view_def)
  have keep: "view w ! nat (jpos nB i) = view (pParent v) ! nat (jpos nB i)"
    if "i < nJ" "i < ofst \<or> ofst + length z \<le> i" for i
  proof -
    have b: "jpos nB i < int nB" "0 \<le> jpos nB i"
      using jpos_bounds [OF _ r(10), of i] that(1) r(9) by auto
    have "i \<noteq> ofst + k" if "k < length z" for k using \<open>i < ofst \<or> ofst + length z \<le> i\<close> that by auto
    then have "\<forall>k < length z. int (nat (jpos nB i)) \<noteq> jpos nB (ofst + k)"
      using b(2) jpos_inj by (metis int_nat_eq)
    then show ?thesis using w(4) b r(12) by simp
  qed
  have 1: "journal_view view a v' = splice (journal_view view a v) ofst z" if ok: "rc = SQLITE_OK"
  proof (rule nth_equalityI)
    show "length (journal_view view a v') = length (splice (journal_view view a v) ofst z)"
      using ok r(16) by (simp add: j')
    fix i assume i: "i < length (journal_view view a v')"
    show "journal_view view a v' ! i = splice (journal_view view a v) ofst z ! i"
    proof (cases "ofst \<le> i \<and> i < ofst + length z")
      case True
      then have "i - ofst < length z" by linarith
      then show ?thesis using True w(6) [OF ok, of "i - ofst"] i ok r(16) oJ(1) by (simp add: j' nth_splice)
    next
      case False
      then have "i < nJ" using i ok oJ(1) by (auto simp: j')
      then show ?thesis using keep [of i] False i ok r(16) oJ(1) by (auto simp: j' r(14) nth_splice)
    qed
  qed
  have 2: "journal_view view a v' ! i = journal_view view a v ! i"
    if "i < nJ" "i < ofst \<or> ofst + length z \<le> i" for i
    using keep [OF that] that(1) by (simp add: j' r(14) less_max_iff_disj)
  have 3: "nJ \<le> length (journal_view view a v')" by (simp add: j')
  show ?thesis using e ok db 1 2 3 r(16) by auto
qed

lemma truncate_spec:
  assumes "real_ok view inv f a v"
  shows "n \<le> length (db_view view a v) \<Longrightarrow> \<exists>v'. fsTruncate (db_handle a) (int n) v = Some (SQLITE_OK, v')
      \<and> real_ok view inv f a v' \<and> db_view view a v' = take n (db_view view a v)
      \<and> journal_view view a v' = journal_view view a v"
    and "n \<le> length (journal_view view a v) \<Longrightarrow> \<exists>v'. fsTruncate (journal_handle a) (int n) v = Some (SQLITE_OK, v')
      \<and> real_ok view inv f a v' \<and> journal_view view a v' = take n (journal_view view a v)
      \<and> db_view view a v' = db_view view a v"
proof -
  obtain r nB nD nJ where r: "load (reals v) a = Some r" "a \<noteq> 0" "pFile r = Some f" "inv (pParent v)"
    "nBlob r = int nB" "nDatabase r = int nD" "nJournal r = int nJ" "nD + 512 \<le> nB" "nJ \<le> nB" "512 dvd nB"
    "nB < 2 ^ 31" "nB \<le> length (view (pParent v))" "db_view view a v = slice_of (view (pParent v)) 512 nD"
    "journal_view view a v = map (\<lambda>k. view (pParent v) ! nat (jpos nB k)) [0..<nJ]"
    "length (db_view view a v) = nD" "length (journal_view view a v) = nJ"
    using assms(1) by (rule real_okE)
  have small: "c_int (int m) = int m" if "m \<le> nB" for m
    using c_int_id [of "int m"] that r(11) by simp
  have "int nB < 2 ^ 31" "512 dvd int nB" using r(10,11) int_dvd_int_iff [of 512 nB] by auto
  note f = modify_loaded [OF r(1)] small r int_dvd_int_iff [of 512 nB]
  show "\<exists>v'. fsTruncate (db_handle a) (int n) v = Some (SQLITE_OK, v')
      \<and> real_ok view inv f a v' \<and> db_view view a v' = take n (db_view view a v)
      \<and> journal_view view a v' = journal_view view a v" if "n \<le> length (db_view view a v)"
    using f that by (auto simp: fsTruncate_def handle_defs min_def real_ok_def sizes_ok_def db_view_def
      journal_view_def slice_of_def)
  show "\<exists>v'. fsTruncate (journal_handle a) (int n) v = Some (SQLITE_OK, v')
      \<and> real_ok view inv f a v' \<and> journal_view view a v' = take n (journal_view view a v)
      \<and> db_view view a v' = db_view view a v" if "n \<le> length (journal_view view a v)"
    using f that by (auto simp: fsTruncate_def handle_defs min_def real_ok_def sizes_ok_def db_view_def
      journal_view_def take_map)
qed

end

sublocale blob_file \<subseteq> db: vfs_file "fsRead pm (db_handle a)" "fsWrite pm (db_handle a)"
  "db_view view a" "real_ok view inv f a" "fsTruncate (db_handle a)"
proof (unfold_locales, goal_cases)
  case (1 s ofst buf)
  then show ?case by (rule db_read_full)
next
  case (2 s ofst buf)
  then show ?case by (simp add: db_read_short)
next
  case (3 s ofst z)
  then show ?case using db_write_spec [of s z ofst] by auto
next
  case (4 s ofst z s')
  then show ?case using db_write_spec [of s z ofst] by auto
next
  case (5 s ofst z rc s')
  then show ?case using db_write_spec [of s z ofst] by auto
next
  case (6 s n)
  then show ?case using truncate_spec(1) [of s n] by auto
qed

sublocale blob_file \<subseteq> jrnl: vfs_file "fsRead pm (journal_handle a)" "fsWrite pm (journal_handle a)"
  "journal_view view a" "real_ok view inv f a" "fsTruncate (journal_handle a)"
proof (unfold_locales, goal_cases)
  case (1 s ofst buf)
  then show ?case by (rule journal_read_full)
next
  case (2 s ofst buf)
  then show ?case by (simp add: journal_read_short)
next
  case (3 s ofst z)
  then show ?case using journal_write_spec [of s ofst z] by auto
next
  case (4 s ofst z s')
  then show ?case using journal_write_spec [of s ofst z] by auto
next
  case (5 s ofst z rc s')
  then show ?case using journal_write_spec [of s ofst z] by auto
next
  case (6 s n)
  then show ?case using truncate_spec(2) [of s n] by auto
qed

end
