(* ===== verification/Onefile_List.thy ===== *)
theory Onefile_List
  imports Onefile
begin

text \<open>
  The list of open \<open>fs_real_file\<close> objects of test/test_onefile.c. \<open>fs_abs v L\<close> reads the objects
  reached from \<open>pFileList\<close>, with their \<open>ppThis\<close> back pointers right, as a list \<open>L\<close> of addresses and
  contents; \<open>fsOpen\<close> and \<open>fsClose\<close> refine a reference count on that list.
\<close>

section \<open>Segments\<close>

definition payload :: "'f fs_real_file \<Rightarrow> 'f fs_real_file" where
  "payload r = r\<lparr>pNext := NULL, ppThis := PFileList\<rparr>"

fun fseg :: "(ptr \<Rightarrow> 'f fs_real_file option) \<Rightarrow> ptr \<Rightarrow> slot \<Rightarrow> (ptr \<times> 'f fs_real_file) list \<Rightarrow> ptr \<Rightarrow> bool" where
  "fseg c p s [] q \<longleftrightarrow> p = q"
| "fseg c p s (x # xs) q \<longleftrightarrow> p = fst x \<and> p \<noteq> NULL \<and>
     (case c p of None \<Rightarrow> False
      | Some r \<Rightarrow> payload r = snd x \<and> ppThis r = s \<and> fseg c (pNext r) (PNextOf p) xs q)"

definition fs_abs :: "('f, 'p) fs_vfs \<Rightarrow> (ptr \<times> 'f fs_real_file) list \<Rightarrow> bool" where
  "fs_abs v L \<longleftrightarrow> wf_heap (reals v) \<and> fseg (cells (reals v)) (pFileList v) PFileList L NULL"

lemma payload_simps [simp]:
  "payload (r\<lparr>pNext := q\<rparr>) = payload r" "payload (r\<lparr>ppThis := s\<rparr>) = payload r"
  "pFile (payload r) = pFile r" "zName (payload r) = zName r" "nRef (payload r) = nRef r"
  "payload (r\<lparr>nRef := n\<rparr>) = (payload r)\<lparr>nRef := n\<rparr>" "payload (payload r) = payload r"
  by (simp_all add: payload_def)

lemma fseg_Cons:
  "fseg c p s (x # xs) q \<longleftrightarrow> p = fst x \<and> p \<noteq> 0 \<and>
     (\<exists>r. c p = Some r \<and> payload r = snd x \<and> ppThis r = s \<and> fseg c (pNext r) (PNextOf p) xs q)"
  by (auto split: option.splits)

declare fseg.simps(2) [simp del]

fun end_slot :: "slot \<Rightarrow> (ptr \<times> 'f fs_real_file) list \<Rightarrow> slot" where
  "end_slot s [] = s"
| "end_slot s (x # xs) = end_slot (PNextOf (fst x)) xs"

lemma end_slot_snoc [simp]: "end_slot s (xs @ [x]) = PNextOf (fst x)"
  by (induction xs arbitrary: s) auto

lemma fseg_append: "fseg c p s (xs @ ys) q \<longleftrightarrow> (\<exists>m. fseg c p s xs m \<and> fseg c m (end_slot s xs) ys q)"
  by (induction xs arbitrary: p s) (auto simp: fseg_Cons)

lemma fseg_cong: "(\<And>a. a \<in> fst ` set xs \<Longrightarrow> c' a = c a) \<Longrightarrow> fseg c' p s xs q = fseg c p s xs q"
proof (induction xs arbitrary: p s)
  case (Cons x xs)
  then have "fseg c' m t xs q = fseg c m t xs q" for m t by simp
  then show ?case using Cons.prems by (auto simp: fseg_Cons)
qed simp

lemma fseg_NULL [simp]: "fseg c 0 s xs q \<longleftrightarrow> xs = [] \<and> q = 0"
  by (cases xs) (auto simp: fseg_Cons)

lemma fseg_unique: "fseg c p s xs 0 \<Longrightarrow> fseg c p t ys 0 \<Longrightarrow> xs = ys"
proof (induction xs arbitrary: p s t ys)
  case (Cons x xs)
  then obtain y zs where ys: "ys = y # zs" by (cases ys) (auto simp: fseg_Cons)
  show ?case using Cons.prems Cons.IH by (auto simp: ys fseg_Cons prod_eq_iff)
qed auto

lemma fseg_distinct: "fseg c p s xs 0 \<Longrightarrow> distinct (map fst xs)"
proof (induction xs arbitrary: p s)
  case (Cons x xs)
  obtain n where n: "p = fst x" "c p = Some n" "fseg c (pNext n) (PNextOf p) xs 0"
    using Cons.prems by (auto simp: fseg_Cons)
  have "fst x \<notin> fst ` set xs"
  proof
    assume "fst x \<in> fst ` set xs"
    then obtain ys y zs where xs: "xs = ys @ y # zs" and y: "fst y = fst x"
      by (auto dest!: split_list)
    obtain t where t: "fseg c (fst y) t (y # zs) 0"
      using n(3) unfolding xs fseg_append by (auto simp: fseg_Cons)
    have "y # zs = x # xs"
      by (rule fseg_unique [OF t]) (use Cons.prems n(1) y in simp)
    then have "length (y # zs) = length (x # ys @ y # zs)" using xs by simp
    then show False by simp
  qed
  then show ?case using Cons.IH [OF n(3)] by simp
qed simp

lemma fseg_dom: "fseg c p s xs q \<Longrightarrow> a \<in> fst ` set xs \<Longrightarrow> a \<noteq> 0 \<and> c a \<noteq> None"
  by (induction xs arbitrary: p s) (auto simp: fseg_Cons)

lemma fseg_upd [simp]: "a \<notin> fst ` set xs \<Longrightarrow> fseg (c(a := n)) p s xs q = fseg c p s xs q"
  by (rule fseg_cong) auto

text \<open>The three updates that open and close are made of.\<close>

lemma fseg_relink:
  assumes "fseg c p s (xs @ [x]) q" and "fst x \<notin> fst ` set xs" and "c (fst x) = Some n"
  shows "fseg (c(fst x \<mapsto> n\<lparr>pNext := m\<rparr>)) p s (xs @ [x]) m"
proof -
  obtain t where t: "fseg c p s xs t" "fseg c t (end_slot s xs) [x] q"
    using assms(1) unfolding fseg_append by blast
  have "fseg (c(fst x \<mapsto> n\<lparr>pNext := m\<rparr>)) p s xs t"
    using t(1) assms(2) by simp
  moreover have "fseg (c(fst x \<mapsto> n\<lparr>pNext := m\<rparr>)) t (end_slot s xs) [x] m"
    using t(2) assms(3) by (auto simp: fseg_Cons)
  ultimately show ?thesis unfolding fseg_append by blast
qed

lemma fseg_replace_head:
  assumes "fseg c p s (x # xs) q" and "c p = Some r" and "pNext r' = pNext r" and "p \<notin> fst ` set xs"
  shows "fseg (c(p \<mapsto> r')) p (ppThis r') ((p, payload r') # xs) q"
proof -
  have "fseg c (pNext r) (PNextOf p) xs q" "p \<noteq> 0"
    using assms(1,2) by (auto simp: fseg_Cons)
  moreover have "fseg (c(p \<mapsto> r')) (pNext r) (PNextOf p) xs q = fseg c (pNext r) (PNextOf p) xs q"
    by (rule fseg_cong) (use assms(4) in auto)
  ultimately show ?thesis using assms(3) by (simp add: fseg_Cons)
qed

text \<open>Looking up a name: the first object whose name agrees on the first \<open>nName\<close> characters.\<close>

lemma fs_find_seg:
  assumes "wf_heap h"
  shows "fseg (cells h) p s L 0 \<Longrightarrow> fs_find h z n p
    = Some (case find (\<lambda>x. strncmp_eq (zName (snd x)) z n) L of Some x \<Rightarrow> fst x | None \<Rightarrow> 0)"
proof (induction L arbitrary: p s)
  case (Cons x xs)
  obtain r where r: "p = fst x" "p \<noteq> 0" "cells h p = Some r" "payload r = snd x"
    "fseg (cells h) (pNext r) (PNextOf p) xs 0"
    using Cons.prems by (auto simp: fseg_Cons)
  have "zName r = zName (snd x)" by (simp flip: r(4))
  then show ?case using r Cons.IH [OF r(5)] by (simp add: fs_find.simps [of h z n "fst x"] load_def)
qed (simp add: fs_find.simps)

lemma fs_find_spec:
  "fs_abs v L \<Longrightarrow> fs_find (reals v) z n (pFileList v)
    = Some (case find (\<lambda>x. strncmp_eq (zName (snd x)) z n) L of Some x \<Rightarrow> fst x | None \<Rightarrow> 0)"
  unfolding fs_abs_def using fs_find_seg by blast

section \<open>Closing\<close>

text \<open>Unlinking the object \<open>a\<close> through its back pointer.\<close>

lemma fs_unlink:
  assumes "wf_heap (reals v)" and "fseg (cells (reals v)) (pFileList v) PFileList (ys @ (a, r) # zs) 0"
    and "load (reals v) a = Some R"
  shows "\<exists>v2 h3 v'. fs_set_slot (ppThis R) (pNext R) v = Some v2 \<and>
    (if pNext R \<noteq> NULL then modify (reals v2) (pNext R) (\<lambda>x. x\<lparr>ppThis := ppThis R\<rparr>) else Some (reals v2)) = Some h3
    \<and> dealloc h3 a = Some v' \<and> wf_heap v' \<and> fseg (cells v') (pFileList v2) PFileList (ys @ zs) 0
    \<and> pParent v2 = pParent v"
proof -
  let ?h = "reals v"
  obtain t where t: "fseg (cells ?h) (pFileList v) PFileList ys t"
    "fseg (cells ?h) t (end_slot PFileList ys) ((a, r) # zs) 0"
    using assms(2) unfolding fseg_append by blast
  have a: "t = a" "cells ?h a = Some R" "a \<noteq> 0" "ppThis R = end_slot PFileList ys"
    "fseg (cells ?h) (pNext R) (PNextOf a) zs 0"
    using t(2) assms(1,3) by (auto simp: fseg_Cons load_cells)
  have "distinct (map fst (ys @ (a, r) # zs))" by (rule fseg_distinct [OF assms(2)])
  then have d: "a \<notin> fst ` set ys" "a \<notin> fst ` set zs" "fst ` set ys \<inter> fst ` set zs = {}" "distinct (map fst ys)"
    "distinct (map fst zs)"
    by auto
  obtain v2 where v2: "fs_set_slot (ppThis R) (pNext R) v = Some v2" "wf_heap (reals v2)" "pParent v2 = pParent v"
    "fseg (cells (reals v2)) (pFileList v2) PFileList ys (pNext R)"
    "fseg (cells (reals v2)) (pNext R) (PNextOf a) zs 0" "cells (reals v2) a = Some R"
  proof (cases ys rule: rev_cases)
    case Nil
    show thesis
      by (rule that [of "v\<lparr>pFileList := pNext R\<rparr>"]) (use Nil a assms(1) in \<open>simp_all add: fs_set_slot_def\<close>)
  next
    case (snoc xs y)
    obtain Y where Y: "cells ?h (fst y) = Some Y" "fst y \<noteq> 0"
      using fseg_dom [OF t(1), of "fst y"] snoc by auto
    let ?h2 = "store ?h (fst y) (Y\<lparr>pNext := pNext R\<rparr>)"
    have "fseg (cells ?h2) (pFileList v) PFileList (xs @ [y]) (pNext R)"
      using fseg_relink [OF t(1) [unfolded snoc] _ Y(1)] d(4) snoc by simp
    moreover have "fst y \<notin> fst ` set zs" "fst y \<noteq> a" using d snoc by auto
    ultimately show thesis
      by (intro that [of "v\<lparr>reals := ?h2\<rparr>"])
        (use snoc a Y assms(1) in \<open>simp_all add: fs_set_slot_def modify_def load_def wf_heap_store\<close>)
  qed
  obtain h3 where h3: "(if pNext R \<noteq> NULL then modify (reals v2) (pNext R) (\<lambda>x. x\<lparr>ppThis := ppThis R\<rparr>)
      else Some (reals v2)) = Some h3" "wf_heap h3" "cells h3 a = Some R"
    "fseg (cells h3) (pFileList v2) PFileList ys (pNext R)"
    "fseg (cells h3) (pNext R) (end_slot PFileList ys) zs 0"
  proof (cases zs)
    case Nil
    then have "pNext R = 0" using v2(5) by simp
    then show thesis using that [of "reals v2"] v2 Nil by simp
  next
    case (Cons z zs')
    obtain Z where Z: "pNext R = fst z" "pNext R \<noteq> 0" "cells (reals v2) (pNext R) = Some Z" "payload Z = snd z"
      using v2(5) Cons by (auto simp: fseg_Cons)
    let ?h3 = "store (reals v2) (pNext R) (Z\<lparr>ppThis := ppThis R\<rparr>)"
    have "fseg (cells ?h3) (pNext R) (ppThis R) ((pNext R, payload Z) # zs') 0"
      using fseg_replace_head [OF v2(5) [unfolded Cons] Z(3), of "Z\<lparr>ppThis := ppThis R\<rparr>"] d(5) Cons Z(1) by simp
    moreover have "(pNext R, payload Z) = z" using Z(1,4) by simp
    moreover have "pNext R \<notin> fst ` set ys" "pNext R \<noteq> a" using d Cons Z(1) by auto
    ultimately show thesis
      by (intro that [of ?h3]) (use Cons Z v2 a(4) in \<open>simp_all add: modify_def load_def wf_heap_store\<close>)
  qed
  obtain v' where v': "dealloc h3 a = Some v'" "hstep {a} 0 h3 v'" "cells v' = (cells h3)(a := None)"
    using dealloc_ok [OF h3(2,3)] by blast
  have "fseg (cells v') (pFileList v2) PFileList (ys @ zs) 0"
    unfolding fseg_append using h3(4,5) d(1,2) by (auto simp: v'(3))
  then show ?thesis using v2 h3(1) v'(1) hstep_wf [OF v'(2)] by blast
qed

lemma fsClose_spec:
  assumes "fs_abs v (ys @ (a, r) # zs)" and "0 < nRef r" and "pFile r = Some f" and "pReal p = a"
  shows "\<exists>v'. fsClose pm p v
      = Some (if nRef r = 1 then fst (xClose pm f (pParent v)) else SQLITE_OK, v')
    \<and> pParent v' = (if nRef r = 1 then snd (xClose pm f (pParent v)) else pParent v)
    \<and> fs_abs v' (if nRef r = 1 then ys @ zs else ys @ (a, r\<lparr>nRef := nRef r - 1\<rparr>) # zs)"
proof -
  let ?h = "reals v"
  have wf: "wf_heap ?h" and seg: "fseg (cells ?h) (pFileList v) PFileList (ys @ (a, r) # zs) 0"
    using assms(1) by (auto simp: fs_abs_def)
  obtain t where t: "fseg (cells ?h) (pFileList v) PFileList ys t"
    "fseg (cells ?h) t (end_slot PFileList ys) ((a, r) # zs) 0"
    using seg unfolding fseg_append by blast
  obtain R where R: "t = a" "cells ?h a = Some R" "a \<noteq> 0" "payload R = r" "ppThis R = end_slot PFileList ys"
    using t(2) by (auto simp: fseg_Cons)
  have nr: "nRef R = nRef r" "pFile R = Some f" using assms(3) R(4) by (metis payload_simps(5), metis payload_simps(3))
  have "distinct (map fst (ys @ (a, r) # zs))" by (rule fseg_distinct [OF seg])
  then have d: "a \<notin> fst ` set ys" "a \<notin> fst ` set zs" by auto
  let ?R = "R\<lparr>nRef := nRef r - 1\<rparr>" and ?v = "v\<lparr>reals := store ?h a (R\<lparr>nRef := nRef r - 1\<rparr>)\<rparr>"
  have "fseg (cells (store ?h a ?R)) a (ppThis ?R) ((a, payload ?R) # zs) 0"
    using fseg_replace_head [OF t(2) [unfolded R(1)] R(2), of ?R] d(2) by simp
  moreover have "fseg (cells (store ?h a ?R)) (pFileList v) PFileList ys a"
    using t(1) R(1) d(1) by simp
  ultimately have seg1: "fseg (cells (reals ?v)) (pFileList ?v) PFileList (ys @ (a, r\<lparr>nRef := nRef r - 1\<rparr>) # zs) 0"
    unfolding fseg_append using R(4,5) by auto
  have wf1: "wf_heap (reals ?v)" using wf R(2) by (simp add: wf_heap_store)
  have m: "modify ?h a (\<lambda>r. r\<lparr>nRef := nRef r - 1\<rparr>) = Some (store ?h a ?R)"
    using R(2,3) nr by (simp add: modify_def load_def)
  have ld: "load (reals ?v) a = Some ?R" using R(3) by simp
  show ?thesis
  proof (cases "nRef r = 1")
    case False
    then have "fsClose pm p v = Some (SQLITE_OK, ?v)"
      using m ld assms(2,4) by (simp add: fsClose_def)
    then show ?thesis using False wf1 seg1 by (auto simp: fs_abs_def)
  next
    case True
    obtain v2 h3 h4 where u: "fs_set_slot (ppThis ?R) (pNext ?R) ?v = Some v2"
      "(if pNext ?R \<noteq> NULL then modify (reals v2) (pNext ?R) (\<lambda>x. x\<lparr>ppThis := ppThis ?R\<rparr>) else Some (reals v2)) = Some h3"
      "dealloc h3 a = Some h4" "wf_heap h4" "fseg (cells h4) (pFileList v2) PFileList (ys @ zs) 0"
      "pParent v2 = pParent ?v"
      using fs_unlink [OF wf1 seg1 ld] by blast
    have "fsClose pm p v = Some (fst (xClose pm f (pParent v)),
        v2\<lparr>reals := h4, pParent := snd (xClose pm f (pParent v))\<rparr>)"
      using m ld u True nr assms(4)
      by (cases "pNext R = 0") (simp_all add: fsClose_def case_prod_unfold Let_def)
    then show ?thesis using True u(4,5) by (simp add: fs_abs_def)
  qed
qed

section \<open>Opening\<close>

definition open_name :: "string \<Rightarrow> u32 \<Rightarrow> int" where
  "open_name z flags = int (length z) - (if and flags SQLITE_OPEN_MAIN_DB \<noteq> 0 then 0 else 8)"

definition open_type :: "u32 \<Rightarrow> int" where
  "open_type flags = (if and flags SQLITE_OPEN_MAIN_DB \<noteq> 0 then DATABASE_FILE else JOURNAL_FILE)"

definition addref :: "ptr \<Rightarrow> (ptr \<times> 'f fs_real_file) list \<Rightarrow> (ptr \<times> 'f fs_real_file) list" where
  "addref a L = map (\<lambda>x. if fst x = a then (a, (snd x)\<lparr>nRef := nRef (snd x) + 1\<rparr>) else x) L"

lemma addref_split: "distinct (map fst (ys @ (a, r) # zs)) \<Longrightarrow>
    addref a (ys @ (a, r) # zs) = ys @ (a, r\<lparr>nRef := nRef r + 1\<rparr>) # zs"
  by (force simp: addref_def intro!: map_idI)

lemma fs_addref:
  assumes "fs_abs v L" and "a \<in> fst ` set L"
  shows "\<exists>h. modify (reals v) a (\<lambda>r. r\<lparr>nRef := nRef r + 1\<rparr>) = Some h \<and> fs_abs (v\<lparr>reals := h\<rparr>) (addref a L)"
proof -
  obtain ys r zs where L: "L = ys @ (a, r) # zs"
    using assms(2) by (auto dest!: split_list)
  let ?h = "reals v"
  have wf: "wf_heap ?h" and seg: "fseg (cells ?h) (pFileList v) PFileList (ys @ (a, r) # zs) 0"
    using assms(1) by (auto simp: fs_abs_def L)
  obtain t where t: "fseg (cells ?h) (pFileList v) PFileList ys t"
    "fseg (cells ?h) t (end_slot PFileList ys) ((a, r) # zs) 0"
    using seg unfolding fseg_append by blast
  obtain R where R: "t = a" "cells ?h a = Some R" "a \<noteq> 0" "payload R = r" "ppThis R = end_slot PFileList ys"
    using t(2) by (auto simp: fseg_Cons)
  have d0: "distinct (map fst (ys @ (a, r) # zs))" by (rule fseg_distinct [OF seg])
  then have d: "a \<notin> fst ` set ys" "a \<notin> fst ` set zs" by auto
  have nr: "nRef R = nRef r" using R(4) by (metis payload_simps(5))
  let ?R = "R\<lparr>nRef := nRef R + 1\<rparr>"
  have "fseg (cells (store ?h a ?R)) a (ppThis ?R) ((a, payload ?R) # zs) 0"
    using fseg_replace_head [OF t(2) [unfolded R(1)] R(2), of ?R] d(2) by simp
  moreover have "fseg (cells (store ?h a ?R)) (pFileList v) PFileList ys a"
    using t(1) R(1) d(1) by simp
  ultimately have "fseg (cells (store ?h a ?R)) (pFileList v) PFileList (ys @ (a, r\<lparr>nRef := nRef r + 1\<rparr>) # zs) 0"
    unfolding fseg_append using R(4,5) nr by auto
  then have "fs_abs (v\<lparr>reals := store ?h a ?R\<rparr>) (addref a L)"
    using wf R(2) addref_split [OF d0] by (simp add: fs_abs_def wf_heap_store L)
  moreover have "modify ?h a (\<lambda>r. r\<lparr>nRef := nRef r + 1\<rparr>) = Some (store ?h a ?R)"
    using R(2,3) by (simp add: modify_def load_def)
  ultimately show ?thesis by blast
qed

lemma find_in: "find P L = Some x \<Longrightarrow> x \<in> set L \<and> P x"
  by (auto simp: find_Some_iff)

lemma fs_abs_nonzero: "fs_abs v L \<Longrightarrow> a \<in> fst ` set L \<Longrightarrow> a \<noteq> 0"
  unfolding fs_abs_def using fseg_dom by blast

lemma fsOpen_known:
  assumes "fs_abs v L" and "find (\<lambda>x. strncmp_eq (zName (snd x)) z (open_name z flags)) L = Some (a, r)"
  shows "\<exists>v'. fsOpen pm z p flags v = Some (SQLITE_OK, p\<lparr>eType := open_type flags, pReal := a\<rparr>, v')
    \<and> fs_abs v' (addref a L) \<and> pParent v' = pParent v"
proof -
  have "a \<in> fst ` set L" using find_in [OF assms(2)] by force
  then obtain h where h: "modify (reals v) a (\<lambda>r. r\<lparr>nRef := nRef r + 1\<rparr>) = Some h" "a \<noteq> 0"
    "fs_abs (v\<lparr>reals := h\<rparr>) (addref a L)"
    using fs_addref [OF assms(1)] fs_abs_nonzero [OF assms(1)] by blast
  have "fs_find (reals v) z (open_name z flags) (pFileList v) = Some a"
    using fs_find_spec [OF assms(1)] assms(2) by simp
  then have "fsOpen pm z p flags v = Some (SQLITE_OK, p\<lparr>eType := open_type flags, pReal := a\<rparr>, v\<lparr>reals := h\<rparr>)"
    using h by (simp add: fsOpen_def open_name_def open_type_def DATABASE_FILE_def JOURNAL_FILE_def split: if_splits)
  then show ?thesis using h(3) by auto
qed

text \<open>A new object at the head of the list.\<close>

lemma fs_push:
  assumes "fs_abs v L" and "0 < avail (reals v)"
  defines "a \<equiv> brk (reals v)" and "h \<equiv> fst (malloc (reals v))"
  shows "\<exists>h'. (if pFileList v \<noteq> NULL then modify h (pFileList v) (\<lambda>x. x\<lparr>ppThis := PNextOf a\<rparr>) else Some h) = Some h'
    \<and> fs_abs (v\<lparr>reals := store h' a (r\<lparr>pNext := pFileList v, ppThis := PFileList\<rparr>), pFileList := a, pParent := w\<rparr>)
        ((a, payload r) # L)"
proof -
  have wf: "wf_heap (reals v)" and seg: "fseg (cells (reals v)) (pFileList v) PFileList L 0"
    using assms(1) by (auto simp: fs_abs_def)
  obtain m where m: "h = m" "wf_heap m" "cells m = (cells (reals v))(a \<mapsto> junk (reals v))" "a \<noteq> 0"
    "cells (reals v) a = None"
    using malloc_ok [OF wf assms(2)] unfolding a_def h_def by fastforce
  have fresh: "a \<notin> fst ` set L" using fseg_dom [OF seg] m(5) by blast
  have segm: "fseg (cells m) (pFileList v) PFileList L 0" using seg fresh m(3) by simp
  show ?thesis
  proof (cases L)
    case Nil
    then have "pFileList v = 0" using seg by simp
    then show ?thesis using Nil m by (simp add: fs_abs_def fseg_Cons wf_heap_store)
  next
    case (Cons x xs)
    obtain X where X: "pFileList v = fst x" "pFileList v \<noteq> 0" "cells m (pFileList v) = Some X" "payload X = snd x"
      using segm Cons by (auto simp: fseg_Cons)
    have d: "distinct (map fst (x # xs))" using fseg_distinct [OF segm] Cons by simp
    let ?h = "store m (pFileList v) (X\<lparr>ppThis := PNextOf a\<rparr>)"
    have "fseg (cells ?h) (pFileList v) (PNextOf a) ((pFileList v, payload X) # xs) 0"
      using fseg_replace_head [OF segm [unfolded Cons] X(3), of "X\<lparr>ppThis := PNextOf a\<rparr>"] d X(1) by simp
    moreover have "(pFileList v, payload X) = x" using X(1,4) by simp
    ultimately have "fseg (cells ?h) (pFileList v) (PNextOf a) L 0" by (simp add: Cons)
    moreover have "fst x \<noteq> a" using fresh Cons by auto
    moreover have "cells m a = Some (junk (reals v))" using m(3) by simp
    ultimately show ?thesis using X m(1,2,4) fresh
      by (simp add: modify_def load_def fs_abs_def fseg_Cons wf_heap_store del: fun_upd_apply)
        (simp add: wf_heap_store)
  qed
qed

definition real_flags :: "u32 \<Rightarrow> u32" where
  "real_flags flags = or (and flags (not SQLITE_OPEN_MAIN_DB)) SQLITE_OPEN_TEMP_DB"

lemma fs_find_none:
  assumes "fs_abs v L" and "find (\<lambda>x. strncmp_eq (zName (snd x)) z (open_name z flags)) L = None"
  shows "fs_find (reals v) z (open_name z flags) (pFileList v) = Some 0"
  using fs_find_spec [OF assms(1)] assms(2) by simp

lemma fsOpen_split:
  "fsOpen pm z p flags v = do {
     a \<leftarrow> fs_find (reals v) z (open_name z flags) (pFileList v);
     (rc, a, v) \<leftarrow> (if a = NULL then do { check (open_type flags = DATABASE_FILE); fs_new_real pm z flags v }
                   else Some (SQLITE_OK, a, v));
     if a \<noteq> NULL then
       if rc = SQLITE_OK then do {
         h \<leftarrow> modify (reals v) a (\<lambda>r. r\<lparr>nRef := nRef r + 1\<rparr>);
         Some (rc, p\<lparr>eType := open_type flags, pReal := a\<rparr>, v\<lparr>reals := h\<rparr>) }
       else do {
         r \<leftarrow> load (reals v) a;
         h \<leftarrow> dealloc (reals v) a;
         Some (rc, p\<lparr>eType := open_type flags\<rparr>, v\<lparr>reals := h, pParent :=
           (case pFile r of Some f \<Rightarrow> snd (xClose pm f (pParent v)) | None \<Rightarrow> pParent v)\<rparr>) }
     else Some (rc, p\<lparr>eType := open_type flags\<rparr>, v) }"
  by (cases "and flags SQLITE_OPEN_MAIN_DB = 0")
    (simp_all add: fsOpen_def open_name_def open_type_def DATABASE_FILE_def JOURNAL_FILE_def Let_def cong: if_cong)

lemma fsOpen_new:
  assumes "fs_abs v L" and "find (\<lambda>x. strncmp_eq (zName (snd x)) z (open_name z flags)) L = None"
    and "and flags SQLITE_OPEN_MAIN_DB \<noteq> 0" and "0 < avail (reals v)"
    and "xOpen pm z (real_flags flags) (pParent v) = (SQLITE_OK, Some f, w)"
    and "fs_setup pm f (real_zero\<lparr>zName := z, pFile := Some f\<rparr>) w = Some (SQLITE_OK, r, w')"
  shows "\<exists>v'. fsOpen pm z p flags v = Some (SQLITE_OK, p\<lparr>eType := DATABASE_FILE, pReal := brk (reals v)\<rparr>, v')
    \<and> fs_abs v' ((brk (reals v), (payload r)\<lparr>nRef := nRef r + 1\<rparr>) # L) \<and> pParent v' = w'"
proof -
  let ?a = "brk (reals v)"
  have wf: "wf_heap (reals v)" using assms(1) by (simp add: fs_abs_def)
  obtain m where m: "malloc (reals v) = (m, ?a)" "?a \<noteq> 0"
    using malloc_ok [OF wf assms(4)] by metis
  obtain h' where h': "(if pFileList v \<noteq> NULL then modify m (pFileList v) (\<lambda>x. x\<lparr>ppThis := PNextOf ?a\<rparr>)
      else Some m) = Some h'"
    "fs_abs (v\<lparr>reals := store h' ?a (r\<lparr>pNext := pFileList v, ppThis := PFileList\<rparr>), pFileList := ?a, pParent := w'\<rparr>)
      ((?a, payload r) # L)"
    using fs_push [OF assms(1,4), where r = r and w = w'] unfolding m(1) fst_conv by blast
  let ?v = "v\<lparr>reals := store h' ?a (r\<lparr>pNext := pFileList v, ppThis := PFileList\<rparr>), pFileList := ?a, pParent := w'\<rparr>"
  have new: "fs_new_real pm z flags v = Some (SQLITE_OK, ?a, ?v)"
    using m assms(5,6) h'(1)
    by (cases "pFileList v = 0") (simp_all add: fs_new_real_def real_flags_def case_prod_unfold Let_def)
  have d: "distinct (map fst ((?a, payload r) # L))"
    using h'(2) fseg_distinct unfolding fs_abs_def by blast
  obtain h where h: "modify (reals ?v) ?a (\<lambda>r. r\<lparr>nRef := nRef r + 1\<rparr>) = Some h"
    "fs_abs (?v\<lparr>reals := h\<rparr>) (addref ?a ((?a, payload r) # L))"
    using fs_addref [OF h'(2), of ?a] by auto
  have "fsOpen pm z p flags v = Some (SQLITE_OK, p\<lparr>eType := DATABASE_FILE, pReal := ?a\<rparr>, ?v\<lparr>reals := h\<rparr>)"
    using fs_find_none [OF assms(1,2)] new h(1) m(2) assms(3)
    by (simp add: fsOpen_split open_type_def)
  moreover have "addref ?a ((?a, payload r) # L) = (?a, (payload r)\<lparr>nRef := nRef r + 1\<rparr>) # L"
    using addref_split [of "[]" ?a "payload r" L] d by simp
  ultimately show ?thesis using h(2) by auto
qed

text \<open>An open that fails leaves the list as it was, frees the object and closes what the parent opened.\<close>

lemma fs_setup_keeps:
  "fs_setup pm f r p = Some (rc, r', p') \<Longrightarrow> pFile r' = pFile r \<and> zName r' = zName r \<and> nRef r' = nRef r"
  by (auto simp: fs_setup_def Let_def bind_eq_Some_conv split: if_splits prod.splits)

text \<open>What the parent and the blob report when a new object is set up.\<close>

definition open_blob ::
  "('f, 'p) parent_vfs \<Rightarrow> string \<Rightarrow> u32 \<Rightarrow> 'p \<Rightarrow> (int \<times> 'f fs_real_file \<times> 'p) option" where
  "open_blob pm z flags p =
     (let (rc, fo, w) = xOpen pm z (real_flags flags) p in
      if rc \<noteq> SQLITE_OK then Some (rc, real_zero\<lparr>zName := z, pFile := fo\<rparr>, w)
      else do { f \<leftarrow> fo; fs_setup pm f (real_zero\<lparr>zName := z, pFile := Some f\<rparr>) w })"

lemma fsOpen_error:
  assumes "fs_abs v L" and "find (\<lambda>x. strncmp_eq (zName (snd x)) z (open_name z flags)) L = None"
    and "and flags SQLITE_OPEN_MAIN_DB \<noteq> 0" and "0 < avail (reals v)"
    and "open_blob pm z flags (pParent v) = Some (rc, r, w)" and "rc \<noteq> SQLITE_OK"
  shows "\<exists>v'. fsOpen pm z p flags v = Some (rc, p\<lparr>eType := DATABASE_FILE\<rparr>, v')
    \<and> fs_abs v' L \<and> cells (reals v') = cells (reals v) \<and> pFileList v' = pFileList v
    \<and> pParent v' = (case pFile r of Some f \<Rightarrow> snd (xClose pm f w) | None \<Rightarrow> w)"
proof -
  let ?a = "brk (reals v)" and ?w = "case pFile r of Some f \<Rightarrow> snd (xClose pm f w) | None \<Rightarrow> w"
  have wf: "wf_heap (reals v)" and seg: "fseg (cells (reals v)) (pFileList v) PFileList L 0"
    using assms(1) by (simp_all add: fs_abs_def)
  obtain m where m: "malloc (reals v) = (m, ?a)" "?a \<noteq> 0" "cells m = (cells (reals v))(?a \<mapsto> junk (reals v))"
    "wf_heap m" "cells (reals v) ?a = None"
    using malloc_ok [OF wf assms(4)] by metis
  let ?v = "v\<lparr>reals := store m ?a r, pParent := w\<rparr>"
  have new: "fs_new_real pm z flags v = Some (rc, ?a, ?v)"
    using m assms(5,6)
    by (auto simp: fs_new_real_def open_blob_def real_flags_def Let_def bind_eq_Some_conv split: if_splits prod.splits)
  have s: "wf_heap (store m ?a r)" "cells (store m ?a r) ?a = Some r"
    using m(3,4) by (simp_all add: wf_heap_store)
  obtain h where h: "dealloc (store m ?a r) ?a = Some h" "hstep {?a} 0 (store m ?a r) h"
    "cells h = (cells (store m ?a r))(?a := None)"
    using dealloc_ok [OF s] by blast
  have c: "cells h = cells (reals v)" using m(3,5) by (simp add: h(3) fun_upd_idem)
  have "fs_abs (?v\<lparr>reals := h, pParent := ?w\<rparr>) L"
    using hstep_wf [OF h(2)] seg by (simp add: fs_abs_def c)
  moreover have "fsOpen pm z p flags v = Some (rc, p\<lparr>eType := DATABASE_FILE\<rparr>, ?v\<lparr>reals := h, pParent := ?w\<rparr>)"
    using fs_find_none [OF assms(1,2)] new h(1) m(2) assms(3,6)
    by (simp add: fsOpen_split open_type_def split: option.splits)
  ultimately show ?thesis using c by auto
qed

text \<open>Without memory nothing happens, and the parent is not asked.\<close>

lemma fsOpen_nomem:
  assumes "fs_abs v L" and "find (\<lambda>x. strncmp_eq (zName (snd x)) z (open_name z flags)) L = None"
    and "and flags SQLITE_OPEN_MAIN_DB \<noteq> 0" and "avail (reals v) = 0"
  shows "fsOpen pm z p flags v = Some (SQLITE_NOMEM, p\<lparr>eType := DATABASE_FILE\<rparr>, v)"
  using fs_find_none [OF assms(1,2)] assms(3,4)
  by (simp add: fsOpen_split open_type_def fs_new_real_def malloc_def)

end
