(* ===== verification/Memdb.thy ===== *)
theory Memdb
  imports Files
begin

text \<open>
  The in-memory database file of tsrc/memdb.c: the \<open>MemFile\<close> object and its I/O methods. The bytes
  at \<open>aData\<close> are a list; \<open>sqlite3_realloc64\<close> is the parameter \<open>realloc\<close>, which returns the new
  block or no block. A copy outside the allocation has no result, so the theorems below also say
  that the methods stay inside it.
\<close>

section \<open>State\<close>

record memfile =
  sz :: int
  szMax :: int
  aData :: bytes
  nMmap :: int
  mFlags :: u32
  eLock :: int

type_synonym realloc = "bytes \<Rightarrow> int \<Rightarrow> bytes option"

definition DESERIALIZE_FREEONCLOSE :: u32 where "DESERIALIZE_FREEONCLOSE = 1"
definition DESERIALIZE_RESIZEABLE :: u32 where "DESERIALIZE_RESIZEABLE = 2"

section \<open>Methods\<close>

definition memdbOpen :: "u32 \<Rightarrow> (memfile \<times> u32) option" where
  "memdbOpen flags =
     (if and flags SQLITE_OPEN_MAIN_DB = 0 then None
      else Some (\<lparr>sz = 0, szMax = 0, aData = [], nMmap = 0,
                  mFlags = or DESERIALIZE_RESIZEABLE DESERIALIZE_FREEONCLOSE, eLock = 0\<rparr>,
                 or flags SQLITE_OPEN_MEMORY))"

text \<open>\<open>memdbClose\<close> frees the data when the connection owns it.\<close>

definition memdbClose :: "memfile \<Rightarrow> int \<times> bytes option" where
  "memdbClose p = (SQLITE_OK, if and (mFlags p) DESERIALIZE_FREEONCLOSE \<noteq> 0 then None else Some (aData p))"

definition memdbRead :: "bytes \<Rightarrow> int \<Rightarrow> memfile \<Rightarrow> (int \<times> bytes) option" where
  "memdbRead zBuf iOfst p =
     (let iAmt = int (length zBuf) in
      if iOfst + iAmt > sz p then
        let zBuf = replicate (length zBuf) 0 in
        if iOfst < sz p then do {
          src \<leftarrow> mem_get (aData p) iOfst (sz p - iOfst);
          zBuf \<leftarrow> mem_put zBuf 0 src;
          Some (SQLITE_IOERR_SHORT_READ, zBuf) }
        else Some (SQLITE_IOERR_SHORT_READ, zBuf)
      else do {
        src \<leftarrow> mem_get (aData p) iOfst iAmt;
        zBuf \<leftarrow> mem_put zBuf 0 src;
        Some (SQLITE_OK, zBuf) })"

definition memdbEnlarge :: "realloc \<Rightarrow> memfile \<Rightarrow> int \<Rightarrow> int \<times> memfile" where
  "memdbEnlarge realloc p newSz =
     (if and (mFlags p) DESERIALIZE_RESIZEABLE = 0 \<or> nMmap p > 0 then (SQLITE_FULL, p)
      else case realloc (aData p) newSz of
        None \<Rightarrow> (SQLITE_NOMEM, p)
      | Some pNew \<Rightarrow> (SQLITE_OK, p\<lparr>aData := pNew, szMax := newSz\<rparr>))"

definition memdbWrite :: "realloc \<Rightarrow> bytes \<Rightarrow> int \<Rightarrow> memfile \<Rightarrow> (int \<times> memfile) option" where
  "memdbWrite realloc z iOfst p =
     (let iAmt = int (length z);
          (rc, p) = (if iOfst + iAmt > sz p \<and> iOfst + iAmt > szMax p
                     then memdbEnlarge realloc p ((iOfst + iAmt) * 2) else (SQLITE_OK, p)) in
      if rc \<noteq> SQLITE_OK then Some (rc, p)
      else do {
        p \<leftarrow> (if iOfst + iAmt > sz p then do {
                p \<leftarrow> (if iOfst > sz p then do {
                        d \<leftarrow> mem_put (aData p) (sz p) (replicate (nat (iOfst - sz p)) 0);
                        Some (p\<lparr>aData := d\<rparr>) }
                      else Some p);
                Some (p\<lparr>sz := iOfst + iAmt\<rparr>) }
              else Some p);
        d \<leftarrow> mem_put (aData p) iOfst z;
        Some (SQLITE_OK, p\<lparr>aData := d\<rparr>) })"

definition memdbTruncate :: "int \<Rightarrow> memfile \<Rightarrow> int \<times> memfile" where
  "memdbTruncate sz' p =
     (if sz' > sz p then (SQLITE_FULL, p) else (SQLITE_OK, p\<lparr>sz := sz'\<rparr>))"

definition memdbSync :: "u32 \<Rightarrow> memfile \<Rightarrow> int \<times> memfile" where
  "memdbSync flags p = (SQLITE_OK, p)"

definition memdbFileSize :: "memfile \<Rightarrow> int \<times> int" where
  "memdbFileSize p = (SQLITE_OK, sz p)"

definition memdbLock :: "int \<Rightarrow> memfile \<Rightarrow> int \<times> memfile" where
  "memdbLock l p = (SQLITE_OK, p\<lparr>eLock := l\<rparr>)"

definition memdbDeviceCharacteristics :: "u32" where
  "memdbDeviceCharacteristics = or (or 0x1 0x1000) (or 0x200 0x400)"

text \<open>\<open>memdbFetch\<close> returns the offset of the page inside \<open>aData\<close>.\<close>

definition memdbFetch :: "int \<Rightarrow> memfile \<Rightarrow> int \<times> int \<times> memfile" where
  "memdbFetch iOfst p = (SQLITE_OK, iOfst, p\<lparr>nMmap := nMmap p + 1\<rparr>)"

definition memdbUnfetch :: "memfile \<Rightarrow> int \<times> memfile" where
  "memdbUnfetch p = (SQLITE_OK, p\<lparr>nMmap := nMmap p - 1\<rparr>)"

definition memdbAccess :: "int \<times> int" where
  "memdbAccess = (SQLITE_OK, 0)"

section \<open>Invariant and content\<close>

definition memdb_inv :: "memfile \<Rightarrow> bool" where
  "memdb_inv p \<longleftrightarrow> 0 \<le> sz p \<and> sz p \<le> szMax p \<and> szMax p = int (length (aData p))"

definition memdb_view :: "memfile \<Rightarrow> bytes" where
  "memdb_view p = take (nat (sz p)) (aData p)"

text \<open>\<open>sqlite3_realloc64\<close> keeps the bytes of the old block that fit into the new one.\<close>

definition realloc_ok :: "realloc \<Rightarrow> bool" where
  "realloc_ok realloc \<longleftrightarrow> (\<forall>old n new. realloc old n = Some new \<longrightarrow>
     int (length new) = n \<and> take (min (length old) (length new)) new = take (min (length old) (length new)) old)"

lemma length_view: "memdb_inv p \<Longrightarrow> length (memdb_view p) = nat (sz p)"
  by (auto simp: memdb_inv_def memdb_view_def)

lemma memdbOpen_inv: "memdbOpen flags = Some (p, out) \<Longrightarrow> memdb_inv p \<and> memdb_view p = []"
  by (auto simp: memdbOpen_def memdb_inv_def memdb_view_def split: if_splits)

lemma memdbEnlarge_spec:
  assumes "realloc_ok realloc" and "memdb_inv p" and "memdbEnlarge realloc p n = (rc, p')"
    and "szMax p < n"
  shows "memdb_inv p' \<and> memdb_view p' = memdb_view p \<and> sz p' = sz p \<and> (rc = SQLITE_OK \<longrightarrow> szMax p' = n)"
proof (cases "p' = p")
  case True
  then show ?thesis using assms(2,3)
    by (auto simp: memdbEnlarge_def rc_defs split: if_splits option.splits)
      (metis memfile.select_convs(2) memfile.surjective memfile.update_convs(2) memfile.update_convs(3))
next
  case False
  then obtain new where new: "realloc (aData p) n = Some new" "p' = p\<lparr>aData := new, szMax := n\<rparr>"
    using assms(3) by (auto simp: memdbEnlarge_def split: if_splits option.splits)
  have n: "int (length new) = n" and t: "take (min (length (aData p)) (length new)) new
      = take (min (length (aData p)) (length new)) (aData p)"
    using assms(1) new(1) by (auto simp: realloc_ok_def)
  have le: "nat (sz p) \<le> min (length (aData p)) (length new)"
    using assms(2,4) n by (auto simp: memdb_inv_def)
  have "take (nat (sz p)) new = take (nat (sz p)) (aData p)"
    using arg_cong [OF t, of "take (nat (sz p))"] le by (simp add: min_absorb1)
  then show ?thesis using assms(2,4) n new(2) by (auto simp: memdb_inv_def memdb_view_def)
qed

text \<open>A write, on every branch: it grows the file when it must, fails without a change, or splices.\<close>

definition memdb_room :: "realloc \<Rightarrow> memfile \<Rightarrow> int \<Rightarrow> int \<times> memfile" where
  "memdb_room realloc p n =
     (if n > sz p \<and> n > szMax p then memdbEnlarge realloc p (n * 2) else (SQLITE_OK, p))"

lemma memdb_room_spec:
  assumes "realloc_ok realloc" and "memdb_inv p" and "memdb_room realloc p n = (rc, p1)"
  shows "memdb_inv p1 \<and> memdb_view p1 = memdb_view p \<and> sz p1 = sz p
    \<and> (rc = SQLITE_OK \<and> n > sz p \<longrightarrow> n \<le> szMax p1)"
proof (cases "n > sz p \<and> n > szMax p")
  case True
  have "szMax p < n * 2" using True assms(2) by (auto simp: memdb_inv_def)
  then show ?thesis
    using memdbEnlarge_spec [OF assms(1,2), of "n * 2" rc p1] True assms by (auto simp: memdb_room_def memdb_inv_def)
next
  case False
  then show ?thesis using assms(2,3) by (auto simp: memdb_room_def split: if_splits)
qed

lemma memdbWrite_eq:
  "memdbWrite realloc z iOfst p =
     (let (rc, p) = memdb_room realloc p (iOfst + int (length z)) in
      if rc \<noteq> SQLITE_OK then Some (rc, p)
      else do {
        p \<leftarrow> (if iOfst + int (length z) > sz p then do {
                p \<leftarrow> (if iOfst > sz p then do {
                        d \<leftarrow> mem_put (aData p) (sz p) (replicate (nat (iOfst - sz p)) 0);
                        Some (p\<lparr>aData := d\<rparr>) }
                      else Some p);
                Some (p\<lparr>sz := iOfst + int (length z)\<rparr>) }
              else Some p);
        d \<leftarrow> mem_put (aData p) iOfst z;
        Some (SQLITE_OK, p\<lparr>aData := d\<rparr>) })"
  by (simp add: memdbWrite_def memdb_room_def Let_def)

lemma memdbWrite_spec:
  assumes "realloc_ok realloc" and "memdb_inv p" and "ofst \<le> nat (sz p)"
  shows "\<exists>rc p'. memdbWrite realloc z (int ofst) p = Some (rc, p') \<and> memdb_inv p' \<and>
    memdb_view p' = (if rc = SQLITE_OK then splice (memdb_view p) ofst z else memdb_view p)"
proof -
  obtain rc p1 where r: "memdb_room realloc p (int ofst + int (length z)) = (rc, p1)"
    by (cases "memdb_room realloc p (int ofst + int (length z))")
  note p1 = memdb_room_spec [OF assms(1,2) r]
  show ?thesis
  proof (cases "rc = SQLITE_OK")
    case False
    then show ?thesis using r p1 by (simp add: memdbWrite_eq)
  next
    case True
    define p2 where "p2 = (if int ofst + int (length z) > sz p1
      then p1\<lparr>sz := int ofst + int (length z)\<rparr> else p1)"
    have inv2: "memdb_inv p2" using p1 True by (auto simp: p2_def memdb_inv_def)
    have ad: "aData p2 = aData p1" by (simp add: p2_def)
    have le: "ofst + length z \<le> length (aData p1)"
      using p1 True by (auto simp: memdb_inv_def)
    have put: "mem_put (aData p2) (int ofst) z = Some (splice (aData p1) ofst z)"
      using le by (simp add: ad mem_put_splice)
    have ofs: "\<not> int ofst > sz p1" using assms(2,3) p1 by (auto simp: memdb_inv_def)
    have w: "memdbWrite realloc z (int ofst) p = Some (SQLITE_OK, p2\<lparr>aData := splice (aData p1) ofst z\<rparr>)"
      using put ofs by (simp add: memdbWrite_eq r True p2_def split: if_splits)
    have inv3: "memdb_inv (p2\<lparr>aData := splice (aData p1) ofst z\<rparr>)"
      using inv2 le by (simp add: memdb_inv_def ad)
    have s2: "nat (sz p2) = max (nat (sz p)) (ofst + length z)"
      using p1 assms(2) by (auto simp: p2_def memdb_inv_def)
    have szl: "nat (sz p) \<le> length (aData p1)" using p1 by (auto simp: memdb_inv_def)
    have v: "memdb_view p = take (nat (sz p)) (aData p1)"
      using p1 unfolding memdb_view_def by metis
    have "memdb_view (p2\<lparr>aData := splice (aData p1) ofst z\<rparr>) = splice (memdb_view p) ofst z"
      unfolding v using take_splice [OF assms(3) szl, of z] by (simp add: memdb_view_def s2)
    then show ?thesis using w inv3 True by auto
  qed
qed

lemma memdbRead_spec:
  assumes "memdb_inv p"
  shows "memdbRead buf (int ofst) p =
    (if ofst + length buf \<le> nat (sz p) then Some (SQLITE_OK, slice_of (memdb_view p) ofst (length buf))
     else Some (SQLITE_IOERR_SHORT_READ,
       drop ofst (memdb_view p) @ replicate (length buf - (nat (sz p) - ofst)) 0))"
proof -
  have len: "nat (sz p) \<le> length (aData p)" using assms by (auto simp: memdb_inv_def)
  show ?thesis
  proof (cases "ofst + length buf \<le> nat (sz p)")
    case True
    have "\<not> int ofst + int (length buf) > sz p" using True assms by (auto simp: memdb_inv_def)
    moreover have "ofst + length buf \<le> length (aData p)" using True len by linarith
    ultimately show ?thesis using True
      by (simp add: memdbRead_def mem_get_def mem_put_def slice_of_def memdb_view_def drop_take min_def)
  next
    case False
    then have 1: "int ofst + int (length buf) > sz p" using assms by (auto simp: memdb_inv_def)
    show ?thesis
    proof (cases "int ofst < sz p")
      case True
      have "mem_get (aData p) (int ofst) (sz p - int ofst) = Some (drop ofst (memdb_view p))"
        using True len assms by (auto simp: mem_get_def memdb_view_def memdb_inv_def drop_take nat_diff_distrib)
      moreover have "length (drop ofst (memdb_view p)) = nat (sz p) - ofst"
        by (simp add: length_view [OF assms])
      ultimately show ?thesis using 1 True False
        by (auto simp: memdbRead_def mem_put_def Let_def)
    next
      case nlt: False
      then have "nat (sz p) \<le> ofst" by linarith
      then show ?thesis using 1 nlt False by (simp add: memdbRead_def length_view [OF assms])
    qed
  qed
qed

section \<open>The contract\<close>

locale reallocator =
  fixes realloc :: realloc
  assumes realloc_ok: "realloc_ok realloc"

sublocale reallocator \<subseteq> vfs_file memdbRead "memdbWrite realloc" memdb_view memdb_inv
  "\<lambda>n p. Some (memdbTruncate n p)"
proof (unfold_locales, goal_cases)
  case (1 s ofst buf)
  then show ?case by (simp add: memdbRead_spec length_view)
next
  case (2 s ofst buf)
  then show ?case by (auto simp: memdbRead_spec length_view)
next
  case (3 s ofst z)
  then show ?case using memdbWrite_spec [OF realloc_ok, of s ofst z] by (auto simp: length_view)
next
  case (4 s ofst z s')
  then show ?case using memdbWrite_spec [OF realloc_ok, of s ofst z] by (auto simp: length_view)
next
  case (5 s ofst z rc s')
  then show ?case using memdbWrite_spec [OF realloc_ok, of s ofst z]
    by (auto simp: length_view nth_splice split: if_splits)
next
  case (6 s n)
  then show ?case
    by (auto simp: memdbTruncate_def length_view) (auto simp: memdb_inv_def memdb_view_def min_def)
qed

text \<open>One allocator with that behaviour: it zeroes the new tail.\<close>

definition realloc_zero :: realloc where
  "realloc_zero old n = (if n < 0 then None
     else Some (take (nat n) old @ replicate (nat n - length old) 0))"

interpretation memdb: reallocator realloc_zero
  by unfold_locales (auto simp: realloc_ok_def realloc_zero_def min_def split: if_splits)

end
