(* ===== verification/Onefile_Props.thy ===== *)
theory Onefile_Props
  imports Onefile_Spec Onefile_List Memdb
begin

text \<open>
  The properties of the "one file" VFS as a whole: what a write does to the two files, what survives
  closing and opening again, and where the limits between database and journal are not kept. The
  hypothesis \<open>rw_file (xRead pm f) (xWrite pm f) view ok\<close> is the file contract of the parent VFS;
  it is shown to hold for the in-memory file of tsrc/memdb.c, on which the witnesses run.
\<close>

section \<open>A parent VFS that keeps the blob in memory\<close>

definition mem_parent :: "(unit, memfile) parent_vfs" where
  "mem_parent = \<lparr>xOpen = (\<lambda>z flags p. (SQLITE_OK, Some (), p)), xClose = (\<lambda>f p. (SQLITE_OK, p)),
     xRead = (\<lambda>f. memdbRead), xWrite = (\<lambda>f. memdbWrite realloc_zero), xSync = (\<lambda>f. memdbSync),
     xFileSize = (\<lambda>f. memdbFileSize), xAccess = (\<lambda>z flags p. (SQLITE_OK, 0, p))\<rparr>"

lemma mem_parent_rw: "rw_file (xRead mem_parent f) (xWrite mem_parent f) memdb_view memdb_inv"
  by (simp add: mem_parent_def memdb.rw_file_axioms)

interpretation mem_blob: blob_file mem_parent "()" memdb_view memdb_inv a for a :: ptr
  unfolding blob_file_def blob_def by (rule mem_parent_rw)

text \<open>A VFS with one open blob of \<open>n\<close> bytes, all zero, and the given sizes.\<close>

definition mem_blob_file :: "nat \<Rightarrow> memfile" where
  "mem_blob_file n = \<lparr>sz = int n, szMax = int n, aData = replicate n 0, nMmap = 0, mFlags = 0, eLock = 0\<rparr>"

definition mem_fs :: "nat \<Rightarrow> int \<Rightarrow> int \<Rightarrow> (unit, memfile) fs_vfs" where
  "mem_fs n nD nJ = \<lparr>pFileList = 2, reals =
     \<lparr>cells = [2 \<mapsto> \<lparr>pFile = Some (), zName = ''db'', nDatabase = nD, nJournal = nJ, nBlob = int n,
        nRef = 1, pNext = 0, ppThis = PFileList\<rparr>], brk = 3, avail = 3, junk = real_zero\<rparr>,
     pParent = mem_blob_file n\<rparr>"

lemma mem_blob_file_simps [simp]:
  "memdb_inv (mem_blob_file n)" "memdb_view (mem_blob_file n) = replicate n 0"
  by (simp_all add: mem_blob_file_def memdb_inv_def memdb_view_def)

lemma mem_fs_ok:
  "512 dvd n \<Longrightarrow> n < 2 ^ 31 \<Longrightarrow> nD + 512 \<le> n \<Longrightarrow> nJ \<le> n \<Longrightarrow>
   real_ok memdb_view memdb_inv () 2 (mem_fs n (int nD) (int nJ))"
  using int_dvd_int_iff [of 512 n] by (simp add: real_ok_def mem_fs_def load_def sizes_ok_def)

lemma mem_fs_load: "load (reals (mem_fs n x y)) 2 = Some \<lparr>pFile = Some (), zName = ''db'', nDatabase = x,
    nJournal = y, nBlob = int n, nRef = 1, pNext = 0, ppThis = PFileList\<rparr>"
  by (simp add: mem_fs_def load_def)

lemma mem_fs_views [simp]:
  "0 \<le> x \<Longrightarrow> x + 512 \<le> int n \<Longrightarrow> db_view memdb_view 2 (mem_fs n x y) = replicate (nat x) 0"
  "length (journal_view memdb_view 2 (mem_fs n x y)) = nat y"
  by (auto simp: db_view_def mem_fs_def load_def slice_of_def min_def journal_view_def nat_le_iff le_diff_conv)

section \<open>Writes\<close>

text \<open>C1: a write to the database file inside or at the end of it always has a result; when it succeeds the
  content of the file is the old content with the bytes spliced in and a read of the same range returns them,
  and when it fails only bytes of the range can have changed.\<close>

theorem fs_database_write:
  assumes "rw_file (xRead pm f) (xWrite pm f) view ok" and "real_ok view ok f a v"
    and "ofst \<le> length (db_view view a v)" and "length buf = length z"
  shows "\<exists>rc v'. fsWrite pm (db_handle a) z (int ofst) v = Some (rc, v') \<and> real_ok view ok f a v' \<and>
    (if rc = SQLITE_OK
     then db_view view a v' = splice (db_view view a v) ofst z \<and>
       fsRead pm (db_handle a) buf (int ofst) v' = Some (SQLITE_OK, z)
     else \<forall>i < length (db_view view a v). i < ofst \<or> ofst + length z \<le> i \<longrightarrow>
       db_view view a v' ! i = db_view view a v ! i)"
proof -
  note b = assms(1) [folded blob_def, folded blob_file_def]
  obtain rc v' where w: "fsWrite pm (db_handle a) z (int ofst) v = Some (rc, v')" "real_ok view ok f a v'"
    "rc = SQLITE_OK \<longrightarrow> db_view view a v' = splice (db_view view a v) ofst z"
    "\<forall>i < length (db_view view a v). i < ofst \<or> ofst + length z \<le> i
      \<longrightarrow> db_view view a v' ! i = db_view view a v ! i"
    using blob_file.db_write_spec [OF b assms(2), where ofst = ofst and z = z] assms(3) by blast
  have "fsRead pm (db_handle a) buf (int ofst) v' = Some (SQLITE_OK, z)" if "rc = SQLITE_OK"
    using blob_file.db_read_full [OF b w(2), of ofst buf] w(3) that assms(3,4) by simp
  then show ?thesis using w by auto
qed

theorem fs_database_write_witness:
  "\<exists>rc v'. fsWrite mem_parent (db_handle 2) [1, 2, 3] (int 5) (mem_fs 2048 (int 9) (int 512)) = Some (rc, v')
    \<and> real_ok memdb_view memdb_inv () 2 v' \<and>
    (if rc = SQLITE_OK
     then db_view memdb_view 2 v' = splice (db_view memdb_view 2 (mem_fs 2048 (int 9) (int 512))) 5 [1, 2, 3] \<and>
       fsRead mem_parent (db_handle 2) [0, 0, 0] (int 5) v' = Some (SQLITE_OK, [1, 2, 3])
     else \<forall>i < length (db_view memdb_view 2 (mem_fs 2048 (int 9) (int 512))).
       i < 5 \<or> 5 + length [1, 2, 3 :: u8] \<le> i \<longrightarrow>
       db_view memdb_view 2 v' ! i = db_view memdb_view 2 (mem_fs 2048 (int 9) (int 512)) ! i)"
  by (rule fs_database_write [OF mem_parent_rw mem_fs_ok]) (simp_all)

text \<open>C2: a write to the journal file, which is stored backwards block by block at the end of the blob,
  always has a result; when it succeeds the journal reads as one spliced file again, and whether it succeeds
  or not the database file is unchanged.\<close>

theorem fs_journal_write_isolated:
  assumes "rw_file (xRead pm f) (xWrite pm f) view ok" and "real_ok view ok f a v"
    and "ofst \<le> length (journal_view view a v)" and "length buf = length z"
  shows "\<exists>rc v'. fsWrite pm (journal_handle a) z (int ofst) v = Some (rc, v') \<and> real_ok view ok f a v' \<and>
    db_view view a v' = db_view view a v \<and>
    (if rc = SQLITE_OK
     then journal_view view a v' = splice (journal_view view a v) ofst z \<and>
       fsRead pm (journal_handle a) buf (int ofst) v' = Some (SQLITE_OK, z)
     else \<forall>i < length (journal_view view a v). i < ofst \<or> ofst + length z \<le> i \<longrightarrow>
       journal_view view a v' ! i = journal_view view a v ! i)"
proof -
  note b = assms(1) [folded blob_def, folded blob_file_def]
  obtain rc v' where w: "fsWrite pm (journal_handle a) z (int ofst) v = Some (rc, v')" "real_ok view ok f a v'"
    "rc = SQLITE_OK \<longrightarrow> journal_view view a v' = splice (journal_view view a v) ofst z"
    "\<forall>i < length (journal_view view a v). i < ofst \<or> ofst + length z \<le> i
      \<longrightarrow> journal_view view a v' ! i = journal_view view a v ! i" "db_view view a v' = db_view view a v"
    using blob_file.journal_write_spec [OF b assms(2,3), of z] by blast
  have "fsRead pm (journal_handle a) buf (int ofst) v' = Some (SQLITE_OK, z)" if "rc = SQLITE_OK"
    using blob_file.journal_read_full [OF b w(2), of ofst buf] w(3) that assms(3,4) by simp
  then show ?thesis using w by auto
qed

theorem fs_journal_write_isolated_witness:
  "\<exists>rc v'. fsWrite mem_parent (journal_handle 2) [1, 2, 3] (int 511) (mem_fs 2048 (int 9) (int 600)) = Some (rc, v')
    \<and> real_ok memdb_view memdb_inv () 2 v' \<and>
    db_view memdb_view 2 v' = db_view memdb_view 2 (mem_fs 2048 (int 9) (int 600)) \<and>
    (if rc = SQLITE_OK
     then journal_view memdb_view 2 v'
         = splice (journal_view memdb_view 2 (mem_fs 2048 (int 9) (int 600))) 511 [1, 2, 3] \<and>
       fsRead mem_parent (journal_handle 2) [0, 0, 0] (int 511) v' = Some (SQLITE_OK, [1, 2, 3])
     else \<forall>i < length (journal_view memdb_view 2 (mem_fs 2048 (int 9) (int 600))).
       i < 511 \<or> 511 + length [1, 2, 3 :: u8] \<le> i \<longrightarrow>
       journal_view memdb_view 2 v' ! i = journal_view memdb_view 2 (mem_fs 2048 (int 9) (int 600)) ! i)"
  by (rule fs_journal_write_isolated [OF mem_parent_rw mem_fs_ok]) (simp_all)

text \<open>C3: as long as the journal holds whole blocks, no write to the database file changes the journal,
  wherever it starts (inside the database, at its end or past it), and whether it is accepted or not.\<close>

theorem fs_database_write_keeps_journal:
  assumes "rw_file (xRead pm f) (xWrite pm f) view ok" and "real_ok view ok f a v"
    and "512 dvd length (journal_view view a v)"
  shows "\<exists>rc v'. fsWrite pm (db_handle a) z (int ofst) v = Some (rc, v') \<and>
    journal_view view a v' = journal_view view a v"
  using blob_file.db_write_spec [OF assms(1) [folded blob_def, folded blob_file_def] assms(2), where ofst = ofst and z = z] assms(3)
  by blast

theorem fs_database_write_keeps_journal_witness:
  "\<exists>rc v'. fsWrite mem_parent (db_handle 2) [1, 2, 3] (int 500) (mem_fs 2048 (int 9) (int 512)) = Some (rc, v') \<and>
    journal_view memdb_view 2 v' = journal_view memdb_view 2 (mem_fs 2048 (int 9) (int 512))"
  by (rule fs_database_write_keeps_journal [OF mem_parent_rw mem_fs_ok]) (simp_all)

section \<open>Where the limit between the files is not kept\<close>

text \<open>A parent file on which a write inside the blob does succeed.\<close>

definition writes_succeed :: "('f, 'p) parent_vfs \<Rightarrow> 'f \<Rightarrow> ('p \<Rightarrow> bytes) \<Rightarrow> ('p \<Rightarrow> bool) \<Rightarrow> bool" where
  "writes_succeed pm f view ok \<longleftrightarrow> (\<forall>z o1 p. ok p \<and> o1 + length z \<le> length (view p) \<longrightarrow>
     (\<exists>p'. xWrite pm f z (int o1) p = Some (SQLITE_OK, p')))"

lemma mem_parent_writes: "writes_succeed mem_parent () memdb_view memdb_inv"
  unfolding writes_succeed_def
proof (intro allI impI)
  fix z :: bytes and o1 :: nat and p :: memfile
  assume a: "memdb_inv p \<and> o1 + length z \<le> length (memdb_view p)"
  then have "int o1 + int (length z) \<le> sz p"
    using length_view [of p] by (auto simp: memdb_inv_def)
  then have "memdb_room realloc_zero p (int o1 + int (length z)) = (SQLITE_OK, p)"
    by (simp add: memdb_room_def)
  moreover obtain rc p' where "memdbWrite realloc_zero z (int o1) p = Some (rc, p')"
    using memdbWrite_spec [OF memdb.realloc_ok, of p o1 z] a by (auto simp: length_view)
  ultimately show "\<exists>p'. xWrite mem_parent () z (int o1) p = Some (SQLITE_OK, p')"
    by (auto simp: mem_parent_def memdbWrite_eq bind_eq_Some_conv split: if_splits)
qed

text \<open>The result of an accepted write to the database, spelled out.\<close>

lemma db_write_accepted:
  assumes "load (reals v) a = Some r" and "pFile r = Some f" and "nDatabase r = int nD" and "nJournal r = int nJ"
    and "nBlob r = int nB" and "nB < 2 ^ 31" and "nD + 512 \<le> nB" and "length z + ofst + 512 + nJ \<le> nB"
    and "xWrite pm f z (int (ofst + 512)) (pParent v) = Some (SQLITE_OK, w)"
  shows "\<exists>r'. fsWrite pm (db_handle a) z (int ofst) v
      = Some (SQLITE_OK, v\<lparr>pParent := w, reals := store (reals v) a r'\<rparr>)
    \<and> r' = r\<lparr>nDatabase := int (max nD (ofst + length z))\<rparr>"
proof -
  have "max nD (ofst + length z) < 2 ^ 31" using assms(6-8) by simp
  then have "c_int (max (int nD) (int (length z) + int ofst)) = int (max nD (ofst + length z))"
    using c_int_id [of "int (max nD (ofst + length z))"] by (simp add: of_nat_max add.commute)
  then show ?thesis
    using assms modify_loaded(1) [OF assms(1)]
    by (auto simp: fsWrite_def handle_defs BLOCKSIZE_def add.commute)
qed

text \<open>C4: the limit does not hold for a journal that ends inside a block. \<open>fsWrite\<close> compares the end of a
  database write with \<open>nBlob - nJournal\<close>, but the bytes of the last, partial block lie at the start of that
  block, below \<open>nBlob - nJournal\<close>. The write that fills the database up to the limit is accepted and replaces
  the first byte of that journal block by a database byte.\<close>

theorem fs_database_write_overwrites_journal:
  assumes "rw_file (xRead pm f) (xWrite pm f) view ok" and "writes_succeed pm f view ok"
    and "real_ok view ok f a v" and "load (reals v) a = Some r" and "nBlob r = int nB"
    and "nJ = length (journal_view view a v)" and "0 < nJ mod 512"
    and "length z + ofst + 512 + nJ = nB" and "ofst + 1024 + nJ - nJ mod 512 \<le> nB"
    and "ofst \<le> length (db_view view a v)"
  shows "\<exists>v'. fsWrite pm (db_handle a) z (int ofst) v = Some (SQLITE_OK, v') \<and>
    journal_view view a v' ! (nJ - nJ mod 512) = z ! (nB - (nJ - nJ mod 512) - 1024 - ofst)"
proof -
  obtain s nB' nD nJ' where r: "load (reals v) a = Some s" "a \<noteq> 0" "pFile s = Some f" "ok (pParent v)"
    "nBlob s = int nB'" "nDatabase s = int nD" "nJournal s = int nJ'" "nD + 512 \<le> nB'" "nJ' \<le> nB'" "512 dvd nB'"
    "nB' < 2 ^ 31" "nB' \<le> length (view (pParent v))" "length (db_view view a v) = nD"
    "length (journal_view view a v) = nJ'"
    using assms(3) by (rule real_okE)
  have eq: "nB' = nB" "nJ' = nJ" using r assms(4,5,6) by auto
  obtain w where w: "xWrite pm f z (int (ofst + 512)) (pParent v) = Some (SQLITE_OK, w)"
  proof -
    have "ofst + 512 + length z \<le> length (view (pParent v))" using assms(8) r(12) eq by simp
    then show thesis using that assms(2) r(4) unfolding writes_succeed_def by blast
  qed
  have vw: "view w = splice (view (pParent v)) (ofst + 512) z"
    by (rule rw_file.wr_ok [OF assms(1) r(4) _ w]) (use assms(8) r(12) eq in simp)
  define v' where "v' = v\<lparr>pParent := w, reals := store (reals v) a (s\<lparr>nDatabase := int (max nD (ofst + length z))\<rparr>)\<rparr>"
  have e: "fsWrite pm (db_handle a) z (int ofst) v = Some (SQLITE_OK, v')"
    using db_write_accepted [OF r(1,3,6,7,5,11,8) _ w] assms(8) eq by (simp add: v'_def)
  obtain q m where q: "nJ = 512 * q + m" "m < 512" by (rule qm_cases [of nJ])
  then have m: "nJ mod 512 = m" "nJ - nJ mod 512 = 512 * q" by simp_all
  have jp: "jpos nB (512 * q) = int (nB - 512 * q - 512)"
    using jpos_qm [of 0 nB q] assms(8) q m assms(9) by simp
  have "journal_view view a v' = map (\<lambda>k. view w ! nat (jpos nB k)) [0..<nJ]"
    using modify_loaded(2) [OF r(1)] r eq by (simp add: journal_view_def v'_def)
  then have "journal_view view a v' ! (512 * q) = view w ! (nB - 512 * q - 512)"
    using q m(1) assms(7) jp by simp
  also have "\<dots> = z ! (nB - 512 * q - 512 - (ofst + 512))"
  proof -
    have "ofst + 512 \<le> nB - 512 * q - 512" "nB - 512 * q - 512 < ofst + 512 + length z"
      "ofst + 512 \<le> length (view (pParent v))"
      using assms(8,9) q r(12) unfolding m(1) eq by linarith+
    then show ?thesis using vw by (simp add: nth_splice)
  qed
  also have "nB - 512 * q - 512 - (ofst + 512) = nB - 512 * q - 1024 - ofst" by simp
  finally show ?thesis using e m(2) by auto
qed

theorem fs_database_write_overwrites_journal_witness:
  "\<exists>v'. fsWrite mem_parent (db_handle 2) (replicate 1436 1) (int 0) (mem_fs 2048 (int 0) (int 100))
      = Some (SQLITE_OK, v') \<and> journal_view memdb_view 2 v' ! 0 = 1"
proof -
  have "\<exists>v'. fsWrite mem_parent (db_handle 2) (replicate 1436 1) (int 0) (mem_fs 2048 (int 0) (int 100))
      = Some (SQLITE_OK, v') \<and>
    journal_view memdb_view 2 v' ! (100 - 100 mod 512)
      = replicate 1436 1 ! (2048 - (100 - 100 mod 512) - 1024 - 0)"
    by (rule fs_database_write_overwrites_journal [OF mem_parent_rw mem_parent_writes mem_fs_ok mem_fs_load])
      simp_all
  then show ?thesis by simp
qed

section \<open>Closing and opening again\<close>

lemma get_put_size: "0 \<le> n \<Longrightarrow> n < 2 ^ 31 \<Longrightarrow> get_size (put_size n) = n"
proof -
  assume n: "0 \<le> n" "n < 2 ^ 31"
  have u: "uint (word_of_int x :: u8) = x mod 256" for x
    by (simp add: uint_word_of_int)
  have g: "get_size (put_size n) = c_int (n div 16777216 mod 256 * 16777216 + n div 65536 mod 256 * 65536
      + n div 256 mod 256 * 256 + n mod 256)"
  proof -
    have p: "(2::int) ^ 24 = 16777216" "(2::int) ^ 16 = 65536" "(2::int) ^ 8 = 256" by simp_all
    have l: "[a, b, c, d] ! 0 = a" "[a, b, c, d] ! 1 = b" "[a, b, c, d] ! 2 = c" "[a, b, c, d] ! 3 = d"
      for a b c d :: u8 by simp_all
    show ?thesis unfolding get_size_def put_size_def l u p ..
  qed
  have "n div 16777216 mod 256 * 16777216 + n div 65536 mod 256 * 65536 + n div 256 mod 256 * 256 + n mod 256 = n"
  proof -
    have 1: "n = n div 256 * 256 + n mod 256" by simp
    have 2: "n div 256 = n div 65536 * 256 + n div 256 mod 256"
      using div_mult_mod_eq [of "n div 256" 256] by (simp add: zdiv_zmult2_eq [symmetric])
    have 3: "n div 65536 = n div 16777216 * 256 + n div 65536 mod 256"
      using div_mult_mod_eq [of "n div 65536" 256] by (simp add: zdiv_zmult2_eq [symmetric])
    have 4: "n div 16777216 mod 256 = n div 16777216"
      using n by (simp add: pos_imp_zdiv_nonneg_iff)
    show ?thesis using 1 2 3 unfolding 4 by linarith
  qed
  then show ?thesis unfolding g using n by (simp only:) simp
qed

text \<open>What the rest of the parent's methods have to do: a sync keeps the content, the size is the length.\<close>

definition sync_ok :: "('f, 'p) parent_vfs \<Rightarrow> 'f \<Rightarrow> ('p \<Rightarrow> bytes) \<Rightarrow> ('p \<Rightarrow> bool) \<Rightarrow> bool" where
  "sync_ok pm f view ok \<longleftrightarrow>
     (\<forall>fl p. ok p \<longrightarrow> ok (snd (xSync pm f fl p)) \<and> view (snd (xSync pm f fl p)) = view p) \<and>
     (\<forall>p. ok p \<longrightarrow> xFileSize pm f p = (SQLITE_OK, int (length (view p))))"

lemma mem_parent_sync: "sync_ok mem_parent () memdb_view memdb_inv"
  by (auto simp: sync_ok_def mem_parent_def memdbSync_def memdbFileSize_def length_view memdb_inv_def)

text \<open>The sizes \<open>fsOpen\<close> reads from a blob.\<close>

definition last4 :: "bytes \<Rightarrow> bytes" where
  "last4 xs = drop (length xs - 4) xs"

lemma fs_setup_spec:
  assumes "rw_file (xRead pm f) (xWrite pm f) view ok" and "sync_ok pm f view ok" and "ok p"
    and "4 \<le> length (view p)" and "length (view p) < 2 ^ 31"
  shows "fs_setup pm f r p = Some (SQLITE_OK, r\<lparr>nBlob := int (length (view p)),
    nDatabase := get_size (take 4 (view p)),
    nJournal := if \<exists>x \<in> set (last4 (view p)). x \<noteq> 0 then int (length (view p)) else nJournal r\<rparr>, p)"
proof -
  let ?n = "length (view p)"
  have r1: "xRead pm f z (int 0) p = Some (SQLITE_OK, take 4 (view p))" if "length z = 4" for z
    using rw_file.rd_full [OF assms(1,3), of 0 z] assms(4) that by (simp add: slice_of_def)
  have r2: "xRead pm f z (int (?n - 4)) p = Some (SQLITE_OK, last4 (view p))" if "length z = 4" for z
    using rw_file.rd_full [OF assms(1,3), of "?n - 4" z] assms(4) that by (simp add: slice_of_def last4_def)
  have "length (last4 (view p)) = 4" using assms(4) by (simp add: last4_def)
  then obtain x0 x1 x2 x3 where x: "last4 (view p) = [x0, x1, x2, x3]"
    by (auto simp: numeral_eq_Suc length_Suc_conv)
  have c: "c_int (int ?n) = int ?n" using c_int_id [of "int ?n"] assms(5) by simp
  have s: "xFileSize pm f p = (SQLITE_OK, int ?n)" using assms(2,3) by (simp add: sync_ok_def)
  have n0: "int ?n \<noteq> 0" "int ?n - 4 = int (?n - 4)" "view p \<noteq> []" using assms(4) by auto
  have l: "length (take 4 (view p)) = 4" using assms(4) by simp
  show ?thesis
    using r1 [of "[0, 0, 0, 0]"] r2 [OF l] by (simp add: fs_setup_def s c n0 x)
qed

lemma fs_sync_spec:
  assumes "rw_file (xRead pm f) (xWrite pm f) view ok" and "sync_ok pm f view ok" and "real_ok view ok f a v"
    and "load (reals v) a = Some r" and "fsSync pm (db_handle a) flags v = Some (SQLITE_OK, v')"
  shows "ok (pParent v')" and "view (pParent v') = splice (view (pParent v)) 0 (put_size (nDatabase r))"
    and "reals v' = reals v"
proof -
  have r: "ok (pParent v)" "pFile r = Some f" using assms(3,4) by (auto simp: real_ok_def)
  obtain w where w: "xWrite pm f (put_size (nDatabase r)) (int 0) (pParent v) = Some (SQLITE_OK, w)"
    "pParent v' = snd (xSync pm f (and flags (not SQLITE_SYNC_DATAONLY)) w)" "reals v' = reals v"
  proof (cases "xWrite pm f (put_size (nDatabase r)) 0 (pParent v)")
    case None
    then show thesis using assms(4,5) r(2) by (simp add: fsSync_def handle_defs)
  next
    case (Some rw)
    obtain rc w where rw: "rw = (rc, w)" by (cases rw)
    have e: "rc = SQLITE_OK" using assms(4,5) r(2) Some rw
      by (auto simp: fsSync_def handle_defs split: if_splits)
    obtain rc2 w2 where x: "xSync pm f (and flags (not SQLITE_SYNC_DATAONLY)) w = (rc2, w2)"
      by (cases "xSync pm f (and flags (not SQLITE_SYNC_DATAONLY)) w")
    then have "v' = v\<lparr>pParent := w2\<rparr>" using assms(4,5) r(2) Some rw e
      by (simp add: fsSync_def handle_defs)
    then show thesis using that [of w] Some rw e x by simp
  qed
  have "ok w" "view w = splice (view (pParent v)) 0 (put_size (nDatabase r))"
    using rw_file.wr_inv [OF assms(1) r(1) _ w(1)] rw_file.wr_ok [OF assms(1) r(1) _ w(1)] by simp_all
  then show "ok (pParent v')" "view (pParent v') = splice (view (pParent v)) 0 (put_size (nDatabase r))"
    "reals v' = reals v"
    using assms(2) w(2,3) by (simp_all add: sync_ok_def)
qed

lemma put_size_len [simp]: "length (put_size n) = 4"
  by (simp add: put_size_def)

lemma last4_splice: "ofst + length z + 4 \<le> length xs \<Longrightarrow> last4 (splice xs ofst z) = last4 xs"
  by (rule nth_equalityI) (auto simp: last4_def nth_splice)

text \<open>C5: a database file that was synced survives. After a successful \<open>fsSync\<close>, opening the blob again
  finds its size in the header block and its content where it was, and no journal as long as the last four
  bytes of the blob are zero.\<close>

theorem fs_sync_then_open:
  assumes "rw_file (xRead pm f) (xWrite pm f) view ok" and "sync_ok pm f view ok" and "real_ok view ok f a v"
    and "load (reals v) a = Some r" and "nBlob r = int (length (view (pParent v)))"
    and "fsSync pm (db_handle a) flags v = Some (SQLITE_OK, v')" and "last4 (view (pParent v)) = [0, 0, 0, 0]"
  shows "\<exists>r'. fs_setup pm f real_zero (pParent v') = Some (SQLITE_OK, r', pParent v') \<and>
    nBlob r' = nBlob r \<and> nDatabase r' = nDatabase r \<and> nJournal r' = 0 \<and>
    slice_of (view (pParent v')) 512 (nat (nDatabase r')) = db_view view a v"
proof -
  note sy = fs_sync_spec [OF assms(1-4,6)]
  let ?n = "length (view (pParent v))"
  have r: "0 \<le> nDatabase r" "nDatabase r + 512 \<le> int ?n" "int ?n < 2 ^ 31"
    using assms(3-5) by (auto simp: real_ok_def sizes_ok_def)
  have n: "length (view (pParent v')) = ?n" "512 \<le> ?n" using sy(2) r by auto
  have e: "fs_setup pm f real_zero (pParent v') = Some (SQLITE_OK, real_zero\<lparr>nBlob := int (length (view (pParent v'))),
      nDatabase := get_size (take 4 (view (pParent v'))), nJournal := if \<exists>x \<in> set (last4 (view (pParent v'))). x \<noteq> 0
        then int (length (view (pParent v'))) else 0\<rparr>, pParent v')"
    using fs_setup_spec [OF assms(1,2) sy(1), of real_zero] n r by (simp add: real_zero_def)
  have t: "take 4 (view (pParent v')) = put_size (nDatabase r)" by (simp add: sy(2) splice_def)
  have l: "last4 (view (pParent v')) = [0, 0, 0, 0]"
    unfolding sy(2) by (subst last4_splice) (use n assms(7) in simp_all)
  have g: "get_size (take 4 (view (pParent v'))) = nDatabase r"
    unfolding t by (rule get_put_size) (use r in linarith)+
  have "slice_of (view (pParent v')) 512 (nat (nDatabase r)) = db_view view a v"
    using r n assms(4) by (simp add: sy(2) db_view_def slice_splice_disjoint)
  then show ?thesis using e g l assms(5) n(1) by (simp add: real_zero_def)
qed

lemma mem_fs_sync:
  "512 \<le> n \<Longrightarrow> \<exists>v'. fsSync mem_parent (db_handle 2) flags (mem_fs n x y) = Some (SQLITE_OK, v')"
proof -
  assume n: "512 \<le> n"
  obtain w where "xWrite mem_parent () (put_size x) (int 0) (mem_blob_file n) = Some (SQLITE_OK, w)"
  proof -
    have "0 + length (put_size x) \<le> length (memdb_view (mem_blob_file n))" using n by simp
    then show thesis using that mem_parent_writes mem_blob_file_simps(1) unfolding writes_succeed_def by blast
  qed
  then show ?thesis
    by (simp add: fsSync_def mem_fs_load handle_defs) (simp add: mem_fs_def mem_parent_def memdbSync_def)
qed

theorem fs_sync_then_open_witness:
  "\<exists>v' r'. fsSync mem_parent (db_handle 2) 0 (mem_fs 2048 (int 700) (int 0)) = Some (SQLITE_OK, v') \<and>
    fs_setup mem_parent () real_zero (pParent v') = Some (SQLITE_OK, r', pParent v') \<and> nDatabase r' = 700"
proof -
  obtain v' where v': "fsSync mem_parent (db_handle 2) 0 (mem_fs 2048 (int 700) (int 0)) = Some (SQLITE_OK, v')"
    using mem_fs_sync by fastforce
  have "\<exists>r'. fs_setup mem_parent () real_zero (pParent v') = Some (SQLITE_OK, r', pParent v') \<and>
    nBlob r' = int 2048 \<and> nDatabase r' = int 700 \<and> nJournal r' = 0 \<and>
    slice_of (memdb_view (pParent v')) 512 (nat (nDatabase r')) = db_view memdb_view 2 (mem_fs 2048 (int 700) (int 0))"
  proof -
    have "pParent (mem_fs 2048 (int 700) (int 0)) = mem_blob_file 2048" by (simp add: mem_fs_def)
    moreover have "replicate 4 0 = [0, 0, 0, 0 :: u8]" by (simp add: numeral_eq_Suc)
    ultimately show ?thesis
      using fs_sync_then_open [OF mem_parent_rw mem_parent_sync mem_fs_ok mem_fs_load _ v']
      by (simp add: last4_def)
  qed
  then show ?thesis using v' by auto
qed

text \<open>C6: a blob whose last four bytes are not zero is opened as holding a journal of the size of the whole
  blob, and then no write of a byte to the database file is accepted until the journal is deleted or truncated:
  \<open>fsWrite\<close> answers \<open>SQLITE_FULL\<close> to every one of them, also to those of a rollback of that journal.\<close>

theorem fs_hot_journal_blocks_database:
  assumes "rw_file (xRead pm f) (xWrite pm f) view ok" and "sync_ok pm f view ok" and "ok p"
    and "4 \<le> length (view p)" and "length (view p) < 2 ^ 31" and "\<exists>x \<in> set (last4 (view p)). x \<noteq> 0"
    and "0 \<le> ofst" and "load (reals v) a = map_option (fst \<circ> snd) (fs_setup pm f r p)"
  shows "fsWrite pm (db_handle a) z ofst v = Some (SQLITE_FULL, v)"
  using assms(6-8) by (simp add: fs_setup_spec [OF assms(1-5)] fsWrite_def handle_defs BLOCKSIZE_def)

theorem fs_hot_journal_blocks_database_witness:
  "fsWrite mem_parent (db_handle 2) [1] 0
     \<lparr>pFileList = 2, reals = \<lparr>cells = [2 \<mapsto> fst (snd (the (fs_setup mem_parent () real_zero
          (mem_blob_file 2048 \<lparr>aData := replicate 2047 0 @ [9]\<rparr>))))], brk = 3, avail = 0, junk = real_zero\<rparr>,
      pParent = mem_blob_file 2048\<rparr>
   = Some (SQLITE_FULL,
     \<lparr>pFileList = 2, reals = \<lparr>cells = [2 \<mapsto> fst (snd (the (fs_setup mem_parent () real_zero
          (mem_blob_file 2048 \<lparr>aData := replicate 2047 0 @ [9]\<rparr>))))], brk = 3, avail = 0, junk = real_zero\<rparr>,
      pParent = mem_blob_file 2048\<rparr>)"
proof -
  let ?p = "mem_blob_file 2048 \<lparr>aData := replicate 2047 0 @ [9]\<rparr>"
  have ok: "memdb_inv ?p" and v: "memdb_view ?p = replicate 2047 0 @ [9]"
    by (simp_all add: mem_blob_file_def memdb_inv_def memdb_view_def)
  show ?thesis
    by (rule fs_hot_journal_blocks_database [OF mem_parent_rw mem_parent_sync ok, where r = real_zero])
      (simp_all add: v last4_def load_def fs_setup_spec [OF mem_parent_rw mem_parent_sync ok])
qed

lemma strncmp_eq_prefix: "strncmp_eq z (z @ y) (int (length z))"
  by (simp add: strncmp_eq_def)

lemma strncmp_eq_take: "strncmp_eq x z (int (length z)) \<Longrightarrow> CHR 0x00 \<notin> set z \<Longrightarrow> take (length z) x = z"
  by (cases "length z \<le> length x") (auto simp: strncmp_eq_def take_Cons' split: if_splits)

lemma find_first: "\<forall>x \<in> set ys. \<not> P x \<Longrightarrow> P x \<Longrightarrow> find P (ys @ x # zs) = Some x"
  by (induction ys) auto

text \<open>C7: deleting the journal does not clear what \<open>fsOpen\<close> looks at. \<open>fsDelete\<close> zeroes four bytes at
  \<open>nBlob - 512\<close>, while \<open>fsOpen\<close> reads the last four bytes of the blob, so a blob whose last four bytes are not
  zero is opened with a journal again after its journal was deleted successfully.\<close>

theorem fs_delete_leaves_journal_mark:
  assumes "rw_file (xRead pm f) (xWrite pm f) view ok" and "sync_ok pm f view ok" and "writes_succeed pm f view ok"
    and "real_ok view ok f a v" and "load (reals v) a = Some r" and "pFileList v = a"
    and "nBlob r = int (length (view (pParent v)))" and "\<exists>x \<in> set (last4 (view (pParent v))). x \<noteq> 0"
  shows "\<exists>v' r'. fsDelete pm (zName r @ JOURNAL_SUFFIX) dirSync v = Some (SQLITE_OK, v') \<and>
    journal_view view a v' = [] \<and>
    fs_setup pm f real_zero (pParent v') = Some (SQLITE_OK, r', pParent v') \<and> nJournal r' = nBlob r"
proof -
  let ?n = "length (view (pParent v))"
  have r: "ok (pParent v)" "pFile r = Some f" "512 \<le> ?n" "int ?n < 2 ^ 31" "a \<noteq> 0"
    using assms(4,5,7) by (auto simp: real_ok_def sizes_ok_def load_def split: if_splits)
  have b: "int ?n - 512 = int (?n - 512)" using r(3) by simp
  obtain w where w: "xWrite pm f [0, 0, 0, 0] (int (?n - 512)) (pParent v) = Some (SQLITE_OK, w)"
  proof -
    have "?n - 512 + length [0, 0, 0, 0 :: u8] \<le> ?n" using r(3) by simp
    then show thesis using that assms(3) r(1) unfolding writes_succeed_def by blast
  qed
  have vw: "ok w" "view w = splice (view (pParent v)) (?n - 512) [0, 0, 0, 0]"
    using rw_file.wr_inv [OF assms(1) r(1) _ w] rw_file.wr_ok [OF assms(1) r(1) _ w] by simp_all
  have n: "length (view w) = ?n" using vw(2) r(3) by simp
  have l: "last4 (view w) = last4 (view (pParent v))"
    unfolding vw(2) by (rule last4_splice) (use r(3) in simp)
  let ?v = "v\<lparr>pParent := w, reals := store (reals v) a (r\<lparr>nJournal := 0\<rparr>)\<rparr>"
  have "fs_find (reals v) (zName r @ JOURNAL_SUFFIX) (int (length (zName r))) (pFileList v) = Some a"
    using assms(5,6) r(5) strncmp_eq_prefix [of "zName r" JOURNAL_SUFFIX]
    by (simp add: fs_find.simps [of "reals v" _ _ a])
  moreover have "int (length (zName r @ JOURNAL_SUFFIX)) - 8 = int (length (zName r))"
    by (simp add: JOURNAL_SUFFIX_def)
  ultimately have d: "fsDelete pm (zName r @ JOURNAL_SUFFIX) dirSync v = Some (SQLITE_OK, ?v)"
    using assms(5,7) r(2,5) w modify_loaded(1) [OF assms(5)]
    by (simp add: fsDelete_def BLOCKSIZE_def b)
  have "journal_view view a ?v = []"
    using modify_loaded(2) [OF assms(5)] by (simp add: journal_view_def)
  then show ?thesis using d assms(7,8) fs_setup_spec [OF assms(1,2) vw(1), of real_zero] n r(3,4) l by simp
qed

theorem fs_delete_leaves_journal_mark_witness:
  "\<exists>v' r'. fsDelete mem_parent ''db-journal'' 0
      (mem_fs 2048 0 2048 \<lparr>pParent := mem_blob_file 2048 \<lparr>aData := replicate 2047 0 @ [9]\<rparr>\<rparr>) = Some (SQLITE_OK, v') \<and>
    fs_setup mem_parent () real_zero (pParent v') = Some (SQLITE_OK, r', pParent v') \<and> nJournal r' = 2048"
proof -
  let ?p = "mem_blob_file 2048 \<lparr>aData := replicate 2047 0 @ [9]\<rparr>"
  let ?v = "mem_fs 2048 (int 0) (int 2048) \<lparr>pParent := ?p\<rparr>"
  have vw: "memdb_inv ?p" "memdb_view ?p = replicate 2047 0 @ [9]"
    by (simp_all add: mem_blob_file_def memdb_inv_def memdb_view_def)
  have ld: "load (reals ?v) 2 = Some \<lparr>pFile = Some (), zName = ''db'', nDatabase = int 0,
    nJournal = int 2048, nBlob = int 2048, nRef = 1, pNext = 0, ppThis = PFileList\<rparr>"
    using mem_fs_load [of 2048 "int 0" "int 2048"] by simp
  have ok: "real_ok memdb_view memdb_inv () 2 ?v"
    using mem_fs_ok [of 2048 0 2048] ld vw unfolding real_ok_def by (simp add: sizes_ok_def)
  have "pFileList ?v = 2" by (simp add: mem_fs_def)
  then show ?thesis
    using fs_delete_leaves_journal_mark [OF mem_parent_rw mem_parent_sync mem_parent_writes ok ld, of 0] vw
    by (auto simp: last4_def JOURNAL_SUFFIX_def)
qed

section \<open>The list of open files\<close>

text \<open>C8: \<open>fsClose\<close> of an open file takes one reference away; with the last one it closes the blob at the
  parent, returns what the parent returned, and takes the object out of the list of open files, whose other
  objects and back pointers stay as they are. Otherwise only the count changes.\<close>

theorem fs_close_refines:
  assumes "fs_abs v (ys @ (pReal p, r) # zs)" and "0 < nRef r" and "pFile r = Some f"
  shows "\<exists>v'. fsClose pm p v
      = Some (if nRef r = 1 then fst (xClose pm f (pParent v)) else SQLITE_OK, v')
    \<and> pParent v' = (if nRef r = 1 then snd (xClose pm f (pParent v)) else pParent v)
    \<and> fs_abs v' (if nRef r = 1 then ys @ zs else ys @ (pReal p, r\<lparr>nRef := nRef r - 1\<rparr>) # zs)"
  by (rule fsClose_spec [OF assms refl])

lemma mem_fs_abs: "fs_abs (mem_fs n x y) [(2, \<lparr>pFile = Some (), zName = ''db'', nDatabase = x,
    nJournal = y, nBlob = int n, nRef = 1, pNext = 0, ppThis = PFileList\<rparr>)]"
  by (simp add: fs_abs_def mem_fs_def wf_heap_def fseg_Cons payload_def)

theorem fs_close_refines_witness:
  "\<exists>v'. fsClose mem_parent (db_handle 2) (mem_fs 2048 0 0) = Some (SQLITE_OK, v') \<and> fs_abs v' []"
proof -
  have "fs_abs (mem_fs 2048 0 0) ([] @ (pReal (db_handle 2), \<lparr>pFile = Some (), zName = ''db'', nDatabase = 0,
    nJournal = 0, nBlob = int 2048, nRef = 1, pNext = 0, ppThis = PFileList\<rparr>) # [])"
    using mem_fs_abs [of 2048 0 0] by (simp add: db_handle_def)
  from fs_close_refines [OF this, where f = "()" and pm = mem_parent]
  show ?thesis by (auto simp: mem_parent_def)
qed

text \<open>C9: \<open>fsOpen\<close> of a main database whose name no open object carries puts one new object with the sizes
  read from the blob and one reference at the head of the list. When its memory cannot be allocated it returns
  \<open>SQLITE_NOMEM\<close> and changes nothing; when the parent cannot open the file, or the blob cannot be read or
  written, it returns that error, the list of open files is unchanged, the new object is freed again (no
  object is left allocated) and the parent's file, if one was opened, is closed.\<close>

theorem fs_open_refines:
  assumes "fs_abs v L" and "find (\<lambda>x. strncmp_eq (zName (snd x)) z (int (length z))) L = None"
    and "and flags SQLITE_OPEN_MAIN_DB \<noteq> 0"
    and "open_blob pm z flags (pParent v) = Some (rc, r, w)"
  shows "\<exists>rc' p' v'. fsOpen pm z p flags v = Some (rc', p', v') \<and>
    (if avail (reals v) = 0
     then rc' = SQLITE_NOMEM \<and> p' = p\<lparr>eType := DATABASE_FILE\<rparr> \<and> v' = v
     else if rc = SQLITE_OK
     then rc' = SQLITE_OK \<and> p' = p\<lparr>eType := DATABASE_FILE, pReal := brk (reals v)\<rparr> \<and> pParent v' = w \<and>
       fs_abs v' ((brk (reals v), (payload r)\<lparr>nRef := 1\<rparr>) # L)
     else rc' = rc \<and> p' = p\<lparr>eType := DATABASE_FILE\<rparr> \<and> fs_abs v' L \<and> cells (reals v') = cells (reals v) \<and>
       pParent v' = (case pFile r of Some f \<Rightarrow> snd (xClose pm f w) | None \<Rightarrow> w))"
proof -
  have n: "open_name z flags = int (length z)" using assms(3) by (simp add: open_name_def)
  consider "avail (reals v) = 0" | "0 < avail (reals v)" "rc = SQLITE_OK" | "0 < avail (reals v)" "rc \<noteq> SQLITE_OK"
    by auto
  then show ?thesis
  proof cases
    case 1
    then show ?thesis using fsOpen_nomem [OF assms(1) assms(2) [folded n] assms(3), of pm p] by simp
  next
    case 2
    obtain f w0 where f: "xOpen pm z (real_flags flags) (pParent v) = (SQLITE_OK, Some f, w0)"
      "fs_setup pm f (real_zero\<lparr>zName := z, pFile := Some f\<rparr>) w0 = Some (SQLITE_OK, r, w)"
      using assms(4) 2(2) by (auto simp: open_blob_def Let_def bind_eq_Some_conv split: if_splits prod.splits)
    have "nRef r = 0" using fs_setup_keeps [OF f(2)] by (simp add: real_zero_def)
    then show ?thesis using fsOpen_new [OF assms(1) assms(2) [folded n] assms(3) 2(1) f, of p] 2 by auto
  next
    case 3
    then show ?thesis using fsOpen_error [OF assms(1) assms(2) [folded n] assms(3) 3(1) assms(4) 3(2), of p] by auto
  qed
qed

lemma replicate4: "replicate 4 (x :: u8) = [x, x, x, x]"
  by (simp add: numeral_eq_Suc)

lemma mem_setup: "512 \<le> n \<Longrightarrow> n < 2 ^ 31 \<Longrightarrow>
  fs_setup mem_parent () r (mem_blob_file n) = Some (SQLITE_OK, r\<lparr>nBlob := int n, nDatabase := 0\<rparr>, mem_blob_file n)"
  using fs_setup_spec [OF mem_parent_rw mem_parent_sync, of "mem_blob_file n" r]
  by (simp add: last4_def replicate4 get_size_def min_def)

text \<open>Witness: a second database is opened; and, on a parent that hands out a file and then fails, none is.\<close>

theorem fs_open_refines_witness:
  "(\<exists>p' v'. fsOpen mem_parent ''new'' (db_handle 0) SQLITE_OPEN_MAIN_DB (mem_fs 2048 0 0) = Some (SQLITE_OK, p', v') \<and>
      (\<exists>r x. fs_abs v' [(3, r), (2, x)])) \<and>
   (\<exists>p' v'. fsOpen (mem_parent\<lparr>xOpen := \<lambda>z flags p. (SQLITE_FULL, Some (), p)\<rparr>) ''new'' (db_handle 0)
        SQLITE_OPEN_MAIN_DB (mem_fs 2048 0 0) = Some (SQLITE_FULL, p', v') \<and>
      cells (reals v') = cells (reals (mem_fs 2048 0 0 :: (unit, memfile) fs_vfs)))"
proof
  let ?r = "real_zero\<lparr>zName := ''new'', pFile := Some ()\<rparr>"
  let ?L = "[(2, \<lparr>pFile = Some (), zName = ''db'',
      nDatabase = 0, nJournal = 0, nBlob = int 2048, nRef = 1, pNext = 0, ppThis = PFileList\<rparr>)]"
  have x: "open_blob mem_parent ''new'' SQLITE_OPEN_MAIN_DB (pParent (mem_fs 2048 0 0))
      = Some (SQLITE_OK, ?r\<lparr>nBlob := int 2048, nDatabase := 0\<rparr>, mem_blob_file 2048)"
    using mem_setup [of 2048 ?r] by (simp add: mem_fs_def open_blob_def) (simp add: mem_parent_def)
  have y: "open_blob (mem_parent\<lparr>xOpen := \<lambda>z flags p. (SQLITE_FULL, Some (), p)\<rparr>) ''new'' SQLITE_OPEN_MAIN_DB
      (pParent (mem_fs 2048 0 0)) = Some (SQLITE_FULL, ?r, mem_blob_file 2048)"
    by (simp add: open_blob_def mem_fs_def rc_defs)
  have a: "find (\<lambda>x. strncmp_eq (zName (snd x)) ''new'' (int (length ''new''))) ?L = None"
    by (simp add: strncmp_eq_def)
  have b: "brk (reals (mem_fs 2048 0 0)) = 3" "avail (reals (mem_fs 2048 0 0)) \<noteq> 0"
    "and SQLITE_OPEN_MAIN_DB SQLITE_OPEN_MAIN_DB \<noteq> 0"
    by (simp_all add: mem_fs_def SQLITE_OPEN_MAIN_DB_def)
  show "\<exists>p' v'. fsOpen mem_parent ''new'' (db_handle 0) SQLITE_OPEN_MAIN_DB (mem_fs 2048 0 0) = Some (SQLITE_OK, p', v')
      \<and> (\<exists>r x. fs_abs v' [(3, r), (2, x)])"
    using fs_open_refines [OF mem_fs_abs a b(3) x, of "db_handle 0"] b(1,2) by auto
  show "\<exists>p' v'. fsOpen (mem_parent\<lparr>xOpen := \<lambda>z flags p. (SQLITE_FULL, Some (), p)\<rparr>) ''new'' (db_handle 0)
        SQLITE_OPEN_MAIN_DB (mem_fs 2048 0 0) = Some (SQLITE_FULL, p', v') \<and>
      cells (reals v') = cells (reals (mem_fs 2048 0 0 :: (unit, memfile) fs_vfs))"
    using fs_open_refines [OF mem_fs_abs a b(3) y, of "db_handle 0"] b(2) by (auto simp: rc_defs)
qed

text \<open>C10: names are compared on the length of the name that is opened only. \<open>fsOpen\<close> of a main database hands
  out the first object in the list of open files whose name begins with the given name, be it the same name or
  a longer one, with one more reference, and does not ask the parent; so opening \<open>d\<close> while \<open>db\<close> is open
  gives the content of \<open>db\<close>.\<close>

theorem fs_open_shares_prefix:
  assumes "fs_abs v (ys @ (a, r) # zs)" and "zName r = z @ y" and "CHR 0x00 \<notin> set z"
    and "\<forall>x \<in> set ys. take (length z) (zName (snd x)) \<noteq> z"
    and "and flags SQLITE_OPEN_MAIN_DB \<noteq> 0"
  shows "\<exists>v'. fsOpen pm z p flags v = Some (SQLITE_OK, p\<lparr>eType := DATABASE_FILE, pReal := a\<rparr>, v') \<and>
    pParent v' = pParent v \<and> fs_abs v' (ys @ (a, r\<lparr>nRef := nRef r + 1\<rparr>) # zs)"
proof -
  have n: "open_name z flags = int (length z)" "open_type flags = DATABASE_FILE"
    using assms(5) by (simp_all add: open_name_def open_type_def)
  have "\<forall>x \<in> set ys. \<not> strncmp_eq (zName (snd x)) z (open_name z flags)"
    using assms(3,4) strncmp_eq_take by (auto simp: n)
  then have f: "find (\<lambda>x. strncmp_eq (zName (snd x)) z (open_name z flags)) (ys @ (a, r) # zs) = Some (a, r)"
    using assms(2) by (intro find_first) (simp_all add: n strncmp_eq_def)
  have "distinct (map fst (ys @ (a, r) # zs))"
    using assms(1) fseg_distinct unfolding fs_abs_def by blast
  then show ?thesis using fsOpen_known [OF assms(1) f, of pm p] by (simp only: n(2) addref_split) blast
qed

theorem fs_open_shares_prefix_witness:
  "\<exists>v'. fsOpen mem_parent ''d'' (db_handle 0) SQLITE_OPEN_MAIN_DB (mem_fs 2048 0 0)
    = Some (SQLITE_OK, (db_handle 0)\<lparr>eType := DATABASE_FILE, pReal := 2\<rparr>, v') \<and>
    pParent v' = pParent (mem_fs 2048 0 0)"
proof -
  have "fs_abs (mem_fs 2048 0 0) ([] @ (2, \<lparr>pFile = Some (), zName = ''db'', nDatabase = 0,
    nJournal = 0, nBlob = int 2048, nRef = 1, pNext = 0, ppThis = PFileList\<rparr>) # [])"
    using mem_fs_abs [of 2048 0 0] by simp
  from fs_open_shares_prefix [OF this, of "''d''" "''b''" SQLITE_OPEN_MAIN_DB mem_parent "db_handle 0"]
  show ?thesis by (auto simp: SQLITE_OPEN_MAIN_DB_def)
qed

end
