(* ===== verification/Fsopen.thy ===== *)
theory Fsopen
  imports Onefile
begin

text \<open>
  The path that test/test_onefile.c registers: \<open>fs_open\<close> and \<open>fs_read\<close> on a raw device, with the
  transfers of tsrc/win32io.c. The Win32 calls are a record of functions over the device state \<open>'w\<close>.
  \<open>sqvfs_rfile_t\<close> has the layout of \<open>fs_real_file\<close> (sql_file is pFile, name is zName, sz_database is
  nDatabase, sz_journal is nJournal, sz_blob is nBlob, sz_ref is nRef) and \<open>fs_read\<close> reads it as one,
  so both are the record \<open>fs_real_file\<close> here.
\<close>

section \<open>The device\<close>

record 'w win32 =
  CreateFile :: "'w \<Rightarrow> int \<times> 'w"
  SetFilePointer :: "int \<Rightarrow> int \<Rightarrow> 'w \<Rightarrow> 'w"
  ReadFile :: "int \<Rightarrow> int \<Rightarrow> 'w \<Rightarrow> bool \<times> bytes \<times> 'w"
  WriteFile :: "int \<Rightarrow> bytes \<Rightarrow> 'w \<Rightarrow> int \<times> 'w"

text \<open>The state of the driver: \<open>last_offset\<close> is a 32-bit unsigned \<open>DWORD\<close>.\<close>

record 'w device =
  last_offset :: u32
  win :: 'w

definition STORAGE_SUCCESS :: int where "STORAGE_SUCCESS = 0"
definition STORAGE_COMMUNICATION_ERROR :: int where "STORAGE_COMMUNICATION_ERROR = 10"

text \<open>\<open>ReadFile\<close> fills a prefix of the buffer; no result when it would write past its end.\<close>

definition xread_win32 ::
  "'w win32 \<Rightarrow> int \<Rightarrow> bytes \<Rightarrow> int \<Rightarrow> 'w device \<Rightarrow> (int \<times> bytes \<times> 'w device) option" where
  "xread_win32 W fd buf offset d = do {
     let siz = int (length buf);
     let d = d\<lparr>win := SetFilePointer W fd offset (win d)\<rparr>;
     let d = d\<lparr>last_offset := word_of_int offset\<rparr>;
     let (okay, got, w) = ReadFile W fd siz (win d);
     let d = d\<lparr>win := w\<rparr>;
     buf \<leftarrow> mem_put buf 0 got;
     if \<not> okay then Some (STORAGE_COMMUNICATION_ERROR, buf, d)
     else if int (length got) < siz then Some (STORAGE_COMMUNICATION_ERROR, buf, d)
     else Some (STORAGE_SUCCESS, buf, d) }"

text \<open>
  \<open>xwrite_win32\<close> passes \<open>offset\<close> to \<open>WriteFile\<close> as the number of bytes to write, so it takes that many
  bytes from the buffer. The comparison that skips the seek is between a 64-bit and a 32-bit value.
\<close>

definition xwrite_win32 ::
  "'w win32 \<Rightarrow> int \<Rightarrow> bytes \<Rightarrow> int \<Rightarrow> int \<Rightarrow> 'w device \<Rightarrow> (int \<times> 'w device) option" where
  "xwrite_win32 W fd buf siz offset d = do {
     let d = (if offset \<noteq> uint (last_offset d + word_of_int siz)
              then d\<lparr>win := SetFilePointer W fd offset (win d)\<rparr> else d);
     let d = d\<lparr>last_offset := word_of_int offset\<rparr>;
     z \<leftarrow> mem_get buf 0 offset;
     let (n, w) = WriteFile W fd z (win d);
     let d = d\<lparr>win := w\<rparr>;
     Some (if n < siz then STORAGE_COMMUNICATION_ERROR else STORAGE_SUCCESS, d) }"

definition xopen :: "'w win32 \<Rightarrow> 'w device \<Rightarrow> int \<times> 'w device" where
  "xopen W d = (let (fd, w) = CreateFile W (win d) in (fd, d\<lparr>win := w\<rparr>))"

definition xread :: "'w win32 \<Rightarrow> int \<Rightarrow> bytes \<Rightarrow> int \<Rightarrow> 'w device \<Rightarrow> (int \<times> bytes \<times> 'w device) option" where
  "xread W fd buf offset d = xread_win32 W fd buf offset d"

definition xwrite :: "'w win32 \<Rightarrow> int \<Rightarrow> bytes \<Rightarrow> int \<Rightarrow> int \<Rightarrow> 'w device \<Rightarrow> (int \<times> 'w device) option" where
  "xwrite W fd buf siz offset d = xwrite_win32 W fd buf siz offset d"

section \<open>Opening and reading\<close>

record mfs_file =
  m_fd :: int
  m_etype :: int
  m_real :: ptr

record ('f, 'w) mfs_state =
  m_reals :: "'f fs_real_file heap"
  m_dev :: "'w device"

text \<open>The reads of the header block and of the end of the blob; \<open>zs\<close> starts as zero bytes.\<close>

definition fs_load_sizes ::
  "'w win32 \<Rightarrow> int \<Rightarrow> ptr \<Rightarrow> ('f, 'w) mfs_state \<Rightarrow> (int \<times> ('f, 'w) mfs_state) option" where
  "fs_load_sizes W fd a v = do {
     (rc, zs, d) \<leftarrow> xread W fd (replicate 512 0) 0 (m_dev v);
     let v = v\<lparr>m_dev := d\<rparr>;
     if rc \<noteq> SQLITE_OK then Some (rc, v)
     else do {
       h \<leftarrow> modify (m_reals v) a (\<lambda>r. r\<lparr>nDatabase := get_size zs\<rparr>);
       let v = v\<lparr>m_reals := h\<rparr>;
       (rc, d) \<leftarrow> (if get_size zs = 0 then xwrite W fd [0, 0] 1 (BLOBSIZE - 1) (m_dev v)
                  else Some (SQLITE_OK, m_dev v));
       let v = v\<lparr>m_dev := d\<rparr>;
       if rc \<noteq> SQLITE_OK then Some (rc, v)
       else do {
         (rc, zs, d) \<leftarrow> xread W fd (take 4 zs) (BLOBSIZE - 4) (m_dev v);
         let v = v\<lparr>m_dev := d\<rparr>;
         if rc \<noteq> SQLITE_OK then Some (rc, v)
         else do {
           h \<leftarrow> (if zs ! 0 \<noteq> 0 \<or> zs ! 1 \<noteq> 0 \<or> zs ! 2 \<noteq> 0 \<or> zs ! 3 \<noteq> 0
                then modify (m_reals v) a (\<lambda>r. r\<lparr>nJournal := nBlob r\<rparr>) else Some (m_reals v));
           Some (rc, v\<lparr>m_reals := h\<rparr>) } } } }"

text \<open>The error exits leave the object allocated.\<close>

definition fs_open ::
  "'w win32 \<Rightarrow> string \<Rightarrow> mfs_file \<Rightarrow> u32 \<Rightarrow> ('f, 'w) mfs_state \<Rightarrow> (int \<times> mfs_file \<times> ('f, 'w) mfs_state) option" where
  "fs_open W z p flags v = do {
     let ty = (if and flags SQLITE_OPEN_MAIN_DB \<noteq> 0 then DATABASE_FILE else JOURNAL_FILE);
     let p = p\<lparr>m_etype := ty\<rparr>;
     let (h, a) = malloc (m_reals v);
     let v = v\<lparr>m_reals := h\<rparr>;
     if a = NULL then Some (SQLITE_NOMEM, p, v)
     else do {
       h \<leftarrow> modify h a (\<lambda>_. real_zero);
       let v = v\<lparr>m_reals := h\<rparr>;
       let (fd, d) = xopen W (m_dev v);
       let p = p\<lparr>m_fd := fd\<rparr>;
       let v = v\<lparr>m_dev := d\<rparr>;
       if fd < 0 then Some (SQLITE_ERROR, p, v)
       else do {
         let p = p\<lparr>m_real := a\<rparr>;
         h \<leftarrow> modify (m_reals v) a (\<lambda>r. r\<lparr>zName := z, nBlob := BLOBSIZE\<rparr>);
         (rc, v) \<leftarrow> fs_load_sizes W fd a (v\<lparr>m_reals := h\<rparr>);
         Some (rc, p, v) } } }"

definition fs_close :: "mfs_file \<Rightarrow> int" where
  "fs_close p = 0"

definition fs_write :: "mfs_file \<Rightarrow> bytes \<Rightarrow> int \<Rightarrow> int" where
  "fs_write p zBuf iOfst = 0"

text \<open>
  \<open>fs_read\<close> reads through \<open>pFile\<close>, which \<open>fs_open\<close> never sets; \<open>xRead\<close> of that file is the parent's.
\<close>

definition fs_read ::
  "('f, 'p) parent_vfs \<Rightarrow> 'p \<Rightarrow> mfs_file \<Rightarrow> bytes \<Rightarrow> int \<Rightarrow> ('f, 'w) mfs_state \<Rightarrow> (int \<times> bytes) option" where
  "fs_read pm w p zBuf iOfst v = do {
     let iAmt = int (length zBuf);
     r \<leftarrow> load (m_reals v) (m_real p);
     if (m_etype p = DATABASE_FILE \<and> iAmt + iOfst > nDatabase r)
        \<or> (m_etype p = JOURNAL_FILE \<and> iAmt + iOfst > nJournal r)
     then Some (SQLITE_IOERR_SHORT_READ, zBuf)
     else if m_etype p = DATABASE_FILE then do {
       pF \<leftarrow> pFile r;
       xRead pm pF zBuf (iOfst + BLOCKSIZE) w }
     else fs_journal_read pm (pFile r) (nBlob r) w SQLITE_OK iAmt 0 (c_int iOfst) zBuf }"

section \<open>The registered methods on a file that \<open>fs_open\<close> opened\<close>

text \<open>
  \<open>fs_io_methods\<close> names fsClose, fsWrite, fsTruncate, fsSync and fsFileSize, which read the same
  object as an \<open>fs_file\<close>. With 64-bit pointers its \<open>eType\<close> lies where \<open>fs_open\<close> stored \<open>fd\<close>.
\<close>

definition as_fs_file :: "mfs_file \<Rightarrow> fs_file" where
  "as_fs_file p = \<lparr>eType = m_fd p, pReal = m_real p\<rparr>"

lemma modify_Some_iff: "modify h a f = Some h' \<longleftrightarrow> (\<exists>n. load h a = Some n \<and> h' = store h a (f n))"
  by (auto simp: modify_def bind_eq_Some_conv)

lemma fs_load_sizes_keeps:
  assumes "fs_load_sizes W fd a v = Some (rc, v')" and "load (m_reals v) a = Some r"
  shows "\<exists>r'. load (m_reals v') a = Some r' \<and> pFile r' = pFile r \<and> nRef r' = nRef r \<and> nBlob r' = nBlob r"
proof -
  have "a \<noteq> 0" using assms(2) by (cases "a = 0") auto
  then show ?thesis
    using assms by (auto simp: fs_load_sizes_def Let_def bind_eq_Some_conv modify_Some_iff split: if_splits)
qed

lemma fs_open_ok:
  assumes "fs_open W z p flags v = Some (SQLITE_OK, p', v')"
  shows "\<exists>r. load (m_reals v') (m_real p') = Some r \<and> pFile r = None \<and> nRef r = 0 \<and> nBlob r = BLOBSIZE
    \<and> 0 \<le> m_fd p'"
  using assms
  by (auto simp: fs_open_def Let_def bind_eq_Some_conv modify_Some_iff real_zero_def rc_defs
    split: if_splits prod.splits dest!: fs_load_sizes_keeps)

text \<open>A device all of whose bytes are 1, and an empty store.\<close>

definition ones_device :: "unit win32" where
  "ones_device = \<lparr>CreateFile = (\<lambda>w. (5, w)), SetFilePointer = (\<lambda>fd off w. w),
     ReadFile = (\<lambda>fd n w. (True, replicate (nat n) 1, w)), WriteFile = (\<lambda>fd z w. (int (length z), w))\<rparr>"

definition fresh_state :: "(unit, unit) mfs_state" where
  "fresh_state = \<lparr>m_reals = \<lparr>cells = Map.empty, brk = 1, avail = 5, junk = real_zero\<rparr>,
     m_dev = \<lparr>last_offset = 0, win = ()\<rparr>\<rparr>"

definition closed_file :: mfs_file where
  "closed_file = \<lparr>m_fd = 0, m_etype = 0, m_real = 0\<rparr>"

lemma xread_ones: "xread ones_device fd buf off d = Some (SQLITE_OK, replicate (length buf) 1,
    d\<lparr>last_offset := word_of_int off\<rparr>)"
  by (cases d) (simp add: xread_def xread_win32_def ones_device_def mem_put_def Let_def STORAGE_SUCCESS_def SQLITE_OK_def)

lemma fs_load_sizes_ones:
  assumes "load (m_reals v) a = Some r"
  shows "\<exists>v'. fs_load_sizes ones_device fd a v = Some (SQLITE_OK, v')"
proof -
  have "get_size (replicate 512 1) \<noteq> 0" by (simp add: get_size_def)
  then show ?thesis
    using modify_loaded [OF assms]
    by (auto simp: fs_load_sizes_def xread_ones modify_loaded(1) [OF modify_loaded(2) [OF assms]])
qed

lemma fs_open_ones: "\<exists>p' v'. fs_open ones_device z closed_file flags fresh_state = Some (SQLITE_OK, p', v')"
proof -
  define h :: "unit fs_real_file heap"
    where "h = \<lparr>cells = [1 \<mapsto> real_zero], brk = 2, avail = 4, junk = real_zero\<rparr>"
  have m: "malloc (m_reals fresh_state) = (h, 1)"
    by (simp add: fresh_state_def malloc_def h_def)
  have ld: "load h 1 = Some real_zero" by (simp add: h_def load_def)
  note s1 = modify_loaded [OF ld]
  note s2 = modify_loaded [OF s1(2)]
  let ?h = "store (store h 1 real_zero) 1 (real_zero\<lparr>zName := z, nBlob := BLOBSIZE\<rparr>)"
  have x: "xopen ones_device d = (5, d)" for d :: "unit device"
    by (simp add: xopen_def ones_device_def)
  obtain v' where "fs_load_sizes ones_device 5 1 (fresh_state\<lparr>m_reals := ?h\<rparr>) = Some (SQLITE_OK, v')"
    using fs_load_sizes_ones [of "fresh_state\<lparr>m_reals := ?h\<rparr>" 1] s2(2) by auto
  then show ?thesis
    unfolding fs_open_def m x Let_def prod.case using s1(1) s2(1) x by simp
qed

text \<open>C40: a file opened by the registered \<open>fs_open\<close> never delivers data. Its \<open>sql_file\<close> is never set, so a
  \<open>fs_read\<close> of at least one byte either reports a short read or follows a NULL pointer.\<close>

theorem fs_read_never_delivers:
  assumes "fs_open W z p flags v = Some (SQLITE_OK, p', v')" and "zBuf \<noteq> []"
  shows "fs_read pm w p' zBuf iOfst v' = None \<or>
    fs_read pm w p' zBuf iOfst v' = Some (SQLITE_IOERR_SHORT_READ, zBuf)"
proof -
  obtain r where "load (m_reals v') (m_real p') = Some r" "pFile r = None"
    using fs_open_ok [OF assms(1)] by blast
  then show ?thesis using assms(2)
    by (auto simp: fs_read_def fs_journal_read.simps [of pm None] Option.bind_eq_None_conv Let_def)
qed

theorem fs_read_never_delivers_witness:
  "\<exists>p' v'. fs_open ones_device ''db'' closed_file SQLITE_OPEN_MAIN_DB fresh_state = Some (SQLITE_OK, p', v') \<and>
    (\<forall>pm w. fs_read pm w p' [0] 0 v' = None \<or> fs_read pm w p' [0] 0 v' = Some (SQLITE_IOERR_SHORT_READ, [0]))"
proof -
  obtain p' v' where o: "fs_open ones_device ''db'' closed_file SQLITE_OPEN_MAIN_DB fresh_state = Some (SQLITE_OK, p', v')"
    using fs_open_ones by blast
  show ?thesis by (intro exI conjI allI, rule o) (rule fs_read_never_delivers [OF o], simp)
qed

text \<open>the registered \<open>fsClose\<close> of a file opened by \<open>fs_open\<close> violates its assertion: the reference count
  of the object is 0 and becomes -1.\<close>

theorem fs_open_then_fsClose_fails:
  assumes "fs_open W z p flags v = Some (SQLITE_OK, p', v')"
  shows "fsClose pm (as_fs_file p') \<lparr>pFileList = l, reals = m_reals v', pParent = w\<rparr> = None"
proof -
  obtain r where "load (m_reals v') (m_real p') = Some r" "nRef r = 0"
    using fs_open_ok [OF assms(1)] by blast
  moreover then have "m_real p' \<noteq> 0" by (cases "m_real p' = 0") auto
  ultimately show ?thesis by (simp add: fsClose_def as_fs_file_def modify_def)
qed

theorem fs_open_then_fsClose_fails_witness:
  "\<exists>p' v'. fs_open ones_device ''db'' closed_file SQLITE_OPEN_MAIN_DB fresh_state = Some (SQLITE_OK, p', v') \<and>
    (\<forall>pm w. fsClose pm (as_fs_file p') \<lparr>pFileList = 0, reals = m_reals v', pParent = w\<rparr> = None)"
proof -
  obtain p' v' where o: "fs_open ones_device ''db'' closed_file SQLITE_OPEN_MAIN_DB fresh_state = Some (SQLITE_OK, p', v')"
    using fs_open_ones by blast
  show ?thesis by (intro exI conjI allI, rule o) (rule fs_open_then_fsClose_fails [OF o])
qed

text \<open>opening an empty device has no defined result: when the size in the header block is zero,
  \<open>fs_open\<close> calls \<open>xwrite\<close> with a buffer of two bytes, and \<open>xwrite_win32\<close> hands \<open>WriteFile\<close> the offset
  10485759 as the number of bytes to take from it.\<close>

theorem fs_open_empty_device:
  assumes "0 < avail (m_reals v)" and "wf_heap (m_reals v)" and "CreateFile W (win (m_dev v)) = (fd, w)" and "0 \<le> fd"
    and "ReadFile W fd 512 (SetFilePointer W fd 0 w) = (True, replicate 512 0, w')"
  shows "fs_open W z p flags v = None"
proof -
  obtain h where h: "malloc (m_reals v) = (h, brk (m_reals v))" "brk (m_reals v) \<noteq> 0"
    "cells h = (cells (m_reals v))(brk (m_reals v) \<mapsto> junk (m_reals v))"
    using malloc_ok [OF assms(2,1)] by metis
  have "mem_put (replicate 512 0) 0 (replicate 512 0) = Some (replicate 512 0)"
    by (simp add: mem_put_def)
  moreover have "get_size (replicate 512 0) = 0"
    by (simp add: get_size_def)
  moreover have "mem_get [0, 0] 0 (BLOBSIZE - 1) = None"
    by (simp add: mem_get_def BLOBSIZE_def)
  ultimately show ?thesis
    using h assms(3-5)
    by (simp add: fs_open_def fs_load_sizes_def xopen_def modify_def load_def [of h] xread_def xread_win32_def xwrite_def
        xwrite_win32_def STORAGE_SUCCESS_def SQLITE_OK_def Let_def)
qed

theorem fs_open_empty_device_witness:
  "fs_open (ones_device\<lparr>ReadFile := \<lambda>fd n w. (True, replicate (nat n) 0, w)\<rparr>) ''db'' closed_file
     SQLITE_OPEN_MAIN_DB fresh_state = None"
  by (rule fs_open_empty_device [where fd = 5 and w = "()" and w' = "()"])
    (simp_all add: ones_device_def fresh_state_def wf_heap_def)

end
