(* ===== verification/Bitvec.thy ===== *)
theory Bitvec
  imports Files
begin

text \<open>
  tsrc/bitvec.c: a set of numbers between 1 and \<open>iSize\<close>, as a bitmap, a hash table with linear
  probing or an array of smaller bitvecs. The constants are those of a 64-bit build
  (\<open>BITVEC_USIZE\<close> is 496 bytes). The union \<open>u\<close> is a datatype; reading it as another
  representation than the one stored has no result. A bitvec owns its sub-bitvecs, so pointers to
  them are values. Array indices (\<open>bin\<close>, \<open>h\<close>) are natural numbers: they stay below the array
  lengths. The allocator is a list of outcomes.
\<close>

unbundle bit_operations_syntax

section \<open>Representation\<close>

definition BITVEC_SZELEM :: nat where "BITVEC_SZELEM = 8"
definition BITVEC_NELEM :: nat where "BITVEC_NELEM = 496"
definition BITVEC_NBIT :: nat where "BITVEC_NBIT = BITVEC_NELEM * BITVEC_SZELEM"
definition BITVEC_NINT :: nat where "BITVEC_NINT = 124"
definition BITVEC_MXHASH :: nat where "BITVEC_MXHASH = BITVEC_NINT div 2"
definition BITVEC_NPTR :: nat where "BITVEC_NPTR = 62"

definition BITVEC_HASH :: "u32 \<Rightarrow> nat" where
  "BITVEC_HASH x = unat x mod BITVEC_NINT"

datatype Bitvec = Bitvec (iSize: u32) (nSet: u32) (iDivisor: u32) (u: bitvec_union)
and bitvec_union = aBitmap "u8 list" | aHash "u32 list" | apSub "Bitvec option list"

section \<open>Operations\<close>

text \<open>All bytes of a new object are zero; its size decides how they are read.\<close>

definition sqlite3BitvecCreate :: "u32 \<Rightarrow> faults \<Rightarrow> Bitvec option \<times> faults" where
  "sqlite3BitvecCreate n ms =
     (if alloc_ok ms
      then (Some (Bitvec n 0 0 (if unat n \<le> BITVEC_NBIT then aBitmap (replicate BITVEC_NELEM 0)
                                else aHash (replicate BITVEC_NINT 0))), tl ms)
      else (None, tl ms))"

text \<open>The loop over the hash table: is the first slot from \<open>h\<close> on that is free or holds \<open>i\<close> the
  latter?\<close>

partial_function (option) bv_probe_test :: "u32 list \<Rightarrow> nat \<Rightarrow> u32 \<Rightarrow> bool option" where
  "bv_probe_test a h i =
     (if a ! h \<noteq> 0 then (if a ! h = i then Some True else bv_probe_test a ((h + 1) mod BITVEC_NINT) i)
      else Some False)"

partial_function (option) bv_test_loop :: "Bitvec \<Rightarrow> u32 \<Rightarrow> bool option" where
  "bv_test_loop p i =
     (if iDivisor p \<noteq> 0 then
        (case u p of
           apSub subs \<Rightarrow>
             (let bin = unat (i div iDivisor p) in
              if bin < length subs
              then (case subs ! bin of None \<Rightarrow> Some False | Some q \<Rightarrow> bv_test_loop q (i mod iDivisor p))
              else None)
         | _ \<Rightarrow> None)
      else if unat (iSize p) \<le> BITVEC_NBIT then
        (case u p of
           aBitmap b \<Rightarrow>
             (let e = unat i div BITVEC_SZELEM in
              if e < length b then Some (b ! e AND push_bit (unat (i AND 7)) 1 \<noteq> 0) else None)
         | _ \<Rightarrow> None)
      else
        (case u p of
           aHash a \<Rightarrow> bv_probe_test a (BITVEC_HASH i) (i + 1)
         | _ \<Rightarrow> None))"

definition sqlite3BitvecTestNotNull :: "Bitvec \<Rightarrow> u32 \<Rightarrow> bool option" where
  "sqlite3BitvecTestNotNull p i =
     (let i = i - 1 in if i \<ge> iSize p then Some False else bv_test_loop p i)"

definition sqlite3BitvecTest :: "Bitvec option \<Rightarrow> u32 \<Rightarrow> bool option" where
  "sqlite3BitvecTest p i = (case p of None \<Rightarrow> Some False | Some p \<Rightarrow> sqlite3BitvecTestNotNull p i)"

text \<open>The probing loop of an insertion: Inl when \<open>i\<close> is in the table, Inr of the free slot else. It looks
  at slot \<open>h\<close> before it moves on.\<close>

partial_function (option) bv_probe_set :: "u32 list \<Rightarrow> nat \<Rightarrow> u32 \<Rightarrow> (unit + nat) option" where
  "bv_probe_set a h i =
     (if a ! h = i then Some (Inl ())
      else let h = (if h + 1 \<ge> BITVEC_NINT then 0 else h + 1) in
           if a ! h \<noteq> 0 then bv_probe_set a h i else Some (Inr h))"

definition bv_set_end :: "Bitvec \<Rightarrow> u32 list \<Rightarrow> nat \<Rightarrow> u32 \<Rightarrow> Bitvec" where
  "bv_set_end p a h i = Bitvec (iSize p) (nSet p + 1) (iDivisor p) (aHash (a[h := i]))"

definition bv_divisor :: "u32 \<Rightarrow> u32" where
  "bv_divisor n = word_of_nat ((unat n + BITVEC_NPTR - 1) div BITVEC_NPTR)"

text \<open>
  \<open>bv_set_loop p i\<close> is \<open>sqlite3BitvecSet\<close> after \<open>i--\<close>. A hash table that is too full is split: its
  values are saved, the union is cleared, and the new value and the saved ones go through the same
  function again.
\<close>

partial_function (option) bv_set_loop :: "Bitvec \<Rightarrow> u32 \<Rightarrow> faults \<Rightarrow> (Bitvec \<times> int \<times> faults) option" where
  "bv_set_loop p i ms =
     (if unat (iSize p) > BITVEC_NBIT \<and> iDivisor p \<noteq> 0 then
        (case u p of
           apSub subs \<Rightarrow>
             (let bin = unat (i div iDivisor p) in
              if bin < length subs then
                (let (sub, ms) = (case subs ! bin of
                     None \<Rightarrow> sqlite3BitvecCreate (iDivisor p) ms | Some q \<Rightarrow> (Some q, ms)) in
                 case sub of
                   None \<Rightarrow> Some (p, SQLITE_NOMEM, ms)
                 | Some q \<Rightarrow> do {
                     (q, rc, ms) \<leftarrow> bv_set_loop q (i mod iDivisor p) ms;
                     Some (Bitvec (iSize p) (nSet p) (iDivisor p) (apSub (subs[bin := Some q])), rc, ms) })
              else None)
         | _ \<Rightarrow> None)
      else if unat (iSize p) \<le> BITVEC_NBIT then
        (case u p of
           aBitmap b \<Rightarrow>
             (let e = unat i div BITVEC_SZELEM in
              if e < length b
              then Some (Bitvec (iSize p) (nSet p) (iDivisor p)
                (aBitmap (b[e := b ! e OR push_bit (unat (i AND 7)) 1])), SQLITE_OK, ms)
              else None)
         | _ \<Rightarrow> None)
      else
        (case u p of
           aHash a \<Rightarrow>
             (let h = BITVEC_HASH i; i = i + 1 in do {
                r \<leftarrow> (if a ! h = 0 then Some (Inr (h, unat (nSet p) < BITVEC_NINT - 1))
                     else do {
                       r \<leftarrow> bv_probe_set a h i;
                       Some (case r of Inl _ \<Rightarrow> Inl () | Inr h \<Rightarrow> Inr (h, False)) });
                case r of
                  Inl _ \<Rightarrow> Some (p, SQLITE_OK, ms)
                | Inr (h, room) \<Rightarrow>
                    if room \<or> unat (nSet p) < BITVEC_MXHASH then Some (bv_set_end p a h i, SQLITE_OK, ms)
                    else if \<not> alloc_ok ms then Some (p, SQLITE_NOMEM, tl ms)
                    else do {
                      let p = Bitvec (iSize p) (nSet p) (bv_divisor (iSize p)) (apSub (replicate BITVEC_NPTR None));
                      check (i > 0 \<and> i \<le> iSize p);
                      (p, rc, ms) \<leftarrow> bv_set_loop p (i - 1) (tl ms);
                      foldO (\<lambda>v (p, rc, ms).
                          if v = 0 then Some (p, rc, ms)
                          else do {
                            check (v \<le> iSize p);
                            (p, r, ms) \<leftarrow> bv_set_loop p (v - 1) ms;
                            Some (p, rc OR r, ms) })
                        a (p, rc, ms) } })
         | _ \<Rightarrow> None))"

definition sqlite3BitvecSet :: "Bitvec option \<Rightarrow> u32 \<Rightarrow> faults \<Rightarrow> (Bitvec option \<times> int \<times> faults) option" where
  "sqlite3BitvecSet p i ms =
     (case p of
        None \<Rightarrow> Some (None, SQLITE_OK, ms)
      | Some p \<Rightarrow> do {
          check (i > 0);
          check (i \<le> iSize p);
          (p, rc, ms) \<leftarrow> bv_set_loop p (i - 1) ms;
          Some (Some p, rc, ms) })"

text \<open>The first free slot from \<open>h\<close> on.\<close>

partial_function (option) bv_probe_free :: "u32 list \<Rightarrow> nat \<Rightarrow> nat option" where
  "bv_probe_free a h =
     (if a ! h \<noteq> 0 then bv_probe_free a (if h + 1 \<ge> BITVEC_NINT then 0 else h + 1) else Some h)"

text \<open>The body of the loop over the saved values; \<open>n\<close> is \<open>nSet\<close>.\<close>

definition bv_rehash_step :: "u32 \<Rightarrow> u32 \<Rightarrow> u32 list \<times> u32 \<Rightarrow> (u32 list \<times> u32) option" where
  "bv_rehash_step i v = (\<lambda>(a, n).
     if v \<noteq> 0 \<and> v \<noteq> i + 1 then do {
       h \<leftarrow> bv_probe_free a (BITVEC_HASH (v - 1));
       Some (a[h := v], n + 1) }
     else Some (a, n))"

definition bv_rehash :: "u32 list \<Rightarrow> u32 \<Rightarrow> (u32 list \<times> u32) option" where
  "bv_rehash aiValues i = foldO (bv_rehash_step i) aiValues (replicate BITVEC_NINT 0, 0)"

partial_function (option) bv_clear_loop :: "Bitvec \<Rightarrow> u32 \<Rightarrow> Bitvec option" where
  "bv_clear_loop p i =
     (if iDivisor p \<noteq> 0 then
        (case u p of
           apSub subs \<Rightarrow>
             (let bin = unat (i div iDivisor p) in
              if bin < length subs
              then (case subs ! bin of
                      None \<Rightarrow> Some p
                    | Some q \<Rightarrow> do {
                        q \<leftarrow> bv_clear_loop q (i mod iDivisor p);
                        Some (Bitvec (iSize p) (nSet p) (iDivisor p) (apSub (subs[bin := Some q]))) })
              else None)
         | _ \<Rightarrow> None)
      else if unat (iSize p) \<le> BITVEC_NBIT then
        (case u p of
           aBitmap b \<Rightarrow>
             (let e = unat i div BITVEC_SZELEM in
              if e < length b
              then Some (Bitvec (iSize p) (nSet p) (iDivisor p)
                (aBitmap (b[e := b ! e AND NOT (push_bit (unat (i AND 7)) 1)])))
              else None)
         | _ \<Rightarrow> None)
      else
        (case u p of
           aHash a \<Rightarrow> do {
             (a, n) \<leftarrow> bv_rehash a i;
             Some (Bitvec (iSize p) n (iDivisor p) (aHash a)) }
         | _ \<Rightarrow> None))"

definition sqlite3BitvecClear :: "Bitvec option \<Rightarrow> u32 \<Rightarrow> Bitvec option option" where
  "sqlite3BitvecClear p i =
     (case p of
        None \<Rightarrow> Some None
      | Some p \<Rightarrow> do { check (i > 0); p \<leftarrow> bv_clear_loop p (i - 1); Some (Some p) })"

text \<open>The number of objects that are given back to the allocator.\<close>

primrec sqlite3BitvecDestroy :: "Bitvec \<Rightarrow> nat" and bv_destroy_subs :: "bitvec_union \<Rightarrow> nat" where
  "sqlite3BitvecDestroy (Bitvec sz n d un) = (if d \<noteq> 0 then bv_destroy_subs un else 0) + 1"
| "bv_destroy_subs (aBitmap b) = 0"
| "bv_destroy_subs (aHash a) = 0"
| "bv_destroy_subs (apSub subs) =
     sum_list (map (case_option 0 id) (map (map_option sqlite3BitvecDestroy) subs))"

definition sqlite3BitvecSize :: "Bitvec \<Rightarrow> u32" where
  "sqlite3BitvecSize p = iSize p"

end
