(* ===== verification/Bitvec_Spec.thy ===== *)
theory Bitvec_Spec
  imports Bitvec
begin

text \<open>
  Linear probing in the hash tables of tsrc/bitvec.c, and the contract of the operations: under
  the representation invariant \<open>bv_ok\<close> a bitvec is a set of numbers.
\<close>

section \<open>Linear probing\<close>

abbreviation N :: nat where "N \<equiv> BITVEC_NINT"

lemma N_pos [simp]: "0 < N" "N \<noteq> 0"
  by (simp_all add: BITVEC_NINT_def)

definition slot :: "u32 list \<Rightarrow> nat \<Rightarrow> nat \<Rightarrow> u32" where
  "slot a h k = a ! ((h + k) mod N)"

lemma slot_Suc: "slot a h (Suc k) = slot a (Suc h mod N) k"
  by (simp add: slot_def mod_simps)

lemma slot_0 [simp]: "h < N \<Longrightarrow> slot a h 0 = a ! h"
  by (simp add: slot_def)

lemma next_slot: "h < N \<Longrightarrow> (if h + 1 \<ge> N then 0 else h + 1) = Suc h mod N"
  by (cases "Suc h = N") auto

lemma reach_slot:
  assumes "h < N" and "j < N"
  obtains k where "k < N" and "(h + k) mod N = j"
proof -
  have "(h + (j + (N - h)) mod N) mod N = j"
    using assms by (simp add: mod_simps)
  then show thesis using that [of "(j + (N - h)) mod N"] by simp
qed

definition hash_tab :: "u32 list \<Rightarrow> bool" where
  "hash_tab a \<longleftrightarrow> length a = N \<and>
     (\<forall>i j. i < N \<longrightarrow> j < N \<longrightarrow> a ! i \<noteq> 0 \<longrightarrow> a ! i = a ! j \<longrightarrow> i = j) \<and>
     (\<forall>j < N. a ! j \<noteq> 0 \<longrightarrow>
        (\<exists>k. j = (BITVEC_HASH (a ! j - 1) + k) mod N \<and> (\<forall>l < k. slot a (BITVEC_HASH (a ! j - 1)) l \<noteq> 0)))"

lemma hash_tab_reach:
  assumes "hash_tab a" and "j < N" and "a ! j \<noteq> 0"
  obtains k where "j = (BITVEC_HASH (a ! j - 1) + k) mod N" and "\<forall>l < k. slot a (BITVEC_HASH (a ! j - 1)) l \<noteq> 0"
  using assms unfolding hash_tab_def by blast

definition used :: "u32 list \<Rightarrow> nat" where
  "used a = card {j. j < N \<and> a ! j \<noteq> 0}"

lemma used_le: "used a \<le> N"
  unfolding used_def using card_mono [of "{..<N}" "{j. j < N \<and> a ! j \<noteq> 0}"] by auto

lemma used_upd: "length a = N \<Longrightarrow> j < N \<Longrightarrow> a ! j = 0 \<Longrightarrow> v \<noteq> 0 \<Longrightarrow> used (a[j := v]) = Suc (used a)"
proof -
  assume "length a = N" "j < N" "a ! j = 0" "v \<noteq> 0"
  then have "{i. i < N \<and> a[j := v] ! i \<noteq> 0} = insert j {i. i < N \<and> a ! i \<noteq> 0}"
    by (auto simp: nth_list_update)
  then show ?thesis using \<open>a ! j = 0\<close> by (simp add: used_def)
qed

lemma used_free: "used a < N \<Longrightarrow> \<exists>j < N. a ! j = 0"
proof (rule ccontr)
  assume "used a < N" and "\<not> (\<exists>j < N. a ! j = 0)"
  then have "{j. j < N \<and> a ! j \<noteq> 0} = {..<N}" by auto
  then show False using \<open>used a < N\<close> by (simp add: used_def)
qed

text \<open>From every slot on, the search for a slot with a property that some slot has ends at the first one.\<close>

lemma first_slot:
  assumes "h < N" and "j < N" and "P (a ! j)"
  obtains k where "P (slot a h k)" and "\<forall>l < k. \<not> P (slot a h l)"
proof -
  obtain k where "P (slot a h k)"
    using reach_slot [OF assms(1,2)] assms(3) unfolding slot_def by metis
  then show thesis
    using that [of "LEAST k. P (slot a h k)"] LeastI [of "\<lambda>k. P (slot a h k)" k] not_less_Least by blast
qed

lemma bv_probe_test_slot:
  "h < N \<Longrightarrow> i \<noteq> 0 \<Longrightarrow> \<forall>l < k. slot a h l \<noteq> 0 \<and> slot a h l \<noteq> i \<Longrightarrow> slot a h k = 0 \<or> slot a h k = i \<Longrightarrow>
   bv_probe_test a h i = Some (slot a h k = i)"
proof (induction k arbitrary: h)
  case 0
  then show ?case by (auto simp: bv_probe_test.simps [of a h])
next
  case (Suc k)
  have "a ! h \<noteq> 0" "a ! h \<noteq> i" using Suc.prems(1,3) by auto
  moreover have "bv_probe_test a (Suc h mod N) i = Some (slot a (Suc h mod N) k = i)"
    by (rule Suc.IH) (use Suc.prems in \<open>auto simp: slot_Suc [symmetric]\<close>)
  ultimately show ?case by (simp add: bv_probe_test.simps [of a h] slot_Suc)
qed

lemma bv_probe_free_slot:
  "h < N \<Longrightarrow> \<forall>l < k. slot a h l \<noteq> 0 \<Longrightarrow> slot a h k = 0 \<Longrightarrow> bv_probe_free a h = Some ((h + k) mod N)"
proof (induction k arbitrary: h)
  case 0
  then show ?case by (simp add: bv_probe_free.simps [of a h])
next
  case (Suc k)
  have "a ! h \<noteq> 0" using Suc.prems(1,2) by auto
  moreover have "bv_probe_free a (Suc h mod N) = Some ((Suc h mod N + k) mod N)"
    by (rule Suc.IH) (use Suc.prems in \<open>auto simp: slot_Suc [symmetric]\<close>)
  ultimately show ?case
    using next_slot [OF Suc.prems(1)] by (simp add: bv_probe_free.simps [of a h] mod_simps)
qed

lemma bv_probe_set_slot:
  "h < N \<Longrightarrow> i \<noteq> 0 \<Longrightarrow> a ! h \<noteq> 0 \<Longrightarrow> \<forall>l < k. slot a h l \<noteq> 0 \<and> slot a h l \<noteq> i \<Longrightarrow>
   slot a h k = 0 \<or> slot a h k = i \<Longrightarrow>
   bv_probe_set a h i = Some (if slot a h k = i then Inl () else Inr ((h + k) mod N))"
proof (induction k arbitrary: h)
  case 0
  then show ?case by (auto simp: bv_probe_set.simps [of a h])
next
  case (Suc k)
  let ?h = "Suc h mod N"
  have h: "a ! h \<noteq> i" using Suc.prems(1,4) by auto
  have step: "bv_probe_set a h i = (if a ! ?h \<noteq> 0 then bv_probe_set a ?h i else Some (Inr ?h))"
    using h next_slot [OF Suc.prems(1)] by (simp add: bv_probe_set.simps [of a h] Let_def)
  show ?case
  proof (cases "a ! ?h = 0")
    case True
    have "k = 0"
    proof (rule ccontr)
      assume "k \<noteq> 0"
      then have "slot a h (Suc 0) \<noteq> 0" using Suc.prems(4) by auto
      then show False using True by (simp add: slot_def)
    qed
    then show ?thesis using True Suc.prems(2,5) unfolding step by (auto simp: slot_def)
  next
    case False
    have "bv_probe_set a ?h i = Some (if slot a ?h k = i then Inl () else Inr ((?h + k) mod N))"
      by (rule Suc.IH) (use Suc.prems False in \<open>auto simp: slot_Suc [symmetric]\<close>)
    then show ?thesis using False unfolding step by (simp add: slot_Suc mod_simps)
  qed
qed

text \<open>A value of the table is found from its own slot on.\<close>

lemma hash_tab_found:
  assumes "hash_tab a" and "i \<noteq> 0" and "i \<in> set a"
  obtains k where "slot a (BITVEC_HASH (i - 1)) k = i" and "\<forall>l < k. slot a (BITVEC_HASH (i - 1)) l \<noteq> 0"
proof -
  obtain j where "j < N" "a ! j = i" using assms(1,3) by (auto simp: hash_tab_def in_set_conv_nth)
  then obtain k where "j = (BITVEC_HASH (i - 1) + k) mod N" "\<forall>l < k. slot a (BITVEC_HASH (i - 1)) l \<noteq> 0"
    using assms(1,2) unfolding hash_tab_def by blast
  then show thesis using that [of k] \<open>a ! j = i\<close> by (simp add: slot_def)
qed

lemma hash_lt [simp]: "BITVEC_HASH x < N"
  by (simp add: BITVEC_HASH_def)

lemma slot_mem: "length a = N \<Longrightarrow> slot a h k \<in> set a"
  by (simp add: slot_def)

text \<open>The first stop of the search for \<open>i\<close> holds \<open>i\<close> just when \<open>i\<close> is in the table.\<close>

lemma hash_tab_stop:
  assumes "hash_tab a" and "i \<noteq> 0" and "used a < N"
  obtains k where "\<forall>l < k. slot a (BITVEC_HASH (i - 1)) l \<noteq> 0 \<and> slot a (BITVEC_HASH (i - 1)) l \<noteq> i"
    and "slot a (BITVEC_HASH (i - 1)) k = (if i \<in> set a then i else 0)"
proof -
  let ?h = "BITVEC_HASH (i - 1)"
  have len: "length a = N" using assms(1) by (simp add: hash_tab_def)
  obtain j where "j < N" "a ! j = 0" using used_free [OF assms(3)] by blast
  then obtain k where k: "slot a ?h k = 0 \<or> slot a ?h k = i" "\<forall>l < k. \<not> (slot a ?h l = 0 \<or> slot a ?h l = i)"
    using first_slot [of ?h j "\<lambda>x. x = 0 \<or> x = i" a] by auto
  have "slot a ?h k = (if i \<in> set a then i else 0)"
  proof (cases "i \<in> set a")
    case True
    then obtain k0 where k0: "slot a ?h k0 = i" "\<forall>l < k0. slot a ?h l \<noteq> 0"
      using hash_tab_found [OF assms(1,2)] by blast
    have "k \<le> k0" using k(2) k0(1) by (meson not_le)
    then show ?thesis using k(1) k0 True by (cases "k = k0") auto
  next
    case False
    then show ?thesis using k(1) slot_mem [OF len, of ?h k] by auto
  qed
  then show thesis using that k(2) by blast
qed

lemma hash_tab_insert:
  assumes "hash_tab a" and "i \<noteq> 0" and "i \<notin> set a"
    and "\<forall>l < k. slot a (BITVEC_HASH (i - 1)) l \<noteq> 0" and "slot a (BITVEC_HASH (i - 1)) k = 0"
  shows "hash_tab (a[(BITVEC_HASH (i - 1) + k) mod N := i])"
    and "used (a[(BITVEC_HASH (i - 1) + k) mod N := i]) = Suc (used a)"
    and "\<forall>x. x \<noteq> 0 \<longrightarrow> x \<in> set (a[(BITVEC_HASH (i - 1) + k) mod N := i]) \<longleftrightarrow> x = i \<or> x \<in> set a"
proof -
  let ?p = "(BITVEC_HASH (i - 1) + k) mod N"
  let ?a = "a[?p := i]"
  have len: "length a = N" and p: "?p < N" and z: "a ! ?p = 0"
    using assms(1,5) by (simp_all add: hash_tab_def slot_def)
  have keep: "slot ?a h l \<noteq> 0" if "slot a h l \<noteq> 0" for h l
    using that assms(2) len by (simp add: slot_def nth_list_update)
  have notin: "a ! j \<noteq> i" if "j < N" for j using that assms(3) len nth_mem by metis
  have inj: "x = y" if "x < N" "y < N" "?a ! x \<noteq> 0" "?a ! x = ?a ! y" for x y
    using that assms(1) notin len p unfolding hash_tab_def by (auto simp: nth_list_update split: if_splits)
  have reach: "\<exists>k. j = (BITVEC_HASH (?a ! j - 1) + k) mod N \<and> (\<forall>l < k. slot ?a (BITVEC_HASH (?a ! j - 1)) l \<noteq> 0)"
    if j: "j < N" "?a ! j \<noteq> 0" for j
  proof (cases "j = ?p")
    case True
    then show ?thesis using len p assms(4) keep by (intro exI [of _ k]) simp
  next
    case False
    then have eq: "?a ! j = a ! j" by simp
    obtain m where "j = (BITVEC_HASH (a ! j - 1) + m) mod N" "\<forall>l < m. slot a (BITVEC_HASH (a ! j - 1)) l \<noteq> 0"
      using hash_tab_reach [OF assms(1) j(1)] j(2) eq by auto
    then show ?thesis unfolding eq using keep by blast
  qed
  have "length ?a = N" using len by simp
  then show "hash_tab ?a" unfolding hash_tab_def using inj reach by blast
  show "used ?a = Suc (used a)" by (rule used_upd [OF len p z assms(2)])
  have "set ?a \<subseteq> insert i (set a)" by (rule set_update_subset_insert)
  moreover have "i \<in> set ?a" using p len by (simp add: set_update_memI)
  moreover have "x \<in> set ?a" if x: "x \<in> set a" "x \<noteq> 0" for x
  proof -
    obtain j where "j < N" "a ! j = x" using x(1) len by (auto simp: in_set_conv_nth)
    then have "?a ! j = x" using x(2) z by (cases "j = ?p") auto
    then show ?thesis using \<open>j < N\<close> len by (metis length_list_update nth_mem)
  qed
  ultimately show "\<forall>x. x \<noteq> 0 \<longrightarrow> x \<in> set ?a \<longleftrightarrow> x = i \<or> x \<in> set a" by blast
qed

lemma hash_tab_empty: "hash_tab (replicate N 0)" "used (replicate N 0) = 0"
  by (simp_all add: hash_tab_def used_def)

lemma nth_distinct_filter:
  "(\<And>i j. i < length xs \<Longrightarrow> j < length xs \<Longrightarrow> P (xs ! i) \<Longrightarrow> xs ! i = xs ! j \<Longrightarrow> i = j) \<Longrightarrow> distinct (filter P xs)"
proof (induction xs)
  case (Cons x xs)
  have "i = j" if "i < length xs" "j < length xs" "P (xs ! i)" "xs ! i = xs ! j" for i j
    using Cons.prems [of "Suc i" "Suc j"] that by simp
  then have "distinct (filter P xs)" by (rule Cons.IH)
  moreover have "x \<notin> set xs" if "P x"
  proof
    assume "x \<in> set xs"
    then obtain j where "j < length xs" "xs ! j = x" by (auto simp: in_set_conv_nth)
    then show False using Cons.prems [of 0 "Suc j"] that by simp
  qed
  ultimately show ?case by simp
qed simp

lemma hash_tab_distinct:
  assumes "hash_tab a"
  shows "distinct (filter (\<lambda>v. v \<noteq> 0) a)"
proof (rule nth_distinct_filter)
  fix i j assume "i < length a" "j < length a" "a ! i \<noteq> 0" "a ! i = a ! j"
  then show "i = j" using assms unfolding hash_tab_def by (metis (no_types))
qed

text \<open>Building a table anew, as \<open>sqlite3BitvecClear\<close> does.\<close>

lemma bv_rehash_loop:
  assumes "hash_tab a" and "used a + length (filter (\<lambda>v. v \<noteq> 0) vs) \<le> N" and "\<forall>v \<in> set vs. v \<noteq> 0 \<and> v \<noteq> i + 1 \<longrightarrow> v \<notin> set a"
    and "distinct (filter (\<lambda>v. v \<noteq> 0) vs)"
  shows "\<exists>b. foldO (bv_rehash_step i) vs (a, word_of_nat (used a)) = Some (b, word_of_nat (used b)) \<and>
    hash_tab b \<and> used b \<le> used a + length (filter (\<lambda>v. v \<noteq> 0) vs) \<and>
    (\<forall>x. x \<noteq> 0 \<longrightarrow> x \<in> set b \<longleftrightarrow> x \<in> set a \<or> (x \<in> set vs \<and> x \<noteq> i + 1))"
  using assms
proof (induction vs arbitrary: a)
  case Nil
  then show ?case by auto
next
  case (Cons v vs)
  have dist: "distinct (filter (\<lambda>v. v \<noteq> 0) vs)" using Cons.prems(4) by (simp split: if_splits)
  show ?case
  proof (cases "v \<noteq> 0 \<and> v \<noteq> i + 1")
    case False
    obtain b where b: "foldO (bv_rehash_step i) vs (a, word_of_nat (used a)) = Some (b, word_of_nat (used b))"
      "hash_tab b" "used b \<le> used a + length (filter (\<lambda>v. v \<noteq> 0) vs)"
      "\<forall>x. x \<noteq> 0 \<longrightarrow> x \<in> set b \<longleftrightarrow> x \<in> set a \<or> (x \<in> set vs \<and> x \<noteq> i + 1)"
      using Cons.IH [OF Cons.prems(1) _ _ dist] Cons.prems(2,3) by (auto split: if_splits)
    have "foldO (bv_rehash_step i) (v # vs) (a, word_of_nat (used a)) = Some (b, word_of_nat (used b))"
      using False b(1) by (auto simp: bv_rehash_step_def)
    moreover have "\<forall>x. x \<noteq> 0 \<longrightarrow> x \<in> set b \<longleftrightarrow> x \<in> set a \<or> (x \<in> set (v # vs) \<and> x \<noteq> i + 1)"
      using b(4) False by auto
    ultimately show ?thesis using b(2,3) by (intro exI [of _ b]) simp
  next
    case True
    have nin: "v \<notin> set a" using Cons.prems(3) True by simp
    have ua: "used a < N" using Cons.prems(2) True by simp
    obtain k where k: "\<forall>l < k. slot a (BITVEC_HASH (v - 1)) l \<noteq> 0" "slot a (BITVEC_HASH (v - 1)) k = 0"
      using hash_tab_stop [OF Cons.prems(1) _ ua, of v] True nin by (metis (full_types))
    let ?a = "a[(BITVEC_HASH (v - 1) + k) mod N := v]"
    have v: "v \<noteq> 0" using True by simp
    note ins = hash_tab_insert [OF Cons.prems(1) v nin k]
    have pf: "bv_probe_free a (BITVEC_HASH (v - 1)) = Some ((BITVEC_HASH (v - 1) + k) mod N)"
      by (rule bv_probe_free_slot [OF hash_lt k])
    have "v \<notin> set vs" using Cons.prems(4) v by simp
    then have fresh: "\<forall>w \<in> set vs. w \<noteq> 0 \<and> w \<noteq> i + 1 \<longrightarrow> w \<notin> set ?a"
      using Cons.prems(3) ins(3) by auto
    obtain b where b: "foldO (bv_rehash_step i) vs (?a, word_of_nat (used ?a)) = Some (b, word_of_nat (used b))"
      "hash_tab b" "used b \<le> used ?a + length (filter (\<lambda>v. v \<noteq> 0) vs)"
      "\<forall>x. x \<noteq> 0 \<longrightarrow> x \<in> set b \<longleftrightarrow> x \<in> set ?a \<or> (x \<in> set vs \<and> x \<noteq> i + 1)"
      using Cons.IH [OF ins(1) _ fresh dist] ins(2) Cons.prems(2) v by auto
    have "(word_of_nat (used ?a) :: u32) = word_of_nat (used a) + 1" using ins(2) by simp
    then have "foldO (bv_rehash_step i) (v # vs) (a, word_of_nat (used a)) = Some (b, word_of_nat (used b))"
      using True pf b(1) by (simp add: bv_rehash_step_def)
    moreover have "\<forall>x. x \<noteq> 0 \<longrightarrow> x \<in> set b \<longleftrightarrow> x \<in> set a \<or> (x \<in> set (v # vs) \<and> x \<noteq> i + 1)"
      using b(4) ins(3) True by auto
    ultimately show ?thesis using b(2,3) ins(2) v by (intro exI [of _ b]) simp
  qed
qed


lemma used_filter: "hash_tab a \<Longrightarrow> length (filter (\<lambda>v. v \<noteq> 0) a) = used a"
  by (simp add: used_def hash_tab_def length_filter_conv_card)

lemma bv_rehash_spec:
  assumes "hash_tab a" and "used a < N"
  shows "\<exists>b. bv_rehash a i = Some (b, word_of_nat (used b)) \<and> hash_tab b \<and> used b < N \<and>
    (\<forall>x. x \<noteq> 0 \<longrightarrow> x \<in> set b \<longleftrightarrow> x \<in> set a \<and> x \<noteq> i + 1)"
proof -
  have len: "length (filter (\<lambda>v. v \<noteq> 0) a) = used a" by (rule used_filter [OF assms(1)])
  show ?thesis
    using bv_rehash_loop [OF hash_tab_empty(1), of a i] hash_tab_distinct [OF assms(1)] assms(2) hash_tab_empty(2) len
    by (auto simp: bv_rehash_def)
qed

section \<open>The representation invariant and the set it represents\<close>

inductive bv_ok :: "Bitvec \<Rightarrow> bool" where
  bitmap: "unat sz \<le> BITVEC_NBIT \<Longrightarrow> length b = BITVEC_NELEM \<Longrightarrow> bv_ok (Bitvec sz n 0 (aBitmap b))"
| hash: "BITVEC_NBIT < unat sz \<Longrightarrow> hash_tab a \<Longrightarrow> used a < N \<Longrightarrow> \<forall>x \<in> set a. x \<le> sz \<Longrightarrow> unat n = used a \<Longrightarrow>
    bv_ok (Bitvec sz n 0 (aHash a))"
| sub: "BITVEC_NBIT < unat sz \<Longrightarrow> length subs = BITVEC_NPTR \<Longrightarrow>
    \<forall>q. Some q \<in> set subs \<longrightarrow> bv_ok q \<and> iSize q = bv_divisor sz \<Longrightarrow>
    bv_ok (Bitvec sz n (bv_divisor sz) (apSub subs))"

inductive bv_in :: "Bitvec \<Rightarrow> u32 \<Rightarrow> bool" where
  "bit (b ! (unat i div 8)) (unat i mod 8) \<Longrightarrow> bv_in (Bitvec sz n d (aBitmap b)) i"
| "i + 1 \<in> set a \<Longrightarrow> bv_in (Bitvec sz n d (aHash a)) i"
| "subs ! unat (i div d) = Some q \<Longrightarrow> bv_in q (i mod d) \<Longrightarrow> bv_in (Bitvec sz n d (apSub subs)) i"

inductive_simps bv_in_simps [simp]:
  "bv_in (Bitvec sz n d (aBitmap b)) i"
  "bv_in (Bitvec sz n d (aHash a)) i"
  "bv_in (Bitvec sz n d (apSub subs)) i"

inductive_cases bv_ok_bitmapE: "bv_ok (Bitvec sz n d (aBitmap b))"
inductive_cases bv_ok_hashE: "bv_ok (Bitvec sz n d (aHash a))"
inductive_cases bv_ok_subE: "bv_ok (Bitvec sz n d (apSub subs))"

lemma bv_divisor:
  assumes "BITVEC_NBIT < unat sz"
  shows "unat (bv_divisor sz) = (unat sz + 61) div 62" and "bv_divisor sz \<noteq> 0"
    and "unat (bv_divisor sz) < unat sz"
    and "i < sz \<Longrightarrow> unat (i div bv_divisor sz) < BITVEC_NPTR" and "i mod bv_divisor sz < bv_divisor sz"
proof -
  have s: "unat sz < 2 ^ 32" using unsigned_less [of sz] by simp
  have g: "3968 < unat sz" using assms by (simp add: BITVEC_NBIT_def BITVEC_NELEM_def BITVEC_SZELEM_def)
  show d: "unat (bv_divisor sz) = (unat sz + 61) div 62"
    using s by (simp add: bv_divisor_def BITVEC_NPTR_def unat_of_nat take_bit_eq_mod)
  show nz: "bv_divisor sz \<noteq> 0"
  proof
    assume "bv_divisor sz = 0"
    then show False using d g by simp
  qed
  show "unat (bv_divisor sz) < unat sz" unfolding d using g by linarith
  show "unat (i div bv_divisor sz) < BITVEC_NPTR" if "i < sz"
  proof -
    have "unat i < 62 * ((unat sz + 61) div 62)" using that by (simp add: word_less_nat_alt)
    then have "unat i div ((unat sz + 61) div 62) < 62" by (simp add: less_mult_imp_div_less)
    then show ?thesis by (simp add: unat_div d BITVEC_NPTR_def)
  qed
  show "i mod bv_divisor sz < bv_divisor sz"
    unfolding word_less_nat_alt unat_mod_distrib d using g by simp
qed

lemma and_bit: "(x :: u8) AND push_bit k 1 \<noteq> 0 \<longleftrightarrow> bit x k"
  by (simp add: push_bit_of_1 and_exp_eq_0_iff_not_bit)

lemma unat_and_7: "unat ((i :: u32) AND 7) = unat i mod 8"
proof -
  have "i AND 7 = take_bit 3 i" by (simp add: take_bit_eq_mask mask_numeral)
  then show ?thesis by (simp add: take_bit_eq_mod unat_mod_distrib)
qed

section \<open>Creating and testing\<close>

lemma succ_not_0: "i < (sz :: u32) \<Longrightarrow> i + 1 \<noteq> 0"
proof
  assume "i < sz" and "i + 1 = 0"
  then have "i = - 1" by (simp add: eq_neg_iff_add_eq_0)
  then show False using \<open>i < sz\<close> by (simp add: word_order.extremum_strict)
qed

lemma bit_index: "unat (i :: u32) < unat sz \<Longrightarrow> unat sz \<le> BITVEC_NBIT \<Longrightarrow> unat i div BITVEC_SZELEM < BITVEC_NELEM"
  by (simp add: BITVEC_NBIT_def BITVEC_SZELEM_def less_mult_imp_div_less)

lemma bv_create_ok:
  assumes "sqlite3BitvecCreate n ms = (Some p, ms')"
  shows "bv_ok p" and "iSize p = n" and "i < n \<Longrightarrow> \<not> bv_in p i"
proof -
  have p: "p = Bitvec n 0 0 (if unat n \<le> BITVEC_NBIT then aBitmap (replicate BITVEC_NELEM 0)
      else aHash (replicate BITVEC_NINT 0))"
    using assms by (simp add: sqlite3BitvecCreate_def split: if_splits)
  show "iSize p = n" by (simp add: p)
  show "bv_ok p"
    using hash_tab_empty by (auto simp: p not_le intro!: bv_ok.intros)
  show "\<not> bv_in p i" if "i < n"
  proof (cases "unat n \<le> BITVEC_NBIT")
    case True
    then have "unat i div 8 < BITVEC_NELEM"
      using bit_index [of i n] that by (simp add: word_less_nat_alt BITVEC_SZELEM_def)
    then show ?thesis using True by (simp add: p)
  next
    case False
    then show ?thesis using succ_not_0 [OF that] by (simp add: p)
  qed
qed

lemma bv_test_loop_spec: "bv_ok p \<Longrightarrow> i < iSize p \<Longrightarrow> bv_test_loop p i = Some (bv_in p i)"
proof (induction arbitrary: i rule: bv_ok.induct)
  case (bitmap sz b n)
  then have "unat i div 8 < length b"
    using bit_index [of i sz] by (simp add: word_less_nat_alt BITVEC_SZELEM_def)
  then show ?case using bitmap
    by (simp add: bv_test_loop.simps and_bit unat_and_7 BITVEC_SZELEM_def del: push_bit_of_1)
next
  case (hash sz a n)
  have i: "i + 1 \<noteq> 0" using hash by (simp add: succ_not_0)
  obtain k where "\<forall>l < k. slot a (BITVEC_HASH i) l \<noteq> 0 \<and> slot a (BITVEC_HASH i) l \<noteq> i + 1"
    "slot a (BITVEC_HASH i) k = (if i + 1 \<in> set a then i + 1 else 0)"
    using hash_tab_stop [OF hash(2) i hash(3)] by auto
  then have "bv_probe_test a (BITVEC_HASH i) (i + 1) = Some (i + 1 \<in> set a)"
    using bv_probe_test_slot [of "BITVEC_HASH i" "i + 1" k a] i by auto
  then show ?case using hash(1) by (simp add: bv_test_loop.simps)
next
  case (sub sz subs n)
  note d = bv_divisor [OF sub(1)]
  have bin: "unat (i div bv_divisor sz) < length subs" using d(4) sub(2,4) by simp
  show ?case
  proof (cases "subs ! unat (i div bv_divisor sz)")
    case None
    then show ?thesis using bin d(2) by (simp add: bv_test_loop.simps Let_def)
  next
    case (Some q)
    then have "Some q \<in> set subs" using bin nth_mem by metis
    then have "bv_test_loop q (i mod bv_divisor sz) = Some (bv_in q (i mod bv_divisor sz))"
      using sub(3) d(5) by auto
    then show ?thesis using Some bin d(2) by (simp add: bv_test_loop.simps [of "Bitvec _ _ _ _"] Let_def)
  qed
qed

section \<open>Setting\<close>

text \<open>\<open>p'\<close> is \<open>p\<close> with the numbers of \<open>I\<close> added when the code is \<open>SQLITE_OK\<close>; after a failed allocation
  numbers may be missing, but none is there that should not be.\<close>

definition bv_added :: "Bitvec \<Rightarrow> u32 set \<Rightarrow> Bitvec \<Rightarrow> int \<Rightarrow> bool" where
  "bv_added p I p' rc \<longleftrightarrow> bv_ok p' \<and> iSize p' = iSize p \<and> (rc = SQLITE_OK \<or> rc = SQLITE_NOMEM) \<and>
     (\<forall>j < iSize p. (bv_in p' j \<longrightarrow> j \<in> I \<or> bv_in p j) \<and> (rc = SQLITE_OK \<longrightarrow> j \<in> I \<or> bv_in p j \<longrightarrow> bv_in p' j))"

lemma rc_or: "rc = SQLITE_OK \<or> rc = SQLITE_NOMEM \<Longrightarrow> r = SQLITE_OK \<or> r = SQLITE_NOMEM \<Longrightarrow>
   (rc OR r = SQLITE_OK \<longleftrightarrow> rc = SQLITE_OK \<and> r = SQLITE_OK) \<and> (rc OR r = SQLITE_OK \<or> rc OR r = SQLITE_NOMEM)"
  by (auto simp: SQLITE_OK_def SQLITE_NOMEM_def)

lemma bv_added_trans:
  "bv_added p I q rc \<Longrightarrow> bv_added q J p' r \<Longrightarrow> bv_added p (I \<union> J) p' (rc OR r)"
  using rc_or [of rc r] unfolding bv_added_def by (metis Un_iff)

lemma bv_added_refl: "bv_ok p \<Longrightarrow> (\<And>j. j \<in> I \<Longrightarrow> j < iSize p \<Longrightarrow> bv_in p j) \<Longrightarrow> bv_added p I p SQLITE_OK"
  by (auto simp: bv_added_def)

abbreviation set_result :: "Bitvec \<Rightarrow> u32 \<Rightarrow> faults \<Rightarrow> Bitvec \<Rightarrow> int \<Rightarrow> faults \<Rightarrow> bool" where
  "set_result p i ms p' rc ms' \<equiv> bv_set_loop p i ms = Some (p', rc, ms') \<and> bv_added p {i} p' rc \<and>
     (no_fault ms \<longrightarrow> rc = SQLITE_OK \<and> no_fault ms')"

lemma eq_by_div_mod:
  assumes "(d :: u32) \<noteq> 0"
  shows "i = j \<longleftrightarrow> unat (i div d) = unat (j div d) \<and> i mod d = j mod d"
  by (metis div_mult_mod_eq word_unat_eq_iff)

lemma bv_set_sub_step:
  assumes "BITVEC_NBIT < unat sz" and "d \<noteq> 0" and "unat (i div d) < length subs"
    and "(case subs ! unat (i div d) of None \<Rightarrow> sqlite3BitvecCreate d ms | Some q \<Rightarrow> (Some q, ms)) = (so, ms1)"
  shows "bv_set_loop (Bitvec sz n d (apSub subs)) i ms =
    (case so of None \<Rightarrow> Some (Bitvec sz n d (apSub subs), SQLITE_NOMEM, ms1)
     | Some q \<Rightarrow> do { (q, rc, ms) \<leftarrow> bv_set_loop q (i mod d) ms1;
         Some (Bitvec sz n d (apSub (subs[unat (i div d) := Some q])), rc, ms) })"
proof -
  have "bv_set_loop (Bitvec sz n d (apSub subs)) i ms =
    (let (sub, ms) = (so, ms1) in
     case sub of None \<Rightarrow> Some (Bitvec sz n d (apSub subs), SQLITE_NOMEM, ms)
     | Some q \<Rightarrow> do { (q, rc, ms) \<leftarrow> bv_set_loop q (i mod d) ms;
         Some (Bitvec sz n d (apSub (subs[unat (i div d) := Some q])), rc, ms) })"
    by (subst bv_set_loop.simps, unfold Bitvec.sel bitvec_union.case assms(4) [symmetric])
      (use assms(1-3) in \<open>simp add: Let_def\<close>)
  then show ?thesis by simp
qed

lemma bv_set_sub:
  assumes ok: "bv_ok (Bitvec sz n d (apSub subs))" and i: "i < sz"
    and IH: "\<And>q i ms. bv_ok q \<Longrightarrow> i < iSize q \<Longrightarrow> unat (iSize q) < unat sz \<Longrightarrow>
      \<exists>q' rc ms'. set_result q i ms q' rc ms'"
  shows "\<exists>subs' rc ms'. set_result (Bitvec sz n d (apSub subs)) i ms (Bitvec sz n d (apSub subs')) rc ms'"
proof -
  have sz: "BITVEC_NBIT < unat sz" and len: "length subs = BITVEC_NPTR" and dd: "d = bv_divisor sz"
    and subs: "\<forall>q. Some q \<in> set subs \<longrightarrow> bv_ok q \<and> iSize q = d"
    using ok by (auto elim: bv_ok_subE)
  note dv = bv_divisor [OF sz, folded dd]
  let ?p = "Bitvec sz n d (apSub subs)" and ?b = "unat (i div d)"
  have bin: "?b < length subs" using dv(4) i len by simp
  define sub where "sub = (case subs ! ?b of None \<Rightarrow> sqlite3BitvecCreate d ms | Some q \<Rightarrow> (Some q, ms))"
  obtain so ms1 where so: "sub = (so, ms1)" by (cases sub)
  have nf: "no_fault ms \<longrightarrow> no_fault ms1 \<and> so \<noteq> None"
  proof (cases "subs ! ?b")
    case None
    then show ?thesis using so by (auto simp: sub_def sqlite3BitvecCreate_def no_fault_alloc split: if_splits)
  next
    case (Some q)
    then have "so = Some q \<and> ms1 = ms" using so by (simp add: sub_def)
    then show ?thesis by simp
  qed
  show ?thesis
  proof (cases so)
    case None
    then have "bv_set_loop ?p i ms = Some (?p, SQLITE_NOMEM, ms1)"
      using bv_set_sub_step [OF sz dv(2) bin so [unfolded sub_def]] by simp
    moreover have "bv_added ?p {i} ?p SQLITE_NOMEM"
      using ok by (simp add: bv_added_def SQLITE_OK_def SQLITE_NOMEM_def)
    ultimately show ?thesis using nf None by blast
  next
    case (Some q)
    have q: "bv_ok q \<and> iSize q = d \<and> (\<forall>j < d. bv_in q j \<longleftrightarrow> (\<exists>s. subs ! ?b = Some s \<and> bv_in s j))"
    proof (cases "subs ! ?b")
      case None
      then have "sqlite3BitvecCreate d ms = (Some q, ms1)" using so Some by (simp add: sub_def)
      then show ?thesis using bv_create_ok None by simp
    next
      case (Some s)
      then have "Some s \<in> set subs" using bin nth_mem by metis
      then show ?thesis using subs Some so \<open>so = Some q\<close> by (simp add: sub_def)
    qed
    then obtain q' rc ms' where q': "set_result q (i mod d) ms1 q' rc ms'"
      using IH [of q "i mod d" ms1] dv(3,5) by auto
    let ?p' = "Bitvec sz n d (apSub (subs[?b := Some q']))"
    have run: "bv_set_loop ?p i ms = Some (?p', rc, ms')"
      using bv_set_sub_step [OF sz dv(2) bin so [unfolded sub_def]] Some q' by simp
    have "bv_ok q' \<and> iSize q' = d" using q q' by (simp add: bv_added_def)
    then have "bv_ok ?p'"
      unfolding dd using sz len subs unfolding dd
      by (intro bv_ok.sub) (auto dest: set_update_subset_insert [THEN subsetD])
    moreover have "(bv_in ?p' j \<longrightarrow> j \<in> {i} \<or> bv_in ?p j) \<and> (rc = SQLITE_OK \<longrightarrow> j \<in> {i} \<or> bv_in ?p j \<longrightarrow> bv_in ?p' j)"
      if "j < sz" for j
    proof (cases "unat (j div d) = ?b")
      case True
      have "bv_in q (j mod d) \<longleftrightarrow> bv_in ?p j" using q dv(5) True by simp
      moreover have "j = i \<longleftrightarrow> j mod d = i mod d" using eq_by_div_mod [OF dv(2), of j i] True by simp
      ultimately show ?thesis using q q' True bin dv(5) by (auto simp: bv_added_def)
    next
      case False
      then show ?thesis by auto
    qed
    ultimately have "bv_added ?p {i} ?p' rc" using q' by (simp add: bv_added_def)
    then show ?thesis using run q' nf by blast
  qed
qed

text \<open>The values of a full hash table go through the array of sub-bitvecs one after the other.\<close>

definition bv_readd :: "u32 \<Rightarrow> Bitvec \<times> int \<times> faults \<Rightarrow> (Bitvec \<times> int \<times> faults) option" where
  "bv_readd = (\<lambda>v (p, rc, ms).
     if v = 0 then Some (p, rc, ms)
     else do {
       check (v \<le> iSize p);
       (p, r, ms) \<leftarrow> bv_set_loop p (v - 1) ms;
       Some (p, rc OR r, ms) })"

lemma pred_less: "(v :: u32) \<noteq> 0 \<Longrightarrow> v \<le> sz \<Longrightarrow> v - 1 < sz"
proof -
  assume "v \<noteq> 0" "v \<le> sz"
  then have "0 < unat v" "unat v \<le> unat sz" by (simp_all add: unat_gt_0 word_le_nat_alt)
  then show "v - 1 < sz" by (simp add: word_less_nat_alt unat_minus_one \<open>v \<noteq> 0\<close>)
qed

lemma bv_readd_spec:
  assumes IH: "\<And>q i ms. bv_ok q \<Longrightarrow> i < iSize q \<Longrightarrow> unat (iSize q) < unat sz \<Longrightarrow>
      \<exists>q' rc ms'. set_result q i ms q' rc ms'"
  shows "bv_ok (Bitvec sz n d (apSub subs)) \<Longrightarrow> \<forall>v \<in> set vs. v \<le> sz \<Longrightarrow> rc = SQLITE_OK \<or> rc = SQLITE_NOMEM \<Longrightarrow>
    \<exists>p' rc' r ms'. foldO bv_readd vs (Bitvec sz n d (apSub subs), rc, ms) = Some (p', rc', ms') \<and>
      rc' = rc OR r \<and> bv_added (Bitvec sz n d (apSub subs)) {i. i + 1 \<in> set vs \<and> i + 1 \<noteq> 0} p' r \<and>
      (no_fault ms \<longrightarrow> r = SQLITE_OK \<and> no_fault ms')"
proof (induction vs arbitrary: subs rc ms)
  case Nil
  then show ?case using bv_added_refl [OF Nil(1), of "{}"]
    by (intro exI [of _ "Bitvec sz n d (apSub subs)"] exI [of _ rc] exI [of _ SQLITE_OK] exI [of _ ms])
      (simp add: SQLITE_OK_def)
next
  case (Cons v vs)
  let ?p = "Bitvec sz n d (apSub subs)"
  show ?case
  proof (cases "v = 0")
    case True
    then have "{i. i + 1 \<in> set (v # vs) \<and> i + 1 \<noteq> 0} = {i. i + 1 \<in> set vs \<and> i + 1 \<noteq> (0 :: u32)}" by auto
    then show ?thesis using Cons.IH [OF Cons.prems(1) _ Cons.prems(3), of ms] Cons.prems(2) True by (simp add: bv_readd_def)
  next
    case False
    then have v: "v - 1 < sz" using Cons.prems(2) by (simp add: pred_less)
    obtain subs1 r1 ms1 where s1: "set_result ?p (v - 1) ms (Bitvec sz n d (apSub subs1)) r1 ms1"
      using bv_set_sub [OF Cons.prems(1) v IH] by blast
    then have r1: "r1 = SQLITE_OK \<or> r1 = SQLITE_NOMEM" by (simp add: bv_added_def)
    have "rc OR r1 = SQLITE_OK \<or> rc OR r1 = SQLITE_NOMEM" using rc_or [OF Cons.prems(3) r1] by blast
    then obtain p' r ms' where s2: "foldO bv_readd vs (Bitvec sz n d (apSub subs1), rc OR r1, ms1) = Some (p', (rc OR r1) OR r, ms')"
      "bv_added (Bitvec sz n d (apSub subs1)) {i. i + 1 \<in> set vs \<and> i + 1 \<noteq> 0} p' r"
      "no_fault ms1 \<longrightarrow> r = SQLITE_OK \<and> no_fault ms'"
      using Cons.IH [of subs1 "rc OR r1" ms1] s1 Cons.prems(2) by (auto simp: bv_added_def)
    have "foldO bv_readd (v # vs) (?p, rc, ms) = Some (p', rc OR (r1 OR r), ms')"
      using s1 s2(1) False Cons.prems(2) by (simp add: or.assoc bv_readd_def)
    moreover have eq: "{i. i + 1 \<in> set (v # vs) \<and> i + 1 \<noteq> 0} = {v - 1} \<union> {i. i + 1 \<in> set vs \<and> i + 1 \<noteq> 0}"
      using False by auto
    have "bv_added ?p {i. i + 1 \<in> set (v # vs) \<and> i + 1 \<noteq> 0} p' (r1 OR r)"
      unfolding eq by (rule bv_added_trans [OF _ s2(2)]) (use s1 in blast)
    moreover have "no_fault ms \<longrightarrow> r1 OR r = SQLITE_OK \<and> no_fault ms'"
      using s1 s2(3) by (simp add: SQLITE_OK_def)
    ultimately show ?thesis
      by (intro exI [of _ p'] exI [of _ "rc OR (r1 OR r)"] exI [of _ "r1 OR r"] exI [of _ ms']) simp
  qed
qed

text \<open>An array of bits in bytes.\<close>

lemma bit_array_set:
  fixes V :: "u8 list"
  assumes "i div 8 < length V"
  shows "bit (V[i div 8 := V ! (i div 8) OR push_bit (i mod 8) 1] ! (j div 8)) (j mod 8) \<longleftrightarrow>
    j = i \<or> bit (V ! (j div 8)) (j mod 8)"
proof (cases "j div 8 = i div 8")
  case True
  then have "j = i \<longleftrightarrow> j mod 8 = i mod 8" by (metis mult_div_mod_eq)
  then show ?thesis using True assms by (auto simp: bit_or_iff bit_exp_iff)
qed auto

lemma bit_array_clear:
  fixes V :: "u8 list"
  assumes "i div 8 < length V"
  shows "bit (V[i div 8 := V ! (i div 8) AND NOT (push_bit (i mod 8) 1)] ! (j div 8)) (j mod 8) \<longleftrightarrow>
    j \<noteq> i \<and> bit (V ! (j div 8)) (j mod 8)"
proof (cases "j div 8 = i div 8")
  case True
  then have "j = i \<longleftrightarrow> j mod 8 = i mod 8" by (metis mult_div_mod_eq)
  then show ?thesis using True assms by (auto simp: bit_and_iff bit_not_iff bit_exp_iff)
qed auto

lemma bv_set_bitmap:
  assumes ok: "bv_ok (Bitvec sz n d (aBitmap b))" and i: "i < sz"
  shows "\<exists>p'. set_result (Bitvec sz n d (aBitmap b)) i ms p' SQLITE_OK ms"
proof -
  have sz: "unat sz \<le> BITVEC_NBIT" "length b = BITVEC_NELEM" "d = 0" using ok by (auto elim: bv_ok_bitmapE)
  have idx: "unat j div 8 < length b" if "j < sz" for j
    using bit_index [of j sz] sz that by (simp add: word_less_nat_alt BITVEC_SZELEM_def)
  let ?b = "b[unat i div 8 := b ! (unat i div 8) OR push_bit (unat i mod 8) 1]"
  have run: "bv_set_loop (Bitvec sz n d (aBitmap b)) i ms = Some (Bitvec sz n d (aBitmap ?b), SQLITE_OK, ms)"
    using sz idx [OF i] by (simp add: bv_set_loop.simps [of "Bitvec _ _ _ (aBitmap _)"] BITVEC_SZELEM_def unat_and_7 Let_def)
  have "bit (?b ! (unat j div 8)) (unat j mod 8) \<longleftrightarrow> j = i \<or> bit (b ! (unat j div 8)) (unat j mod 8)" if "j < sz" for j
    using bit_array_set [OF idx [OF i], of "unat j"] by (simp add: word_unat_eq_iff)
  then have "bv_added (Bitvec sz n d (aBitmap b)) {i} (Bitvec sz n d (aBitmap ?b)) SQLITE_OK"
    using sz by (auto simp: bv_added_def intro!: bv_ok.intros)
  then show ?thesis using run by blast
qed

lemma bv_set_end_ok:
  assumes ok: "bv_ok (Bitvec sz n d (aHash a))" and i: "i < sz" and nin: "i + 1 \<notin> set a"
    and room: "Suc (used a) < N"
    and k: "\<forall>l < k. slot a (BITVEC_HASH i) l \<noteq> 0" "slot a (BITVEC_HASH i) k = 0"
  shows "bv_added (Bitvec sz n d (aHash a)) {i}
    (bv_set_end (Bitvec sz n d (aHash a)) a ((BITVEC_HASH i + k) mod N) (i + 1)) SQLITE_OK"
proof -
  have a: "BITVEC_NBIT < unat sz" "hash_tab a" "\<forall>x \<in> set a. x \<le> sz" "unat n = used a" "d = 0"
    using ok by (auto elim: bv_ok_hashE)
  let ?a = "a[(BITVEC_HASH i + k) mod N := i + 1]"
  have i0: "i + 1 \<noteq> 0" by (rule succ_not_0 [OF i])
  note ins = hash_tab_insert [OF a(2) i0 nin, of k, simplified, OF k]
  have "unat (n + 1) = Suc (unat n)"
    using room a(4) unat_word_ariths(1) [of n 1] by (simp add: BITVEC_NINT_def)
  moreover have "\<forall>x \<in> set ?a. x \<le> sz"
    using a(3) inc_le [OF i] set_update_subset_insert [of a _ "i + 1"] by blast
  ultimately have "bv_ok (Bitvec sz (n + 1) 0 (aHash ?a))"
    using a(1,4) ins(1,2) room by (intro bv_ok.hash) auto
  moreover have "j + 1 \<in> set ?a \<longleftrightarrow> j = i \<or> j + 1 \<in> set a" if "j < sz" for j
    using ins(3) succ_not_0 [OF that] by simp
  ultimately show ?thesis by (simp add: bv_added_def bv_set_end_def a(5))
qed

text \<open>A hash table: the number is found, fits, or the table is split.\<close>

lemma bv_set_hash_step:
  assumes "BITVEC_NBIT < unat sz"
    and "(if a ! BITVEC_HASH i = 0 then Some (Inr (BITVEC_HASH i, unat n < BITVEC_NINT - 1))
          else do {
            r \<leftarrow> bv_probe_set a (BITVEC_HASH i) (i + 1);
            Some (case r of Inl _ \<Rightarrow> Inl () | Inr h \<Rightarrow> Inr (h, False)) }) = Some r"
  shows "bv_set_loop (Bitvec sz n 0 (aHash a)) i ms =
    (case r of
       Inl _ \<Rightarrow> Some (Bitvec sz n 0 (aHash a), SQLITE_OK, ms)
     | Inr (h, room) \<Rightarrow>
         if room \<or> unat n < BITVEC_MXHASH then Some (bv_set_end (Bitvec sz n 0 (aHash a)) a h (i + 1), SQLITE_OK, ms)
         else if \<not> alloc_ok ms then Some (Bitvec sz n 0 (aHash a), SQLITE_NOMEM, tl ms)
         else do {
           check (i + 1 > 0 \<and> i + 1 \<le> sz);
           (p, rc, ms) \<leftarrow> bv_set_loop (Bitvec sz n (bv_divisor sz) (apSub (replicate BITVEC_NPTR None))) i (tl ms);
           foldO bv_readd a (p, rc, ms) })"
proof -
  have "bv_set_loop (Bitvec sz n 0 (aHash a)) i ms = do {
    r \<leftarrow> Some r;
    case r of
       Inl _ \<Rightarrow> Some (Bitvec sz n 0 (aHash a), SQLITE_OK, ms)
     | Inr (h, room) \<Rightarrow>
         if room \<or> unat n < BITVEC_MXHASH then Some (bv_set_end (Bitvec sz n 0 (aHash a)) a h (i + 1), SQLITE_OK, ms)
         else if \<not> alloc_ok ms then Some (Bitvec sz n 0 (aHash a), SQLITE_NOMEM, tl ms)
         else do {
           check (i + 1 > 0 \<and> i + 1 \<le> sz);
           (p, rc, ms) \<leftarrow> bv_set_loop (Bitvec sz n (bv_divisor sz) (apSub (replicate BITVEC_NPTR None))) (i + 1 - 1) (tl ms);
           foldO bv_readd a (p, rc, ms) } }"
    by (subst bv_set_loop.simps, unfold Bitvec.sel bitvec_union.case assms(2) [symmetric] bv_readd_def Let_def)
      (use assms(1) in simp)
  then show ?thesis by (simp only: add_diff_cancel_right' Option.bind.bind_lunit)
qed

lemma bv_set_split:
  assumes ok: "bv_ok (Bitvec sz n 0 (aHash a))" and i: "i < sz"
    and IH: "\<And>q i ms. bv_ok q \<Longrightarrow> i < iSize q \<Longrightarrow> unat (iSize q) < unat sz \<Longrightarrow>
      \<exists>q' rc ms'. set_result q i ms q' rc ms'"
  shows "\<exists>p' rc ms'. do {
      (p, rc, ms) \<leftarrow> bv_set_loop (Bitvec sz n (bv_divisor sz) (apSub (replicate BITVEC_NPTR None))) i ms;
      foldO bv_readd a (p, rc, ms) } = Some (p', rc, ms') \<and>
    bv_added (Bitvec sz n 0 (aHash a)) {i} p' rc \<and> (no_fault ms \<longrightarrow> rc = SQLITE_OK \<and> no_fault ms')"
proof -
  have a: "BITVEC_NBIT < unat sz" "\<forall>x \<in> set a. x \<le> sz" using ok by (auto elim: bv_ok_hashE)
  let ?p = "Bitvec sz n (bv_divisor sz) (apSub (replicate BITVEC_NPTR None))"
  have p: "bv_ok ?p" using a(1) by (intro bv_ok.sub) auto
  obtain subs r1 ms1 where s1: "set_result ?p i ms (Bitvec sz n (bv_divisor sz) (apSub subs)) r1 ms1"
    using bv_set_sub [OF p i IH] by blast
  then have ok1: "bv_ok (Bitvec sz n (bv_divisor sz) (apSub subs))" and r1: "r1 = SQLITE_OK \<or> r1 = SQLITE_NOMEM"
    by (simp_all add: bv_added_def)
  obtain p' r ms' where s2: "foldO bv_readd a (Bitvec sz n (bv_divisor sz) (apSub subs), r1, ms1) = Some (p', r1 OR r, ms')"
    "bv_added (Bitvec sz n (bv_divisor sz) (apSub subs)) {i. i + 1 \<in> set a \<and> i + 1 \<noteq> 0} p' r"
    "no_fault ms1 \<longrightarrow> r = SQLITE_OK \<and> no_fault ms'"
    using bv_readd_spec [OF IH ok1 a(2) r1, of ms1] by blast
  have "bv_added ?p ({i} \<union> {i. i + 1 \<in> set a \<and> i + 1 \<noteq> 0}) p' (r1 OR r)"
    using s1 s2(2) by (intro bv_added_trans) auto
  moreover have "\<not> bv_in ?p j" if "j < sz" for j
    using bv_divisor(4) [OF a(1) that] by simp
  ultimately have "bv_added (Bitvec sz n 0 (aHash a)) {i} p' (r1 OR r)"
    using succ_not_0 by (auto simp: bv_added_def)
  moreover have "no_fault ms \<longrightarrow> r1 OR r = SQLITE_OK \<and> no_fault ms'"
    using s1 s2(3) by (simp add: SQLITE_OK_def)
  ultimately show ?thesis using s1 s2(1) by simp
qed

lemma bv_set_hash:
  assumes ok: "bv_ok (Bitvec sz n d (aHash a))" and i: "i < sz"
    and IH: "\<And>q i ms. bv_ok q \<Longrightarrow> i < iSize q \<Longrightarrow> unat (iSize q) < unat sz \<Longrightarrow>
      \<exists>q' rc ms'. set_result q i ms q' rc ms'"
  shows "\<exists>p' rc ms'. set_result (Bitvec sz n d (aHash a)) i ms p' rc ms'"
proof -
  have a: "BITVEC_NBIT < unat sz" "hash_tab a" "used a < N" "unat n = used a" and d: "d = 0"
    using ok by (auto elim: bv_ok_hashE)
  let ?p = "Bitvec sz n d (aHash a)" and ?h = "BITVEC_HASH i"
  have i0: "i + 1 \<noteq> 0" by (rule succ_not_0 [OF i])
  obtain k where k: "\<forall>l < k. slot a ?h l \<noteq> 0 \<and> slot a ?h l \<noteq> i + 1"
    "slot a ?h k = (if i + 1 \<in> set a then i + 1 else 0)"
    using hash_tab_stop [OF a(2) i0 a(3)] by auto
  show ?thesis
  proof (cases "i + 1 \<in> set a")
    case True
    have nz: "a ! ?h \<noteq> 0" using k True i0 by (cases k) auto
    have "bv_probe_set a ?h (i + 1) = Some (Inl ())"
      using bv_probe_set_slot [OF hash_lt i0 nz, of k] k True by simp
    then have "bv_set_loop ?p i ms = Some (?p, SQLITE_OK, ms)"
      using bv_set_hash_step [OF a(1), of a i n "Inl ()"] nz d by simp
    moreover have "bv_added ?p {i} ?p SQLITE_OK" using ok True by (auto intro: bv_added_refl)
    ultimately show ?thesis by blast
  next
    case False
    let ?j = "(?h + k) mod N"
    obtain room where r: "(if a ! ?h = 0 then Some (Inr (?h, unat n < BITVEC_NINT - 1))
        else do {
          r \<leftarrow> bv_probe_set a ?h (i + 1);
          Some (case r of Inl _ \<Rightarrow> Inl () | Inr h \<Rightarrow> Inr (h, False)) }) = Some (Inr (?j, room))"
      and room: "room \<longrightarrow> unat n < N - 1"
    proof (cases "a ! ?h = 0")
      case True
      have "k = 0"
      proof (rule ccontr)
        assume "k \<noteq> 0"
        then have "slot a ?h 0 \<noteq> 0" using k(1) by blast
        then show False using True by simp
      qed
      then show thesis using that [of "unat n < N - 1"] True by simp
    next
      case nz: False
      have "bv_probe_set a ?h (i + 1) = Some (Inr ?j)"
        using bv_probe_set_slot [OF hash_lt i0 nz, of k] k False i0 by auto
      then show thesis using that [of False] nz by simp
    qed
    show ?thesis
    proof (cases "room \<or> unat n < BITVEC_MXHASH")
      case True
      then have "Suc (used a) < N" using room a(4) by (auto simp: BITVEC_MXHASH_def BITVEC_NINT_def)
      then have "bv_added ?p {i} (bv_set_end ?p a ?j (i + 1)) SQLITE_OK"
        using bv_set_end_ok [OF ok i False] k False by simp
      moreover have "bv_set_loop ?p i ms = Some (bv_set_end ?p a ?j (i + 1), SQLITE_OK, ms)"
        using bv_set_hash_step [OF a(1) r, of ms] True d by simp
      ultimately show ?thesis by blast
    next
      case full: False
      show ?thesis
      proof (cases "alloc_ok ms")
        case True
        have "0 < i + 1 \<and> i + 1 \<le> sz" using i0 inc_le [OF i] by (simp add: word_neq_0_conv)
        then have "bv_set_loop ?p i ms = do {
            (p, rc, ms) \<leftarrow> bv_set_loop (Bitvec sz n (bv_divisor sz) (apSub (replicate BITVEC_NPTR None))) i (tl ms);
            foldO bv_readd a (p, rc, ms) }"
          using bv_set_hash_step [OF a(1) r, of ms] full True d by simp
        then show ?thesis
          using bv_set_split [OF ok [unfolded d] i IH, of "tl ms"] no_fault_alloc(2) [of ms] d by auto
      next
        case False
        then have "bv_set_loop ?p i ms = Some (?p, SQLITE_NOMEM, tl ms)"
          using bv_set_hash_step [OF a(1) r, of ms] full d by simp
        moreover have "bv_added ?p {i} ?p SQLITE_NOMEM"
          using ok by (simp add: bv_added_def SQLITE_OK_def SQLITE_NOMEM_def)
        ultimately show ?thesis using no_fault_alloc(1) [of ms] False by blast
      qed
    qed
  qed
qed

lemma bv_set_loop_spec: "bv_ok p \<Longrightarrow> i < iSize p \<Longrightarrow> \<exists>p' rc ms'. set_result p i ms p' rc ms'"
proof (induction "unat (iSize p)" arbitrary: p i ms rule: less_induct)
  case less
  obtain sz n d un where p: "p = Bitvec sz n d un" by (cases p)
  have IH: "\<exists>q' rc ms'. set_result q i ms q' rc ms'" if "bv_ok q" "i < iSize q" "unat (iSize q) < unat sz" for q i ms
    using less(1) [of q i ms] that by (simp add: p)
  have i: "i < sz" using less(3) by (simp add: p)
  show ?case
  proof (cases un)
    case (aBitmap b)
    then show ?thesis using bv_set_bitmap [of sz n d b i ms] less(2) i by (simp add: p) blast
  next
    case (aHash a)
    then show ?thesis using bv_set_hash [of sz n d a i ms, OF _ i IH] less(2) by (simp add: p)
  next
    case (apSub subs)
    then show ?thesis using bv_set_sub [of sz n d subs i ms, OF _ i IH] less(2) by (simp add: p) blast
  qed
qed

section \<open>Clearing\<close>

definition bv_removed :: "Bitvec \<Rightarrow> u32 \<Rightarrow> Bitvec \<Rightarrow> bool" where
  "bv_removed p i p' \<longleftrightarrow> bv_ok p' \<and> iSize p' = iSize p \<and> (\<forall>j < iSize p. bv_in p' j \<longleftrightarrow> j \<noteq> i \<and> bv_in p j)"

lemma bv_clear_bitmap:
  assumes ok: "bv_ok (Bitvec sz n d (aBitmap b))" and i: "i < sz"
  shows "\<exists>p'. bv_clear_loop (Bitvec sz n d (aBitmap b)) i = Some p' \<and> bv_removed (Bitvec sz n d (aBitmap b)) i p'"
proof -
  have sz: "unat sz \<le> BITVEC_NBIT" "length b = BITVEC_NELEM" "d = 0" using ok by (auto elim: bv_ok_bitmapE)
  have idx: "unat j div 8 < length b" if "j < sz" for j
    using bit_index [of j sz] sz that by (simp add: word_less_nat_alt BITVEC_SZELEM_def)
  let ?b = "b[unat i div 8 := b ! (unat i div 8) AND NOT (push_bit (unat i mod 8) 1)]"
  have run: "bv_clear_loop (Bitvec sz n d (aBitmap b)) i = Some (Bitvec sz n d (aBitmap ?b))"
    using sz idx [OF i] by (simp add: bv_clear_loop.simps [of "Bitvec _ _ _ (aBitmap _)"] BITVEC_SZELEM_def unat_and_7 Let_def)
  have "bit (?b ! (unat j div 8)) (unat j mod 8) \<longleftrightarrow> j \<noteq> i \<and> bit (b ! (unat j div 8)) (unat j mod 8)" if "j < sz" for j
    using bit_array_clear [OF idx [OF i], of "unat j"] by (simp add: word_unat_eq_iff)
  then have "bv_removed (Bitvec sz n d (aBitmap b)) i (Bitvec sz n d (aBitmap ?b))"
    using sz by (auto simp: bv_removed_def intro!: bv_ok.intros)
  then show ?thesis using run by blast
qed

lemma bv_clear_hash:
  assumes ok: "bv_ok (Bitvec sz n d (aHash a))" and i: "i < sz"
  shows "\<exists>p'. bv_clear_loop (Bitvec sz n d (aHash a)) i = Some p' \<and> bv_removed (Bitvec sz n d (aHash a)) i p'"
proof -
  have a: "BITVEC_NBIT < unat sz" "hash_tab a" "used a < N" "\<forall>x \<in> set a. x \<le> sz" and d: "d = 0"
    using ok by (auto elim: bv_ok_hashE)
  obtain b where b: "bv_rehash a i = Some (b, word_of_nat (used b))" "hash_tab b" "used b < N"
    "\<forall>x. x \<noteq> 0 \<longrightarrow> x \<in> set b \<longleftrightarrow> x \<in> set a \<and> x \<noteq> i + 1"
    using bv_rehash_spec [OF a(2,3)] by blast
  let ?p = "Bitvec sz (word_of_nat (used b)) 0 (aHash b)"
  have "bv_clear_loop (Bitvec sz n d (aHash a)) i = Some ?p"
    using a(1) b(1) d by (simp add: bv_clear_loop.simps [of "Bitvec _ _ _ (aHash _)"])
  moreover have "\<forall>x \<in> set b. x \<le> sz"
  proof
    fix x assume "x \<in> set b"
    then show "x \<le> sz" using a(4) b(4) by (cases "x = 0") auto
  qed
  then have "bv_ok ?p"
    using a(1) b(2,3) by (intro bv_ok.hash) (auto simp: unat_of_nat take_bit_eq_mod BITVEC_NINT_def)
  moreover have "j + 1 \<in> set b \<longleftrightarrow> j \<noteq> i \<and> j + 1 \<in> set a" if "j < sz" for j
    using b(4) succ_not_0 [OF that] by auto
  ultimately show ?thesis by (auto simp: bv_removed_def)
qed

lemma bv_clear_sub:
  assumes ok: "bv_ok (Bitvec sz n d (apSub subs))" and i: "i < sz"
    and IH: "\<And>q i. Some q \<in> set subs \<Longrightarrow> i < iSize q \<Longrightarrow> \<exists>q'. bv_clear_loop q i = Some q' \<and> bv_removed q i q'"
  shows "\<exists>p'. bv_clear_loop (Bitvec sz n d (apSub subs)) i = Some p' \<and> bv_removed (Bitvec sz n d (apSub subs)) i p'"
proof -
  have sz: "BITVEC_NBIT < unat sz" and len: "length subs = BITVEC_NPTR" and dd: "d = bv_divisor sz"
    and subs: "\<forall>q. Some q \<in> set subs \<longrightarrow> bv_ok q \<and> iSize q = d"
    using ok by (auto elim: bv_ok_subE)
  note dv = bv_divisor [OF sz, folded dd]
  let ?p = "Bitvec sz n d (apSub subs)" and ?b = "unat (i div d)"
  have bin: "?b < length subs" using dv(4) i len by simp
  show ?thesis
  proof (cases "subs ! ?b")
    case None
    then have "bv_clear_loop ?p i = Some ?p"
      using bin dv(2) by (subst bv_clear_loop.simps) (simp add: Let_def)
    then show ?thesis using ok None by (auto simp: bv_removed_def)
  next
    case (Some q)
    then have qs: "Some q \<in> set subs" using bin nth_mem by metis
    then have q: "bv_ok q" "iSize q = d" using subs by auto
    obtain q' where q': "bv_clear_loop q (i mod d) = Some q'" "bv_removed q (i mod d) q'"
      using IH [OF qs, of "i mod d"] q(2) dv(5) by auto
    let ?p' = "Bitvec sz n d (apSub (subs[?b := Some q']))"
    have "bv_clear_loop ?p i = Some ?p'"
      using bin dv(2) Some q'(1) by (subst bv_clear_loop.simps) (simp add: Let_def)
    moreover have "bv_ok q' \<and> iSize q' = d" using q q' by (simp add: bv_removed_def)
    then have "bv_ok ?p'"
      unfolding dd using sz len subs unfolding dd
      by (intro bv_ok.sub) (auto dest: set_update_subset_insert [THEN subsetD])
    moreover have "bv_in ?p' j \<longleftrightarrow> j \<noteq> i \<and> bv_in ?p j" if "j < sz" for j
    proof (cases "unat (j div d) = ?b")
      case True
      have "j = i \<longleftrightarrow> j mod d = i mod d" using eq_by_div_mod [OF dv(2), of j i] True by simp
      then show ?thesis using q q' True bin dv(5) Some by (auto simp: bv_removed_def)
    next
      case False
      then show ?thesis by auto
    qed
    ultimately show ?thesis by (auto simp: bv_removed_def)
  qed
qed

lemma bv_clear_loop_spec: "bv_ok p \<Longrightarrow> i < iSize p \<Longrightarrow> \<exists>p'. bv_clear_loop p i = Some p' \<and> bv_removed p i p'"
proof (induction arbitrary: i rule: bv_ok.induct)
  case (bitmap sz b n)
  then show ?case by (intro bv_clear_bitmap bv_ok.bitmap) auto
next
  case (hash sz a n)
  then show ?case by (intro bv_clear_hash bv_ok.hash) auto
next
  case (sub sz subs n)
  have "bv_ok (Bitvec sz n (bv_divisor sz) (apSub subs))" using sub by (intro bv_ok.sub) auto
  then show ?case using sub by (intro bv_clear_sub) auto
qed

end
