(* ===== verification/Bitvec_Props.thy ===== *)
theory Bitvec_Props
  imports Bitvec_Spec
begin

text \<open>
  A set of numbers as its clients see it, an interface that the bitvecs of tsrc/bitvec.c provide; the
  self test \<open>sqlite3BitvecBuiltinTest\<close>, a small interpreter that compares a bitvec with a linear array
  of bits; and the properties of the component.
\<close>

section \<open>The interface of a set of numbers\<close>

datatype num_op = Ins u32 | Del u32

primrec op_num :: "num_op \<Rightarrow> u32" where
  "op_num (Ins x) = x" | "op_num (Del x) = x"

primrec num_op_set :: "num_op \<Rightarrow> u32 set \<Rightarrow> u32 set" where
  "num_op_set (Ins x) X = insert x X" | "num_op_set (Del x) X = X - {x}"

locale number_set =
  fixes ok :: "'s \<Rightarrow> bool" and bound :: "'s \<Rightarrow> u32" and elems :: "'s \<Rightarrow> u32 set"
    and test :: "'s \<Rightarrow> u32 \<Rightarrow> bool option" and ins :: "'s \<Rightarrow> u32 \<Rightarrow> 's option" and del :: "'s \<Rightarrow> u32 \<Rightarrow> 's option"
  assumes elems_bound: "ok s \<Longrightarrow> elems s \<subseteq> {0<..bound s}"
    and test_elems: "ok s \<Longrightarrow> test s x = Some (x \<in> elems s)"
    and ins_elems: "ok s \<Longrightarrow> x \<in> {0<..bound s} \<Longrightarrow>
      \<exists>s'. ins s x = Some s' \<and> ok s' \<and> bound s' = bound s \<and> elems s' = insert x (elems s)"
    and del_elems: "ok s \<Longrightarrow> x \<in> {0<..bound s} \<Longrightarrow>
      \<exists>s'. del s x = Some s' \<and> ok s' \<and> bound s' = bound s \<and> elems s' = elems s - {x}"
begin

definition run_op :: "num_op \<Rightarrow> 's \<Rightarrow> 's option" where
  "run_op c s = (case c of Ins x \<Rightarrow> ins s x | Del x \<Rightarrow> del s x)"

lemma run_op_elems:
  assumes "ok s" and "op_num c \<in> {0<..bound s}"
  shows "\<exists>s'. run_op c s = Some s' \<and> ok s' \<and> bound s' = bound s \<and> elems s' = num_op_set c (elems s)"
  using assms ins_elems [of s "op_num c"] del_elems [of s "op_num c"] by (cases c) (simp_all add: run_op_def)

lemma run_elems:
  "ok s \<Longrightarrow> \<forall>c \<in> set cs. op_num c \<in> {0<..bound s} \<Longrightarrow>
   \<exists>s'. foldO run_op cs s = Some s' \<and> ok s' \<and> bound s' = bound s \<and> elems s' = fold num_op_set cs (elems s)"
proof (induction cs arbitrary: s)
  case (Cons c cs)
  obtain s1 where s1: "run_op c s = Some s1" "ok s1" "bound s1 = bound s" "elems s1 = num_op_set c (elems s)"
    using run_op_elems [of s c] Cons.prems by auto
  then show ?case using Cons.IH [of s1] Cons.prems(2) by simp
qed simp

lemma run_test:
  assumes "ok s" and "\<forall>c \<in> set cs. op_num c \<in> {0<..bound s}"
  shows "\<exists>s'. foldO run_op cs s = Some s' \<and> (\<forall>x. test s' x = Some (x \<in> fold num_op_set cs (elems s)))"
  using run_elems [OF assms] test_elems by auto

end

section \<open>Bitvecs as sets of numbers\<close>

definition bv_elems :: "Bitvec \<Rightarrow> u32 set" where
  "bv_elems p = {x. 0 < x \<and> x \<le> iSize p \<and> bv_in p (x - 1)}"

lemma pred_lt_iff: "0 < (x :: u32) \<Longrightarrow> x - 1 < sz \<longleftrightarrow> x \<le> sz"
  using pred_less [of x sz] inc_le [of "x - 1" sz] by (auto simp: word_neq_0_conv)

lemma bv_test_elems:
  assumes "bv_ok p"
  shows "sqlite3BitvecTest (Some p) x = Some (x \<in> bv_elems p)"
proof (cases "x = 0")
  case True
  have "\<not> - 1 < iSize p" by (simp add: word_order.extremum_strict)
  then show ?thesis using True by (simp add: sqlite3BitvecTest_def sqlite3BitvecTestNotNull_def bv_elems_def not_less)
next
  case False
  then have x: "0 < x" by (simp add: word_neq_0_conv)
  show ?thesis
    using pred_lt_iff [OF x, of "iSize p"] bv_test_loop_spec [OF assms, of "x - 1"] x
    by (auto simp: sqlite3BitvecTest_def sqlite3BitvecTestNotNull_def bv_elems_def not_less [symmetric])
qed

lemma bv_set_elems:
  assumes "bv_ok p" and "0 < x" and "x \<le> iSize p"
  shows "\<exists>p' rc ms'. sqlite3BitvecSet (Some p) x ms = Some (Some p', rc, ms') \<and> bv_ok p' \<and> iSize p' = iSize p \<and>
    (rc = SQLITE_OK \<and> bv_elems p' = insert x (bv_elems p) \<or> rc = SQLITE_NOMEM \<and> bv_elems p' \<subseteq> insert x (bv_elems p)) \<and>
    (no_fault ms \<longrightarrow> rc = SQLITE_OK \<and> no_fault ms')"
proof -
  have i: "x - 1 < iSize p" using assms pred_lt_iff by blast
  obtain p' rc ms' where s: "set_result p (x - 1) ms p' rc ms'"
    using bv_set_loop_spec [OF assms(1) i] by blast
  have sz: "iSize p' = iSize p" and rc: "rc = SQLITE_OK \<or> rc = SQLITE_NOMEM" using s by (auto simp: bv_added_def)
  have sub: "bv_elems p' \<subseteq> insert x (bv_elems p)"
  proof
    fix y assume "y \<in> bv_elems p'"
    then show "y \<in> insert x (bv_elems p)"
      using s pred_lt_iff [of y "iSize p"] unfolding bv_added_def bv_elems_def by auto
  qed
  have sup: "insert x (bv_elems p) \<subseteq> bv_elems p'" if "rc = SQLITE_OK"
  proof
    fix y assume "y \<in> insert x (bv_elems p)"
    then show "y \<in> bv_elems p'"
      using s that i assms pred_lt_iff [of y "iSize p"] unfolding bv_added_def bv_elems_def by auto
  qed
  have "rc = SQLITE_OK \<and> bv_elems p' = insert x (bv_elems p) \<or> rc = SQLITE_NOMEM \<and> bv_elems p' \<subseteq> insert x (bv_elems p)"
    using rc sub sup by blast
  moreover have "sqlite3BitvecSet (Some p) x ms = Some (Some p', rc, ms')"
    using s assms by (simp add: sqlite3BitvecSet_def)
  ultimately show ?thesis using s by (auto simp: bv_added_def)
qed

lemma bv_clear_elems:
  assumes "bv_ok p" and "0 < x" and "x \<le> iSize p"
  shows "\<exists>p'. sqlite3BitvecClear (Some p) x = Some (Some p') \<and> bv_ok p' \<and> iSize p' = iSize p \<and>
    bv_elems p' = bv_elems p - {x}"
proof -
  have i: "x - 1 < iSize p" using assms pred_lt_iff by blast
  obtain p' where s: "bv_clear_loop p (x - 1) = Some p'" "bv_removed p (x - 1) p'"
    using bv_clear_loop_spec [OF assms(1) i] by blast
  have "bv_elems p' = bv_elems p - {x}"
  proof (rule set_eqI)
    fix y show "y \<in> bv_elems p' \<longleftrightarrow> y \<in> bv_elems p - {x}"
      using s(2) pred_lt_iff [of y "iSize p"] unfolding bv_removed_def bv_elems_def by auto
  qed
  then show ?thesis using s assms by (auto simp: sqlite3BitvecClear_def bv_removed_def)
qed

text \<open>Setting and clearing with an allocator that does not fail.\<close>

definition bv_ins :: "Bitvec \<Rightarrow> u32 \<Rightarrow> Bitvec option" where
  "bv_ins p x = do { (p, rc, _) \<leftarrow> sqlite3BitvecSet (Some p) x []; if rc = SQLITE_OK then p else None }"

definition bv_del :: "Bitvec \<Rightarrow> u32 \<Rightarrow> Bitvec option" where
  "bv_del p x = Option.bind (sqlite3BitvecClear (Some p) x) id"

interpretation bv: number_set bv_ok iSize bv_elems "\<lambda>p. sqlite3BitvecTest (Some p)" bv_ins bv_del
proof unfold_locales
  show "bv_elems p \<subseteq> {0<..iSize p}" for p by (auto simp: bv_elems_def)
  show "bv_ok p \<Longrightarrow> sqlite3BitvecTest (Some p) x = Some (x \<in> bv_elems p)" for p x by (rule bv_test_elems)
  show "\<exists>s'. bv_ins p x = Some s' \<and> bv_ok s' \<and> iSize s' = iSize p \<and> bv_elems s' = insert x (bv_elems p)"
    if "bv_ok p" "x \<in> {0<..iSize p}" for p x
    using bv_set_elems [OF that(1), of x "[]"] that(2)
    by (auto simp: bv_ins_def no_fault_def SQLITE_OK_def SQLITE_NOMEM_def)
  show "\<exists>s'. bv_del p x = Some s' \<and> bv_ok s' \<and> iSize s' = iSize p \<and> bv_elems s' = bv_elems p - {x}"
    if "bv_ok p" "x \<in> {0<..iSize p}" for p x
    using bv_clear_elems [OF that(1), of x] that(2) by (auto simp: bv_del_def)
qed

text \<open>A client that sets and clears: the run of its operations on a new bitvec for numbers up to \<open>n\<close>.\<close>

definition bv_run :: "u32 \<Rightarrow> num_op list \<Rightarrow> Bitvec option" where
  "bv_run n cs = do {
     p \<leftarrow> fst (sqlite3BitvecCreate n []);
     foldO (\<lambda>c p. case c of Ins x \<Rightarrow> bv_ins p x | Del x \<Rightarrow> bv_del p x) cs p }"

section \<open>Properties\<close>

text \<open>C13: as long as no allocation fails, a bitvec is the set that its history of \<open>sqlite3BitvecSet\<close> and
  \<open>sqlite3BitvecClear\<close> calls describes: after any sequence of them with numbers between 1 and the size,
  \<open>sqlite3BitvecTest\<close> answers true exactly for the members, whatever mixture of bitmaps, hash tables and
  sub-bitvecs represents it, and false for every number out of range.\<close>

theorem bitvec_is_set:
  assumes "\<forall>c \<in> set cs. op_num c \<in> {0<..n}"
  shows "\<exists>p. bv_run n cs = Some p \<and>
    (\<forall>x. sqlite3BitvecTest (Some p) x = Some (x \<in> fold num_op_set cs {}))"
proof -
  obtain p where p: "fst (sqlite3BitvecCreate n []) = Some p"
    by (auto simp: sqlite3BitvecCreate_def alloc_ok_def)
  then have c: "sqlite3BitvecCreate n [] = (Some p, snd (sqlite3BitvecCreate n []))" by (simp add: prod_eq_iff)
  note ok = bv_create_ok [OF c]
  have "bv_elems p = {}" using ok pred_lt_iff by (auto simp: bv_elems_def)
  then have "\<exists>s'. foldO bv.run_op cs p = Some s' \<and> (\<forall>x. sqlite3BitvecTest (Some s') x = Some (x \<in> fold num_op_set cs {}))"
    using bv.run_test [OF ok(1), of cs] assms ok(2) by simp
  moreover have "bv.run_op = (\<lambda>c p. case c of Ins x \<Rightarrow> bv_ins p x | Del x \<Rightarrow> bv_del p x)"
    by (simp add: fun_eq_iff bv.run_op_def)
  ultimately show ?thesis using p by (simp add: bv_run_def)
qed

theorem bitvec_is_set_witness:
  "\<exists>p. bv_run 1000000 [Ins 5, Ins 999999, Del 5] = Some p \<and> sqlite3BitvecTest (Some p) 5 = Some False \<and>
    sqlite3BitvecTest (Some p) 999999 = Some True"
proof -
  obtain p where p: "bv_run 1000000 [Ins 5, Ins 999999, Del 5] = Some p"
    "\<forall>x. sqlite3BitvecTest (Some p) x = Some (x \<in> fold num_op_set [Ins 5, Ins 999999, Del 5] {})"
    using bitvec_is_set [of "[Ins 5, Ins 999999, Del 5]" 1000000] by (auto simp: word_less_nat_alt word_le_nat_alt)
  then show ?thesis by (intro exI [of _ p]) simp
qed

text \<open>C14: \<open>sqlite3BitvecSet\<close> under failing allocations: it always returns, with \<open>SQLITE_OK\<close> or
  \<open>SQLITE_NOMEM\<close>, and leaves a well-formed bitvec. \<open>SQLITE_OK\<close> means that exactly the number was added; after
  \<open>SQLITE_NOMEM\<close> the bitvec holds no number it should not hold.\<close>

theorem bitvec_set_under_faults:
  assumes "bv_ok p" and "0 < x" and "x \<le> iSize p"
  shows "\<exists>p' rc ms'. sqlite3BitvecSet (Some p) x ms = Some (Some p', rc, ms') \<and> bv_ok p' \<and>
    (\<forall>y. \<exists>b b'. sqlite3BitvecTest (Some p) y = Some b \<and> sqlite3BitvecTest (Some p') y = Some b' \<and>
       (rc = SQLITE_OK \<and> b' = (y = x \<or> b) \<or> rc = SQLITE_NOMEM \<and> (b' \<longrightarrow> y = x \<or> b)))"
  using bv_set_elems [OF assms, of ms] bv_test_elems [OF assms(1)] bv_test_elems by fastforce

theorem bitvec_set_under_faults_witness:
  "\<exists>p' rc ms'. sqlite3BitvecSet (fst (sqlite3BitvecCreate 5000 [])) 7 [True] = Some (Some p', rc, ms') \<and> bv_ok p'"
proof -
  let ?p = "Bitvec 5000 0 0 (aHash (replicate BITVEC_NINT 0))"
  have c: "sqlite3BitvecCreate 5000 [] = (Some ?p, [])"
    by (simp add: sqlite3BitvecCreate_def alloc_ok_def BITVEC_NBIT_def BITVEC_NELEM_def BITVEC_SZELEM_def)
  show ?thesis
    using bitvec_set_under_faults [OF bv_create_ok(1) [OF c], of 7 "[True]"] c
    by (auto simp: word_less_nat_alt word_le_nat_alt)
qed

end
