(* ===== verification/Bitvec_Test.thy ===== *)
theory Bitvec_Test
  imports Bitvec_Props
begin

text \<open>
  \<open>sqlite3BitvecBuiltinTest\<close> of tsrc/bitvec.c: an interpreter for programs that set and clear bits both in a
  bitvec and in a linear array. \<open>sqlite3_randomness\<close> is the function \<open>rnd\<close>, the values of successive
  calls; additions on \<open>int\<close> wrap. Reading \<open>aOp\<close> or the array out of bounds has no result.
\<close>

section \<open>The interpreter\<close>

definition SETBIT :: "u8 list \<Rightarrow> nat \<Rightarrow> u8 list option" where
  "SETBIT V i = (if i div 8 < length V then Some (V[i div 8 := V ! (i div 8) OR push_bit (i mod 8) 1]) else None)"

definition CLEARBIT :: "u8 list \<Rightarrow> nat \<Rightarrow> u8 list option" where
  "CLEARBIT V i = (if i div 8 < length V then Some (V[i div 8 := V ! (i div 8) AND NOT (push_bit (i mod 8) 1)]) else None)"

definition TESTBIT :: "u8 list \<Rightarrow> nat \<Rightarrow> bool option" where
  "TESTBIT V i = (if i div 8 < length V then Some (V ! (i div 8) AND push_bit (i mod 8) 1 \<noteq> 0) else None)"

text \<open>The operands of one instruction: the bit before reduction, the length of the instruction, and the
  program and random state after it.\<close>

definition bv_test_operand :: "(nat \<Rightarrow> int) \<Rightarrow> nat \<Rightarrow> int list \<Rightarrow> nat \<Rightarrow> int \<Rightarrow> (int \<times> nat \<times> int list \<times> nat) option" where
  "bv_test_operand rnd pc aOp k opc =
     (if opc = 1 \<or> opc = 2 \<or> opc = 5 then do {
        s \<leftarrow> nth_opt aOp (pc + 2);
        x \<leftarrow> nth_opt aOp (pc + 3);
        Some (c_int (s - 1), 4, aOp[pc + 2 := c_int (s + x)], k) }
      else Some (rnd k, 2, aOp, Suc k))"

partial_function (option) bv_test_run ::
  "(nat \<Rightarrow> int) \<Rightarrow> int \<Rightarrow> nat \<Rightarrow> int list \<Rightarrow> nat \<Rightarrow> Bitvec option \<Rightarrow> u8 list \<Rightarrow> faults \<Rightarrow>
   (Bitvec option \<times> u8 list) option option" where
  "bv_test_run rnd sz pc aOp k pBitvec pV ms = do {
     opc \<leftarrow> nth_opt aOp pc;
     if opc = 0 then Some (Some (pBitvec, pV))
     else do {
       (i, nx, aOp, k) \<leftarrow> bv_test_operand rnd pc aOp k opc;
       n \<leftarrow> nth_opt aOp (pc + 1);
       check (sz \<noteq> 0);
       let aOp = aOp[pc + 1 := c_int (n - 1)];
       let pc = pc + (if c_int (n - 1) > 0 then 0 else nx);
       let i = (i AND 0x7fffffff) smod sz;
       if opc AND 1 \<noteq> 0 then do {
         pV \<leftarrow> SETBIT pV (nat (i + 1));
         if opc \<noteq> 5 then do {
           (pBitvec, rc, ms) \<leftarrow> sqlite3BitvecSet pBitvec (word_of_int (i + 1)) ms;
           if rc \<noteq> 0 then Some None else bv_test_run rnd sz pc aOp k pBitvec pV ms }
         else bv_test_run rnd sz pc aOp k pBitvec pV ms }
       else do {
         pV \<leftarrow> CLEARBIT pV (nat (i + 1));
         pBitvec \<leftarrow> sqlite3BitvecClear pBitvec (word_of_int (i + 1));
         bv_test_run rnd sz pc aOp k pBitvec pV ms } } }"

primrec bv_test_compare :: "Bitvec option \<Rightarrow> u8 list \<Rightarrow> int \<Rightarrow> int list \<Rightarrow> int option" where
  "bv_test_compare p V rc [] = Some rc"
| "bv_test_compare p V rc (i # is) = do {
     v \<leftarrow> TESTBIT V (nat i);
     t \<leftarrow> sqlite3BitvecTest p (word_of_int i);
     if v \<noteq> t then Some i else bv_test_compare p V rc is }"

definition sqlite3BitvecBuiltinTest :: "(nat \<Rightarrow> int) \<Rightarrow> int \<Rightarrow> int list \<Rightarrow> faults \<Rightarrow> int option" where
  "sqlite3BitvecBuiltinTest rnd sz aOp ms =
     (let (pBitvec, ms) = sqlite3BitvecCreate (word_of_int sz) ms;
          (okV, ms) = (alloc_ok ms, tl ms);
          (okT, ms) = (alloc_ok ms, tl ms) in
      if pBitvec = None \<or> \<not> okV \<or> \<not> okT then Some (- 1)
      else do {
        _ \<leftarrow> sqlite3BitvecSet None 1 ms;
        _ \<leftarrow> sqlite3BitvecClear None 1;
        r \<leftarrow> bv_test_run rnd sz 0 aOp 0 pBitvec (replicate (nat ((sz + 7) div 8 + 1)) 0) ms;
        case r of
          None \<Rightarrow> Some (- 1)
        | Some (pBitvec, pV) \<Rightarrow> do {
            t0 \<leftarrow> sqlite3BitvecTest None 0;
            t1 \<leftarrow> sqlite3BitvecTest pBitvec (word_of_int (sz + 1));
            t2 \<leftarrow> sqlite3BitvecTest pBitvec 0;
            p \<leftarrow> pBitvec;
            bv_test_compare pBitvec pV
              (c_int (of_bool t0 + of_bool t1 + of_bool t2 + (uint (sqlite3BitvecSize p) - sz))) [1..sz] } })"

section \<open>Programs\<close>

text \<open>A program that halts and does not use opcode 5, which makes the array differ on purpose.\<close>

fun prog_ok :: "int list \<Rightarrow> bool" where
  "prog_ok [] = False"
| "prog_ok (opc # ops) = (opc = 0 \<or> opc \<noteq> 5 \<and>
     (if opc = 1 \<or> opc = 2 then 3 \<le> length ops \<and> prog_ok (drop 3 ops) else 1 \<le> length ops \<and> prog_ok (drop 1 ops)))"

lemma c_int_pred: "c_int (n - 1) > 0 \<Longrightarrow> nat ((c_int (n - 1) - 1) mod 2 ^ 32) < nat ((n - 1) mod 2 ^ 32)"
proof -
  assume p: "c_int (n - 1) > 0"
  have "c_int (n - 1) < 2 ^ 31" using signed_take_bit_int_less_exp [of 31 "n - 1"] by (simp add: c_int_def)
  moreover have "c_int (n - 1) mod 2 ^ 32 = (n - 1) mod 2 ^ 32"
    using take_bit_signed_take_bit [of 32 31 "n - 1"] by (simp add: c_int_def take_bit_eq_mod)
  ultimately show ?thesis using p by simp
qed

text \<open>Both the array and the bitvec hold the same numbers.\<close>

definition same_bits :: "int \<Rightarrow> Bitvec \<Rightarrow> u8 list \<Rightarrow> bool" where
  "same_bits sz p V \<longleftrightarrow> bv_ok p \<and> iSize p = word_of_int sz \<and> length V = nat ((sz + 7) div 8 + 1) \<and>
     (\<forall>i. 1 \<le> i \<and> i \<le> sz \<longrightarrow> (bit (V ! (nat i div 8)) (nat i mod 8) \<longleftrightarrow> word_of_int i \<in> bv_elems p))"

lemma TESTBIT_bit: "i div 8 < length V \<Longrightarrow> TESTBIT V i = Some (bit (V ! (i div 8)) (i mod 8))"
  by (simp add: TESTBIT_def and_bit del: push_bit_of_1)

lemma same_bits_idx:
  assumes "same_bits sz p V" and "1 \<le> i" and "i \<le> sz" and "sz < 2 ^ 31"
  shows "nat i div 8 < length V" and "0 < (word_of_int i :: u32)" and "(word_of_int i :: u32) \<le> iSize p"
proof -
  have "nat i div 8 = nat (i div 8)" using assms(2) by (simp add: nat_div_distrib)
  moreover have "i div 8 < (sz + 7) div 8 + 1" "0 \<le> i div 8" using assms(2,3) by linarith+
  ultimately show "nat i div 8 < length V" using assms(1) by (simp add: same_bits_def)
  show "0 < (word_of_int i :: u32)" using assms(2-4) by (simp add: word_less_alt uint_word_of_int)
  show "(word_of_int i :: u32) \<le> iSize p" using assms by (simp add: same_bits_def word_le_def uint_word_of_int)
qed

lemma word_of_int_eq:
  assumes "1 \<le> i" and "i \<le> sz" and "1 \<le> j" and "j \<le> sz" and "sz < 2 ^ 31"
  shows "(word_of_int i :: u32) = word_of_int j \<longleftrightarrow> i = j"
  using assms by (simp add: word_uint_eq_iff uint_word_of_int)

lemma same_bits_set:
  assumes "same_bits sz p V" and "1 \<le> i" and "i \<le> sz" and "sz < 2 ^ 31" and "no_fault ms"
  shows "\<exists>V' p' ms'. SETBIT V (nat i) = Some V' \<and>
    sqlite3BitvecSet (Some p) (word_of_int i) ms = Some (Some p', 0, ms') \<and> same_bits sz p' V' \<and> no_fault ms'"
proof -
  note idx = same_bits_idx [OF assms(1-4)]
  let ?V = "V[nat i div 8 := V ! (nat i div 8) OR push_bit (nat i mod 8) 1]"
  obtain p' ms' where p': "sqlite3BitvecSet (Some p) (word_of_int i) ms = Some (Some p', 0, ms')" "bv_ok p'"
    "iSize p' = iSize p" "bv_elems p' = insert (word_of_int i) (bv_elems p)" "no_fault ms'"
    using bv_set_elems [OF _ idx(2,3), of ms] assms(1,5) by (auto simp: same_bits_def SQLITE_OK_def SQLITE_NOMEM_def)
  have "bit (?V ! (nat j div 8)) (nat j mod 8) \<longleftrightarrow> word_of_int j \<in> bv_elems p'" if "1 \<le> j" "j \<le> sz" for j
    using bit_array_set [OF idx(1), of "nat j"] assms that word_of_int_eq [OF that assms(2,3,4)]
    by (simp add: p'(4) same_bits_def eq_nat_nat_iff)
  then have "same_bits sz p' ?V" using p' assms(1) by (simp add: same_bits_def)
  then show ?thesis using p' idx(1) by (auto simp: SETBIT_def)
qed

lemma same_bits_clear:
  assumes "same_bits sz p V" and "1 \<le> i" and "i \<le> sz" and "sz < 2 ^ 31"
  shows "\<exists>V' p'. CLEARBIT V (nat i) = Some V' \<and>
    sqlite3BitvecClear (Some p) (word_of_int i) = Some (Some p') \<and> same_bits sz p' V'"
proof -
  note idx = same_bits_idx [OF assms(1-4)]
  let ?V = "V[nat i div 8 := V ! (nat i div 8) AND NOT (push_bit (nat i mod 8) 1)]"
  obtain p' where p': "sqlite3BitvecClear (Some p) (word_of_int i) = Some (Some p')" "bv_ok p'"
    "iSize p' = iSize p" "bv_elems p' = bv_elems p - {word_of_int i}"
    using bv_clear_elems [OF _ idx(2,3)] assms(1) by (auto simp: same_bits_def)
  have "bit (?V ! (nat j div 8)) (nat j mod 8) \<longleftrightarrow> word_of_int j \<in> bv_elems p'" if "1 \<le> j" "j \<le> sz" for j
    using bit_array_clear [OF idx(1), of "nat j"] assms that word_of_int_eq [OF that assms(2,3,4)]
    by (auto simp: p'(4) same_bits_def eq_nat_nat_iff)
  then have "same_bits sz p' ?V" using p' assms(1) by (simp add: same_bits_def)
  then show ?thesis using p' idx(1) by (auto simp: CLEARBIT_def)
qed

lemma reduced_bit:
  assumes "0 < sz"
  shows "1 \<le> (i AND 0x7fffffff) smod sz + 1" and "(i AND 0x7fffffff) smod sz + 1 \<le> (sz :: int)"
proof -
  have "(i AND 0x7fffffff) smod sz = (i AND 0x7fffffff) mod sz" using assms by (simp add: smod_pos)
  moreover have "0 \<le> (i AND 0x7fffffff) mod sz" "(i AND 0x7fffffff) mod sz < sz"
    using assms by (simp_all add: pos_mod_bound)
  ultimately show "1 \<le> (i AND 0x7fffffff) smod sz + 1" "(i AND 0x7fffffff) smod sz + 1 \<le> sz" by linarith+
qed

text \<open>What one instruction leaves of the program: the instruction with a smaller count, or the next one.\<close>

lemma prog_ok_at:
  assumes "pc < length a"
  shows "prog_ok (drop pc a) \<longleftrightarrow> a ! pc = 0 \<or> a ! pc \<noteq> 5 \<and>
    (if a ! pc = 1 \<or> a ! pc = 2 then pc + 4 \<le> length a \<and> prog_ok (drop (pc + 4) a)
     else pc + 2 \<le> length a \<and> prog_ok (drop (pc + 2) a))"
proof -
  have "drop pc a = a ! pc # drop (Suc pc) a" using assms by (simp add: Cons_nth_drop_Suc)
  then show ?thesis using assms by (auto simp: add.commute)
qed

definition prog_size :: "nat \<Rightarrow> int list \<Rightarrow> nat" where
  "prog_size pc a = (length a - pc) * 2 ^ 32 + nat ((a ! (pc + 1) - 1) mod 2 ^ 32)"

lemma prog_size_next: "pc < pc' \<Longrightarrow> pc < length a \<Longrightarrow> length b = length a \<Longrightarrow> prog_size pc' b < prog_size pc a"
proof -
  assume "pc < pc'" "pc < length a" "length b = length a"
  then have "Suc (length b - pc') \<le> length a - pc" by linarith
  then have "Suc (length b - pc') * 2 ^ 32 \<le> (length a - pc) * 2 ^ 32" by (rule mult_le_mono1)
  moreover have "nat ((b ! (pc' + 1) - 1) mod 2 ^ 32) < 2 ^ 32"
    using pos_mod_bound [of "2 ^ 32 :: int" "b ! (pc' + 1) - 1"] by (simp add: nat_less_iff)
  ultimately show ?thesis by (simp add: prog_size_def)
qed

lemma prog_step:
  assumes "prog_ok (drop pc aOp)" and "aOp ! pc \<noteq> 0" and "pc < length aOp"
  obtains i nx ops k' n where "bv_test_operand rnd pc aOp k (aOp ! pc) = Some (i, nx, ops, k')"
    and "nth_opt ops (pc + 1) = Some n"
    and "prog_ok (drop (pc + (if c_int (n - 1) > 0 then 0 else nx)) (ops[pc + 1 := c_int (n - 1)]))"
    and "prog_size (pc + (if c_int (n - 1) > 0 then 0 else nx)) (ops[pc + 1 := c_int (n - 1)]) < prog_size pc aOp"
proof -
  have a: "aOp ! pc \<noteq> 5"
    "if aOp ! pc = 1 \<or> aOp ! pc = 2 then pc + 4 \<le> length aOp \<and> prog_ok (drop (pc + 4) aOp)
     else pc + 2 \<le> length aOp \<and> prog_ok (drop (pc + 2) aOp)"
    using assms prog_ok_at by auto
  obtain i nx ops k' where o: "bv_test_operand rnd pc aOp k (aOp ! pc) = Some (i, nx, ops, k')"
    "nx = (if aOp ! pc = 1 \<or> aOp ! pc = 2 then 4 else 2)" "length ops = length aOp"
    "drop (pc + nx) ops = drop (pc + nx) aOp" "ops ! pc = aOp ! pc" "ops ! (pc + 1) = aOp ! (pc + 1)"
  proof (cases "aOp ! pc = 1 \<or> aOp ! pc = 2")
    case True
    then have "pc + 4 \<le> length aOp" using a(2) by simp
    then have "bv_test_operand rnd pc aOp k (aOp ! pc) =
        Some (c_int (aOp ! (pc + 2) - 1), 4, aOp[pc + 2 := c_int (aOp ! (pc + 2) + aOp ! (pc + 3))], k)"
      using True by (simp add: bv_test_operand_def nth_opt_def disj_assoc [symmetric])
    then show thesis by (rule that) (use True in simp_all)
  next
    case False
    then have "bv_test_operand rnd pc aOp k (aOp ! pc) = Some (rnd k, 2, aOp, Suc k)"
      using a(1) by (simp add: bv_test_operand_def)
    then show thesis by (rule that) (use False in simp_all)
  qed
  let ?n = "aOp ! (pc + 1)"
  let ?ops = "ops[pc + 1 := c_int (?n - 1)]"
  have len: "pc + nx \<le> length aOp" "1 < nx" using a(2) o(2) by (simp_all split: if_splits)
  have drop: "drop (pc + nx) ?ops = drop (pc + nx) aOp" using o(4) len(2) by simp
  have "nth_opt ops (pc + 1) = Some ?n" using o(3,6) len by (simp add: nth_opt_def)
  moreover have "prog_ok (drop (pc + (if c_int (?n - 1) > 0 then 0 else nx)) ?ops)"
  proof (cases "c_int (?n - 1) > 0")
    case True
    have "prog_ok (drop pc ?ops)"
      using prog_ok_at [of pc ?ops] a o(2,3,5) drop assms(3) by (auto split: if_splits)
    then show ?thesis using True by simp
  next
    case False
    then show ?thesis using a(2) o(2) drop by (auto split: if_splits)
  qed
  moreover have "prog_size (pc + (if c_int (?n - 1) > 0 then 0 else nx)) ?ops < prog_size pc aOp"
  proof (cases "c_int (?n - 1) > 0")
    case True
    then show ?thesis using c_int_pred [OF True] o(3) len by (simp add: prog_size_def)
  next
    case False
    then show ?thesis using prog_size_next [of pc "pc + nx" aOp ?ops] o(3) len assms(3) by simp
  qed
  ultimately show thesis by (rule that [OF o(1)])
qed

lemma bv_test_run_spec:
  "same_bits sz p V \<Longrightarrow> 0 < sz \<Longrightarrow> sz < 2 ^ 31 \<Longrightarrow> no_fault ms \<Longrightarrow> prog_ok (drop pc aOp) \<Longrightarrow>
   \<exists>p' V'. bv_test_run rnd sz pc aOp k (Some p) V ms = Some (Some (Some p', V')) \<and> same_bits sz p' V'"
proof (induction "prog_size pc aOp" arbitrary: pc aOp k p V ms rule: less_induct)
  case less
  have pc: "pc < length aOp" using less.prems(5) by (cases "pc < length aOp") auto
  then have op: "nth_opt aOp pc = Some (aOp ! pc)" by (simp add: nth_opt_def)
  show ?case
  proof (cases "aOp ! pc = 0")
    case True
    then show ?thesis using op less.prems(1) by (subst bv_test_run.simps) simp
  next
    case nz: False
    obtain i nx ops k' n where s: "bv_test_operand rnd pc aOp k (aOp ! pc) = Some (i, nx, ops, k')"
      "nth_opt ops (pc + 1) = Some n"
      "prog_ok (drop (pc + (if c_int (n - 1) > 0 then 0 else nx)) (ops[pc + 1 := c_int (n - 1)]))"
      "prog_size (pc + (if c_int (n - 1) > 0 then 0 else nx)) (ops[pc + 1 := c_int (n - 1)]) < prog_size pc aOp"
      using prog_step [OF less.prems(5) nz pc] by blast
    define pc1 where pc1: "pc1 = pc + (if c_int (n - 1) > 0 then 0 else nx)"
    define ops1 where ops1: "ops1 = ops[pc + 1 := c_int (n - 1)]"
    define j where j: "j = (i AND 0x7fffffff) smod sz + 1"
    have jr: "1 \<le> j" "j \<le> sz" using reduced_bit [OF less.prems(2), of i] by (simp_all add: j)
    have n5: "aOp ! pc \<noteq> 5" using prog_ok_at [OF pc] less.prems(5) nz by simp
    have run: "bv_test_run rnd sz pc aOp k (Some p) V ms =
      (if aOp ! pc AND 1 \<noteq> 0 then do {
         pV \<leftarrow> SETBIT V (nat j);
         (q, rc, ms) \<leftarrow> sqlite3BitvecSet (Some p) (word_of_int j) ms;
         if rc \<noteq> 0 then Some None else bv_test_run rnd sz pc1 ops1 k' q pV ms }
       else do {
         pV \<leftarrow> CLEARBIT V (nat j);
         q \<leftarrow> sqlite3BitvecClear (Some p) (word_of_int j);
         bv_test_run rnd sz pc1 ops1 k' q pV ms })"
      using op nz s(1,2) n5 less.prems(2) by (subst bv_test_run.simps) (simp add: pc1 ops1 j Let_def del: of_int_add split del: if_split cong: if_cong)
    note IH = less.hyps [of pc1 ops1, OF _ _ less.prems(2,3)]
    show ?thesis
    proof (cases "aOp ! pc AND 1 \<noteq> 0")
      case True
      obtain V1 p1 ms1 where q: "SETBIT V (nat j) = Some V1"
        "sqlite3BitvecSet (Some p) (word_of_int j) ms = Some (Some p1, 0, ms1)" "same_bits sz p1 V1" "no_fault ms1"
        using same_bits_set [OF less.prems(1) jr less.prems(3,4)] by blast
      then show ?thesis using IH [of p1 V1 ms1 k'] s(3,4) True run by (simp add: pc1 ops1)
    next
      case False
      obtain V1 p1 where q: "CLEARBIT V (nat j) = Some V1"
        "sqlite3BitvecClear (Some p) (word_of_int j) = Some (Some p1)" "same_bits sz p1 V1"
        using same_bits_clear [OF less.prems(1) jr less.prems(3)] by blast
      then show ?thesis using IH [of p1 V1 ms k'] s(3,4) False run less.prems(4) by (simp add: pc1 ops1)
    qed
  qed
qed

lemma bv_test_compare_spec:
  assumes "same_bits sz p V" and "sz < 2 ^ 31"
  shows "\<forall>i \<in> set is. 1 \<le> i \<and> i \<le> sz \<Longrightarrow> bv_test_compare (Some p) V rc is = Some rc"
proof (induction "is")
  case (Cons i "is")
  then have i: "1 \<le> i" "i \<le> sz" by simp_all
  have "TESTBIT V (nat i) = Some (word_of_int i \<in> bv_elems p)"
    using TESTBIT_bit [OF same_bits_idx(1) [OF assms(1) i assms(2)]] assms(1) i by (simp add: same_bits_def)
  then show ?case
    using bv_test_elems [of p "word_of_int i"] assms(1) Cons by (simp add: same_bits_def)
qed simp

lemma same_bits_init:
  assumes "sqlite3BitvecCreate (word_of_int sz) ms = (Some p, ms')" and "0 < sz" and "sz < 2 ^ 31"
  shows "same_bits sz p (replicate (nat ((sz + 7) div 8 + 1)) 0)"
proof -
  note ok = bv_create_ok [OF assms(1)]
  have "bv_elems p = {}" using ok pred_lt_iff by (auto simp: bv_elems_def)
  moreover have "nat i div 8 < nat ((sz + 7) div 8 + 1)" if "1 \<le> i" "i \<le> sz" for i
  proof -
    have "nat i div 8 = nat (i div 8)" using that(1) by (simp add: nat_div_distrib)
    moreover have "i div 8 < (sz + 7) div 8 + 1" "0 \<le> i div 8" using that by linarith+
    ultimately show ?thesis by simp
  qed
  ultimately show ?thesis using ok by (simp add: same_bits_def)
qed

section \<open>Property\<close>

text \<open>C15: the self test of the component passes. For every size and every program that halts and does not use
  the fault-inducing opcode 5, whatever numbers the random source delivers, \<open>sqlite3BitvecBuiltinTest\<close> ends and
  returns 0 when no allocation fails: the bitvec agrees with the linear array of bits.\<close>

theorem bitvec_builtin_test_passes:
  assumes "0 < sz" and "sz \<le> 2 ^ 31 - 8" and "prog_ok aOp"
  shows "sqlite3BitvecBuiltinTest rnd sz aOp [] = Some 0"
proof -
  obtain p where c: "sqlite3BitvecCreate (word_of_int sz) [] = (Some p, [])"
    by (auto simp: sqlite3BitvecCreate_def alloc_ok_def)
  have sz: "sz < 2 ^ 31" using assms(2) by simp
  have b: "same_bits sz p (replicate (nat ((sz + 7) div 8 + 1)) 0)" by (rule same_bits_init [OF c assms(1) sz])
  obtain p' V' where r: "bv_test_run rnd sz 0 aOp 0 (Some p) (replicate (nat ((sz + 7) div 8 + 1)) 0) [] =
      Some (Some (Some p', V'))" "same_bits sz p' V'"
    using bv_test_run_spec [OF b assms(1) sz, of "[]" 0 aOp rnd 0] assms(3) by (auto simp: no_fault_def)
  then have p': "bv_ok p'" "iSize p' = word_of_int sz" by (simp_all add: same_bits_def)
  have u: "uint (word_of_int sz :: u32) = sz" using assms by (simp add: uint_word_of_int)
  have "\<not> (word_of_int (sz + 1) :: u32) \<le> word_of_int sz"
    using assms by (simp add: word_le_def uint_word_of_int del: of_int_add)
  then have "word_of_int (sz + 1) \<notin> bv_elems p'" "0 \<notin> bv_elems p'"
    using p'(2) by (simp_all add: bv_elems_def)
  then have "sqlite3BitvecTest (Some p') (word_of_int (sz + 1)) = Some False" "sqlite3BitvecTest (Some p') 0 = Some False"
    using bv_test_elems [OF p'(1)] by simp_all
  moreover have "bv_test_compare (Some p') V' 0 [1..sz] = Some 0"
    by (rule bv_test_compare_spec [OF r(2) sz]) simp
  ultimately show ?thesis
    using c r p'(2) u by (simp add: sqlite3BitvecBuiltinTest_def alloc_ok_def sqlite3BitvecSet_def sqlite3BitvecClear_def
      sqlite3BitvecTest_def sqlite3BitvecSize_def del: of_int_add)
qed

theorem bitvec_builtin_test_passes_witness:
  "sqlite3BitvecBuiltinTest (\<lambda>k. 17 * int k) 5000 [1, 200, 1, 13, 2, 50, 1, 26, 3, 10, 0] [] = Some 0"
  by (rule bitvec_builtin_test_passes) simp_all

end
