(* ===== verification/Complete.thy ===== *)
theory Complete
  imports Ctype
begin

text \<open>
  tsrc/complete.c: does a text end at the end of an SQL statement? A pointer into the zero-terminated text is
  the list of the bytes that are still ahead; \<open>peek\<close> reads at an offset, and the terminator is read as 0.
  The build has triggers and EXPLAIN.
\<close>

datatype token = tkSEMI | tkWS | tkOTHER | tkEXPLAIN | tkCREATE | tkTEMP | tkTRIGGER | tkEND

fun token_code :: "token \<Rightarrow> nat" where
  "token_code tkSEMI = 0"
| "token_code tkWS = 1"
| "token_code tkOTHER = 2"
| "token_code tkEXPLAIN = 3"
| "token_code tkCREATE = 4"
| "token_code tkTEMP = 5"
| "token_code tkTRIGGER = 6"
| "token_code tkEND = 7"

definition complete_trans :: "nat list list" where
  "complete_trans = [
     [1, 0, 2, 3, 4, 2, 2, 2],
     [1, 1, 2, 3, 4, 2, 2, 2],
     [1, 2, 2, 2, 2, 2, 2, 2],
     [1, 3, 3, 2, 4, 2, 2, 2],
     [1, 4, 2, 2, 2, 4, 5, 2],
     [6, 5, 5, 5, 5, 5, 5, 5],
     [6, 6, 5, 5, 5, 5, 5, 7],
     [1, 7, 5, 5, 5, 5, 5, 5]]"

section \<open>Tokens\<close>

definition peek :: "u8 list \<Rightarrow> nat \<Rightarrow> u8 option" where
  "peek z i = c_at z i"

text \<open>The inner loops: to the end of a C comment, to a given character, and over an identifier. Each gives the new pointer
  or the number of characters.\<close>

partial_function (option) comment_end :: "u8 list \<Rightarrow> u8 list option" where
  "comment_end z = do {
     c0 \<leftarrow> peek z 0;
     if c0 = 0 then Some z
     else if c0 \<noteq> ch CHR ''*'' then comment_end (tl z)
     else do {
       c1 \<leftarrow> peek z 1;
       if c1 \<noteq> ch CHR ''/'' then comment_end (tl z) else Some z } }"

partial_function (option) find_char :: "u8 \<Rightarrow> u8 list \<Rightarrow> u8 list option" where
  "find_char q z = do {
     c \<leftarrow> peek z 0;
     if c \<noteq> 0 \<and> c \<noteq> q then find_char q (tl z) else Some z }"

partial_function (option) id_length :: "u8 list \<Rightarrow> nat \<Rightarrow> nat option" where
  "id_length z nId = do {
     c \<leftarrow> peek z nId;
     if IdChar c then id_length z (nId + 1) else Some nId }"

definition keyword_is :: "u8 list \<Rightarrow> nat \<Rightarrow> string \<Rightarrow> bool option" where
  "keyword_is z nId kw =
     (if nId = length kw then do {
        r \<leftarrow> sqlite3_strnicmp (Some z) (Some (chs kw)) (int nId);
        Some (r = 0) }
      else Some False)"

text \<open>The keywords; \<open>c\<close> is the first character.\<close>

definition id_token :: "u8 list \<Rightarrow> u8 \<Rightarrow> nat \<Rightarrow> token option" where
  "id_token z c nId =
     (if c = ch CHR ''c'' \<or> c = ch CHR ''C'' then do {
        k \<leftarrow> keyword_is z nId ''create'';
        Some (if k then tkCREATE else tkOTHER) }
      else if c = ch CHR ''t'' \<or> c = ch CHR ''T'' then do {
        k \<leftarrow> keyword_is z nId ''trigger'';
        if k then Some tkTRIGGER else do {
        k \<leftarrow> keyword_is z nId ''temp'';
        if k then Some tkTEMP else do {
        k \<leftarrow> keyword_is z nId ''temporary'';
        Some (if k then tkTEMP else tkOTHER) } } }
      else if c = ch CHR ''e'' \<or> c = ch CHR ''E'' then do {
        k \<leftarrow> keyword_is z nId ''end'';
        if k then Some tkEND else do {
        k \<leftarrow> keyword_is z nId ''explain'';
        Some (if k then tkEXPLAIN else tkOTHER) } }
      else Some tkOTHER)"

text \<open>One \<open>switch\<close>: \<open>Inl r\<close> returns \<open>r\<close> at once, \<open>Inr (token, z)\<close> goes on with \<open>z\<close> at the last character of the token.
  The character is compared as a \<open>char\<close>; all labels are ASCII.\<close>

definition complete_token :: "nat \<Rightarrow> u8 list \<Rightarrow> (int + token \<times> u8 list) option" where
  "complete_token state zSql = do {
     c \<leftarrow> peek zSql 0;
     if c = ch CHR '';'' then Some (Inr (tkSEMI, zSql))
     else if c = 32 \<or> c = 13 \<or> c = 9 \<or> c = 10 \<or> c = 12 then Some (Inr (tkWS, zSql))
     else if c = ch CHR ''/'' then do {
       c1 \<leftarrow> peek zSql 1;
       if c1 \<noteq> ch CHR ''*'' then Some (Inr (tkOTHER, zSql))
       else do {
         z \<leftarrow> comment_end (drop 2 zSql);
         c0 \<leftarrow> peek z 0;
         Some (if c0 = 0 then Inl 0 else Inr (tkWS, tl z)) } }
     else if c = ch CHR ''-'' then do {
       c1 \<leftarrow> peek zSql 1;
       if c1 \<noteq> ch CHR ''-'' then Some (Inr (tkOTHER, zSql))
       else do {
         z \<leftarrow> find_char 10 zSql;
         c0 \<leftarrow> peek z 0;
         Some (if c0 = 0 then Inl (if state = 1 then 1 else 0) else Inr (tkWS, z)) } }
     else if c = ch CHR ''['' then do {
       z \<leftarrow> find_char (ch CHR '']'') (tl zSql);
       c0 \<leftarrow> peek z 0;
       Some (if c0 = 0 then Inl 0 else Inr (tkOTHER, z)) }
     else if c = 96 \<or> c = 34 \<or> c = 39 then do {
       z \<leftarrow> find_char c (tl zSql);
       c0 \<leftarrow> peek z 0;
       Some (if c0 = 0 then Inl 0 else Inr (tkOTHER, z)) }
     else if IdChar c then do {
       nId \<leftarrow> id_length zSql 1;
       t \<leftarrow> id_token zSql c nId;
       Some (Inr (t, drop (nId - 1) zSql)) }
     else Some (Inr (tkOTHER, zSql)) }"

partial_function (option) complete_loop :: "nat \<Rightarrow> u8 list \<Rightarrow> int option" where
  "complete_loop state zSql = do {
     c \<leftarrow> peek zSql 0;
     if c \<noteq> 0 then do {
       r \<leftarrow> complete_token state zSql;
       (case r of Inl rc \<Rightarrow> Some rc
        | Inr (token, z) \<Rightarrow> do {
            row \<leftarrow> nth_opt complete_trans state;
            state \<leftarrow> nth_opt row (token_code token);
            complete_loop state (tl z) }) }
     else Some (if state = 1 then 1 else 0) }"

definition sqlite3_complete :: "u8 list \<Rightarrow> int option" where
  "sqlite3_complete zSql = complete_loop 0 zSql"

end
