(* ===== verification/Complete_Lex.thy ===== *)
theory Complete_Lex
  imports Complete
begin

text \<open>
  The words of a text as sqlite3_complete sees them, described without its code: how comments, quoted names,
  keywords, other words and single characters look. The scanner of tsrc/complete.c is shown to find exactly
  these.
\<close>

section \<open>A lexical grammar\<close>

text \<open>The letters of names and keywords, and letters without case.\<close>

definition word_char :: "u8 \<Rightarrow> bool" where
  "word_char c \<longleftrightarrow> 48 \<le> c \<and> c \<le> 57 \<or> 65 \<le> c \<and> c \<le> 90 \<or> 97 \<le> c \<and> c \<le> 122 \<or> c = 36 \<or> c = 95 \<or> 128 \<le> c"

definition lower :: "u8 \<Rightarrow> u8" where
  "lower c = (if 65 \<le> c \<and> c \<le> 90 then c + 32 else c)"

definition word_token :: "u8 list \<Rightarrow> token" where
  "word_token w =
     (let l = map lower w in
      if l = chs ''create'' then tkCREATE
      else if l = chs ''trigger'' then tkTRIGGER
      else if l = chs ''temp'' \<or> l = chs ''temporary'' then tkTEMP
      else if l = chs ''end'' then tkEND
      else if l = chs ''explain'' then tkEXPLAIN
      else tkOTHER)"

text \<open>The character that closes a quoted name or string.\<close>

fun closing :: "u8 \<Rightarrow> u8 option" where
  "closing c = (if c = ch CHR ''['' then Some (ch CHR '']'')
     else if c = ch CHR ''`'' \<or> c = 34 \<or> c = 39 then Some c else None)"

definition white :: "u8 list" where
  "white = [32, 13, 9, 10, 12]"

text \<open>Characters that are a token of their own wherever they stand.\<close>

definition single :: "u8 \<Rightarrow> bool" where
  "single c \<longleftrightarrow> c \<noteq> ch CHR '';'' \<and> c \<notin> set white \<and> c \<noteq> ch CHR ''/'' \<and> c \<noteq> ch CHR ''-'' \<and> closing c = None \<and>
     \<not> word_char c"

definition starts :: "(u8 \<Rightarrow> bool) \<Rightarrow> u8 list \<Rightarrow> bool" where
  "starts P s \<longleftrightarrow> s \<noteq> [] \<and> P (hd s)"

text \<open>A text without the two characters that close a comment.\<close>

definition unclosed :: "u8 list \<Rightarrow> bool" where
  "unclosed w \<longleftrightarrow> (\<nexists>u v. w = u @ [ch CHR ''*'', ch CHR ''/''] @ v)"

text \<open>\<open>lexes s ts b\<close>: the tokens of the text \<open>s\<close> are \<open>ts\<close>, and \<open>b\<close> tells that the text does not break off inside a
  comment of the form \<open>/*\<close> or inside a quoted name or string. A comment that begins with two dashes may end with the
  text; it is no token then.\<close>

inductive lexes :: "u8 list \<Rightarrow> token list \<Rightarrow> bool \<Rightarrow> bool" where
  text_end: "lexes [] [] True"
| line_open: "10 \<notin> set w \<Longrightarrow> lexes (chs ''--'' @ w) [] True"
| comment_open: "unclosed w \<Longrightarrow> lexes (chs ''/*'' @ w) [] False"
| quote_open: "closing c = Some q \<Longrightarrow> q \<notin> set w \<Longrightarrow> lexes (c # w) [] False"
| semi: "lexes s ts b \<Longrightarrow> lexes (ch CHR '';'' # s) (tkSEMI # ts) b"
| space: "c \<in> set white \<Longrightarrow> lexes s ts b \<Longrightarrow> lexes (c # s) (tkWS # ts) b"
| line: "10 \<notin> set w \<Longrightarrow> lexes s ts b \<Longrightarrow> lexes (chs ''--'' @ w @ 10 # s) (tkWS # ts) b"
| comment: "unclosed w \<Longrightarrow> lexes s ts b \<Longrightarrow> lexes (chs ''/*'' @ w @ chs ''*/'' @ s) (tkWS # ts) b"
| quoted: "closing c = Some q \<Longrightarrow> q \<notin> set w \<Longrightarrow> lexes s ts b \<Longrightarrow> lexes (c # w @ q # s) (tkOTHER # ts) b"
| word: "w \<noteq> [] \<Longrightarrow> \<forall>c \<in> set w. word_char c \<Longrightarrow> \<not> starts word_char s \<Longrightarrow> lexes s ts b \<Longrightarrow>
    lexes (w @ s) (word_token w # ts) b"
| slash: "\<not> starts (\<lambda>c. c = ch CHR ''*'') s \<Longrightarrow> lexes s ts b \<Longrightarrow> lexes (ch CHR ''/'' # s) (tkOTHER # ts) b"
| dash: "\<not> starts (\<lambda>c. c = ch CHR ''-'') s \<Longrightarrow> lexes s ts b \<Longrightarrow> lexes (ch CHR ''-'' # s) (tkOTHER # ts) b"
| other: "single c \<Longrightarrow> lexes s ts b \<Longrightarrow> lexes (c # s) (tkOTHER # ts) b"

text \<open>Every text has tokens.\<close>

lemma unclosed_Nil [simp]: "unclosed []"
  by (simp add: unclosed_def)

lemma unclosed_Cons: "unclosed (c # w) \<longleftrightarrow> unclosed w \<and> \<not> (c = ch CHR ''*'' \<and> starts (\<lambda>c. c = ch CHR ''/'') w)"
proof -
  have "(\<exists>u v. c # w = u @ [ch CHR ''*'', ch CHR ''/''] @ v) \<longleftrightarrow>
    (\<exists>v. c # w = [ch CHR ''*'', ch CHR ''/''] @ v) \<or> (\<exists>u v. w = u @ [ch CHR ''*'', ch CHR ''/''] @ v)"
  proof (intro iffI; elim exE disjE)
    fix u v assume e: "c # w = u @ [ch CHR ''*'', ch CHR ''/''] @ v"
    then show "(\<exists>v. c # w = [ch CHR ''*'', ch CHR ''/''] @ v) \<or> (\<exists>u v. w = u @ [ch CHR ''*'', ch CHR ''/''] @ v)"
    proof (cases u)
      case (Cons x u')
      then have "w = u' @ [ch CHR ''*'', ch CHR ''/''] @ v" using e by simp
      then show ?thesis by blast
    qed auto
  next
    fix v assume "c # w = [ch CHR ''*'', ch CHR ''/''] @ v"
    then have "c # w = [] @ [ch CHR ''*'', ch CHR ''/''] @ v" by simp
    then show "\<exists>u v. c # w = u @ [ch CHR ''*'', ch CHR ''/''] @ v" by blast
  next
    fix u v assume "w = u @ [ch CHR ''*'', ch CHR ''/''] @ v"
    then have "c # w = (c # u) @ [ch CHR ''*'', ch CHR ''/''] @ v" by simp
    then show "\<exists>u v. c # w = u @ [ch CHR ''*'', ch CHR ''/''] @ v" by blast
  qed
  moreover have "(\<exists>v. c # w = [ch CHR ''*'', ch CHR ''/''] @ v) \<longleftrightarrow> c = ch CHR ''*'' \<and> starts (\<lambda>c. c = ch CHR ''/'') w"
    by (cases w) (auto simp: starts_def)
  ultimately show ?thesis unfolding unclosed_def by blast
qed

lemma comment_cases: "unclosed s \<or> (\<exists>w r. s = w @ chs ''*/'' @ r \<and> unclosed w)"
proof (induction s)
  case (Cons c s)
  show ?case
  proof (cases "c = ch CHR ''*'' \<and> starts (\<lambda>c. c = ch CHR ''/'') s")
    case True
    then have "c # s = [] @ chs ''*/'' @ tl s" by (cases s) (simp_all add: starts_def)
    then show ?thesis using unclosed_Nil by blast
  next
    case False
    from Cons show ?thesis
    proof
      assume "\<exists>w r. s = w @ chs ''*/'' @ r \<and> unclosed w"
      then obtain w r where w: "s = w @ chs ''*/'' @ r" "unclosed w" by blast
      have "unclosed (c # w)" using w False by (cases w) (auto simp: unclosed_Cons starts_def)
      moreover have "c # s = (c # w) @ chs ''*/'' @ r" using w by simp
      ultimately show ?thesis by blast
    qed (use False in \<open>simp add: unclosed_Cons\<close>)
  qed
qed simp

lemma char_cases: "q \<notin> set s \<or> (\<exists>w r. s = w @ q # r \<and> q \<notin> set w)"
  using split_list_first by fastforce

lemma lexes_exists: "\<exists>ts b. lexes s ts b"
proof (induction s rule: length_induct)
  case (1 s)
  have IH: "\<exists>ts b. lexes r ts b" if "length r < length s" for r using 1 that by blast
  show ?case
  proof (cases s)
    case Nil
    then show ?thesis using text_end by blast
  next
    case (Cons c r)
    then have r: "\<exists>ts b. lexes r ts b" using IH by simp
    consider "c = ch CHR '';''" | "c \<in> set white" | "c = ch CHR ''/''" | "c = ch CHR ''-''" | q where "closing c = Some q"
      | "word_char c" | "single c"
      unfolding single_def by (cases "closing c") blast+
    then show ?thesis
    proof cases
      case 1 then show ?thesis using r Cons lexes.semi by blast
    next
      case 2 then show ?thesis using r Cons lexes.space by blast
    next
      case 3
      show ?thesis
      proof (cases "starts (\<lambda>c. c = ch CHR ''*'') r")
        case True
        then have s: "s = chs ''/*'' @ tl r" using 3 Cons by (cases r) (simp_all add: starts_def)
        from comment_cases [of "tl r"] show ?thesis
        proof
          assume "\<exists>w x. tl r = w @ chs ''*/'' @ x \<and> unclosed w"
          then obtain w x where w: "tl r = w @ chs ''*/'' @ x" "unclosed w" by blast
          have "length x < length s" using s w by simp
          then show ?thesis using IH lexes.comment [OF w(2)] s w(1) by metis
        qed (use s lexes.comment_open in metis)
      qed (use r Cons 3 lexes.slash in blast)
    next
      case 4
      show ?thesis
      proof (cases "starts (\<lambda>c. c = ch CHR ''-'') r")
        case True
        then have s: "s = chs ''--'' @ tl r" using 4 Cons by (cases r) (simp_all add: starts_def)
        from char_cases [of 10 "tl r"] show ?thesis
        proof
          assume "\<exists>w x. tl r = w @ 10 # x \<and> 10 \<notin> set w"
          then obtain w x where w: "tl r = w @ 10 # x" "10 \<notin> set w" by blast
          have "length x < length s" using s w by simp
          then show ?thesis using IH lexes.line [OF w(2)] s w(1) by metis
        qed (use s lexes.line_open in metis)
      qed (use r Cons 4 lexes.dash in blast)
    next
      case (5 q)
      from char_cases [of q r] show ?thesis
      proof
        assume "\<exists>w x. r = w @ q # x \<and> q \<notin> set w"
        then obtain w x where w: "r = w @ q # x" "q \<notin> set w" by blast
        have "length x < length s" using Cons w by simp
        then show ?thesis using IH lexes.quoted [OF 5 w(2)] Cons w(1) by metis
      qed (use 5 Cons lexes.quote_open in metis)
    next
      case 6
      let ?w = "takeWhile word_char s" and ?x = "dropWhile word_char s"
      have w: "?w \<noteq> []" "\<forall>c \<in> set ?w. word_char c" using 6 Cons set_takeWhileD by (simp, fast)
      have "length ?w + length ?x = length s" by (metis length_append takeWhile_dropWhile_id)
      then have l: "length ?x < length s" using w(1) by (cases ?w) auto
      have x: "\<not> starts word_char ?x" using hd_dropWhile [of word_char s] by (auto simp: starts_def)
      obtain ts b where t: "lexes ?x ts b" using IH l by blast
      show ?thesis using lexes.word [OF w x t] by (metis takeWhile_dropWhile_id)
    next
      case 7 then show ?thesis using r Cons lexes.other by blast
    qed
  qed
qed

section \<open>The scanner finds the tokens\<close>

text \<open>What is ahead of the end of the text: nothing, or the terminating zero and whatever follows it.\<close>

definition at_end :: "u8 list \<Rightarrow> bool" where
  "at_end e \<longleftrightarrow> \<not> starts (\<lambda>c. c \<noteq> 0) e"

lemma peek_at: "peek z 0 = Some (case z of [] \<Rightarrow> 0 | c # _ \<Rightarrow> c)"
  by (simp add: peek_def c_at_def split: list.split)

lemma peek_1 [simp]: "peek (c # z) 1 = peek z 0" "peek (c # z) (Suc 0) = peek z 0"
  by (simp_all add: peek_def c_at_def)

lemma peek_end: "at_end e \<Longrightarrow> peek e 0 = Some 0"
  by (cases e) (simp_all add: peek_at at_end_def starts_def)

lemma comment_end_closed:
  "unclosed w \<Longrightarrow> 0 \<notin> set w \<Longrightarrow> comment_end (w @ chs ''*/'' @ s) = Some (chs ''*/'' @ s)"
proof (induction w)
  case Nil
  then show ?case by (subst comment_end.simps) (simp add: peek_at)
next
  case (Cons c w)
  then have "\<not> (c = ch CHR ''*'' \<and> starts (\<lambda>c. c = ch CHR ''/'') (w @ chs ''*/'' @ s))"
    by (cases w) (auto simp: unclosed_Cons starts_def)
  then show ?case using Cons
    by (subst comment_end.simps) (cases w; auto simp: peek_at unclosed_Cons starts_def)
qed

lemma comment_end_open:
  "unclosed w \<Longrightarrow> 0 \<notin> set w \<Longrightarrow> at_end e \<Longrightarrow> comment_end (w @ e) = Some e"
proof (induction w)
  case Nil
  then show ?case by (subst comment_end.simps) (simp add: peek_end)
next
  case (Cons c w)
  have "peek (w @ e) 0 \<noteq> Some (ch CHR ''/'')" if "c = ch CHR ''*''"
    using Cons.prems that by (cases w; cases e) (auto simp: peek_at unclosed_Cons starts_def at_end_def)
  moreover obtain x where "peek (w @ e) 0 = Some x" using peek_at by blast
  ultimately show ?case using Cons
    by (subst comment_end.simps) (auto simp: peek_at [of "_ # _"] unclosed_Cons)
qed

lemma find_char_scan:
  "q \<notin> set w \<Longrightarrow> 0 \<notin> set w \<Longrightarrow> peek e 0 = Some x \<Longrightarrow> x = 0 \<or> x = q \<Longrightarrow> find_char q (w @ e) = Some e"
proof (induction w)
  case Nil
  then show ?case by (subst find_char.simps) auto
next
  case (Cons c w)
  then show ?case by (subst find_char.simps) (auto simp: peek_at [of "_ # _"])
qed

lemma IdChar_word: "IdChar = word_char"
  by (rule ext) (simp only: ctype_ranges word_char_def)

lemma word_char_0 [simp]: "\<not> word_char 0"
  by (simp add: word_char_def)

lemma id_length_scan:
  assumes "\<forall>c \<in> set w. word_char c" and "\<not> starts word_char s" and "n \<le> length w"
  shows "id_length (w @ s) n = Some (length w)"
  using assms(3)
proof (induction "length w - n" arbitrary: n)
  case 0
  then have "n = length w" by simp
  moreover have "peek (w @ s) (length w) = peek s 0" using c_at_append [of w s 0] by (simp add: peek_def)
  ultimately show ?case using assms(2)
    by (subst id_length.simps) (cases s; simp add: peek_at IdChar_word starts_def)
next
  case (Suc d)
  then have n: "n < length w" and d: "d = length w - Suc n" by linarith+
  then have "peek (w @ s) n = Some (w ! n)" "word_char (w ! n)"
    using assms(1) by (auto simp: peek_def c_at_def nth_append)
  then show ?case using Suc.hyps(1) [OF d] n by (subst id_length.simps) (simp add: IdChar_word)
qed

lemma strnicmp_same:
  "length w = length l \<Longrightarrow> length u = length k \<Longrightarrow> 0 \<notin> set w \<Longrightarrow>
   \<exists>r. strnicmp_loop (u @ w @ s) (k @ l) (length u) (int (length w)) = Some r \<and> (r = 0 \<longleftrightarrow> map lower w = map lower l)"
proof (induction w arbitrary: u k l)
  case Nil
  then show ?case by (subst strnicmp_loop.simps) simp
next
  case (Cons c w)
  then obtain d l' where l: "l = d # l'" "length w = length l'" by (cases l) auto
  have p: "c_at (u @ (c # w) @ s) (length u) = Some c" "c_at (k @ l) (length u) = Some d"
    using c_at_append [of u "(c # w) @ s" 0] c_at_append [of k l 0] Cons.prems(2) l(1) by simp_all
  have n: "c \<noteq> 0" using Cons.prems(3) by auto
  have lo: "sqlite3Tolower x = lower x" for x by (simp add: tolower_range lower_def)
  show ?case
  proof (cases "lower c = lower d")
    case True
    obtain r where "strnicmp_loop ((u @ [c]) @ w @ s) ((k @ [d]) @ l') (length (u @ [c])) (int (length w)) = Some r"
      "r = 0 \<longleftrightarrow> map lower w = map lower l'"
      using Cons.IH [of l' "u @ [c]" "k @ [d]"] Cons.prems l by auto
    then show ?thesis using p n True l(1) by (subst strnicmp_loop.simps) (simp add: lo)
  next
    case False
    then have "uint (lower c) \<noteq> uint (lower d)" by (simp flip: word_uint_eq_iff)
    then show ?thesis using p n l(1) False by (subst strnicmp_loop.simps) (simp add: lo)
  qed
qed

lemma keyword_is_scan:
  assumes "0 \<notin> set w" and "map lower (chs kw) = chs kw"
  shows "keyword_is (w @ s) (length w) kw = Some (map lower w = chs kw)"
proof (cases "length w = length kw")
  case True
  then show ?thesis using strnicmp_same [of w "chs kw" "[]" "[]" s] assms
    by (auto simp: keyword_is_def sqlite3_strnicmp_def)
next
  case False
  then have "map lower w \<noteq> chs kw" by (metis length_map)
  then show ?thesis using False by (simp add: keyword_is_def)
qed

lemma lower_eq: "lower c = 99 \<Longrightarrow> c = 99 \<or> c = 67" "lower c = 116 \<Longrightarrow> c = 116 \<or> c = 84" "lower c = 101 \<Longrightarrow> c = 101 \<or> c = 69"
  unfolding lower_def by (auto simp flip: eq_diff_eq split: if_splits)

lemma lower_kw: "map lower (chs kw) = chs kw"
  if "kw \<in> {''create'', ''trigger'', ''temp'', ''temporary'', ''end'', ''explain''}"
  using that by (auto simp: lower_def)

lemma id_token_scan:
  assumes "w = c # w'" and "0 \<notin> set w"
  shows "id_token (w @ s) c (length w) = Some (word_token w)"
proof -
  note k = keyword_is_scan [OF assms(2) lower_kw, of _ s]
  have ks: "keyword_is (w @ s) (length w) ''create'' = Some (map lower w = chs ''create'')"
    "keyword_is (w @ s) (length w) ''trigger'' = Some (map lower w = chs ''trigger'')"
    "keyword_is (w @ s) (length w) ''temp'' = Some (map lower w = chs ''temp'')"
    "keyword_is (w @ s) (length w) ''temporary'' = Some (map lower w = chs ''temporary'')"
    "keyword_is (w @ s) (length w) ''end'' = Some (map lower w = chs ''end'')"
    "keyword_is (w @ s) (length w) ''explain'' = Some (map lower w = chs ''explain'')"
    by (rule k, simp)+
  have h: "lower c = ch a" if "map lower w = chs (a # kw)" for a kw using that assms(1) by simp
  have hc: "map lower w \<noteq> chs ''create''" if "\<not> (c = 99 \<or> c = 67)" using that lower_eq(1) [of c] h by fastforce
  have ht: "map lower w \<noteq> chs ''trigger''" "map lower w \<noteq> chs ''temp''" "map lower w \<noteq> chs ''temporary''"
    if "\<not> (c = 116 \<or> c = 84)" using that lower_eq(2) [of c] h by fastforce+
  have he: "map lower w \<noteq> chs ''end''" "map lower w \<noteq> chs ''explain''"
    if "\<not> (c = 101 \<or> c = 69)" using that lower_eq(3) [of c] h by fastforce+
  have v: "ch CHR ''c'' = 99" "ch CHR ''C'' = 67" "ch CHR ''t'' = 116" "ch CHR ''T'' = 84" "ch CHR ''e'' = 101"
    "ch CHR ''E'' = 69" by simp_all
  consider "c = 99 \<or> c = 67" | "c = 116 \<or> c = 84" | "c = 101 \<or> c = 69"
    | "\<not> (c = 99 \<or> c = 67)" "\<not> (c = 116 \<or> c = 84)" "\<not> (c = 101 \<or> c = 69)" by blast
  then show ?thesis
  proof cases
    case 1
    then have n: "\<not> (c = 116 \<or> c = 84)" "\<not> (c = 101 \<or> c = 69)" by auto
    then show ?thesis using 1 ht [OF n(1)] he [OF n(2)] 
      by (simp only: id_token_def ks v word_token_def Let_def bind.bind_lunit simp_thms if_True if_False; simp only: split: if_split; simp)
  next
    case 2
    then have n: "\<not> (c = 99 \<or> c = 67)" "\<not> (c = 101 \<or> c = 69)" by auto
    then show ?thesis using 2 hc [OF n(1)] he [OF n(2)] 
      by (simp only: id_token_def ks v word_token_def Let_def bind.bind_lunit simp_thms if_True if_False; simp only: split: if_split; simp)
  next
    case 3
    then have n: "\<not> (c = 99 \<or> c = 67)" "\<not> (c = 116 \<or> c = 84)" by auto
    then show ?thesis using 3 hc [OF n(1)] ht [OF n(2)] 
      by (simp only: id_token_def ks v word_token_def Let_def bind.bind_lunit simp_thms if_True if_False; simp only: split: if_split; simp)
  next
    case 4
    then show ?thesis using hc [OF 4(1)] ht [OF 4(2)] he [OF 4(3)]
      by (simp only: id_token_def v word_token_def Let_def simp_thms if_True if_False)
  qed
qed

text \<open>One token, with any text after it.\<close>

lemma complete_token_scan:
  assumes "at_end e"
  shows "complete_token q (ch CHR '';'' # z) = Some (Inr (tkSEMI, ch CHR '';'' # z))"
    and "c \<in> set white \<Longrightarrow> complete_token q (c # z) = Some (Inr (tkWS, c # z))"
    and "10 \<notin> set w \<Longrightarrow> 0 \<notin> set w \<Longrightarrow> complete_token q (chs ''--'' @ w @ e) = Some (Inl (if q = 1 then 1 else 0))"
    and "10 \<notin> set w \<Longrightarrow> 0 \<notin> set w \<Longrightarrow> complete_token q (chs ''--'' @ w @ 10 # z) = Some (Inr (tkWS, 10 # z))"
    and "unclosed w \<Longrightarrow> 0 \<notin> set w \<Longrightarrow> complete_token q (chs ''/*'' @ w @ e) = Some (Inl 0)"
    and "unclosed w \<Longrightarrow> 0 \<notin> set w \<Longrightarrow>
      complete_token q (chs ''/*'' @ w @ chs ''*/'' @ z) = Some (Inr (tkWS, ch CHR ''/'' # z))"
    and "closing c = Some d \<Longrightarrow> d \<notin> set w \<Longrightarrow> 0 \<notin> set w \<Longrightarrow> complete_token q (c # w @ e) = Some (Inl 0)"
    and "closing c = Some d \<Longrightarrow> d \<notin> set w \<Longrightarrow> 0 \<notin> set w \<Longrightarrow> complete_token q (c # w @ d # z) = Some (Inr (tkOTHER, d # z))"
    and "\<not> starts (\<lambda>c. c = ch CHR ''*'') z \<Longrightarrow> complete_token q (ch CHR ''/'' # z) = Some (Inr (tkOTHER, ch CHR ''/'' # z))"
    and "\<not> starts (\<lambda>c. c = ch CHR ''-'') z \<Longrightarrow> complete_token q (ch CHR ''-'' # z) = Some (Inr (tkOTHER, ch CHR ''-'' # z))"
    and "single c \<Longrightarrow> complete_token q (c # z) = Some (Inr (tkOTHER, c # z))"
proof -
  note e = peek_end [OF assms]
  show "complete_token q (ch CHR '';'' # z) = Some (Inr (tkSEMI, ch CHR '';'' # z))"
    by (simp add: complete_token_def peek_at)
  show "complete_token q (c # z) = Some (Inr (tkWS, c # z))" if "c \<in> set white"
    using that by (auto simp: complete_token_def peek_at white_def)
  show "complete_token q (chs ''--'' @ w @ e) = Some (Inl (if q = 1 then 1 else 0))" if "10 \<notin> set w" "0 \<notin> set w"
    using find_char_scan [of 10 "chs ''--'' @ w" e 0] that e by (simp add: complete_token_def peek_at [of "_ # _"])
  show "complete_token q (chs ''--'' @ w @ 10 # z) = Some (Inr (tkWS, 10 # z))" if "10 \<notin> set w" "0 \<notin> set w"
    using find_char_scan [of 10 "chs ''--'' @ w" "10 # z" 10] that by (simp add: complete_token_def peek_at [of "_ # _"])
  show "complete_token q (chs ''/*'' @ w @ e) = Some (Inl 0)" if "unclosed w" "0 \<notin> set w"
    using comment_end_open [OF that assms] e by (simp add: complete_token_def peek_at [of "_ # _"])
  show "complete_token q (chs ''/*'' @ w @ chs ''*/'' @ z) = Some (Inr (tkWS, ch CHR ''/'' # z))" if "unclosed w" "0 \<notin> set w"
    using comment_end_closed [OF that, of z] by (simp add: complete_token_def peek_at [of "_ # _"])
  show "complete_token q (c # w @ e) = Some (Inl 0)" if "closing c = Some d" "d \<notin> set w" "0 \<notin> set w"
    using find_char_scan [of d w e 0] that e
    by (auto simp: complete_token_def peek_at [of "_ # _"] split: if_splits)
  show "complete_token q (c # w @ d # z) = Some (Inr (tkOTHER, d # z))" if "closing c = Some d" "d \<notin> set w" "0 \<notin> set w"
    using find_char_scan [of d w "d # z" d] that
    by (auto simp: complete_token_def peek_at [of "_ # _"] split: if_splits)
  show "complete_token q (ch CHR ''/'' # z) = Some (Inr (tkOTHER, ch CHR ''/'' # z))"
    if "\<not> starts (\<lambda>c. c = ch CHR ''*'') z"
    using that by (cases z) (simp_all add: complete_token_def peek_at starts_def)
  show "complete_token q (ch CHR ''-'' # z) = Some (Inr (tkOTHER, ch CHR ''-'' # z))"
    if "\<not> starts (\<lambda>c. c = ch CHR ''-'') z"
    using that by (cases z) (simp_all add: complete_token_def peek_at starts_def)
  show "complete_token q (c # z) = Some (Inr (tkOTHER, c # z))" if "single c"
    using that by (auto simp: complete_token_def peek_at single_def white_def IdChar_word split: if_splits)
qed

lemma complete_token_word:
  assumes "w \<noteq> []" and "\<forall>c \<in> set w. word_char c" and "\<not> starts word_char s"
  shows "complete_token q (w @ s) = Some (Inr (word_token w, drop (length w - 1) w @ s))"
proof -
  obtain c w' where w: "w = c # w'" using assms(1) by (cases w) auto
  have z: "0 \<notin> set w" using assms(2) word_char_0 by blast
  have c: "word_char c" using assms(2) w by simp
  have n: "c \<noteq> 59" "c \<noteq> 32" "c \<noteq> 13" "c \<noteq> 9" "c \<noteq> 10" "c \<noteq> 12" "c \<noteq> 47" "c \<noteq> 45" "c \<noteq> 91" "c \<noteq> 96" "c \<noteq> 34" "c \<noteq> 39"
    using c by (auto simp: word_char_def)
  have p: "peek (w @ s) 0 = Some c" using w by (simp add: peek_at)
  have "1 \<le> length w" using assms(1) by (cases w) simp_all
  then show ?thesis
    using id_length_scan [OF assms(2,3), of 1] id_token_scan [OF w z, of s] n c
    by (simp add: complete_token_def p IdChar_word)
qed

end
