(* ===== verification/Complete_Props.thy ===== *)
theory Complete_Props
  imports Complete_Lex
begin

text \<open>
  Properties of \<open>sqlite3_complete\<close>: it always ends, and it accepts exactly the texts whose tokens form a
  sequence of complete statements.
\<close>

section \<open>Running the state machine over the tokens\<close>

fun run_tokens :: "nat \<Rightarrow> token list \<Rightarrow> nat" where
  "run_tokens q [] = q"
| "run_tokens q (t # ts) = run_tokens (complete_trans ! q ! token_code t) ts"

definition return_value :: "bool \<Rightarrow> nat \<Rightarrow> int" where
  "return_value b state = (if b \<and> state = 1 then 1 else 0)"

lemma trans_ok: "q < 8 \<Longrightarrow> nth_opt complete_trans q = Some (complete_trans ! q) \<and>
  nth_opt (complete_trans ! q) (token_code t) = Some (complete_trans ! q ! token_code t) \<and> complete_trans ! q ! token_code t < 8"
proof -
  assume "q < 8"
  then have "q \<in> {0, 1, 2, 3, 4, 5, 6, 7}" by auto
  then show ?thesis by (elim insertE emptyE; cases t; simp add: complete_trans_def)
qed

lemma loop_return:
  "c \<noteq> 0 \<Longrightarrow> complete_token q (c # z) = Some (Inl r) \<Longrightarrow> complete_loop q (c # z) = Some r"
  by (subst complete_loop.simps) (simp add: peek_at)

lemma loop_token:
  "c \<noteq> 0 \<Longrightarrow> q < 8 \<Longrightarrow> complete_token q (c # z) = Some (Inr (t, s)) \<Longrightarrow>
    complete_loop q (c # z) = complete_loop (complete_trans ! q ! token_code t) (tl s)"
  using trans_ok [of q t] by (subst complete_loop.simps) (simp add: peek_at)

lemma lexes_run:
  assumes "at_end e"
  shows "lexes s ts b \<Longrightarrow> 0 \<notin> set s \<Longrightarrow> q < 8 \<Longrightarrow> complete_loop q (s @ e) = Some (return_value b (run_tokens q ts))"
proof (induction arbitrary: q rule: lexes.induct)
  case text_end
  then show ?case by (subst complete_loop.simps) (simp add: peek_end [OF assms] return_value_def)
next
  case (line_open w)
  then show ?case using complete_token_scan(3) [OF assms, of w q]
    by (simp add: loop_return return_value_def)
next
  case (comment_open w)
  then show ?case using complete_token_scan(5) [OF assms, of w q] by (simp add: loop_return return_value_def)
next
  case (quote_open c d w)
  then show ?case using complete_token_scan(7) [OF assms, of c d w q] by (simp add: loop_return return_value_def)
next
  case (semi s ts b)
  then show ?case
    using loop_token [OF _ _ complete_token_scan(1) [OF assms]] trans_ok [of q tkSEMI] by simp
next
  case (space c s ts b)
  then show ?case
    using loop_token [OF _ _ complete_token_scan(2) [OF assms space(1)]] trans_ok [of q tkWS] by simp
next
  case (line w s ts b)
  then show ?case
    using complete_token_scan(4) [OF assms line(1), of q "s @ e"] trans_ok [of q tkWS] by (simp add: loop_token)
next
  case (comment w s ts b)
  then show ?case
    using complete_token_scan(6) [OF assms comment(1), of q "s @ e"] trans_ok [of q tkWS] by (simp add: loop_token)
next
  case (quoted c d w s ts b)
  then show ?case
    using complete_token_scan(8) [OF assms quoted(1,2), of q "s @ e"] trans_ok [of q tkOTHER] by (simp add: loop_token)
next
  case (word w s ts b)
  have "\<not> starts word_char (s @ e)"
    using word.hyps(3) assms by (cases s; cases e) (auto simp: starts_def at_end_def)
  from complete_token_word [OF word.hyps(1,2) this]
  have t: "complete_token q (w @ s @ e) = Some (Inr (word_token w, drop (length w - 1) w @ s @ e))" .
  obtain c w' where w: "w = c # w'" using word.hyps(1) by (cases w) auto
  have "tl (drop (length w - 1) w @ s @ e) = s @ e"
    using word.hyps(1) by (cases w rule: rev_cases) auto
  then show ?case using t word trans_ok [of q "word_token w"] w by (simp add: loop_token)
next
  case (slash s ts b)
  have "\<not> starts (\<lambda>c. c = ch CHR ''*'') (s @ e)"
    using slash.hyps(1) assms by (cases s; cases e) (auto simp: starts_def at_end_def)
  then show ?case using slash complete_token_scan(9) [OF assms, of "s @ e" q] trans_ok [of q tkOTHER]
    by (simp add: loop_token)
next
  case (dash s ts b)
  have "\<not> starts (\<lambda>c. c = ch CHR ''-'') (s @ e)"
    using dash.hyps(1) assms by (cases s; cases e) (auto simp: starts_def at_end_def)
  then show ?case using dash complete_token_scan(10) [OF assms, of "s @ e" q] trans_ok [of q tkOTHER]
    by (simp add: loop_token)
next
  case (other c s ts b)
  then show ?case using complete_token_scan(11) [OF assms other(1), of q "s @ e"] trans_ok [of q tkOTHER]
    by (simp add: loop_token)
qed

text \<open>The text is what comes before the terminating zero.\<close>

definition c_text :: "u8 list \<Rightarrow> u8 list" where
  "c_text z = takeWhile (\<lambda>c. c \<noteq> 0) z"

lemma complete_run: "lexes (c_text z) ts b \<Longrightarrow> sqlite3_complete z = Some (return_value b (run_tokens 0 ts))"
proof -
  assume l: "lexes (c_text z) ts b"
  have e: "at_end (dropWhile (\<lambda>c. c \<noteq> 0) z)"
    using hd_dropWhile [of "\<lambda>c. c \<noteq> 0" z] by (auto simp: at_end_def starts_def)
  have "0 \<notin> set (c_text z)" unfolding c_text_def using set_takeWhileD by fast
  from lexes_run [OF e l this, of 0] show ?thesis by (simp add: sqlite3_complete_def c_text_def)
qed

section \<open>Complete statements\<close>

text \<open>The tokens that make a statement a trigger definition: CREATE and TRIGGER with TEMP between them, possibly after
  EXPLAIN and other tokens (EXPLAIN QUERY PLAN).\<close>

definition trigger_header :: "token list \<Rightarrow> bool" where
  "trigger_header h \<longleftrightarrow> (\<exists>n m. h = tkCREATE # replicate m tkTEMP @ [tkTRIGGER] \<or>
     h = tkEXPLAIN # replicate n tkOTHER @ tkCREATE # replicate m tkTEMP @ [tkTRIGGER])"

text \<open>A plain statement runs to the first semicolon; a trigger definition to the first "; END ;".\<close>

definition plain_statement :: "token list \<Rightarrow> bool" where
  "plain_statement w \<longleftrightarrow> (\<exists>v. w = v @ [tkSEMI] \<and> tkSEMI \<notin> set v \<and> \<not> (\<exists>h r. v = h @ r \<and> trigger_header h))"

definition ends_trigger :: "token list \<Rightarrow> bool" where
  "ends_trigger w \<longleftrightarrow> (\<exists>v. w = v @ [tkSEMI, tkEND, tkSEMI])"

definition trigger_statement :: "token list \<Rightarrow> bool" where
  "trigger_statement w \<longleftrightarrow> (\<exists>h v. w = h @ v \<and> trigger_header h \<and> ends_trigger v \<and> (\<forall>a b. v = a @ b \<longrightarrow> b \<noteq> [] \<longrightarrow> \<not> ends_trigger a))"

inductive statements :: "token list \<Rightarrow> bool" where
  one: "plain_statement w \<or> trigger_statement w \<Longrightarrow> statements w"
| more: "plain_statement w \<or> trigger_statement w \<Longrightarrow> statements ts \<Longrightarrow> statements (w @ ts)"

lemma run_append: "run_tokens q (a @ b) = run_tokens (run_tokens q a) b"
  by (induction a arbitrary: q) auto

lemma run_8: "q < 8 \<Longrightarrow> run_tokens q ts < 8"
  by (induction ts arbitrary: q) (simp_all add: trans_ok)

text \<open>White space does not count.\<close>

lemma trans_WS: "q < 8 \<Longrightarrow> complete_trans ! q ! token_code tkWS = q"
proof -
  assume "q < 8"
  then have "q \<in> {0, 1, 2, 3, 4, 5, 6, 7}" by auto
  then show ?thesis by (elim insertE emptyE; simp add: complete_trans_def)
qed

lemma run_WS: "q < 8 \<Longrightarrow> run_tokens q ts = run_tokens q (filter (\<lambda>t. t \<noteq> tkWS) ts)"
proof (induction ts arbitrary: q)
  case (Cons t ts)
  have "complete_trans ! q ! token_code t < 8" using trans_ok [OF Cons.prems] by blast
  then show ?case using Cons trans_WS [OF Cons.prems] by (cases "t = tkWS") auto
qed simp

text \<open>The states of the automaton, one by one.\<close>

lemma step_simps [simp]:
  "complete_trans ! 0 = [1, 0, 2, 3, 4, 2, 2, 2]" "complete_trans ! (Suc 0) = [1, 1, 2, 3, 4, 2, 2, 2]"
  "complete_trans ! 2 = [1, 2, 2, 2, 2, 2, 2, 2]" "complete_trans ! 3 = [1, 3, 3, 2, 4, 2, 2, 2]"
  "complete_trans ! 4 = [1, 4, 2, 2, 2, 4, 5, 2]" "complete_trans ! 5 = [6, 5, 5, 5, 5, 5, 5, 5]"
  "complete_trans ! 6 = [6, 6, 5, 5, 5, 5, 5, 7]" "complete_trans ! 7 = [1, 7, 5, 5, 5, 5, 5, 5]"
  by (simp_all add: complete_trans_def)

lemma run_reps: "run_tokens 4 (replicate m tkTEMP) = 4" "run_tokens 3 (replicate n tkOTHER) = 3"
  by (induction m) (auto, induction n, auto)

lemma run_header: "trigger_header h \<Longrightarrow> q \<in> {0, 1} \<Longrightarrow> run_tokens q h = 5"
  unfolding trigger_header_def by (elim exE disjE insertE emptyE) (simp_all add: run_append run_reps)

lemma step_state: "run_tokens q (v @ [t]) = complete_trans ! run_tokens q v ! token_code t"
  by (simp add: run_append)

lemma header_extend: "\<exists>h r. v = h @ r \<and> trigger_header h \<Longrightarrow> \<exists>h r. v @ [t] = h @ r \<and> trigger_header h"
  by (metis append.assoc)

text \<open>Up to the first semicolon the state tells the shape of what was read.\<close>

definition explain_shape :: "token list \<Rightarrow> bool" where
  "explain_shape v \<longleftrightarrow> (\<exists>n. v = tkEXPLAIN # replicate n tkOTHER)"

definition create_shape :: "token list \<Rightarrow> bool" where
  "create_shape v \<longleftrightarrow> (\<exists>n m. v = tkCREATE # replicate m tkTEMP \<or> v = tkEXPLAIN # replicate n tkOTHER @ tkCREATE # replicate m tkTEMP)"

lemma shape_extend:
  "explain_shape [tkEXPLAIN]" "create_shape [tkCREATE]"
  "explain_shape v \<Longrightarrow> explain_shape (v @ [tkOTHER])" "explain_shape v \<Longrightarrow> create_shape (v @ [tkCREATE])"
  "create_shape v \<Longrightarrow> create_shape (v @ [tkTEMP])" "create_shape v \<Longrightarrow> trigger_header (v @ [tkTRIGGER])"
proof -
  show "explain_shape [tkEXPLAIN]" by (simp add: explain_shape_def)
  show "create_shape [tkCREATE]" unfolding create_shape_def by (intro exI [of _ 0]) simp
  show "explain_shape v \<Longrightarrow> explain_shape (v @ [tkOTHER])"
    unfolding explain_shape_def by (elim exE, rule_tac x = "Suc n" in exI) (simp add: replicate_append_same)
  show "explain_shape v \<Longrightarrow> create_shape (v @ [tkCREATE])"
    unfolding explain_shape_def create_shape_def by (elim exE, rule_tac x = n in exI, rule_tac x = 0 in exI) simp
  show "create_shape v \<Longrightarrow> create_shape (v @ [tkTEMP])"
    unfolding create_shape_def by (elim exE, rule_tac x = n in exI, rule_tac x = "Suc m" in exI) (auto simp: replicate_append_same)
  show "create_shape v \<Longrightarrow> trigger_header (v @ [tkTRIGGER])"
    unfolding create_shape_def trigger_header_def by (elim exE, rule_tac x = n in exI, rule_tac x = m in exI) auto
qed

lemma shape:
  assumes "q \<in> {0, 1}"
  shows "tkSEMI \<notin> set v \<Longrightarrow> tkWS \<notin> set v \<Longrightarrow>
    v = [] \<or> run_tokens q v = 2 \<or> run_tokens q v = 3 \<and> explain_shape v \<or> run_tokens q v = 4 \<and> create_shape v \<or>
    run_tokens q v = 5 \<and> (\<exists>h r. v = h @ r \<and> trigger_header h)"
proof (induction v rule: rev_induct)
  case (snoc t v)
  have t: "t \<noteq> tkSEMI" "t \<noteq> tkWS" using snoc.prems by auto
  from snoc have "v = [] \<or> run_tokens q v = 2 \<or> run_tokens q v = 3 \<and> explain_shape v \<or> run_tokens q v = 4 \<and> create_shape v \<or>
    run_tokens q v = 5 \<and> (\<exists>h r. v = h @ r \<and> trigger_header h)" by simp
  then show ?case
  proof (elim disjE conjE)
    assume "v = []"
    then show ?thesis using assms t shape_extend(1,2) by (cases t) auto
  next
    assume "run_tokens q v = 2"
    then show ?thesis using t by (cases t) (simp_all add: step_state)
  next
    assume "run_tokens q v = 3" "explain_shape v"
    then show ?thesis using t shape_extend(3,4) [of v] by (cases t) (simp_all add: step_state)
  next
    assume a: "run_tokens q v = 4" "create_shape v"
    then have "\<exists>h r. v @ [tkTRIGGER] = h @ r \<and> trigger_header h" using shape_extend(6) by (metis append_Nil2)
    then show ?thesis using a t shape_extend(5) [of v] by (cases t) (simp_all add: step_state)
  next
    assume "run_tokens q v = 5" "\<exists>h r. v = h @ r \<and> trigger_header h"
    then show ?thesis using t header_extend [of v t] by (cases t) (simp_all add: step_state)
  qed
qed simp

lemma run_5: "tkSEMI \<notin> set v \<Longrightarrow> tkWS \<notin> set v \<Longrightarrow> run_tokens 5 v = 5"
proof (induction v)
  case (Cons t v)
  then show ?case by (cases t) simp_all
qed simp

lemma plain_run:
  assumes w: "plain_statement w" "tkWS \<notin> set w" and q: "q \<in> {0, 1}"
  shows "run_tokens q w = 1"
proof -
  obtain v where v: "w = v @ [tkSEMI]" "tkSEMI \<notin> set v" "\<not> (\<exists>h r. v = h @ r \<and> trigger_header h)"
    using w(1) by (auto simp: plain_statement_def)
  then show ?thesis using shape [OF q v(2)] w(2) q by (auto simp: step_state)
qed

text \<open>The body of a trigger.\<close>

lemma body_shape:
  "tkWS \<notin> set v \<Longrightarrow> \<forall>a b. v = a @ b \<longrightarrow> \<not> ends_trigger a \<Longrightarrow>
    (run_tokens 5 v = 6 \<and> (\<exists>x. v = x @ [tkSEMI])) \<or> (run_tokens 5 v = 7 \<and> (\<exists>x. v = x @ [tkSEMI, tkEND])) \<or>
    (run_tokens 5 v = 5 \<and> (\<forall>x. v \<noteq> x @ [tkSEMI]) \<and> (\<forall>x. v \<noteq> x @ [tkSEMI, tkEND]))"
proof (induction v rule: rev_induct)
  case (snoc t v)
  have t: "t \<noteq> tkWS" "\<not> ends_trigger (v @ [t])" using snoc.prems by auto
  have "\<forall>a b. v = a @ b \<longrightarrow> \<not> ends_trigger a" using snoc.prems(2) by (metis append.assoc)
  then have ih: "(run_tokens 5 v = 6 \<and> (\<exists>x. v = x @ [tkSEMI])) \<or> (run_tokens 5 v = 7 \<and> (\<exists>x. v = x @ [tkSEMI, tkEND])) \<or>
    (run_tokens 5 v = 5 \<and> (\<forall>x. v \<noteq> x @ [tkSEMI]) \<and> (\<forall>x. v \<noteq> x @ [tkSEMI, tkEND]))" using snoc by simp
  have e: "v @ [t] = x @ [tkSEMI, tkEND] \<longleftrightarrow> v = x @ [tkSEMI] \<and> t = tkEND" for x
    using append1_eq_conv [of v t "x @ [tkSEMI]" tkEND] by simp
  show ?case
  proof (cases "run_tokens 5 v = 7 \<and> t = tkSEMI")
    case True
    then show ?thesis using ih t(2) by (auto simp: ends_trigger_def)
  next
    case False
    then show ?thesis using ih t(1) unfolding e by (cases t) (auto simp: step_state)
  qed
qed simp

lemma trigger_body:
  assumes u: "ends_trigger u" "tkWS \<notin> set u" and p: "\<And>a b. u = a @ b \<Longrightarrow> b \<noteq> [] \<Longrightarrow> \<not> ends_trigger a"
  shows "run_tokens 5 u = 1"
proof -
  obtain x where x: "u = (x @ [tkSEMI, tkEND]) @ [tkSEMI]" using u(1) by (auto simp: ends_trigger_def)
  have "\<forall>a b. x @ [tkSEMI, tkEND] = a @ b \<longrightarrow> \<not> ends_trigger a" using p x by (metis append.assoc append_is_Nil_conv not_Cons_self2)
  then have "run_tokens 5 (x @ [tkSEMI, tkEND]) = 7"
    using body_shape [of "x @ [tkSEMI, tkEND]"] u(2) x by auto
  then show ?thesis unfolding x by (simp only: step_state) simp
qed

lemma trigger_run:
  assumes "trigger_statement w" and "tkWS \<notin> set w" and "q \<in> {0, 1}"
  shows "run_tokens q w = 1"
proof -
  obtain h v where w: "w = h @ v" "trigger_header h" "ends_trigger v" "\<forall>a b. v = a @ b \<longrightarrow> b \<noteq> [] \<longrightarrow> \<not> ends_trigger a"
    using assms(1) by (auto simp: trigger_statement_def)
  then show ?thesis using run_header [OF w(2) assms(3)] trigger_body [OF w(3)] assms(2) by (simp add: run_append)
qed

lemma statement_run: "plain_statement w \<or> trigger_statement w \<Longrightarrow> tkWS \<notin> set w \<Longrightarrow> q \<in> {0, 1} \<Longrightarrow> run_tokens q w = 1"
  using plain_run trigger_run by blast

lemma statements_run: "statements ts \<Longrightarrow> tkWS \<notin> set ts \<Longrightarrow> q \<in> {0, 1} \<Longrightarrow> run_tokens q ts = 1"
proof (induction arbitrary: q rule: statements.induct)
  case (one w)
  then show ?case by (intro statement_run)
next
  case (more w ts)
  then show ?case using statement_run [OF more.hyps(1), of q] by (simp add: run_append)
qed

text \<open>Conversely, a shortest prefix that leads back to state 1 is one statement.\<close>

lemma body_unique:
  assumes r: "run_tokens 5 u = 1" and p: "\<And>a b. u = a @ b \<Longrightarrow> b \<noteq> [] \<Longrightarrow> run_tokens 5 a \<noteq> 1" and ws: "tkWS \<notin> set u"
  shows "ends_trigger u \<and> (\<forall>a b. u = a @ b \<longrightarrow> b \<noteq> [] \<longrightarrow> \<not> ends_trigger a)"
proof -
  have no: "\<not> ends_trigger a" if "u = a @ b" "b \<noteq> []" for a b
    using that
  proof (induction a arbitrary: b rule: length_induct)
    case (1 a)
    show ?case
    proof
      assume e: "ends_trigger a"
      have "\<not> ends_trigger a'" if "a = a' @ b'" "b' \<noteq> []" for a' b'
        using 1 that by (metis append.assoc append_is_Nil_conv length_append length_greater_0_conv less_add_same_cancel1)
      then have "run_tokens 5 a = 1" using trigger_body [OF e] ws 1 by auto
      then show False using p 1 by blast
    qed
  qed
  obtain a t where a: "u = a @ [t]" using r by (cases u rule: rev_cases) auto
  have t: "t \<noteq> tkWS" "tkWS \<notin> set a" using ws a by auto
  have "\<forall>x y. a = x @ y \<longrightarrow> \<not> ends_trigger x" using no a by (metis append.assoc append_is_Nil_conv not_Cons_self2)
  from body_shape [OF t(2) this] show ?thesis
    using r t(1) no unfolding a by (cases t) (auto simp: step_state ends_trigger_def)
qed

lemma first_statement:
  assumes r: "run_tokens q w = 1" and ne: "w \<noteq> []" and q: "q \<in> {0, 1}" and ws: "tkWS \<notin> set w"
    and p: "\<And>a b. w = a @ b \<Longrightarrow> a \<noteq> [] \<Longrightarrow> b \<noteq> [] \<Longrightarrow> run_tokens q a \<noteq> 1"
  shows "plain_statement w \<or> trigger_statement w"
proof -
  obtain v t where v: "w = v @ [t]" using ne by (cases w rule: rev_cases) auto
  have t: "t \<noteq> tkWS" "tkWS \<notin> set v" using ws v by auto
  show ?thesis
  proof (cases "tkSEMI \<in> set v")
    case False
    have s: "run_tokens q v \<noteq> 5 \<and> t = tkSEMI"
      using shape [OF q False t(2)] r q t(1) unfolding v by (cases t) (auto simp: step_state)
    have "\<not> (\<exists>h r. v = h @ r \<and> trigger_header h)"
    proof
      assume "\<exists>h r. v = h @ r \<and> trigger_header h"
      then obtain h x where h: "v = h @ x" "trigger_header h" by blast
      then have "run_tokens q v = 5" using run_header [OF h(2) q] run_5 [of x] False t(2) by (simp add: run_append)
      then show False using s by blast
    qed
    then show ?thesis using v s False by (auto simp: plain_statement_def)
  next
    case True
    then obtain v1 v2 where v1: "v = v1 @ tkSEMI # v2" "tkSEMI \<notin> set v1" by (meson split_list_first)
    have "run_tokens q (v1 @ [tkSEMI]) \<noteq> 1" using p [of "v1 @ [tkSEMI]" "v2 @ [t]"] v v1 by simp
    then have "v1 \<noteq> [] \<and> run_tokens q v1 = 5 \<and> (\<exists>h x. v1 = h @ x \<and> trigger_header h)"
      using shape [OF q v1(2)] t(2) v1(1) q by (auto simp: step_state)
    then obtain h x where h: "v1 = h @ x" "trigger_header h" by blast
    let ?u = "x @ tkSEMI # v2 @ [t]"
    have w: "w = h @ ?u" using v v1 h by simp
    have rh: "run_tokens q h = 5" by (rule run_header [OF h(2) q])
    have hne: "h \<noteq> []" using h(2) by (auto simp: trigger_header_def)
    have "ends_trigger ?u \<and> (\<forall>a b. ?u = a @ b \<longrightarrow> b \<noteq> [] \<longrightarrow> \<not> ends_trigger a)"
    proof (rule body_unique)
      show "run_tokens 5 ?u = 1" using r w rh by (simp add: run_append)
      show "tkWS \<notin> set ?u" using ws w by simp
      show "run_tokens 5 a \<noteq> 1" if "?u = a @ b" "b \<noteq> []" for a b
        using p [of "h @ a" b] that w rh hne by (simp add: run_append)
    qed
    then show ?thesis using h(2) w by (auto simp: trigger_statement_def)
  qed
qed

lemma run_statements:
  "run_tokens q ts = 1 \<Longrightarrow> ts \<noteq> [] \<Longrightarrow> q \<in> {0, 1} \<Longrightarrow> tkWS \<notin> set ts \<Longrightarrow> statements ts"
proof (induction ts arbitrary: q rule: length_induct)
  case (1 ts)
  define k where "k = (LEAST k. 0 < k \<and> run_tokens q (take k ts) = 1)"
  have "0 < length ts \<and> run_tokens q (take (length ts) ts) = 1" using 1 by simp
  then have k: "0 < k" "run_tokens q (take k ts) = 1" "k \<le> length ts"
    unfolding k_def by (metis (mono_tags, lifting) LeastI, metis (mono_tags, lifting) LeastI, intro Least_le)
  let ?w = "take k ts" and ?r = "drop k ts"
  have w: "?w \<noteq> []" "ts = ?w @ ?r" using k by auto
  have ws: "tkWS \<notin> set ?w" "tkWS \<notin> set ?r" using 1 by (auto dest: in_set_takeD in_set_dropD)
  have "run_tokens q a \<noteq> 1" if "?w = a @ b" "a \<noteq> []" "b \<noteq> []" for a b
  proof
    assume r: "run_tokens q a = 1"
    have "length a < k" using arg_cong [OF that(1), of length] that(3) k(3) by (cases b) auto
    moreover have "a = take (length a) ts"
      using that(1) w(2) by (metis append.assoc append_eq_conv_conj)
    ultimately show False using not_less_Least [of "length a" "\<lambda>k. 0 < k \<and> run_tokens q (take k ts) = 1"] that(2) r
      unfolding k_def [symmetric] by simp
  qed
  then have s: "plain_statement ?w \<or> trigger_statement ?w" using first_statement [OF k(2) w(1)] 1 ws by blast
  show ?case
  proof (cases "?r = []")
    case True
    then show ?thesis using statements.one [OF s] w(2) by simp
  next
    case False
    have "run_tokens 1 ?r = 1" using 1(2) w(2) k(2) run_append [of q ?w ?r] by simp
    moreover have "length ?r < length ts" using k 1 by simp
    ultimately have "statements ?r" using 1 False ws by blast
    from statements.more [OF s this] show ?thesis using w(2) by simp
  qed
qed

section \<open>Properties\<close>

text \<open>C20: \<open>sqlite3_complete\<close> always returns, and it returns 1 exactly when the text, up to its terminating zero, does not
  break off inside a comment of the form /* or inside a quoted name or string, and its tokens, white space and
  comments aside, are one or more complete statements: plain ones, which run to the first semicolon, and trigger
  definitions (with or without EXPLAIN, TEMP or TEMPORARY), which run to the first "; END ;" after the keyword
  TRIGGER. A comment that begins with two dashes may run to the end of the text and does not count. What the
  tokens are is given by a grammar of its own.\<close>

theorem complete_iff_statements:
  "(\<exists>r. sqlite3_complete z = Some r) \<and>
   (sqlite3_complete z = Some 1 \<longleftrightarrow> (\<exists>ts. lexes (c_text z) ts True \<and> statements (filter (\<lambda>t. t \<noteq> tkWS) ts)))"
proof (intro conjI iffI)
  obtain ts b where l: "lexes (c_text z) ts b" using lexes_exists by blast
  note r = complete_run [OF l]
  then show "\<exists>r. sqlite3_complete z = Some r" by blast
  assume "sqlite3_complete z = Some 1"
  then have b: "b" "run_tokens 0 ts = 1" using r by (auto simp: return_value_def split: if_splits)
  then have r0: "run_tokens 0 (filter (\<lambda>t. t \<noteq> tkWS) ts) = 1" using run_WS [of 0 ts] by simp
  then have "filter (\<lambda>t. t \<noteq> tkWS) ts \<noteq> []" by auto
  then have "statements (filter (\<lambda>t. t \<noteq> tkWS) ts)" using run_statements [OF r0] by simp
  then show "\<exists>ts. lexes (c_text z) ts True \<and> statements (filter (\<lambda>t. t \<noteq> tkWS) ts)" using l b by auto
next
  assume "\<exists>ts. lexes (c_text z) ts True \<and> statements (filter (\<lambda>t. t \<noteq> tkWS) ts)"
  then obtain ts where l: "lexes (c_text z) ts True" "statements (filter (\<lambda>t. t \<noteq> tkWS) ts)" by blast
  have "run_tokens 0 ts = 1" using statements_run [OF l(2), of 0] run_WS [of 0 ts] by simp
  then show "sqlite3_complete z = Some 1" using complete_run [OF l(1)] by (simp add: return_value_def)
qed

end
