(* ===== verification/Prng.thy ===== *)
theory Prng
  imports Files "HOL-Library.Multiset"
begin

text \<open>
  The random number generator of tsrc/random.c, an RC4 key stream. The state is the static structure
  \<open>sqlite3Prng\<close>; the seed comes from \<open>sqlite3OsRandomness\<close> (tsrc/os.c), which only calls \<open>xRandomness\<close> of the
  VFS in use: it is the argument \<open>seed\<close>, the 256 bytes that the call delivers. The mutex is not modelled; the function
  is one critical section.
\<close>

record sqlite3PrngType =
  isInit :: bool
  prng_i :: u8
  prng_j :: u8
  prng_s :: "u8 list"

text \<open>One round of the key schedule, and the loop over \<open>i = 0 \<dots> 255\<close>. \<open>k\<close> is an array of \<open>char\<close>: added
  modulo 256 its sign does not matter.\<close>

definition seed_step :: "u8 list \<Rightarrow> nat \<Rightarrow> sqlite3PrngType \<Rightarrow> sqlite3PrngType option" where
  "seed_step k i g = do {
     si \<leftarrow> nth_opt (prng_s g) i;
     ki \<leftarrow> nth_opt k i;
     let j = prng_j g + (si + ki);
     t \<leftarrow> nth_opt (prng_s g) (unat j);
     let s = (prng_s g)[unat j := si];
     let s = s[i := t];
     Some (g\<lparr>prng_j := j, prng_s := s\<rparr>) }"

definition prng_seed :: "u8 list \<Rightarrow> sqlite3PrngType \<Rightarrow> sqlite3PrngType option" where
  "prng_seed k g = do {
     let g = g\<lparr>prng_j := 0, prng_i := 0, prng_s := map word_of_nat [0..<256]\<rparr>;
     g \<leftarrow> foldO (seed_step k) [0..<256] g;
     Some (g\<lparr>isInit := True\<rparr>) }"

text \<open>One byte of output.\<close>

definition prng_next :: "sqlite3PrngType \<Rightarrow> (u8 \<times> sqlite3PrngType) option" where
  "prng_next g = do {
     let i = prng_i g + 1;
     t \<leftarrow> nth_opt (prng_s g) (unat i);
     let j = prng_j g + t;
     sj \<leftarrow> nth_opt (prng_s g) (unat j);
     let s = (prng_s g)[unat i := sj];
     let s = s[unat j := t];
     si \<leftarrow> nth_opt s (unat i);
     let t = t + si;
     b \<leftarrow> nth_opt s (unat t);
     Some (b, g\<lparr>prng_i := i, prng_j := j, prng_s := s\<rparr>) }"

primrec prng_bytes :: "nat \<Rightarrow> sqlite3PrngType \<Rightarrow> (u8 list \<times> sqlite3PrngType) option" where
  "prng_bytes 0 g = Some ([], g)"
| "prng_bytes (Suc n) g = do {
     (b, g) \<leftarrow> prng_next g;
     (bs, g) \<leftarrow> prng_bytes n g;
     Some (b # bs, g) }"

text \<open>The new state and the bytes written to \<open>pBuf\<close>; \<open>buf\<close> is whether \<open>pBuf\<close> is not NULL, \<open>init_rc\<close> what
  \<open>sqlite3_initialize\<close> returns.\<close>

definition sqlite3_randomness :: "int \<Rightarrow> u8 list \<Rightarrow> int \<Rightarrow> bool \<Rightarrow> sqlite3PrngType \<Rightarrow> (u8 list \<times> sqlite3PrngType) option" where
  "sqlite3_randomness init_rc seed N buf g =
     (if init_rc \<noteq> 0 then Some ([], g)
      else if N \<le> 0 \<or> \<not> buf then Some ([], g\<lparr>isInit := False\<rparr>)
      else do {
        g \<leftarrow> (if \<not> isInit g then prng_seed seed g else Some g);
        check (N > 0);
        prng_bytes (nat N) g })"

text \<open>The saved copy is a second static structure.\<close>

definition sqlite3PrngSaveState :: "sqlite3PrngType \<times> sqlite3PrngType \<Rightarrow> sqlite3PrngType \<times> sqlite3PrngType" where
  "sqlite3PrngSaveState st = (case st of (g, saved) \<Rightarrow> (g, g))"

definition sqlite3PrngRestoreState :: "sqlite3PrngType \<times> sqlite3PrngType \<Rightarrow> sqlite3PrngType \<times> sqlite3PrngType" where
  "sqlite3PrngRestoreState st = (case st of (g, saved) \<Rightarrow> (saved, saved))"

section \<open>The state stays a permutation\<close>

definition prng_inv :: "sqlite3PrngType \<Rightarrow> bool" where
  "prng_inv g \<longleftrightarrow> mset (prng_s g) = mset (map word_of_nat [0..<256])"

lemma prng_inv_length: "prng_inv g \<Longrightarrow> length (prng_s g) = 256"
  unfolding prng_inv_def by (drule mset_eq_length) simp

lemma at_byte: "prng_inv g \<Longrightarrow> nth_opt (prng_s g) (unat (x :: u8)) = Some (prng_s g ! unat x)"
  using unsigned_less [of x, where ?'a = nat] by (simp add: nth_opt_def prng_inv_length)

text \<open>Both steps exchange two entries.\<close>

lemma mset_exchange: "i < length xs \<Longrightarrow> j < length xs \<Longrightarrow> mset (xs[j := xs ! i, i := xs ! j]) = mset xs"
  using Multiset.mset_swap [of j xs i] by (cases "i = j") (simp_all add: list_update_swap)

lemma seed_step_inv:
  assumes "prng_inv g" and "length k = 256" and "i < 256"
  obtains g' where "seed_step k i g = Some g'" and "prng_inv g'"
proof -
  let ?j = "prng_j g + (prng_s g ! i + k ! i)"
  have j: "unat ?j < 256" using unsigned_less [of ?j, where ?'a = nat] by simp
  have l: "length (prng_s g) = 256" by (rule prng_inv_length [OF assms(1)])
  have eq: "seed_step k i g = Some (g\<lparr>prng_j := ?j, prng_s := (prng_s g)[unat ?j := prng_s g ! i, i := prng_s g ! unat ?j]\<rparr>)"
    using assms l j by (simp add: seed_step_def nth_opt_def Let_def)
  have "mset ((prng_s g)[unat ?j := prng_s g ! i, i := prng_s g ! unat ?j]) = mset (prng_s g)"
    using assms l j by (intro mset_exchange) simp_all
  then show thesis using assms(1) by (intro that [OF eq]) (simp add: prng_inv_def)
qed

lemma seed_loop_inv:
  "prng_inv g \<Longrightarrow> length k = 256 \<Longrightarrow> set is \<subseteq> {..<256} \<Longrightarrow> \<exists>g'. foldO (seed_step k) is g = Some g' \<and> prng_inv g'"
proof (induction "is" arbitrary: g)
  case (Cons i "is")
  then obtain g1 where "seed_step k i g = Some g1" "prng_inv g1" by (auto elim: seed_step_inv [of g k i])
  then show ?case using Cons by auto
qed simp

lemma prng_next_inv:
  assumes "prng_inv g"
  obtains b g' where "prng_next g = Some (b, g')" and "prng_inv g'" and "isInit g' = isInit g"
proof -
  let ?i = "prng_i g + 1"
  let ?t = "prng_s g ! unat ?i"
  let ?j = "prng_j g + ?t"
  have b: "unat (x :: u8) < 256" for x using unsigned_less [of x, where ?'a = nat] by simp
  have l: "length (prng_s g) = 256" by (rule prng_inv_length [OF assms])
  let ?s = "(prng_s g)[unat ?i := prng_s g ! unat ?j, unat ?j := ?t]"
  have m: "mset ?s = mset (prng_s g)" using l b by (intro mset_exchange) simp_all
  have eq: "prng_next g = Some (?s ! unat (?t + ?s ! unat ?i), g\<lparr>prng_i := ?i, prng_j := ?j, prng_s := ?s\<rparr>)"
    using l b by (simp add: prng_next_def nth_opt_def Let_def)
  show thesis using m assms by (intro that [OF eq]) (simp_all add: prng_inv_def)
qed

lemma prng_bytes_inv: "prng_inv g \<Longrightarrow> \<exists>bs g'. prng_bytes n g = Some (bs, g') \<and> length bs = n \<and> prng_inv g' \<and> isInit g' = isInit g"
proof (induction n arbitrary: g)
  case (Suc n)
  obtain b g1 where g1: "prng_next g = Some (b, g1)" "prng_inv g1" "isInit g1 = isInit g" using prng_next_inv [OF Suc.prems] .
  obtain bs g2 where "prng_bytes n g1 = Some (bs, g2)" "length bs = n" "prng_inv g2" "isInit g2 = isInit g1" using Suc.IH [OF g1(2)] by blast
  then show ?case using g1 by simp
qed simp

section \<open>Properties\<close>

text \<open>C30: The generator never fails once the VFS delivers a seed: \<open>sqlite3_randomness\<close> writes exactly \<open>N\<close> bytes and its table
  stays a permutation of the 256 byte values; with \<open>N \<le> 0\<close> or a NULL buffer it writes nothing and
  resets the generator.\<close>

theorem randomness_invariant:
  assumes "length seed = 256" and "isInit g \<longrightarrow> prng_inv g"
  shows "\<exists>bs g'. sqlite3_randomness 0 seed N buf g = Some (bs, g') \<and> (isInit g' \<longrightarrow> prng_inv g') \<and>
    (if buf \<and> 0 < N then int (length bs) = N \<and> isInit g' else bs = [] \<and> \<not> isInit g')"
proof (cases "N \<le> 0 \<or> \<not> buf")
  case True
  then show ?thesis by (auto simp: sqlite3_randomness_def)
next
  case False
  have "\<exists>g1. (if \<not> isInit g then prng_seed seed g else Some g) = Some g1 \<and> prng_inv g1 \<and> isInit g1"
  proof (cases "isInit g")
    case False
    let ?g = "g\<lparr>prng_j := 0, prng_i := 0, prng_s := map word_of_nat [0..<256]\<rparr>"
    have "prng_inv ?g" "set [0..<256] \<subseteq> {..<256 :: nat}" by (auto simp: prng_inv_def)
    then obtain g1 where "foldO (seed_step seed) [0..<256] ?g = Some g1" "prng_inv g1"
      using seed_loop_inv [of ?g seed "[0..<256]"] assms(1) by blast
    then show ?thesis using False by (simp add: prng_seed_def Let_def prng_inv_def)
  qed (use assms in simp)
  then obtain g1 where g1: "(if \<not> isInit g then prng_seed seed g else Some g) = Some g1" "prng_inv g1" "isInit g1" by blast
  obtain bs g2 where "prng_bytes (nat N) g1 = Some (bs, g2)" "length bs = nat N" "prng_inv g2" "isInit g2 = isInit g1"
    using prng_bytes_inv [OF g1(2)] by blast
  then show ?thesis using False g1 unfolding sqlite3_randomness_def by auto
qed

theorem randomness_invariant_witness:
  "\<exists>bs g'. sqlite3_randomness 0 (replicate 256 7) 3 True \<lparr>isInit = False, prng_i = 0, prng_j = 0, prng_s = []\<rparr> = Some (bs, g') \<and>
     length bs = 3 \<and> prng_inv g'"
  using randomness_invariant [of "replicate 256 7" "\<lparr>isInit = False, prng_i = 0, prng_j = 0, prng_s = []\<rparr>" 3 True] by auto

end
