(* ===== verification/Base_Util.thy ===== *)
theory Base_Util
  imports Slist Ctype "HOL-Library.Signed_Division"
begin

text \<open>
  util/base.c: time arithmetic, copies of strings and memory, and splitting a string, which collects the
  pieces in a singly linked list (Slist). A string is the list of its bytes before the terminator. The copies
  are values, so the list's data are strings; a failed allocation of a copy has no defined result, as the
  code then writes through NULL. The atomic operations are sequential. Clocks, sleeping and sockets are
  calls of the operating system and are not modelled.
\<close>

section \<open>Atomic counters and time\<close>

definition atomic_int_get :: "i32 \<Rightarrow> i32" where "atomic_int_get a = a"
definition atomic_int_set :: "i32 \<Rightarrow> i32 \<Rightarrow> i32" where "atomic_int_set a newval = newval"
definition atomic_int_inc :: "i32 \<Rightarrow> i32" where "atomic_int_inc a = a + 1"

definition USEC_PER_SEC :: int where "USEC_PER_SEC = 1000000"

record n_timeval_t =
  tv_sec :: i32
  tv_usec :: i32

text \<open>Signed division and remainder of 32-bit integers by the constant.\<close>

definition usec_div :: "i32 \<Rightarrow> i32" where "usec_div m = word_of_int (sint m sdiv USEC_PER_SEC)"
definition usec_mod :: "i32 \<Rightarrow> i32" where "usec_mod m = word_of_int (sint m smod USEC_PER_SEC)"

definition time_val_add :: "n_timeval_t \<Rightarrow> i32 \<Rightarrow> n_timeval_t" where
  "time_val_add t microseconds =
     (if sint microseconds \<ge> 0 then
        let t = t\<lparr>tv_usec := tv_usec t + usec_mod microseconds\<rparr>;
            t = t\<lparr>tv_sec := tv_sec t + usec_div microseconds\<rparr> in
        if sint (tv_usec t) \<ge> USEC_PER_SEC then
          let t = t\<lparr>tv_usec := tv_usec t - word_of_int USEC_PER_SEC\<rparr> in t\<lparr>tv_sec := tv_sec t + 1\<rparr>
        else t
      else
        let microseconds = microseconds * (- 1);
            t = t\<lparr>tv_usec := tv_usec t - usec_mod microseconds\<rparr>;
            t = t\<lparr>tv_sec := tv_sec t - usec_div microseconds\<rparr> in
        if sint (tv_usec t) < 0 then
          let t = t\<lparr>tv_usec := tv_usec t + word_of_int USEC_PER_SEC\<rparr> in t\<lparr>tv_sec := tv_sec t - 1\<rparr>
        else t)"

section \<open>Copies\<close>

text \<open>The outer option is the definedness, the inner one is NULL. The length with the terminator is an \<open>int32_t\<close>; when
  it is not one, the copy is not that of the string.\<close>

definition n_strdup :: "faults \<Rightarrow> u8 list option \<Rightarrow> u8 list option option" where
  "n_strdup ms str = (case str of None \<Rightarrow> Some None
     | Some s \<Rightarrow> if alloc_ok ms \<and> int (length s) + 1 < 2 ^ 31 then Some (Some s) else None)"

text \<open>\<open>strncpy\<close> stops at the terminator and pads with zeros: the string in the new buffer is a prefix. The size
  \<open>n\<close> is an \<open>int32_t\<close>; when it is negative or \<open>n + 1\<close> is not one, the writes have no defined result.\<close>

definition n_strndup :: "faults \<Rightarrow> u8 list option \<Rightarrow> int \<Rightarrow> u8 list option option" where
  "n_strndup ms str n = (case str of None \<Rightarrow> Some None
     | Some s \<Rightarrow> if alloc_ok ms \<and> 0 \<le> n \<and> n + 1 < 2 ^ 31 then Some (Some (take (nat n) s)) else None)"

text \<open>\<open>mem\<close> is the bytes from the pointer on; reading more of them than there are has no result.\<close>

definition n_memdup :: "faults \<Rightarrow> u8 list option \<Rightarrow> nat \<Rightarrow> u8 list option option" where
  "n_memdup ms mem byte_size = (case mem of None \<Rightarrow> Some None
     | Some m \<Rightarrow> if alloc_ok ms \<and> byte_size \<le> length m then Some (Some (take byte_size m)) else None)"

section \<open>Splitting\<close>

text \<open>The C library's \<open>strstr\<close>, as the index of the first occurrence.\<close>

fun strstr :: "u8 list \<Rightarrow> u8 list \<Rightarrow> nat option" where
  "strstr s d = (if take (length d) s = d then Some 0
     else case s of [] \<Rightarrow> None | _ # r \<Rightarrow> map_option Suc (strstr r d))"

declare strstr.simps [simp del]

text \<open>\<open>str_array[n--] = slist->data\<close> for every node; \<open>n\<close> may pass zero after the last one.\<close>

partial_function (option) fill_array ::
    "u8 list sheap \<Rightarrow> ptr \<Rightarrow> u8 list option list \<Rightarrow> int \<Rightarrow> u8 list option list option" where
  "fill_array h slist arr n =
     (if slist = NULL then Some arr
      else do {
        node \<leftarrow> load h slist;
        if 0 \<le> n \<and> n < int (length arr) then fill_array h (snext node) (arr[nat n := sdata node]) (n - 1) else None })"

text \<open>\<open>s\<close> is the place of the delimiter in \<open>remainder\<close>. The lengths \<open>len\<close> and \<open>delimiter_len\<close> and the count
  \<open>n\<close> are of type \<open>uint32_t\<close>, and \<open>len\<close> is passed on as an \<open>int32_t\<close>.\<close>

partial_function (option) n_strsplit_loop ::
    "u8 list \<Rightarrow> faults \<Rightarrow> u8 list sheap \<Rightarrow> ptr \<Rightarrow> u32 \<Rightarrow> u8 list \<Rightarrow> nat option \<Rightarrow> nat
     \<Rightarrow> (faults \<times> u8 list sheap \<times> ptr \<times> u32 \<times> u8 list) option" where
  "n_strsplit_loop delimiter ms h string_list n remainder s max_tokens =
     (let max_tokens = max_tokens - 1 in
      case s of None \<Rightarrow> Some (ms, h, string_list, n, remainder)
      | Some i \<Rightarrow>
        if max_tokens = 0 then Some (ms, h, string_list, n, remainder)
        else do {
          let delimiter_len = (word_of_nat (length delimiter) :: u32);
          let len = (word_of_nat i :: u32);
          str \<leftarrow> n_strndup ms (Some remainder) (c_int (uint len));
          (h, string_list) \<leftarrow> n_slist_prepend h string_list str;
          let remainder = drop (i + unat delimiter_len) remainder;
          n_strsplit_loop delimiter (tl ms) h string_list (n + 1) remainder (strstr remainder delimiter) max_tokens })"

text \<open>The result is the array: the strings and the NULL that ends it. \<open>fresh\<close> is what \<open>malloc\<close> leaves in an entry.\<close>

definition n_strsplit ::
    "u8 list option \<Rightarrow> faults \<Rightarrow> u8 list sheap \<Rightarrow> u8 list \<Rightarrow> u8 list \<Rightarrow> u32 \<Rightarrow> (u8 list sheap \<times> u8 list option list) option" where
  "n_strsplit fresh ms h string delimiter max_tokens = do {
     let max_tokens = (if max_tokens < 1 then 0x7fffffff else max_tokens);
     (ms, h, string_list, n, remainder) \<leftarrow>
       n_strsplit_loop delimiter ms h NULL 0 string (strstr string delimiter) (unat max_tokens);
     (ms, h, string_list, n) \<leftarrow>
       (if string \<noteq> [] then do {
          str \<leftarrow> n_strdup ms (Some remainder);
          (h, string_list) \<leftarrow> n_slist_prepend h string_list str;
          Some (tl ms, h, string_list, n + 1) }
        else Some (ms, h, string_list, n));
     check (alloc_ok ms);
     check (unat n < unat (n + 1));
     let str_array = (replicate (unat (n + 1)) fresh)[unat n := None];
     str_array \<leftarrow> fill_array h string_list str_array (uint n - 1);
     h \<leftarrow> n_slist_free h string_list;
     Some (h, str_array) }"

text \<open>The loop of \<open>n_strsplit_set\<close> over the string: \<open>current\<close> is the beginning of the token, \<open>s\<close> the text from the
  current character on. \<open>delim_table\<close> is indexed by the byte. The count is an \<open>int32_t\<close> that must not overflow.\<close>

partial_function (option) n_strsplit_set_loop ::
    "bool list \<Rightarrow> int \<Rightarrow> faults \<Rightarrow> u8 list sheap \<Rightarrow> ptr \<Rightarrow> int \<Rightarrow> u8 list \<Rightarrow> u8 list
     \<Rightarrow> (faults \<times> u8 list sheap \<times> ptr \<times> int \<times> u8 list) option" where
  "n_strsplit_set_loop delim_table max_tokens ms h tokens n_tokens current s =
     (case s of [] \<Rightarrow> Some (ms, h, tokens, n_tokens, current)
      | c # s' \<Rightarrow> do {
          d \<leftarrow> nth_opt delim_table (unat c);
          check (d \<longrightarrow> n_tokens + 1 < 2 ^ 31);
          if d \<and> n_tokens + 1 < max_tokens then do {
            token \<leftarrow> n_strndup ms (Some current) (c_int (int (length current - length s)));
            (h, tokens) \<leftarrow> n_slist_prepend h tokens token;
            n_strsplit_set_loop delim_table max_tokens (tl ms) h tokens (n_tokens + 1) s' s' }
          else n_strsplit_set_loop delim_table max_tokens ms h tokens n_tokens current s' })"

definition n_strsplit_set ::
    "u8 list option \<Rightarrow> faults \<Rightarrow> u8 list sheap \<Rightarrow> u8 list \<Rightarrow> u8 list \<Rightarrow> i32 \<Rightarrow> (u8 list sheap \<times> u8 list option list) option" where
  "n_strsplit_set fresh ms h string delimiters max_tokens =
     (let max_tokens = (if sint max_tokens < 1 then 0x7fffffff else sint max_tokens) in
      if string = [] then do { check (alloc_ok ms); Some (h, [None]) }
      else do {
        let delim_table = fold (\<lambda>c t. t[unat c := True]) delimiters (replicate 256 False);
        (ms, h, tokens, n_tokens, current) \<leftarrow> n_strsplit_set_loop delim_table max_tokens ms h NULL 0 string string;
        token \<leftarrow> n_strndup ms (Some current) (c_int (int (length current)));
        (h, tokens) \<leftarrow> n_slist_prepend h tokens token;
        let n_tokens = n_tokens + 1;
        check (alloc_ok (tl ms));
        check (n_tokens + 1 < 2 ^ 31);
        let result = (replicate (nat (n_tokens + 1)) fresh)[nat n_tokens := None];
        result \<leftarrow> fill_array h tokens result (n_tokens - 1);
        h \<leftarrow> n_slist_free h tokens;
        Some (h, result) })"

end
