(* ===== verification/Base_Props.thy ===== *)
theory Base_Props
  imports Base_Util Slist_Props
begin

text \<open>
  Properties of util/base.c: splitting a string gives its pieces in order, releases every list node it used
  and never leaves an entry of the array unset; time arithmetic.
\<close>

section \<open>The array\<close>

lemma fill_array_run:
  "slist h p xs \<Longrightarrow> length xs \<le> length arr \<Longrightarrow>
   fill_array h p arr (int (length xs) - 1) = Some (rev (map snd xs) @ drop (length xs) arr)"
proof (induction xs arbitrary: p arr)
  case Nil
  then show ?case by (subst fill_array.simps) simp
next
  case (Cons x xs)
  obtain n where n: "x = (p, sdata n)" "p \<noteq> 0" "cells h p = Some n" "load h p = Some n" "slist h (snext n) xs"
    using Cons.prems(1) by (rule slist_ConsE)
  have l: "length xs < length arr" using Cons.prems(2) by simp
  have "fill_array h p arr (int (length (x # xs)) - 1) = fill_array h (snext n) (arr[length xs := sdata n]) (int (length xs) - 1)"
    using n l by (subst fill_array.simps) simp
  also have "\<dots> = Some (rev (map snd xs) @ drop (length xs) (arr[length xs := sdata n]))"
    using l n(5) by (intro Cons.IH) simp_all
  also have "drop (length xs) (arr[length xs := sdata n]) = sdata n # drop (Suc (length xs)) arr"
    using l by (simp add: drop_update_swap Cons_nth_drop_Suc [symmetric])
  finally show ?case by (simp add: n(1))
qed

text \<open>After the loops: the nodes become the array and are freed.\<close>

lemma collect:
  assumes "wf_heap h" and "hstep {brk h..<brk h + length xs} (length xs) h h1" and "slist h1 p xs"
    and "addrs xs = {brk h..<brk h + length xs}" and "map snd xs = rev (map Some ps)"
  shows "\<exists>h'. do { arr \<leftarrow> fill_array h1 p ((replicate (length xs + 1) fresh)[length xs := None]) (int (length xs) - 1);
      h \<leftarrow> n_slist_free h1 p; Some (h, arr) } = Some (h', map Some ps @ [None]) \<and> cells h' = cells h"
proof -
  have d: "drop n ((replicate (n + 1) fresh)[n := None]) = [None]" for n
    by (induction n) simp_all
  define A where "A = (replicate (length xs + 1) fresh)[length xs := None]"
  have "length A = length xs + 1" unfolding A_def length_list_update length_replicate ..
  moreover have "drop (length xs) A = [None]" unfolding A_def by (rule d)
  ultimately have f: "fill_array h1 p A (int (length xs) - 1) = Some (map Some ps @ [None])"
    using fill_array_run [OF assms(3), of A] assms(5) by simp
  obtain h2 where h2: "n_slist_free h1 p = Some h2" "hstep (addrs xs) 0 h1 h2" "\<forall>a \<in> addrs xs. cells h2 a = None"
    using n_slist_free_spec [OF hstep_wf [OF assms(2)] assms(3)] by blast
  have "cells h2 a = cells h a" for a
  proof (cases "a \<in> addrs xs")
    case True
    have "cells h a = None"
    proof (rule ccontr)
      assume "cells h a \<noteq> None"
      then have "a < brk h" using assms(1) by (auto simp: wf_heap_def)
      then show False using True assms(4) by simp
    qed
    then show ?thesis using bspec [OF h2(3) True] by simp
  next
    case False
    then show ?thesis using hstep_cells [OF h2(2)] hstep_cells [OF assms(2)] assms(4) by simp
  qed
  then show ?thesis using f h2(1) unfolding A_def [symmetric] by (auto simp: fun_eq_iff)
qed

text \<open>One more node in front.\<close>

lemma prepend_node:
  assumes "wf_heap h" and "hstep {brk h..<brk h + length xs} (length xs) h h1" and "slist h1 p xs"
    and "addrs xs = {brk h..<brk h + length xs}" and "length xs < avail h"
  shows "\<exists>h2. n_slist_prepend h1 p d = Some (h2, brk h1) \<and> hstep {brk h..<brk h + Suc (length xs)} (Suc (length xs)) h h2 \<and>
    slist h2 (brk h1) ((brk h1, d) # xs) \<and> addrs ((brk h1, d) # xs) = {brk h..<brk h + Suc (length xs)}"
proof -
  have b: "brk h1 = brk h + length xs" "avail h1 = avail h - length xs" using assms(2) by (simp_all add: hstep_def)
  obtain h2 where h2: "n_slist_prepend h1 p d = Some (h2, brk h1)" "hstep {brk h1} 1 h1 h2" "slist h2 (brk h1) ((brk h1, d) # xs)"
    using n_slist_prepend_spec [OF hstep_wf [OF assms(2)] _ assms(3)] b assms(5) by auto
  have "hstep {brk h..<brk h + Suc (length xs)} (Suc (length xs)) h h2"
    by (rule hstep_trans2 [OF assms(2) h2(2)]) (auto simp: b)
  then show ?thesis using h2 assms(4) b by (auto simp: atLeastLessThanSuc)
qed

section \<open>Splitting at a string\<close>

lemma strstr_Some: "strstr s d = Some i \<Longrightarrow> s = take i s @ d @ drop (i + length d) s \<and> i + length d \<le> length s"
proof (induction s d arbitrary: i rule: strstr.induct)
  case (1 s d)
  show ?case
  proof (cases "take (length d) s = d")
    case True
    then have "i = 0" using 1 by (simp add: strstr.simps [of s d])
    moreover have "length d \<le> length s" using arg_cong [OF True, of length] by simp
    moreover have "s = d @ drop (length d) s" using append_take_drop_id [of "length d" s] True by simp
    ultimately show ?thesis by simp
  next
    case False
    then obtain c r j where j: "s = c # r" "strstr r d = Some j" "i = Suc j"
      using 1 by (auto simp: strstr.simps [of s d] split: list.splits)
    from 1(1) [OF False j(1,2)] show ?thesis using j by simp
  qed
qed

lemma strstr_first: "strstr s d = Some i \<Longrightarrow> d \<noteq> [] \<Longrightarrow> strstr (take i s) d = None"
proof (induction s d arbitrary: i rule: strstr.induct)
  case (1 s d)
  show ?case
  proof (cases "take (length d) s = d")
    case True
    then have "i = 0" using 1 by (simp add: strstr.simps [of s d])
    then show ?thesis using 1 by (simp add: strstr.simps [of "[]" d])
  next
    case False
    then obtain c r j where j: "s = c # r" "strstr r d = Some j" "i = Suc j"
      using 1 by (auto simp: strstr.simps [of s d] split: list.splits)
    have ih: "strstr (take j r) d = None" using 1(1) [OF False j(1,2)] 1 by blast
    have "take (length d) (take i s) \<noteq> d"
    proof
      assume a: "take (length d) (take i s) = d"
      then have "length d \<le> i" using arg_cong [OF a, of length] unfolding length_take by linarith
      then show False using a False by (simp add: min_def)
    qed
    then show ?thesis using ih j by (simp add: strstr.simps [of "c # take j r" d])
  qed
qed

primrec split_heads :: "nat \<Rightarrow> u8 list \<Rightarrow> u8 list \<Rightarrow> u8 list list \<times> u8 list" where
  "split_heads 0 d s = ([], s)"
| "split_heads (Suc m) d s = (case strstr s d of None \<Rightarrow> ([], s)
     | Some i \<Rightarrow> let (hs, r) = split_heads m d (drop (i + length d) s) in (take i s # hs, r))"

lemma heads_length: "d \<noteq> [] \<Longrightarrow> length (fst (split_heads m d s)) \<le> length s"
proof (induction m arbitrary: s)
  case (Suc m)
  show ?case
  proof (cases "strstr s d")
    case (Some i)
    have "length (drop (i + length d) s) < length s" using strstr_Some [OF Some] Suc.prems by (cases d) auto
    then show ?thesis using Suc.IH [OF Suc.prems, of "drop (i + length d) s"] Some
      by (auto simp: Let_def split: prod.splits)
  qed simp
qed simp

lemma heads_rest: "length (snd (split_heads m d s)) \<le> length s"
proof (induction m arbitrary: s)
  case (Suc m)
  show ?case
  proof (cases "strstr s d")
    case (Some i)
    then show ?thesis using Suc.IH [of "drop (i + length d) s"]
      by (auto simp: Let_def split: prod.splits)
  qed simp
qed simp

lemma small_u32: "n < 2 ^ 31 \<Longrightarrow> unat (word_of_nat n :: u32) = n" "n < 2 ^ 31 \<Longrightarrow> uint (word_of_nat n :: u32) = int n"
  by (simp_all add: unsigned_of_nat take_bit_nat_eq_self)

lemma strndup_small: "n + 1 < 2 ^ 31 \<Longrightarrow> alloc_ok ms \<Longrightarrow> n_strndup ms (Some s) (int n) = Some (Some (take n s))"
  by (simp add: n_strndup_def)

lemma split_loop_run:
  assumes h: "wf_heap h" and d: "d \<noteq> []"
  shows "no_fault ms \<Longrightarrow> hstep {brk h..<brk h + length xs} (length xs) h h1 \<Longrightarrow> slist h1 p xs \<Longrightarrow>
    addrs xs = {brk h..<brk h + length xs} \<Longrightarrow> length xs + length (fst (split_heads m d s)) \<le> avail h \<Longrightarrow>
    length s + 1 < 2 ^ 31 \<Longrightarrow>
    \<exists>ms' h2 p2 ys. n_strsplit_loop d ms h1 p (word_of_nat (length xs)) s (strstr s d) (Suc m) =
        Some (ms', h2, p2, word_of_nat (length ys), snd (split_heads m d s)) \<and> no_fault ms' \<and>
      hstep {brk h..<brk h + length ys} (length ys) h h2 \<and> slist h2 p2 ys \<and> addrs ys = {brk h..<brk h + length ys} \<and>
      map snd ys = rev (map Some (fst (split_heads m d s))) @ map snd xs"
proof (induction m arbitrary: ms h1 p xs s)
  case 0
  then show ?case by (subst n_strsplit_loop.simps) (auto split: option.split)
next
  case (Suc m)
  show ?case
  proof (cases "strstr s d")
    case None
    then show ?thesis using Suc.prems by (subst n_strsplit_loop.simps) auto
  next
    case (Some i)
    let ?r = "drop (i + length d) s"
    obtain hs r where hr: "split_heads m d ?r = (hs, r)" by force
    have e: "split_heads (Suc m) d s = (take i s # hs, r)" using Some hr by simp
    have il: "i + length d \<le> length s" using strstr_Some [OF Some] by blast
    then have i: "i + 1 < 2 ^ 31" "length d < 2 ^ 31" using Suc.prems(6) d by (cases d; simp)+
    have "length xs < avail h" using Suc.prems(5) [unfolded e] by simp
    then obtain h2 where h2: "n_slist_prepend h1 p (Some (take i s)) = Some (h2, brk h1)"
        "hstep {brk h..<brk h + Suc (length xs)} (Suc (length xs)) h h2" "slist h2 (brk h1) ((brk h1, Some (take i s)) # xs)"
        "addrs ((brk h1, Some (take i s)) # xs) = {brk h..<brk h + Suc (length xs)}"
      using prepend_node [OF h Suc.prems(2-4)] by blast
    have c: "n_strndup ms (Some s) (c_int (uint (word_of_nat i :: u32))) = Some (Some (take i s))"
      "unat (word_of_nat (length d) :: u32) = length d"
      using strndup_small [OF i(1) no_fault_alloc(1) [OF Suc.prems(1)], of s] i small_u32(2) [of i] small_u32(1) [OF i(2)]
      by (simp_all add: c_int_id)
    have "n_strsplit_loop d ms h1 p (word_of_nat (length xs)) s (strstr s d) (Suc (Suc m)) =
        n_strsplit_loop d (tl ms) h2 (brk h1) (word_of_nat (length ((brk h1, Some (take i s)) # xs))) ?r (strstr ?r d) (Suc m)"
      using h2(1) Some
      by (subst n_strsplit_loop.simps) (simp add: Let_def c add.commute)
    moreover have "length ?r + 1 < 2 ^ 31" using Suc.prems(6) by simp
    ultimately show ?thesis
      using Suc.IH [OF no_fault_alloc(2) [OF Suc.prems(1)], of "(brk h1, Some (take i s)) # xs" h2 "brk h1" ?r] h2 Suc.prems(5) hr
      unfolding e by auto
  qed
qed

text \<open>The pieces of a string that is not empty.\<close>

definition split_pieces :: "nat \<Rightarrow> u8 list \<Rightarrow> u8 list \<Rightarrow> u8 list list" where
  "split_pieces m d s = (let (hs, r) = split_heads (m - 1) d s in hs @ [r])"

lemma strsplit_pieces:
  assumes h: "wf_heap h" and ms: "no_fault ms" and d: "d \<noteq> []" and a: "length s < avail h"
    and sm: "length s + 1 < 2 ^ 31"
  shows "\<exists>h'. n_strsplit fresh ms h s d mx = Some (h', map Some (if s = [] then [] else split_pieces (if mx < 1 then 0x7fffffff else unat mx) d s) @ [None])
    \<and> cells h' = cells h"
proof -
  let ?M = "unat (if mx < 1 then 0x7fffffff else mx)"
  have M: "?M = Suc (?M - 1)" "?M = (if mx < 1 then 0x7fffffff else unat mx)"
  proof -
    have "0 < ?M" by (auto simp: word_less_nat_alt unat_gt_0 word_gt_0_no)
    then show "?M = Suc (?M - 1)" by simp
  qed simp
  obtain hs r where hr: "split_heads (?M - 1) d s = (hs, r)" by force
  have hl: "length hs \<le> length s" using heads_length [OF d, of "?M - 1" s] hr by simp
  have "hstep {brk h..<brk h + length []} (length []) h h" "slist h 0 []" using h by (simp_all add: hstep_refl)
  then obtain ms' h2 p2 ys where l: "n_strsplit_loop d ms h 0 0 s (strstr s d) ?M = Some (ms', h2, p2, word_of_nat (length ys), r)"
      "no_fault ms'" "hstep {brk h..<brk h + length ys} (length ys) h h2" "slist h2 p2 ys" "addrs ys = {brk h..<brk h + length ys}"
      "map snd ys = rev (map Some hs)"
    using split_loop_run [OF h d ms, of "[]" h 0 "?M - 1" s] hr a hl M(1) sm by auto
  have ly: "length ys = length hs" using arg_cong [OF l(6), of length] by simp
  then have sy: "length ys + 1 < 2 ^ 31" using hl sm by simp
  have lr: "length r < 2147483647" using heads_rest [of "?M - 1" d s] hr sm by simp
  have u: "unat (word_of_nat k + 1 :: u32) = k + 1" "unat (word_of_nat k :: u32) = k" "uint (word_of_nat k :: u32) = int k"
    if "k < 2 ^ 31" for k
  proof -
    have "unat (word_of_nat (k + 1) :: u32) = k + 1" using that by (simp only: unsigned_of_nat) (simp add: take_bit_nat_eq_self)
    then show "unat (word_of_nat k + 1 :: u32) = k + 1" by (simp add: add.commute)
  qed (use small_u32 that in simp_all)
  show ?thesis
  proof (cases "s = []")
    case True
    then have "hs = []" using hl by simp
    then have y: "ys = []" using ly by simp
    obtain h' where "do { arr \<leftarrow> fill_array h2 p2 ((replicate (length ys + 1) fresh)[length ys := None]) (int (length ys) - 1);
        h \<leftarrow> n_slist_free h2 p2; Some (h, arr) } = Some (h', map Some [] @ [None])" "cells h' = cells h"
      using collect [OF h l(3-5), of "[]" fresh] y by auto
    then show ?thesis using l(1) no_fault_alloc(1) [OF l(2)] True y u [of 0] by (auto simp: n_strsplit_def Let_def)
  next
    case False
    have "length ys < avail h" using ly hl a by simp
    then obtain h3 where h3: "n_slist_prepend h2 p2 (Some r) = Some (h3, brk h2)" "hstep {brk h..<brk h + Suc (length ys)} (Suc (length ys)) h h3"
        "slist h3 (brk h2) ((brk h2, Some r) # ys)" "addrs ((brk h2, Some r) # ys) = {brk h..<brk h + Suc (length ys)}"
      using prepend_node [OF h l(3-5)] by blast
    let ?ys = "(brk h2, Some r) # ys"
    obtain h' where h': "do { arr \<leftarrow> fill_array h3 (brk h2) ((replicate (length ?ys + 1) fresh)[length ?ys := None]) (int (length ?ys) - 1);
        h \<leftarrow> n_slist_free h3 (brk h2); Some (h, arr) } = Some (h', map Some (hs @ [r]) @ [None])" "cells h' = cells h"
      using collect [OF h _ h3(3), of "hs @ [r]" fresh] h3(2,4) l(6) by auto
    have "split_pieces (if mx < 1 then 0x7fffffff else unat mx) d s = hs @ [r]"
      using hr M(2) by (simp add: split_pieces_def)
    moreover have "word_of_nat (length ys) + 1 = (word_of_nat (length ?ys) :: u32)" by (simp add: add.commute)
    moreover have "length ?ys < 2 ^ 31" using sy by simp
    note v = u [OF this]
    ultimately show ?thesis
      using l(1) no_fault_alloc [OF l(2)] no_fault_alloc(1) [OF no_fault_alloc(2) [OF l(2)]] False h3(1) h'
      by (simp add: n_strsplit_def n_strdup_def Let_def v lr del: of_nat_Suc length_Cons)
  qed
qed

section \<open>Splitting at a set of characters\<close>

text \<open>The reference: at most \<open>k\<close> cuts, each at the first character with \<open>P\<close>.\<close>

primrec cut_at :: "(u8 \<Rightarrow> bool) \<Rightarrow> nat \<Rightarrow> u8 list \<Rightarrow> u8 list list" where
  "cut_at P 0 s = [s]"
| "cut_at P (Suc k) s = (case dropWhile (\<lambda>c. \<not> P c) s of [] \<Rightarrow> [s]
     | _ # r \<Rightarrow> takeWhile (\<lambda>c. \<not> P c) s # cut_at P k r)"

lemma cut_at_ne: "cut_at P k s \<noteq> []"
  by (cases k) (auto split: list.split)

lemma cut_at_Nil: "cut_at P k [] = [[]]"
  by (cases k) simp_all

lemma cut_at_skip: "\<not> P c \<or> k = 0 \<Longrightarrow> cut_at P k (c # s) = (c # hd (cut_at P k s)) # tl (cut_at P k s)"
  by (cases k; cases "dropWhile (\<lambda>c. \<not> P c) s") (auto simp del: dropWhile_eq_Nil_conv)

lemma cut_at_cut: "P c \<Longrightarrow> cut_at P (Suc k) (c # s) = [] # cut_at P k s"
  by simp

lemma cut_at_length: "length (cut_at P k s) \<le> Suc (length s)"
proof (induction k arbitrary: s)
  case (Suc k)
  show ?case
  proof (cases "dropWhile (\<lambda>c. \<not> P c) s")
    case (Cons c r)
    have "Suc (length r) \<le> length s" using length_dropWhile_le [of "\<lambda>c. \<not> P c" s] Cons by simp
    then show ?thesis using Suc.IH [of r] Cons by simp
  qed (simp del: dropWhile_eq_Nil_conv)
qed simp

lemma cut_at_last: "length (last (cut_at P k s)) \<le> length s"
proof (induction k arbitrary: s)
  case (Suc k)
  have t: "length (takeWhile (\<lambda>c. \<not> P c) s) \<le> length s" by (rule length_takeWhile_le)
  show ?case
  proof (cases "dropWhile (\<lambda>c. \<not> P c) s")
    case (Cons c r)
    have "Suc (length r) \<le> length s" using length_dropWhile_le [of "\<lambda>c. \<not> P c" s] Cons by simp
    then show ?thesis using Suc.IH [of r] Cons cut_at_ne [of P k r] by simp
  qed (use t in \<open>simp del: dropWhile_eq_Nil_conv\<close>)
qed simp

text \<open>The cut pieces with a text in front of the first.\<close>

definition pre_first :: "u8 list \<Rightarrow> u8 list list \<Rightarrow> u8 list list" where
  "pre_first w ps = (w @ hd ps) # tl ps"

lemma pre_first_snoc: "pre_first w ((c # hd ps) # tl ps) = pre_first (w @ [c]) ps"
  by (simp add: pre_first_def)

lemma set_loop_run:
  assumes h: "wf_heap h" and t: "length tbl = 256"
  shows "no_fault ms \<Longrightarrow> hstep {brk h..<brk h + length xs} (length xs) h h1 \<Longrightarrow> slist h1 p xs \<Longrightarrow>
    addrs xs = {brk h..<brk h + length xs} \<Longrightarrow> int (length xs) + 1 \<le> mx \<Longrightarrow>
    length xs + length (cut_at (\<lambda>c. tbl ! unat c) (nat (mx - int (length xs) - 1)) s) \<le> avail h \<Longrightarrow>
    length w + length s + 1 < 2 ^ 31 \<Longrightarrow> length xs + length s + 1 < 2 ^ 31 \<Longrightarrow>
    \<exists>ms' h2 p2 ys. n_strsplit_set_loop tbl mx ms h1 p (int (length xs)) (w @ s) s =
        Some (ms', h2, p2, int (length ys), last (pre_first w (cut_at (\<lambda>c. tbl ! unat c) (nat (mx - int (length xs) - 1)) s))) \<and>
      no_fault ms' \<and> hstep {brk h..<brk h + length ys} (length ys) h h2 \<and> slist h2 p2 ys \<and> addrs ys = {brk h..<brk h + length ys} \<and>
      map snd ys = rev (map Some (butlast (pre_first w (cut_at (\<lambda>c. tbl ! unat c) (nat (mx - int (length xs) - 1)) s)))) @ map snd xs"
proof (induction s arbitrary: ms h1 p xs w)
  case Nil
  then show ?case by (subst n_strsplit_set_loop.simps) (auto simp: cut_at_Nil pre_first_def)
next
  case (Cons c s)
  let ?P = "\<lambda>c. tbl ! unat c"
  let ?k = "nat (mx - int (length xs) - 1)"
  have tc: "nth_opt tbl (unat c) = Some (tbl ! unat c)"
    using t unsigned_less [of c, where ?'a = nat] by (simp add: nth_opt_def)
  show ?case
  proof (cases "?P c \<and> int (length xs) + 1 < mx")
    case True
    let ?k' = "nat (mx - int (Suc (length xs)) - 1)"
    have kk: "?k = Suc ?k'" using True Suc_nat_eq_nat_zadd1 [of "mx - int (Suc (length xs)) - 1"] by simp
    have e: "cut_at ?P ?k (c # s) = [] # cut_at ?P ?k' s" unfolding kk using True by (intro cut_at_cut) simp
    have pf: "pre_first w (cut_at ?P ?k (c # s)) = w # pre_first [] (cut_at ?P ?k' s)"
      unfolding e pre_first_def using cut_at_ne [of ?P ?k' s] by simp
    have "length xs < avail h" using Cons.prems(6) [unfolded e] by simp
    then obtain h2 where h2: "n_slist_prepend h1 p (Some w) = Some (h2, brk h1)"
        "hstep {brk h..<brk h + Suc (length xs)} (Suc (length xs)) h h2" "slist h2 (brk h1) ((brk h1, Some w) # xs)"
        "addrs ((brk h1, Some w) # xs) = {brk h..<brk h + Suc (length xs)}"
      using prepend_node [OF h Cons.prems(2-4)] by blast
    have c: "n_strndup ms (Some (w @ c # s)) (c_int (int (length w))) = Some (Some w)"
      using strndup_small [OF _ no_fault_alloc(1) [OF Cons.prems(1)], of "length w" "w @ c # s"] Cons.prems(7) by (simp add: c_int_id)
    have "n_strsplit_set_loop tbl mx ms h1 p (int (length xs)) (w @ c # s) (c # s) =
        n_strsplit_set_loop tbl mx (tl ms) h2 (brk h1) (int (length ((brk h1, Some w) # xs))) ([] @ s) s"
      using h2(1) True tc Cons.prems(8)
      by (subst n_strsplit_set_loop.simps) (simp add: c add.commute)
    moreover have "length ((brk h1, Some w) # xs) + length (cut_at ?P ?k' s) \<le> avail h" "int (length ((brk h1, Some w) # xs)) + 1 \<le> mx"
      "length [] + length s + 1 < 2 ^ 31" "length ((brk h1, Some w) # xs) + length s + 1 < 2 ^ 31"
      using Cons.prems(6) [unfolded e] Cons.prems(7,8) True by simp_all
    ultimately show ?thesis
      using Cons.IH [OF no_fault_alloc(2) [OF Cons.prems(1)], of "(brk h1, Some w) # xs" h2 "brk h1" "[]"] h2
      unfolding pf by (auto simp: pre_first_def)
  next
    case False
    then have "\<not> ?P c \<or> ?k = 0" using Cons.prems(5) by auto
    note e = cut_at_skip [of ?P, OF this, of s]
    have "n_strsplit_set_loop tbl mx ms h1 p (int (length xs)) (w @ c # s) (c # s) =
        n_strsplit_set_loop tbl mx ms h1 p (int (length xs)) ((w @ [c]) @ s) s"
      using False tc Cons.prems(8) by (subst n_strsplit_set_loop.simps) auto
    moreover have "length xs + length (cut_at ?P ?k s) \<le> avail h" "length (w @ [c]) + length s + 1 < 2 ^ 31"
      "length xs + length s + 1 < 2 ^ 31"
      using Cons.prems(6-8) cut_at_ne [of ?P ?k s] unfolding e by simp_all
    ultimately show ?thesis
      using Cons.IH [OF Cons.prems(1-5), of "w @ [c]"] unfolding e pre_first_snoc by simp
  qed
qed

lemma delim_table_at: "length (fold (\<lambda>c t. t[unat c := True]) ds (replicate 256 False)) = 256"
  "fold (\<lambda>c t. t[unat c := True]) ds (replicate 256 False) ! unat (c :: u8) \<longleftrightarrow> c \<in> set ds"
proof -
  have l: "length (fold (\<lambda>c t. t[unat c := True]) ds t) = length t" for t :: "bool list"
    by (induction ds arbitrary: t) simp_all
  then show "length (fold (\<lambda>c t. t[unat c := True]) ds (replicate 256 False)) = 256" by simp
  have b: "unat (c :: u8) < 256" for c using unsigned_less [of c, where ?'a = nat] by simp
  have "length t = 256 \<Longrightarrow> fold (\<lambda>c t. t[unat c := True]) ds t ! unat c \<longleftrightarrow> c \<in> set ds \<or> t ! unat c" for t :: "bool list"
  proof (induction ds arbitrary: t)
    case (Cons d ds)
    show ?case using Cons b [of c] b [of d] by (cases "c = d") (auto simp: nth_list_update word_unat_eq_iff)
  qed simp
  then show "fold (\<lambda>c t. t[unat c := True]) ds (replicate 256 False) ! unat c \<longleftrightarrow> c \<in> set ds" using b by simp
qed

lemma strsplit_set_cut:
  assumes h: "wf_heap h" and ms: "no_fault ms" and a: "length s + 1 < avail h" and ne: "s \<noteq> []"
    and sm: "length s + 2 < 2 ^ 31"
  shows "\<exists>h'. n_strsplit_set fresh ms h s ds mx = Some (h',
      map Some (cut_at (\<lambda>c. c \<in> set ds) ((if sint mx < 1 then 0x7fffffff else nat (sint mx)) - 1) s) @ [None])
    \<and> cells h' = cells h"
proof -
  let ?m = "if sint mx < 1 then 0x7fffffff else sint mx"
  let ?t = "fold (\<lambda>c t. t[unat c := True]) ds (replicate 256 False)"
  let ?k = "(if sint mx < 1 then 0x7fffffff else nat (sint mx)) - 1"
  let ?ps = "cut_at (\<lambda>c. c \<in> set ds) ?k s"
  have k: "nat (?m - int 0 - 1) = ?k" by (simp add: nat_diff_distrib)
  have m1: "1 \<le> ?m" by simp
  have P: "(\<lambda>c. ?t ! unat c) = (\<lambda>c. c \<in> set ds)" by (simp add: delim_table_at fun_eq_iff)
  have n: "length ?ps \<le> Suc (length s)" by (rule cut_at_length)
  have pf: "pre_first [] ?ps = ?ps" using cut_at_ne by (simp add: pre_first_def)
  have "hstep {brk h..<brk h + length []} (length []) h h" "slist h 0 []" using h by (simp_all add: hstep_refl)
  then obtain ms' h2 p2 ys where l: "n_strsplit_set_loop ?t ?m ms h 0 0 s s = Some (ms', h2, p2, int (length ys), last ?ps)"
      "no_fault ms'" "hstep {brk h..<brk h + length ys} (length ys) h h2" "slist h2 p2 ys" "addrs ys = {brk h..<brk h + length ys}"
      "map snd ys = rev (map Some (butlast ?ps))"
    using set_loop_run [OF h delim_table_at(1) ms, of "[]" h 0 ?m ds s "[]", unfolded P list.size of_nat_0 k pf] n a m1 sm by auto
  have ly: "Suc (length ys) = length ?ps" using arg_cong [OF l(6), of length] cut_at_ne [of "\<lambda>c. c \<in> set ds" ?k s] by (cases ?ps) simp_all
  have "length ys < avail h" using ly n a by simp
  then obtain h3 where h3: "n_slist_prepend h2 p2 (Some (last ?ps)) = Some (h3, brk h2)"
      "hstep {brk h..<brk h + Suc (length ys)} (Suc (length ys)) h h3" "slist h3 (brk h2) ((brk h2, Some (last ?ps)) # ys)"
      "addrs ((brk h2, Some (last ?ps)) # ys) = {brk h..<brk h + Suc (length ys)}"
    using prepend_node [OF h l(3-5)] by blast
  let ?ys = "(brk h2, Some (last ?ps)) # ys"
  have "map snd ?ys = rev (map Some (butlast ?ps @ [last ?ps]))" using l(6) by simp
  then have my: "map snd ?ys = rev (map Some ?ps)" using append_butlast_last_id [OF cut_at_ne] by simp
  obtain h' where h': "do { arr \<leftarrow> fill_array h3 (brk h2) ((replicate (length ?ys + 1) fresh)[length ?ys := None]) (int (length ?ys) - 1);
      h \<leftarrow> n_slist_free h3 (brk h2); Some (h, arr) } = Some (h', map Some ?ps @ [None])" "cells h' = cells h"
    using collect [OF h _ h3(3) _ my, of fresh] h3(2,4) by auto
  have nat1: "nat (int (length ys) + 1 + 1) = length ?ys + 1" "nat (int (length ys) + 1) = length ?ys" "int (length ys) + 1 - 1 = int (length ?ys) - 1"
    by (simp_all add: nat_add_distrib)
  have ly2: "length ys < 2147483646" using ly n sm by simp
  obtain x where x: "last ?ps = x" by blast
  have "last ?ps = take (length (last ?ps)) (last ?ps)" by simp
  have "length (last ?ps) + 1 < 2 ^ 31" using cut_at_last [of "\<lambda>c. c \<in> set ds" ?k s] sm by simp
  then have strn: "n_strndup ms' (Some (last ?ps)) (c_int (int (length (last ?ps)))) = Some (Some (last ?ps))"
    using strndup_small [OF _ no_fault_alloc(1) [OF l(2)], of "length (last ?ps)" "last ?ps"] by (simp add: c_int_id)
  have "n_strsplit_set fresh ms h s ds mx = do { arr \<leftarrow> fill_array h3 (brk h2) ((replicate (length ?ys + 1) fresh)[length ?ys := None]) (int (length ?ys) - 1);
      h \<leftarrow> n_slist_free h3 (brk h2); Some (h, arr) }"
    unfolding n_strsplit_set_def Let_def l(1) [unfolded x] bind.bind_lunit prod.case nat1
    using no_fault_alloc [OF l(2)] no_fault_alloc(1) [OF no_fault_alloc(2) [OF l(2)]] ne h3(1) [unfolded x]
    by (simp add: strn [unfolded x] ly2 del: replicate.simps list_update.simps)
  from trans [OF this h'(1)] h'(2) show ?thesis by blast
qed

section \<open>Time\<close>

definition time_us :: "n_timeval_t \<Rightarrow> int" where
  "time_us t = sint (tv_sec t) * 1000000 + sint (tv_usec t)"

definition time_normal :: "n_timeval_t \<Rightarrow> bool" where
  "time_normal t \<longleftrightarrow> 0 \<le> sint (tv_usec t) \<and> sint (tv_usec t) < 1000000"

lemma sint32_of_int: "- (2 ^ 31) \<le> x \<Longrightarrow> x < 2 ^ 31 \<Longrightarrow> sint (word_of_int x :: i32) = x"
  by (simp add: signed_of_int signed_take_bit_int_eq_self)

lemma sint32_add: "- (2 ^ 31) \<le> sint a + sint b \<Longrightarrow> sint a + sint b < 2 ^ 31 \<Longrightarrow> sint (a + b :: i32) = sint a + sint b"
  by (simp add: signed_take_bit_int_eq_self sint_word_ariths)

lemma sint32_sub: "- (2 ^ 31) \<le> sint a - sint b \<Longrightarrow> sint a - sint b < 2 ^ 31 \<Longrightarrow> sint (a - b :: i32) = sint a - sint b"
  by (simp add: signed_take_bit_int_eq_self sint_word_ariths)

lemma usec_parts:
  assumes "0 \<le> sint m"
  shows "sint (usec_mod m) = sint m mod 1000000" and "sint (usec_div m) = sint m div 1000000"
    and "0 \<le> sint m mod 1000000" and "sint m mod 1000000 < 1000000" and "0 \<le> sint m div 1000000" and "sint m div 1000000 < 2148"
proof -
  have b: "sint m < 2 ^ 31" using sint_less [of m] by simp
  have d: "sint m div 1000000 < 2148" "0 \<le> sint m div 1000000" using b assms by simp_all
  have "sint m smod 1000000 = sint m mod 1000000" "sint m sdiv 1000000 = sint m div 1000000"
    using assms by (simp_all add: signed_modulo_int_def signed_divide_int_def sgn_if minus_div_mult_eq_mod [symmetric])
  then show "sint (usec_mod m) = sint m mod 1000000" "sint (usec_div m) = sint m div 1000000"
    unfolding usec_mod_def usec_div_def USEC_PER_SEC_def using d b
    by (simp_all add: sint32_of_int pos_mod_bound less_trans [OF pos_mod_bound])
  show "0 \<le> sint m mod 1000000" "sint m mod 1000000 < 1000000" by simp_all
  show "0 \<le> sint m div 1000000" "sint m div 1000000 < 2148" using d by simp_all
qed

lemma sint_neg: "sint m > - (2 ^ 31) \<Longrightarrow> sint (m * (- 1) :: i32) = - sint m"
  using sint_less [of m] sint32_sub [of 0 m] by simp

lemma parts_sum:
  fixes s u D R m :: int
  assumes "1000000 * D + R = - m"
  shows "(s - D - 1) * 1000000 + (u - R + 1000000) = s * 1000000 + u + m" and "(s - D) * 1000000 + (u - R) = s * 1000000 + u + m"
  using assms by algebra+

lemma time_val_add_exact:
  assumes n: "time_normal t" and m: "sint m > - (2 ^ 31)" and s: "- (2 ^ 31) + 2149 < sint (tv_sec t)" "sint (tv_sec t) < 2 ^ 31 - 2149"
  shows "time_us (time_val_add t m) = time_us t + sint m \<and> time_normal (time_val_add t m)"
proof -
  have u: "0 \<le> sint (tv_usec t)" "sint (tv_usec t) < 1000000" using n by (simp_all add: time_normal_def)
  show ?thesis
  proof (cases "sint m \<ge> 0")
    case True
    note p = usec_parts [OF True]
    have e: "sint m = sint m div 1000000 * 1000000 + sint m mod 1000000" by simp
    have a: "sint (tv_usec t + usec_mod m) = sint (tv_usec t) + sint m mod 1000000"
      using p u by (subst sint32_add) auto
    have b: "sint (tv_sec t + usec_div m) = sint (tv_sec t) + sint m div 1000000"
      using p s by (subst sint32_add) auto
    have c: "sint (tv_usec t + usec_mod m - 1000000) = sint (tv_usec t) + sint m mod 1000000 - 1000000"
      using a p u by (subst sint32_sub) auto
    have d: "sint (tv_sec t + usec_div m + 1) = sint (tv_sec t) + sint m div 1000000 + 1"
      using b p s by (subst sint32_add) auto
    have "1000000 * (sint m div 1000000) + sint m mod 1000000 = sint m" by simp
    then show ?thesis
      using True a b c d p(3-4) u by (auto simp: time_val_add_def time_us_def time_normal_def USEC_PER_SEC_def Let_def)
  next
    case False
    define k where "k = m * (- 1)"
    have k: "sint k = - sint m" unfolding k_def by (rule sint_neg [OF m])
    then have k0: "0 \<le> sint k" using False by simp
    note p = usec_parts [OF k0]
    have a: "sint (tv_usec t - usec_mod k) = sint (tv_usec t) - sint k mod 1000000"
      using p u by (subst sint32_sub) auto
    have b: "sint (tv_sec t - usec_div k) = sint (tv_sec t) - sint k div 1000000"
      using p s by (subst sint32_sub) auto
    have c: "sint (tv_usec t - usec_mod k + 1000000) = sint (tv_usec t) - sint k mod 1000000 + 1000000"
      using a p u by (subst sint32_add) auto
    have d: "sint (tv_sec t - usec_div k - 1) = sint (tv_sec t) - sint k div 1000000 - 1"
      using b p s by (subst sint32_sub) auto
    define D R where "D = sint k div 1000000" and "R = sint k mod 1000000"
    have e: "1000000 * (sint k div 1000000) + sint k mod 1000000 = - sint m" using k by simp
    have f: "time_val_add t m = (if sint (tv_usec t - usec_mod k) < 0
        then \<lparr>tv_sec = tv_sec t - usec_div k - 1, tv_usec = tv_usec t - usec_mod k + 1000000\<rparr>
        else \<lparr>tv_sec = tv_sec t - usec_div k, tv_usec = tv_usec t - usec_mod k\<rparr>)"
      using False by (cases t) (simp add: k_def time_val_add_def USEC_PER_SEC_def Let_def)
    have g: "sint (tv_usec t) - R < 0 \<Longrightarrow> 0 \<le> sint (tv_usec t) - R + 1000000 \<and> sint (tv_usec t) - R + 1000000 < 1000000"
      "\<not> sint (tv_usec t) - R < 0 \<Longrightarrow> 0 \<le> sint (tv_usec t) - R \<and> sint (tv_usec t) - R < 1000000"
      using p(3-4) u unfolding R_def by linarith+
    note q = parts_sum [OF e [folded D_def R_def], of "sint (tv_sec t)" "sint (tv_usec t)"]
    note abcd = a [folded R_def] b [folded D_def] c [folded R_def] d [folded D_def]
    show ?thesis
      unfolding f time_us_def time_normal_def abcd(1) using g q
      by (cases "sint (tv_usec t) - R < 0") (simp_all only: if_True if_False n_timeval_t.simps abcd simp_thms)
  qed
qed

section \<open>The properties\<close>

text \<open>Joining pieces with a delimiter between them.\<close>

fun join :: "u8 list \<Rightarrow> u8 list list \<Rightarrow> u8 list" where
  "join d [] = []"
| "join d [p] = p"
| "join d (p # q # ps) = p @ d @ join d (q # ps)"

lemma join_Cons: "ps \<noteq> [] \<Longrightarrow> join d (p # ps) = p @ d @ join d ps"
  by (cases ps) simp_all

lemma heads_join:
  "split_heads m d s = (hs, r) \<Longrightarrow> d \<noteq> [] \<Longrightarrow> join d (hs @ [r]) = s \<and> length hs \<le> m \<and>
   (\<forall>x \<in> set hs. strstr x d = None) \<and> (length hs < m \<longrightarrow> strstr r d = None)"
proof (induction m arbitrary: s hs)
  case (Suc m)
  show ?case
  proof (cases "strstr s d")
    case (Some i)
    obtain hs' where hs': "split_heads m d (drop (i + length d) s) = (hs', r)" "hs = take i s # hs'"
      using Suc.prems(1) Some by (auto simp: Let_def split: prod.splits)
    show ?thesis
      using Suc.IH [OF hs'(1) Suc.prems(2)] strstr_Some [OF Some] strstr_first [OF Some Suc.prems(2)] hs'(2)
      by (simp add: join_Cons)
  qed (use Suc.prems in auto)
qed simp

lemma pieces_join:
  assumes "d \<noteq> []" and "0 < M"
    and "ps = split_pieces M d s"
  shows "join d ps = s" and "length ps \<le> M" and "\<forall>x \<in> set (butlast ps). strstr x d = None"
    and "length ps < M \<longrightarrow> strstr (last ps) d = None"
proof -
  obtain hs r where hr: "split_heads (M - 1) d s = (hs, r)" by force
  have ps: "ps = hs @ [r]" using hr by (simp add: assms(3) split_pieces_def)
  note * = heads_join [OF hr assms(1)]
  show "join d ps = s" "length ps \<le> M" "\<forall>x \<in> set (butlast ps). strstr x d = None"
    "length ps < M \<longrightarrow> strstr (last ps) d = None"
    using * assms(2) unfolding ps by auto
qed

text \<open>C37: when no allocation fails (the code writes through NULL when one does) and the string is shorter than
  2^31 - 1 bytes, \<open>n_strsplit\<close> of a string that is not empty, with a delimiter that is not empty, returns pieces that
  the delimiter joins back to the string, at most \<open>max_tokens\<close> of them (2147483647 when zero is asked for); no piece
  but the last one contains the delimiter, nor does the last one when there are fewer pieces than the
  maximum; the array ends with NULL and every node of the temporary list has been freed.\<close>

theorem strsplit_joins:
  assumes "wf_heap h" and "no_fault ms" and "d \<noteq> []" and "s \<noteq> []" and "length s < avail h" and "length s + 1 < 2 ^ 31"
    and "M = (if mx < 1 then 0x7fffffff else unat mx)"
  shows "\<exists>h' ps. n_strsplit fresh ms h s d mx = Some (h', map Some ps @ [None]) \<and> cells h' = cells h \<and>
    join d ps = s \<and> 1 \<le> length ps \<and> length ps \<le> M \<and> (\<forall>x \<in> set (butlast ps). strstr x d = None) \<and>
    (length ps < M \<longrightarrow> strstr (last ps) d = None)"
proof -
  have M: "0 < M" unfolding assms(7) by (auto simp: word_less_nat_alt unat_gt_0 word_gt_0_no)
  have l: "1 \<le> length (split_pieces M d s)" by (simp add: split_pieces_def split: prod.split)
  show ?thesis
    using strsplit_pieces [OF assms(1-3,5,6), of fresh mx] pieces_join [OF assms(3) M refl, of s] l assms(4)
    unfolding assms(7) [symmetric] by auto
qed

definition empty_store :: "u8 list sheap" where
  "empty_store = \<lparr>cells = Map.empty, brk = 1, avail = 10, junk = \<lparr>sdata = None, snext = 77\<rparr>\<rparr>"

lemma empty_store_ok: "wf_heap empty_store" "avail empty_store = 10"
  by (simp_all add: wf_heap_def empty_store_def)

theorem strsplit_joins_witness:
  "\<exists>h' ps. n_strsplit None [] empty_store [97, 44, 98, 44, 99] [44] 2 = Some (h', map Some ps @ [None]) \<and>
    cells h' = cells empty_store \<and> join [44] ps = [97, 44, 98, 44, 99] \<and> length ps \<le> 2"
proof -
  have n: "no_fault []" by (simp add: no_fault_def)
  have M: "(2 :: nat) = (if (2 :: u32) < 1 then 0x7fffffff else unat (2 :: u32))" by simp
  show ?thesis
    using strsplit_joins [OF empty_store_ok(1) n _ _ _ _ M, of "[44]" "[97, 44, 98, 44, 99]" None] empty_store_ok(2) by auto
qed

text \<open>\<open>n_strsplit_set\<close>, whose scan is driven by a 256-entry table and collects the pieces backwards in a list,
  agrees with the reference that cuts the string at its first \<open>max_tokens - 1\<close> delimiter characters (empty
  pieces included); the empty string gives the empty array, and every node of the list has been freed.\<close>

theorem strsplit_set_reference:
  assumes "wf_heap h" and "no_fault ms" and "length s + 1 < avail h" and "length s + 2 < 2 ^ 31"
  shows "\<exists>h'. n_strsplit_set fresh ms h s ds mx = Some (h', map Some (if s = [] then []
      else cut_at (\<lambda>c. c \<in> set ds) ((if sint mx < 1 then 0x7fffffff else nat (sint mx)) - 1) s) @ [None]) \<and>
    cells h' = cells h"
proof (cases "s = []")
  case True
  then show ?thesis using no_fault_alloc(1) [OF assms(2)] by (auto simp: n_strsplit_set_def Let_def)
qed (use strsplit_set_cut [OF assms(1-3) _ assms(4)] in simp)

theorem strsplit_set_reference_witness:
  "\<exists>h'. n_strsplit_set None [] empty_store [97, 44, 59, 98] [44, 59] 0 = Some (h', [Some [97], Some [], Some [98], None]) \<and>
    cells h' = cells empty_store"
proof -
  have n: "no_fault []" by (simp add: no_fault_def)
  have "cut_at P (Suc (Suc k)) [97, 44, 59, 98] = [[97], [], [98]]" if "P = (\<lambda>c. c = 44 \<or> c = (59 :: u8))" for P k
    by (cases k) (simp_all add: that)
  from this [of _ 2147483644]
  have "cut_at (\<lambda>c. c = 44 \<or> c = 59) 2147483646 [97, 44, 59, 98] = [[97], [], [98]]" by simp
  then show ?thesis
    using strsplit_set_reference [OF empty_store_ok(1) n, of "[97, 44, 59, 98]" None "[44, 59]" 0] empty_store_ok(2) by simp
qed

text \<open>\<open>time_val_add\<close> adds the microseconds exactly, carrying to or borrowing from the seconds, and keeps the
  microseconds in the range 0 to 999999, when the seconds are 2149 or more away from the ends of their range.\<close>

theorem time_val_add_adds:
  assumes "time_normal t" and "sint m > - (2 ^ 31)" and "- (2 ^ 31) + 2149 < sint (tv_sec t)" and "sint (tv_sec t) < 2 ^ 31 - 2149"
  shows "time_us (time_val_add t m) = time_us t + sint m \<and> time_normal (time_val_add t m)"
  by (rule time_val_add_exact [OF assms])

theorem time_val_add_adds_witness:
  "time_us (time_val_add \<lparr>tv_sec = 5, tv_usec = 3\<rparr> (- 2500000)) = 2500003"
  using time_val_add_adds [of "\<lparr>tv_sec = 5, tv_usec = 3\<rparr>" "- 2500000"] by (simp add: time_us_def time_normal_def)

end
