(* ===== verification/Rowset.thy ===== *)
theory Rowset
  imports Prelude "HOL-Library.Tree"
begin

text \<open>
  tsrc/rowset.c: sets of row ids. A set either collects values and is then read in increasing order
  (\<open>sqlite3RowSetNext\<close>), or is tested for values of earlier batches (\<open>sqlite3RowSetTest\<close>). Every entry is on one
  list or in one tree only, so a list over \<open>pRight\<close> is an Isabelle list of its values, a tree over \<open>pLeft\<close> and
  \<open>pRight\<close> an Isabelle tree, and the forest the list of the trees at \<open>pLeft\<close> of its entries. The entry at \<open>pLast\<close> is
  its value; it is the last one of the list at \<open>pEntry\<close>. A failed allocation also marks the connection, which is not in this file.
\<close>

unbundle bit_operations_syntax

section \<open>State\<close>

record RowSet =
  rsChunks :: nat
  rsEntry :: "i64 list"
  rsLast :: "i64 option"
  rsForest :: "i64 tree list"
  nFresh :: u16
  rsFlags :: u16
  rsBatch :: i32

text \<open>Sizes on a 64-bit machine: 24 bytes for an entry and 56 for a RowSet.\<close>

definition ROWSET_ALLOCATION_SIZE :: nat where "ROWSET_ALLOCATION_SIZE = 1024"
definition ROWSET_ENTRY_PER_CHUNK :: u16 where
  "ROWSET_ENTRY_PER_CHUNK = word_of_nat ((ROWSET_ALLOCATION_SIZE - 8) div 24)"
definition ROWSET_SORTED :: u16 where "ROWSET_SORTED = 1"
definition ROWSET_NEXT :: u16 where "ROWSET_NEXT = 2"

definition sqlite3RowSetInit :: "nat \<Rightarrow> RowSet option" where
  "sqlite3RowSetInit N = do {
     check (N \<ge> 56);
     Some \<lparr>rsChunks = 0, rsEntry = [], rsLast = None, rsForest = [], nFresh = word_of_nat ((N - 56) div 24),
           rsFlags = ROWSET_SORTED, rsBatch = 0\<rparr> }"

definition sqlite3RowSetClear :: "RowSet \<Rightarrow> RowSet" where
  "sqlite3RowSetClear p = p\<lparr>rsChunks := 0, nFresh := 0, rsEntry := [], rsLast := None, rsForest := [], rsFlags := ROWSET_SORTED\<rparr>"

text \<open>Whether there is a new entry.\<close>

definition rowSetEntryAlloc :: "faults \<Rightarrow> RowSet \<Rightarrow> bool \<times> faults \<times> RowSet" where
  "rowSetEntryAlloc ms p =
     (if nFresh p = 0 then
        if \<not> alloc_ok ms then (False, tl ms, p)
        else let p = p\<lparr>rsChunks := rsChunks p + 1, nFresh := ROWSET_ENTRY_PER_CHUNK\<rparr> in
          (True, tl ms, p\<lparr>nFresh := nFresh p - 1\<rparr>)
      else (True, ms, p\<lparr>nFresh := nFresh p - 1\<rparr>))"

definition sqlite3RowSetInsert :: "faults \<Rightarrow> RowSet \<Rightarrow> i64 \<Rightarrow> (faults \<times> RowSet) option" where
  "sqlite3RowSetInsert ms p rowid = do {
     check (rsFlags p AND ROWSET_NEXT = 0);
     let (ok, ms, p) = rowSetEntryAlloc ms p;
     if \<not> ok then Some (ms, p)
     else
       let p = (case rsLast p of
           Some v \<Rightarrow>
             let p = (if sint rowid \<le> sint v then p\<lparr>rsFlags := rsFlags p AND NOT ROWSET_SORTED\<rparr> else p) in
             p\<lparr>rsEntry := rsEntry p @ [rowid]\<rparr>
         | None \<Rightarrow> p\<lparr>rsEntry := [rowid]\<rparr>) in
       Some (ms, p\<lparr>rsLast := Some rowid\<rparr>) }"

section \<open>Sorting\<close>

definition next_ge :: "i64 \<Rightarrow> i64 list \<Rightarrow> bool" where
  "next_ge a A = (case A of [] \<Rightarrow> True | a' # _ \<Rightarrow> sint a \<le> sint a')"

fun rowSetEntryMerge :: "i64 list \<Rightarrow> i64 list \<Rightarrow> i64 list option" where
  "rowSetEntryMerge (a # A) (b # B) = do {
     check (next_ge a A);
     check (next_ge b B);
     if sint a \<le> sint b then do {
       r \<leftarrow> (if A = [] then Some (b # B) else rowSetEntryMerge A (b # B));
       Some (if sint a < sint b then a # r else r) }
     else do {
       r \<leftarrow> (if B = [] then Some (a # A) else rowSetEntryMerge (a # A) B);
       Some (b # r) } }"
| "rowSetEntryMerge _ _ = None"

text \<open>The inner loop, from \<open>aBucket[i]\<close> on; beyond the array it has no result.\<close>

fun bucket_put :: "i64 list list \<Rightarrow> i64 list \<Rightarrow> i64 list list option" where
  "bucket_put [] pIn = None"
| "bucket_put (b # bs) pIn =
     (if b \<noteq> [] then do { pIn \<leftarrow> rowSetEntryMerge b pIn; bs \<leftarrow> bucket_put bs pIn; Some ([] # bs) }
      else Some (pIn # bs))"

definition bucket_collect :: "i64 list \<Rightarrow> i64 list \<Rightarrow> i64 list option" where
  "bucket_collect b pIn = (if b = [] then Some pIn else if pIn \<noteq> [] then rowSetEntryMerge pIn b else Some b)"

definition rowSetEntrySort :: "i64 list \<Rightarrow> i64 list option" where
  "rowSetEntrySort pIn = do {
     aBucket \<leftarrow> foldO (\<lambda>v aBucket. bucket_put aBucket [v]) pIn (replicate 40 []);
     pIn \<leftarrow> nth_opt aBucket 0;
     foldO bucket_collect (drop 1 aBucket) pIn }"

section \<open>Trees\<close>

fun rowSetTreeToList :: "i64 tree \<Rightarrow> i64 list option" where
  "rowSetTreeToList Leaf = None"
| "rowSetTreeToList (Node l v r) = do {
     before \<leftarrow> (if l \<noteq> Leaf then rowSetTreeToList l else Some []);
     behind \<leftarrow> (if r \<noteq> Leaf then rowSetTreeToList r else Some []);
     Some (before @ v # behind) }"

text \<open>The tree and the rest of the list.\<close>

fun rowSetNDeepTree :: "i64 list \<Rightarrow> nat \<Rightarrow> i64 tree \<times> i64 list" where
  "rowSetNDeepTree ppList iDepth =
     (case ppList of [] \<Rightarrow> (Leaf, [])
      | v # vs \<Rightarrow>
        if iDepth > 1 then
          let (pLeft, ppList) = rowSetNDeepTree ppList (iDepth - 1) in
          (case ppList of [] \<Rightarrow> (pLeft, [])
           | p # ppList \<Rightarrow> let (pRight, ppList) = rowSetNDeepTree ppList (iDepth - 1) in (Node pLeft p pRight, ppList))
        else (Node Leaf v Leaf, vs))"

declare rowSetNDeepTree.simps [simp del]

lemma NDeepTree_list: "rowSetNDeepTree xs d = (t, ys) \<Longrightarrow> xs = inorder t @ ys"
proof (induction d arbitrary: xs t ys rule: less_induct)
  case (less d)
  show ?case
  proof (cases "xs = [] \<or> \<not> d > 1")
    case True
    then show ?thesis using less.prems by (auto simp: rowSetNDeepTree.simps [of xs d] split: list.splits)
  next
    case False
    then obtain v vs where v: "xs = v # vs" "d > 1" by (cases xs) auto
    obtain l zs where l: "rowSetNDeepTree xs (d - 1) = (l, zs)" by force
    have il: "xs = inorder l @ zs" using less.IH [OF _ l] v by simp
    show ?thesis
    proof (cases zs)
      case Nil
      then show ?thesis using less.prems v l il by (simp add: rowSetNDeepTree.simps [of "v # vs" d])
    next
      case (Cons p zs')
      obtain r ws where r: "rowSetNDeepTree zs' (d - 1) = (r, ws)" by force
      have "zs' = inorder r @ ws" using less.IH [OF _ r] v by simp
      then show ?thesis using less.prems v l il Cons r by (auto simp: rowSetNDeepTree.simps [of "v # vs" d])
    qed
  qed
qed

function list_to_tree_loop :: "i64 tree \<Rightarrow> i64 list \<Rightarrow> nat \<Rightarrow> i64 tree" where
  "list_to_tree_loop p pList iDepth =
     (case pList of [] \<Rightarrow> p
      | v # pList \<Rightarrow>
        let (pRight, pList) = rowSetNDeepTree pList iDepth in list_to_tree_loop (Node p v pRight) pList (iDepth + 1))"
  by pat_completeness auto
termination
proof (relation "measure (\<lambda>(p, xs, d). length xs)", simp, goal_cases)
  case (1 p xs d v vs s t ys)
  then show ?case using NDeepTree_list [of vs d t ys] by simp
qed

declare list_to_tree_loop.simps [simp del]

definition rowSetListToTree :: "i64 list \<Rightarrow> i64 tree option" where
  "rowSetListToTree pList = (case pList of [] \<Rightarrow> None
     | v # pList \<Rightarrow> Some (list_to_tree_loop (Node Leaf v Leaf) pList 1))"

section \<open>Reading\<close>

text \<open>The value that is read when the function returns 1.\<close>

definition sqlite3RowSetNext :: "RowSet \<Rightarrow> (i64 option \<times> RowSet) option" where
  "sqlite3RowSetNext p = do {
     check (rsForest p = []);
     p \<leftarrow> (if rsFlags p AND ROWSET_NEXT = 0 then do {
          p \<leftarrow> (if rsFlags p AND ROWSET_SORTED = 0
               then do { e \<leftarrow> rowSetEntrySort (rsEntry p); Some (p\<lparr>rsEntry := e\<rparr>) } else Some p);
          Some (p\<lparr>rsFlags := rsFlags p OR (ROWSET_SORTED OR ROWSET_NEXT)\<rparr>) }
        else Some p);
     case rsEntry p of
       v # e \<Rightarrow>
         let p = p\<lparr>rsEntry := e\<rparr> in
         Some (Some v, if rsEntry p = [] then sqlite3RowSetClear p else p)
     | [] \<Rightarrow> Some (None, p) }"

text \<open>The loop over the forest: the new forest and, when no entry of it was free, the list that is left.\<close>

fun forest_insert :: "i64 tree list \<Rightarrow> i64 list \<Rightarrow> (i64 tree list \<times> i64 list option) option" where
  "forest_insert [] p = Some ([], Some p)"
| "forest_insert (pTree # ts) p =
     (if pTree = Leaf then do { t \<leftarrow> rowSetListToTree p; Some (t # ts, None) }
      else do {
        pAux \<leftarrow> rowSetTreeToList pTree;
        p \<leftarrow> rowSetEntryMerge pAux p;
        (ts, q) \<leftarrow> forest_insert ts p;
        Some (Leaf # ts, q) })"

fun tree_search :: "i64 tree \<Rightarrow> i64 \<Rightarrow> bool" where
  "tree_search Leaf iRowid = False"
| "tree_search (Node l v r) iRowid =
     (if sint v < sint iRowid then tree_search r iRowid
      else if sint v > sint iRowid then tree_search l iRowid else True)"

primrec forest_search :: "i64 tree list \<Rightarrow> i64 \<Rightarrow> bool" where
  "forest_search [] iRowid = False"
| "forest_search (pTree # ts) iRowid = (if tree_search pTree iRowid then True else forest_search ts iRowid)"

definition sqlite3RowSetTest :: "faults \<Rightarrow> RowSet \<Rightarrow> i32 \<Rightarrow> i64 \<Rightarrow> (bool \<times> faults \<times> RowSet) option" where
  "sqlite3RowSetTest ms p iBatch iRowid = do {
     check (rsFlags p AND ROWSET_NEXT = 0);
     (ms, p) \<leftarrow> (if iBatch \<noteq> rsBatch p then do {
          (ms, p) \<leftarrow> (if rsEntry p \<noteq> [] then do {
               e \<leftarrow> (if rsFlags p AND ROWSET_SORTED = 0 then rowSetEntrySort (rsEntry p) else Some (rsEntry p));
               (ts, q) \<leftarrow> forest_insert (rsForest p) e;
               let p = p\<lparr>rsForest := ts\<rparr>;
               (ms, p) \<leftarrow> (case q of None \<Rightarrow> Some (ms, p)
                 | Some e \<Rightarrow>
                   let (ok, ms, p) = rowSetEntryAlloc ms p in
                   if ok then do { t \<leftarrow> rowSetListToTree e; Some (ms, p\<lparr>rsForest := rsForest p @ [t]\<rparr>) }
                   else Some (ms, p));
               Some (ms, p\<lparr>rsEntry := [], rsLast := None, rsFlags := rsFlags p OR ROWSET_SORTED\<rparr>) }
             else Some (ms, p));
          Some (ms, p\<lparr>rsBatch := iBatch\<rparr>) }
        else Some (ms, p));
     Some (forest_search (rsForest p) iRowid, ms, p) }"

end
