(* ===== verification/Rowset_Props.thy ===== *)
theory Rowset_Props
  imports Rowset "HOL-Library.Multiset"
begin

text \<open>
  Properties of the row sets. The abstract state is a set of values; \<open>incr\<close> is the order of the lists.
\<close>

abbreviation incr :: "i64 list \<Rightarrow> bool" where
  "incr \<equiv> sorted_wrt (\<lambda>a b. sint a < sint b)"

lemma incr_next_ge: "incr (a # A) \<Longrightarrow> next_ge a A"
  by (auto simp: next_ge_def split: list.split)

section \<open>Sorting\<close>

lemma merge_incr:
  "incr A \<Longrightarrow> incr B \<Longrightarrow> A \<noteq> [] \<Longrightarrow> B \<noteq> [] \<Longrightarrow>
   \<exists>C. rowSetEntryMerge A B = Some C \<and> incr C \<and> set C = set A \<union> set B \<and> C \<noteq> []"
proof (induction A B rule: rowSetEntryMerge.induct)
  case (1 a A b B)
  note n = incr_next_ge [OF 1(3)] incr_next_ge [OF 1(4)]
  consider "sint a < sint b" | "a = b" | "sint b < sint a"
    by (metis linorder_less_linear signed_word_eqI)
  then show ?case
  proof cases
    case 1
    show ?thesis
    proof (cases "A = []")
      case True
      then show ?thesis using 1 "1.prems" n by auto
    next
      case False
      obtain C where "rowSetEntryMerge A (b # B) = Some C" "incr C" "set C = set A \<union> set (b # B)"
        using "1.IH"(1) "1.prems" n 1 False by auto
      then show ?thesis using 1 False n "1.prems" by auto
    qed
  next
    case 2
    show ?thesis
    proof (cases "A = []")
      case True
      then show ?thesis using 2 "1.prems" n by auto
    next
      case False
      obtain C where "rowSetEntryMerge A (b # B) = Some C" "incr C" "set C = set A \<union> set (b # B)" "C \<noteq> []"
        using "1.IH"(1) "1.prems" n 2 False by auto
      then show ?thesis using 2 False n by auto
    qed
  next
    case 3
    show ?thesis
    proof (cases "B = []")
      case True
      then show ?thesis using 3 "1.prems" n by auto
    next
      case False
      obtain C where "rowSetEntryMerge (a # A) B = Some C" "incr C" "set C = set (a # A) \<union> set B"
        using "1.IH"(2) "1.prems" n 3 False by auto
      then show ?thesis using 3 False n "1.prems" by auto
    qed
  qed
qed simp_all

text \<open>The buckets are the digits of a binary counter.\<close>

primrec weight :: "i64 list list \<Rightarrow> nat" where
  "weight [] = 0"
| "weight (b # bs) = (if b = [] then 0 else 1) + 2 * weight bs"

abbreviation buckets :: "i64 list list \<Rightarrow> i64 set" where
  "buckets bs \<equiv> \<Union> (set ` set bs)"

lemma bucket_put_run:
  "\<forall>b \<in> set bs. incr b \<Longrightarrow> incr p \<Longrightarrow> p \<noteq> [] \<Longrightarrow> Suc (weight bs) < 2 ^ length bs \<Longrightarrow>
   \<exists>bs'. bucket_put bs p = Some bs' \<and> (\<forall>b \<in> set bs'. incr b) \<and> length bs' = length bs \<and>
     weight bs' = Suc (weight bs) \<and> buckets bs' = buckets bs \<union> set p"
proof (induction bs arbitrary: p)
  case (Cons b bs)
  show ?case
  proof (cases "b = []")
    case True
    then show ?thesis using Cons.prems by auto
  next
    case False
    obtain q where q: "rowSetEntryMerge b p = Some q" "incr q" "set q = set b \<union> set p" "q \<noteq> []"
      using merge_incr [of b p] Cons.prems False by auto
    have "Suc (weight bs) < 2 ^ length bs" using Cons.prems(4) False by simp
    then obtain bs' where "bucket_put bs q = Some bs'" "\<forall>b \<in> set bs'. incr b" "length bs' = length bs"
        "weight bs' = Suc (weight bs)" "buckets bs' = buckets bs \<union> set q"
      using Cons.IH [of q] Cons.prems q by auto
    then show ?thesis using False q by auto
  qed
qed simp

lemma buckets_run:
  "\<forall>b \<in> set bs. incr b \<Longrightarrow> weight bs + length xs < 2 ^ length bs \<Longrightarrow>
   \<exists>bs'. foldO (\<lambda>v bs. bucket_put bs [v]) xs bs = Some bs' \<and> (\<forall>b \<in> set bs'. incr b) \<and> length bs' = length bs \<and>
     buckets bs' = buckets bs \<union> set xs"
proof (induction xs arbitrary: bs)
  case (Cons x xs)
  obtain bs1 where b: "bucket_put bs [x] = Some bs1" "\<forall>b \<in> set bs1. incr b" "length bs1 = length bs"
      "weight bs1 = Suc (weight bs)" "buckets bs1 = buckets bs \<union> {x}"
    using bucket_put_run [of bs "[x]"] Cons.prems by auto
  then obtain bs' where "foldO (\<lambda>v bs. bucket_put bs [v]) xs bs1 = Some bs'" "\<forall>b \<in> set bs'. incr b" "length bs' = length bs1"
      "buckets bs' = buckets bs1 \<union> set xs"
    using Cons.IH [of bs1] Cons.prems by auto
  then show ?case using b by auto
qed simp

lemma collect_run:
  "\<forall>b \<in> set bs. incr b \<Longrightarrow> incr p \<Longrightarrow> \<exists>q. foldO bucket_collect bs p = Some q \<and> incr q \<and> set q = buckets bs \<union> set p"
proof (induction bs arbitrary: p)
  case (Cons b bs)
  have "\<exists>q. bucket_collect b p = Some q \<and> incr q \<and> set q = set b \<union> set p"
    using merge_incr [of p b] Cons.prems by (auto simp: bucket_collect_def)
  then show ?case using Cons by fastforce
qed simp

lemma sort_run:
  assumes "length xs < 2 ^ 40"
  shows "\<exists>ys. rowSetEntrySort xs = Some ys \<and> incr ys \<and> set ys = set xs"
proof -
  have w: "weight (replicate n []) = 0" for n by (induction n) simp_all
  obtain bs where b: "foldO (\<lambda>v bs. bucket_put bs [v]) xs (replicate 40 []) = Some bs" "\<forall>b \<in> set bs. incr b"
      "length bs = 40" "buckets bs = set xs"
    using buckets_run [of "replicate 40 []" xs] assms by (auto simp: w)
  then obtain b0 bs' where c: "bs = b0 # bs'" by (cases bs) auto
  obtain q where "foldO bucket_collect bs' b0 = Some q" "incr q" "set q = buckets bs' \<union> set b0"
    using collect_run [of bs' b0] b(2) c by auto
  then show ?thesis using b c by (auto simp: rowSetEntrySort_def)
qed

section \<open>Trees\<close>

lemma tree_to_list: "t \<noteq> Leaf \<Longrightarrow> rowSetTreeToList t = Some (inorder t)"
  by (induction t) auto

lemma list_to_tree_loop_inorder: "inorder (list_to_tree_loop t xs d) = inorder t @ xs"
proof (induction t xs d rule: list_to_tree_loop.induct)
  case (1 t xs d)
  show ?case
  proof (cases xs)
    case (Cons v vs)
    obtain r ys where r: "rowSetNDeepTree vs d = (r, ys)" by force
    show ?thesis using 1 [OF Cons r [symmetric] refl] r NDeepTree_list [OF r] Cons
      by (subst list_to_tree_loop.simps) simp
  qed (simp add: list_to_tree_loop.simps)
qed

lemma list_to_tree: "xs \<noteq> [] \<Longrightarrow> \<exists>t. rowSetListToTree xs = Some t \<and> inorder t = xs"
  by (cases xs) (simp_all add: rowSetListToTree_def list_to_tree_loop_inorder)

lemma tree_search_iff: "incr (inorder t) \<Longrightarrow> tree_search t x \<longleftrightarrow> x \<in> set_tree t"
  by (induction t) (auto simp: sorted_wrt_append not_less_iff_gr_or_eq dest: order.strict_implies_not_eq signed_word_eqI)

definition trees_ok :: "i64 tree list \<Rightarrow> bool" where
  "trees_ok ts \<longleftrightarrow> (\<forall>t \<in> set ts. incr (inorder t))"

definition trees_set :: "i64 tree list \<Rightarrow> i64 set" where
  "trees_set ts = \<Union> (set_tree ` set ts)"

lemma forest_search_iff: "trees_ok ts \<Longrightarrow> forest_search ts x \<longleftrightarrow> x \<in> trees_set ts"
  by (induction ts) (auto simp: trees_ok_def trees_set_def tree_search_iff)

lemma forest_insert_run:
  "trees_ok ts \<Longrightarrow> incr p \<Longrightarrow> p \<noteq> [] \<Longrightarrow> \<exists>ts' q. forest_insert ts p = Some (ts', q) \<and> trees_ok ts' \<and>
     (case q of None \<Rightarrow> trees_set ts' = trees_set ts \<union> set p
      | Some e \<Rightarrow> incr e \<and> e \<noteq> [] \<and> trees_set ts' \<union> set e = trees_set ts \<union> set p)"
proof (induction ts arbitrary: p)
  case Nil
  then show ?case by (simp add: trees_ok_def)
next
  case (Cons t ts)
  show ?case
  proof (cases "t = Leaf")
    case True
    obtain t' where "rowSetListToTree p = Some t'" "inorder t' = p" using list_to_tree [OF Cons.prems(3)] by blast
    then show ?thesis using True Cons.prems by (auto simp: trees_ok_def trees_set_def simp flip: set_inorder)
  next
    case False
    have i: "inorder t \<noteq> []" using False by (cases t) auto
    obtain q where q: "rowSetEntryMerge (inorder t) p = Some q" "incr q" "set q = set_tree t \<union> set p" "q \<noteq> []"
      using merge_incr [OF _ Cons.prems(2) i Cons.prems(3)] Cons.prems(1) by (auto simp: trees_ok_def)
    have "trees_ok ts" using Cons.prems(1) by (simp add: trees_ok_def)
    then obtain ts' r where "forest_insert ts q = Some (ts', r)" "trees_ok ts'"
        "case r of None \<Rightarrow> trees_set ts' = trees_set ts \<union> set q
         | Some e \<Rightarrow> incr e \<and> e \<noteq> [] \<and> trees_set ts' \<union> set e = trees_set ts \<union> set q"
      using Cons.IH [OF _ q(2,4)] by blast
    then show ?thesis using False q by (auto simp: tree_to_list trees_ok_def trees_set_def split: option.splits)
  qed
qed

section \<open>The state\<close>

definition rs_wf :: "RowSet \<Rightarrow> bool" where
  "rs_wf p \<longleftrightarrow> rsLast p = (if rsEntry p = [] then None else Some (last (rsEntry p))) \<and>
     (rsFlags p AND ROWSET_SORTED = 0 \<or> incr (rsEntry p)) \<and> trees_ok (rsForest p) \<and> length (rsEntry p) < 2 ^ 40"

lemma flag_test: "f AND ROWSET_SORTED = 0 \<longleftrightarrow> \<not> bit f 0" "f AND ROWSET_NEXT = 0 \<longleftrightarrow> \<not> bit f 1"
  using and_exp_eq_0_iff_not_bit [of f 0] and_exp_eq_0_iff_not_bit [of f 1] by (simp_all add: ROWSET_SORTED_def ROWSET_NEXT_def)

lemma flag_bits:
  "bit ROWSET_SORTED n \<longleftrightarrow> n = 0" "bit ROWSET_NEXT n \<longleftrightarrow> n = 1"
  using bit_exp_iff [where ?'a = "16 word", of 0 n] bit_exp_iff [where ?'a = "16 word", of 1 n]
  by (auto simp: ROWSET_SORTED_def ROWSET_NEXT_def)

lemmas flag_simps = flag_test bit_or_iff bit_and_iff bit_not_iff flag_bits

lemma sort_or_sorted:
  assumes "rs_wf p"
  shows "\<exists>e. (if rsFlags p AND ROWSET_SORTED = 0 then rowSetEntrySort (rsEntry p) else Some (rsEntry p)) = Some e \<and>
    incr e \<and> set e = set (rsEntry p)"
  using assms sort_run [of "rsEntry p"] by (auto simp: rs_wf_def)

lemma init_run: "N \<ge> 56 \<Longrightarrow> \<exists>p. sqlite3RowSetInit N = Some p \<and> rs_wf p \<and> rsEntry p = [] \<and> rsForest p = [] \<and>
    rsFlags p AND ROWSET_NEXT = 0 \<and> rsBatch p = 0"
  by (simp add: sqlite3RowSetInit_def rs_wf_def trees_ok_def flag_simps)

lemma alloc_run: "no_fault ms \<Longrightarrow> \<exists>ms' k n. rowSetEntryAlloc ms p = (True, ms', p\<lparr>rsChunks := k, nFresh := n\<rparr>) \<and> no_fault ms'"
proof (cases "nFresh p = 0")
  case False
  have "p\<lparr>nFresh := n\<rparr> = p\<lparr>rsChunks := rsChunks p, nFresh := n\<rparr>" for n by simp
  moreover assume "no_fault ms"
  ultimately show ?thesis using False unfolding rowSetEntryAlloc_def by (metis (full_types))
qed (use no_fault_alloc in \<open>auto simp: rowSetEntryAlloc_def Let_def\<close>)

lemma insert_run:
  assumes "no_fault ms" and "rs_wf p" and "rsFlags p AND ROWSET_NEXT = 0" and "Suc (length (rsEntry p)) < 2 ^ 40"
  shows "\<exists>ms' p'. sqlite3RowSetInsert ms p v = Some (ms', p') \<and> no_fault ms' \<and> rs_wf p' \<and> rsFlags p' AND ROWSET_NEXT = 0 \<and>
    rsEntry p' = rsEntry p @ [v] \<and> rsForest p' = rsForest p \<and> rsBatch p' = rsBatch p"
proof -
  obtain ms' k n where a: "rowSetEntryAlloc ms p = (True, ms', p\<lparr>rsChunks := k, nFresh := n\<rparr>)" "no_fault ms'"
    using alloc_run [OF assms(1)] by blast
  show ?thesis
  proof (cases "rsEntry p = []")
    case True
    then show ?thesis using a assms by (simp add: sqlite3RowSetInsert_def rs_wf_def)
  next
    case False
    let ?l = "last (rsEntry p)"
    have l: "rsLast p = Some ?l" using assms(2) False by (simp add: rs_wf_def)
    have ord: "incr (rsEntry p) \<Longrightarrow> sint ?l < sint v \<Longrightarrow> incr (rsEntry p @ [v])"
    proof -
      assume i: "incr (rsEntry p)" and lv: "sint ?l < sint v"
      have "rsEntry p = butlast (rsEntry p) @ [?l]" using False by simp
      then have "\<forall>x \<in> set (butlast (rsEntry p)). sint x < sint ?l" using i by (metis sorted_wrt_append list.set_intros(1))
      then have "\<forall>x \<in> set (rsEntry p). sint x \<le> sint ?l"
        using False by (metis order.strict_implies_order order_refl in_set_conv_decomp_last append_butlast_last_id rotate1.simps(2) set_ConsD set_rotate1)
      then show ?thesis using i lv by (auto simp: sorted_wrt_append)
    qed
    show ?thesis using a assms l ord by (auto simp: sqlite3RowSetInsert_def rs_wf_def Let_def flag_simps)
  qed
qed

lemma inserts_run:
  "no_fault ms \<Longrightarrow> rs_wf p \<Longrightarrow> rsFlags p AND ROWSET_NEXT = 0 \<Longrightarrow> length (rsEntry p) + length xs < 2 ^ 40 \<Longrightarrow>
   \<exists>ms' p'. foldO (\<lambda>v (ms, p). sqlite3RowSetInsert ms p v) xs (ms, p) = Some (ms', p') \<and> no_fault ms' \<and> rs_wf p' \<and>
     rsFlags p' AND ROWSET_NEXT = 0 \<and> rsEntry p' = rsEntry p @ xs \<and> rsForest p' = rsForest p \<and> rsBatch p' = rsBatch p"
proof (induction xs arbitrary: ms p)
  case (Cons x xs)
  obtain ms1 p1 where 1: "sqlite3RowSetInsert ms p x = Some (ms1, p1)" "no_fault ms1" "rs_wf p1" "rsFlags p1 AND ROWSET_NEXT = 0"
      "rsEntry p1 = rsEntry p @ [x]" "rsForest p1 = rsForest p" "rsBatch p1 = rsBatch p"
    using insert_run [OF Cons.prems(1-3), of x] Cons.prems(4) by auto
  then show ?case using Cons.IH [OF 1(2-4)] Cons.prems(4) by auto
qed simp

section \<open>Reading in order\<close>

primrec drain :: "nat \<Rightarrow> RowSet \<Rightarrow> i64 option list option" where
  "drain 0 p = Some []"
| "drain (Suc n) p = do { (r, p) \<leftarrow> sqlite3RowSetNext p; rs \<leftarrow> drain n p; Some (r # rs) }"

definition reading :: "RowSet \<Rightarrow> bool" where
  "reading p \<longleftrightarrow> rsForest p = [] \<and> (rsFlags p AND ROWSET_NEXT = 0 \<longrightarrow> rsFlags p AND ROWSET_SORTED \<noteq> 0)"

lemma next_reading:
  assumes "reading p"
  shows "\<exists>p'. sqlite3RowSetNext p = Some (case rsEntry p of [] \<Rightarrow> None | v # _ \<Rightarrow> Some v, p') \<and> reading p' \<and> rsEntry p' = tl (rsEntry p)"
  using assms unfolding reading_def sqlite3RowSetNext_def
  by (cases "rsEntry p"; cases "tl (rsEntry p) = []"; auto simp: Let_def flag_simps sqlite3RowSetClear_def)

lemma drain_reading: "reading p \<Longrightarrow> drain (length (rsEntry p) + k) p = Some (map Some (rsEntry p) @ replicate k None)"
proof (induction "length (rsEntry p)" arbitrary: p)
  case 0
  have "rsEntry p = [] \<Longrightarrow> reading p \<Longrightarrow> drain k p = Some (replicate k None)" for p
  proof (induction k arbitrary: p)
    case (Suc k)
    obtain p' where "sqlite3RowSetNext p = Some (None, p')" "reading p'" "rsEntry p' = []"
      using next_reading [OF Suc.prems(2)] Suc.prems(1) by auto
    then show ?case using Suc.IH [of p'] by simp
  qed simp
  then show ?case using 0 by simp
next
  case (Suc n)
  then obtain v e where e: "rsEntry p = v # e" by (cases "rsEntry p") auto
  obtain p' where p': "sqlite3RowSetNext p = Some (Some v, p')" "reading p'" "rsEntry p' = e"
    using next_reading [OF Suc.prems] e by auto
  then show ?case using Suc.hyps(1) [of p'] Suc.hyps(2) e by simp
qed

lemma drain_first:
  assumes "rs_wf p" and "rsForest p = []" and "rsFlags p AND ROWSET_NEXT = 0"
  shows "\<exists>e. incr e \<and> set e = set (rsEntry p) \<and> (\<forall>k. drain (length e + k) p = Some (map Some e @ replicate k None))"
proof -
  obtain e where e: "(if rsFlags p AND ROWSET_SORTED = 0 then rowSetEntrySort (rsEntry p) else Some (rsEntry p)) = Some e"
      "incr e" "set e = set (rsEntry p)"
    using sort_or_sorted [OF assms(1)] by blast
  let ?p = "p\<lparr>rsEntry := e, rsFlags := rsFlags p OR (ROWSET_SORTED OR ROWSET_NEXT)\<rparr>"
  have "sqlite3RowSetNext p = sqlite3RowSetNext ?p"
  proof (cases "rsFlags p AND ROWSET_SORTED = 0")
    case False
    then have "rsEntry p = e" using e(1) by simp
    then have "?p = p\<lparr>rsFlags := rsFlags p OR (ROWSET_SORTED OR ROWSET_NEXT)\<rparr>" by (cases p) simp
    then show ?thesis using False assms by (simp add: sqlite3RowSetNext_def flag_simps)
  qed (use e assms in \<open>simp add: sqlite3RowSetNext_def flag_simps\<close>)
  then have d: "drain (Suc n) p = drain (Suc n) ?p" for n by simp
  have r: "reading ?p" using assms(2) by (simp add: reading_def flag_simps)
  have "drain (length e + k) p = Some (map Some e @ replicate k None)" for k
    using d [of "length e + k - 1"] drain_reading [OF r, of k] by (cases "length e + k") simp_all
  then show ?thesis using e by blast
qed

lemma incr_sorted_list: "incr e \<Longrightarrow> map sint e = sorted_list_of_set (sint ` set e)"
proof -
  assume "incr e"
  then have "sorted_wrt (<) (map sint e)" by (simp add: sorted_wrt_map)
  then show ?thesis using sorted_list_of_set.idem_if_sorted_distinct [of "map sint e"] by (simp add: strict_sorted_iff)
qed

text \<open>C33: After any values have been inserted into a new row set, \<open>sqlite3RowSetNext\<close> returns each of them once in
  increasing (signed) order and then reports the end, whatever the order of insertion and the duplicates, with fewer than
  2 to the 40 insertions (the capacity of the bucket array) and no failed allocation.\<close>

theorem rowset_next_in_order:
  assumes "N \<ge> 56" and "no_fault ms" and "length xs < 2 ^ 40"
  shows "\<exists>p0 ms' p ys. sqlite3RowSetInit N = Some p0 \<and>
    foldO (\<lambda>v (ms, p). sqlite3RowSetInsert ms p v) xs (ms, p0) = Some (ms', p) \<and>
    map sint ys = sorted_list_of_set (sint ` set xs) \<and>
    (\<forall>k. drain (length ys + k) p = Some (map Some ys @ replicate k None))"
proof -
  obtain p0 where i: "sqlite3RowSetInit N = Some p0" "rs_wf p0" "rsEntry p0 = []" "rsForest p0 = []" "rsFlags p0 AND ROWSET_NEXT = 0"
    using init_run [OF assms(1)] by blast
  obtain ms' p where p: "foldO (\<lambda>v (ms, p). sqlite3RowSetInsert ms p v) xs (ms, p0) = Some (ms', p)" "rs_wf p"
      "rsFlags p AND ROWSET_NEXT = 0" "rsEntry p = xs" "rsForest p = []"
    using inserts_run [OF assms(2) i(2,5), of xs] i(3,4) assms(3) by auto
  show ?thesis
    using i(1) p(1) drain_first [OF p(2,5,3)] incr_sorted_list p(4) by fastforce
qed

theorem rowset_next_in_order_witness:
  "\<exists>p0 ms' p. sqlite3RowSetInit 56 = Some p0 \<and>
    foldO (\<lambda>v (ms, p). sqlite3RowSetInsert ms p v) [7, - 1, 7, 3] ([], p0) = Some (ms', p) \<and>
    drain 4 p = Some [Some (- 1), Some 3, Some 7, None]"
proof -
  have n: "no_fault []" by (simp add: no_fault_def)
  obtain p0 ms' p ys where *: "sqlite3RowSetInit 56 = Some p0"
      "foldO (\<lambda>v (ms, p). sqlite3RowSetInsert ms p v) [7, - 1, 7, 3] ([], p0) = Some (ms', p)"
      "map sint ys = sorted_list_of_set (sint ` set [7, - 1, 7, 3 :: i64])"
      "\<And>k. drain (length ys + k) p = Some (map Some ys @ replicate k None)"
    using rowset_next_in_order [OF _ n, of 56 "[7, - 1, 7, 3]"] by auto
  have "sint ` set [7, - 1, 7, 3 :: i64] = set [- 1, 3, 7]" by auto
  then have "map sint ys = map sint [- 1, 3, 7 :: i64]"
    using *(3) sorted_list_of_set.idem_if_sorted_distinct [of "[- 1, 3, 7 :: int]"] by simp
  then have "ys = [- 1, 3, 7]" by (rule map_injective) (auto intro: injI signed_word_eqI)
  then have "length ys + 1 = 4" "map Some ys @ replicate 1 None = [Some (- 1), Some 3, Some 7, None]" by simp_all
  then have "drain 4 p = Some [Some (- 1), Some 3, Some 7, None]" using *(4) [of 1] by metis
  then show ?thesis using *(1,2) by blast
qed

section \<open>Tests by batch\<close>

datatype rs_op = RsInsert i64 | RsTest i32 i64

primrec rs_run :: "rs_op list \<Rightarrow> faults \<Rightarrow> RowSet \<Rightarrow> bool list option" where
  "rs_run [] ms p = Some []"
| "rs_run (op # ops) ms p = (case op of
     RsInsert v \<Rightarrow> do { (ms, p) \<leftarrow> sqlite3RowSetInsert ms p v; rs_run ops ms p }
   | RsTest b v \<Rightarrow> do { (r, ms, p) \<leftarrow> sqlite3RowSetTest ms p b v; rs \<leftarrow> rs_run ops ms p; Some (r # rs) })"

text \<open>The specification: the values of the earlier batches, the values inserted since the last test with a new batch, and the batch.\<close>

primrec rs_spec :: "rs_op list \<Rightarrow> i64 set \<Rightarrow> i64 set \<Rightarrow> i32 \<Rightarrow> bool list" where
  "rs_spec [] old cur b = []"
| "rs_spec (op # ops) old cur b = (case op of
     RsInsert v \<Rightarrow> rs_spec ops old (insert v cur) b
   | RsTest b' v \<Rightarrow>
       if b' = b then (v \<in> old) # rs_spec ops old cur b
       else (v \<in> old \<union> cur) # rs_spec ops (old \<union> cur) {} b')"

lemma test_run:
  assumes "no_fault ms" and w: "rs_wf p" and f: "rsFlags p AND ROWSET_NEXT = 0"
  shows "\<exists>ms' p'. sqlite3RowSetTest ms p b v = Some (v \<in> trees_set (rsForest p'), ms', p') \<and> no_fault ms' \<and> rs_wf p' \<and>
    rsFlags p' AND ROWSET_NEXT = 0 \<and> rsBatch p' = b \<and>
    (if b = rsBatch p then rsForest p' = rsForest p \<and> rsEntry p' = rsEntry p
     else rsEntry p' = [] \<and> trees_set (rsForest p') = trees_set (rsForest p) \<union> set (rsEntry p))"
proof -
  consider "b = rsBatch p" | "b \<noteq> rsBatch p" "rsEntry p = []" | "b \<noteq> rsBatch p" "rsEntry p \<noteq> []" by blast
  then show ?thesis
  proof cases
    case 1
    then show ?thesis using assms forest_search_iff [of "rsForest p"] by (simp add: sqlite3RowSetTest_def rs_wf_def)
  next
    case 2
    then show ?thesis using assms forest_search_iff [of "rsForest p"] by (auto simp: sqlite3RowSetTest_def rs_wf_def)
  next
    case 3
    obtain e where e: "(if rsFlags p AND ROWSET_SORTED = 0 then rowSetEntrySort (rsEntry p) else Some (rsEntry p)) = Some e"
        "incr e" "set e = set (rsEntry p)"
      using sort_or_sorted [OF w] by blast
    have ne: "e \<noteq> []" using e(3) 3 by auto
    have t: "trees_ok (rsForest p)" using w by (simp add: rs_wf_def)
    obtain ts q where q: "forest_insert (rsForest p) e = Some (ts, q)" "trees_ok ts"
        "case q of None \<Rightarrow> trees_set ts = trees_set (rsForest p) \<union> set e
         | Some g \<Rightarrow> incr g \<and> g \<noteq> [] \<and> trees_set ts \<union> set g = trees_set (rsForest p) \<union> set e"
      using forest_insert_run [OF t e(2) ne] by blast
    show ?thesis
    proof (cases q)
      case None
      then show ?thesis
        using 3 assms e(1,3) q forest_search_iff [OF q(2)] by (simp add: sqlite3RowSetTest_def rs_wf_def flag_simps)
    next
      case (Some g)
      obtain ms' k n where a: "rowSetEntryAlloc ms (p\<lparr>rsForest := ts\<rparr>) = (True, ms', p\<lparr>rsForest := ts, rsChunks := k, nFresh := n\<rparr>)" "no_fault ms'"
        using alloc_run [OF assms(1), of "p\<lparr>rsForest := ts\<rparr>"] by auto
      obtain t' where t': "rowSetListToTree g = Some t'" "inorder t' = g" using list_to_tree [of g] q(3) Some by auto
      have ok: "trees_ok (ts @ [t'])" using q Some t' by (auto simp: trees_ok_def)
      have s: "trees_set (ts @ [t']) = trees_set (rsForest p) \<union> set (rsEntry p)"
        using q(3) Some t'(2) e(3) by (auto simp: trees_set_def simp flip: set_inorder)
      show ?thesis
        using 3 assms e(1) q(1) Some a t' ok s forest_search_iff [OF ok]
        by (simp add: sqlite3RowSetTest_def rs_wf_def flag_simps Let_def)
    qed
  qed
qed

lemma rs_run_spec:
  "no_fault ms \<Longrightarrow> rs_wf p \<Longrightarrow> rsFlags p AND ROWSET_NEXT = 0 \<Longrightarrow> length (rsEntry p) + length ops < 2 ^ 40 \<Longrightarrow>
   rs_run ops ms p = Some (rs_spec ops (trees_set (rsForest p)) (set (rsEntry p)) (rsBatch p))"
proof (induction ops arbitrary: ms p)
  case (Cons op ops)
  show ?case
  proof (cases op)
    case (RsInsert v)
    obtain ms1 p1 where 1: "sqlite3RowSetInsert ms p v = Some (ms1, p1)" "no_fault ms1" "rs_wf p1" "rsFlags p1 AND ROWSET_NEXT = 0"
        "rsEntry p1 = rsEntry p @ [v]" "rsForest p1 = rsForest p" "rsBatch p1 = rsBatch p"
      using insert_run [OF Cons.prems(1-3), of v] Cons.prems(4) by auto
    then show ?thesis using Cons.IH [OF 1(2-4)] Cons.prems(4) RsInsert by simp
  next
    case (RsTest b v)
    obtain ms1 p1 where 1: "sqlite3RowSetTest ms p b v = Some (v \<in> trees_set (rsForest p1), ms1, p1)" "no_fault ms1" "rs_wf p1"
        "rsFlags p1 AND ROWSET_NEXT = 0" "rsBatch p1 = b"
        "if b = rsBatch p then rsForest p1 = rsForest p \<and> rsEntry p1 = rsEntry p
         else rsEntry p1 = [] \<and> trees_set (rsForest p1) = trees_set (rsForest p) \<union> set (rsEntry p)"
      using test_run [OF Cons.prems(1-3), of b v] by blast
    then show ?thesis using Cons.IH [OF 1(2-4)] Cons.prems(4) RsTest by (simp split: if_splits)
  qed
qed simp

text \<open>C32: For every sequence of fewer than 2^40 insertions and tests on a new row set in which no allocation fails (a
  failed one drops the value silently), the answers of \<open>sqlite3RowSetTest\<close> are those of two sets: a test with a new batch number first adds the values inserted since to the visible ones, a test with the same
  batch number does not; the sorted lists, trees and the merging of the forest do not show.\<close>

theorem rowset_test_is_batched_set:
  assumes "N \<ge> 56" and "no_fault ms" and "length ops < 2 ^ 40"
  shows "\<exists>p. sqlite3RowSetInit N = Some p \<and> rs_run ops ms p = Some (rs_spec ops {} {} 0)"
proof -
  obtain p0 where i: "sqlite3RowSetInit N = Some p0" "rs_wf p0" "rsEntry p0 = []" "rsForest p0 = []" "rsFlags p0 AND ROWSET_NEXT = 0" "rsBatch p0 = 0"
    using init_run [OF assms(1)] by blast
  then show ?thesis using rs_run_spec [OF assms(2) i(2,5), of ops] assms(3) by (simp add: trees_set_def)
qed

theorem rowset_test_is_batched_set_witness:
  "\<exists>p. sqlite3RowSetInit 56 = Some p \<and>
    rs_run [RsInsert 5, RsTest 1 5, RsInsert 4, RsTest 1 4, RsTest 2 4, RsTest 2 6] [] p = Some [True, False, True, False]"
proof -
  have n: "no_fault []" by (simp add: no_fault_def)
  show ?thesis
    using rowset_test_is_batched_set [OF _ n, of 56 "[RsInsert 5, RsTest 1 5, RsInsert 4, RsTest 1 4, RsTest 2 4, RsTest 2 6]"] by simp
qed

end
