(* ===== verification/Memjournal.thy ===== *)
theory Memjournal
  imports Onefile
begin

text \<open>
  tsrc/memjournal.c: a rollback journal kept in memory until it grows beyond \<open>nSpill\<close> bytes, and then moved
  to a file of the VFS; with the wrappers of tsrc/os.c it calls. The chunks linked from \<open>pFirst\<close> are a list, and a
  pointer to a chunk is its position in that list. The \<open>MemJournal\<close> occupies the memory of the file handle and
  is replaced by the handle of the real file: \<open>jfile\<close>. The VFS is a \<open>parent_vfs\<close>. The build has no atomic writes.
\<close>

unbundle bit_operations_syntax

definition SQLITE_IOERR_NOMEM :: int where "SQLITE_IOERR_NOMEM = 3082"

text \<open>C's remainder; there is none by zero.\<close>

definition c_rem :: "int \<Rightarrow> int \<Rightarrow> int option" where
  "c_rem a b = (if b = 0 then None else Some (a smod b))"

section \<open>State\<close>

record MemJournal =
  jChunkSize :: int
  jSpill :: int
  jSize :: int
  jChunks :: "bytes list"
  endOffset :: int
  endChunk :: "nat option"
  readOffset :: int
  readChunk :: "nat option"
  jFlags :: u32
  zJournal :: string

text \<open>An open handle: \<open>pMethods\<close> are those of the memory journal, those of an open file, or NULL.\<close>

datatype 'f jfile = JMem MemJournal | JReal "'f option"

definition MEMJOURNAL_DFLT_FILECHUNKSIZE :: int where "MEMJOURNAL_DFLT_FILECHUNKSIZE = 1024"

text \<open>\<open>sizeof(FileChunk)\<close> is 16.\<close>

definition fileChunkSize :: "int \<Rightarrow> int" where "fileChunkSize nChunkSize = 16 + (nChunkSize - 8)"

section \<open>Reading\<close>

text \<open>The search for the chunk that holds \<open>iOfst\<close>; the number of chunks stands for NULL.\<close>

function memjrnl_seek :: "int \<Rightarrow> int \<Rightarrow> nat \<Rightarrow> nat \<Rightarrow> int \<Rightarrow> nat" where
  "memjrnl_seek nChunkSize iOfst nChunks i iOff =
     (if i < nChunks \<and> iOff + nChunkSize \<le> iOfst then memjrnl_seek nChunkSize iOfst nChunks (i + 1) (iOff + nChunkSize) else i)"
  by pat_completeness auto
termination by (relation "measure (\<lambda>(n, ofs, k, i, off). k - i)") auto

declare memjrnl_seek.simps [simp del]

text \<open>The copying loop: the bytes copied and the chunk it ends in.\<close>

partial_function (option) memjrnl_copy :: "int \<Rightarrow> bytes list \<Rightarrow> nat \<Rightarrow> int \<Rightarrow> int \<Rightarrow> bytes \<Rightarrow> (bytes \<times> nat option) option" where
  "memjrnl_copy nChunkSize cs i iChunkOffset nRead zOut = do {
     let iSpace = nChunkSize - iChunkOffset;
     let nCopy = min nRead (nChunkSize - iChunkOffset);
     c \<leftarrow> nth_opt cs i;
     d \<leftarrow> mem_get c iChunkOffset nCopy;
     let zOut = zOut @ d;
     let nRead = nRead - iSpace;
     if nRead \<ge> 0 then
       if i + 1 < length cs then
         if nRead > 0 then memjrnl_copy nChunkSize cs (i + 1) 0 nRead zOut else Some (zOut, Some (i + 1))
       else Some (zOut, None)
     else Some (zOut, Some i) }"

definition memjrnlRead :: "bytes \<Rightarrow> int \<Rightarrow> MemJournal \<Rightarrow> (int \<times> bytes \<times> MemJournal) option" where
  "memjrnlRead zBuf iOfst p = do {
     let iAmt = int (length zBuf);
     check (iAmt + iOfst \<le> endOffset p);
     check (readOffset p = 0 \<or> readChunk p \<noteq> None);
     i \<leftarrow> (if readOffset p \<noteq> iOfst \<or> iOfst = 0
          then Some (memjrnl_seek (jChunkSize p) iOfst (length (jChunks p)) 0 0)
          else readChunk p);
     iChunkOffset \<leftarrow> c_rem iOfst (jChunkSize p);
     (zOut, pChunk) \<leftarrow> memjrnl_copy (jChunkSize p) (jChunks p) i iChunkOffset iAmt [];
     zBuf \<leftarrow> mem_put zBuf 0 zOut;
     Some (SQLITE_OK, zBuf, p\<lparr>readOffset := (if pChunk \<noteq> None then iOfst + iAmt else 0), readChunk := pChunk\<rparr>) }"

section \<open>The wrappers of os.c for a real file\<close>

definition sqlite3OsClose :: "('f, 'p) parent_vfs \<Rightarrow> 'f option \<Rightarrow> 'p \<Rightarrow> 'p" where
  "sqlite3OsClose pm pId w = (case pId of Some f \<Rightarrow> snd (xClose pm f w) | None \<Rightarrow> w)"

definition sqlite3OsWrite :: "('f, 'p) parent_vfs \<Rightarrow> 'f option \<Rightarrow> bytes \<Rightarrow> int \<Rightarrow> 'p \<Rightarrow> (int \<times> 'p) option" where
  "sqlite3OsWrite pm fd pBuf ofst w = do { f \<leftarrow> fd; xWrite pm f pBuf ofst w }"

definition sqlite3OsRead :: "('f, 'p) parent_vfs \<Rightarrow> 'f option \<Rightarrow> bytes \<Rightarrow> int \<Rightarrow> 'p \<Rightarrow> (int \<times> bytes) option" where
  "sqlite3OsRead pm fd pBuf ofst w = do { f \<leftarrow> fd; xRead pm f pBuf ofst w }"

definition sqlite3OsOpen :: "('f, 'p) parent_vfs \<Rightarrow> string \<Rightarrow> u32 \<Rightarrow> 'p \<Rightarrow> (int \<times> 'f option \<times> 'p) option" where
  "sqlite3OsOpen pm zPath flags w = do {
     let (rc, fd, w) = xOpen pm zPath (flags AND 0x87f7f) w;
     check (rc = SQLITE_OK \<or> fd = None);
     Some (rc, fd, w) }"

section \<open>Spilling\<close>

definition memjrnlFreeChunks :: "MemJournal \<Rightarrow> MemJournal" where
  "memjrnlFreeChunks p = p\<lparr>jChunks := []\<rparr>"

primrec memjrnl_flush :: "('f, 'p) parent_vfs \<Rightarrow> 'f option \<Rightarrow> bytes list \<Rightarrow> int \<Rightarrow> int \<Rightarrow> int \<Rightarrow> 'p \<Rightarrow> (int \<times> 'p) option" where
  "memjrnl_flush pm pRealFd [] nChunk endOfs iOff w = Some (SQLITE_OK, w)"
| "memjrnl_flush pm pRealFd (c # cs) nChunk endOfs iOff w = do {
     let nChunk = (if iOff + nChunk > endOfs then c_int (endOfs - iOff) else nChunk);
     z \<leftarrow> mem_get c 0 nChunk;
     (rc, w) \<leftarrow> sqlite3OsWrite pm pRealFd z iOff w;
     if rc \<noteq> 0 then Some (rc, w) else memjrnl_flush pm pRealFd cs nChunk endOfs (iOff + nChunk) w }"

definition memjrnlCreateFile :: "('f, 'p) parent_vfs \<Rightarrow> MemJournal \<Rightarrow> 'p \<Rightarrow> (int \<times> 'f jfile \<times> 'p) option" where
  "memjrnlCreateFile pm p w = do {
     (rc, pRealFd, w) \<leftarrow> sqlite3OsOpen pm (zJournal p) (jFlags p) w;
     (rc, w) \<leftarrow> (if rc = SQLITE_OK then memjrnl_flush pm pRealFd (jChunks p) (jChunkSize p) (endOffset p) 0 w else Some (rc, w));
     if rc \<noteq> SQLITE_OK then Some (rc, JMem p, sqlite3OsClose pm pRealFd w)
     else Some (rc, JReal pRealFd, w) }"

section \<open>Writing\<close>

text \<open>A new chunk at the end; \<open>fresh\<close> is what \<open>sqlite3_malloc\<close> leaves in it. The result says whether there was memory.\<close>

definition memjrnl_extend :: "faults \<Rightarrow> (nat \<Rightarrow> u8) \<Rightarrow> MemJournal \<Rightarrow> (bool \<times> faults \<times> MemJournal) option" where
  "memjrnl_extend ms fresh p =
     (if \<not> alloc_ok ms then Some (False, tl ms, p)
      else do {
        let pNew = map fresh [0..<nat (jChunkSize p)];
        p \<leftarrow> (case endChunk p of
            Some i \<Rightarrow> do { check (jChunks p \<noteq> []); Some (p\<lparr>jChunks := take (i + 1) (jChunks p) @ [pNew]\<rparr>) }
          | None \<Rightarrow> do { check (jChunks p = []); Some (p\<lparr>jChunks := [pNew]\<rparr>) });
        Some (True, tl ms, p\<lparr>endChunk := Some (length (jChunks p) - 1)\<rparr>) })"

partial_function (option) memjrnl_append :: "faults \<Rightarrow> (nat \<Rightarrow> u8) \<Rightarrow> MemJournal \<Rightarrow> bytes \<Rightarrow> (int \<times> faults \<times> MemJournal) option" where
  "memjrnl_append ms fresh p zWrite =
     (if zWrite = [] then Some (SQLITE_OK, ms, p)
      else do {
        iChunkOffset \<leftarrow> c_rem (endOffset p) (jChunkSize p);
        let iSpace = min (int (length zWrite)) (jChunkSize p - iChunkOffset);
        (ok, ms, p) \<leftarrow> (if iChunkOffset = 0 then memjrnl_extend ms fresh p else Some (True, ms, p));
        if \<not> ok then Some (SQLITE_IOERR_NOMEM, ms, p)
        else do {
          i \<leftarrow> endChunk p;
          c \<leftarrow> nth_opt (jChunks p) i;
          c \<leftarrow> mem_put c iChunkOffset (take (nat iSpace) zWrite);
          memjrnl_append ms fresh (p\<lparr>jChunks := (jChunks p)[i := c], endOffset := endOffset p + iSpace\<rparr>) (drop (nat iSpace) zWrite) } })"

definition memjrnlWrite ::
    "('f, 'p) parent_vfs \<Rightarrow> faults \<Rightarrow> (nat \<Rightarrow> u8) \<Rightarrow> bytes \<Rightarrow> int \<Rightarrow> MemJournal \<Rightarrow> 'p \<Rightarrow> (int \<times> faults \<times> 'f jfile \<times> 'p) option" where
  "memjrnlWrite pm ms fresh zBuf iOfst p w =
     (let iAmt = int (length zBuf) in
      if jSpill p > 0 \<and> iAmt + iOfst > jSpill p then do {
        (rc, j, w) \<leftarrow> memjrnlCreateFile pm p w;
        (rc, w) \<leftarrow> (if rc = SQLITE_OK
                  then (case j of JReal pRealFd \<Rightarrow> sqlite3OsWrite pm pRealFd zBuf iOfst w | JMem _ \<Rightarrow> None)
                  else Some (rc, w));
        Some (rc, ms, j, w) }
      else do {
        check (iOfst = endOffset p \<or> iOfst = 0);
        check (iOfst > 0 \<or> jChunks p = []);
        (rc, ms, p) \<leftarrow> memjrnl_append ms fresh p zBuf;
        if rc \<noteq> SQLITE_OK then Some (rc, ms, JMem p, w)
        else Some (SQLITE_OK, ms, JMem (p\<lparr>jSize := c_int (iAmt + iOfst)\<rparr>), w) })"

section \<open>The other methods\<close>

definition memjrnlTruncate :: "int \<Rightarrow> MemJournal \<Rightarrow> int \<times> MemJournal" where
  "memjrnlTruncate siz p =
     (SQLITE_OK,
      if siz = 0 then
        (memjrnlFreeChunks p)\<lparr>jSize := 0, endChunk := None, endOffset := 0, readChunk := None, readOffset := 0\<rparr>
      else p)"

definition memjrnlClose :: "MemJournal \<Rightarrow> int \<times> MemJournal" where
  "memjrnlClose p = (SQLITE_OK, memjrnlFreeChunks p)"

definition memjrnlSync :: "u32 \<Rightarrow> MemJournal \<Rightarrow> int" where
  "memjrnlSync flags p = SQLITE_OK"

definition memjrnlFileSize :: "MemJournal \<Rightarrow> int \<times> int" where
  "memjrnlFileSize p = (SQLITE_OK, endOffset p)"

definition sqlite3JournalOpen :: "('f, 'p) parent_vfs \<Rightarrow> string \<Rightarrow> u32 \<Rightarrow> int \<Rightarrow> 'p \<Rightarrow> (int \<times> 'f jfile \<times> 'p) option" where
  "sqlite3JournalOpen pm zFile flags nSpill w =
     (if nSpill = 0 then do { (rc, fd, w) \<leftarrow> sqlite3OsOpen pm zFile flags w; Some (rc, JReal fd, w) }
      else do {
        nChunkSize \<leftarrow> (if nSpill > 0 then Some nSpill
          else do {
            let n = 8 + MEMJOURNAL_DFLT_FILECHUNKSIZE - 16;
            check (MEMJOURNAL_DFLT_FILECHUNKSIZE = fileChunkSize n);
            Some n });
        Some (SQLITE_OK, JMem \<lparr>jChunkSize = nChunkSize, jSpill = nSpill, jSize = 0, jChunks = [], endOffset = 0, endChunk = None,
          readOffset = 0, readChunk = None, jFlags = flags, zJournal = zFile\<rparr>, w) })"

definition sqlite3MemJournalOpen :: "('f, 'p) parent_vfs \<Rightarrow> 'p \<Rightarrow> (int \<times> 'f jfile \<times> 'p) option" where
  "sqlite3MemJournalOpen pm w = sqlite3JournalOpen pm [] 0 (- 1) w"

definition sqlite3JournalIsInMemory :: "'f jfile \<Rightarrow> bool" where
  "sqlite3JournalIsInMemory p = (case p of JMem _ \<Rightarrow> True | JReal _ \<Rightarrow> False)"

text \<open>\<open>sizeof(MemJournal)\<close> is 88 on a 64-bit machine.\<close>

definition sqlite3JournalSize :: "int \<Rightarrow> int" where
  "sqlite3JournalSize szOsFile = max szOsFile 88"

text \<open>xRead and xWrite of the handle, through \<open>pMethods\<close>.\<close>

definition journal_read :: "('f, 'p) parent_vfs \<Rightarrow> bytes \<Rightarrow> int \<Rightarrow> 'f jfile \<Rightarrow> 'p \<Rightarrow> (int \<times> bytes \<times> 'f jfile) option" where
  "journal_read pm zBuf iOfst j w =
     (case j of
        JMem p \<Rightarrow> do { (rc, z, p) \<leftarrow> memjrnlRead zBuf iOfst p; Some (rc, z, JMem p) }
      | JReal fd \<Rightarrow> do { (rc, z) \<leftarrow> sqlite3OsRead pm fd zBuf iOfst w; Some (rc, z, j) })"

definition journal_write ::
    "('f, 'p) parent_vfs \<Rightarrow> faults \<Rightarrow> (nat \<Rightarrow> u8) \<Rightarrow> bytes \<Rightarrow> int \<Rightarrow> 'f jfile \<Rightarrow> 'p \<Rightarrow> (int \<times> faults \<times> 'f jfile \<times> 'p) option" where
  "journal_write pm ms fresh zBuf iOfst j w =
     (case j of
        JMem p \<Rightarrow> memjrnlWrite pm ms fresh zBuf iOfst p w
      | JReal fd \<Rightarrow> do { (rc, w) \<leftarrow> sqlite3OsWrite pm fd zBuf iOfst w; Some (rc, ms, j, w) })"

end
