(* ===== verification/Memjournal_Props.thy ===== *)
theory Memjournal_Props
  imports Memjournal Onefile_Props
begin

text \<open>
  The memory journal against a plain byte string: \<open>jbytes\<close> is what the chunks hold, \<open>mj_ok\<close> the invariant of the
  chunk list, its end pointer and the cached read position. The file it spills into satisfies the contract
  \<open>rw_file\<close>; \<open>journal_vfs\<close> adds what opening and closing it promise.
\<close>

section \<open>Chunks of one size\<close>

definition uniform :: "nat \<Rightarrow> bytes list \<Rightarrow> bool" where
  "uniform n cs \<longleftrightarrow> (\<forall>c \<in> set cs. length c = n)"

lemma uniform_simps [simp]: "uniform n []" "uniform n (c # cs) \<longleftrightarrow> length c = n \<and> uniform n cs"
  "uniform n (cs @ ds) \<longleftrightarrow> uniform n cs \<and> uniform n ds"
  by (auto simp: uniform_def)

lemma uniform_length: "uniform n cs \<Longrightarrow> length (concat cs) = length cs * n"
  by (induction cs) simp_all

lemma uniform_nth: "uniform n cs \<Longrightarrow> i < length cs \<Longrightarrow> length (cs ! i) = n"
  by (simp add: uniform_def)

lemma slice_add: "slice_of xs a (m + r) = slice_of xs a m @ slice_of xs (a + m) r"
  by (simp add: slice_of_def take_add add.commute)

lemma slice_chunk:
  "uniform n cs \<Longrightarrow> i < length cs \<Longrightarrow> off + m \<le> n \<Longrightarrow> slice_of (concat cs) (i * n + off) m = slice_of (cs ! i) off m"
proof (induction cs arbitrary: i)
  case (Cons c cs)
  then show ?case by (cases i) (simp_all add: slice_of_def algebra_simps)
qed simp

lemma chunk_bound: "uniform n cs \<Longrightarrow> i < length cs \<Longrightarrow> off \<le> n \<Longrightarrow> i * n + off \<le> length (concat cs)"
proof -
  assume *: "uniform n cs" "i < length cs" "off \<le> n"
  have "Suc i * n \<le> length cs * n" using *(2) by (intro mult_le_mono1) simp
  then show ?thesis using * by (simp add: uniform_length)
qed

lemma splice_inside: "ofst \<le> length xs \<Longrightarrow> splice xs ofst z = take ofst xs @ z @ drop (ofst + length z) xs"
  by (simp add: splice_def)

lemma concat_update:
  "uniform n cs \<Longrightarrow> i < length cs \<Longrightarrow> off + length z \<le> n \<Longrightarrow>
   concat (cs[i := splice (cs ! i) off z]) = splice (concat cs) (i * n + off) z"
proof (induction cs arbitrary: i)
  case (Cons c cs)
  show ?case
  proof (cases i)
    case 0
    then show ?thesis using Cons.prems by (simp add: splice_inside)
  next
    case (Suc j)
    have b: "j * n + off \<le> length (concat cs)" using chunk_bound [of n cs j off] Cons.prems Suc by simp
    then have "concat ((c # cs)[i := splice ((c # cs) ! i) off z]) = c @ splice (concat cs) (j * n + off) z"
      using Cons Suc by simp
    moreover have "splice (c @ concat cs) (i * n + off) z = c @ splice (concat cs) (j * n + off) z"
      using b Cons.prems Suc by (simp add: splice_inside add.assoc)
    ultimately show ?thesis by simp
  qed
qed simp

section \<open>The invariant\<close>

definition mj_ok :: "nat \<Rightarrow> nat \<Rightarrow> MemJournal \<Rightarrow> bool" where
  "mj_ok n e p \<longleftrightarrow> jChunkSize p = int n \<and> 0 < n \<and> endOffset p = int e \<and> uniform n (jChunks p) \<and>
     e \<le> length (jChunks p) * n \<and> length (jChunks p) * n < e + n \<and>
     endChunk p = (if jChunks p = [] then None else Some (length (jChunks p) - 1)) \<and>
     (readOffset p = 0 \<or> (\<exists>r. readOffset p = int r \<and> readChunk p = Some (r div n) \<and> r div n < length (jChunks p)))"

definition jbytes :: "MemJournal \<Rightarrow> bytes" where
  "jbytes p = take (nat (endOffset p)) (concat (jChunks p))"

lemma length_jbytes: "mj_ok n e p \<Longrightarrow> length (jbytes p) = e"
  by (auto simp: mj_ok_def jbytes_def uniform_length)

lemma c_rem_int: "0 < n \<Longrightarrow> c_rem (int a) (int n) = Some (int (a mod n))"
  by (simp add: c_rem_def smod_pos zmod_int)

text \<open>Reading.\<close>

lemma seek_run:
  "i * n \<le> ofst \<Longrightarrow> i \<le> k \<Longrightarrow> 0 < n \<Longrightarrow> ofst div n < k \<Longrightarrow> memjrnl_seek (int n) (int ofst) k i (int (i * n)) = ofst div n"
proof (induction "k - i" arbitrary: i)
  case 0
  then show ?case by (metis diff_is_0_eq div_le_mono leD nonzero_mult_div_cancel_right not_gr_zero order_trans)
next
  case (Suc d)
  show ?case
  proof (cases "i * n + n \<le> ofst")
    case True
    have ik: "i < k" using Suc.hyps(2) by simp
    have e: "int (i * n) + int n = int (Suc i * n)" by simp
    have le: "int (i * n) + int n \<le> int ofst" using True by linarith
    have "memjrnl_seek (int n) (int ofst) k i (int (i * n)) = memjrnl_seek (int n) (int ofst) k (Suc i) (int (Suc i * n))"
      using ik le by (subst memjrnl_seek.simps) (simp only: e if_True simp_thms Suc_eq_plus1)
    then show ?thesis using Suc.hyps(1) [of "Suc i"] Suc.hyps(2) Suc.prems True ik by simp
  next
    case False
    then have "ofst div n = i" using Suc.prems by (intro div_nat_eqI) (simp_all add: algebra_simps)
    moreover have "\<not> int (i * n) + int n \<le> int ofst" using False by linarith
    ultimately show ?thesis by (subst memjrnl_seek.simps) (simp only: simp_thms if_False)
  qed
qed

lemma mem_get_slice: "off + m \<le> length c \<Longrightarrow> mem_get c (int off) (int m) = Some (slice_of c off m)"
  by (simp add: mem_get_def slice_of_def)

lemma copy_run:
  "uniform n cs \<Longrightarrow> off < n \<Longrightarrow> i < length cs \<Longrightarrow> 0 < r \<Longrightarrow> i * n + off + r \<le> length cs * n \<Longrightarrow>
   memjrnl_copy (int n) cs i (int off) (int r) out =
     Some (out @ slice_of (concat cs) (i * n + off) r,
       let j = (i * n + off + r) div n in if j < length cs then Some j else None)"
proof (induction r arbitrary: i off out rule: less_induct)
  case (less r)
  note p = less.prems
  have dn: "int n - int off = int (n - off)" using p by simp
  have g: "mem_get (cs ! i) (int off) (int (min r (n - off))) = Some (slice_of (concat cs) (i * n + off) (min r (n - off)))"
    using mem_get_slice [of off "min r (n - off)" "cs ! i"] slice_chunk [OF p(1,3), of off "min r (n - off)"]
      uniform_nth [OF p(1,3)] p by simp
  have mn: "min (int r) (int (n - off)) = int (min r (n - off))" by (simp only: of_nat_min)
  note unfold_copy = memjrnl_copy.simps [of "int n" cs i "int off" "int r" out, unfolded dn mn]
  consider "r < n - off" | "r = n - off" | "n - off < r" by linarith
  then show ?case
  proof cases
    case 1
    then have "(i * n + off + r) div n = i" using p by (intro div_nat_eqI) (simp_all add: algebra_simps)
    then show ?thesis using 1 p g unfolding unfold_copy by (simp add: nth_opt_def Let_def del: of_nat_diff of_nat_min)
  next
    case 2
    then have "(i * n + off + r) div n = Suc i" using p by (intro div_nat_eqI) (simp_all add: algebra_simps)
    then show ?thesis using 2 p g unfolding unfold_copy by (simp add: nth_opt_def Let_def del: of_nat_diff of_nat_min)
  next
    case 3
    let ?r = "r - (n - off)"
    have i: "Suc i < length cs"
    proof (rule ccontr)
      assume "\<not> Suc i < length cs"
      then have "length cs * n \<le> Suc i * n" using mult_le_mono1 [of "length cs" "Suc i" n] by simp
      then show False using p 3 by simp
    qed
    have a: "i * n + off + (n - off) = Suc i * n + 0" "i * n + off + r = Suc i * n + 0 + ?r" using p 3 by simp_all
    have "memjrnl_copy (int n) cs i (int off) (int r) out =
        memjrnl_copy (int n) cs (Suc i) (int 0) (int ?r) (out @ slice_of (concat cs) (i * n + off) (n - off))"
      using 3 p g i unfolding unfold_copy
      by (simp add: nth_opt_def Let_def of_nat_diff [of "n - off" r, symmetric] del: of_nat_diff of_nat_min diff_diff_right Nat.diff_diff_right)
    also have "\<dots> = Some ((out @ slice_of (concat cs) (i * n + off) (n - off)) @ slice_of (concat cs) (Suc i * n + 0) ?r,
        let j = (Suc i * n + 0 + ?r) div n in if j < length cs then Some j else None)"
      using 3 p i a by (intro less.IH) simp_all
    also have "(out @ slice_of (concat cs) (i * n + off) (n - off)) @ slice_of (concat cs) (Suc i * n + 0) ?r = out @ slice_of (concat cs) (i * n + off) r"
      using slice_add [of "concat cs" "i * n + off" "n - off" ?r] a(1) 3 by simp
    finally show ?thesis unfolding a(2) .
  qed
qed

lemma memjrnlRead_run:
  assumes ok: "mj_ok n e p" and r: "zBuf \<noteq> []" and e: "ofst + length zBuf \<le> e"
  shows "\<exists>p'. memjrnlRead zBuf (int ofst) p = Some (SQLITE_OK, slice_of (jbytes p) ofst (length zBuf), p') \<and>
    mj_ok n e p' \<and> jbytes p' = jbytes p \<and> jSpill p' = jSpill p \<and> jFlags p' = jFlags p \<and> zJournal p' = zJournal p"
proof -
  let ?cs = "jChunks p" and ?m = "length zBuf" and ?i = "ofst div n"
  note o = ok [unfolded mj_ok_def]
  have "0 < length zBuf" using r by simp
  then have "ofst < length ?cs * n" using o e by linarith
  then have i: "?i < length ?cs" using o by (simp add: div_less_iff_less_mult)
  have seek: "(if readOffset p \<noteq> int ofst \<or> int ofst = 0 then Some (memjrnl_seek (jChunkSize p) (int ofst) (length ?cs) 0 0) else readChunk p) = Some ?i"
    using seek_run [of 0 n ofst "length ?cs"] o i by auto
  have c: "memjrnl_copy (int n) ?cs ?i (int (ofst mod n)) (int ?m) [] = Some (slice_of (concat ?cs) ofst ?m,
      let j = (ofst + ?m) div n in if j < length ?cs then Some j else None)"
    using copy_run [of n ?cs "ofst mod n" ?i ?m "[]"] o i r e by simp
  have s: "slice_of (concat ?cs) ofst ?m = slice_of (jbytes p) ofst ?m" using e o by (simp add: jbytes_def slice_of_def drop_take)
  have l: "length (slice_of (jbytes p) ofst ?m) = ?m" using e length_jbytes [OF ok] by simp
  have put: "mem_put zBuf 0 (slice_of (jbytes p) ofst ?m) = Some (slice_of (jbytes p) ofst ?m)"
    using l by (simp add: mem_put_def)
  let ?j = "(ofst + ?m) div n"
  let ?p = "p\<lparr>readOffset := (if ?j < length ?cs then int ofst + int ?m else 0), readChunk := (if ?j < length ?cs then Some ?j else None)\<rparr>"
  have "memjrnlRead zBuf (int ofst) p = Some (SQLITE_OK, slice_of (jbytes p) ofst ?m, ?p)"
    unfolding memjrnlRead_def seek using o e c put s by (auto simp: c_rem_int Let_def split: if_splits)
  moreover have "mj_ok n e ?p" using o by (auto simp: mj_ok_def intro!: exI [of _ "ofst + ?m"])
  ultimately show ?thesis by (auto simp: jbytes_def)
qed

section \<open>Writing in memory\<close>

definition same_conf :: "MemJournal \<Rightarrow> MemJournal \<Rightarrow> bool" where
  "same_conf p p' \<longleftrightarrow> jSpill p' = jSpill p \<and> jFlags p' = jFlags p \<and> zJournal p' = zJournal p"

lemma same_conf_simps [simp]: "same_conf p p" "same_conf p q \<Longrightarrow> same_conf q r \<Longrightarrow> same_conf p r"
  by (simp_all add: same_conf_def)

text \<open>\<open>mj_room n e p\<close>: the chunk of byte \<open>e\<close> is there and is the last one.\<close>

definition mj_room :: "nat \<Rightarrow> nat \<Rightarrow> MemJournal \<Rightarrow> bool" where
  "mj_room n e p \<longleftrightarrow> jChunkSize p = int n \<and> 0 < n \<and> endOffset p = int e \<and> uniform n (jChunks p) \<and>
     length (jChunks p) = Suc (e div n) \<and> endChunk p = Some (e div n) \<and>
     (readOffset p = 0 \<or> (\<exists>r. readOffset p = int r \<and> readChunk p = Some (r div n) \<and> r div n < length (jChunks p)))"

lemma mj_room_mid:
  assumes "mj_ok n e p" and "e mod n \<noteq> 0"
  shows "mj_room n e p"
proof -
  note o = assms(1) [unfolded mj_ok_def]
  have d: "e = e div n * n + e mod n" by simp
  have "e div n * n < length (jChunks p) * n" using o d assms(2) by linarith
  then have "e div n < length (jChunks p)" by simp
  moreover have "Suc (Suc (e div n)) * n = e div n * n + n + n" "e mod n < n" using o by simp_all
  then have "length (jChunks p) * n < Suc (Suc (e div n)) * n" using o d by linarith
  then have "length (jChunks p) < Suc (Suc (e div n))" using mult_less_cancel2 by blast
  ultimately have "length (jChunks p) = Suc (e div n)" by simp
  then show ?thesis using o by (auto simp: mj_room_def)
qed

lemma extend_run:
  assumes "mj_ok n e p" and "e mod n = 0"
  shows "(\<not> alloc_ok ms \<and> memjrnl_extend ms fresh p = Some (False, tl ms, p)) \<or>
    (\<exists>p'. memjrnl_extend ms fresh p = Some (True, tl ms, p') \<and> mj_room n e p' \<and> jbytes p' = jbytes p \<and> same_conf p p')"
proof (cases "alloc_ok ms")
  case True
  note o = assms(1) [unfolded mj_ok_def]
  let ?L = "length (jChunks p)" and ?new = "map fresh [0..<n]"
  have d: "e = e div n * n" using assms(2) by (simp add: mod_eq_0_iff_dvd)
  have "e div n * n \<le> ?L * n" "?L * n < Suc (e div n) * n" using o d by simp_all
  then have L: "?L = e div n" using o mult_less_cancel2 [of ?L n "Suc (e div n)"] mult_le_cancel2 [of "e div n" n ?L] by simp
  let ?p = "p\<lparr>jChunks := jChunks p @ [?new], endChunk := Some (e div n)\<rparr>"
  have "memjrnl_extend ms fresh p = Some (True, tl ms, ?p)"
    using True o L by (auto simp: memjrnl_extend_def Let_def split: if_splits)
  moreover have "mj_room n e ?p" using o L by (auto simp: mj_room_def)
  moreover have "length (concat (jChunks p)) = e" using o L d uniform_length [of n "jChunks p"] by simp
  then have "jbytes ?p = jbytes p" using o by (simp add: jbytes_def)
  ultimately show ?thesis by (auto simp: same_conf_def)
qed (simp add: memjrnl_extend_def)

lemma put_run:
  assumes "mj_room n e p" and "length z \<le> n - e mod n" and "z \<noteq> []"
  shows "\<exists>i c c'. endChunk p = Some i \<and> nth_opt (jChunks p) i = Some c \<and> mem_put c (int (e mod n)) z = Some c' \<and>
    mj_ok n (e + length z) (p\<lparr>jChunks := (jChunks p)[i := c'], endOffset := endOffset p + int (length z)\<rparr>) \<and>
    jbytes (p\<lparr>jChunks := (jChunks p)[i := c'], endOffset := endOffset p + int (length z)\<rparr>) = jbytes p @ z"
proof -
  note o = assms(1) [unfolded mj_room_def]
  let ?i = "e div n" and ?cs = "jChunks p" and ?off = "e mod n"
  have i: "?i < length ?cs" using o by simp
  have l: "length (?cs ! ?i) = n" using uniform_nth [OF _ i] o by blast
  have off: "?off < n" using o by simp
  have put: "mem_put (?cs ! ?i) (int ?off) z = Some (splice (?cs ! ?i) ?off z)"
    using assms(2) l off by (intro mem_put_splice) simp_all
  have ls: "length (splice (?cs ! ?i) ?off z) = n" using l off assms(2) by simp
  let ?cs' = "?cs[?i := splice (?cs ! ?i) ?off z]"
  have u: "uniform n ?cs'" using o ls by (auto simp: uniform_def dest!: set_update_subset_insert [THEN subsetD])
  have cc: "concat ?cs' = splice (concat ?cs) e z" using concat_update [of n ?cs ?i ?off z] o i off assms(2) by simp
  have el: "e \<le> length (concat ?cs)" using chunk_bound [of n ?cs ?i ?off] o i off by simp
  have e: "?i * n + ?off = e" by simp
  have "length ?cs * n = ?i * n + n" using o by simp
  then have len: "length ?cs * n + ?off = e + n" using e by linarith
  let ?p = "p\<lparr>jChunks := ?cs', endOffset := endOffset p + int (length z)\<rparr>"
  have ne: "?cs \<noteq> []" using i by auto
  have "0 < length z" using assms(3) by simp
  then have b: "e + length z \<le> n + e div n * n" "e div n * n < e + length z" using e assms(2) off by linarith+
  have "mj_ok n (e + length z) ?p"
    using o u b ne by (auto simp: mj_ok_def)
  moreover have "jbytes ?p = jbytes p @ z"
    using o cc el by (simp add: jbytes_def splice_inside nat_add_distrib)
  ultimately show ?thesis using o i put by (auto simp: nth_opt_def)
qed

lemma append_run:
  "mj_ok n e p \<Longrightarrow> \<exists>rc ms' p' k. memjrnl_append ms fresh p z = Some (rc, ms', p') \<and> k \<le> length z \<and> mj_ok n (e + k) p' \<and>
     jbytes p' = jbytes p @ take k z \<and> same_conf p p' \<and>
     (rc = SQLITE_OK \<and> k = length z \<or> rc = SQLITE_IOERR_NOMEM \<and> \<not> no_fault ms)"
proof (induction "length z" arbitrary: z e p ms rule: less_induct)
  case less
  note o = less.prems [unfolded mj_ok_def]
  show ?case
  proof (cases "z = []")
    case True
    then show ?thesis using less.prems by (subst memjrnl_append.simps) auto
  next
    case False
    let ?off = "e mod n"
    let ?sp = "min (length z) (n - ?off)"
    have off: "?off < n" using o by simp
    have sp: "0 < ?sp" using False off by simp
    have dn: "int n - int ?off = int (n - ?off)" using off by simp
    have mn: "min (int (length z)) (int (n - ?off)) = int ?sp" by (simp only: of_nat_min)
    have rem: "c_rem (endOffset p) (jChunkSize p) = Some (int ?off)" using o by (simp add: c_rem_int)
    let ?ext = "if int ?off = 0 then memjrnl_extend ms fresh p else Some (True, ms, p)"
    consider (fail) ms1 where "?ext = Some (False, ms1, p)" "\<not> alloc_ok ms"
      | (room) ms1 p1 where "?ext = Some (True, ms1, p1)" "mj_room n e p1" "jbytes p1 = jbytes p" "same_conf p p1" "no_fault ms \<longrightarrow> no_fault ms1"
      using extend_run [OF less.prems, of ms fresh] mj_room_mid [OF less.prems] no_fault_alloc(2) by (cases "?off = 0") auto
    then show ?thesis
    proof cases
      case (fail ms1)
      then show ?thesis using False rem less.prems no_fault_alloc(1) [of ms]
        by (subst memjrnl_append.simps) (auto simp: Let_def intro!: exI [of _ 0])
    next
      case (room ms1 p1)
      have lz: "length (take ?sp z) \<le> n - ?off" "take ?sp z \<noteq> []" "length (take ?sp z) = ?sp" using sp False by auto
      obtain i c c' where i: "endChunk p1 = Some i" "nth_opt (jChunks p1) i = Some c" "mem_put c (int ?off) (take ?sp z) = Some c'"
          "mj_ok n (e + ?sp) (p1\<lparr>jChunks := (jChunks p1)[i := c'], endOffset := endOffset p1 + int ?sp\<rparr>)"
          "jbytes (p1\<lparr>jChunks := (jChunks p1)[i := c'], endOffset := endOffset p1 + int ?sp\<rparr>) = jbytes p1 @ take ?sp z"
        using put_run [OF room(2) lz(1,2)] unfolding lz(3) by blast
      let ?p2 = "p1\<lparr>jChunks := (jChunks p1)[i := c'], endOffset := endOffset p1 + int ?sp\<rparr>"
      have cs: "jChunkSize p = int n" using o by simp
      have step: "memjrnl_append ms fresh p z = memjrnl_append ms1 fresh ?p2 (drop ?sp z)"
        using False room(1) i(1-3)
        by (subst memjrnl_append.simps) (simp only: rem [unfolded cs] cs dn mn Let_def bind.bind_lunit prod.case simp_thms if_False if_True nat_int)
      have "length (drop ?sp z) < length z" using sp by simp
      then obtain rc ms' p' k where k: "memjrnl_append ms1 fresh ?p2 (drop ?sp z) = Some (rc, ms', p')" "k \<le> length (drop ?sp z)"
          "mj_ok n (e + ?sp + k) p'" "jbytes p' = jbytes ?p2 @ take k (drop ?sp z)" "same_conf ?p2 p'"
          "rc = SQLITE_OK \<and> k = length (drop ?sp z) \<or> rc = SQLITE_IOERR_NOMEM \<and> \<not> no_fault ms1"
        using less.hyps [OF _ i(4), of "drop ?sp z" ms1] by blast
      have "jbytes p' = jbytes p @ take (?sp + k) z" using k(4) i(5) room(3) by (simp only: take_add append_assoc)
      moreover have "same_conf p p'" using room(4) k(5) by (simp add: same_conf_def)
      moreover have "?sp + k \<le> length z" "rc = SQLITE_OK \<and> ?sp + k = length z \<or> rc = SQLITE_IOERR_NOMEM \<and> \<not> no_fault ms"
        using k(2,6) room(5) by auto
      moreover have "mj_ok n (e + (?sp + k)) p'" using k(3) by (simp only: add.assoc)
      ultimately show ?thesis using trans [OF step k(1)] by (intro exI [of _ rc] exI [of _ ms'] exI [of _ p'] exI [of _ "?sp + k"] conjI)
    qed
  qed
qed

section \<open>The file it spills into\<close>

text \<open>Opening the journal's file creates an empty file; \<open>closed\<close> is the invariant while it is not open.\<close>

locale journal_vfs = rw_file "xRead pm f" "xWrite pm f" view inv
  for pm :: "('f, 'p) parent_vfs" and f :: 'f and view :: "'p \<Rightarrow> bytes" and inv :: "'p \<Rightarrow> bool" +
  fixes zFile :: string and flags :: u32 and closed :: "'p \<Rightarrow> bool"
  assumes open_new: "closed w \<Longrightarrow> xOpen pm zFile (flags AND 0x87f7f) w = (rc, fd, w') \<Longrightarrow>
      (rc = SQLITE_OK \<and> fd = Some f \<and> inv w' \<and> view w' = []) \<or> (rc \<noteq> SQLITE_OK \<and> fd = None \<and> closed w')"
    and close_old: "inv w \<Longrightarrow> closed (snd (xClose pm f w))"
begin

definition jok :: "int \<Rightarrow> 'f jfile \<Rightarrow> 'p \<Rightarrow> bytes \<Rightarrow> bool" where
  "jok nSpill j w bs = (case j of
     JMem p \<Rightarrow> (\<exists>n. mj_ok n (length (jbytes p)) p \<and> n < 2 ^ 31) \<and> jSpill p = nSpill \<and> jFlags p = flags \<and> zJournal p = zFile \<and>
       closed w \<and> bs = jbytes p
   | JReal fd \<Rightarrow> fd = Some f \<and> inv w \<and> bs = view w)"

lemma flush_run:
  "uniform n cs \<Longrightarrow> n < 2 ^ 31 \<Longrightarrow> inv w \<Longrightarrow> off \<le> length (view w) \<Longrightarrow> off \<le> e \<Longrightarrow> e \<le> off + length cs * n \<Longrightarrow>
   off + length cs * n < e + n \<Longrightarrow>
   \<exists>rc w'. memjrnl_flush pm (Some f) cs (int n) (int e) (int off) w = Some (rc, w') \<and> inv w' \<and>
     (rc = SQLITE_OK \<longrightarrow> view w' = splice (view w) off (take (e - off) (concat cs)))"
proof (induction cs arbitrary: off w)
  case Nil
  then show ?case by (simp add: splice_def)
next
  case (Cons c cs)
  define m where "m = min n (e - off)"
  have c: "length c = n" using Cons.prems by simp
  have m: "(if int off + int n > int e then c_int (int e - int off) else int n) = int m"
    using Cons.prems by (auto simp: m_def min_def c_int_id of_nat_diff)
  have g: "mem_get c 0 (int m) = Some (take m c)" using c by (simp add: mem_get_def m_def)
  obtain rc w1 where w1: "xWrite pm f (take m c) (int off) w = Some (rc, w1)"
    using wr_total [OF Cons.prems(3,4)] by blast
  note fr = wr_frame [OF Cons.prems(3,4) w1]
  have step: "memjrnl_flush pm (Some f) (c # cs) (int n) (int e) (int off) w =
      (if rc \<noteq> 0 then Some (rc, w1) else memjrnl_flush pm (Some f) cs (int m) (int e) (int off + int m) w1)"
    using m g w1 by (simp add: sqlite3OsWrite_def Let_def)
  show ?case
  proof (cases "rc = SQLITE_OK")
    case False
    then show ?thesis using step fr by (simp add: SQLITE_OK_def)
  next
    case True
    note v = wr_ok [OF Cons.prems(3,4) w1 [unfolded True]]
    show ?thesis
    proof (cases "cs = []")
      case True
      then have "m = e - off" "take m c = take (e - off) (c @ concat cs)" using Cons.prems c by (simp_all add: m_def)
      then show ?thesis using step fr v True \<open>rc = SQLITE_OK\<close> by (simp add: SQLITE_OK_def)
    next
      case False
      have "n \<le> length cs * n" using False by (cases cs) simp_all
      moreover have "off + (n + length cs * n) < e + n" using Cons.prems(7) by simp
      ultimately have "off + n \<le> e" by linarith
      then have mn: "m = n" "off + n \<le> e" by (simp_all add: m_def)
      have "off + n \<le> length (view w1)" using v c mn by simp
      then obtain rc' w' where w': "memjrnl_flush pm (Some f) cs (int n) (int e) (int (off + n)) w1 = Some (rc', w')" "inv w'"
          "rc' = SQLITE_OK \<longrightarrow> view w' = splice (view w1) (off + n) (take (e - (off + n)) (concat cs))"
        using Cons.IH [of w1 "off + n"] Cons.prems fr mn by auto
      have "take (e - off) (concat (c # cs)) = c @ take (e - (off + n)) (concat cs)" using c mn by simp
      then have "splice (view w1) (off + n) (take (e - (off + n)) (concat cs)) = splice (view w) off (take (e - off) (concat (c # cs)))"
        using v mn c splice_append [OF Cons.prems(4), of c] by simp
      then show ?thesis using step w' True mn by (simp add: SQLITE_OK_def)
    qed
  qed
qed

lemma create_run:
  assumes "jok nSpill (JMem p) w bs"
  shows "\<exists>rc j w'. memjrnlCreateFile pm p w = Some (rc, j, w') \<and>
    (rc = SQLITE_OK \<and> j = JReal (Some f) \<and> inv w' \<and> view w' = bs \<or> rc \<noteq> SQLITE_OK \<and> j = JMem p \<and> closed w')"
proof -
  obtain n where ok: "mj_ok n (length bs) p" "n < 2 ^ 31" "jFlags p = flags" "zJournal p = zFile" "closed w" "bs = jbytes p"
    using assms by (auto simp: jok_def)
  note o = ok(1) [unfolded mj_ok_def]
  obtain rc fd w1 where x: "xOpen pm zFile (flags AND 0x87f7f) w = (rc, fd, w1)" using prod_cases3 by blast
  show ?thesis
  proof (cases "rc = SQLITE_OK")
    case False
    then show ?thesis using open_new [OF ok(5) x] x ok(3,4)
      by (simp add: memjrnlCreateFile_def sqlite3OsOpen_def sqlite3OsClose_def)
  next
    case True
    then have op: "fd = Some f" "inv w1" "view w1 = []" using open_new [OF ok(5) x] by simp_all
    obtain rc' w' where w': "memjrnl_flush pm (Some f) (jChunks p) (int n) (int (length bs)) (int 0) w1 = Some (rc', w')" "inv w'"
        "rc' = SQLITE_OK \<longrightarrow> view w' = splice (view w1) 0 (take (length bs - 0) (concat (jChunks p)))"
      using flush_run [of n "jChunks p" w1 0 "length bs"] o ok(2) op by auto
    have "take (length bs) (concat (jChunks p)) = bs" using o ok(6) by (metis jbytes_def nat_int)
    then have "rc' = SQLITE_OK \<longrightarrow> view w' = bs" using w'(3) op(3) by (simp add: splice_def)
    then show ?thesis using x True op(1) w'(1,2) ok(3,4) o close_old [OF w'(2)]
      by (auto simp: memjrnlCreateFile_def sqlite3OsOpen_def sqlite3OsClose_def)
  qed
qed

end

context journal_vfs
begin

text \<open>A write at the end always has a result; the bytes written before stay.\<close>

lemma write_run:
  assumes "jok nSpill j w bs"
  shows "\<exists>rc ms' j' w' bs'. journal_write pm ms fresh z (int (length bs)) j w = Some (rc, ms', j', w') \<and> jok nSpill j' w' bs' \<and>
    (rc = SQLITE_OK \<longrightarrow> bs' = bs @ z) \<and> take (length bs) bs' = bs"
proof (cases j)
  case (JReal fd)
  then have a: "fd = Some f" "inv w" "bs = view w" using assms by (simp_all add: jok_def)
  obtain rc w' where w': "xWrite pm f z (int (length bs)) w = Some (rc, w')" using wr_total [OF a(2)] a(3) by blast
  note fr = wr_frame [OF a(2) _ w'] and ok = wr_ok [OF a(2), of "length bs" z w']
  have "take (length bs) (view w') = bs" using fr a(3) by (intro nth_equalityI) auto
  then show ?thesis using JReal a w' fr ok by (auto simp: journal_write_def sqlite3OsWrite_def jok_def splice_def)
next
  case (JMem p)
  obtain n where ok: "mj_ok n (length bs) p" "n < 2 ^ 31" "jSpill p = nSpill" "jFlags p = flags" "zJournal p = zFile" "closed w" "bs = jbytes p"
    using assms JMem by (auto simp: jok_def)
  show ?thesis
  proof (cases "nSpill > 0 \<and> int (length z) + int (length bs) > nSpill")
    case True
    obtain rc j' w1 where c: "memjrnlCreateFile pm p w = Some (rc, j', w1)"
        "rc = SQLITE_OK \<and> j' = JReal (Some f) \<and> inv w1 \<and> view w1 = bs \<or> rc \<noteq> SQLITE_OK \<and> j' = JMem p \<and> closed w1"
      using create_run [of nSpill p w bs] assms JMem by blast
    show ?thesis
    proof (cases "rc = SQLITE_OK")
      case True': True
      then have a: "j' = JReal (Some f)" "inv w1" "view w1 = bs" using c(2) by simp_all
      obtain rc' w' where w': "xWrite pm f z (int (length bs)) w1 = Some (rc', w')" using wr_total [OF a(2)] a(3) by blast
      note fr = wr_frame [OF a(2) _ w'] and ok' = wr_ok [OF a(2), of "length bs" z w']
      have "take (length bs) (view w') = bs" using fr a(3) by (intro nth_equalityI) auto
      then show ?thesis using JMem True True' c(1) a w' fr ok' ok(3)
        by (auto simp: journal_write_def memjrnlWrite_def Let_def sqlite3OsWrite_def jok_def splice_def)
    next
      case False
      have j: "j' = JMem p" "closed w1" using c(2) False by simp_all
      have "jok nSpill (JMem p) w1 bs" using assms JMem j(2) by (simp add: jok_def)
      then show ?thesis using JMem True False c(1) j(1) ok(3)
        by (auto simp: journal_write_def memjrnlWrite_def Let_def)
    qed
  next
    case False
    note o = ok(1) [unfolded mj_ok_def]
    obtain rc ms' p' k where a: "memjrnl_append ms fresh p z = Some (rc, ms', p')" "k \<le> length z" "mj_ok n (length bs + k) p'"
        "jbytes p' = jbytes p @ take k z" "same_conf p p'" "rc = SQLITE_OK \<and> k = length z \<or> rc = SQLITE_IOERR_NOMEM \<and> \<not> no_fault ms"
      using append_run [OF ok(1)] by blast
    have e: "bs = [] \<Longrightarrow> jChunks p = []" using o by auto
    have jk: "jok nSpill (JMem q) w (jbytes p')" if "mj_ok n (length bs + k) q" "jbytes q = jbytes p'" "same_conf p q" for q
      using that ok length_jbytes [OF that(1)] by (auto simp: jok_def same_conf_def)
    let ?q = "p'\<lparr>jSize := c_int (int (length z) + int (length bs))\<rparr>"
    have q: "mj_ok n (length bs + k) ?q" "jbytes ?q = jbytes p'" "same_conf p ?q" using a(3,5) by (simp_all add: mj_ok_def jbytes_def same_conf_def)
    have "journal_write pm ms fresh z (int (length bs)) j w =
        (if rc \<noteq> SQLITE_OK then Some (rc, ms', JMem p', w) else Some (SQLITE_OK, ms', JMem ?q, w))"
      using JMem False ok(3) o e a(1) by (auto simp: journal_write_def memjrnlWrite_def Let_def)
    then show ?thesis using jk [OF a(3) refl a(5)] jk [OF q] a(4,6) ok(7)
      by (cases "rc = SQLITE_OK") (auto simp: SQLITE_OK_def SQLITE_IOERR_NOMEM_def)
  qed
qed

lemma read_run:
  assumes "jok nSpill j w bs" and "buf \<noteq> []" and "ofst + length buf \<le> length bs"
  shows "\<exists>j'. journal_read pm buf (int ofst) j w = Some (SQLITE_OK, slice_of bs ofst (length buf), j') \<and> jok nSpill j' w bs \<and>
    sqlite3JournalIsInMemory j' = sqlite3JournalIsInMemory j"
proof (cases j)
  case (JReal fd)
  then show ?thesis using assms rd_full [of w ofst buf] by (auto simp: jok_def journal_read_def sqlite3OsRead_def)
next
  case (JMem p)
  then obtain n where ok: "mj_ok n (length bs) p" "n < 2 ^ 31" "jSpill p = nSpill" "jFlags p = flags" "zJournal p = zFile" "closed w" "bs = jbytes p"
    using assms(1) by (auto simp: jok_def)
  obtain p' where "memjrnlRead buf (int ofst) p = Some (SQLITE_OK, slice_of bs ofst (length buf), p')" "mj_ok n (length bs) p'"
      "jbytes p' = jbytes p" "jSpill p' = jSpill p" "jFlags p' = jFlags p" "zJournal p' = zJournal p"
    using memjrnlRead_run [OF ok(1) assms(2,3)] ok(7) by blast
  then show ?thesis using JMem ok by (auto simp: journal_read_def jok_def sqlite3JournalIsInMemory_def)
qed

lemma open_run:
  assumes "closed w" and "nSpill \<noteq> 0" and "nSpill < 2 ^ 31"
  shows "\<exists>p. sqlite3JournalOpen pm zFile flags nSpill w = Some (SQLITE_OK, JMem p, w) \<and> jok nSpill (JMem p) w []"
proof -
  define c where "c = (if nSpill > 0 then nat nSpill else 1016)"
  let ?p = "\<lparr>jChunkSize = int c, jSpill = nSpill, jSize = 0, jChunks = [], endOffset = 0, endChunk = None,
      readOffset = 0, readChunk = None, jFlags = flags, zJournal = zFile\<rparr>"
  have "sqlite3JournalOpen pm zFile flags nSpill w = Some (SQLITE_OK, JMem ?p, w)"
    using assms(2) by (auto simp: sqlite3JournalOpen_def c_def MEMJOURNAL_DFLT_FILECHUNKSIZE_def fileChunkSize_def)
  moreover have "jok nSpill (JMem ?p) w []"
    using assms by (auto simp: jok_def jbytes_def mj_ok_def c_def intro!: exI [of _ c])
  ultimately show ?thesis by blast
qed

end

section \<open>Sessions\<close>

text \<open>The steps of a client: it appends and reads what it wrote. The last component is what the client has
  written so far.\<close>

inductive journal_step ::
    "('f, 'p) parent_vfs \<Rightarrow> (nat \<Rightarrow> u8) \<Rightarrow> 'f jfile \<times> 'p \<times> bytes \<Rightarrow> 'f jfile \<times> 'p \<times> bytes \<Rightarrow> bool"
  for pm :: "('f, 'p) parent_vfs" and fresh :: "nat \<Rightarrow> u8" where
  journal_appended: "journal_write pm ms fresh z (int (length bs)) j w = Some (SQLITE_OK, ms', j', w')
     \<Longrightarrow> journal_step pm fresh (j, w, bs) (j', w', bs @ z)"
| journal_was_read: "buf \<noteq> [] \<Longrightarrow> ofst + length buf \<le> length bs \<Longrightarrow> journal_read pm buf (int ofst) j w = Some (rc, out, j')
     \<Longrightarrow> journal_step pm fresh (j, w, bs) (j', w, bs)"

inductive_cases journal_stepE: "journal_step pm fresh (j, w, bs) s"

definition journal_reachable ::
    "('f, 'p) parent_vfs \<Rightarrow> (nat \<Rightarrow> u8) \<Rightarrow> string \<Rightarrow> u32 \<Rightarrow> int \<Rightarrow> 'p \<Rightarrow> 'f jfile \<times> 'p \<times> bytes \<Rightarrow> bool" where
  "journal_reachable pm fresh zFile flags nSpill w0 s \<longleftrightarrow>
     (\<exists>j. sqlite3JournalOpen pm zFile flags nSpill w0 = Some (SQLITE_OK, j, w0) \<and> (journal_step pm fresh)\<^sup>*\<^sup>* (j, w0, []) s)"

context journal_vfs
begin

lemma in_memory:
  assumes "jok nSpill j w bs" and "nSpill \<noteq> 0" and "journal_write pm ms fresh z (int (length bs)) j w = Some (SQLITE_OK, ms', j', w')"
    and "sqlite3JournalIsInMemory j \<longleftrightarrow> nSpill < 0 \<or> int (length bs) \<le> nSpill"
  shows "sqlite3JournalIsInMemory j' \<longleftrightarrow> nSpill < 0 \<or> int (length (bs @ z)) \<le> nSpill"
proof (cases j)
  case (JReal fd)
  then show ?thesis using assms(3,4) by (auto simp: journal_write_def sqlite3JournalIsInMemory_def split: Option.bind_splits)
next
  case (JMem p)
  then have s: "jSpill p = nSpill" using assms(1) by (simp add: jok_def)
  show ?thesis using JMem s assms(2-4)
    by (auto simp: journal_write_def memjrnlWrite_def Let_def sqlite3JournalIsInMemory_def split: Option.bind_splits if_splits jfile.splits prod.splits)
qed

definition journal_inv :: "int \<Rightarrow> 'f jfile \<times> 'p \<times> bytes \<Rightarrow> bool" where
  "journal_inv nSpill = (\<lambda>(j, w, bs). jok nSpill j w bs \<and> (sqlite3JournalIsInMemory j \<longleftrightarrow> nSpill < 0 \<or> int (length bs) \<le> nSpill))"

lemma step_inv:
  assumes "journal_step pm fresh s s'" and "nSpill \<noteq> 0" and "journal_inv nSpill s"
  shows "journal_inv nSpill s'"
  using assms(1)
proof (cases rule: journal_step.cases)
  case (journal_appended ms z bs j w ms' j' w')
  then show ?thesis using assms(2,3) write_run [of nSpill j w bs ms fresh z] in_memory [of nSpill j w bs ms fresh z ms' j' w']
    by (simp add: journal_inv_def)
next
  case (journal_was_read buf ofst bs j w rc out j')
  then show ?thesis using assms(2,3) read_run [of nSpill j w bs buf ofst] by (auto simp: journal_inv_def)
qed

lemma reachable_inv:
  assumes "closed w0" and "nSpill \<noteq> 0" and "nSpill < 2 ^ 31" and "journal_reachable pm fresh zFile flags nSpill w0 s"
  shows "journal_inv nSpill s"
proof -
  obtain p where p: "sqlite3JournalOpen pm zFile flags nSpill w0 = Some (SQLITE_OK, JMem p, w0)" "jok nSpill (JMem p) w0 []"
    using open_run [OF assms(1-3)] by blast
  then have "(journal_step pm fresh)\<^sup>*\<^sup>* (JMem p, w0, []) s" using assms(4) by (simp add: journal_reachable_def)
  then show ?thesis
  proof (induction rule: rtranclp_induct)
    case base
    then show ?case using p(2) assms(2) by (auto simp: journal_inv_def sqlite3JournalIsInMemory_def)
  next
    case (step s s')
    then show ?case using step_inv assms(2) by blast
  qed
qed

end

text \<open>C11: Whatever a client has appended to a journal opened with any \<open>nSpill\<close> other than zero, and whatever it has read meanwhile,
  a read inside the written bytes returns exactly them, before and after the journal moves to its file; and the journal is in memory
  exactly as long as \<open>nSpill\<close> is negative or not exceeded.\<close>

theorem journal_reads_back:
  assumes "journal_vfs pm f view ok zFile flags closed" and "closed w0" and "nSpill \<noteq> 0" and "nSpill < 2 ^ 31"
    and "journal_reachable pm fresh zFile flags nSpill w0 (j, w, bs)" and "buf \<noteq> []" and "ofst + length buf \<le> length bs"
  shows "(\<exists>j'. journal_read pm buf (int ofst) j w = Some (SQLITE_OK, slice_of bs ofst (length buf), j')) \<and>
    (sqlite3JournalIsInMemory j \<longleftrightarrow> nSpill < 0 \<or> int (length bs) \<le> nSpill)"
proof -
  have "journal_vfs.journal_inv f view ok zFile flags closed nSpill (j, w, bs)"
    by (rule journal_vfs.reachable_inv [OF assms(1-5)])
  then have i: "journal_vfs.jok f view ok zFile flags closed nSpill j w bs" "sqlite3JournalIsInMemory j \<longleftrightarrow> nSpill < 0 \<or> int (length bs) \<le> nSpill"
    by (simp_all add: journal_vfs.journal_inv_def [OF assms(1)])
  then show ?thesis using journal_vfs.read_run [OF assms(1) i(1) assms(6,7)] by blast
qed

text \<open>C12: A write at the end of a journal always returns; when it fails, because memory is exhausted or because the
  journal's file cannot be opened or written, every byte written before can still be read.\<close>

theorem journal_failed_write_keeps:
  assumes "journal_vfs pm f view ok zFile flags closed" and "closed w0" and "nSpill \<noteq> 0" and "nSpill < 2 ^ 31"
    and "journal_reachable pm fresh zFile flags nSpill w0 (j, w, bs)" and "buf \<noteq> []" and "ofst + length buf \<le> length bs"
  shows "\<exists>rc ms' j' w' j''. journal_write pm ms fresh z (int (length bs)) j w = Some (rc, ms', j', w') \<and>
    journal_read pm buf (int ofst) j' w' = Some (SQLITE_OK, slice_of bs ofst (length buf), j'')"
proof -
  have "journal_vfs.journal_inv f view ok zFile flags closed nSpill (j, w, bs)"
    by (rule journal_vfs.reachable_inv [OF assms(1-5)])
  then have "journal_vfs.jok f view ok zFile flags closed nSpill j w bs"
    by (simp add: journal_vfs.journal_inv_def [OF assms(1)])
  then obtain rc ms' j' w' bs' where w': "journal_write pm ms fresh z (int (length bs)) j w = Some (rc, ms', j', w')"
      "journal_vfs.jok f view ok zFile flags closed nSpill j' w' bs'" "take (length bs) bs' = bs"
    using journal_vfs.write_run [OF assms(1)] by blast
  have l: "length bs \<le> length bs'" using arg_cong [OF w'(3), of length] by simp
  have "slice_of (take (length bs) bs') ofst (length buf) = slice_of bs' ofst (length buf)"
    using assms(7) by (simp add: slice_of_def drop_take min_def)
  then have "slice_of bs' ofst (length buf) = slice_of bs ofst (length buf)" using w'(3) by simp
  then show ?thesis using w'(1) journal_vfs.read_run [OF assms(1) w'(2) assms(6), of ofst] assms(7) l by auto
qed

section \<open>On the in-memory file of memdb.c\<close>

text \<open>The journal spills into a memory file that each opening creates anew.\<close>

definition mem_vfs :: "(unit, memfile) parent_vfs" where
  "mem_vfs = mem_parent\<lparr>xOpen := (\<lambda>z flags p. (SQLITE_OK, Some (), fst (the (memdbOpen SQLITE_OPEN_MAIN_DB))))\<rparr>"

interpretation mem_journal: journal_vfs mem_vfs "()" memdb_view memdb_inv zFile flags "\<lambda>_. True" for zFile flags
proof (intro journal_vfs.intro journal_vfs_axioms.intro, goal_cases)
  case 1
  show ?case using mem_parent_rw [of "()"] by (simp add: mem_vfs_def)
next
  case (2 w rc fd w')
  have "SQLITE_OPEN_MAIN_DB AND SQLITE_OPEN_MAIN_DB \<noteq> 0" by (simp add: SQLITE_OPEN_MAIN_DB_def)
  then obtain q out where q: "memdbOpen SQLITE_OPEN_MAIN_DB = Some (q, out)" by (simp add: memdbOpen_def)
  then show ?case using 2 memdbOpen_inv [OF q] by (auto simp: mem_vfs_def)
qed simp

text \<open>A journal of three bytes that has moved to its file.\<close>

definition spilled :: "unit jfile \<times> memfile \<times> bytes" where
  "spilled = (JReal (Some ()), (mem_blob_file 0)\<lparr>sz := 3, szMax := 6, aData := [1, 2, 3, 0, 0, 0], mFlags := 3\<rparr>, [1, 2, 3])"

lemma spilled_reachable: "journal_reachable mem_vfs (\<lambda>_. 0) ''j'' 0 2 (mem_blob_file 0) spilled"
proof -
  let ?p = "\<lparr>jChunkSize = 2, jSpill = 2, jSize = 0, jChunks = [], endOffset = 0, endChunk = None,
      readOffset = 0, readChunk = None, jFlags = 0, zJournal = ''j''\<rparr>"
  have six: "replicate 6 (0 :: u8) = [0, 0, 0, 0, 0, 0]" by (simp add: numeral_eq_Suc)
  have o: "sqlite3JournalOpen mem_vfs ''j'' 0 2 (mem_blob_file 0) = Some (SQLITE_OK, JMem ?p, mem_blob_file 0)"
    by (simp add: sqlite3JournalOpen_def)
  have "journal_write mem_vfs [] (\<lambda>_. 0) [1, 2, 3] (int (length [])) (JMem ?p) (mem_blob_file 0) =
      Some (SQLITE_OK, [], fst spilled, fst (snd spilled))"
    by (simp add: journal_write_def memjrnlWrite_def memjrnlCreateFile_def sqlite3OsOpen_def sqlite3OsWrite_def mem_vfs_def mem_parent_def
        memdbOpen_def memdbWrite_def memdbEnlarge_def realloc_zero_def spilled_def mem_blob_file_def mem_put_def SQLITE_OPEN_MAIN_DB_def
        DESERIALIZE_RESIZEABLE_def DESERIALIZE_FREEONCLOSE_def SQLITE_OK_def Let_def six)
  from journal_appended [OF this] have "journal_step mem_vfs (\<lambda>_. 0) (JMem ?p, mem_blob_file 0, []) spilled"
    by (simp add: spilled_def)
  then show ?thesis unfolding journal_reachable_def using o by (intro exI [of _ "JMem ?p"] conjI) auto
qed

theorem journal_reads_back_witness:
  "\<exists>j w j'. journal_reachable mem_vfs (\<lambda>_. 0) ''j'' 0 2 (mem_blob_file 0) (j, w, [1, 2, 3]) \<and>
    journal_read mem_vfs [0, 0] 1 j w = Some (SQLITE_OK, [2, 3], j') \<and> \<not> sqlite3JournalIsInMemory j"
proof -
  obtain j w where s: "spilled = (j, w, [1, 2, 3])" by (simp add: spilled_def)
  have r: "journal_reachable mem_vfs (\<lambda>_. 0) ''j'' 0 2 (mem_blob_file 0) (j, w, [1, 2, 3])"
    using spilled_reachable unfolding s .
  show ?thesis
    using journal_reads_back [OF mem_journal.journal_vfs_axioms _ _ _ r, of "[0, 0]" 1] r by (auto simp: slice_of_def)
qed

theorem journal_failed_write_keeps_witness:
  "\<exists>j w rc ms' j' w' j''. journal_reachable mem_vfs (\<lambda>_. 0) ''j'' 0 2 (mem_blob_file 0) (j, w, [1, 2, 3]) \<and>
    journal_write mem_vfs [] (\<lambda>_. 0) [4] 3 j w = Some (rc, ms', j', w') \<and>
    journal_read mem_vfs [0, 0] 1 j' w' = Some (SQLITE_OK, [2, 3], j'')"
proof -
  obtain j w where s: "spilled = (j, w, [1, 2, 3])" by (simp add: spilled_def)
  have r: "journal_reachable mem_vfs (\<lambda>_. 0) ''j'' 0 2 (mem_blob_file 0) (j, w, [1, 2, 3])"
    using spilled_reachable unfolding s .
  show ?thesis
    using journal_failed_write_keeps [OF mem_journal.journal_vfs_axioms _ _ _ r, of "[0, 0]" 1 "[]" "[4]"] r
    by (fastforce simp: slice_of_def)
qed

end
