(* ===== verification/Like.thy ===== *)
theory Like
  imports Utf
begin

text \<open>
  The matching of LIKE and GLOB patterns in tsrc/func.c. A pointer into a zero-terminated text is the list of the
  bytes from it on, the terminator included; reading behind the terminator has no result. Two pointers into the
  same text are equal when these lists are.
\<close>

unbundle bit_operations_syntax

section \<open>Declarations\<close>

record compareInfo =
  matchAll :: u8
  matchOne :: u8
  matchSet :: u8
  noCase :: u8

definition globInfo :: compareInfo where
  "globInfo = \<lparr>matchAll = ch CHR ''*'', matchOne = ch CHR ''?'', matchSet = ch CHR ''['', noCase = 0\<rparr>"

definition likeInfoNorm :: compareInfo where
  "likeInfoNorm = \<lparr>matchAll = ch CHR ''%'', matchOne = ch CHR ''_'', matchSet = 0, noCase = 1\<rparr>"

definition likeInfoAlt :: compareInfo where
  "likeInfoAlt = \<lparr>matchAll = ch CHR ''%'', matchOne = ch CHR ''_'', matchSet = 0, noCase = 0\<rparr>"

definition SQLITE_MATCH :: int where "SQLITE_MATCH = 0"
definition SQLITE_NOMATCH :: int where "SQLITE_NOMATCH = 1"
definition SQLITE_NOWILDCARDMATCH :: int where "SQLITE_NOWILDCARDMATCH = 2"

definition Utf8Read :: "u8 list \<Rightarrow> (u32 \<times> u8 list) option" where
  "Utf8Read A = (case A of [] \<Rightarrow> None | b # r \<Rightarrow> if b < 0x80 then Some (u32_of b, r) else sqlite3Utf8Read A)"

text \<open>Every read advances, so the loops end.\<close>

lemma utf8_tail_z_shorter: "utf8_tail_z c z = Some (d, r) \<Longrightarrow> length r \<le> length z"
  by (induction c z rule: utf8_tail_z.induct) (auto split: if_splits)

lemma sqlite3Utf8Read_shorter: "sqlite3Utf8Read z = Some (c, r) \<Longrightarrow> length r < length z"
proof (cases z)
  case (Cons b z')
  assume r: "sqlite3Utf8Read z = Some (c, r)"
  show ?thesis
  proof (cases "b \<ge> 0xc0")
    case False
    then show ?thesis using r Cons by simp
  next
    case True
    obtain d r' where t: "utf8_tail_z (u32_of (sqlite3Utf8Trans1 ! unat (b - 0xc0))) z' = Some (d, r')" "r = r'"
      using r Cons True by (auto simp: bind_eq_Some_conv)
    then show ?thesis using utf8_tail_z_shorter [OF t(1)] by (simp add: Cons)
  qed
qed simp

lemma Utf8Read_shorter: "Utf8Read z = Some (c, r) \<Longrightarrow> length r < length z"
proof (cases z)
  case (Cons b z')
  assume "Utf8Read z = Some (c, r)"
  then show ?thesis using Cons sqlite3Utf8Read_shorter [of z c r] by (simp add: Utf8Read_def del: sqlite3Utf8Read.simps split: if_splits)
qed (simp add: Utf8Read_def)

lemma skip_tail_shorter: "skip_tail z = Some r \<Longrightarrow> length r \<le> length z"
  by (induction z rule: skip_tail.induct) (auto split: if_splits)

lemma SKIP_shorter: "SQLITE_SKIP_UTF8 z = Some r \<Longrightarrow> length r < length z"
  by (cases z) (auto dest: skip_tail_shorter split: if_splits)

declare sqlite3Utf8Read.simps [simp del] SQLITE_SKIP_UTF8.simps [simp del]

section \<open>The loops\<close>

text \<open>Behind a wildcard for any sequence: the further wildcards. The inner None is the return of
  \<open>SQLITE_NOWILDCARDMATCH\<close>, else the next character and the two pointers.\<close>

function skip_wildcards :: "compareInfo \<Rightarrow> u8 list \<Rightarrow> u8 list \<Rightarrow> (u32 \<times> u8 list \<times> u8 list) option option" where
  "skip_wildcards pInfo zPattern zString = do {
     (c, zPattern) \<leftarrow> Utf8Read zPattern;
     if c = u32_of (matchAll pInfo) \<or> c = u32_of (matchOne pInfo) then
       if c = u32_of (matchOne pInfo) then do {
         (c2, zString) \<leftarrow> sqlite3Utf8Read zString;
         if c2 = 0 then Some None else skip_wildcards pInfo zPattern zString }
       else skip_wildcards pInfo zPattern zString
     else Some (Some (c, zPattern, zString)) }"
  by pat_completeness auto
termination by (relation "measure (\<lambda>(i, p, s). length p)") (auto dest: Utf8Read_shorter)

declare skip_wildcards.simps [simp del]

text \<open>\<open>strcspn\<close> of the C library: how many bytes come before the terminator or one of \<open>stop\<close>.\<close>

fun strcspn :: "u8 list \<Rightarrow> u8 list \<Rightarrow> nat option" where
  "strcspn [] stop = None"
| "strcspn (b # z) stop = (if b = 0 \<or> b \<in> set stop then Some 0 else map_option Suc (strcspn z stop))"

text \<open>The three searches for the place where the pattern goes on; \<open>pc\<close> is the comparison of the rest.\<close>

function search_bytes :: "(u8 list \<Rightarrow> int option) \<Rightarrow> u8 list \<Rightarrow> u8 list \<Rightarrow> int option" where
  "search_bytes pc zStop zString = do {
     n \<leftarrow> strcspn zString zStop;
     case drop n zString of [] \<Rightarrow> None
     | b # zString' \<Rightarrow>
       if b = 0 then Some SQLITE_NOWILDCARDMATCH
       else do {
         bMatch \<leftarrow> pc zString';
         if bMatch \<noteq> SQLITE_NOMATCH then Some bMatch else search_bytes pc zStop zString' } }"
  by pat_completeness auto
termination
proof (relation "measure (\<lambda>(pc, t, s). length s)", simp, goal_cases)
  case (1 pc t s n b s' r)
  have "length (drop n s) = Suc (length s')" using 1(2) by simp
  then show ?case by simp
qed

function search_char :: "(u8 list \<Rightarrow> int option) \<Rightarrow> u32 \<Rightarrow> u8 list \<Rightarrow> int option" where
  "search_char pc c zString = do {
     (c2, zString) \<leftarrow> Utf8Read zString;
     if c2 = 0 then Some SQLITE_NOWILDCARDMATCH
     else if c2 \<noteq> c then search_char pc c zString
     else do {
       bMatch \<leftarrow> pc zString;
       if bMatch \<noteq> SQLITE_NOMATCH then Some bMatch else search_char pc c zString } }"
  by pat_completeness auto
termination by (relation "measure (\<lambda>(pc, c, s). length s)") (auto dest: Utf8Read_shorter)

function search_set :: "(u8 list \<Rightarrow> int option) \<Rightarrow> u8 list \<Rightarrow> int option" where
  "search_set pc zString =
     (case zString of [] \<Rightarrow> None
      | b # _ \<Rightarrow>
        if b = 0 then Some SQLITE_NOWILDCARDMATCH
        else do {
          bMatch \<leftarrow> pc zString;
          if bMatch \<noteq> SQLITE_NOMATCH then Some bMatch
          else do { zString \<leftarrow> SQLITE_SKIP_UTF8 zString; search_set pc zString } })"
  by pat_completeness auto
termination by (relation "measure (\<lambda>(pc, s). length s)") (auto dest: SKIP_shorter)

declare search_bytes.simps [simp del] search_char.simps [simp del] search_set.simps [simp del]

text \<open>The search for the character \<open>c\<close> that follows the wildcard.\<close>

definition like_search :: "compareInfo \<Rightarrow> u32 \<Rightarrow> (u8 list \<Rightarrow> int option) \<Rightarrow> u8 list \<Rightarrow> int option" where
  "like_search pInfo c pc zString =
     (if c \<le> 0x80 then
        let zStop = (if noCase pInfo \<noteq> 0 then [sqlite3Toupper (u8_of c), sqlite3Tolower (u8_of c)] else [u8_of c]) in
        search_bytes pc zStop zString
      else search_char pc c zString)"

text \<open>The members of a set, from the character \<open>c2\<close> just read to the closing bracket: that character or 0, whether
  \<open>c\<close> was seen, and the pattern behind.\<close>

function set_loop :: "u32 \<Rightarrow> u8 list \<Rightarrow> u32 \<Rightarrow> u32 \<Rightarrow> bool \<Rightarrow> (u32 \<times> bool \<times> u8 list) option" where
  "set_loop c zPattern c2 prior_c seen =
     (if c2 \<noteq> 0 \<and> c2 \<noteq> 0x5d then
        (case zPattern of [] \<Rightarrow> None
         | b # _ \<Rightarrow>
           if c2 = 0x2d \<and> b \<noteq> 0x5d \<and> b \<noteq> 0 \<and> prior_c > 0 then do {
             (c2, zPattern) \<leftarrow> sqlite3Utf8Read zPattern;
             let seen = (if prior_c \<le> c \<and> c \<le> c2 then True else seen);
             (c2, zPattern) \<leftarrow> sqlite3Utf8Read zPattern;
             set_loop c zPattern c2 0 seen }
           else do {
             let seen = (if c = c2 then True else seen);
             let prior_c = c2;
             (c2, zPattern) \<leftarrow> sqlite3Utf8Read zPattern;
             set_loop c zPattern c2 prior_c seen })
      else Some (c2, seen, zPattern))"
  by pat_completeness auto
termination
  by (relation "measure (\<lambda>(c, p, c2, r, s). length p)") (auto dest!: sqlite3Utf8Read_shorter)

declare set_loop.simps [simp del]

lemma set_loop_shorter: "set_loop c p c2 r s = Some (d, t, p') \<Longrightarrow> length p' \<le> length p"
proof (induction c p c2 r s rule: set_loop.induct)
  case (1 c p c2 r s)
  show ?case
  proof (cases "c2 \<noteq> 0 \<and> c2 \<noteq> 0x5d")
    case True
    then obtain b p0 where p: "p = b # p0" using "1.prems" by (cases p) (simp_all add: set_loop.simps [of c "[]" c2 r s])
    show ?thesis
    proof (cases "c2 = 0x2d \<and> b \<noteq> 0x5d \<and> b \<noteq> 0 \<and> r > 0")
      case c: True
      have "do { (c3, p1) \<leftarrow> sqlite3Utf8Read p; (c4, p2) \<leftarrow> sqlite3Utf8Read p1;
          set_loop c p2 c4 0 (if r \<le> c \<and> c \<le> c3 then True else s) } = Some (d, t, p')"
        using "1.prems" True p c unfolding set_loop.simps [of c p c2 r s] Let_def by simp
      then obtain c3 p1 c4 p2 where 2: "sqlite3Utf8Read p = Some (c3, p1)" "sqlite3Utf8Read p1 = Some (c4, p2)"
          "set_loop c p2 c4 0 (if r \<le> c \<and> c \<le> c3 then True else s) = Some (d, t, p')"
        by (auto simp: bind_eq_Some_conv)
      then show ?thesis
        using "1.IH"(1) [OF True p c 2(1) refl refl 2(2) refl 2(3)] by (auto dest!: sqlite3Utf8Read_shorter)
    next
      case c: False
      have "do { (c3, p1) \<leftarrow> sqlite3Utf8Read p; set_loop c p1 c3 c2 (if c = c2 then True else s) } = Some (d, t, p')"
        using "1.prems" True p unfolding set_loop.simps [of c p c2 r s] Let_def
        by (simp only: p list.case c if_False simp_thms if_True)
      then obtain c3 p1 where 2: "sqlite3Utf8Read p = Some (c3, p1)" "set_loop c p1 c3 c2 (if c = c2 then True else s) = Some (d, t, p')"
        by (auto simp: bind_eq_Some_conv)
      then show ?thesis
        using "1.IH"(2) [OF True p c refl refl 2(1) refl 2(2)] by (auto dest!: sqlite3Utf8Read_shorter)
    qed
  next
    case False
    then show ?thesis using "1.prems" unfolding set_loop.simps [of c p c2 r s] by (simp only: if_False option.inject prod.inject order_refl)
  qed
qed

text \<open>A set against the next character of the string: whether it is matched, and the two pointers.\<close>

definition match_set :: "u8 list \<Rightarrow> u8 list \<Rightarrow> (bool \<times> u8 list \<times> u8 list) option" where
  "match_set zPattern zString = do {
     (c, zString) \<leftarrow> sqlite3Utf8Read zString;
     if c = 0 then Some (False, zPattern, zString)
     else do {
       (c2, zPattern) \<leftarrow> sqlite3Utf8Read zPattern;
       let invert = (c2 = 0x5e);
       (c2, zPattern) \<leftarrow> (if c2 = 0x5e then sqlite3Utf8Read zPattern else Some (c2, zPattern));
       let seen = (c2 = 0x5d \<and> c = 0x5d);
       (c2, zPattern) \<leftarrow> (if c2 = 0x5d then sqlite3Utf8Read zPattern else Some (c2, zPattern));
       (c2, seen, zPattern) \<leftarrow> set_loop c zPattern c2 0 seen;
       Some (\<not> (c2 = 0 \<or> seen = invert), zPattern, zString) } }"

lemma match_set_shorter: "match_set p s = Some (b, p', s') \<Longrightarrow> length p' \<le> length p"
proof -
  assume m: "match_set p s = Some (b, p', s')"
  obtain c s1 where 1: "sqlite3Utf8Read s = Some (c, s1)" using m by (auto simp: match_set_def bind_eq_Some_conv)
  show ?thesis
  proof (cases "c = 0")
    case False
    then obtain c2 p2 where 2: "sqlite3Utf8Read p = Some (c2, p2)" using m 1 by (auto simp: match_set_def bind_eq_Some_conv)
    obtain c3 p3 where 3: "(if c2 = 0x5e then sqlite3Utf8Read p2 else Some (c2, p2)) = Some (c3, p3)"
      using m 1 2 False by (auto simp: match_set_def bind_eq_Some_conv Let_def)
    obtain c4 p4 where 4: "(if c3 = 0x5d then sqlite3Utf8Read p3 else Some (c3, p3)) = Some (c4, p4)"
      using m 1 2 3 False by (auto simp: match_set_def bind_eq_Some_conv Let_def)
    obtain d t where 5: "set_loop c p4 c4 0 (c3 = 0x5d \<and> c = 0x5d) = Some (d, t, p')"
      using m 1 2 3 4 False by (auto simp: match_set_def bind_eq_Some_conv Let_def)
    have "length p2 < length p" "length p3 \<le> length p2" "length p4 \<le> length p3" "length p' \<le> length p4"
      using sqlite3Utf8Read_shorter [OF 2] sqlite3Utf8Read_shorter 3 4 set_loop_shorter [OF 5] by (auto split: if_splits simp: less_imp_le)
    then show ?thesis by simp
  qed (use m 1 in \<open>auto simp: match_set_def\<close>)
qed

text \<open>A character of the pattern against one of the string.\<close>

definition match_char :: "compareInfo \<Rightarrow> u32 \<Rightarrow> u32 \<Rightarrow> bool \<Rightarrow> bool" where
  "match_char pInfo c c2 escaped =
     (if c = c2 then True
      else if noCase pInfo \<noteq> 0 \<and> sqlite3Tolower (u8_of c) = sqlite3Tolower (u8_of c2) \<and> c < 0x80 \<and> c2 < 0x80 then True
      else if c = u32_of (matchOne pInfo) \<and> \<not> escaped \<and> c2 \<noteq> 0 then True
      else False)"

lemma skip_wildcards_shorter: "skip_wildcards i p s = Some (Some (c, p', s')) \<Longrightarrow> length p' < length p"
proof (induction i p s rule: skip_wildcards.induct)
  case (1 i p s)
  show ?case
    using "1.prems" "1.IH" unfolding skip_wildcards.simps [of i p s]
    by (fastforce simp: bind_eq_Some_conv dest: Utf8Read_shorter less_trans split: if_splits)
qed

section \<open>The comparison\<close>

text \<open>One unfolding is one pass of the outer loop. \<open>zEscaped\<close> is compared only in the pass that sets it, since the
  pattern pointer never goes back: it is the flag \<open>escaped\<close> of that pass.\<close>

function patternCompare :: "u8 list \<Rightarrow> u8 list \<Rightarrow> compareInfo \<Rightarrow> u32 \<Rightarrow> int option" where
  "patternCompare zPattern zString pInfo matchOther = do {
     (c, zPattern) \<leftarrow> Utf8Read zPattern;
     if c = 0 then (case zString of [] \<Rightarrow> None | b # _ \<Rightarrow> Some (if b = 0 then SQLITE_MATCH else SQLITE_NOMATCH))
     else if c = u32_of (matchAll pInfo) then do {
       r \<leftarrow> skip_wildcards pInfo zPattern zString;
       case r of None \<Rightarrow> Some SQLITE_NOWILDCARDMATCH
       | Some (c, zPattern, zString) \<Rightarrow>
         if c = 0 then Some SQLITE_MATCH
         else if c = matchOther then
           if matchSet pInfo = 0 then do {
             (c, zPattern) \<leftarrow> sqlite3Utf8Read zPattern;
             if c = 0 then Some SQLITE_NOWILDCARDMATCH
             else like_search pInfo c (\<lambda>s. patternCompare zPattern s pInfo matchOther) zString }
           else search_set (\<lambda>s. patternCompare (u8_of matchOther # zPattern) s pInfo matchOther) zString
         else like_search pInfo c (\<lambda>s. patternCompare zPattern s pInfo matchOther) zString }
     else if c = matchOther \<and> matchSet pInfo \<noteq> 0 then do {
       (m, zPattern, zString) \<leftarrow> match_set zPattern zString;
       if m then patternCompare zPattern zString pInfo matchOther else Some SQLITE_NOMATCH }
     else do {
       let escaped = (c = matchOther);
       (c, zPattern) \<leftarrow> (if escaped then sqlite3Utf8Read zPattern else Some (c, zPattern));
       if escaped \<and> c = 0 then Some SQLITE_NOMATCH
       else do {
         (c2, zString) \<leftarrow> Utf8Read zString;
         if match_char pInfo c c2 escaped then patternCompare zPattern zString pInfo matchOther
         else Some SQLITE_NOMATCH } } }"
  by pat_completeness auto
termination
  by (relation "measure (\<lambda>(p, s, i, o'). length p)")
    (force dest: Utf8Read_shorter sqlite3Utf8Read_shorter skip_wildcards_shorter match_set_shorter split: if_splits)+

declare patternCompare.simps [simp del]

definition sqlite3_strglob :: "u8 list \<Rightarrow> u8 list \<Rightarrow> int option" where
  "sqlite3_strglob zGlobPattern zString = patternCompare zGlobPattern zString globInfo (u32_of (ch CHR ''[''))"

definition sqlite3_strlike :: "u8 list \<Rightarrow> u8 list \<Rightarrow> u32 \<Rightarrow> int option" where
  "sqlite3_strlike zPattern zStr esc = patternCompare zPattern zStr likeInfoNorm esc"

text \<open>\<open>likeFunc\<close>: the arguments are the results of \<open>sqlite3_value_text\<close> (\<open>None\<close> for a null pointer) and
  \<open>sqlite3_value_bytes\<close>; \<open>argv2\<close> is \<open>None\<close> for two arguments. The result of the SQL function is left NULL, an error
  message or an integer.\<close>

datatype func_result = Func_null | Func_error string | Func_int int

definition likeFunc ::
  "u8 list option \<Rightarrow> int \<Rightarrow> u8 list option \<Rightarrow> u8 list option option \<Rightarrow> compareInfo \<Rightarrow> int \<Rightarrow> func_result option" where
  "likeFunc zB nPat zA argv2 pInfo limit =
     (if nPat > limit then Some (Func_error ''LIKE or GLOB pattern too complex'')
      else
        let run = (\<lambda>escape. case (zA, zB) of
            (Some zA, Some zB) \<Rightarrow> do {
              r \<leftarrow> patternCompare zB zA pInfo escape;
              Some (Func_int (if r = SQLITE_MATCH then 1 else 0)) }
          | _ \<Rightarrow> Some Func_null)
        in (case argv2 of
              None \<Rightarrow> run (u32_of (matchSet pInfo))
            | Some None \<Rightarrow> Some Func_null
            | Some (Some zEsc) \<Rightarrow> do {
                n \<leftarrow> sqlite3Utf8CharLen zEsc (- 1);
                if n \<noteq> 1 then Some (Func_error ''ESCAPE expression must be a single character'')
                else do { (escape, _) \<leftarrow> sqlite3Utf8Read zEsc; run escape } }))"

end
