(* ===== verification/Like_Spec.thy ===== *)
theory Like_Spec
  imports Like Utf_Props
begin

text \<open>
  The reference for the patterns: a pattern over characters is read into a list of items, and matching is defined
  on these. The lemmas carry reading, skipping and the searches from bytes to characters.
\<close>

unbundle bit_operations_syntax

declare sqlite3Utf8Read.simps [simp del] SQLITE_SKIP_UTF8.simps [simp del]

section \<open>Patterns\<close>

text \<open>\<open>PBad\<close> is an escape without a character or a set that is not closed; nothing matches it.\<close>

datatype ptok = PAny | POne | PLit u32 | PSet bool "(u32 \<times> u32) list" | PBad

text \<open>Members up to the closing bracket; \<open>prior\<close> is the member a dash would extend, 0 if none.\<close>

fun set_items :: "u32 \<Rightarrow> u32 list \<Rightarrow> ((u32 \<times> u32) list \<times> u32 list) option" where
  "set_items prior [] = None"
| "set_items prior (c # p) =
     (if c = 0x5d then Some ([], p)
      else (case p of
          d # q \<Rightarrow>
            if c = 0x2d \<and> d \<noteq> 0x5d \<and> prior > 0 then map_option (\<lambda>(r, p'). ((prior, d) # r, p')) (set_items 0 q)
            else map_option (\<lambda>(r, p'). ((c, c) # r, p')) (set_items c p)
        | [] \<Rightarrow> None))"

definition parse_set :: "u32 list \<Rightarrow> (bool \<times> (u32 \<times> u32) list \<times> u32 list) option" where
  "parse_set p =
     (let neg = (p \<noteq> [] \<and> hd p = 0x5e); p = (if neg then tl p else p);
          close = (p \<noteq> [] \<and> hd p = 0x5d); p = (if close then tl p else p)
      in map_option (\<lambda>(r, p'). (neg, (if close then (0x5d, 0x5d) # r else r), p')) (set_items 0 p))"

lemma set_items_rest: "set_items a p = Some (r, q) \<Longrightarrow> length q < length p \<and> set q \<subseteq> set p"
proof (induction a p arbitrary: r q rule: set_items.induct)
  case (2 a c p)
  show ?case
  proof (cases "c = 0x5d")
    case False
    then obtain d p' where p: "p = d # p'" using "2.prems" by (cases p) simp_all
    show ?thesis
    proof (cases "c = 0x2d \<and> d \<noteq> 0x5d \<and> a > 0")
      case True
      then obtain r' where "set_items 0 p' = Some (r', q)" using "2.prems" p by auto
      then show ?thesis using "2.IH"(1) [OF False p True] p by force
    next
      case F: False
      then obtain r' where "set_items c p = Some (r', q)" using "2.prems" p False by (auto split: if_splits)
      then show ?thesis using "2.IH"(2) [OF False p F] p by force
    qed
  qed (use "2.prems" in auto)
qed simp

lemma parse_set_rest: "parse_set p = Some (i, r, q) \<Longrightarrow> length q < length p \<and> set q \<subseteq> set p"
proof -
  assume p: "parse_set p = Some (i, r, q)"
  define p1 where "p1 = (if p \<noteq> [] \<and> hd p = 0x5e then tl p else p)"
  define p2 where "p2 = (if p1 \<noteq> [] \<and> hd p1 = 0x5d then tl p1 else p1)"
  have tl: "set (tl xs) \<subseteq> set xs" for xs :: "u32 list" by (cases xs) auto
  have "length p1 \<le> length p" "set p1 \<subseteq> set p" using tl [of p] by (simp_all add: p1_def)
  moreover have "length p2 \<le> length p1" "set p2 \<subseteq> set p1" using tl [of p1] by (simp_all add: p2_def)
  ultimately have "length p2 \<le> length p" "set p2 \<subseteq> set p" by auto
  moreover have "\<exists>r'. set_items 0 p2 = Some (r', q)"
    using p by (auto simp: parse_set_def Let_def p1_def p2_def)
  ultimately show ?thesis using set_items_rest by fastforce
qed

function parse_pattern :: "compareInfo \<Rightarrow> u32 \<Rightarrow> u32 list \<Rightarrow> ptok list" where
  "parse_pattern i m [] = []"
| "parse_pattern i m (c # p) =
     (if c = u32_of (matchAll i) then PAny # parse_pattern i m p
      else if c = m then
        if matchSet i = 0 then (case p of [] \<Rightarrow> [PBad] | d # q \<Rightarrow> PLit d # parse_pattern i m q)
        else (case parse_set p of None \<Rightarrow> [PBad] | Some (neg, r, q) \<Rightarrow> PSet neg r # parse_pattern i m q)
      else if c = u32_of (matchOne i) then POne # parse_pattern i m p
      else PLit c # parse_pattern i m p)"
  by pat_completeness auto
termination
  by (relation "measure (\<lambda>(i, m, p). length p)") (auto dest!: parse_set_rest)

definition in_items :: "u32 \<Rightarrow> (u32 \<times> u32) list \<Rightarrow> bool" where
  "in_items c r = list_ex (\<lambda>(a, b). a \<le> c \<and> c \<le> b) r"

definition same_char :: "bool \<Rightarrow> u32 \<Rightarrow> u32 \<Rightarrow> bool" where
  "same_char ci c d \<longleftrightarrow> c = d \<or> ci \<and> c < 0x80 \<and> d < 0x80 \<and> sqlite3Tolower (u8_of c) = sqlite3Tolower (u8_of d)"

fun accepts :: "bool \<Rightarrow> ptok \<Rightarrow> u32 \<Rightarrow> bool" where
  "accepts f (PLit c) x = same_char f c x"
| "accepts f (PSet neg r) x = (in_items x r \<noteq> neg)"
| "accepts f POne x = True"
| "accepts f PAny x = False"
| "accepts f PBad x = False"

fun pmatch :: "bool \<Rightarrow> ptok list \<Rightarrow> u32 list \<Rightarrow> bool" where
  "pmatch f [] s = (s = [])"
| "pmatch f (t # p) s =
     (if t = PAny then (\<exists>k \<le> length s. pmatch f p (drop k s))
      else (case s of [] \<Rightarrow> False | x # s \<Rightarrow> accepts f t x \<and> pmatch f p s))"

lemma ex_drop_Cons: "(\<exists>k \<le> Suc n. Q (drop k (x # s))) \<longleftrightarrow> Q (x # s) \<or> (\<exists>k \<le> n. Q (drop k s))"
proof -
  have "(\<exists>k \<le> Suc n. R k) \<longleftrightarrow> R 0 \<or> (\<exists>k \<le> n. R (Suc k))" for R
    by (metis Suc_le_mono not0_implies_Suc zero_le)
  then show ?thesis by simp
qed

lemma pmatch_any_Cons: "pmatch f (PAny # p) (x # s) \<longleftrightarrow> pmatch f p (x # s) \<or> pmatch f (PAny # p) s"
  by (simp add: ex_drop_Cons)

lemma pmatch_any_Nil: "pmatch f (PAny # p) [] = pmatch f p []"
  by simp

lemma pmatch_any_any: "pmatch f (PAny # PAny # p) s = pmatch f (PAny # p) s"
  by (induction s) (auto simp: pmatch_any_Cons pmatch_any_Nil simp del: pmatch.simps)

lemma pmatch_any_one: "pmatch f (PAny # POne # p) s = (s \<noteq> [] \<and> pmatch f (PAny # p) (tl s))"
proof (induction s)
  case (Cons x s)
  have "pmatch f (POne # p) (x # s) = pmatch f p s" by simp
  then show ?case using Cons by (cases s) (auto simp: pmatch_any_Cons pmatch_any_Nil simp del: pmatch.simps)
qed simp

text \<open>What a comparison may answer: 0 on a match, and 2 only if no suffix matches either.\<close>

definition answers :: "int \<Rightarrow> (u32 list \<Rightarrow> bool) \<Rightarrow> u32 list \<Rightarrow> bool" where
  "answers r Q s \<longleftrightarrow> r \<in> {SQLITE_MATCH, SQLITE_NOMATCH, SQLITE_NOWILDCARDMATCH} \<and> (r = SQLITE_MATCH \<longleftrightarrow> Q s) \<and>
    (r = SQLITE_NOWILDCARDMATCH \<longrightarrow> (\<forall>k. \<not> Q (drop k s)))"

lemmas match_defs = SQLITE_MATCH_def SQLITE_NOMATCH_def SQLITE_NOWILDCARDMATCH_def

section \<open>Texts\<close>

definition like_chars :: "u32 set" where
  "like_chars = utf8_chars - {0}"

definition ztext :: "u32 list \<Rightarrow> u8 list" where
  "ztext cs = concat (map WRITE_UTF8 cs) @ [0]"

lemma text_Nil: "ztext [] = [0]"
  by (simp add: ztext_def)

lemma text_stops: "set cs \<subseteq> like_chars \<Longrightarrow> stops (ztext cs)"
proof (induction cs)
  case (Cons c cs)
  then show ?case using utf8.G_enc [of c "ztext cs"] by (simp add: ztext_def like_chars_def)
qed (simp add: ztext_def stops_def cont_iff)

lemma text_ne: "\<exists>b r. ztext cs = b # r"
  by (cases "ztext cs") (simp_all add: ztext_def)

lemma char_bytes: "c \<in> like_chars \<Longrightarrow> if c < 0x80 then WRITE_UTF8 c = [u8_of c] \<and> u8_of c \<noteq> 0 \<and> u8_of c < 0x80
    else WRITE_UTF8 c \<noteq> [] \<and> list_all (\<lambda>b. 0x80 \<le> b) (WRITE_UTF8 c)"
proof -
  assume "c \<in> like_chars"
  then have n: "unat c \<noteq> 0" "unat c < 0x110000" by (auto simp: like_chars_def utf8_chars_def scalars_def unat_eq_zero)
  have u: "u8_of c = word_of_nat (unat c)" by (rule u8_of_nat)
  show ?thesis
  proof (cases "c < 0x80")
    case True
    then have l: "unat c < 0x80" by (simp add: word_less_nat_alt)
    then have "unat (u8_of c) = unat c" using u by (simp add: unat8 del: of_nat_unat)
    then have "u8_of c \<noteq> 0" "u8_of c < 0x80" using n l by (auto simp: word_less_nat_alt)
    then show ?thesis using True n l by (simp add: write_utf8_nat u del: of_nat_unat)
  next
    case False
    then have l: "\<not> unat c < 0x80" by (simp add: word_less_nat_alt)
    have "list_all (\<lambda>b. 0x80 \<le> unat b) (WRITE_UTF8 c)" using l n(2)
      by (simp add: write_utf8_nat unat8 del: of_nat_unat of_nat_add)
    moreover have "WRITE_UTF8 c \<noteq> []" using write_utf8_first [OF n(2)] by blast
    ultimately show ?thesis using False by (simp add: word_le_nat_alt list_all_iff)
  qed
qed

lemma text_Cons_small: "c \<in> like_chars \<Longrightarrow> c < 0x80 \<Longrightarrow> ztext (c # cs) = u8_of c # ztext cs \<and> u8_of c \<noteq> 0 \<and> u8_of c < 0x80"
  using char_bytes [of c] by (simp add: ztext_def)

lemma text_Cons_large: "c \<in> like_chars \<Longrightarrow> \<not> c < 0x80 \<Longrightarrow>
    \<exists>b bs. ztext (c # cs) = b # bs @ ztext cs \<and> list_all (\<lambda>b. 0x80 \<le> b) (b # bs)"
  using char_bytes [of c] by (cases "WRITE_UTF8 c") (simp_all add: ztext_def)

lemma text_read: "c \<in> like_chars \<Longrightarrow> set cs \<subseteq> like_chars \<Longrightarrow> READ_UTF8 (ztext (c # cs)) = Some (c, ztext cs)"
  using utf8.read_enc [of c "ztext cs"] text_stops [of cs] by (simp add: ztext_def like_chars_def)

lemma read_text: "c \<in> like_chars \<Longrightarrow> set cs \<subseteq> like_chars \<Longrightarrow> sqlite3Utf8Read (ztext (c # cs)) = Some (c, ztext cs)"
  using text_read [of c cs] utf8Read_z text_ne [of cs] by metis

lemma Read_text: "c \<in> like_chars \<Longrightarrow> set cs \<subseteq> like_chars \<Longrightarrow> Utf8Read (ztext (c # cs)) = Some (c, ztext cs)"
proof (cases "c < 0x80")
  case True
  assume c: "c \<in> like_chars" "set cs \<subseteq> like_chars"
  have t: "ztext (c # cs) = u8_of c # ztext cs" "u8_of c < 0x80" using text_Cons_small [OF c(1) True] by auto
  have "u32_of (u8_of c) = c"
  proof -
    have "\<not> 0xc0 \<le> u8_of c" using t(2) by (auto simp: word_less_nat_alt word_le_nat_alt)
    then show ?thesis using read_text [OF c] t by (simp add: sqlite3Utf8Read.simps)
  qed
  then show ?thesis using t by (simp add: Utf8Read_def)
next
  case False
  assume c: "c \<in> like_chars" "set cs \<subseteq> like_chars"
  obtain b bs where t: "ztext (c # cs) = b # bs @ ztext cs" "0x80 \<le> b" using text_Cons_large [OF c(1) False, of cs] by auto
  then have "\<not> b < 0x80" by simp
  then show ?thesis using read_text [OF c] t(1) by (simp add: Utf8Read_def)
qed

lemma skip_text: "c \<in> like_chars \<Longrightarrow> set cs \<subseteq> like_chars \<Longrightarrow> SQLITE_SKIP_UTF8 (ztext (c # cs)) = Some (ztext cs)"
  using text_read [of c cs] skip_utf8 text_ne [of cs] by metis

lemma read_text_Nil: "sqlite3Utf8Read (ztext []) = Some (0, [])" "Utf8Read (ztext []) = Some (0, [])"
  by (simp_all add: text_Nil sqlite3Utf8Read.simps Utf8Read_def)

lemma text_head: "c \<in> like_chars \<Longrightarrow> \<exists>b r. ztext (c # cs) = b # r \<and> b \<noteq> 0"
  using text_Cons_small [of c cs] text_Cons_large [of c cs] by (cases "c < 0x80") fastforce+

lemmas text_reads = read_text Read_text skip_text read_text_Nil


section \<open>The searches\<close>

text \<open>On texts the search for bytes is a search for characters.\<close>

lemma search_bytes_skip: "b \<noteq> 0 \<Longrightarrow> b \<notin> set t \<Longrightarrow> search_bytes pc t (b # z) = search_bytes pc t z"
  by (subst (1 2) search_bytes.simps) (cases "strcspn z t"; simp)

lemma search_bytes_skips: "list_all (\<lambda>b. b \<noteq> 0 \<and> b \<notin> set t) bs \<Longrightarrow> search_bytes pc t (bs @ z) = search_bytes pc t z"
  by (induction bs) (simp_all add: search_bytes_skip)

lemma search_bytes_hit: "b \<noteq> 0 \<Longrightarrow> b \<in> set t \<Longrightarrow> search_bytes pc t (b # z) =
    do { r \<leftarrow> pc z; if r \<noteq> SQLITE_NOMATCH then Some r else search_bytes pc t z }"
  by (subst search_bytes.simps) simp

lemma toupper_range: "sqlite3Toupper c = (if 97 \<le> c \<and> c \<le> 122 then c - 32 else c)"
proof -
  have "list_all2 (\<lambda>c x. and c (not (and x 0x20)) = (if 97 \<le> c \<and> c \<le> 122 then c - 32 else c)) all_u8 sqlite3CtypeMap"
    unfolding all_u8_def sqlite3CtypeMap_def by simp (simp add: word_le_nat_alt)
  then show ?thesis unfolding sqlite3Toupper_def by (rule table_entry)
qed

lemma case_bytes: "b < 0x80 \<Longrightarrow> sqlite3Toupper b < 0x80 \<and> sqlite3Tolower b < 0x80"
  by (auto simp: toupper_range tolower_range word_less_nat_alt word_le_nat_alt unat_word_ariths unat_sub_if_size)

lemma same_bytes: "b = sqlite3Toupper c \<or> b = sqlite3Tolower c \<longleftrightarrow> sqlite3Tolower b = sqlite3Tolower c"
  by (auto simp: toupper_range tolower_range word_unat_eq_iff word_less_nat_alt word_le_nat_alt unat_word_ariths unat_sub_if_size)

lemma u8_of_eq: "c < 0x80 \<Longrightarrow> x < 0x80 \<Longrightarrow> u8_of c = u8_of (x :: u32) \<longleftrightarrow> c = x"
proof -
  assume "c < 0x80" "x < 0x80"
  then have l: "unat c < 256" "unat x < 256" by (simp_all add: word_less_nat_alt)
  have "unat (u8_of c) = unat c" "unat (u8_of x) = unat x"
    using l unat8 [of "unat c"] unat8 [of "unat x"] by (simp_all only: u8_of_nat)
  then show ?thesis by (metis word_unat_eq_iff)
qed

definition stop_bytes :: "compareInfo \<Rightarrow> u32 \<Rightarrow> u8 list" where
  "stop_bytes i c = (if noCase i \<noteq> 0 then [sqlite3Toupper (u8_of c), sqlite3Tolower (u8_of c)] else [u8_of c])"

lemma stop_bytes:
  assumes "c \<in> like_chars" "c < 0x80"
  shows "x < 0x80 \<Longrightarrow> u8_of x \<in> set (stop_bytes i c) \<longleftrightarrow> same_char (noCase i \<noteq> 0) c x"
    and "0x80 \<le> b \<Longrightarrow> b \<notin> set (stop_bytes i c)"
proof -
  have c: "u8_of c < 0x80" using text_Cons_small [OF assms] by blast
  show "x < 0x80 \<Longrightarrow> u8_of x \<in> set (stop_bytes i c) \<longleftrightarrow> same_char (noCase i \<noteq> 0) c x"
    using assms(2) u8_of_eq [of x c] same_bytes [of "u8_of x" "u8_of c"]
    by (auto simp: stop_bytes_def same_char_def)
  show "0x80 \<le> b \<Longrightarrow> b \<notin> set (stop_bytes i c)"
    using c case_bytes [OF c] by (auto simp: stop_bytes_def)
qed

definition try_else :: "int option \<Rightarrow> int option \<Rightarrow> int option" where
  "try_else r n = do { r \<leftarrow> r; if r \<noteq> SQLITE_NOMATCH then Some r else n }"

lemma like_search_text:
  assumes c: "c \<in> like_chars" "c \<noteq> 0x80" and x: "x \<in> like_chars" "set xs \<subseteq> like_chars"
  shows "like_search i c pc (ztext (x # xs)) = (if same_char (noCase i \<noteq> 0) c x
      then try_else (pc (ztext xs)) (like_search i c pc (ztext xs)) else like_search i c pc (ztext xs))"
proof (cases "c < 0x80")
  case True
  have s: "like_search i c pc z = search_bytes pc (stop_bytes i c) z" for z
  proof -
    have "c \<le> 0x80" using True by (simp add: word_less_nat_alt word_le_nat_alt)
    then show ?thesis by (simp add: like_search_def stop_bytes_def)
  qed
  note st = stop_bytes [OF c(1) True, where i = i]
  show ?thesis
  proof (cases "x < 0x80")
    case x8: True
    then show ?thesis using text_Cons_small [OF x(1) x8, of xs] st(1) [OF x8] s
      by (simp add: search_bytes_hit search_bytes_skip try_else_def)
  next
    case x8: False
    then obtain b bs where t: "ztext (x # xs) = b # bs @ ztext xs" "list_all (\<lambda>b. 0x80 \<le> b) (b # bs)"
      using text_Cons_large [OF x(1)] by blast
    have "list_all (\<lambda>b. b \<noteq> 0 \<and> b \<notin> set (stop_bytes i c)) (b # bs)"
      using t(2) st(2) by (auto simp: list_all_iff)
    moreover have "\<not> same_char (noCase i \<noteq> 0) c x" using True x8 by (auto simp: same_char_def)
    ultimately show ?thesis using search_bytes_skips [of "stop_bytes i c" "b # bs" pc "ztext xs"] t(1) s by simp
  qed
next
  case False
  then have "\<not> c \<le> 0x80" using c(2) by (simp add: word_le_less_eq)
  then have s: "like_search i c pc z = search_char pc c z" for z
    by (simp add: like_search_def)
  have "x \<noteq> 0" using x by (auto simp: like_chars_def)
  then show ?thesis using text_reads(2) [OF x] False
    by (simp only: s, subst search_char.simps) (auto simp: same_char_def try_else_def)
qed

lemma like_search_end: "c \<in> like_chars \<Longrightarrow> like_search i c pc (ztext []) = Some SQLITE_NOWILDCARDMATCH"
  by (simp add: like_search_def Let_def text_Nil search_bytes.simps search_char.simps Utf8Read_def)

lemma search_set_text: "x \<in> like_chars \<Longrightarrow> set xs \<subseteq> like_chars \<Longrightarrow>
    search_set pc (ztext (x # xs)) = try_else (pc (ztext (x # xs))) (search_set pc (ztext xs))"
  using text_head [of x xs] skip_text [of x xs]
  by (subst search_set.simps) (cases "pc (ztext (x # xs))"; auto simp: try_else_def)

lemma search_set_end: "search_set pc (ztext []) = Some SQLITE_NOWILDCARDMATCH"
  by (subst search_set.simps) (simp add: text_Nil)

text \<open>A search answers for the pattern with the wildcard in front.\<close>

definition compares :: "(u8 list \<Rightarrow> int option) \<Rightarrow> (u32 list \<Rightarrow> bool) \<Rightarrow> bool" where
  "compares pc Q \<longleftrightarrow> (\<forall>s. set s \<subseteq> like_chars \<longrightarrow> (\<exists>r. pc (ztext s) = Some r \<and> answers r Q s))"

lemma any_suffix: "pmatch f (PAny # p) (drop k s) \<Longrightarrow> pmatch f (PAny # p) s"
proof (induction s arbitrary: k)
  case (Cons x s)
  then show ?case by (cases k) (simp_all add: pmatch_any_Cons del: pmatch.simps)
qed simp

lemma any_answers:
  assumes "r = SQLITE_MATCH \<and> pmatch f (PAny # p) s \<or> r = SQLITE_NOWILDCARDMATCH \<and> \<not> pmatch f (PAny # p) s"
  shows "answers r (pmatch f (PAny # p)) s"
  using assms any_suffix [of f p _ s] unfolding answers_def match_defs by (auto simp del: pmatch.simps)

lemma any_inner: "pmatch f (PAny # p) s \<Longrightarrow> \<exists>k. pmatch f p (drop k s)"
  by auto

lemma token_inner: "t \<noteq> PAny \<Longrightarrow> pmatch f (t # p) s \<Longrightarrow> \<exists>x r. s = x # r \<and> accepts f t x \<and> pmatch f p r"
  by (cases s) simp_all

lemma token_skip: "t \<noteq> PAny \<Longrightarrow> pmatch f (t # p) (drop k (x # s)) \<Longrightarrow> \<exists>j. pmatch f p (drop j s)"
proof (cases k)
  case 0
  assume "t \<noteq> PAny" "pmatch f (t # p) (drop k (x # s))"
  then have "pmatch f p (drop 0 s)" using 0 by simp
  then show ?thesis by blast
next
  case (Suc j)
  assume "t \<noteq> PAny" "pmatch f (t # p) (drop k (x # s))"
  then obtain y r where "drop j s = y # r" "pmatch f p r" using token_inner [of t f p "drop j s"] Suc by auto
  then have "pmatch f p (drop (Suc j) s)" by (metis drop_Suc list.sel(3) tl_drop)
  then show ?thesis by blast
qed

lemma any_token_inner: "t \<noteq> PAny \<Longrightarrow> pmatch f (PAny # t # p) (x # s) \<Longrightarrow> \<exists>k. pmatch f p (drop k s)"
  using any_inner [of f "t # p" "x # s"] token_skip [of t f p _ x s] by blast

lemma compares_like_search:
  assumes pc: "compares pc (pmatch f p)" and f: "f = (noCase i \<noteq> 0)"
    and c: "c \<in> like_chars" "c \<noteq> 0x80" and s: "set s \<subseteq> like_chars"
  shows "\<exists>r. like_search i c pc (ztext s) = Some r \<and> (r = SQLITE_MATCH \<and> pmatch f (PAny # PLit c # p) s \<or>
    r = SQLITE_NOWILDCARDMATCH \<and> \<not> pmatch f (PAny # PLit c # p) s)"
  using s
proof (induction s)
  case Nil
  then show ?case using like_search_end [OF c(1)] by auto
next
  case (Cons x s)
  obtain t where t: "pc (ztext s) = Some t" "answers t (pmatch f p) s" using pc Cons.prems by (auto simp: compares_def)
  have step: "pmatch f (PAny # PLit c # p) (x # s) \<longleftrightarrow> same_char f c x \<and> pmatch f p s \<or> pmatch f (PAny # PLit c # p) s"
    by (subst pmatch_any_Cons) simp
  have none: "t = SQLITE_NOWILDCARDMATCH \<Longrightarrow> \<not> pmatch f (PAny # PLit c # p) (x # s)"
    using any_token_inner [of "PLit c" f p x s] t(2) by (auto simp: answers_def)
  show ?case
    using Cons step t none like_search_text [OF c, of x s i pc]
    by (auto simp: f try_else_def answers_def match_defs simp del: pmatch.simps)
qed

lemma compares_search_set:
  assumes pc: "compares pc (pmatch f (t # p))" and t: "t \<noteq> PAny" and s: "set s \<subseteq> like_chars"
  shows "\<exists>r. search_set pc (ztext s) = Some r \<and> (r = SQLITE_MATCH \<and> pmatch f (PAny # t # p) s \<or>
    r = SQLITE_NOWILDCARDMATCH \<and> \<not> pmatch f (PAny # t # p) s)"
  using s
proof (induction s)
  case Nil
  then show ?case using search_set_end t by auto
next
  case (Cons x s)
  obtain v where v: "pc (ztext (x # s)) = Some v" "answers v (pmatch f (t # p)) (x # s)"
    using pc Cons.prems unfolding compares_def by blast
  have step: "pmatch f (PAny # t # p) (x # s) \<longleftrightarrow> pmatch f (t # p) (x # s) \<or> pmatch f (PAny # t # p) s"
    by (rule pmatch_any_Cons)
  have none: "v = SQLITE_NOWILDCARDMATCH \<Longrightarrow> \<not> pmatch f (PAny # t # p) (x # s)"
    using any_inner [of f "t # p" "x # s"] v(2) by (auto simp: answers_def simp del: pmatch.simps)
  show ?case
    using Cons step v none search_set_text [of x s pc]
    by (auto simp: try_else_def answers_def match_defs simp del: pmatch.simps)
qed

section \<open>Sets and wildcards\<close>

definition at :: "u32 list \<Rightarrow> u32 \<times> u8 list" where
  "at p = (case p of [] \<Rightarrow> (0, []) | c # q \<Rightarrow> (c, ztext q))"

lemma read_at: "set p \<subseteq> like_chars \<Longrightarrow> sqlite3Utf8Read (ztext p) = Some (at p)"
  by (cases p) (simp_all add: at_def text_reads)

lemma Read_at: "set p \<subseteq> like_chars \<Longrightarrow> Utf8Read (ztext p) = Some (at p)"
  by (cases p) (simp_all add: at_def text_reads)

lemma text_head_is:
  assumes d: "d \<in> like_chars" and b: "b < 0x80"
  shows "\<exists>x r. ztext (d # q) = x # r \<and> (x = u8_of b \<longleftrightarrow> d = b) \<and> x \<noteq> 0"
proof (cases "d < 0x80")
  case True
  then show ?thesis using text_Cons_small [OF d True, of q] u8_of_eq [OF True b] by auto
next
  case False
  have "unat (u8_of b) < 0x80" using b unat8 [of "unat b"] by (simp add: u8_of_nat word_less_nat_alt del: of_nat_unat)
  then have "u8_of b < 0x80" by (simp add: word_less_nat_alt)
  then show ?thesis using text_Cons_large [OF d False, of q] b False by fastforce
qed

lemma set_loop_text:
  "set p \<subseteq> like_chars \<Longrightarrow> \<exists>d u z. set_loop c (snd (at p)) (fst (at p)) prior seen = Some (d, u, z) \<and>
     (case set_items prior p of None \<Rightarrow> d = 0
      | Some (r, q) \<Rightarrow> d = 0x5d \<and> u = (seen \<or> in_items c r) \<and> z = ztext q)"
proof (induction prior p arbitrary: seen rule: set_items.induct)
  case (1 prior)
  show ?case by (simp add: at_def set_loop.simps)
next
  case (2 prior x p)
  show ?case
  proof (cases "x = 0x5d")
    case True
    then show ?thesis by (simp add: at_def in_items_def set_loop.simps [of c "ztext p" "0x5d"])
  next
    case x: False
    have x0: "x \<noteq> 0" using 2 by (auto simp: like_chars_def)
    show ?thesis
    proof (cases p)
      case Nil
      then show ?thesis using x x0
        by (simp add: at_def text_Nil set_loop.simps [of c "[0]"] sqlite3Utf8Read.simps set_loop.simps [of c "[]" 0])
    next
      case (Cons d q)
      then have d: "d \<in> like_chars" "set q \<subseteq> like_chars" using 2 by auto
      obtain b bs where b: "ztext p = b # bs" "b = 0x5d \<longleftrightarrow> d = 0x5d" "b \<noteq> 0"
        using text_head_is [OF d(1), of "0x5d" q] Cons by auto
      show ?thesis
      proof (cases "x = 0x2d \<and> d \<noteq> 0x5d \<and> prior > 0")
        case True
        obtain q0 z0 where q0: "at q = (q0, z0)" by fastforce
        have "set_loop c (ztext p) x prior seen = set_loop c z0 q0 0 (prior \<le> c \<and> c \<le> d \<or> seen)"
          using True x0 b read_text [OF d] read_at [OF d(2)] q0 Cons
          by (subst set_loop.simps) (auto simp: Let_def)
        then show ?thesis
          using "2.IH"(1) [OF x Cons True d(2), of "prior \<le> c \<and> c \<le> d \<or> seen"] True x q0 Cons
          by (auto simp: at_def in_items_def split: option.splits)
      next
        case False
        have "set_loop c (ztext p) x prior seen = set_loop c (snd (at p)) (fst (at p)) x (c = x \<or> seen)"
          using False x x0 b read_at [of p] Cons d
          by (subst set_loop.simps) (auto simp: Let_def split: if_splits prod.splits)
        moreover have "set_items prior (x # p) = map_option (\<lambda>(r, p'). ((x, x) # r, p')) (set_items x p)"
          by (subst set_items.simps(2)) (simp only: x if_False Cons list.case False)
        moreover have "x \<le> c \<and> c \<le> x \<longleftrightarrow> c = x" by auto
        ultimately show ?thesis
          using "2.IH"(2) [OF x Cons False, of "c = x \<or> seen"] "2.prems"
          by (auto simp: at_def [of "x # p"] in_items_def simp del: set_items.simps split: option.splits)
      qed
    qed
  qed
qed


lemma match_set_text:
  assumes p: "set p \<subseteq> like_chars" and x: "x \<in> like_chars" "set s \<subseteq> like_chars"
  shows "case parse_set p of None \<Rightarrow> \<exists>z. match_set (ztext p) (ztext (x # s)) = Some (False, z, ztext s)
    | Some (neg, r, q) \<Rightarrow> match_set (ztext p) (ztext (x # s)) = Some (in_items x r \<noteq> neg, ztext q, ztext s)"
proof -
  define neg where "neg = (p \<noteq> [] \<and> hd p = 0x5e)"
  define p1 where "p1 = (if neg then tl p else p)"
  define cl where "cl = (p1 \<noteq> [] \<and> hd p1 = 0x5d)"
  define p2 where "p2 = (if cl then tl p1 else p1)"
  have ps: "parse_set p = map_option (\<lambda>(r, p'). (neg, (if cl then (0x5d, 0x5d) # r else r), p')) (set_items 0 p2)"
    by (simp add: parse_set_def Let_def neg_def p1_def cl_def p2_def)
  have s1: "set p1 \<subseteq> like_chars" "set p2 \<subseteq> like_chars" 
  proof -
    have tl: "set (tl xs) \<subseteq> set xs" for xs :: "u32 list" by (cases xs) auto
    show "set p1 \<subseteq> like_chars" using p tl [of p] by (auto simp: p1_def)
    then show "set p2 \<subseteq> like_chars" using tl [of p1] by (auto simp: p2_def)
  qed
  have n: "neg = (fst (at p) = 0x5e)" "cl = (fst (at p1) = 0x5d)"
    by (auto simp: neg_def cl_def at_def split: list.splits)
  have n1: "(if neg then sqlite3Utf8Read (snd (at p)) else Some (at p)) = Some (at p1)"
    using read_at [OF s1(1)] by (cases p) (auto simp: neg_def p1_def at_def)
  have n2: "(if cl then sqlite3Utf8Read (snd (at p1)) else Some (at p1)) = Some (at p2)"
    using read_at [OF s1(2)] by (cases p1) (auto simp: cl_def p2_def at_def)
  obtain d u z where l: "set_loop x (snd (at p2)) (fst (at p2)) 0 (cl \<and> x = 0x5d) = Some (d, u, z)"
    "case set_items 0 p2 of None \<Rightarrow> d = 0 | Some (r, q) \<Rightarrow> d = 0x5d \<and> u = ((cl \<and> x = 0x5d) \<or> in_items x r) \<and> z = ztext q"
    using set_loop_text [OF s1(2)] by metis
  have "x \<noteq> 0" using x by (auto simp: like_chars_def)
  then have m: "match_set (ztext p) (ztext (x # s)) = Some (\<not> (d = 0 \<or> u = neg), z, ztext s)"
  proof -
    assume x0: "x \<noteq> 0"
    obtain a za b zb e ze where v: "at p = (a, za)" "at p1 = (b, zb)" "at p2 = (e, ze)" by (metis surj_pair)
    have r: "sqlite3Utf8Read (ztext p) = Some (a, za)" "(if a = 0x5e then sqlite3Utf8Read za else Some (a, za)) = Some (b, zb)"
        "(if b = 0x5d then sqlite3Utf8Read zb else Some (b, zb)) = Some (e, ze)"
        "set_loop x ze e 0 (b = 0x5d \<and> x = 0x5d) = Some (d, u, z)" "neg = (a = 0x5e)"
      using read_at [OF p] n n1 n2 l(1) by (simp_all only: v fst_conv snd_conv)
    show ?thesis unfolding match_set_def
      by (simp only: read_text [OF x] r x0 Option.bind.bind_lunit prod.case Let_def if_False)
  qed
  show ?thesis
  proof (cases "set_items 0 p2")
    case None
    then show ?thesis using l(2) m by (simp add: ps)
  next
    case (Some a)
    obtain r q where a: "a = (r, q)" by fastforce
    have "u = in_items x (if cl then (0x5d, 0x5d) # r else r)" "d \<noteq> 0" "z = ztext q"
      using l(2) Some a by (auto simp: in_items_def)
    then show ?thesis using m Some a by (simp add: ps)
  qed
qed

text \<open>Wildcards behind a wildcard only shorten the string.\<close>

definition skip_left :: "compareInfo \<Rightarrow> u32 \<Rightarrow> u32 list \<Rightarrow> u32 list \<Rightarrow> (u32 \<times> u8 list \<times> u8 list) option \<Rightarrow> bool" where
  "skip_left i m p s r \<longleftrightarrow>
     (case r of None \<Rightarrow> \<not> pmatch (noCase i \<noteq> 0) (PAny # parse_pattern i m p) s
      | Some (c, z, t) \<Rightarrow>
        (if c = 0 then pmatch (noCase i \<noteq> 0) (PAny # parse_pattern i m p) s
         else \<exists>q s'. z = ztext q \<and> t = ztext s' \<and> c \<in> like_chars \<and> set q \<subseteq> set p \<and> set s' \<subseteq> set s \<and> c \<in> set p \<and>
           c \<noteq> u32_of (matchAll i) \<and> c \<noteq> u32_of (matchOne i) \<and> length q < length p \<and>
           pmatch (noCase i \<noteq> 0) (PAny # parse_pattern i m p) s = pmatch (noCase i \<noteq> 0) (PAny # parse_pattern i m (c # q)) s'))"

definition like_info :: "compareInfo \<Rightarrow> u32 \<Rightarrow> bool" where
  "like_info i m \<longleftrightarrow> m \<noteq> u32_of (matchAll i) \<and> m \<noteq> u32_of (matchOne i) \<and> matchAll i \<noteq> matchOne i \<and>
    matchAll i \<noteq> 0 \<and> matchOne i \<noteq> 0 \<and> (matchSet i \<noteq> 0 \<longrightarrow> m < 0x80 \<and> m \<in> like_chars)"

lemma skip_wildcards_text:
  "like_info i m \<Longrightarrow> set p \<subseteq> like_chars \<Longrightarrow> set s \<subseteq> like_chars \<Longrightarrow>
    \<exists>r. skip_wildcards i (ztext p) (ztext s) = Some r \<and> skip_left i m p s r"
proof (induction p arbitrary: s)
  case Nil
  then have "u32_of (matchAll i) \<noteq> 0" "u32_of (matchOne i) \<noteq> 0"
    by (auto simp: like_info_def word_unat_eq_iff unat_u32_of)
  then show ?case by (subst skip_wildcards.simps) (auto simp: text_reads skip_left_def)
next
  case (Cons c p)
  have c: "c \<in> like_chars" "set p \<subseteq> like_chars" "c \<noteq> 0" using Cons.prems by (auto simp: like_chars_def)
  note read = Read_text [OF c(1,2)]
  have one: "u32_of (matchOne i) \<noteq> u32_of (matchAll i)"
    using Cons.prems(1) by (auto simp: like_info_def word_unat_eq_iff unat_u32_of)
  have mono: "skip_left i m p s' r \<Longrightarrow> set s' \<subseteq> set s \<Longrightarrow>
      pmatch (noCase i \<noteq> 0) (PAny # parse_pattern i m (c # p)) s = pmatch (noCase i \<noteq> 0) (PAny # parse_pattern i m p) s' \<Longrightarrow>
      skip_left i m (c # p) s r" for s' r
  proof -
    assume r: "skip_left i m p s' r" and sub: "set s' \<subseteq> set s" and
      eq: "pmatch (noCase i \<noteq> 0) (PAny # parse_pattern i m (c # p)) s = pmatch (noCase i \<noteq> 0) (PAny # parse_pattern i m p) s'"
    show ?thesis
    proof (cases r)
      case None
      then show ?thesis using r eq by (simp add: skip_left_def del: pmatch.simps parse_pattern.simps)
    next
      case (Some a)
      obtain d z t where a: "a = (d, z, t)" by (cases a)
      show ?thesis
      proof (cases "d = 0")
        case True
        then show ?thesis using r eq Some a by (simp add: skip_left_def del: pmatch.simps parse_pattern.simps)
      next
        case False
        then obtain q t' where "z = ztext q" "t = ztext t'" "d \<in> like_chars" "set q \<subseteq> set p" "set t' \<subseteq> set s'" "d \<in> set p"
            "d \<noteq> u32_of (matchAll i)" "d \<noteq> u32_of (matchOne i)" "length q < length p"
            "pmatch (noCase i \<noteq> 0) (PAny # parse_pattern i m p) s' = pmatch (noCase i \<noteq> 0) (PAny # parse_pattern i m (d # q)) t'"
          using r Some a by (auto simp: skip_left_def simp del: pmatch.simps parse_pattern.simps)
        moreover have "set q \<subseteq> set (c # p)" "set t' \<subseteq> set s" "d \<in> set (c # p)" "length q < length (c # p)"
          using calculation sub by auto
        ultimately show ?thesis using Some a False eq
          by (simp only: skip_left_def option.case prod.case if_False) blast
      qed
    qed
  qed
  consider (all) "c = u32_of (matchAll i)" | (one) "c = u32_of (matchOne i)" | (other) "c \<noteq> u32_of (matchAll i)" "c \<noteq> u32_of (matchOne i)"
    by blast
  then show ?case
  proof cases
    case all
    have "skip_wildcards i (ztext (c # p)) (ztext s) = skip_wildcards i (ztext p) (ztext s)"
      using all one read by (subst skip_wildcards.simps) simp
    moreover have "pmatch f (PAny # parse_pattern i m (c # p)) s = pmatch f (PAny # parse_pattern i m p) s" for f
      using all pmatch_any_any by (simp del: pmatch.simps)
    ultimately show ?thesis using Cons.IH [OF Cons.prems(1) c(2) Cons.prems(3)] mono [of s] by auto
  next
    case one': one
    have tok: "parse_pattern i m (c # p) = POne # parse_pattern i m p"
      using one' one Cons.prems(1) by (auto simp: like_info_def)
    show ?thesis
    proof (cases s)
      case Nil
      have "skip_wildcards i (ztext (c # p)) (ztext s) = Some None"
        using one' read Nil by (subst skip_wildcards.simps) (simp add: text_reads)
      then show ?thesis using tok Nil by (simp add: skip_left_def)
    next
      case s: (Cons x s')
      have x: "x \<in> like_chars" "set s' \<subseteq> like_chars" "x \<noteq> 0" using Cons.prems(3) s by (auto simp: like_chars_def)
      have "skip_wildcards i (ztext (c # p)) (ztext s) = skip_wildcards i (ztext p) (ztext s')"
        using one' read s x(3) read_text [OF x(1,2)] by (subst skip_wildcards.simps) simp
      moreover have "pmatch f (PAny # parse_pattern i m (c # p)) s = pmatch f (PAny # parse_pattern i m p) s'" for f
        using tok pmatch_any_one [of f "parse_pattern i m p" s] s by (simp del: pmatch.simps parse_pattern.simps)
      moreover obtain r where "skip_wildcards i (ztext p) (ztext s') = Some r" "skip_left i m p s' r"
        using Cons.IH [OF Cons.prems(1) c(2) x(2)] by blast
      ultimately show ?thesis using mono [of s' r] s
        by (simp del: pmatch.simps parse_pattern.simps) blast
    qed
  next
    case other
    have "skip_wildcards i (ztext (c # p)) (ztext s) = Some (Some (c, ztext p, ztext s))"
      using other read by (subst skip_wildcards.simps) simp
    then show ?thesis using c other
      by (auto simp: skip_left_def simp del: pmatch.simps parse_pattern.simps)
  qed
qed


section \<open>The comparison\<close>

lemma answers_step:
  assumes "t \<noteq> PAny" "accepts f t x \<Longrightarrow> answers r (pmatch f p) s"
  shows "answers (if accepts f t x then r else SQLITE_NOMATCH) (pmatch f (t # p)) (x # s)"
  using assms token_skip [of t f p _ x s] by (auto simp: answers_def match_defs)

lemma same_char_0: "c \<noteq> 0 \<Longrightarrow> \<not> same_char ci c 0"
proof
  assume c: "c \<noteq> 0" "same_char ci c 0"
  then have "c < 0x80" "sqlite3Tolower (u8_of c) = 0" by (auto simp: same_char_def tolower_range)
  then have "u8_of c = u8_of 0"
    by (auto simp: tolower_range word_le_nat_alt word_unat_eq_iff unat_word_ariths split: if_splits)
  then show False using u8_of_eq [of c 0] c \<open>c < 0x80\<close> by simp
qed

lemma match_char_accepts:
  assumes "c \<noteq> 0" "matchOne i \<noteq> 0"
  shows "match_char i c x True = accepts (noCase i \<noteq> 0) (PLit c) x"
    and "match_char i c x False = (if x = 0 then False else accepts (noCase i \<noteq> 0) (if c = u32_of (matchOne i) then POne else PLit c) x)"
  using assms same_char_0 [of c "noCase i \<noteq> 0"] by (auto simp: match_char_def same_char_def)

lemma one_token:
  assumes f: "f = (noCase i \<noteq> 0)" and pc: "compares (\<lambda>z. patternCompare (ztext q) z i m) (pmatch f (parse_pattern i m q))"
    and t: "t \<noteq> PAny" and m: "\<And>x. x \<noteq> 0 \<Longrightarrow> match_char i c x e = accepts f t x" "\<not> match_char i c 0 e"
    and s: "set s \<subseteq> like_chars"
  shows "\<exists>r. do { (c2, zString) \<leftarrow> Utf8Read (ztext s);
      if match_char i c c2 e then patternCompare (ztext q) zString i m else Some SQLITE_NOMATCH } = Some r \<and>
    answers r (pmatch f (t # parse_pattern i m q)) s"
proof (cases s)
  case Nil
  then show ?thesis using m(2) t by (simp add: text_reads answers_def match_defs)
next
  case (Cons x s')
  then have x: "x \<in> like_chars" "set s' \<subseteq> like_chars" "x \<noteq> 0" using s by (auto simp: like_chars_def)
  obtain r where r: "patternCompare (ztext q) (ztext s') i m = Some r" "answers r (pmatch f (parse_pattern i m q)) s'"
    using pc x(2) unfolding compares_def by blast
  then show ?thesis using Read_text [OF x(1,2)] answers_step [OF t, of f x r "parse_pattern i m q" s'] m(1) [OF x(3)] Cons
    by (simp del: pmatch.simps) (auto simp del: pmatch.simps)
qed

lemma compares_pattern:
  assumes i: "like_info i m" "f = (noCase i \<noteq> 0)"
  shows "set p \<subseteq> like_chars - {0x80} \<Longrightarrow> compares (\<lambda>z. patternCompare (ztext p) z i m) (pmatch f (parse_pattern i m p))"
proof (induction "length p" arbitrary: p rule: less_induct)
  case less
  have ne: "u32_of (matchAll i) \<noteq> u32_of (matchOne i)" "matchOne i \<noteq> 0"
    using i(1) by (auto simp: like_info_def word_unat_eq_iff unat_u32_of)
  show ?case unfolding compares_def
  proof (intro allI impI)
    fix s assume s: "set s \<subseteq> like_chars"
    show "\<exists>r. patternCompare (ztext p) (ztext s) i m = Some r \<and> answers r (pmatch f (parse_pattern i m p)) s"
    proof (cases p)
      case Nil
      obtain b z where "ztext s = b # z" "b = 0 \<longleftrightarrow> s = []"
        using text_head [of "hd s" "tl s"] s by (cases s) (auto simp: text_Nil)
      then show ?thesis using Nil
        by (subst patternCompare.simps) (simp add: text_reads answers_def match_defs)
    next
      case (Cons c q)
      have c: "c \<in> like_chars" "set q \<subseteq> like_chars" "c \<noteq> 0" "c \<noteq> 0x80"
        using less.prems Cons by (auto simp: like_chars_def)
      note read = Read_text [OF c(1,2)]
      have IH: "length q' < length p \<Longrightarrow> set q' \<subseteq> set p \<Longrightarrow>
          compares (\<lambda>z. patternCompare (ztext q') z i m) (pmatch f (parse_pattern i m q'))" for q'
        using less by blast
      consider (all) "c = u32_of (matchAll i)" | (set) "c \<noteq> u32_of (matchAll i)" "c = m" "matchSet i \<noteq> 0"
        | (esc) "c \<noteq> u32_of (matchAll i)" "c = m" "matchSet i = 0" | (char) "c \<noteq> u32_of (matchAll i)" "c \<noteq> m" by blast
      then show ?thesis
      proof cases
        case char
        define t where "t = (if c = u32_of (matchOne i) then POne else PLit c)"
        have pt: "parse_pattern i m p = t # parse_pattern i m q" "t \<noteq> PAny" using char Cons by (auto simp: t_def)
        have "patternCompare (ztext p) (ztext s) i m = do { (c2, zString) \<leftarrow> Utf8Read (ztext s);
            if match_char i c c2 False then patternCompare (ztext q) zString i m else Some SQLITE_NOMATCH }"
          using char read c Cons by (subst patternCompare.simps) simp
        moreover have "\<And>x. x \<noteq> 0 \<Longrightarrow> match_char i c x False = accepts f t x" "\<not> match_char i c 0 False"
          using match_char_accepts(2) [OF c(3) ne(2)] i(2) by (simp_all add: t_def)
        moreover have "compares (\<lambda>z. patternCompare (ztext q) z i m) (pmatch f (parse_pattern i m q))"
          using IH [of q] Cons by auto
        ultimately show ?thesis using one_token [OF i(2) _ pt(2) _ _ s, of q m c False] pt(1) by metis
      next
        case esc
        show ?thesis
        proof (cases q)
          case Nil
          then have "parse_pattern i m p = [PBad]" using esc Cons by simp
          moreover have "patternCompare (ztext p) (ztext s) i m = Some SQLITE_NOMATCH"
            using esc read Cons Nil c by (subst patternCompare.simps) (simp add: text_reads)
          ultimately show ?thesis by (cases s) (auto simp: answers_def match_defs)
        next
          case q: (Cons d q')
          have d: "d \<in> like_chars" "set q' \<subseteq> like_chars" "d \<noteq> 0" using c(2) q by (auto simp: like_chars_def)
          have "patternCompare (ztext p) (ztext s) i m = do { (c2, zString) \<leftarrow> Utf8Read (ztext s);
              if match_char i d c2 True then patternCompare (ztext q') zString i m else Some SQLITE_NOMATCH }"
            using esc read Cons q c read_text [OF d(1,2)] d(3) by (subst patternCompare.simps) simp
          moreover have "parse_pattern i m p = PLit d # parse_pattern i m q'" using esc Cons q by simp
          moreover have "compares (\<lambda>z. patternCompare (ztext q') z i m) (pmatch f (parse_pattern i m q'))"
            using IH [of q'] Cons q by auto
          ultimately show ?thesis
            using one_token [OF i(2) _ _ _ _ s, of q' m "PLit d" d True] match_char_accepts(1) [OF d(3) ne(2)] i(2)
              same_char_0 [OF d(3)] by (simp del: pmatch.simps)
        qed
      next
        case set
        have "patternCompare (ztext p) (ztext s) i m = do {
            (b, zPattern, zString) \<leftarrow> match_set (ztext q) (ztext s);
            if b then patternCompare zPattern zString i m else Some SQLITE_NOMATCH }"
          using set read Cons c by (subst patternCompare.simps) simp
        moreover have pt: "parse_pattern i m p = (case parse_set q of None \<Rightarrow> [PBad] | Some (neg, r, q') \<Rightarrow> PSet neg r # parse_pattern i m q')"
          using set Cons by simp
        moreover have "\<exists>r. do { (b, zPattern, zString) \<leftarrow> match_set (ztext q) (ztext s);
            if b then patternCompare zPattern zString i m else Some SQLITE_NOMATCH } = Some r \<and>
          answers r (pmatch f (parse_pattern i m p)) s"
        proof (cases s)
          case Nil
          have "match_set (ztext q) (ztext s) = Some (False, ztext q, [])" using Nil by (simp add: match_set_def text_reads)
          then show ?thesis using Nil by (auto simp: pt answers_def match_defs split: option.splits)
        next
          case s': (Cons x s')
          have x: "x \<in> like_chars" "set s' \<subseteq> like_chars" using s s' by auto
          show ?thesis
          proof (cases "parse_set q")
            case None
            then show ?thesis using match_set_text [OF c(2) x] s' by (auto simp: pt answers_def match_defs)
          next
            case (Some a)
            obtain neg r q' where a: "a = (neg, r, q')" by (cases a)
            have l: "length q' < length p" using parse_set_rest [of q] Some a Cons by fastforce
            have sub: "set q' \<subseteq> set p" using parse_set_rest [of q] Some a Cons by fastforce
            obtain v where v: "patternCompare (ztext q') (ztext s') i m = Some v" "answers v (pmatch f (parse_pattern i m q')) s'"
              using IH [OF l sub] x(2) unfolding compares_def by blast
            then show ?thesis
              using match_set_text [OF c(2) x] Some a s' answers_step [of "PSet neg r" f x v "parse_pattern i m q'" s']
              by (auto simp: pt simp del: pmatch.simps)
          qed
        qed
        ultimately show ?thesis by simp
      next
        case all
        obtain v where v: "skip_wildcards i (ztext q) (ztext s) = Some v" "skip_left i m q s v"
          using skip_wildcards_text [OF i(1) c(2) s] by blast
        have pt: "parse_pattern i m p = PAny # parse_pattern i m q" using all Cons by simp
        have "\<exists>r. patternCompare (ztext p) (ztext s) i m = Some r \<and> (r = SQLITE_MATCH \<and> pmatch f (PAny # parse_pattern i m q) s \<or>
          r = SQLITE_NOWILDCARDMATCH \<and> \<not> pmatch f (PAny # parse_pattern i m q) s)"
        proof (cases v)
          case None
          then show ?thesis using all read v Cons c i(2)
            by (subst patternCompare.simps) (simp add: skip_left_def del: pmatch.simps)
        next
          case (Some a)
          obtain d z t where a: "a = (d, z, t)" by (cases a)
          show ?thesis
          proof (cases "d = 0")
            case True
            then show ?thesis using all read v Cons c i(2) Some a
              by (subst patternCompare.simps) (simp add: skip_left_def del: pmatch.simps)
          next
            case False
            obtain q' s' where d: "z = ztext q'" "t = ztext s'" "d \<in> like_chars" "set q' \<subseteq> set q" "set s' \<subseteq> set s" "d \<in> set q"
              "d \<noteq> u32_of (matchAll i)" "d \<noteq> u32_of (matchOne i)" "length q' < length q" and
              eq: "pmatch f (PAny # parse_pattern i m q) s = pmatch f (PAny # parse_pattern i m (d # q')) s'"
              using v(2) Some a False i(2) by (auto simp: skip_left_def simp del: pmatch.simps parse_pattern.simps)
            have call: "patternCompare (ztext p) (ztext s) i m = (if d = m then
                if matchSet i = 0 then do {
                  (c, zPattern) \<leftarrow> sqlite3Utf8Read (ztext q');
                  if c = 0 then Some SQLITE_NOWILDCARDMATCH
                  else like_search i c (\<lambda>s. patternCompare zPattern s i m) (ztext s') }
                else search_set (\<lambda>s. patternCompare (u8_of m # ztext q') s i m) (ztext s')
              else like_search i d (\<lambda>s. patternCompare (ztext q') s i m) (ztext s'))"
              using all read v Cons c Some a d(1,2) False by (subst patternCompare.simps) simp
            have IHq: "compares (\<lambda>z. patternCompare (ztext q') z i m) (pmatch f (parse_pattern i m q'))"
              using IH [of q'] d(4,9) Cons by auto
            have s': "set s' \<subseteq> like_chars" using d(5) s by blast
            have d80: "d \<noteq> 0x80" using d(6) less.prems Cons by auto
            show ?thesis
            proof (cases "d = m")
              case False
              then have "parse_pattern i m (d # q') = PLit d # parse_pattern i m q'" using d(7,8) by simp
              then show ?thesis using compares_like_search [OF IHq i(2) d(3) d80 s'] eq call False by metis
            next
              case m: True
              show ?thesis
              proof (cases "matchSet i = 0")
                case True
                show ?thesis
                proof (cases q')
                  case Nil
                  then have "parse_pattern i m (d # q') = [PBad]" using d(7) m True by simp
                  moreover have "\<not> pmatch f (PAny # [PBad]) s'" by (auto split: list.splits)
                  ultimately show ?thesis using eq call True m Nil by (simp add: text_reads del: pmatch.simps)
                next
                  case q': (Cons e q2)
                  have e: "e \<in> like_chars" "set q2 \<subseteq> like_chars" "e \<noteq> 0" "e \<noteq> 0x80"
                    using d(4) c(2) less.prems Cons q' by (auto simp: like_chars_def)
                  have "parse_pattern i m (d # q') = PLit e # parse_pattern i m q2" using d(7) m True q' by simp
                  moreover have "compares (\<lambda>z. patternCompare (ztext q2) z i m) (pmatch f (parse_pattern i m q2))"
                    using IH [of q2] d(4,9) q' Cons by auto
                  moreover have "patternCompare (ztext p) (ztext s) i m = like_search i e (\<lambda>s. patternCompare (ztext q2) s i m) (ztext s')"
                    using call m True q' read_text [OF e(1,2)] e(3) by simp
                  ultimately show ?thesis
                    using compares_like_search [OF _ i(2) e(1,4) s', of "\<lambda>z. patternCompare (ztext q2) z i m" "parse_pattern i m q2"] eq
                    by metis
                qed
              next
                case False
                have m': "m < 0x80" "m \<in> like_chars" using i(1) False by (auto simp: like_info_def)
                have z: "u8_of m # ztext q' = ztext (m # q')" using text_Cons_small [OF m'(2,1)] by simp
                obtain t' rest where pm: "parse_pattern i m (m # q') = t' # rest" "t' \<noteq> PAny"
                  using d(7) m False by (cases "parse_set q'") auto
                have "compares (\<lambda>z. patternCompare (ztext (m # q')) z i m) (pmatch f (t' # rest))"
                  using IH [of "m # q'"] d(4,6,9) Cons m pm(1) by (auto simp del: parse_pattern.simps)
                then show ?thesis
                  using compares_search_set [OF _ pm(2) s', of "\<lambda>z. patternCompare (ztext (m # q')) z i m" f rest] eq call m False z pm(1)
                  by metis
              qed
            qed
          qed
        qed
        then show ?thesis using any_answers [of _ f "parse_pattern i m q" s] pt by metis
      qed
    qed
  qed
qed

end
