(* ===== verification/Like_Props.thy ===== *)
theory Like_Props
  imports Like_Spec
begin

text \<open>LIKE and GLOB agree with their reference, and the one character for which they do not.\<close>

section \<open>Properties\<close>

lemma like_infos:
  "e \<noteq> 0x25 \<Longrightarrow> e \<noteq> 0x5f \<Longrightarrow> like_info likeInfoNorm e" "e \<noteq> 0x25 \<Longrightarrow> e \<noteq> 0x5f \<Longrightarrow> like_info likeInfoAlt e" "like_info globInfo 0x5b"
  by (auto simp: like_info_def likeInfoNorm_def likeInfoAlt_def globInfo_def like_chars_def utf8_chars_def scalars_def surrogate_def)

lemma u32_of_lit: "u32_of (ch CHR ''['') = 0x5b"
  by simp

text \<open>The characters of a string, for examples.\<close>

definition chars :: "string \<Rightarrow> u32 list" where
  "chars s = map (\<lambda>c. word_of_nat (of_char c)) s"

text \<open>C28: On a pattern and a string of UTF-8 characters, without U+0080 in the pattern, LIKE (for every escape character
  other than the two wildcards) and GLOB return a result, and it is 0 exactly when the reference matches the
  pattern read as wildcards, sets and characters.\<close>

theorem like_glob_match:
  assumes "set p \<subseteq> like_chars - {0x80}" and "set s \<subseteq> like_chars" and "esc \<noteq> 0x25" "esc \<noteq> 0x5f"
  shows "(\<exists>r. sqlite3_strlike (ztext p) (ztext s) esc = Some r \<and>
      (r = 0 \<longleftrightarrow> pmatch True (parse_pattern likeInfoNorm esc p) s)) \<and>
    (\<exists>r. sqlite3_strglob (ztext p) (ztext s) = Some r \<and> (r = 0 \<longleftrightarrow> pmatch False (parse_pattern globInfo 0x5b p) s))"
proof -
  have "noCase likeInfoNorm \<noteq> 0" "noCase globInfo = 0" by (simp_all add: likeInfoNorm_def globInfo_def)
  then have "compares (\<lambda>z. patternCompare (ztext p) z likeInfoNorm esc) (pmatch True (parse_pattern likeInfoNorm esc p))"
    "compares (\<lambda>z. patternCompare (ztext p) z globInfo 0x5b) (pmatch False (parse_pattern globInfo 0x5b p))"
    using compares_pattern [OF like_infos(1) [OF assms(3,4)] _ assms(1), of True] compares_pattern [OF like_infos(3) _ assms(1), of False]
    by simp_all
  then obtain r r' where "sqlite3_strlike (ztext p) (ztext s) esc = Some r" "sqlite3_strglob (ztext p) (ztext s) = Some r'"
      "answers r (pmatch True (parse_pattern likeInfoNorm esc p)) s" "answers r' (pmatch False (parse_pattern globInfo 0x5b p)) s"
    using assms(2) unfolding compares_def sqlite3_strlike_def sqlite3_strglob_def u32_of_lit by meson
  then show ?thesis by (simp only: answers_def match_defs) blast
qed

lemma like_glob_match_witness:
  "(\<exists>r. sqlite3_strlike (ztext (chars ''A!%_%c'')) (ztext (chars ''a%xyzC'')) 0x21 = Some r \<and> r = 0) \<and>
   (\<exists>r. sqlite3_strglob (ztext (chars ''A!%_%c'')) (ztext (chars ''a%xyzC'')) = Some r \<and> r \<noteq> 0)"
proof -
  have c: "set (chars ''A!%_%c'') \<subseteq> like_chars - {0x80}" "set (chars ''a%xyzC'') \<subseteq> like_chars"
    by (simp_all add: chars_def like_chars_def utf8_chars_def scalars_def surrogate_def)
  have "pmatch True (parse_pattern likeInfoNorm 0x21 (chars ''A!%_%c'')) (chars ''a%xyzC'')"
    by (simp add: chars_def likeInfoNorm_def same_char_def tolower_range) (rule exI [of _ 2], simp add: same_char_def tolower_range)
  moreover have "\<not> pmatch False (parse_pattern globInfo 0x5b (chars ''A!%_%c'')) (chars ''a%xyzC'')"
    by (simp add: chars_def globInfo_def same_char_def)
  ultimately show ?thesis using like_glob_match [OF c, where esc = "0x21"] by auto
qed

text \<open>Bytes of a text.\<close>

lemma search_last:
  assumes "\<And>z. pc z = (case z of [] \<Rightarrow> None | b # _ \<Rightarrow> Some (if b = 0 then SQLITE_MATCH else SQLITE_NOMATCH))"
    and "b \<noteq> 0"
  shows "0 \<notin> set bs \<Longrightarrow> search_bytes pc [b, b] (bs @ [0]) =
    Some (if bs \<noteq> [] \<and> last bs = b then SQLITE_MATCH else SQLITE_NOWILDCARDMATCH)"
proof (induction bs)
  case Nil
  show ?case by (subst search_bytes.simps) simp
next
  case (Cons x bs)
  then show ?case using assms(2)
    by (cases "x = b"; cases bs) (auto simp: search_bytes_hit search_bytes_skip assms(1) match_defs)
qed

text \<open>C29: U+0080 behind a wildcard is searched as the byte 0x80, because \<open>patternCompare\<close> tests \<open>c<=0x80\<close> where single
  bytes end at 0x7f: the pattern of \<open>%\<close> and U+0080 matches exactly the strings whose encoding ends in the byte
  0x80, for instance the string of U+0100, which the reference does not match.\<close>

theorem like_u0080_matches_bytes:
  assumes "set s \<subseteq> like_chars"
  shows "sqlite3_strlike (ztext [0x25, 0x80]) (ztext s) 0 =
      Some (if s \<noteq> [] \<and> last (butlast (ztext s)) = 0x80 then SQLITE_MATCH else SQLITE_NOWILDCARDMATCH) \<and>
    sqlite3_strlike (ztext [0x25, 0x80]) (ztext [0x100]) 0 = Some SQLITE_MATCH \<and>
    \<not> pmatch True (parse_pattern likeInfoNorm 0 [0x25, 0x80]) [0x100]"
proof -
  have c: "0x25 \<in> like_chars" "0x80 \<in> like_chars" "0x100 \<in> like_chars"
    by (simp_all add: like_chars_def utf8_chars_def scalars_def surrogate_def)
  define pc where "pc z = patternCompare (ztext []) z likeInfoNorm 0" for z
  have pc: "pc z = (case z of [] \<Rightarrow> None | b # _ \<Rightarrow> Some (if b = 0 then SQLITE_MATCH else SQLITE_NOMATCH))" for z
    unfolding pc_def by (subst patternCompare.simps) (simp add: text_reads)
  have run: "sqlite3_strlike (ztext [0x25, 0x80]) (ztext s) 0 = search_bytes pc [0x80, 0x80] (ztext s)" for s
  proof -
    have "skip_wildcards likeInfoNorm (ztext [0x80]) (ztext s) = Some (Some (0x80, ztext [], ztext s))"
      using Read_text [OF c(2), of "[]"] by (subst skip_wildcards.simps) (simp add: likeInfoNorm_def)
    then show ?thesis
      using Read_text [OF c(1), of "[0x80]"] c(2) unfolding sqlite3_strlike_def
      by (subst patternCompare.simps)
        (simp add: likeInfoNorm_def like_search_def toupper_range tolower_range pc_def [abs_def])
  qed
  have res: "sqlite3_strlike (ztext [0x25, 0x80]) (ztext s) 0 =
      Some (if s \<noteq> [] \<and> last (butlast (ztext s)) = 0x80 then SQLITE_MATCH else SQLITE_NOWILDCARDMATCH)"
    if s: "set s \<subseteq> like_chars" for s
  proof -
    define bs where "bs = concat (map WRITE_UTF8 s)"
    have t: "ztext s = bs @ [0]" by (simp add: ztext_def bs_def)
    have "0 \<notin> set (WRITE_UTF8 c) \<and> WRITE_UTF8 c \<noteq> []" if "c \<in> like_chars" for c
      using char_bytes [OF that] by (auto simp: list_all_iff split: if_splits)
    then have "0 \<notin> set bs" "bs = [] \<longleftrightarrow> s = []" using s by (cases s; auto simp: bs_def)+
    then show ?thesis using search_last [OF pc, of "0x80" bs] run [of s] t by (auto simp: butlast_append)
  qed
  have "ztext [0x100] = [0xC4, 0x80, 0]" by (simp add: ztext_def WRITE_UTF8_def)
  then have "sqlite3_strlike (ztext [0x25, 0x80]) (ztext [0x100]) 0 = Some SQLITE_MATCH"
    using res [of "[0x100]"] c(3) by simp
  moreover have "\<not> pmatch True (parse_pattern likeInfoNorm 0 [0x25, 0x80]) [0x100]"
    by (auto simp: likeInfoNorm_def same_char_def split: list.splits) (simp add: drop_Cons' split: if_splits)
  ultimately show ?thesis using res [OF assms] by blast
qed

lemma like_u0080_matches_bytes_witness:
  "sqlite3_strlike (ztext [0x25, 0x80]) (ztext []) 0 = Some SQLITE_NOWILDCARDMATCH"
  using like_u0080_matches_bytes [of "[]"] by simp

end
