(* ===== verification/Hash.thy ===== *)
theory Hash
  imports Ctype
begin

text \<open>
  The hash tables of tsrc/hash.c. The elements live in a store; the table of buckets is owned by the \<open>Hash\<close> and is a
  list, a bucket being the number of its elements and the first of them. A key is the zero-terminated string its
  pointer points to, which the caller keeps alive and unchanged; data is a pointer. The allocator of the bucket
  table is an argument: what it returns for a number of bytes is the usable size, or \<open>None\<close>.
\<close>

section \<open>Declarations\<close>

record HashElem =
  enext :: ptr
  eprev :: ptr
  edata :: ptr
  pKey :: "u8 list"

record ht_bucket =
  bcount :: int
  chain :: ptr

record Hash =
  htsize :: u32
  hcount :: u32
  first :: ptr
  ht :: "ht_bucket list option"

type_synonym hash_mem = "HashElem heap"

definition SQLITE_MALLOC_SOFT_LIMIT :: nat where "SQLITE_MALLOC_SOFT_LIMIT = 1024"

definition sizeof_ht :: nat where "sizeof_ht = 16"

section \<open>Operations\<close>

definition sqlite3HashInit :: Hash where
  "sqlite3HashInit = \<lparr>htsize = 0, hcount = 0, first = NULL, ht = None\<rparr>"

partial_function (option) hash_clear_loop :: "hash_mem \<Rightarrow> ptr \<Rightarrow> hash_mem option" where
  "hash_clear_loop m elem =
     (if elem = NULL then Some m
      else do {
        e \<leftarrow> load m elem;
        m \<leftarrow> dealloc m elem;
        hash_clear_loop m (enext e) })"

definition sqlite3HashClear :: "hash_mem \<Rightarrow> Hash \<Rightarrow> (hash_mem \<times> Hash) option" where
  "sqlite3HashClear m pH = do {
     m \<leftarrow> hash_clear_loop m (first pH);
     Some (m, pH\<lparr>first := NULL, ht := None, htsize := 0, hcount := 0\<rparr>) }"

fun strHash_loop :: "u32 \<Rightarrow> u8 list \<Rightarrow> u32 option" where
  "strHash_loop h [] = None"
| "strHash_loop h (c # z) =
     (if c \<noteq> 0 then strHash_loop ((h + u32_of (sqlite3UpperToLower ! unat c)) * 0x9e3779b1) z else Some h)"

definition strHash :: "u8 list \<Rightarrow> u32 option" where
  "strHash z = strHash_loop 0 z"

definition insertElement :: "hash_mem \<Rightarrow> Hash \<Rightarrow> nat option \<Rightarrow> ptr \<Rightarrow> (hash_mem \<times> Hash) option" where
  "insertElement m pH pEntry pNew = do {
     (pHead, pH) \<leftarrow> (case pEntry of
         Some i \<Rightarrow> do {
           t \<leftarrow> ht pH;
           b \<leftarrow> nth_opt t i;
           Some (if bcount b \<noteq> 0 then chain b else NULL, pH\<lparr>ht := Some (t[i := \<lparr>bcount = bcount b + 1, chain = pNew\<rparr>])\<rparr>) }
       | None \<Rightarrow> Some (NULL, pH));
     if pHead \<noteq> NULL then do {
       e \<leftarrow> load m pHead;
       m \<leftarrow> modify m pNew (\<lambda>x. x\<lparr>enext := pHead, eprev := eprev e\<rparr>);
       (m, pH) \<leftarrow> (if eprev e \<noteq> NULL then do { m \<leftarrow> modify m (eprev e) (\<lambda>x. x\<lparr>enext := pNew\<rparr>); Some (m, pH) }
                   else Some (m, pH\<lparr>first := pNew\<rparr>));
       m \<leftarrow> modify m pHead (\<lambda>x. x\<lparr>eprev := pNew\<rparr>);
       Some (m, pH) }
     else do {
       m \<leftarrow> modify m pNew (\<lambda>x. x\<lparr>enext := first pH\<rparr>);
       m \<leftarrow> (if first pH \<noteq> NULL then modify m (first pH) (\<lambda>x. x\<lparr>eprev := pNew\<rparr>) else Some m);
       m \<leftarrow> modify m pNew (\<lambda>x. x\<lparr>eprev := NULL\<rparr>);
       Some (m, pH\<lparr>first := pNew\<rparr>) } }"

text \<open>The bucket of a key.\<close>

definition bucket_of :: "Hash \<Rightarrow> u8 list \<Rightarrow> u32 option" where
  "bucket_of pH key = do { h \<leftarrow> strHash key; _ \<leftarrow> check (htsize pH \<noteq> 0); Some (h mod htsize pH) }"

partial_function (option) rehash_loop :: "hash_mem \<Rightarrow> Hash \<Rightarrow> ptr \<Rightarrow> (hash_mem \<times> Hash) option" where
  "rehash_loop m pH elem =
     (if elem = NULL then Some (m, pH)
      else do {
        e \<leftarrow> load m elem;
        h \<leftarrow> bucket_of pH (pKey e);
        (m, pH) \<leftarrow> insertElement m pH (Some (unat h)) elem;
        rehash_loop m pH (enext e) })"

definition rehash :: "(nat \<Rightarrow> nat option) \<Rightarrow> hash_mem \<Rightarrow> Hash \<Rightarrow> u32 \<Rightarrow> (hash_mem \<times> Hash \<times> bool) option" where
  "rehash ht_alloc m pH new_size =
     (let new_size = (if unat new_size * sizeof_ht > SQLITE_MALLOC_SOFT_LIMIT
                      then word_of_nat (SQLITE_MALLOC_SOFT_LIMIT div sizeof_ht) else new_size)
      in if new_size = htsize pH then Some (m, pH, False)
         else (case ht_alloc (unat new_size * sizeof_ht) of
             None \<Rightarrow> Some (m, pH, False)
           | Some bytes \<Rightarrow> do {
               let new_size = bytes div sizeof_ht;
               (m, pH) \<leftarrow> rehash_loop m (pH\<lparr>ht := Some (replicate new_size \<lparr>bcount = 0, chain = NULL\<rparr>),
                 htsize := word_of_nat new_size, first := NULL\<rparr>) (first pH);
               Some (m, pH, True) }))"

text \<open>The while loop over at most \<open>count\<close> elements; NULL stands for \<open>nullElement\<close>.\<close>

fun hash_find_loop :: "hash_mem \<Rightarrow> u8 list \<Rightarrow> nat \<Rightarrow> ptr \<Rightarrow> ptr option" where
  "hash_find_loop m key 0 elem = Some NULL"
| "hash_find_loop m key (Suc n) elem = do {
     e \<leftarrow> load m elem;
     c \<leftarrow> sqlite3StrICmp (pKey e) key;
     if c = 0 then Some elem else hash_find_loop m key n (enext e) }"

definition findElementWithHash :: "hash_mem \<Rightarrow> Hash \<Rightarrow> u8 list \<Rightarrow> (ptr \<times> u32) option" where
  "findElementWithHash m pH key =
     (case ht pH of
        Some t \<Rightarrow> do {
          h \<leftarrow> bucket_of pH key;
          b \<leftarrow> nth_opt t (unat h);
          elem \<leftarrow> hash_find_loop m key (nat (bcount b)) (chain b);
          Some (elem, h) }
      | None \<Rightarrow> do {
          elem \<leftarrow> hash_find_loop m key (unat (hcount pH)) (first pH);
          Some (elem, 0) })"

definition data_of :: "hash_mem \<Rightarrow> ptr \<Rightarrow> ptr option" where
  "data_of m elem = (if elem = NULL then Some NULL else map_option edata (load m elem))"

definition removeElementGivenHash :: "hash_mem \<Rightarrow> Hash \<Rightarrow> ptr \<Rightarrow> u32 \<Rightarrow> (hash_mem \<times> Hash) option" where
  "removeElementGivenHash m pH elem h = do {
     e \<leftarrow> load m elem;
     (m, pH) \<leftarrow> (if eprev e \<noteq> NULL then do { m \<leftarrow> modify m (eprev e) (\<lambda>x. x\<lparr>enext := enext e\<rparr>); Some (m, pH) }
                 else Some (m, pH\<lparr>first := enext e\<rparr>));
     m \<leftarrow> (if enext e \<noteq> NULL then modify m (enext e) (\<lambda>x. x\<lparr>eprev := eprev e\<rparr>) else Some m);
     pH \<leftarrow> (case ht pH of
         Some t \<Rightarrow> do {
           b \<leftarrow> nth_opt t (unat h);
           Some (pH\<lparr>ht := Some (t[unat h := \<lparr>bcount = bcount b - 1, chain = (if chain b = elem then enext e else chain b)\<rparr>])\<rparr>) }
       | None \<Rightarrow> Some pH);
     m \<leftarrow> dealloc m elem;
     let pH = pH\<lparr>hcount := hcount pH - 1\<rparr>;
     if hcount pH = 0 then sqlite3HashClear m pH else Some (m, pH) }"

definition sqlite3HashFind :: "hash_mem \<Rightarrow> Hash \<Rightarrow> u8 list \<Rightarrow> ptr option" where
  "sqlite3HashFind m pH key = do { (elem, _) \<leftarrow> findElementWithHash m pH key; data_of m elem }"

definition sqlite3HashInsert ::
  "(nat \<Rightarrow> nat option) \<Rightarrow> hash_mem \<Rightarrow> Hash \<Rightarrow> u8 list \<Rightarrow> ptr \<Rightarrow> (hash_mem \<times> Hash \<times> ptr) option" where
  "sqlite3HashInsert ht_alloc m pH key data = do {
     (elem, h) \<leftarrow> findElementWithHash m pH key;
     old_data \<leftarrow> data_of m elem;
     if old_data \<noteq> NULL then
       if data = NULL then do { (m, pH) \<leftarrow> removeElementGivenHash m pH elem h; Some (m, pH, old_data) }
       else do { m \<leftarrow> modify m elem (\<lambda>x. x\<lparr>edata := data, pKey := key\<rparr>); Some (m, pH, old_data) }
     else if data = NULL then Some (m, pH, NULL)
     else do {
       let (m, new_elem) = malloc m;
       if new_elem = NULL then Some (m, pH, data)
       else do {
         m \<leftarrow> modify m new_elem (\<lambda>x. x\<lparr>pKey := key, edata := data\<rparr>);
         let pH = pH\<lparr>hcount := hcount pH + 1\<rparr>;
         (m, pH, h) \<leftarrow> (if hcount pH \<ge> 10 \<and> hcount pH > 2 * htsize pH then do {
             (m, pH, moved) \<leftarrow> rehash ht_alloc m pH (hcount pH * 2);
             h \<leftarrow> (if moved then bucket_of pH key else Some h);
             Some (m, pH, h) }
           else Some (m, pH, h));
         (m, pH) \<leftarrow> insertElement m pH (if ht pH = None then None else Some (unat h)) new_elem;
         Some (m, pH, NULL) } } }"

end
