(* ===== verification/Hash_Spec.thy ===== *)
theory Hash_Spec
  imports Hash
begin

text \<open>
  The hash table as a dictionary: the list of its elements is doubly linked, the elements of a bucket are neighbours
  in it, and a key decides the bucket. The operations keep this and update the dictionary.
\<close>

section \<open>Keys\<close>

text \<open>Keys are compared without case, up to the terminator.\<close>

definition fkey :: "u8 list \<Rightarrow> u8 list" where
  "fkey z = map sqlite3Tolower (takeWhile (\<lambda>b. b \<noteq> 0) z)"

lemma tolower_zero: "sqlite3Tolower b = 0 \<longleftrightarrow> b = 0"
  by (auto simp: tolower_range word_le_nat_alt word_unat_eq_iff unat_word_ariths)

lemma c_at_Cons: "c_at (x # z) (Suc i) = c_at z i" "c_at (x # z) 0 = Some x"
  by (simp_all add: c_at_def)

lemma StrICmp_fkey: "0 \<in> set a \<Longrightarrow> 0 \<in> set b \<Longrightarrow> \<exists>c. sqlite3StrICmp a b = Some c \<and> (c = 0 \<longleftrightarrow> fkey a = fkey b)"
proof -
  have "\<exists>c. stricmp_loop a b i = Some c \<and> (c = 0 \<longleftrightarrow> fkey (drop i a) = fkey (drop i b))"
    if "0 \<in> set (drop i a)" "0 \<in> set (drop i b)" for i
    using that
  proof (induction "length a - i" arbitrary: i)
    case 0
    then show ?case by simp
  next
    case (Suc n)
    have l: "i < length a" "i < length b"
      using Suc.prems by (auto simp: not_less intro: ccontr)
    have d: "drop i a = a ! i # drop (Suc i) a" "drop i b = b ! i # drop (Suc i) b" using l by (simp_all add: Cons_nth_drop_Suc)
    have c: "c_at a i = Some (a ! i)" "c_at b i = Some (b ! i)" using l by (simp_all add: c_at_def)
    consider (ne) "sqlite3Tolower (a ! i) \<noteq> sqlite3Tolower (b ! i)" | (z) "sqlite3Tolower (a ! i) = sqlite3Tolower (b ! i)" "a ! i = 0"
      | (more) "sqlite3Tolower (a ! i) = sqlite3Tolower (b ! i)" "a ! i \<noteq> 0" by blast
    then show ?case
    proof cases
      case ne
      then have "fkey (drop i a) \<noteq> fkey (drop i b)" unfolding d by (auto simp: fkey_def)
      moreover have "uint (sqlite3Tolower (a ! i)) - uint (sqlite3Tolower (b ! i)) \<noteq> 0"
        using ne unfolding word_uint_eq_iff by simp
      ultimately show ?thesis by (subst stricmp_loop.simps) (simp add: c Let_def)
    next
      case z
      then have "b ! i = 0" using tolower_zero by metis
      then show ?thesis using z by (subst stricmp_loop.simps) (simp add: c d fkey_def)
    next
      case more
      then have b0: "b ! i \<noteq> 0" using tolower_zero by metis
      have "n = length a - Suc i" using Suc.hyps(2) by simp
      moreover have "0 \<in> set (drop (Suc i) a)" "0 \<in> set (drop (Suc i) b)" using Suc.prems d more(2) b0 by auto
      ultimately have "\<exists>c. stricmp_loop a b (Suc i) = Some c \<and> (c = 0 \<longleftrightarrow> fkey (drop (Suc i) a) = fkey (drop (Suc i) b))"
        by (rule Suc.hyps(1))
      then show ?thesis using more b0 by (subst stricmp_loop.simps) (simp add: c d fkey_def)
    qed
  qed
  from this [of 0] show "0 \<in> set a \<Longrightarrow> 0 \<in> set b \<Longrightarrow> ?thesis" by (simp add: sqlite3StrICmp_def)
qed

definition key_hash :: "u8 list \<Rightarrow> u32" where
  "key_hash k = foldl (\<lambda>h c. (h + u32_of c) * 0x9e3779b1) 0 k"

lemma strHash_fkey: "0 \<in> set z \<Longrightarrow> strHash z = Some (key_hash (fkey z))"
proof -
  have "0 \<in> set z \<Longrightarrow> strHash_loop h z = Some (foldl (\<lambda>h c. (h + u32_of c) * 0x9e3779b1) h (fkey z))" for h
    by (induction z arbitrary: h) (auto simp: fkey_def sqlite3Tolower_def)
  then show "0 \<in> set z \<Longrightarrow> ?thesis" by (simp add: strHash_def key_hash_def)
qed

section \<open>Grouped lists\<close>

fun grouped :: "('a \<Rightarrow> 'b) \<Rightarrow> 'a list \<Rightarrow> bool" where
  "grouped f [] = True"
| "grouped f (x # xs) = (grouped f xs \<and> (f x \<in> f ` set xs \<longrightarrow> f (hd xs) = f x))"

lemma grouped_group:
  "grouped f xs \<Longrightarrow> filter (\<lambda>x. f x = i) xs = takeWhile (\<lambda>x. f x = i) (dropWhile (\<lambda>x. f x \<noteq> i) xs)"
proof (induction xs)
  case (Cons x xs)
  show ?case
  proof (cases "f x = i")
    case True
    show ?thesis
    proof (cases "i \<in> f ` set xs")
      case in_xs: True
      then have "f (hd xs) = i" "xs \<noteq> []" using Cons.prems True by auto
      then have "dropWhile (\<lambda>x. f x \<noteq> i) xs = xs" by (cases xs) simp_all
      then show ?thesis using Cons True by simp
    next
      case False
      then have "filter (\<lambda>x. f x = i) xs = []" "takeWhile (\<lambda>x. f x = i) xs = []"
        by (auto simp: filter_empty_conv takeWhile_eq_Nil_iff dest: hd_in_set)
      then show ?thesis using True by simp
    qed
  qed (use Cons in simp)
qed simp

lemma grouped_split:
  assumes "grouped f xs"
  obtains as cs where "xs = as @ filter (\<lambda>x. f x = i) xs @ cs" "\<forall>x \<in> set as. f x \<noteq> i"
proof
  let ?d = "dropWhile (\<lambda>x. f x \<noteq> i) xs"
  show "xs = takeWhile (\<lambda>x. f x \<noteq> i) xs @ filter (\<lambda>x. f x = i) xs @ dropWhile (\<lambda>x. f x = i) ?d"
    using grouped_group [OF assms, of i] by simp
  show "\<forall>x \<in> set (takeWhile (\<lambda>x. f x \<noteq> i) xs). f x \<noteq> i" by (auto dest: set_takeWhileD)
qed

lemma grouped_remove: "grouped f (ps @ x # qs) \<Longrightarrow> grouped f (ps @ qs)"
proof (induction ps)
  case (Cons p ps)
  then have g: "grouped f (ps @ qs)" by simp
  have p: "f p \<in> f ` set (ps @ x # qs) \<Longrightarrow> f (hd (ps @ x # qs)) = f p" using Cons.prems by simp
  have "f (hd (ps @ qs)) = f p" if m: "f p \<in> f ` set (ps @ qs)"
  proof (cases ps)
    case Nil
    have "f p \<in> f ` set qs" using m Nil by simp
    moreover have "f x = f p" using p m Nil by simp
    moreover have "f x \<in> f ` set qs \<Longrightarrow> f (hd qs) = f x" using Cons.prems Nil by simp
    ultimately show ?thesis using Nil by simp
  next
    case (Cons q r)
    have "f p \<in> f ` set (ps @ x # qs)" using m by auto
    then show ?thesis using p Cons by simp
  qed
  then show ?case using g by simp
qed simp

text \<open>A new element comes in front of its group, else in front of all.\<close>

definition group_insert :: "('a \<Rightarrow> 'b) \<Rightarrow> 'a \<Rightarrow> 'a list \<Rightarrow> 'a list" where
  "group_insert f n xs =
     (if f n \<in> f ` set xs then takeWhile (\<lambda>x. f x \<noteq> f n) xs @ n # dropWhile (\<lambda>x. f x \<noteq> f n) xs else n # xs)"

lemma set_group_insert [simp]: "set (group_insert f n xs) = insert n (set xs)"
proof -
  have "set xs = set (takeWhile P xs) \<union> set (dropWhile P xs)" for P by (metis set_append takeWhile_dropWhile_id)
  then show ?thesis unfolding group_insert_def by simp
qed

lemma distinct_group_insert: "distinct xs \<Longrightarrow> n \<notin> set xs \<Longrightarrow> distinct (group_insert f n xs)"
proof -
  assume d: "distinct xs" "n \<notin> set xs"
  have "distinct (takeWhile P xs @ dropWhile P xs) \<and> n \<notin> set (takeWhile P xs @ dropWhile P xs)" for P
    unfolding takeWhile_dropWhile_id using d by simp
  then show ?thesis using d unfolding group_insert_def distinct_append set_append by auto
qed

lemma length_group_insert [simp]: "length (group_insert f n xs) = Suc (length xs)"
proof -
  have "length (takeWhile P xs) + length (dropWhile P xs) = length xs" for P by (metis length_append takeWhile_dropWhile_id)
  then show ?thesis unfolding group_insert_def by simp
qed

lemma filter_group_insert:
  "filter (\<lambda>x. f x = i) (group_insert f n xs) = (if f n = i then n # filter (\<lambda>x. f x = i) xs else filter (\<lambda>x. f x = i) xs)"
proof -
  let ?t = "takeWhile (\<lambda>x. f x \<noteq> f n) xs" and ?d = "dropWhile (\<lambda>x. f x \<noteq> f n) xs"
  have "filter (\<lambda>x. f x = f n) ?t = []" by (auto simp: filter_empty_conv dest: set_takeWhileD)
  moreover have "filter P xs = filter P ?t @ filter P ?d" for P by (metis filter_append takeWhile_dropWhile_id)
  ultimately show ?thesis by (auto simp: group_insert_def)
qed

lemma grouped_group_insert: "grouped f xs \<Longrightarrow> grouped f (group_insert f n xs)"
proof (induction xs)
  case (Cons y ys)
  show ?case
  proof (cases "f n \<in> f ` set (y # ys)")
    case True
    show ?thesis
    proof (cases "f y = f n")
      case False
      then have e: "f n \<in> f ` set ys" using True by auto
      then have r: "group_insert f n (y # ys) = y # group_insert f n ys" using False by (simp add: group_insert_def)
      have "f y \<in> f ` set ys \<Longrightarrow> hd (group_insert f n ys) = hd ys"
        using Cons.prems False e by (cases ys) (auto simp: group_insert_def)
      then show ?thesis using Cons False r by auto
    qed (use Cons.prems in \<open>auto simp: group_insert_def\<close>)
  qed (use Cons.prems in \<open>auto simp: group_insert_def\<close>)
qed (simp add: group_insert_def)


section \<open>Doubly linked segments\<close>

type_synonym cells = "ptr \<Rightarrow> HashElem option"

fun hseg :: "cells \<Rightarrow> ptr \<Rightarrow> ptr list \<Rightarrow> ptr \<Rightarrow> bool" where
  "hseg c p [] n = True"
| "hseg c p (x # xs) n = (\<exists>e. c x = Some e \<and> eprev e = p \<and> enext e = hd (xs @ [n]) \<and> hseg c x xs n)"

lemma hseg_append: "hseg c p (xs @ ys) n \<longleftrightarrow> hseg c p xs (hd (ys @ [n])) \<and> hseg c (last (p # xs)) ys n"
  by (induction xs arbitrary: p) (auto simp: hd_append)

lemma hseg_frame: "\<forall>x \<in> set xs. c' x = c x \<Longrightarrow> hseg c' p xs n = hseg c p xs n"
  by (induction xs arbitrary: p) auto

lemma hseg_cells: "hseg c p xs n \<Longrightarrow> x \<in> set xs \<Longrightarrow> \<exists>e. c x = Some e"
  by (induction xs arbitrary: p) auto

text \<open>Changing a link, and what an element carries.\<close>

definition set_next :: "cells \<Rightarrow> ptr \<Rightarrow> ptr \<Rightarrow> cells" where
  "set_next c x v = c(x \<mapsto> (the (c x))\<lparr>enext := v\<rparr>)"

definition set_prev :: "cells \<Rightarrow> ptr \<Rightarrow> ptr \<Rightarrow> cells" where
  "set_prev c x v = c(x \<mapsto> (the (c x))\<lparr>eprev := v\<rparr>)"

definition payload :: "cells \<Rightarrow> ptr \<Rightarrow> (u8 list \<times> ptr) option" where
  "payload c x = map_option (\<lambda>e. (pKey e, edata e)) (c x)"

lemma payload_links: "c x \<noteq> None \<Longrightarrow> payload (set_next c x v) = payload c" "c x \<noteq> None \<Longrightarrow> payload (set_prev c x v) = payload c"
  by (auto simp: payload_def set_next_def set_prev_def fun_eq_iff)

lemma set_links_other: "y \<noteq> x \<Longrightarrow> set_next c x v y = c y" "y \<noteq> x \<Longrightarrow> set_prev c x v y = c y"
  by (simp_all add: set_next_def set_prev_def)

lemma set_links_self: "c x = Some e \<Longrightarrow> set_next c x v x = Some (e\<lparr>enext := v\<rparr>)" "c x = Some e \<Longrightarrow> set_prev c x v x = Some (e\<lparr>eprev := v\<rparr>)"
  by (simp_all add: set_next_def set_prev_def)

lemma hseg_set_next: "hseg c p (xs @ [l]) n \<Longrightarrow> distinct (xs @ [l]) \<Longrightarrow> hseg (set_next c l v) p (xs @ [l]) v"
  by (auto simp: hseg_append set_next_def) (subst hseg_frame; auto)

lemma hseg_set_prev: "hseg c p (h # xs) n \<Longrightarrow> distinct (h # xs) \<Longrightarrow> hseg (set_prev c h v) v (h # xs) n"
  by (auto simp: set_prev_def) (subst hseg_frame; auto)

lemma hseg_set_next_out: "x \<notin> set xs \<Longrightarrow> hseg (set_next c x v) p xs n = hseg c p xs n"
  by (rule hseg_frame) (auto simp: set_next_def)

lemma hseg_set_prev_out: "x \<notin> set xs \<Longrightarrow> hseg (set_prev c x v) p xs n = hseg c p xs n"
  by (rule hseg_frame) (auto simp: set_prev_def)

lemmas set_links_out = hseg_set_next_out hseg_set_prev_out

text \<open>A step of the store on the links of \<open>A\<close>.\<close>

definition link_step :: "ptr set \<Rightarrow> hash_mem \<Rightarrow> hash_mem \<Rightarrow> bool" where
  "link_step A m m' \<longleftrightarrow> hstep A 0 m m' \<and> payload (cells m') = payload (cells m)"

lemma link_step_refl: "wf_heap m \<Longrightarrow> link_step A m m"
  by (simp add: link_step_def hstep_refl)

lemma link_step_trans: "link_step A m m' \<Longrightarrow> link_step B m' m'' \<Longrightarrow> A \<subseteq> C \<Longrightarrow> B \<subseteq> C \<Longrightarrow> link_step C m m''"
  using hstep_trans2 [of A 0 m m' B 0 m'' C 0] by (simp add: link_step_def)

lemma link_step_mono: "link_step A m m' \<Longrightarrow> A \<subseteq> B \<Longrightarrow> link_step B m m'"
  by (auto simp: link_step_def intro: hstep_mono)

lemma modify_next:
  assumes "wf_heap m" "cells m x = Some e"
  obtains m' where "modify m x (\<lambda>x. x\<lparr>enext := v\<rparr>) = Some m'" "cells m' = set_next (cells m) x v" "link_step {x} m m'"
proof -
  obtain m' where m': "modify m x (\<lambda>x. x\<lparr>enext := v\<rparr>) = Some m'" "hstep {x} 0 m m'" "cells m' = (cells m)(x \<mapsto> e\<lparr>enext := v\<rparr>)"
    using modify_ok [OF assms] by metis
  then have "cells m' = set_next (cells m) x v" using assms(2) by (simp add: set_next_def)
  then show ?thesis using that m' payload_links(1) assms(2) by (simp add: link_step_def)
qed

lemma modify_prev:
  assumes "wf_heap m" "cells m x = Some e"
  obtains m' where "modify m x (\<lambda>x. x\<lparr>eprev := v\<rparr>) = Some m'" "cells m' = set_prev (cells m) x v" "link_step {x} m m'"
proof -
  obtain m' where m': "modify m x (\<lambda>x. x\<lparr>eprev := v\<rparr>) = Some m'" "hstep {x} 0 m m'" "cells m' = (cells m)(x \<mapsto> e\<lparr>eprev := v\<rparr>)"
    using modify_ok [OF assms] by metis
  then have "cells m' = set_prev (cells m) x v" using assms(2) by (simp add: set_prev_def)
  then show ?thesis using that m' payload_links(2) assms(2) by (simp add: link_step_def)
qed

lemma modify_links:
  assumes "wf_heap m" "cells m x = Some e"
  obtains m' where "modify m x (\<lambda>x. x\<lparr>enext := v, eprev := w\<rparr>) = Some m'"
    "cells m' = set_prev (set_next (cells m) x v) x w" "link_step {x} m m'"
proof -
  obtain m' where m': "modify m x (\<lambda>x. x\<lparr>enext := v, eprev := w\<rparr>) = Some m'" "hstep {x} 0 m m'"
      "cells m' = (cells m)(x \<mapsto> e\<lparr>enext := v, eprev := w\<rparr>)"
    using modify_ok [OF assms] by metis
  then have "cells m' = set_prev (set_next (cells m) x v) x w" using assms(2) by (simp add: set_prev_def set_next_def)
  then show ?thesis using that m' payload_links assms(2) by (simp add: link_step_def set_links_self)
qed

text \<open>Inserting and removing an element of the list.\<close>

lemma hseg_insert:
  assumes "hseg c 0 (ps @ h # qs) 0" "distinct (ps @ h # qs)" "n \<notin> set (ps @ h # qs)" "c n \<noteq> None"
  shows "hseg (set_prev (if ps = [] then set_prev (set_next c n h) n 0
      else set_next (set_prev (set_next c n h) n (last ps)) (last ps) n) h n) 0 (ps @ n # h # qs) 0"
proof -
  obtain e where e: "c n = Some e" using assms(4) by blast
  show ?thesis
  proof (cases ps rule: rev_cases)
    case Nil
    have "hseg (set_prev (set_prev (set_next c n h) n 0) h n) n (h # qs) 0"
      using assms Nil by (intro hseg_set_prev) (auto simp: set_links_out simp del: hseg.simps)
    then show ?thesis using Nil assms(3) e by (auto simp: set_links_other set_links_self)
  next
    case (snoc ps' l)
    let ?c1 = "set_prev (set_next c n h) n l" let ?c2 = "set_next ?c1 l n"
    have s: "hseg c 0 (ps' @ [l]) h" "hseg c l (h # qs) 0" using assms(1) snoc by (auto simp: hseg_append split: if_splits)
    have d: "distinct (ps' @ [l])" "distinct (h # qs)" "l \<notin> set (h # qs)" "h \<notin> set (ps' @ [l])" "n \<notin> set (ps' @ [l])" "n \<notin> set (h # qs)"
      using assms(2,3) snoc by auto
    have "hseg ?c2 0 (ps' @ [l]) n" using s(1) d by (intro hseg_set_next) (auto simp: set_links_out simp del: hseg.simps)
    then have 1: "hseg (set_prev ?c2 h n) 0 (ps' @ [l]) n" using d by (simp add: set_links_out)
    have 2: "hseg (set_prev ?c2 h n) n (h # qs) 0"
      using s(2) d by (intro hseg_set_prev) (auto simp: set_links_out simp del: hseg.simps)
    have 3: "set_prev ?c2 h n n = Some (e\<lparr>enext := h, eprev := l\<rparr>)"
      using d e by (auto simp: set_links_other set_links_self)
    have "hseg (set_prev ?c2 h n) l (n # h # qs) 0" using 2 3 by (subst hseg.simps(2)) simp
    then have "hseg (set_prev ?c2 h n) 0 ((ps' @ [l]) @ n # h # qs) 0" using 1 by (subst hseg_append) simp
    then show ?thesis using snoc by simp
  qed
qed

lemma hseg_push:
  assumes "hseg c 0 xs 0" "distinct xs" "n \<notin> set xs" "c n \<noteq> None"
  shows "hseg (set_prev (if xs = [] then set_next c n 0 else set_prev (set_next c n (hd xs)) (hd xs) n) n 0) 0 (n # xs) 0"
proof (cases xs)
  case Nil
  then show ?thesis using assms(4) by (auto simp: set_links_self)
next
  case (Cons h qs)
  obtain e where e: "c n = Some e" using assms(4) by blast
  have "hseg (set_prev (set_next c n h) h n) n (h # qs) 0"
    using assms Cons by (intro hseg_set_prev) (auto simp: set_links_out simp del: hseg.simps)
  then have "hseg (set_prev (set_prev (set_next c n h) h n) n 0) n (h # qs) 0"
    using assms Cons by (simp add: set_links_out del: hseg.simps)
  moreover have "set_prev (set_prev (set_next c n h) h n) n 0 n = Some (e\<lparr>enext := h, eprev := 0\<rparr>)"
    using e assms(3) Cons by (auto simp: set_links_other set_links_self)
  ultimately show ?thesis using Cons by auto
qed

lemma hseg_remove:
  assumes "hseg c 0 (ps @ x # qs) 0" "distinct (ps @ x # qs)"
  shows "hseg (let c = (if ps = [] then c else set_next c (last ps) (hd (qs @ [0]))) in
    if qs = [] then c else set_prev c (hd qs) (last (0 # ps))) 0 (ps @ qs) 0"
proof -
  have s: "hseg c 0 ps x" "hseg c x qs 0" using assms(1) by (auto simp: hseg_append)
  define c1 where "c1 = (if ps = [] then c else set_next c (last ps) (hd (qs @ [0])))"
  have 1: "hseg c1 0 ps (hd (qs @ [0])) \<and> hseg c1 x qs 0"
  proof (cases ps rule: rev_cases)
    case Nil
    then show ?thesis using s by (simp add: c1_def)
  next
    case (snoc ps' l)
    then show ?thesis using s assms(2) hseg_set_next [of c 0 ps' l x "hd (qs @ [0])"]
      by (simp add: c1_def set_links_out del: hseg.simps)
  qed
  show ?thesis
  proof (cases qs)
    case Nil
    then show ?thesis using 1 by (simp add: c1_def Let_def)
  next
    case (Cons q qs')
    have "hseg (set_prev c1 q (last (0 # ps))) (last (0 # ps)) qs 0"
      using 1 assms(2) Cons by (simp only: Cons) (intro hseg_set_prev, auto simp del: hseg.simps)
    moreover have "hseg (set_prev c1 q (last (0 # ps))) 0 ps q"
      using 1 assms(2) Cons by (auto simp: set_links_out simp del: hseg.simps)
    ultimately show ?thesis using Cons by (simp add: hseg_append c1_def Let_def del: hseg.simps)
  qed
qed


section \<open>The element list and the buckets\<close>

definition hlist :: "hash_mem \<Rightarrow> Hash \<Rightarrow> ptr list \<Rightarrow> bool" where
  "hlist m pH xs \<longleftrightarrow> wf_heap m \<and> distinct xs \<and> hseg (cells m) 0 xs 0 \<and> first pH = hd (xs @ [0])"

definition buckets :: "(ptr \<Rightarrow> nat) \<Rightarrow> ptr list \<Rightarrow> ht_bucket list \<Rightarrow> bool" where
  "buckets f xs t \<longleftrightarrow> grouped f xs \<and> (\<forall>x \<in> set xs. f x < length t) \<and>
    (\<forall>i < length t. bcount (t ! i) = int (length (filter (\<lambda>x. f x = i) xs)) \<and>
      (filter (\<lambda>x. f x = i) xs \<noteq> [] \<longrightarrow> chain (t ! i) = hd (filter (\<lambda>x. f x = i) xs)))"

lemma hlist_cells: "hlist m pH xs \<Longrightarrow> x \<in> set xs \<Longrightarrow> \<exists>e. cells m x = Some e \<and> load m x = Some e \<and> x \<noteq> 0"
  using hseg_cells [of "cells m" 0 xs 0 x] by (cases "x = 0") (auto simp: hlist_def load_cells wf_heap_NULL)

lemma dropWhile_hd: "i \<in> f ` set xs \<Longrightarrow> \<exists>qs. dropWhile (\<lambda>x. f x \<noteq> i) xs = hd (filter (\<lambda>x. f x = i) xs) # qs"
  by (induction xs) auto

lemma buckets_insert:
  assumes "buckets f xs t" "f n < length t"
  shows "buckets f (group_insert f n xs) (t[f n := \<lparr>bcount = bcount (t ! f n) + 1, chain = n\<rparr>])"
proof -
  have "grouped f (group_insert f n xs)" using assms(1) by (simp add: buckets_def grouped_group_insert)
  then show ?thesis using assms by (auto simp: buckets_def filter_group_insert nth_list_update)
qed

lemma push_steps:
  assumes l: "hlist m pH xs" and n: "n \<notin> set xs" "cells m n = Some en"
  shows "\<exists>m3. do { m \<leftarrow> modify m n (\<lambda>x. x\<lparr>enext := first pH\<rparr>);
        m \<leftarrow> (if first pH \<noteq> NULL then modify m (first pH) (\<lambda>x. x\<lparr>eprev := n\<rparr>) else Some m);
        modify m n (\<lambda>x. x\<lparr>eprev := NULL\<rparr>) } = Some m3 \<and> hseg (cells m3) 0 (n # xs) 0 \<and> link_step (insert n (set xs)) m m3"
proof -
  have wf: "wf_heap m" and hs: "hseg (cells m) 0 xs 0" and d: "distinct xs" and fi: "first pH = hd (xs @ [0])"
    using l by (auto simp: hlist_def)
  obtain m1 where m1: "modify m n (\<lambda>x. x\<lparr>enext := first pH\<rparr>) = Some m1" "cells m1 = set_next (cells m) n (first pH)" "link_step {n} m m1"
    using modify_next [OF wf n(2)] by metis
  have wf1: "wf_heap m1" using m1(3) by (auto simp: link_step_def dest: hstep_wf)
  obtain m2 where m2: "(if first pH \<noteq> NULL then modify m1 (first pH) (\<lambda>x. x\<lparr>eprev := n\<rparr>) else Some m1) = Some m2"
    "cells m2 = (if xs = [] then cells m1 else set_prev (cells m1) (hd xs) n)" "link_step (set xs) m1 m2"
  proof (cases xs)
    case Nil
    then show ?thesis using that [of m1] fi link_step_refl [OF wf1] by simp
  next
    case (Cons h qs)
    obtain e where e: "cells m h = Some e" "h \<noteq> 0" using hlist_cells [OF l, of h] Cons by auto
    then have "cells m1 h = Some e" using m1(2) n(1) Cons by (auto simp: set_links_other)
    then obtain m2 where "modify m1 h (\<lambda>x. x\<lparr>eprev := n\<rparr>) = Some m2" "cells m2 = set_prev (cells m1) h n" "link_step {h} m1 m2"
      using modify_prev [OF wf1] by metis
    then show ?thesis using that [of m2] fi Cons e(2) by (auto simp: link_step_mono)
  qed
  have wf2: "wf_heap m2" using m2(3) by (auto simp: link_step_def dest: hstep_wf)
  have "\<exists>e. cells m2 n = Some e"
    using m2(2) m1(2) n by (cases xs) (auto simp: set_links_self set_links_other)
  then obtain m3 where m3: "modify m2 n (\<lambda>x. x\<lparr>eprev := NULL\<rparr>) = Some m3" "cells m3 = set_prev (cells m2) n 0" "link_step {n} m2 m3"
    using modify_prev [OF wf2] by metis
  have "hseg (cells m3) 0 (n # xs) 0"
    using hseg_push [OF hs d n(1)] n(2) fi unfolding m3(2) m2(2) m1(2) by (cases xs) (auto simp del: hseg.simps)
  moreover have "link_step (insert n (set xs)) m m3"
  proof -
    have "link_step (insert n (set xs)) m m2" by (rule link_step_trans [OF m1(3) m2(3)]) auto
    then show ?thesis by (rule link_step_trans [OF _ m3(3)]) auto
  qed
  ultimately show ?thesis using m1(1) m2(1) m3(1) by auto
qed

lemma insert_bucket:
  assumes l: "hlist m pH xs" and n: "n \<notin> set xs" "cells m n = Some en" and t: "ht pH = Some t" "f n < length t" "buckets f xs t"
  shows "\<exists>m' pH'. insertElement m pH (Some (f n)) n = Some (m', pH') \<and>
    pH' = pH\<lparr>first := hd (group_insert f n xs), ht := Some (t[f n := \<lparr>bcount = bcount (t ! f n) + 1, chain = n\<rparr>])\<rparr> \<and>
    hlist m' pH' (group_insert f n xs) \<and> link_step (insert n (set xs)) m m'"
proof -
  let ?i = "f n" let ?F = "filter (\<lambda>x. f x = ?i) xs"
  define t' where "t' = t[?i := \<lparr>bcount = bcount (t ! ?i) + 1, chain = n\<rparr>]"
  have wf: "wf_heap m" and hs: "hseg (cells m) 0 xs 0" and d: "distinct xs" and fi: "first pH = hd (xs @ [0])"
    using l by (auto simp: hlist_def)
  have b: "nth_opt t ?i = Some (t ! ?i)" using t(2) by (simp add: nth_opt_def)
  have bc: "bcount (t ! ?i) \<noteq> 0 \<longleftrightarrow> ?F \<noteq> []" "?F \<noteq> [] \<Longrightarrow> chain (t ! ?i) = hd ?F" using t by (auto simp: buckets_def)
  show ?thesis
  proof (cases "?i \<in> f ` set xs")
    case True
    define ps where "ps = takeWhile (\<lambda>x. f x \<noteq> ?i) xs"
    obtain qs where q: "dropWhile (\<lambda>x. f x \<noteq> ?i) xs = hd ?F # qs" using dropWhile_hd [OF True] by blast
    define h where "h = hd ?F"
    have xs: "xs = ps @ h # qs" using q ps_def h_def by (metis takeWhile_dropWhile_id)
    have gi: "group_insert f n xs = ps @ n # h # qs" using True q by (simp add: group_insert_def ps_def h_def)
    have F: "?F \<noteq> []" using True by (auto simp: filter_empty_conv)
    obtain e where e: "cells m h = Some e" "load m h = Some e" "h \<noteq> 0" using hlist_cells [OF l, of h] xs by auto
    have ep: "eprev e = last (0 # ps)" using hs e(1) xs by (auto simp: hseg_append)
    obtain m1 where m1: "modify m n (\<lambda>x. x\<lparr>enext := h, eprev := eprev e\<rparr>) = Some m1"
        "cells m1 = set_prev (set_next (cells m) n h) n (eprev e)" "link_step {n} m m1"
      using modify_links [OF wf n(2)] by metis
    have wf1: "wf_heap m1" using m1(3) by (auto simp: link_step_def dest: hstep_wf)
    define pH1 where "pH1 = pH\<lparr>ht := Some t'\<rparr>"
    obtain m2 where m2: "(if eprev e \<noteq> NULL then do { m \<leftarrow> modify m1 (eprev e) (\<lambda>x. x\<lparr>enext := n\<rparr>); Some (m, pH1) }
          else Some (m1, pH1\<lparr>first := n\<rparr>)) = Some (m2, pH1\<lparr>first := hd (ps @ [n])\<rparr>)"
        "cells m2 = (if ps = [] then cells m1 else set_next (cells m1) (last ps) n)" "link_step (set ps) m1 m2"
    proof (cases ps rule: rev_cases)
      case Nil
      then show ?thesis using that [of m1] ep link_step_refl [OF wf1] by simp
    next
      case (snoc ps' a)
      then have a: "a \<in> set xs" "eprev e = a" "a \<noteq> n" using xs ep n(1) by auto
      obtain ea where ea: "cells m a = Some ea" "a \<noteq> 0" using hlist_cells [OF l a(1)] by auto
      then have "cells m1 a = Some ea" using m1(2) a(3) by (simp add: set_links_other)
      then obtain m2 where "modify m1 a (\<lambda>x. x\<lparr>enext := n\<rparr>) = Some m2" "cells m2 = set_next (cells m1) a n" "link_step {a} m1 m2"
        using modify_next [OF wf1] by metis
      moreover have "first pH1 = hd (ps @ [n])" using fi xs snoc by (cases ps') (simp_all add: pH1_def)
      then have "pH1\<lparr>first := hd (ps @ [n])\<rparr> = pH1" by simp
      ultimately show ?thesis using that [of m2] a(2) ea(2) snoc by (auto simp: link_step_mono)
    qed
    have wf2: "wf_heap m2" using m2(3) by (auto simp: link_step_def dest: hstep_wf)
    have "h \<notin> set ps" "h \<noteq> n" using d xs n(1) by auto
    moreover from this have "ps \<noteq> [] \<Longrightarrow> last ps \<noteq> h" by (metis last_in_set)
    ultimately have "cells m2 h = Some e" using m2(2) m1(2) e(1) by (auto simp: set_links_other)
    then obtain m3 where m3: "modify m2 h (\<lambda>x. x\<lparr>eprev := n\<rparr>) = Some m3" "cells m3 = set_prev (cells m2) h n" "link_step {h} m2 m3"
      using modify_prev [OF wf2] by metis
    have "insertElement m pH (Some ?i) n = Some (m3, pH1\<lparr>first := hd (ps @ [n])\<rparr>)"
      using t(1) b bc F e m1(1) m2(1) m3(1) unfolding insertElement_def
      by (simp add: h_def [symmetric] pH1_def [symmetric] t'_def [symmetric])
    moreover have "hseg (cells m3) 0 (ps @ n # h # qs) 0"
      using hseg_insert [of "cells m" ps h qs n] hs d n xs ep unfolding m3(2) m2(2) m1(2) by (auto split: if_splits)
    moreover have "link_step (insert n (set xs)) m m3"
    proof -
      have "link_step (insert n (set ps)) m m2" by (rule link_step_trans [OF m1(3) m2(3)]) auto
      then show ?thesis by (rule link_step_trans [OF _ m3(3)]) (auto simp: xs)
    qed
    moreover from this have "wf_heap m3" by (auto simp: link_step_def dest: hstep_wf)
    ultimately show ?thesis using d n(1) xs gi
      by (intro exI [of _ m3] exI [of _ "pH1\<lparr>first := hd (ps @ [n])\<rparr>"])
        (auto simp: hlist_def pH1_def t'_def hd_append)
  next
    case False
    then have F: "?F = []" by (simp add: filter_empty_conv) (metis imageI)
    have gi: "group_insert f n xs = n # xs" using False by (simp add: group_insert_def)
    define pH1 where "pH1 = pH\<lparr>ht := Some t'\<rparr>"
    obtain m3 where m3: "do { m \<leftarrow> modify m n (\<lambda>x. x\<lparr>enext := first pH\<rparr>);
        m \<leftarrow> (if first pH \<noteq> NULL then modify m (first pH) (\<lambda>x. x\<lparr>eprev := n\<rparr>) else Some m);
        modify m n (\<lambda>x. x\<lparr>eprev := NULL\<rparr>) } = Some m3" "hseg (cells m3) 0 (n # xs) 0" "link_step (insert n (set xs)) m m3"
      using push_steps [OF l n] by blast
    then have "insertElement m pH (Some ?i) n = Some (m3, pH1\<lparr>first := n\<rparr>)"
      using t(1) b bc F unfolding insertElement_def
      by (auto simp: pH1_def t'_def bind_eq_Some_conv)
    moreover have "wf_heap m3" using m3(3) by (auto simp: link_step_def dest: hstep_wf)
    ultimately show ?thesis using d n(1) gi m3(2,3)
      by (intro exI [of _ m3] exI [of _ "pH1\<lparr>first := n\<rparr>"]) (auto simp: hlist_def pH1_def t'_def simp del: hseg.simps)
  qed
qed


lemma insert_plain:
  assumes l: "hlist m pH xs" and n: "n \<notin> set xs" "cells m n = Some en"
  shows "\<exists>m'. insertElement m pH None n = Some (m', pH\<lparr>first := n\<rparr>) \<and> hlist m' (pH\<lparr>first := n\<rparr>) (n # xs) \<and>
    link_step (insert n (set xs)) m m'"
proof -
  obtain m' where m': "do { m \<leftarrow> modify m n (\<lambda>x. x\<lparr>enext := first pH\<rparr>);
        m \<leftarrow> (if first pH \<noteq> NULL then modify m (first pH) (\<lambda>x. x\<lparr>eprev := n\<rparr>) else Some m);
        modify m n (\<lambda>x. x\<lparr>eprev := NULL\<rparr>) } = Some m'" "hseg (cells m') 0 (n # xs) 0" "link_step (insert n (set xs)) m m'"
    using push_steps [OF l n] by blast
  have "insertElement m pH None n = Some (m', pH\<lparr>first := n\<rparr>)"
    using m'(1) unfolding insertElement_def by (auto simp: bind_eq_Some_conv)
  moreover have "wf_heap m'" using m'(3) by (auto simp: link_step_def dest: hstep_wf)
  ultimately show ?thesis using m' l n(1) by (auto simp: hlist_def simp del: hseg.simps)
qed

section \<open>The invariant\<close>

type_synonym payloads = "ptr \<Rightarrow> (u8 list \<times> ptr) option"

definition xkey :: "payloads \<Rightarrow> ptr \<Rightarrow> u8 list" where
  "xkey P x = fkey (fst (the (P x)))"

definition xdata :: "payloads \<Rightarrow> ptr \<Rightarrow> ptr" where
  "xdata P x = snd (the (P x))"

definition bix :: "u32 \<Rightarrow> payloads \<Rightarrow> ptr \<Rightarrow> nat" where
  "bix sz P x = unat (key_hash (xkey P x) mod sz)"

definition good :: "payloads \<Rightarrow> ptr set \<Rightarrow> bool" where
  "good P X \<longleftrightarrow> (\<forall>x \<in> X. \<exists>z d. P x = Some (z, d) \<and> 0 \<in> set z \<and> d \<noteq> 0) \<and> inj_on (xkey P) X"

definition table_ok :: "payloads \<Rightarrow> Hash \<Rightarrow> ptr list \<Rightarrow> bool" where
  "table_ok P pH xs \<longleftrightarrow> (case ht pH of None \<Rightarrow> htsize pH = 0
    | Some t \<Rightarrow> htsize pH = word_of_nat (length t) \<and> 0 < length t \<and> length t < 2 ^ 28 \<and> buckets (bix (htsize pH) P) xs t)"

definition hash_ok :: "hash_mem \<Rightarrow> Hash \<Rightarrow> ptr list \<Rightarrow> bool" where
  "hash_ok m pH xs \<longleftrightarrow> hlist m pH xs \<and> unat (hcount pH) = length xs \<and> good (payload (cells m)) (set xs) \<and>
    table_ok (payload (cells m)) pH xs"

lemma grouped_cong: "\<forall>x \<in> set xs. f x = g x \<Longrightarrow> grouped f xs = grouped g xs"
proof (induction xs)
  case (Cons x xs)
  have "f ` set xs = g ` set xs" using Cons.prems by auto
  moreover have "xs \<noteq> [] \<Longrightarrow> f (hd xs) = g (hd xs)" using Cons.prems by auto
  ultimately show ?case using Cons by (cases xs) auto
qed simp

lemma filter_hash_cong: "\<forall>x \<in> set xs. f x = g x \<Longrightarrow> filter (\<lambda>x. f x = i) xs = filter (\<lambda>x. g x = i) xs"
  by (rule filter_cong) auto

lemma buckets_cong: "\<forall>x \<in> set xs. f x = g x \<Longrightarrow> buckets f xs t = buckets g xs t"
  by (simp add: buckets_def grouped_cong [of xs f g] filter_hash_cong [of xs f g])

lemma table_ok_cong:
  assumes "\<forall>x \<in> set xs. P' x = P x" "ht pH' = ht pH" "htsize pH' = htsize pH"
  shows "table_ok P' pH' xs = table_ok P pH xs"
proof -
  have "\<forall>x \<in> set xs. bix (htsize pH) P' x = bix (htsize pH) P x" using assms(1) by (simp add: bix_def xkey_def)
  then show ?thesis using assms(2,3) buckets_cong [of xs "bix (htsize pH) P'" "bix (htsize pH) P"]
    by (simp add: table_ok_def split: option.splits)
qed

lemma good_cong: "\<forall>x \<in> X. P' x = P x \<Longrightarrow> good P' X = good P X"
proof -
  assume a: "\<forall>x \<in> X. P' x = P x"
  then have "inj_on (xkey P') X = inj_on (xkey P) X" by (intro inj_on_cong) (simp add: xkey_def)
  then show ?thesis using a by (simp add: good_def)
qed

lemma good_subset: "good P X \<Longrightarrow> Y \<subseteq> X \<Longrightarrow> good P Y"
  by (auto simp: good_def intro: inj_on_subset)

lemma size_word: "n < 2 ^ 28 \<Longrightarrow> unat (word_of_nat n :: u32) = n"
  by (simp add: unsigned_of_nat take_bit_nat_eq_self)

lemma bix_less: "0 < n \<Longrightarrow> n < 2 ^ 28 \<Longrightarrow> bix (word_of_nat n) P x < n"
  using size_word [of n] by (simp add: bix_def unat_mod)

lemma bucket_of_key:
  assumes "0 \<in> set key" "htsize pH = word_of_nat n" "0 < n" "n < 2 ^ 28"
  shows "bucket_of pH key = Some (key_hash (fkey key) mod htsize pH)" "unat (key_hash (fkey key) mod htsize pH) < n"
proof -
  have "htsize pH \<noteq> 0" using assms size_word [of n] by auto
  then show "bucket_of pH key = Some (key_hash (fkey key) mod htsize pH)" using assms(1) by (simp add: bucket_of_def strHash_fkey)
  show "unat (key_hash (fkey key) mod htsize pH) < n" using assms size_word [of n] by (simp add: unat_mod)
qed

lemma buckets_empty: "buckets f [] (replicate n \<lparr>bcount = 0, chain = c\<rparr>)"
  by (simp add: buckets_def)

section \<open>Finding\<close>

lemma find_loop:
  assumes "wf_heap m" "hseg (cells m) p ys n" "good (payload (cells m)) (set ys)" "0 \<in> set key"
  shows "hash_find_loop m key (length ys) (hd (ys @ [n])) =
    Some (hd (filter (\<lambda>x. xkey (payload (cells m)) x = fkey key) ys @ [0]))"
  using assms(2,3)
proof (induction ys arbitrary: p)
  case (Cons y ys)
  obtain e where e: "cells m y = Some e" "enext e = hd (ys @ [n])" "hseg (cells m) y ys n" using Cons.prems(1) by auto
  have g: "0 \<in> set (pKey e)" using Cons.prems(2) e(1) by (auto simp: good_def payload_def)
  obtain c where c: "sqlite3StrICmp (pKey e) key = Some c" "c = 0 \<longleftrightarrow> fkey (pKey e) = fkey key"
    using StrICmp_fkey [OF g assms(4)] by blast
  have k: "xkey (payload (cells m)) y = fkey (pKey e)" using e(1) by (simp add: xkey_def payload_def)
  have "good (payload (cells m)) (set ys)" using Cons.prems(2) by (simp add: good_def)
  then show ?case using Cons.IH [OF e(3)] e c k assms(1) by (simp add: load_cells)
qed simp

lemma find_ok:
  assumes ok: "hash_ok m pH xs" and key: "0 \<in> set key"
  shows "\<exists>h. findElementWithHash m pH key = Some (hd (filter (\<lambda>x. xkey (payload (cells m)) x = fkey key) xs @ [0]), h) \<and>
    (\<forall>t. ht pH = Some t \<longrightarrow> bucket_of pH key = Some h \<and> unat h < length t \<and> h = key_hash (fkey key) mod htsize pH)"
proof -
  let ?P = "payload (cells m)"
  have l: "hlist m pH xs" "unat (hcount pH) = length xs" "good ?P (set xs)" "table_ok ?P pH xs" using ok by (auto simp: hash_ok_def)
  have wf: "wf_heap m" and hs: "hseg (cells m) 0 xs 0" and fi: "first pH = hd (xs @ [0])" using l(1) by (auto simp: hlist_def)
  show ?thesis
  proof (cases "ht pH")
    case None
    then show ?thesis using find_loop [OF wf hs l(3) key] fi l(2) by (simp add: findElementWithHash_def)
  next
    case (Some t)
    then have t: "htsize pH = word_of_nat (length t)" "0 < length t" "length t < 2 ^ 28" "buckets (bix (htsize pH) ?P) xs t"
      using l(4) by (auto simp: table_ok_def)
    note b = bucket_of_key [OF key t(1-3)]
    define i where "i = unat (key_hash (fkey key) mod htsize pH)"
    define F where "F = filter (\<lambda>x. bix (htsize pH) ?P x = i) xs"
    have g: "grouped (bix (htsize pH) ?P) xs" "bcount (t ! i) = int (length F)" "F \<noteq> [] \<Longrightarrow> chain (t ! i) = hd F"
      using t(4) b(2) by (auto simp: buckets_def F_def i_def)
    obtain as cs where x: "xs = as @ F @ cs" using grouped_split [OF g(1), of i] F_def by metis
    then have hF: "hseg (cells m) (last (0 # as)) F (hd (cs @ [0]))" using hs by (simp add: hseg_append)
    have "good ?P (set F)" using l(3) by (auto simp: good_def F_def intro: inj_on_subset)
    then have "hash_find_loop m key (length F) (hd (F @ [hd (cs @ [0])])) = Some (hd (filter (\<lambda>x. xkey ?P x = fkey key) F @ [0]))"
      by (rule find_loop [OF wf hF _ key])
    moreover have "hash_find_loop m key (length F) (chain (t ! i)) = hash_find_loop m key (length F) (hd (F @ [hd (cs @ [0])]))"
      using g(3) by (cases F) simp_all
    moreover have "filter (\<lambda>x. xkey ?P x = fkey key) F = filter (\<lambda>x. xkey ?P x = fkey key) xs"
      by (auto simp: F_def i_def bix_def intro!: filter_cong)
    ultimately show ?thesis using Some b g(2) by (auto simp: findElementWithHash_def nth_opt_def i_def)
  qed
qed

section \<open>Rehashing\<close>

lemma rehash_loop_ok:
  assumes "hlist m pH xs" "hseg (cells m) p ys 0" "distinct (xs @ ys)" "\<forall>y \<in> set ys. \<exists>z d. payload (cells m) y = Some (z, d) \<and> 0 \<in> set z"
    "ht pH = Some t" "htsize pH = word_of_nat (length t)" "0 < length t" "length t < 2 ^ 28" "buckets (bix (htsize pH) (payload (cells m))) xs t"
  shows "\<exists>m' pH' zs t'. rehash_loop m pH (hd (ys @ [0])) = Some (m', pH') \<and> hlist m' pH' zs \<and> set zs = set xs \<union> set ys \<and>
    length zs = length xs + length ys \<and> link_step (set xs \<union> set ys) m m' \<and> ht pH' = Some t' \<and> length t' = length t \<and>
    htsize pH' = htsize pH \<and> hcount pH' = hcount pH \<and> buckets (bix (htsize pH) (payload (cells m))) zs t'"
  using assms
proof (induction ys arbitrary: m pH xs p t)
  case Nil
  then have "wf_heap m" by (simp add: hlist_def)
  then show ?case using Nil by (subst rehash_loop.simps) (auto intro: link_step_refl)
next
  case (Cons y ys)
  let ?P = "payload (cells m)"
  have wf: "wf_heap m" using Cons.prems(1) by (simp add: hlist_def)
  obtain e where e: "cells m y = Some e" "enext e = hd (ys @ [0])" "hseg (cells m) y ys 0" using Cons.prems(2) by auto
  have y0: "y \<noteq> 0" using wf_heap_NULL [OF wf] e(1) by (cases "y = 0") auto
  have k: "0 \<in> set (pKey e)" "xkey ?P y = fkey (pKey e)" using Cons.prems(4) e(1) by (auto simp: payload_def xkey_def)
  define i where "i = bix (htsize pH) ?P y"
  have b: "bucket_of pH (pKey e) = Some (key_hash (fkey (pKey e)) mod htsize pH)" "unat (key_hash (fkey (pKey e)) mod htsize pH) = i" "i < length t"
    using bucket_of_key [OF k(1) Cons.prems(6-8)] k(2) by (simp_all add: i_def bix_def)
  have y: "y \<notin> set xs" using Cons.prems(3) by auto
  obtain m1 pH1 where 1: "insertElement m pH (Some i) y = Some (m1, pH1)"
      "pH1 = pH\<lparr>first := hd (group_insert (bix (htsize pH) ?P) y xs), ht := Some (t[i := \<lparr>bcount = bcount (t ! i) + 1, chain = y\<rparr>])\<rparr>"
      "hlist m1 pH1 (group_insert (bix (htsize pH) ?P) y xs)" "link_step (insert y (set xs)) m m1"
    using insert_bucket [OF Cons.prems(1) y e(1) Cons.prems(5) b(3) [unfolded i_def] Cons.prems(9)] unfolding i_def by metis
  have P1: "payload (cells m1) = ?P" and fr: "\<forall>a. a \<notin> insert y (set xs) \<longrightarrow> cells m1 a = cells m a"
    using 1(4) by (auto simp: link_step_def hstep_def)
  have "hseg (cells m1) y ys 0"
    using e(3) fr Cons.prems(3) by (subst hseg_frame [of ys "cells m1" "cells m"]) auto
  moreover have "distinct (group_insert (bix (htsize pH) ?P) y xs @ ys)"
    using distinct_group_insert [of xs y] Cons.prems(3) y by auto
  moreover have "buckets (bix (htsize pH1) (payload (cells m1))) (group_insert (bix (htsize pH) ?P) y xs) (t[i := \<lparr>bcount = bcount (t ! i) + 1, chain = y\<rparr>])"
    using buckets_insert [OF Cons.prems(9) b(3) [unfolded i_def]] P1 1(2) by (simp add: i_def)
  ultimately obtain m' pH' zs t' where r: "rehash_loop m1 pH1 (hd (ys @ [0])) = Some (m', pH')" "hlist m' pH' zs"
      "set zs = insert y (set xs) \<union> set ys" "length zs = Suc (length xs) + length ys" "link_step (insert y (set xs) \<union> set ys) m1 m'"
      "ht pH' = Some t'" "length t' = length t" "htsize pH' = htsize pH1" "hcount pH' = hcount pH1"
      "buckets (bix (htsize pH1) (payload (cells m1))) zs t'"
    using Cons.IH [OF 1(3), of y "t[i := \<lparr>bcount = bcount (t ! i) + 1, chain = y\<rparr>]"] Cons.prems(4,6,7,8) P1 1(2)
    by (auto simp del: hseg.simps)
  have "rehash_loop m pH (hd ((y # ys) @ [0])) = Some (m', pH')"
    using y0 e b 1(1) r(1) wf by (subst rehash_loop.simps) (simp add: load_cells)
  moreover have "link_step (set xs \<union> set (y # ys)) m m'"
    by (rule link_step_trans [OF 1(4) r(5)]) auto
  ultimately show ?case using r P1 1(2)
    by (intro exI [of _ m'] exI [of _ pH'] exI [of _ zs] exI [of _ t']) auto
qed


section \<open>Removing\<close>

lemma buckets_remove:
  assumes b: "buckets f (ps @ x # qs) t" and d: "distinct (ps @ x # qs)" and n: "qs \<noteq> [] \<Longrightarrow> n = hd qs"
  shows "buckets f (ps @ qs) (t[f x := \<lparr>bcount = bcount (t ! f x) - 1, chain = (if chain (t ! f x) = x then n else chain (t ! f x))\<rparr>])"
proof -
  have g: "grouped f (ps @ x # qs)" "f x < length t" and
    c: "\<And>i. i < length t \<Longrightarrow> bcount (t ! i) = int (length (filter (\<lambda>x. f x = i) (ps @ x # qs))) \<and>
      (filter (\<lambda>x. f x = i) (ps @ x # qs) \<noteq> [] \<longrightarrow> chain (t ! i) = hd (filter (\<lambda>x. f x = i) (ps @ x # qs)))"
    using b by (simp_all add: buckets_def)
  have "grouped f (x # qs)" using g(1) by (induction ps) auto
  then have h: "f x \<in> f ` set qs \<Longrightarrow> f (hd qs) = f x" by simp
  have "filter (\<lambda>y. f y = f x) (ps @ qs) \<noteq> [] \<Longrightarrow>
      (if chain (t ! f x) = x then n else chain (t ! f x)) = hd (filter (\<lambda>y. f y = f x) (ps @ qs))"
  proof (cases "filter (\<lambda>y. f y = f x) ps")
    case Nil
    then have ch: "chain (t ! f x) = x" using c [OF g(2)] by simp
    assume "filter (\<lambda>y. f y = f x) (ps @ qs) \<noteq> []"
    then have q: "filter (\<lambda>y. f y = f x) qs \<noteq> []" using Nil by simp
    then obtain z where "z \<in> set qs" "f z = f x" by (auto simp: filter_empty_conv)
    then have fx: "f x \<in> f ` set qs" by (metis imageI)
    then have "qs \<noteq> []" "f (hd qs) = f x" using h by auto
    then have "hd (filter (\<lambda>y. f y = f x) qs) = hd qs" by (cases qs) simp_all
    then show ?thesis using ch n Nil \<open>qs \<noteq> []\<close> by simp
  next
    case (Cons z zs)
    then have "z \<in> set (filter (\<lambda>y. f y = f x) ps)" by simp
    then have "z \<in> set ps" by simp
    then have "z \<noteq> x" using d by auto
    then show ?thesis using c [OF g(2)] Cons by simp
  qed
  then show ?thesis
    using b grouped_remove [OF g(1)] c by (auto simp: buckets_def nth_list_update)
qed

lemma hash_clear_loop_ok:
  assumes "wf_heap m" "hseg (cells m) p xs 0" "distinct xs"
  shows "\<exists>m'. hash_clear_loop m (hd (xs @ [0])) = Some m' \<and> hstep (set xs) 0 m m' \<and> (\<forall>x \<in> set xs. cells m' x = None)"
  using assms
proof (induction xs arbitrary: m p)
  case Nil
  then show ?case by (subst hash_clear_loop.simps) (simp add: hstep_refl)
next
  case (Cons x xs)
  obtain e where e: "cells m x = Some e" "enext e = hd (xs @ [0])" "hseg (cells m) x xs 0" using Cons.prems(2) by auto
  have x0: "x \<noteq> 0" using wf_heap_NULL [OF Cons.prems(1)] e(1) by (cases "x = 0") auto
  obtain m1 where m1: "dealloc m x = Some m1" "hstep {x} 0 m m1" "cells m1 = (cells m)(x := None)"
    using dealloc_ok [OF Cons.prems(1) e(1)] by metis
  have "hseg (cells m1) x xs 0" using e(3) m1(3) Cons.prems(3) by (subst hseg_frame [of xs "cells m1" "cells m"]) auto
  then obtain m' where m': "hash_clear_loop m1 (hd (xs @ [0])) = Some m'" "hstep (set xs) 0 m1 m'" "\<forall>x \<in> set xs. cells m' x = None"
    using Cons.IH [OF hstep_wf [OF m1(2)]] Cons.prems(3) by auto
  have "hash_clear_loop m (hd ((x # xs) @ [0])) = Some m'"
    using x0 e m1(1) m'(1) Cons.prems(1) by (subst hash_clear_loop.simps) (simp add: load_cells)
  moreover have "hstep (set (x # xs)) 0 m m'" by (rule hstep_trans2 [OF m1(2) m'(2)]) auto
  moreover have "cells m' x = None" using hstep_cells [OF m'(2), of x] m1(3) Cons.prems(3) by simp
  ultimately show ?case using m'(3) by auto
qed

lemma clear_ok:
  assumes "hlist m pH xs"
  shows "\<exists>m'. sqlite3HashClear m pH = Some (m', sqlite3HashInit) \<and> hstep (set xs) 0 m m' \<and> (\<forall>x \<in> set xs. cells m' x = None)"
  using hash_clear_loop_ok [of m 0 xs] assms by (auto simp: hlist_def sqlite3HashClear_def sqlite3HashInit_def)

lemma hash_ok_init: "wf_heap m \<Longrightarrow> hash_ok m sqlite3HashInit []"
  by (simp add: hash_ok_def hlist_def sqlite3HashInit_def good_def table_ok_def)

lemma unlink_steps:
  assumes l: "hlist m pH (ps @ x # qs)"
  shows "\<exists>e m2. load m x = Some e \<and> enext e = hd (qs @ [0]) \<and>
    do { (m, pH) \<leftarrow> (if eprev e \<noteq> NULL then do { m \<leftarrow> modify m (eprev e) (\<lambda>x. x\<lparr>enext := enext e\<rparr>); Some (m, pH) }
                 else Some (m, pH\<lparr>first := enext e\<rparr>));
         m \<leftarrow> (if enext e \<noteq> NULL then modify m (enext e) (\<lambda>x. x\<lparr>eprev := eprev e\<rparr>) else Some m);
         Some (m, pH) } = Some (m2, pH\<lparr>first := hd (ps @ qs @ [0])\<rparr>) \<and>
    hseg (cells m2) 0 (ps @ qs) 0 \<and> link_step (set ps \<union> set qs) m m2"
proof -
  have wf: "wf_heap m" and hs: "hseg (cells m) 0 (ps @ x # qs) 0" and d: "distinct (ps @ x # qs)" and fi: "first pH = hd (ps @ x # qs)"
    using l by (auto simp: hlist_def hd_append)
  obtain e where e: "cells m x = Some e" "eprev e = last (0 # ps)" "enext e = hd (qs @ [0])" using hs by (auto simp: hseg_append)
  obtain m1 where m1: "(if eprev e \<noteq> NULL then do { m \<leftarrow> modify m (eprev e) (\<lambda>x. x\<lparr>enext := enext e\<rparr>); Some (m, pH) }
        else Some (m, pH\<lparr>first := enext e\<rparr>)) = Some (m1, pH\<lparr>first := hd (ps @ qs @ [0])\<rparr>)"
      "cells m1 = (if ps = [] then cells m else set_next (cells m) (last ps) (hd (qs @ [0])))" "link_step (set ps) m m1"
  proof (cases ps rule: rev_cases)
    case Nil
    then show ?thesis using that [of m] e link_step_refl [OF wf] by simp
  next
    case (snoc ps' a)
    then have a: "a \<in> set (ps @ x # qs)" "eprev e = a" using e(2) by auto
    obtain ea where ea: "cells m a = Some ea" "a \<noteq> 0" using hlist_cells [OF l a(1)] by auto
    then obtain m1 where "modify m a (\<lambda>x. x\<lparr>enext := enext e\<rparr>) = Some m1" "cells m1 = set_next (cells m) a (enext e)" "link_step {a} m m1"
      using modify_next [OF wf] by metis
    moreover have "first pH = hd (ps @ qs @ [0])" using fi snoc by (cases ps') simp_all
    then have "pH\<lparr>first := hd (ps @ qs @ [0])\<rparr> = pH" by simp
    ultimately show ?thesis using that [of m1] a(2) ea(2) e(3) snoc by (auto simp: link_step_mono)
  qed
  have wf1: "wf_heap m1" using m1(3) by (auto simp: link_step_def dest: hstep_wf)
  obtain m2 where m2: "(if enext e \<noteq> NULL then modify m1 (enext e) (\<lambda>x. x\<lparr>eprev := eprev e\<rparr>) else Some m1) = Some m2"
    "cells m2 = (if qs = [] then cells m1 else set_prev (cells m1) (hd qs) (last (0 # ps)))" "link_step (set qs) m1 m2"
  proof (cases qs)
    case Nil
    then show ?thesis using that [of m1] e link_step_refl [OF wf1] by simp
  next
    case (Cons q r)
    obtain eq where q: "cells m q = Some eq" "q \<noteq> 0" using hlist_cells [OF l, of q] Cons by auto
    have "q \<notin> set ps" using d Cons by auto
    then have "ps \<noteq> [] \<Longrightarrow> last ps \<noteq> q" by (metis last_in_set)
    then have "cells m1 q = Some eq" using m1(2) q(1) by (auto simp: set_links_other)
    then obtain m2 where "modify m1 q (\<lambda>x. x\<lparr>eprev := eprev e\<rparr>) = Some m2" "cells m2 = set_prev (cells m1) q (eprev e)" "link_step {q} m1 m2"
      using modify_prev [OF wf1] by metis
    then show ?thesis using that [of m2] e q(2) Cons by (auto simp: link_step_mono)
  qed
  have "hseg (cells m2) 0 (ps @ qs) 0"
    using hseg_remove [OF hs d, unfolded Let_def] unfolding m2(2) m1(2) .
  moreover have "link_step (set ps \<union> set qs) m m2" by (rule link_step_trans [OF m1(3) m2(3)]) auto
  moreover have "load m x = Some e" using e(1) wf by (simp add: load_cells)
  ultimately show ?thesis using e(3) m1(1) m2(1) by auto
qed

lemma remove_ok:
  assumes ok: "hash_ok m pH xs" and x: "x \<in> set xs"
    and h: "\<And>t. ht pH = Some t \<Longrightarrow> unat h = bix (htsize pH) (payload (cells m)) x"
  shows "\<exists>m' pH' ys. removeElementGivenHash m pH x h = Some (m', pH') \<and> hash_ok m' pH' ys \<and> set ys = set xs - {x} \<and>
    (\<forall>y. y \<noteq> x \<longrightarrow> payload (cells m') y = payload (cells m) y) \<and> hstep (set xs) 0 m m' \<and> cells m' x = None"
proof -
  let ?P = "payload (cells m)"
  obtain ps qs where xs: "xs = ps @ x # qs" using x by (meson split_list)
  have l: "hlist m pH (ps @ x # qs)" "unat (hcount pH) = length xs" "good ?P (set xs)" "table_ok ?P pH xs"
    using ok xs by (auto simp: hash_ok_def)
  have d: "distinct (ps @ x # qs)" using l(1) by (simp add: hlist_def)
  obtain e m2 where 2: "load m x = Some e" "enext e = hd (qs @ [0])"
    "do { (m, pH) \<leftarrow> (if eprev e \<noteq> NULL then do { m \<leftarrow> modify m (eprev e) (\<lambda>x. x\<lparr>enext := enext e\<rparr>); Some (m, pH) }
                 else Some (m, pH\<lparr>first := enext e\<rparr>));
         m \<leftarrow> (if enext e \<noteq> NULL then modify m (enext e) (\<lambda>x. x\<lparr>eprev := eprev e\<rparr>) else Some m);
         Some (m, pH) } = Some (m2, pH\<lparr>first := hd (ps @ qs @ [0])\<rparr>)"
    "hseg (cells m2) 0 (ps @ qs) 0" "link_step (set ps \<union> set qs) m m2"
    using unlink_steps [OF l(1)] by (elim exE conjE) (rule that)
  define t' where "t' = map_option (\<lambda>t. t[unat h := \<lparr>bcount = bcount (t ! unat h) - 1,
      chain = (if chain (t ! unat h) = x then enext e else chain (t ! unat h))\<rparr>]) (ht pH)"
  define pH2 where "pH2 = pH\<lparr>first := hd (ps @ qs @ [0]), ht := t'\<rparr>"
  have tab: "table_ok ?P pH2 (ps @ qs)"
  proof (cases "ht pH")
    case None
    then show ?thesis using l(4) by (simp add: table_ok_def pH2_def t'_def)
  next
    case (Some t)
    have "buckets (bix (htsize pH) ?P) (ps @ x # qs) t" using l(4) unfolding table_ok_def Some option.case xs by blast
    from buckets_remove [OF this d, of "enext e"] h [OF Some]
    show ?thesis using l(4) Some 2(2) by (auto simp: table_ok_def pH2_def t'_def)
  qed
  have hb: "unat h < length t" if "ht pH = Some t" for t
    using h [OF that] l(4) x that by (auto simp: table_ok_def buckets_def)
  have wf2: "wf_heap m2" and P2: "payload (cells m2) = ?P" and fr: "hstep (set ps \<union> set qs) 0 m m2"
    using 2(5) by (auto simp: link_step_def dest: hstep_wf)
  have "cells m2 x = cells m x" using hstep_cells [OF fr] d by auto
  then obtain e2 where "cells m2 x = Some e2" using 2(1) l(1) by (auto simp: load_cells hlist_def)
  then obtain m3 where m3: "dealloc m2 x = Some m3" "hstep {x} 0 m2 m3" "cells m3 = (cells m2)(x := None)"
    using dealloc_ok [OF wf2] by metis
  have hl: "hlist m3 pH2 (ps @ qs)"
    using hseg_frame [of "ps @ qs" "cells m3" "cells m2" 0 0] 2(4) d m3(3) hstep_wf [OF m3(2)]
    by (auto simp: hlist_def pH2_def)
  have P3: "payload (cells m3) y = ?P y" if "y \<noteq> x" for y
    using that P2 m3(3) by (simp add: payload_def) (metis payload_def)
  have st: "hstep (set xs) 0 m m3" using hstep_trans2 [OF fr m3(2), of "set xs" 0] xs by auto
  let ?pH3 = "pH2\<lparr>hcount := hcount pH - 1\<rparr>"
  have run: "removeElementGivenHash m pH x h =
      (if hcount pH - 1 = 0 then sqlite3HashClear m3 ?pH3 else Some (m3, ?pH3))"
  proof (cases "ht pH")
    case None
    then have "pH2 = pH\<lparr>first := hd (ps @ qs @ [0])\<rparr>" by (cases pH) (simp add: pH2_def t'_def)
    then show ?thesis using None 2(1,3) m3(1) unfolding removeElementGivenHash_def
      by (auto simp: bind_eq_Some_conv Let_def split: if_splits)
  next
    case (Some t)
    then show ?thesis using 2(1,3) m3(1) hb [OF Some] unfolding removeElementGivenHash_def
      by (auto simp: bind_eq_Some_conv pH2_def t'_def Let_def nth_opt_def split: if_splits)
  qed
  have c: "unat (hcount pH - 1) = length (ps @ qs)" using l(2) xs by (simp add: unat_sub_if_size)
  show ?thesis
  proof (cases "hcount pH - 1 = 0")
    case True
    then have e: "ps = []" "qs = []" using c by auto
    obtain m4 where "sqlite3HashClear m3 ?pH3 = Some (m4, sqlite3HashInit)" "hstep {} 0 m3 m4"
      using clear_ok [of m3 ?pH3 "[]"] hl e by (auto simp: hlist_def)
    moreover from this have "cells m4 = cells m3" "wf_heap m4" by (auto simp: hstep_def)
    ultimately show ?thesis using run True hash_ok_init [of m4] P3 st m3(3) e xs hstep_trans2 [OF st, of "{}" 0 m4 "set xs" 0]
      by (intro exI [of _ m4] exI [of _ sqlite3HashInit] exI [of _ "[]"]) auto
  next
    case False
    have eq: "\<forall>y \<in> set (ps @ qs). payload (cells m3) y = ?P y"
    proof
      fix y assume "y \<in> set (ps @ qs)"
      then have "y \<noteq> x" using d by auto
      then show "payload (cells m3) y = ?P y" by (rule P3)
    qed
    have "good (payload (cells m3)) (set (ps @ qs))"
      using good_cong [OF eq] good_subset [OF l(3)] xs by auto
    moreover have "table_ok (payload (cells m3)) ?pH3 (ps @ qs)" using table_ok_cong [OF eq, of ?pH3 pH2] tab by simp
    ultimately have "hash_ok m3 ?pH3 (ps @ qs)"
      using hl c by (simp add: hash_ok_def hlist_def)
    then show ?thesis using run False P3 st m3(3) xs d
      by (intro exI [of _ m3] exI [of _ ?pH3] exI [of _ "ps @ qs"]) auto
  qed
qed

end
