(* ===== verification/Hash_Props.thy ===== *)
theory Hash_Props
  imports Hash_Spec
begin

text \<open>
  The hash table refines a dictionary: the locale states what its clients rely on, and the interpretation on the
  model of tsrc/hash.c discharges it for every behaviour of the allocator.
\<close>

section \<open>Dictionaries\<close>

text \<open>A dictionary gives every folded key its data, NULL if there is none. \<open>rel\<close> relates the states that are within the
  bound \<open>n\<close> on the number of elements to their dictionary.\<close>

text \<open>A sequence of insertions with their results, and what it means for a dictionary with room for \<open>n\<close> new keys: an
  insertion of a key that is not there takes one place; without a place it gives the new data back and changes
  nothing. Every other insertion gives the data the key had.\<close>

fun run_inserts :: "('s \<Rightarrow> u8 list \<Rightarrow> ptr \<Rightarrow> ('s \<times> ptr) option) \<Rightarrow> (u8 list \<times> ptr) list \<Rightarrow> 's \<Rightarrow> ('s \<times> ptr list) option" where
  "run_inserts put [] s = Some (s, [])"
| "run_inserts put ((k, v) # ops) s = do {
     (s, r) \<leftarrow> put s k v;
     (s, rs) \<leftarrow> run_inserts put ops s;
     Some (s, r # rs) }"

definition dict_op :: "nat \<Rightarrow> (u8 list \<Rightarrow> ptr) \<Rightarrow> u8 list \<Rightarrow> ptr \<Rightarrow> ptr \<times> nat \<times> (u8 list \<Rightarrow> ptr)" where
  "dict_op n d k v =
     (if d (fkey k) = 0 \<and> v \<noteq> 0
      then if n = 0 then (v, 0, d) else (0, n - 1, d(fkey k := v))
      else (d (fkey k), n, d(fkey k := v)))"

fun dict_run :: "nat \<Rightarrow> (u8 list \<times> ptr) list \<Rightarrow> (u8 list \<Rightarrow> ptr) \<Rightarrow> ptr list \<times> nat \<times> (u8 list \<Rightarrow> ptr)" where
  "dict_run n [] d = ([], n, d)"
| "dict_run n ((k, v) # ops) d =
     (let (r, n, d) = dict_op n d k v; (rs, n, d) = dict_run n ops d in (r # rs, n, d))"

locale dictionary =
  fixes rel :: "nat \<Rightarrow> 's \<Rightarrow> (u8 list \<Rightarrow> ptr) \<Rightarrow> bool"
    and get :: "'s \<Rightarrow> u8 list \<Rightarrow> ptr option"
    and put :: "'s \<Rightarrow> u8 list \<Rightarrow> ptr \<Rightarrow> ('s \<times> ptr) option"
    and room :: "'s \<Rightarrow> nat"
    and bound :: nat
  assumes get_rel: "rel n s d \<Longrightarrow> 0 \<in> set k \<Longrightarrow> get s k = Some (d (fkey k))"
    and put_rel: "rel n s d \<Longrightarrow> n < bound \<Longrightarrow> 0 \<in> set k \<Longrightarrow> dict_op (room s) d k v = (r, n', d') \<Longrightarrow>
      \<exists>s'. put s k v = Some (s', r) \<and> room s' = n' \<and> rel (Suc n) s' d'"
begin

lemma run_rel:
  "rel n s d \<Longrightarrow> n + length ops \<le> bound \<Longrightarrow> \<forall>(k, v) \<in> set ops. 0 \<in> set k \<Longrightarrow> dict_run (room s) ops d = (rs, n', d') \<Longrightarrow>
    \<exists>s'. run_inserts put ops s = Some (s', rs) \<and> room s' = n' \<and> rel (n + length ops) s' d'"
proof (induction ops arbitrary: n s d rs)
  case Nil
  then show ?case by simp
next
  case (Cons op ops)
  obtain k v where op: "op = (k, v)" by fastforce
  have k: "0 \<in> set k" "n < bound" using Cons.prems op by auto
  obtain r n1 d1 where 1: "dict_op (room s) d k v = (r, n1, d1)" by (cases "dict_op (room s) d k v")
  obtain s1 where s1: "put s k v = Some (s1, r)" "room s1 = n1" "rel (Suc n) s1 d1"
    using put_rel [OF Cons.prems(1) k(2,1) 1] by blast
  obtain rs1 where rs: "dict_run (room s1) ops d1 = (rs1, n', d')" "rs = r # rs1"
    using Cons.prems(4) op 1 s1(2) by (auto split: prod.splits)
  obtain s' where "run_inserts put ops s1 = Some (s', rs1)" "room s' = n'" "rel (Suc n + length ops) s' d'"
    using Cons.IH [OF s1(3) _ _ rs(1)] Cons.prems(2,3) by auto
  then show ?case using s1(1) rs(2) op by auto
qed

end

section \<open>The hash table is one\<close>

definition dict_is :: "payloads \<Rightarrow> ptr set \<Rightarrow> (u8 list \<Rightarrow> ptr) \<Rightarrow> bool" where
  "dict_is P X d \<longleftrightarrow> (\<forall>x \<in> X. d (xkey P x) = xdata P x) \<and> (\<forall>k. k \<notin> xkey P ` X \<longrightarrow> d k = 0)"

definition hash_bound :: nat where "hash_bound = 2 ^ 29"

text \<open>The allocator returns at least what is asked for, less than 2 GiB.\<close>

definition ht_alloc_ok :: "(nat \<Rightarrow> nat option) \<Rightarrow> bool" where
  "ht_alloc_ok a \<longleftrightarrow> (\<forall>n k. a n = Some k \<longrightarrow> n \<le> k \<and> k < 2 ^ 31)"

lemma found:
  assumes ok: "hash_ok m pH xs" and d: "dict_is (payload (cells m)) (set xs) d"
    and x_def: "x = hd (filter (\<lambda>x. xkey (payload (cells m)) x = k) xs @ [0])"
  shows "data_of m x = Some (d k)" and "d k \<noteq> 0 \<Longrightarrow> x \<in> set xs \<and> xkey (payload (cells m)) x = k"
    and "d k = 0 \<Longrightarrow> k \<notin> xkey (payload (cells m)) ` set xs"
proof -
  let ?P = "payload (cells m)"
  have l: "hlist m pH xs" and g: "good ?P (set xs)" using ok by (auto simp: hash_ok_def)
  have data0: "xdata ?P y \<noteq> 0" if "y \<in> set xs" for y using g that by (auto simp: good_def xdata_def)
  have "data_of m x = Some (d k) \<and> (d k \<noteq> 0 \<longrightarrow> x \<in> set xs \<and> xkey ?P x = k) \<and> (d k = 0 \<longrightarrow> k \<notin> xkey ?P ` set xs)"
  proof (cases "filter (\<lambda>x. xkey ?P x = k) xs")
    case Nil
    then have "k \<notin> xkey ?P ` set xs" by (auto simp: filter_empty_conv)
    then show ?thesis using Nil d by (auto simp: x_def data_of_def dict_is_def)
  next
    case (Cons y ys)
    then have "y \<in> set (filter (\<lambda>x. xkey ?P x = k) xs)" by simp
    then have y: "y \<in> set xs" "xkey ?P y = k" by auto
    then obtain e where e: "cells m y = Some e" "load m y = Some e" "y \<noteq> 0" using hlist_cells [OF l] by blast
    have "d k = xdata ?P y" using d y by (auto simp: dict_is_def)
    moreover have "xdata ?P y = edata e" using e(1) by (simp add: xdata_def payload_def)
    ultimately show ?thesis using Cons e y data0 [OF y(1)] by (auto simp: x_def data_of_def)
  qed
  then show "data_of m x = Some (d k)" "d k \<noteq> 0 \<Longrightarrow> x \<in> set xs \<and> xkey ?P x = k" "d k = 0 \<Longrightarrow> k \<notin> xkey ?P ` set xs" by auto
qed

lemma rehash_ok:
  assumes l: "hlist m pH xs" and g: "good (payload (cells m)) (set xs)" and t: "table_ok (payload (cells m)) pH xs"
    and a: "ht_alloc_ok alloc" and n: "unat ns < 2 ^ 31" "ns \<noteq> 0"
  shows "\<exists>m' pH' zs b. rehash alloc m pH ns = Some (m', pH', b) \<and> hlist m' pH' zs \<and> set zs = set xs \<and> length zs = length xs \<and>
    link_step (set xs) m m' \<and> hcount pH' = hcount pH \<and> table_ok (payload (cells m)) pH' zs \<and> (b \<longrightarrow> ht pH' \<noteq> None) \<and> (\<not> b \<longrightarrow> pH' = pH)"
proof -
  define s where "s = (if unat ns * sizeof_ht > SQLITE_MALLOC_SOFT_LIMIT then word_of_nat (SQLITE_MALLOC_SOFT_LIMIT div sizeof_ht) else ns)"
  have s0: "0 < unat s" using n(2) by (auto simp: s_def SQLITE_MALLOC_SOFT_LIMIT_def sizeof_ht_def unat_gt_0)
  have wf: "wf_heap m" and hs: "hseg (cells m) 0 xs 0" and d: "distinct xs" and fi: "first pH = hd (xs @ [0])" using l by (auto simp: hlist_def)
  show ?thesis
  proof (cases "s = htsize pH \<or> alloc (unat s * sizeof_ht) = None")
    case True
    then have "rehash alloc m pH ns = Some (m, pH, False)" by (auto simp: rehash_def s_def [symmetric] Let_def)
    then show ?thesis using l t link_step_refl [OF wf] by blast
  next
    case False
    then obtain k where k: "alloc (unat s * sizeof_ht) = Some k" "unat s * sizeof_ht \<le> k" "k < 2 ^ 31"
      using a by (auto simp: ht_alloc_ok_def)
    define c where "c = k div sizeof_ht"
    have c: "0 < c" "c < 2 ^ 28" using k s0 by (auto simp: c_def sizeof_ht_def)
    define pH1 where "pH1 = pH\<lparr>ht := Some (replicate c \<lparr>bcount = 0, chain = NULL\<rparr>), htsize := word_of_nat c, first := NULL\<rparr>"
    have "hlist m pH1 []" using wf by (simp add: hlist_def pH1_def)
    moreover have "\<forall>y \<in> set xs. \<exists>z d. payload (cells m) y = Some (z, d) \<and> 0 \<in> set z" using g by (auto simp: good_def)
    ultimately obtain m' pH' zs t' where r: "rehash_loop m pH1 (hd (xs @ [0])) = Some (m', pH')" "hlist m' pH' zs" "set zs = set xs"
        "length zs = length xs" "link_step (set xs) m m'" "ht pH' = Some t'" "length t' = c" "htsize pH' = word_of_nat c"
        "hcount pH' = hcount pH" "buckets (bix (word_of_nat c) (payload (cells m))) zs t'"
      using rehash_loop_ok [OF _ hs, of pH1 "[]" "replicate c \<lparr>bcount = 0, chain = NULL\<rparr>"] d c buckets_empty
      by (auto simp: pH1_def)
    have "rehash alloc m pH ns = Some (m', pH', True)"
      using False k(1) r(1) fi by (simp add: rehash_def s_def [symmetric] Let_def c_def [symmetric] pH1_def)
    moreover have "table_ok (payload (cells m)) pH' zs" using r(6-8,10) c by (simp add: table_ok_def)
    ultimately show ?thesis using r by blast
  qed
qed


lemma dict_agree: "\<forall>y. y \<noteq> x \<longrightarrow> P' y = P y \<Longrightarrow> y \<noteq> x \<Longrightarrow> xkey P' y = xkey P y \<and> xdata P' y = xdata P y"
  by (simp add: xkey_def xdata_def)

lemma dict_put:
  assumes d: "dict_is P X d" and g: "good P X" and P': "\<forall>y. y \<noteq> x \<longrightarrow> P' y = P y"
    and x: "if x \<in> X then xkey P x = k else k \<notin> xkey P ` X" and k: "xkey P' x = k"
  shows "dict_is P' (insert x X) (d(k := xdata P' x))"
proof -
  have o: "xkey P y \<noteq> k" if "y \<in> X" "y \<noteq> x" for y
    using x g that by (auto simp: good_def inj_on_def split: if_splits)
  show ?thesis unfolding dict_is_def
  proof (intro conjI ballI allI impI)
    fix y assume "y \<in> insert x X"
    then show "(d(k := xdata P' x)) (xkey P' y) = xdata P' y"
      using d k o [of y] dict_agree [OF P', of y] by (cases "y = x") (auto simp: dict_is_def)
  next
    fix k' assume n: "k' \<notin> xkey P' ` insert x X"
    have "k' \<notin> xkey P ` X"
    proof
      assume "k' \<in> xkey P ` X"
      then obtain y where y: "y \<in> X" "k' = xkey P y" by blast
      show False
      proof (cases "y = x")
        case True
        then show ?thesis using n x y k by auto
      next
        case False
        then show ?thesis using n y dict_agree [OF P' False] by (metis image_eqI insert_iff)
      qed
    qed
    then show "(d(k := xdata P' x)) k' = 0" using d n k by (auto simp: dict_is_def)
  qed
qed

lemma dict_del:
  assumes d: "dict_is P X d" and g: "good P X" and P': "\<forall>y. y \<noteq> x \<longrightarrow> P' y = P y" and x: "x \<in> X" "xkey P x = k"
  shows "dict_is P' (X - {x}) (d(k := 0))"
proof -
  have o: "xkey P y \<noteq> k" if "y \<in> X" "y \<noteq> x" for y using x g that by (auto simp: good_def inj_on_def)
  show ?thesis unfolding dict_is_def
  proof (intro conjI ballI allI impI)
    fix y assume "y \<in> X - {x}"
    then show "(d(k := 0)) (xkey P' y) = xdata P' y" using d o [of y] dict_agree [OF P', of y] by (auto simp: dict_is_def)
  next
    fix k' assume n: "k' \<notin> xkey P' ` (X - {x})"
    have "k' \<notin> xkey P ` X" if "k' \<noteq> k"
    proof
      assume "k' \<in> xkey P ` X"
      then obtain y where "y \<in> X" "k' = xkey P y" by blast
      then show False using n x that dict_agree [OF P', of y] by (metis DiffI image_eqI singletonD)
    qed
    then show "(d(k := 0)) k' = 0" using d by (auto simp: dict_is_def)
  qed
qed

text \<open>Inserting an element with a new key.\<close>

lemma insert_new:
  assumes ok: "hash_ok m pH xs" "length xs < 2 ^ 29" and a: "ht_alloc_ok alloc" and key: "0 \<in> set key" and data: "data \<noteq> 0"
    and av: "0 < avail m" and new: "fkey key \<notin> xkey (payload (cells m)) ` set xs"
    and h: "\<forall>t. ht pH = Some t \<longrightarrow> h = key_hash (fkey key) mod htsize pH"
  shows "\<exists>m' pH' ys. (do {
       let (m, new_elem) = malloc m;
       if new_elem = NULL then Some (m, pH, data)
       else do {
         m \<leftarrow> modify m new_elem (\<lambda>x. x\<lparr>pKey := key, edata := data\<rparr>);
         let pH = pH\<lparr>hcount := hcount pH + 1\<rparr>;
         (m, pH, h) \<leftarrow> (if hcount pH \<ge> 10 \<and> hcount pH > 2 * htsize pH then do {
             (m, pH, moved) \<leftarrow> rehash alloc m pH (hcount pH * 2);
             h \<leftarrow> (if moved then bucket_of pH key else Some h);
             Some (m, pH, h) }
           else Some (m, pH, h));
         (m, pH) \<leftarrow> insertElement m pH (if ht pH = None then None else Some (unat h)) new_elem;
         Some (m, pH, NULL) } }) = Some (m', pH', 0) \<and> hash_ok m' pH' ys \<and> set ys = insert (brk m) (set xs) \<and> brk m \<notin> set xs \<and>
    length ys = Suc (length xs) \<and> payload (cells m') = (payload (cells m))(brk m \<mapsto> (key, data)) \<and> avail m' = avail m - 1"
proof -
  let ?P = "payload (cells m)" let ?n = "brk m" 
  define Q where "Q = ?P(?n \<mapsto> (key, data))"
  have l: "hlist m pH xs" "unat (hcount pH) = length xs" "good ?P (set xs)" "table_ok ?P pH xs" using ok by (auto simp: hash_ok_def)
  have wf: "wf_heap m" and hs: "hseg (cells m) 0 xs 0" using l(1) by (auto simp: hlist_def)
  obtain m1 where m1: "malloc m = (m1, ?n)" "?n \<noteq> 0" "cells m ?n = None" "cells m1 = (cells m)(?n \<mapsto> junk m)" "wf_heap m1"
    "avail m1 = avail m - 1"
    using malloc_ok [OF wf av] by metis
  then have "cells m1 ?n = Some (junk m)" by simp
  then obtain m2 where m2: "modify m1 ?n (\<lambda>x. x\<lparr>pKey := key, edata := data\<rparr>) = Some m2" "hstep {?n} 0 m1 m2"
      "cells m2 = (cells m1)(?n \<mapsto> (junk m)\<lparr>pKey := key, edata := data\<rparr>)"
    using modify_ok [OF m1(5)] by metis
  have n: "?n \<notin> set xs" using hseg_cells [OF hs] m1(3) by force
  have c2: "\<forall>x \<in> set xs. cells m2 x = cells m x" using n m2(3) m1(4) by auto
  have P2: "payload (cells m2) = Q" using m2(3) m1(4) by (auto simp: Q_def payload_def fun_eq_iff)
  define pH1 where "pH1 = pH\<lparr>hcount := hcount pH + 1\<rparr>"
  have l2: "hlist m2 pH1 xs" using l(1) hseg_frame [of xs "cells m2" "cells m"] c2 hstep_wf [OF m2(2)] by (simp add: hlist_def pH1_def)
  have eq: "\<forall>x \<in> set xs. Q x = ?P x" using n by (auto simp: Q_def)
  have g2: "good Q (set xs)" using good_cong [OF eq] l(3) by blast
  have t2: "table_ok Q pH1 xs" using table_ok_cong [OF eq, of pH1 pH] l(4) unfolding pH1_def by fastforce
  have same: "ht pH1 = ht pH" "htsize pH1 = htsize pH" by (simp_all add: pH1_def)
  have cnt: "unat (hcount pH1) = Suc (length xs)" using l(2) ok(2) by (simp add: pH1_def unat_word_ariths)
  obtain m3 pH3 zs h3 where 3: "(if hcount pH1 \<ge> 10 \<and> hcount pH1 > 2 * htsize pH1 then do {
             (m, pH, moved) \<leftarrow> rehash alloc m2 pH1 (hcount pH1 * 2);
             h \<leftarrow> (if moved then bucket_of pH key else Some h);
             Some (m, pH, h) }
           else Some (m2, pH1, h)) = Some (m3, pH3, h3)" "hlist m3 pH3 zs" "set zs = set xs" "length zs = length xs" "link_step (set xs) m2 m3"
      "hcount pH3 = hcount pH1" "table_ok Q pH3 zs" "\<forall>t. ht pH3 = Some t \<longrightarrow> h3 = key_hash (fkey key) mod htsize pH3"
  proof (cases "hcount pH1 \<ge> 10 \<and> hcount pH1 > 2 * htsize pH1")
    case False
    have wf2: "wf_heap m2" using l2 by (simp add: hlist_def)
    show ?thesis
      by (rule that [OF if_not_P [OF False] l2]) (use t2 wf2 h same in \<open>simp_all add: link_step_refl\<close>)
  next
    case True
    have "unat (hcount pH1 * 2) = 2 * Suc (length xs)" using cnt ok(2) by (simp add: unat_word_ariths)
    then have "unat (hcount pH1 * 2) < 2 ^ 31" "hcount pH1 * 2 \<noteq> 0" using ok(2) by auto
    then obtain m' pH' zs b where r: "rehash alloc m2 pH1 (hcount pH1 * 2) = Some (m', pH', b)" "hlist m' pH' zs" "set zs = set xs"
        "length zs = length xs" "link_step (set xs) m2 m'" "hcount pH' = hcount pH1" "table_ok Q pH' zs" "b \<longrightarrow> ht pH' \<noteq> None" "\<not> b \<longrightarrow> pH' = pH1"
      using rehash_ok [OF l2 _ _ a, of "hcount pH1 * 2"] g2 t2 P2 by auto
    show ?thesis
    proof (cases b)
      case b: True
      then obtain t where "ht pH' = Some t" using r(8) by auto
      then have "htsize pH' = word_of_nat (length t)" "0 < length t" "length t < 2 ^ 28" using r(7) by (auto simp: table_ok_def)
      then have "bucket_of pH' key = Some (key_hash (fkey key) mod htsize pH')" using bucket_of_key(1) [OF key] by blast
      then show ?thesis using that [of m' pH' "key_hash (fkey key) mod htsize pH'" zs] True r b by simp
    next
      case b: False
      then show ?thesis using that [of m' pH' h zs] True r h same by simp
    qed
  qed
  have P3: "payload (cells m3) = Q" using 3(5) P2 by (simp add: link_step_def)
  have "cells m3 ?n = cells m2 ?n" using 3(5) n hstep_cells [of "set xs" 0 m2 m3 ?n] by (simp add: link_step_def)
  then have c3: "cells m3 ?n = Some ((junk m)\<lparr>pKey := key, edata := data\<rparr>)" using m2(3) by simp
  have nz: "?n \<notin> set zs" using n 3(3) by simp
  have kn: "xkey Q ?n = fkey key" by (simp add: xkey_def Q_def)
  obtain m4 pH4 ys where 4: "insertElement m3 pH3 (if ht pH3 = None then None else Some (unat h3)) ?n = Some (m4, pH4)"
      "hlist m4 pH4 ys" "set ys = insert ?n (set xs)" "length ys = Suc (length xs)" "link_step (insert ?n (set zs)) m3 m4"
      "hcount pH4 = hcount pH1" "table_ok Q pH4 ys"
  proof (cases "ht pH3")
    case None
    then show ?thesis using insert_plain [OF 3(2) nz c3] that 3(3,4,6,7) by (fastforce simp: table_ok_def)
  next
    case (Some t)
    have t: "htsize pH3 = word_of_nat (length t)" "0 < length t" "length t < 2 ^ 28" "buckets (bix (htsize pH3) Q) zs t"
      using 3(7) Some by (auto simp: table_ok_def)
    have b: "bix (htsize pH3) Q ?n < length t" "unat h3 = bix (htsize pH3) Q ?n"
      using bix_less [OF t(2,3), of Q ?n] 3(8) Some kn t(1) by (simp_all add: bix_def)
    obtain m4 where "insertElement m3 pH3 (Some (bix (htsize pH3) Q ?n)) ?n = Some (m4, pH3\<lparr>first := hd (group_insert (bix (htsize pH3) Q) ?n zs),
          ht := Some (t[bix (htsize pH3) Q ?n := \<lparr>bcount = bcount (t ! bix (htsize pH3) Q ?n) + 1, chain = ?n\<rparr>])\<rparr>)"
        "hlist m4 (pH3\<lparr>first := hd (group_insert (bix (htsize pH3) Q) ?n zs),
          ht := Some (t[bix (htsize pH3) Q ?n := \<lparr>bcount = bcount (t ! bix (htsize pH3) Q ?n) + 1, chain = ?n\<rparr>])\<rparr>) (group_insert (bix (htsize pH3) Q) ?n zs)"
        "link_step (insert ?n (set zs)) m3 m4"
      using insert_bucket [OF 3(2) nz c3 Some b(1) t(4)] by blast
    then show ?thesis
      using that [of m4 _ "group_insert (bix (htsize pH3) Q) ?n zs"] buckets_insert [OF t(4) b(1)] b(2) Some 3(3,4,6) t(1-3)
      by (simp add: table_ok_def)
  qed
  have P4: "payload (cells m4) = Q" using 4(5) P3 by (simp add: link_step_def)
  have "good Q (insert ?n (set xs))"
  proof -
    have "xkey Q ?n \<notin> xkey Q ` set xs" using new eq kn by (auto simp: xkey_def image_iff)
    moreover have "Q ?n = Some (key, data)" by (simp add: Q_def)
    ultimately show ?thesis using g2 key data n by (auto simp: good_def)
  qed
  moreover have "avail m4 = avail m - 1"
    using m1(6) m2(2) 3(5) 4(5) by (simp add: hstep_def link_step_def)
  ultimately have "hash_ok m4 pH4 ys \<and> avail m4 = avail m - 1" using 4 cnt P4 by (simp add: hash_ok_def)
  then show ?thesis using m1(1,2) m2(1) 3(1) 4 n P4 by (auto simp: pH1_def [symmetric] Q_def)
qed


lemma replace_ok:
  assumes ok: "hash_ok m pH xs" and x: "x \<in> set xs" "xkey (payload (cells m)) x = fkey key" and key: "0 \<in> set key" and data: "data \<noteq> 0"
  shows "\<exists>m'. modify m x (\<lambda>x. x\<lparr>edata := data, pKey := key\<rparr>) = Some m' \<and> hash_ok m' pH xs \<and>
    payload (cells m') = (payload (cells m))(x \<mapsto> (key, data)) \<and> avail m' = avail m"
proof -
  let ?P = "payload (cells m)" let ?P2 = "?P(x \<mapsto> (key, data))"
  have l: "hlist m pH xs" "unat (hcount pH) = length xs" "good ?P (set xs)" "table_ok ?P pH xs" using ok by (auto simp: hash_ok_def)
  have wf: "wf_heap m" and hs: "hseg (cells m) 0 xs 0" using l(1) by (auto simp: hlist_def)
  obtain e where e: "cells m x = Some e" using hlist_cells [OF l(1) x(1)] by blast
  obtain m' where m': "modify m x (\<lambda>x. x\<lparr>edata := data, pKey := key\<rparr>) = Some m'" "hstep {x} 0 m m'"
      "cells m' = (cells m)(x \<mapsto> e\<lparr>edata := data, pKey := key\<rparr>)"
    using modify_ok [OF wf e] by metis
  have P2: "payload (cells m') = ?P2" using m'(3) by (auto simp: payload_def fun_eq_iff)
  have "hseg c p ys n \<Longrightarrow> c x = Some e \<Longrightarrow> hseg (c(x \<mapsto> e\<lparr>edata := data, pKey := key\<rparr>)) p ys n" for c p ys n
    by (induction ys arbitrary: p) auto
  then have "hlist m' pH xs" using l(1) hs e m'(3) hstep_wf [OF m'(2)] by (simp add: hlist_def)
  moreover have keys: "xkey ?P2 y = xkey ?P y" for y using x(2) by (simp add: xkey_def)
  have "good ?P2 (set xs)"
    using l(3) key data keys unfolding good_def by (auto simp: inj_on_def)
  moreover have "bix s ?P2 = bix s ?P" for s using keys by (simp add: bix_def fun_eq_iff)
  then have "table_ok ?P2 pH xs" using l(4) by (auto simp: table_ok_def split: option.splits)
  moreover have "avail m' = avail m" using m'(2) by (simp add: hstep_def)
  ultimately show ?thesis using l(2) m'(1) P2 by (auto simp: hash_ok_def)
qed

lemma hash_insert_step:
  assumes ok: "hash_ok m pH xs" "length xs < 2 ^ 29" "dict_is (payload (cells m)) (set xs) d"
    and a: "ht_alloc_ok alloc" and key: "0 \<in> set key" and op: "dict_op (avail m) d key v = (r, n', d')"
  shows "\<exists>m' pH' ys. sqlite3HashInsert alloc m pH key v = Some (m', pH', r) \<and> hash_ok m' pH' ys \<and> length ys \<le> Suc (length xs) \<and>
    dict_is (payload (cells m')) (set ys) d' \<and> avail m' = n'"
proof -
  let ?P = "payload (cells m)" let ?k = "fkey key"
  define x where x: "x = hd (filter (\<lambda>x. xkey ?P x = ?k) xs @ [0])"
  note fd = found [OF ok(1,3) x]
  obtain h where h: "findElementWithHash m pH key = Some (x, h)"
      "\<forall>t. ht pH = Some t \<longrightarrow> h = key_hash ?k mod htsize pH"
    using find_ok [OF ok(1) key] x by metis
  have g: "good ?P (set xs)" using ok(1) by (simp add: hash_ok_def)
  have dist: "hash_ok m' pH' ys \<Longrightarrow> card (set ys) = length ys" for m' pH' ys
    by (simp add: hash_ok_def hlist_def distinct_card)
  show ?thesis
  proof (cases "d ?k = 0")
    case new: True
    show ?thesis
    proof (cases "v = 0")
      case True
      then have "sqlite3HashInsert alloc m pH key v = Some (m, pH, 0)" using h(1) fd(1) new by (simp add: sqlite3HashInsert_def)
      moreover have "d(?k := v) = d" using new True by auto
      ultimately show ?thesis using ok new op True by (intro exI [of _ m] exI [of _ pH] exI [of _ xs]) (simp add: dict_op_def)
    next
      case v: False
      show ?thesis
      proof (cases "avail m = 0")
        case True
        then have "sqlite3HashInsert alloc m pH key v = Some (m, pH, v)"
          using h(1) fd(1) new v malloc_fail [of m] by (simp add: sqlite3HashInsert_def)
        then show ?thesis using ok new v True op by (intro exI [of _ m] exI [of _ pH] exI [of _ xs]) (simp add: dict_op_def)
      next
        case False
        obtain m' pH' ys where n: "sqlite3HashInsert alloc m pH key v = Some (m', pH', 0)" "hash_ok m' pH' ys" "set ys = insert (brk m) (set xs)"
            "brk m \<notin> set xs" "length ys = Suc (length xs)" "payload (cells m') = ?P(brk m \<mapsto> (key, v))"
            "avail m' = avail m - 1"
          using insert_new [OF ok(1,2) a key v _ fd(3) [OF new] h(2)] False h(1) fd(1) new v
          by (auto simp: sqlite3HashInsert_def)
        have "dict_is (payload (cells m')) (insert (brk m) (set xs)) (d(?k := xdata (payload (cells m')) (brk m)))"
          by (rule dict_put [OF ok(3) g]) (use n fd(3) new in \<open>auto simp: xkey_def\<close>)
        moreover have "xdata (payload (cells m')) (brk m) = v" using n(6) by (simp add: xdata_def)
        ultimately show ?thesis using n new op v False
          by (intro exI [of _ m'] exI [of _ pH'] exI [of _ ys]) (auto simp: dict_op_def)
      qed
    qed
  next
    case old: False
    note x' = fd(2) [OF old]
    show ?thesis
    proof (cases "v = 0")
      case True
      have "\<And>t. ht pH = Some t \<Longrightarrow> unat h = bix (htsize pH) ?P x" using h(2) x' by (simp add: bix_def)
      then obtain m' pH' ys where r: "removeElementGivenHash m pH x h = Some (m', pH')" "hash_ok m' pH' ys" "set ys = set xs - {x}"
          "\<forall>y. y \<noteq> x \<longrightarrow> payload (cells m') y = ?P y" "hstep (set xs) 0 m m'"
        using remove_ok [OF ok(1), of x h] x' by blast
      have "sqlite3HashInsert alloc m pH key v = Some (m', pH', d ?k)"
        using h(1) fd(1) old True r(1) by (simp add: sqlite3HashInsert_def)
      moreover have "dict_is (payload (cells m')) (set ys) (d(?k := v))"
        using dict_del [OF ok(3) g r(4)] x' r(3) True by simp
      moreover have "length ys \<le> length xs"
        using dist [OF ok(1)] dist [OF r(2)] r(3) card_Diff1_le [of "set xs" x] by simp
      ultimately show ?thesis using r(2,5) op old True
        by (intro exI [of _ m'] exI [of _ pH'] exI [of _ ys]) (auto simp: dict_op_def hstep_def)
    next
      case v: False
      obtain m' where r: "modify m x (\<lambda>x. x\<lparr>edata := v, pKey := key\<rparr>) = Some m'" "hash_ok m' pH xs"
          "payload (cells m') = ?P(x \<mapsto> (key, v))" "avail m' = avail m"
        using replace_ok [OF ok(1) _ _ key v, of x] x' by blast
      have "sqlite3HashInsert alloc m pH key v = Some (m', pH, d ?k)"
        using h(1) fd(1) old v r(1) by (simp add: sqlite3HashInsert_def)
      moreover have "dict_is (payload (cells m')) (insert x (set xs)) (d(?k := xdata (payload (cells m')) x))"
        by (rule dict_put [OF ok(3) g]) (use r(3) x' in \<open>auto simp: xkey_def\<close>)
      moreover have "xdata (payload (cells m')) x = v" "insert x (set xs) = set xs" using r(3) x' by (auto simp: xdata_def)
      ultimately show ?thesis using r(2,4) op old v
        by (intro exI [of _ m'] exI [of _ pH] exI [of _ xs]) (auto simp: dict_op_def)
    qed
  qed
qed


section \<open>Sequences of insertions\<close>

type_synonym hash_state = "(nat \<Rightarrow> nat option) \<times> hash_mem \<times> Hash"

definition hash_rel :: "nat \<Rightarrow> hash_state \<Rightarrow> (u8 list \<Rightarrow> ptr) \<Rightarrow> bool" where
  "hash_rel n s d \<longleftrightarrow> (case s of (a, m, pH) \<Rightarrow> ht_alloc_ok a \<and>
     (\<exists>xs. hash_ok m pH xs \<and> length xs \<le> n \<and> dict_is (payload (cells m)) (set xs) d))"

definition hash_find :: "hash_state \<Rightarrow> u8 list \<Rightarrow> ptr option" where
  "hash_find s k = (case s of (a, m, pH) \<Rightarrow> sqlite3HashFind m pH k)"

definition hash_insert_op :: "hash_state \<Rightarrow> u8 list \<Rightarrow> ptr \<Rightarrow> (hash_state \<times> ptr) option" where
  "hash_insert_op s k v = (case s of (a, m, pH) \<Rightarrow> do { (m, pH, r) \<leftarrow> sqlite3HashInsert a m pH k v; Some ((a, m, pH), r) })"

definition hash_room :: "hash_state \<Rightarrow> nat" where
  "hash_room s = (case s of (a, m, pH) \<Rightarrow> avail m)"

interpretation hash_dict: dictionary hash_rel hash_find hash_insert_op hash_room hash_bound
proof unfold_locales
  fix n s d k v r n' d'
  assume r: "hash_rel n s d" and k: "0 \<in> set (k :: u8 list)"
  obtain a m pH xs where s: "s = (a, m, pH)" "ht_alloc_ok a" "hash_ok m pH xs" "length xs \<le> n" "dict_is (payload (cells m)) (set xs) d"
    using r by (auto simp: hash_rel_def)
  show "hash_find s k = Some (d (fkey k))"
    using find_ok [OF s(3) k] found(1) [OF s(3,5) refl] by (auto simp: hash_find_def sqlite3HashFind_def s(1))
  assume n: "n < hash_bound" and op: "dict_op (hash_room s) d k v = (r, n', d')"
  then have "length xs < 2 ^ 29" using s(4) by (simp add: hash_bound_def)
  then obtain m' pH' ys where i: "sqlite3HashInsert a m pH k v = Some (m', pH', r)" "hash_ok m' pH' ys" "length ys \<le> Suc (length xs)"
    "dict_is (payload (cells m')) (set ys) d'" "avail m' = n'"
    using hash_insert_step [OF s(3) _ s(5,2) k, of v r n' d'] op s(1) by (auto simp: hash_room_def)
  have "length ys \<le> Suc n" using i(3) s(4) by simp
  then have "hash_rel (Suc n) (a, m', pH') d'" using i(2,4) s(2) by (auto simp: hash_rel_def)
  then show "\<exists>s'. hash_insert_op s k v = Some (s', r) \<and> hash_room s' = n' \<and> hash_rel (Suc n) s' d'"
    using i(1,5) by (auto simp: hash_insert_op_def hash_room_def s(1))
qed

text \<open>C27: From an empty table, any sequence of at most 2^29 insertions and deletions runs without an error in any store, with
  room for any number of elements, and with any allocator of the bucket table: every result is the data the key had
  before, up to case, except that the insertion of a key that is not there gives the new data back and changes nothing
  exactly when no element can be allocated any more; afterwards each key is found with the data of the last insertion
  that did not fail.\<close>

theorem hash_table_is_dictionary:
  assumes "wf_heap m" and "ht_alloc_ok a" and "length ops \<le> 2 ^ 29" and "\<forall>(k, v) \<in> set ops. 0 \<in> set k"
    and "dict_run (avail m) ops (\<lambda>_. 0) = (rs, n, d)"
  shows "\<exists>s. run_inserts hash_insert_op ops (a, m, sqlite3HashInit) = Some (s, rs) \<and>
    (\<forall>k. 0 \<in> set k \<longrightarrow> hash_find s k = Some (d (fkey k)))"
proof -
  have "hash_rel 0 (a, m, sqlite3HashInit) (\<lambda>_. 0)"
    using hash_ok_init [OF assms(1)] assms(2) by (auto simp: hash_rel_def dict_is_def)
  then obtain s where "run_inserts hash_insert_op ops (a, m, sqlite3HashInit) = Some (s, rs)" "hash_rel (0 + length ops) s d"
    using hash_dict.run_rel [of 0 "(a, m, sqlite3HashInit)" "\<lambda>_. 0" ops] assms(3-5) by (auto simp: hash_bound_def hash_room_def)
  then show ?thesis using hash_dict.get_rel by blast
qed

definition empty_store :: hash_mem where
  "empty_store = \<lparr>cells = \<lambda>_. None, brk = 1, avail = 1, junk = \<lparr>enext = 7, eprev = 7, edata = 7, pKey = []\<rparr>\<rparr>"

definition small_alloc :: "nat \<Rightarrow> nat option" where
  "small_alloc n = (if n < 2 ^ 31 then Some n else None)"

text \<open>Witness: there is room for one element; the second name of the same key replaces its data, another key finds no
  memory.\<close>

lemma hash_table_is_dictionary_witness:
  "\<exists>s. run_inserts hash_insert_op [([65, 0], 3), ([97, 0], 4), ([66, 0], 5)] (small_alloc, empty_store, sqlite3HashInit)
      = Some (s, [0, 3, 5]) \<and>
    hash_find s [65, 0] = Some 4 \<and> hash_find s [66, 0] = Some 0"
proof -
  have w: "wf_heap empty_store" by (simp add: wf_heap_def empty_store_def)
  have a: "ht_alloc_ok small_alloc" by (simp add: ht_alloc_ok_def small_alloc_def)
  have f: "fkey [65, 0] = fkey [97, 0]" "fkey [66, 0] \<noteq> fkey [97, 0]"
    by (simp_all add: fkey_def tolower_range)
  have "dict_run (avail empty_store) [([65, 0], 3), ([97, 0], 4), ([66, 0], 5)] (\<lambda>_. 0)
      = ([0, 3, 5], 0, (\<lambda>_. 0)(fkey [97, 0] := 4))"
    by (simp add: dict_op_def empty_store_def f)
  from hash_table_is_dictionary [OF w a _ _ this] show ?thesis by (auto simp: f)
qed

end
