(* ===== verification/Serial.thy ===== *)
theory Serial
  imports Varint Utf
begin

text \<open>
  The format of records: the serial types of tsrc/vdbeaux.c, the assembly of a record (\<open>OP_MakeRecord\<close> of
  tsrc/vdbe.c) and its decoding into values. A register is a \<open>Mem\<close> together with its union, kept as 64 bits:
  \<open>u.i\<close> and \<open>u.r\<close> are these bits as a signed integer and as an IEEE double, \<open>u.nZero\<close> is their low half
  (little-endian). A write is the list of bytes written.
\<close>

unbundle bit_operations_syntax

section \<open>Registers\<close>

record Cell = Mem +
  m_u :: u64
  m_uTemp :: u32

definition MEM_Int :: u16 where "MEM_Int = 0x0004"
definition MEM_Real :: u16 where "MEM_Real = 0x0008"

definition m_nZero :: "Cell \<Rightarrow> i32" where
  "m_nZero p = u32_of (m_u p)"

definition set_nZero :: "u32 \<Rightarrow> u64 \<Rightarrow> u64" where
  "set_nZero k u = (u AND NOT 0xFFFFFFFF) OR u64_of k"

definition has :: "Cell \<Rightarrow> u16 \<Rightarrow> bool" where
  "has p f \<longleftrightarrow> m_flags p AND f \<noteq> 0"

text \<open>A double is NaN when its exponent is all ones and its fraction is not zero.\<close>

definition sqlite3IsNaN :: "u64 \<Rightarrow> bool" where
  "sqlite3IsNaN x \<longleftrightarrow> shr x 52 AND 0x7ff = 0x7ff \<and> x AND 0xfffffffffffff \<noteq> 0"

definition sqlite3VdbeMemExpandBlob :: "faults \<Rightarrow> Cell \<Rightarrow> int \<times> Cell" where
  "sqlite3VdbeMemExpandBlob ms pMem =
     (if \<not> alloc_ok ms then (SQLITE_NOMEM, pMem\<lparr>m_z := [], m_own := False, m_flags := MEM_Null\<rparr>)
      else (SQLITE_OK, pMem\<lparr>m_z := take (m_n pMem) (m_z pMem) @ replicate (unat (m_nZero pMem)) 0, m_own := True,
        m_n := m_n pMem + unat (m_nZero pMem),
        m_flags := m_flags pMem AND NOT (MEM_Dyn OR MEM_Ephem OR MEM_Static) AND NOT (MEM_Zero OR MEM_Term)\<rparr>))"

section \<open>Serial types\<close>

definition MAX_6BYTE :: u64 where "MAX_6BYTE = shl 0x00008000 32 - 1"

text \<open>The serial type and the length of the data.\<close>

definition sqlite3VdbeSerialType :: "Cell \<Rightarrow> int \<Rightarrow> u32 \<times> u32" where
  "sqlite3VdbeSerialType pMem file_format =
     (if has pMem MEM_Null then (0, 0)
      else if has pMem MEM_Int then
        let i = m_u pMem; u = (if i <s 0 then NOT i else i) in
        if u \<le> 127 then (if i AND 1 = i \<and> file_format \<ge> 4 then (8 + u32_of u, 0) else (1, 1))
        else if u \<le> 32767 then (2, 2)
        else if u \<le> 8388607 then (3, 3)
        else if u \<le> 2147483647 then (4, 4)
        else if u \<le> MAX_6BYTE then (5, 6)
        else (6, 8)
      else if has pMem MEM_Real then (7, 8)
      else
        let n = word_of_nat (m_n pMem); n = (if has pMem MEM_Zero then n + m_nZero pMem else n)
        in (n * 2 + 12 + (if has pMem MEM_Str then 1 else 0), n))"

definition sqlite3SmallTypeSizes :: "u8 list" where
  "sqlite3SmallTypeSizes = [
      0,  1,  2,  3,  4,  6,  8,  8,  0,  0,
      0,  0,  0,  0,  1,  1,  2,  2,  3,  3,
      4,  4,  5,  5,  6,  6,  7,  7,  8,  8,
      9,  9, 10, 10, 11, 11, 12, 12, 13, 13,
     14, 14, 15, 15, 16, 16, 17, 17, 18, 18,
     19, 19, 20, 20, 21, 21, 22, 22, 23, 23,
     24, 24, 25, 25, 26, 26, 27, 27, 28, 28,
     29, 29, 30, 30, 31, 31, 32, 32, 33, 33,
     34, 34, 35, 35, 36, 36, 37, 37, 38, 38,
     39, 39, 40, 40, 41, 41, 42, 42, 43, 43,
     44, 44, 45, 45, 46, 46, 47, 47, 48, 48,
     49, 49, 50, 50, 51, 51, 52, 52, 53, 53,
     54, 54, 55, 55, 56, 56, 57, 57]"

definition sqlite3VdbeSerialTypeLen :: "u32 \<Rightarrow> u32" where
  "sqlite3VdbeSerialTypeLen serial_type =
     (if serial_type \<ge> 128 then (serial_type - 12) div 2 else u32_of (sqlite3SmallTypeSizes ! unat serial_type))"

definition sqlite3VdbeOneByteSerialTypeLen :: "u8 \<Rightarrow> u8 option" where
  "sqlite3VdbeOneByteSerialTypeLen serial_type = nth_opt sqlite3SmallTypeSizes (unat serial_type)"

section \<open>Writing a value\<close>

text \<open>The loop fills the buffer from its end.\<close>

fun put_be :: "nat \<Rightarrow> u64 \<Rightarrow> u8 list" where
  "put_be 0 v = []"
| "put_be (Suc i) v = put_be i (shr v 8) @ [u8_of (v AND 0xFF)]"

definition sqlite3VdbeSerialPut :: "Cell \<Rightarrow> u32 \<Rightarrow> u8 list option" where
  "sqlite3VdbeSerialPut pMem serial_type =
     (if serial_type \<le> 7 \<and> serial_type > 0 then do {
        let len = unat (sqlite3SmallTypeSizes ! unat serial_type);
        check (len > 0);
        Some (put_be len (m_u pMem)) }
      else if serial_type \<ge> 12 then do {
        check (word_of_nat (m_n pMem) + (if has pMem MEM_Zero then m_nZero pMem else 0) = sqlite3VdbeSerialTypeLen serial_type);
        check (m_n pMem \<le> length (m_z pMem));
        Some (take (m_n pMem) (m_z pMem)) }
      else Some [])"

section \<open>Reading a value\<close>

abbreviation i8_at :: "u8 list \<Rightarrow> nat \<Rightarrow> i32 option" where
  "i8_at x k \<equiv> map_option scast (nth_opt x k)"

definition ONE_BYTE_INT :: "u8 list \<Rightarrow> i32 option" where
  "ONE_BYTE_INT x = i8_at x 0"

definition TWO_BYTE_INT :: "u8 list \<Rightarrow> i32 option" where
  "TWO_BYTE_INT x = do { x0 \<leftarrow> i8_at x 0; x1 \<leftarrow> byte_at x 1; Some (256 * x0 OR x1) }"

definition THREE_BYTE_INT :: "u8 list \<Rightarrow> i32 option" where
  "THREE_BYTE_INT x = do { x0 \<leftarrow> i8_at x 0; x1 \<leftarrow> byte_at x 1; x2 \<leftarrow> byte_at x 2; Some (65536 * x0 OR shl x1 8 OR x2) }"

definition FOUR_BYTE_UINT :: "u8 list \<Rightarrow> u32 option" where
  "FOUR_BYTE_UINT x = do {
     x0 \<leftarrow> byte_at x 0; x1 \<leftarrow> byte_at x 1; x2 \<leftarrow> byte_at x 2; x3 \<leftarrow> byte_at x 3;
     Some (shl x0 24 OR shl x1 16 OR shl x2 8 OR x3) }"

definition FOUR_BYTE_INT :: "u8 list \<Rightarrow> i32 option" where
  "FOUR_BYTE_INT x = do {
     x0 \<leftarrow> i8_at x 0; x1 \<leftarrow> byte_at x 1; x2 \<leftarrow> byte_at x 2; x3 \<leftarrow> byte_at x 3;
     Some (16777216 * x0 OR shl x1 16 OR shl x2 8 OR x3) }"

text \<open>A conversion from \<open>int\<close> to \<open>i64\<close>.\<close>

abbreviation i64_of :: "i32 \<Rightarrow> u64" where "i64_of \<equiv> scast"

definition serialGet :: "u8 list \<Rightarrow> u32 \<Rightarrow> Cell \<Rightarrow> (u32 \<times> Cell) option" where
  "serialGet buf serial_type pMem = do {
     x \<leftarrow> FOUR_BYTE_UINT buf;
     y \<leftarrow> FOUR_BYTE_UINT (drop 4 buf);
     let x = shl (u64_of x) 32 + u64_of y;
     if serial_type = 6 then Some (8, pMem\<lparr>m_u := x, m_flags := MEM_Int\<rparr>)
     else Some (8, pMem\<lparr>m_u := x, m_flags := (if sqlite3IsNaN x then MEM_Null else MEM_Real)\<rparr>) }"

definition int_cell :: "Cell \<Rightarrow> u64 \<Rightarrow> Cell" where
  "int_cell pMem i = pMem\<lparr>m_u := i, m_flags := MEM_Int\<rparr>"

definition sqlite3VdbeSerialGet :: "u8 list \<Rightarrow> u32 \<Rightarrow> Cell \<Rightarrow> (u32 \<times> Cell) option" where
  "sqlite3VdbeSerialGet buf serial_type pMem =
     (if serial_type = 10 then Some (0, pMem\<lparr>m_flags := MEM_Null OR MEM_Zero, m_n := 0, m_u := set_nZero 0 (m_u pMem)\<rparr>)
      else if serial_type = 11 \<or> serial_type = 0 then Some (0, pMem\<lparr>m_flags := MEM_Null\<rparr>)
      else if serial_type = 1 then map_option (\<lambda>i. (1, int_cell pMem (i64_of i))) (ONE_BYTE_INT buf)
      else if serial_type = 2 then map_option (\<lambda>i. (2, int_cell pMem (i64_of i))) (TWO_BYTE_INT buf)
      else if serial_type = 3 then map_option (\<lambda>i. (3, int_cell pMem (i64_of i))) (THREE_BYTE_INT buf)
      else if serial_type = 4 then map_option (\<lambda>i. (4, int_cell pMem (i64_of i))) (FOUR_BYTE_INT buf)
      else if serial_type = 5 then do {
        lo \<leftarrow> FOUR_BYTE_UINT (drop 2 buf);
        hi \<leftarrow> TWO_BYTE_INT buf;
        Some (6, int_cell pMem (u64_of lo + shl 1 32 * i64_of hi)) }
      else if serial_type = 6 \<or> serial_type = 7 then serialGet buf serial_type pMem
      else if serial_type = 8 \<or> serial_type = 9 then Some (0, int_cell pMem (u64_of (serial_type - 8)))
      else
        let n = (serial_type - 12) div 2 in
        Some (n, pMem\<lparr>m_z := buf, m_n := unat n, m_flags := (if serial_type AND 1 = 0 then MEM_Blob else MEM_Str) OR MEM_Ephem\<rparr>))"

section \<open>Decoding a record\<close>

text \<open>One round per field; \<open>n\<close> is the number of registers left.\<close>

fun unpack_loop :: "u8 \<Rightarrow> int \<Rightarrow> u8 list \<Rightarrow> u32 \<Rightarrow> nat \<Rightarrow> u32 \<Rightarrow> i32 \<Rightarrow> Cell list \<Rightarrow> Cell list option" where
  "unpack_loop enc nKey aKey szHdr n idx d aMem =
     (if idx < szHdr \<and> sint d \<le> nKey then do {
        (serial_type, len) \<leftarrow> getVarint32 (drop (unat idx) aKey);
        let idx = idx + u32_of len;
        check (sint d \<ge> 0);
        (pMem, aMem') \<leftarrow> (case aMem of [] \<Rightarrow> None | m # ms \<Rightarrow> Some (m, ms));
        (len, pMem) \<leftarrow> sqlite3VdbeSerialGet (drop (nat (sint d)) aKey) serial_type (pMem\<lparr>m_enc := enc, m_own := False, m_z := []\<rparr>);
        let d = d + len;
        if n \<le> 1 then Some [pMem]
        else map_option ((#) pMem) (unpack_loop enc nKey aKey szHdr (n - 1) idx d aMem') }
      else Some [])"

declare unpack_loop.simps [simp del]

definition sqlite3VdbeRecordUnpack :: "u8 \<Rightarrow> int \<Rightarrow> u8 list \<Rightarrow> nat \<Rightarrow> Cell list \<Rightarrow> Cell list option" where
  "sqlite3VdbeRecordUnpack enc nKey aKey nField aMem = do {
     (szHdr, idx) \<leftarrow> getVarint32 aKey;
     unpack_loop enc nKey aKey szHdr nField (u32_of idx) szHdr aMem }"

section \<open>Assembling a record\<close>

text \<open>The first pass runs from the last field to the first: the fields with their serial types, the bytes of data, of
  the header and of the zero tail, or the error of a failed expansion.\<close>

type_synonym sizes = "faults \<times> Cell list \<times> nat \<times> nat \<times> nat"

fun record_sizes :: "int \<Rightarrow> faults \<Rightarrow> Cell list \<Rightarrow> (int + sizes) option" where
  "record_sizes file_format ms [] = Some (Inr (ms, [], 0, 0, 0))"
| "record_sizes file_format ms (pRec # rest) = do {
     r \<leftarrow> record_sizes file_format ms rest;
     case r of Inl rc \<Rightarrow> Some (Inl rc)
     | Inr (ms, done, nData, nHdr, nZero) \<Rightarrow> do {
         let (serial_type, len) = sqlite3VdbeSerialType pRec file_format;
         let (rc, ms, pRec, serial_type, len, nZero) =
           (if has pRec MEM_Zero then
              if serial_type = 0 then (SQLITE_OK, ms, pRec, 10, len, nZero)
              else if nData \<noteq> 0 then
                let (rc, pRec) = sqlite3VdbeMemExpandBlob ms pRec in (rc, tl ms, pRec, serial_type, len, nZero)
              else (SQLITE_OK, ms, pRec, serial_type, len - m_nZero pRec, nZero + unat (m_nZero pRec))
            else (SQLITE_OK, ms, pRec, serial_type, len, nZero));
         if rc \<noteq> SQLITE_OK then Some (Inl SQLITE_NOMEM)
         else do {
           v \<leftarrow> (if serial_type \<le> 127 then Some 1 else sqlite3VarintLen (u64_of serial_type));
           Some (Inr (ms, pRec\<lparr>m_uTemp := serial_type\<rparr> # done, nData + unat len, nHdr + v, nZero)) } } }"

text \<open>The size of the header includes the varint that holds it.\<close>

definition header_size :: "nat \<Rightarrow> nat option" where
  "header_size nHdr =
     (if nHdr \<le> 126 then Some (nHdr + 1)
      else do {
        nVarint \<leftarrow> sqlite3VarintLen (word_of_nat nHdr);
        let nHdr = nHdr + nVarint;
        v \<leftarrow> sqlite3VarintLen (word_of_nat nHdr);
        Some (if nVarint < v then nHdr + 1 else nHdr) })"

definition buf_write :: "u8 list \<Rightarrow> nat \<Rightarrow> u8 list \<Rightarrow> u8 list option" where
  "buf_write buf off bs = do {
     check (off + length bs \<le> length buf);
     Some (take off buf @ bs @ drop (off + length bs) buf) }"

text \<open>The second pass writes the serial types from \<open>i\<close> on and the values from \<open>j\<close> on.\<close>

fun write_fields :: "u8 list \<Rightarrow> nat \<Rightarrow> nat \<Rightarrow> Cell list \<Rightarrow> u8 list option" where
  "write_fields z i j [] = Some z"
| "write_fields z i j (pRec # rest) = do {
     t \<leftarrow> putVarint32 (m_uTemp pRec);
     z \<leftarrow> buf_write z i t;
     v \<leftarrow> sqlite3VdbeSerialPut pRec (m_uTemp pRec);
     z \<leftarrow> buf_write z j v;
     write_fields z (i + length t) (j + length v) rest }"

text \<open>\<open>OP_MakeRecord\<close> without an affinity string, in a build without \<open>SQLITE_ENABLE_NULL_TRIM\<close>: the error, or the
  output register; \<open>junk\<close> is what its buffer holds before.\<close>

definition OP_MakeRecord :: "int \<Rightarrow> int \<Rightarrow> faults \<Rightarrow> u8 \<Rightarrow> Cell list \<Rightarrow> Cell \<Rightarrow> (int + Cell) option" where
  "OP_MakeRecord minWriteFileFormat limit ms fill pData pOut = do {
     check (pData \<noteq> []);
     r \<leftarrow> record_sizes minWriteFileFormat ms pData;
     case r of Inl rc \<Rightarrow> Some (Inl rc)
     | Inr (ms, pData, nData, nHdr, nZero) \<Rightarrow> do {
         nHdr \<leftarrow> header_size nHdr;
         let nByte = nHdr + nData;
         if int (nByte + nZero) > limit then Some (Inl SQLITE_TOOBIG)
         else if \<not> alloc_ok ms then Some (Inl SQLITE_NOMEM)
         else do {
           h \<leftarrow> putVarint32 (word_of_nat nHdr);
           z \<leftarrow> buf_write (replicate nByte fill) 0 h;
           z \<leftarrow> write_fields z (length h) nHdr pData;
           let pOut = pOut\<lparr>m_z := z, m_own := True, m_n := nByte, m_flags := MEM_Blob\<rparr>;
           Some (Inr (if nZero \<noteq> 0 then pOut\<lparr>m_u := set_nZero (word_of_nat nZero) (m_u pOut), m_flags := MEM_Blob OR MEM_Zero\<rparr> else pOut)) } } }"

end
