(* ===== verification/Serial_Spec.thy ===== *)
theory Serial_Spec
  imports Serial Varint_Props
begin

text \<open>
  Values, sizes and the layout of a record: what is written for a value is read back, and the two passes of the
  assembly agree on every offset.
\<close>

unbundle bit_operations_syntax

section \<open>Integers\<close>

text \<open>All bits from \<open>k\<close> on repeat the sign.\<close>

definition fits :: "nat \<Rightarrow> u64 \<Rightarrow> bool" where
  "fits k v \<longleftrightarrow> (\<forall>n. k \<le> n \<and> n < 64 \<longrightarrow> bit v n = bit v 63)"

lemma neg_bit: "(v :: u64) <s 0 \<longleftrightarrow> bit v 63"
  by (simp add: word_sless_alt sint_uint signed_take_bit_negative_iff bit_simps)

lemma fits_range:
  assumes "unat (if v <s 0 then NOT v else v) < 2 ^ k"
  shows "fits k v"
proof -
  have z: "unat w < 2 ^ k \<Longrightarrow> k \<le> n \<Longrightarrow> \<not> bit (w :: u64) n" for w n
  proof -
    assume w: "unat w < 2 ^ k" "k \<le> n"
    have "(2 :: nat) ^ k \<le> 2 ^ n" using w(2) by simp
    then have "unat w < 2 ^ n" using w(1) by linarith
    then have "\<not> bit (unat w) n" by (simp add: bit_iff_odd)
    then show ?thesis by (simp add: bit_unsigned_iff)
  qed
  have n: "(v <s 0) = bit v 63" by (rule neg_bit)
  show ?thesis unfolding fits_def
  proof (intro allI impI)
    fix n assume "k \<le> n \<and> n < 64"
    then show "bit v n = bit v 63"
      using z [of "NOT v" n] z [of v n] assms n by (auto simp: bit_simps split: if_splits)
  qed
qed

lemma shifts: "(256 :: 32 word) * x = push_bit 8 x" "(65536 :: 32 word) * x = push_bit 16 x" "(16777216 :: 32 word) * x = push_bit 24 x"
  by (simp_all add: push_bit_eq_mult)

lemma fits_signed: "fits k v \<Longrightarrow> k < 64 \<Longrightarrow> signed_take_bit k v = v"
proof (rule bit_word_eqI)
  fix n assume f: "fits k v" "k < 64" "n < LENGTH(64)"
  show "bit (signed_take_bit k v) n = bit v n"
  proof (cases "k \<le> n")
    case True
    have "bit v k = bit v 63" "bit v n = bit v 63"
      using f(1) [unfolded fits_def, rule_format, of k] f(1) [unfolded fits_def, rule_format, of n] f(2,3) True by simp_all
    moreover have "min k n = k" using True by simp
    ultimately show ?thesis using f(3) by (simp add: bit_signed_take_bit_iff)
  next
    case False
    then have "min k n = n" by simp
    then show ?thesis using f(3) by (simp add: bit_signed_take_bit_iff)
  qed
qed

lemma byte_and: "u8_of (v AND 0xFF) = u8_of (v :: u64)"
proof -
  have e: "v AND 0xFF = take_bit 8 v" by (simp add: take_bit_eq_mask mask_eq_exp_minus_1)
  show ?thesis unfolding e by (rule bit_word_eqI) (auto simp: bit_simps)
qed

text \<open>A signed byte followed by \<open>k\<close> lower bits.\<close>

lemma sign_byte:
  assumes "k \<le> 24" "\<And>n. bit w n \<longleftrightarrow> n < k \<and> bit v n"
  shows "i64_of (push_bit k (scast (u8_of (shr v k))) OR w) = signed_take_bit (k + 7) (v :: u64)"
proof (rule bit_word_eqI)
  fix n assume n: "n < LENGTH(64)"
  show "bit (i64_of (push_bit k (scast (u8_of (shr v k))) OR w)) n = bit (signed_take_bit (k + 7) v) n"
  proof (cases "n < k")
    case True
    then have "min 31 n = n" "min (k + 7) n = n" using assms(1) by simp_all
    then show ?thesis using True n assms by (simp add: bit_simps)
  next
    case False
    define j where "j = min 7 (min 31 n - k)"
    have j: "k \<le> min 31 n" "k + j = min (k + 7) n" "j < 8" "\<not> min 31 n < k" "min 31 n < 32" "min 31 n - k < 32"
      using False assms(1) unfolding j_def by linarith+
    have "bit (i64_of (push_bit k (scast (u8_of (shr v k))) OR w)) n = bit (push_bit k (scast (u8_of (shr v k))) OR w) (min 31 n)"
      using n by (simp add: bit_signed_iff)
    also have "\<dots> = bit (scast (u8_of (shr v k)) :: i32) (min 31 n - k)"
      using j assms(2) by (simp only: bit_or_iff bit_push_bit_iff) simp
    also have "\<dots> = bit (shr v k) j" using j by (simp add: bit_signed_iff bit_unsigned_iff j_def)
    also have "\<dots> = bit v (min (k + 7) n)" by (simp add: bit_drop_bit_eq j(2) [symmetric])
    also have "\<dots> = bit (signed_take_bit (k + 7) v) n" using n by (simp add: bit_signed_take_bit_iff)
    finally show ?thesis .
  qed
qed


lemma uint4: "u64_of (shl (u32_of (u8_of (shr v 24))) 24 OR shl (u32_of (u8_of (shr v 16))) 16 OR
    shl (u32_of (u8_of (shr v 8))) 8 OR u32_of (u8_of v)) = take_bit 32 (v :: u64)" (is "u64_of ?w = _")
proof (rule bit_word_eqI)
  fix n assume "n < LENGTH(64)"
  then show "bit (u64_of ?w) n = bit (take_bit 32 v) n"
    by (cases "n < 8"; cases "n < 16"; cases "n < 24"; cases "n < 32")
      (simp_all add: bit_simps, auto)
qed

lemma join_32: "shl (take_bit 32 (shr v 32)) 32 + take_bit 32 v = (v :: u64)"
proof -
  have "shl (take_bit 32 (shr v 32)) 32 + take_bit 32 v = shl (take_bit 32 (shr v 32)) 32 OR take_bit 32 v"
    by (rule disjunctive_add_eq_or) (rule bit_word_eqI, auto simp: bit_simps)
  also have "\<dots> = v" by (rule bit_word_eqI) (auto simp: bit_simps)
  finally show ?thesis .
qed

lemma join_48: "take_bit 32 v + shl 1 32 * signed_take_bit 15 (shr v 32) = signed_take_bit 47 (v :: u64)"
proof -
  have "take_bit 32 v + shl 1 32 * signed_take_bit 15 (shr v 32) = take_bit 32 v OR shl (signed_take_bit 15 (shr v 32)) 32"
  proof -
    have "shl 1 32 * signed_take_bit 15 (shr v 32) = shl (signed_take_bit 15 (shr v 32)) 32"
      by (simp add: push_bit_eq_mult mult.commute)
    moreover have "take_bit 32 v AND shl (signed_take_bit 15 (shr v 32)) 32 = 0"
      by (rule bit_word_eqI) (auto simp: bit_simps)
    ultimately show ?thesis by (simp add: disjunctive_add_eq_or)
  qed
  also have "\<dots> = signed_take_bit 47 v"
  proof (rule bit_word_eqI)
    fix n assume n: "n < LENGTH(64)"
    show "bit (take_bit 32 v OR shl (signed_take_bit 15 (shr v 32)) 32) n = bit (signed_take_bit 47 v) n"
    proof (cases "n < 32")
      case True
      then have "min 47 n = n" by simp
      then show ?thesis using n True by (simp add: bit_simps)
    next
      case False
      then have "32 + min 15 (n - 32) = min 47 n" "n - 32 < 64" using n by (linarith, simp)
      then show ?thesis using n False by (simp add: bit_simps)
    qed
  qed
  finally show ?thesis .
qed

lemma put_be_bytes:
  "put_be 1 v = [u8_of v]"
  "put_be 2 v = [u8_of (shr v 8), u8_of v]"
  "put_be 3 v = [u8_of (shr v 16), u8_of (shr v 8), u8_of v]"
  "put_be 4 v = [u8_of (shr v 24), u8_of (shr v 16), u8_of (shr v 8), u8_of v]"
  "put_be 6 v = [u8_of (shr v 40), u8_of (shr v 32), u8_of (shr v 24), u8_of (shr v 16), u8_of (shr v 8), u8_of v]"
  "put_be 8 v = [u8_of (shr v 56), u8_of (shr v 48), u8_of (shr v 40), u8_of (shr v 32), u8_of (shr v 24), u8_of (shr v 16),
     u8_of (shr v 8), u8_of v]"
  by (simp_all add: eval_nat_numeral byte_and)


section \<open>Values\<close>

lemma get_set_nZero [simp]: "u32_of (set_nZero k u) = k"
proof (rule bit_word_eqI)
  fix n assume n: "n < LENGTH(32)"
  have e: "(0xFFFFFFFF :: u64) = mask 32" by (simp add: mask_eq_exp_minus_1)
  have "bit (0xFFFFFFFF :: u64) n" unfolding e using n by (simp add: bit_mask_iff)
  then show "bit (u32_of (set_nZero k u)) n = bit k n" using n by (simp add: set_nZero_def bit_simps)
qed

datatype sqlval = VNull | VInt u64 | VReal u64 | VText "u8 list" | VBlob "u8 list"

definition zero_tail :: "Cell \<Rightarrow> u8 list" where
  "zero_tail p = (if has p MEM_Zero then replicate (unat (m_nZero p)) 0 else [])"

definition cell_value :: "Cell \<Rightarrow> sqlval" where
  "cell_value p =
     (if has p MEM_Null then VNull
      else if has p MEM_Int then VInt (m_u p)
      else if has p MEM_Real then VReal (m_u p)
      else if has p MEM_Str then VText (take (m_n p) (m_z p))
      else VBlob (take (m_n p) (m_z p) @ zero_tail p))"

text \<open>A register that may become a field: a real number is not NaN, only a blob has a zero tail, and the length is
  within the limit.\<close>

definition cell_ok :: "Cell \<Rightarrow> bool" where
  "cell_ok p \<longleftrightarrow> has p MEM_Null \<or>
     (if has p MEM_Int then \<not> has p MEM_Zero
      else if has p MEM_Real then \<not> has p MEM_Zero \<and> \<not> sqlite3IsNaN (m_u p)
      else (has p MEM_Str \<longrightarrow> \<not> has p MEM_Zero) \<and> m_n p \<le> length (m_z p) \<and> m_n p + length (zero_tail p) < 2 ^ 30)"

text \<open>The serial type of a field and the bytes it stands for.\<close>

definition field_type :: "int \<Rightarrow> Cell \<Rightarrow> u32" where
  "field_type ff p = (if has p MEM_Null \<and> has p MEM_Zero then 10 else fst (sqlite3VdbeSerialType p ff))"

definition field_bytes :: "int \<Rightarrow> Cell \<Rightarrow> u8 list" where
  "field_bytes ff p =
     (let t = field_type ff p in
      if t \<in> {0, 8, 9, 10} then []
      else if t \<le> 7 then put_be (unat (sqlite3SmallTypeSizes ! unat t)) (m_u p)
      else take (m_n p) (m_z p) @ zero_tail p)"

lemma small_sizes:
  "unat (sqlite3SmallTypeSizes ! unat (1 :: u32)) = 1" "unat (sqlite3SmallTypeSizes ! unat (2 :: u32)) = 2"
  "unat (sqlite3SmallTypeSizes ! unat (3 :: u32)) = 3" "unat (sqlite3SmallTypeSizes ! unat (4 :: u32)) = 4"
  "unat (sqlite3SmallTypeSizes ! unat (5 :: u32)) = 6" "unat (sqlite3SmallTypeSizes ! unat (6 :: u32)) = 8"
  "unat (sqlite3SmallTypeSizes ! unat (7 :: u32)) = 8"
  by (simp_all add: sqlite3SmallTypeSizes_def)

text \<open>The branches of the serial type of an integer, with what each says of the number.\<close>

lemma int_type_cases:
  assumes "\<not> has p MEM_Null" "has p MEM_Int"
  obtains "sqlite3VdbeSerialType p ff = (8, 0)" "m_u p = 0" | "sqlite3VdbeSerialType p ff = (9, 0)" "m_u p = 1"
    | "sqlite3VdbeSerialType p ff = (1, 1)" "fits 7 (m_u p)" | "sqlite3VdbeSerialType p ff = (2, 2)" "fits 15 (m_u p)" | "sqlite3VdbeSerialType p ff = (3, 3)" "fits 23 (m_u p)"
    | "sqlite3VdbeSerialType p ff = (4, 4)" "fits 31 (m_u p)" | "sqlite3VdbeSerialType p ff = (5, 6)" "fits 47 (m_u p)" | "sqlite3VdbeSerialType p ff = (6, 8)"
proof -
  let ?i = "m_u p" let ?u = "if ?i <s 0 then NOT ?i else ?i"
  note d = sqlite3VdbeSerialType_def [of p ff] Let_def
  have fit: "fits k ?i" if "?u \<le> m" "unat m < 2 ^ k" for k m
    using fits_range [of ?i k] that by (simp add: word_le_nat_alt)
  consider (a) "?u \<le> 127" "?i AND 1 = ?i" "ff \<ge> 4" | (b) "?u \<le> 127" "\<not> (?i AND 1 = ?i \<and> ff \<ge> 4)" | (c) "\<not> ?u \<le> 127" "?u \<le> 32767"
    | (d) "\<not> ?u \<le> 127" "\<not> ?u \<le> 32767" "?u \<le> 8388607" | (e) "\<not> ?u \<le> 127" "\<not> ?u \<le> 32767" "\<not> ?u \<le> 8388607" "?u \<le> 2147483647"
    | (f) "\<not> ?u \<le> 127" "\<not> ?u \<le> 32767" "\<not> ?u \<le> 8388607" "\<not> ?u \<le> 2147483647" "?u \<le> MAX_6BYTE"
    | (g) "\<not> ?u \<le> 127" "\<not> ?u \<le> 32767" "\<not> ?u \<le> 8388607" "\<not> ?u \<le> 2147483647" "\<not> ?u \<le> MAX_6BYTE" by blast
  then show thesis
  proof cases
    case a
    have "?i = 0 \<or> ?i = 1"
    proof -
      have "unat (?i mod 2) < 2" by (simp add: unat_mod)
      moreover have "?i mod 2 = ?i" using a(2) by (simp add: and_one_eq)
      ultimately have "unat ?i < 2" by simp
      then show ?thesis by (auto simp: less_2_cases_iff word_unat_eq_iff)
    qed
    then show thesis using that(1,2) a(1,3) assms unfolding d by (auto simp: word_sless_alt)
  next
    case b
    then show thesis using that(3) fit [of 127 7] assms unfolding d by (simp split: if_splits)
  next
    case c
    then show thesis using that(4) fit [of 32767 15] assms unfolding d by simp
  next
    case d
    then show thesis using that(5) fit [of 8388607 23] assms by (simp add: sqlite3VdbeSerialType_def [of p ff] Let_def)
  next
    case e
    then show thesis using that(6) fit [of 2147483647 31] assms by (simp add: sqlite3VdbeSerialType_def [of p ff] Let_def)
  next
    case f': f
    then show thesis using that(7) fit [of MAX_6BYTE 47] assms by (simp add: sqlite3VdbeSerialType_def [of p ff] Let_def MAX_6BYTE_def)
  next
    case g
    then show thesis using that(8) assms by (simp add: sqlite3VdbeSerialType_def [of p ff] Let_def)
  qed
qed


lemma blob_type:
  fixes N b :: nat
  assumes "N < 2 ^ 30" "b < 2"
  defines "t \<equiv> (word_of_nat N * 2 + 12 + word_of_nat b :: u32)"
  shows "unat t = 2 * N + 12 + b" "12 \<le> t" "unat ((t - 12) div 2) = N" "t AND 1 = 0 \<longleftrightarrow> b = 0" "unat (sqlite3VdbeSerialTypeLen t) = N"
proof -
  have t: "t = word_of_nat (2 * N + 12 + b)" by (simp add: t_def)
  show u: "unat t = 2 * N + 12 + b" unfolding t using assms(1,2) by (simp only: unsigned_of_nat) (simp add: take_bit_nat_eq_self)
  show "12 \<le> t" using u by (simp add: word_le_nat_alt)
  then have "unat (t - 12) = 2 * N + b" using u by (simp add: unat_sub_if_size word_le_nat_alt)
  then show d: "unat ((t - 12) div 2) = N" using assms(2) by (simp add: unat_div)
  have "t AND 1 = t mod 2" by (simp add: and_one_eq)
  then show "t AND 1 = 0 \<longleftrightarrow> b = 0" using u assms(2) by (simp add: word_unat_eq_iff unat_mod) presburger
  show "unat (sqlite3VdbeSerialTypeLen t) = N"
  proof (cases "t \<ge> 128")
    case True
    then show ?thesis using d by (simp add: sqlite3VdbeSerialTypeLen_def)
  next
    case False
    then have s: "2 * N + 12 + b < 128" using u by (simp add: word_le_nat_alt)
    have "list_all (\<lambda>k. unat (sqlite3SmallTypeSizes ! (12 + k)) = k div 2) [0..<116]" by code_simp
    then have "k < 116 \<Longrightarrow> unat (sqlite3SmallTypeSizes ! (12 + k)) = k div 2" for k by (simp add: list_all_iff)
    from this [of "2 * N + b"] s have "unat (sqlite3SmallTypeSizes ! (12 + (2 * N + b))) = N" using assms(2) by simp
    moreover have "unat t = 12 + (2 * N + b)" using u by simp
    ultimately have "unat (sqlite3SmallTypeSizes ! unat t) = N" by simp
    moreover have "take_bit 32 N = N" using assms(1) by (intro take_bit_nat_eq_self) simp
    ultimately show ?thesis using False by (simp add: sqlite3VdbeSerialTypeLen_def unsigned_ucast_eq)
  qed
qed

lemma blob_field:
  assumes "cell_ok p" "\<not> has p MEM_Null" "\<not> has p MEM_Int" "\<not> has p MEM_Real"
  defines "N \<equiv> m_n p + length (zero_tail p)"
  shows "field_type ff p = word_of_nat N * 2 + 12 + word_of_nat (if has p MEM_Str then 1 else 0)"
    and "snd (sqlite3VdbeSerialType p ff) = word_of_nat N" and "N < 2 ^ 30" and "m_n p \<le> length (m_z p)"
    and "field_bytes ff p = take (m_n p) (m_z p) @ zero_tail p" and "12 \<le> field_type ff p"
proof -
  have z: "(if has p MEM_Zero then word_of_nat (m_n p) + m_nZero p else word_of_nat (m_n p)) = (word_of_nat N :: u32)"
    by (simp add: N_def zero_tail_def)
  show t: "field_type ff p = word_of_nat N * 2 + 12 + word_of_nat (if has p MEM_Str then 1 else 0)"
    "snd (sqlite3VdbeSerialType p ff) = word_of_nat N"
    using assms(2-4) z by (simp_all add: field_type_def sqlite3VdbeSerialType_def Let_def)
  show n: "N < 2 ^ 30" "m_n p \<le> length (m_z p)" using assms by (auto simp: cell_ok_def N_def)
  have "(if has p MEM_Str then 1 else 0 :: nat) < 2" by simp
  from blob_type(2) [OF n(1) this] show "12 \<le> field_type ff p" using t(1) by simp
  then have "\<not> field_type ff p \<le> 7" "field_type ff p \<notin> {0, 8, 9, 10}" by (auto simp: word_le_nat_alt)
  then show "field_bytes ff p = take (m_n p) (m_z p) @ zero_tail p" unfolding field_bytes_def Let_def by simp
qed

lemma flags_simps:
  "has (p\<lparr>m_flags := MEM_Int\<rparr>) MEM_Null = False" "has (p\<lparr>m_flags := MEM_Int\<rparr>) MEM_Int"
  "has (p\<lparr>m_flags := MEM_Real\<rparr>) MEM_Null = False" "has (p\<lparr>m_flags := MEM_Real\<rparr>) MEM_Int = False" "has (p\<lparr>m_flags := MEM_Real\<rparr>) MEM_Real"
  "has (p\<lparr>m_flags := MEM_Null\<rparr>) MEM_Null" "has (p\<lparr>m_flags := MEM_Null OR MEM_Zero\<rparr>) MEM_Null"
  by (simp_all add: has_def MEM_Int_def MEM_Null_def MEM_Real_def MEM_Zero_def)

lemma int_cell_value: "cell_value (int_cell m i) = VInt i"
  using flags_simps [of "m\<lparr>m_u := i\<rparr>"] by (simp add: cell_value_def int_cell_def)

lemma byte_at_Cons: "nth_opt (x # xs) 0 = Some x" "nth_opt (x # xs) (Suc k) = nth_opt xs k" "nth_opt (x # xs) (numeral n) = nth_opt xs (pred_numeral n)"
  by (simp_all add: nth_opt_def numeral_eq_Suc)

lemma get_simps:
  "sqlite3VdbeSerialGet buf 0 m = Some (0, m\<lparr>m_flags := MEM_Null\<rparr>)"
  "sqlite3VdbeSerialGet buf 1 m = map_option (\<lambda>i. (1, int_cell m (i64_of i))) (ONE_BYTE_INT buf)"
  "sqlite3VdbeSerialGet buf 2 m = map_option (\<lambda>i. (2, int_cell m (i64_of i))) (TWO_BYTE_INT buf)"
  "sqlite3VdbeSerialGet buf 3 m = map_option (\<lambda>i. (3, int_cell m (i64_of i))) (THREE_BYTE_INT buf)"
  "sqlite3VdbeSerialGet buf 4 m = map_option (\<lambda>i. (4, int_cell m (i64_of i))) (FOUR_BYTE_INT buf)"
  "sqlite3VdbeSerialGet buf 5 m = do {
     lo \<leftarrow> FOUR_BYTE_UINT (drop 2 buf); hi \<leftarrow> TWO_BYTE_INT buf; Some (6, int_cell m (u64_of lo + shl 1 32 * i64_of hi)) }"
  "sqlite3VdbeSerialGet buf 6 m = serialGet buf 6 m"
  "sqlite3VdbeSerialGet buf 7 m = serialGet buf 7 m"
  "sqlite3VdbeSerialGet buf 8 m = Some (0, int_cell m 0)"
  "sqlite3VdbeSerialGet buf 9 m = Some (0, int_cell m 1)"
  "sqlite3VdbeSerialGet buf 10 m = Some (0, m\<lparr>m_flags := MEM_Null OR MEM_Zero, m_n := 0, m_u := set_nZero 0 (m_u m)\<rparr>)"
  by (simp_all add: sqlite3VdbeSerialGet_def)

lemma get_blob:
  assumes "12 \<le> t"
  shows "sqlite3VdbeSerialGet buf t m = Some ((t - 12) div 2, m\<lparr>m_z := buf, m_n := unat ((t - 12) div 2),
    m_flags := (if t AND 1 = 0 then MEM_Blob else MEM_Str) OR MEM_Ephem\<rparr>)"
proof -
  have "t \<notin> {0, 1, 2, 3, 4, 5, 6, 7, 8, 9, 10, 11}" using assms by (auto simp: word_le_nat_alt)
  then show ?thesis by (simp add: sqlite3VdbeSerialGet_def Let_def)
qed

lemma bytes_simps:
  "field_type ff p = 0 \<or> field_type ff p = 8 \<or> field_type ff p = 9 \<or> field_type ff p = 10 \<Longrightarrow> field_bytes ff p = []"
  "field_type ff p = 1 \<Longrightarrow> field_bytes ff p = put_be 1 (m_u p)" "field_type ff p = 2 \<Longrightarrow> field_bytes ff p = put_be 2 (m_u p)"
  "field_type ff p = 3 \<Longrightarrow> field_bytes ff p = put_be 3 (m_u p)" "field_type ff p = 4 \<Longrightarrow> field_bytes ff p = put_be 4 (m_u p)"
  "field_type ff p = 5 \<Longrightarrow> field_bytes ff p = put_be 6 (m_u p)" "field_type ff p = 6 \<Longrightarrow> field_bytes ff p = put_be 8 (m_u p)"
  "field_type ff p = 7 \<Longrightarrow> field_bytes ff p = put_be 8 (m_u p)"
  by (auto simp: field_bytes_def Let_def small_sizes [simplified] simp del: put_be.simps)

lemmas read_bytes = put_be_bytes ONE_BYTE_INT_def TWO_BYTE_INT_def THREE_BYTE_INT_def FOUR_BYTE_INT_def FOUR_BYTE_UINT_def byte_at_Cons

lemma read_int:
  "TWO_BYTE_INT (u8_of (shr v 8) # u8_of v # r) = Some (push_bit 8 (scast (u8_of (shr v 8))) OR u32_of (u8_of (v :: u64)))"
  "THREE_BYTE_INT (u8_of (shr v 16) # u8_of (shr v 8) # u8_of v # r) =
     Some (push_bit 16 (scast (u8_of (shr v 16))) OR (shl (u32_of (u8_of (shr v 8))) 8 OR u32_of (u8_of v)))"
  "FOUR_BYTE_INT (u8_of (shr v 24) # u8_of (shr v 16) # u8_of (shr v 8) # u8_of v # r) =
     Some (push_bit 24 (scast (u8_of (shr v 24))) OR (shl (u32_of (u8_of (shr v 16))) 16 OR shl (u32_of (u8_of (shr v 8))) 8 OR u32_of (u8_of v)))"
  by (simp_all add: read_bytes shifts or.assoc)

lemma low_bits:
  "bit (u32_of (u8_of (v :: u64))) n \<longleftrightarrow> n < 8 \<and> bit v n"
  "bit (shl (u32_of (u8_of (shr v 8))) 8 OR u32_of (u8_of v)) n \<longleftrightarrow> n < 16 \<and> bit v n"
  "bit (shl (u32_of (u8_of (shr v 16))) 16 OR shl (u32_of (u8_of (shr v 8))) 8 OR u32_of (u8_of v)) n \<longleftrightarrow> n < 24 \<and> bit v n"
  by (cases "n < 8"; cases "n < 16"; cases "n < 24"; auto simp: bit_simps)+

lemma read_signed:
  "map_option i64_of (TWO_BYTE_INT (u8_of (shr v 8) # u8_of v # r)) = Some (signed_take_bit 15 (v :: u64))"
  "map_option i64_of (THREE_BYTE_INT (u8_of (shr v 16) # u8_of (shr v 8) # u8_of v # r)) = Some (signed_take_bit 23 v)"
  "map_option i64_of (FOUR_BYTE_INT (u8_of (shr v 24) # u8_of (shr v 16) # u8_of (shr v 8) # u8_of v # r)) = Some (signed_take_bit 31 v)"
  unfolding read_int option.map
  using sign_byte [of 8 _ v] sign_byte [of 16 _ v] sign_byte [of 24 _ v] low_bits by simp_all


lemma read_8:
  "serialGet (put_be 8 v @ r) t m = Some (8, m\<lparr>m_u := v, m_flags := (if t = 6 then MEM_Int else if sqlite3IsNaN v then MEM_Null else MEM_Real)\<rparr>)"
proof -
  have "map_option u64_of (FOUR_BYTE_UINT (put_be 8 v @ r)) = Some (take_bit 32 (shr v 32))"
    "map_option u64_of (FOUR_BYTE_UINT (drop 4 (put_be 8 v @ r))) = Some (take_bit 32 v)"
    using uint4 [of "shr v 32"] uint4 [of v] by (simp_all add: read_bytes)
  then obtain x y where "FOUR_BYTE_UINT (put_be 8 v @ r) = Some x" "u64_of x = take_bit 32 (shr v 32)"
      "FOUR_BYTE_UINT (drop 4 (put_be 8 v @ r)) = Some y" "u64_of y = take_bit 32 v" by auto
  then show ?thesis using join_32 [of v] by (simp add: serialGet_def Let_def)
qed

text \<open>What is written for a field is read back.\<close>

lemma get_field:
  assumes ok: "cell_ok p"
  shows "\<exists>m'. sqlite3VdbeSerialGet (field_bytes ff p @ r) (field_type ff p) m = Some (word_of_nat (length (field_bytes ff p)), m') \<and>
    cell_value m' = cell_value p"
proof -
  consider (null) "has p MEM_Null" | (int) "\<not> has p MEM_Null" "has p MEM_Int" | (real) "\<not> has p MEM_Null" "\<not> has p MEM_Int" "has p MEM_Real"
    | (blob) "\<not> has p MEM_Null" "\<not> has p MEM_Int" "\<not> has p MEM_Real" by blast
  then show ?thesis
  proof cases
    case null
    have "cell_value p = VNull" using null by (simp add: cell_value_def)
    moreover have "field_type ff p = 0 \<or> field_type ff p = 10" using null by (simp add: field_type_def sqlite3VdbeSerialType_def)
    moreover have "cell_value (m\<lparr>m_flags := MEM_Null OR MEM_Zero, m_n := 0, m_u := set_nZero 0 (m_u m)\<rparr>) = VNull" "cell_value (m\<lparr>m_flags := MEM_Null\<rparr>) = VNull"
      by (simp_all add: cell_value_def has_def MEM_Null_def MEM_Zero_def)
    ultimately show ?thesis using bytes_simps(1) [of ff p] by (auto simp: get_simps)
  next
    case int
    have v: "cell_value p = VInt (m_u p)" using int by (simp add: cell_value_def)
    have ft: "field_type ff p = fst (sqlite3VdbeSerialType p ff)" using int by (simp add: field_type_def)
    note read = ft get_simps put_be_bytes v int_cell_value
    from int show ?thesis
    proof (cases rule: int_type_cases [where ff = ff])
      case 1
      then show ?thesis using ft bytes_simps(1) [of ff p] by (simp add: read)
    next
      case 2
      then show ?thesis using ft bytes_simps(1) [of ff p] by (simp add: read)
    next
      case 3
      then show ?thesis using ft bytes_simps(2) [of ff p] sign_byte [of 0 0 "m_u p"] fits_signed [of 7 "m_u p"]
        by (simp add: read ONE_BYTE_INT_def byte_at_Cons byte_and)
    next
      case 4
      then show ?thesis using ft bytes_simps(3) [of ff p] read_signed(1) [of "m_u p" r] fits_signed [of 15 "m_u p"] by (auto simp: read)
    next
      case 5
      then show ?thesis using ft bytes_simps(4) [of ff p] read_signed(2) [of "m_u p" r] fits_signed [of 23 "m_u p"] by (auto simp: read)
    next
      case 6
      then show ?thesis using ft bytes_simps(5) [of ff p] read_signed(3) [of "m_u p" r] fits_signed [of 31 "m_u p"] by (auto simp: read)
    next
      case 7
      let ?v = "m_u p"
      have "map_option u64_of (FOUR_BYTE_UINT (drop 2 (put_be 6 ?v @ r))) = Some (take_bit 32 ?v)"
        using uint4 [of ?v] by (simp add: read_bytes)
      moreover have "map_option i64_of (TWO_BYTE_INT (put_be 6 ?v @ r)) = Some (signed_take_bit 15 (shr ?v 32))"
        using read_signed(1) [of "shr ?v 32"] by (simp add: put_be_bytes)
      ultimately show ?thesis using 7 ft bytes_simps(6) [of ff p] join_48 [of ?v] fits_signed [of 47 ?v]
        by (auto simp: ft get_simps v int_cell_value put_be_bytes(5))
    next
      case 8
      then show ?thesis using ft bytes_simps(7) [of ff p] flags_simps [of "m\<lparr>m_u := m_u p\<rparr>"] read_8 [of "m_u p" r 6 m] v
        by (simp add: ft get_simps cell_value_def put_be_bytes(6) del: put_be.simps)
    qed
  next
    case real
    have "field_type ff p = 7" using real by (simp add: field_type_def sqlite3VdbeSerialType_def)
    moreover have "\<not> sqlite3IsNaN (m_u p)" using ok real by (simp add: cell_ok_def)
    ultimately show ?thesis using real bytes_simps(8) [of ff p] flags_simps [of "m\<lparr>m_u := m_u p\<rparr>"] read_8 [of "m_u p" r 7 m]
      by (simp add: get_simps cell_value_def put_be_bytes(6) del: put_be.simps)
  next
    case blob
    note b = blob_field(1,2) [OF ok blob, where ff = ff] blob_field(3,4) [OF ok blob] blob_field(5,6) [OF ok blob, where ff = ff]
    let ?b = "if has p MEM_Str then 1 else 0 :: nat" let ?N = "m_n p + length (zero_tail p)"
    have "?b < 2" by simp
    note t = blob_type [OF b(3) this, folded b(1)]
    have len: "length (field_bytes ff p) = ?N" using b(4,5) by simp
    then have "word_of_nat (length (field_bytes ff p)) = (field_type ff p - 12) div 2" using t(3) by (metis of_nat_unat ucast_id)
    moreover have "has p MEM_Str \<Longrightarrow> zero_tail p = []" using ok blob by (simp add: cell_ok_def zero_tail_def)
    ultimately show ?thesis using get_blob [OF b(6)] t(3,4) len b(4,5) blob
      by (auto simp: cell_value_def has_def MEM_Blob_def MEM_Str_def MEM_Ephem_def MEM_Null_def MEM_Int_def MEM_Real_def
        zero_tail_def [of "_\<lparr>m_flags := _\<rparr>"] MEM_Zero_def)
  qed
qed


section \<open>Sizes\<close>

definition vbytes :: "u32 \<Rightarrow> u8 list" where
  "vbytes t = varint_enc (u64_of t)"

lemma vbytes_len: "sqlite3VarintLen (u64_of t) = Some (length (vbytes t))" and vbytes_small: "1 \<le> length (vbytes t) \<and> length (vbytes t) \<le> 5"
proof -
  have "shr (u64_of t) (7 * 5) = 0" "shr (u64_of t) 56 = 0" by (rule bit_word_eqI, simp add: bit_simps)+
  then show "sqlite3VarintLen (u64_of t) = Some (length (vbytes t))" "1 \<le> length (vbytes t) \<and> length (vbytes t) \<le> 5"
    using ngroups_le [of 5 "u64_of t"] ngroups_pos [of "u64_of t"] by (simp_all add: vbytes_def length_varint_enc varintLen_eq)
qed

lemma vbytes_get: "getVarint32 (vbytes t @ r) = Some (t, word_of_nat (length (vbytes t)))"
  using varint_ref_enc [of "u64_of t" r] cap32_small [OF refl, of t]
  by (simp add: getVarint32_eq sqlite3GetVarint_ref vbytes_def)

lemma small_word: "t < 0x80 \<Longrightarrow> t AND 0x7f = (t :: u32)"
proof -
  assume t: "t < 0x80"
  have e: "(0x7f :: u32) = mask 7" by (simp add: mask_eq_exp_minus_1)
  have "unat (take_bit 7 t) = unat t" using t by (simp add: unsigned_take_bit_eq take_bit_nat_eq_self word_less_nat_alt)
  then show ?thesis unfolding e take_bit_eq_mask [symmetric] by (simp add: word_unat_eq_iff)
qed

lemma vbytes_one: "t < 0x80 \<Longrightarrow> vbytes t = [u8_of t]"
proof -
  assume t: "t < 0x80"
  have "u64_of t \<le> 0x7f" using t by (simp add: word_le_nat_alt word_less_nat_alt unsigned_ucast_eq take_bit_nat_eq_self)
  then have "Some (vbytes t) = Some [u8_of (u64_of t AND 0x7f)]"
    using put_eq [of "u64_of t"] by (simp add: vbytes_def sqlite3PutVarint_def)
  moreover have "u64_of t AND 0x7f = u64_of (t AND 0x7f)"
  proof -
    have e: "(0x7f :: u64) = mask 7" "(0x7f :: u32) = mask 7" by (simp_all add: mask_eq_exp_minus_1)
    show ?thesis unfolding e by (rule bit_word_eqI) (auto simp: bit_simps)
  qed
  moreover have "u8_of (u64_of t) = u8_of t" by (rule bit_word_eqI) (simp add: bit_simps)
  ultimately show ?thesis using small_word [OF t] by simp
qed

lemma vbytes_put: "putVarint32 t = Some (vbytes t)"
  using vbytes_one [of t] put_eq [of "u64_of t"] by (simp add: putVarint32_def vbytes_def)

lemma vbytes_varint: "t \<le> 127 \<Longrightarrow> length (vbytes t) = 1"
  using vbytes_one [of t] by (simp add: word_le_nat_alt word_less_nat_alt)

text \<open>The header size is a fixed point.\<close>

lemma vbytes_mono:
  assumes "0 < n"
  shows "length (vbytes t) \<le> n \<longleftrightarrow> unat t < 2 ^ (7 * n)"
proof -
  have l: "length (vbytes t) = ngroups (u64_of t)" using vbytes_len [of t] varintLen_eq by simp
  have "ngroups v \<le> n \<longleftrightarrow> shr v (7 * n) = 0" for v
  proof
    assume "ngroups v \<le> n"
    then have "shr v (7 * n) = shr (shr v (7 * ngroups v)) (7 * n - 7 * ngroups v)" by simp
    then show "shr v (7 * n) = 0" by (simp only: shr_ngroups drop_bit_of_0)
  qed (use assms in \<open>simp add: ngroups_le\<close>)
  moreover have "shr (u64_of t) (7 * n) = 0 \<longleftrightarrow> unat t < 2 ^ (7 * n)"
    by (simp add: word_unat_eq_iff unat_shr div_eq_0_iff unsigned_ucast_eq take_bit_nat_eq_self unsigned_less [of t, simplified] order.strict_trans2 [OF unsigned_less])
  ultimately show ?thesis using l by simp
qed

definition vl :: "nat \<Rightarrow> nat" where
  "vl n = length (vbytes (word_of_nat n))"

lemma vl_le: "n < 2 ^ 32 \<Longrightarrow> 0 < k \<Longrightarrow> vl n \<le> k \<longleftrightarrow> n < 2 ^ (7 * k)"
  using vbytes_mono [of k "word_of_nat n"] by (simp add: vl_def unsigned_of_nat take_bit_nat_eq_self)

lemma vl_small: "1 \<le> vl n" "vl n \<le> 5"
  using vbytes_small by (auto simp: vl_def)

lemma vl_varint: "n < 2 ^ 32 \<Longrightarrow> sqlite3VarintLen (word_of_nat n) = Some (vl n)"
proof -
  assume "n < 2 ^ 32"
  then have "u64_of (word_of_nat n :: u32) = word_of_nat n"
    by (simp add: word_unat_eq_iff unsigned_ucast_eq unsigned_of_nat take_bit_nat_eq_self)
  then show ?thesis using vbytes_len [of "word_of_nat n"] by (simp add: vl_def)
qed

lemma header_size_ok:
  assumes "n < 2 ^ 31"
  shows "\<exists>h. header_size n = Some h \<and> h = n + vl h \<and> h \<le> n + 6"
proof (cases "n \<le> 126")
  case True
  then have "vl (n + 1) \<le> 1" using vl_le [of "n + 1" 1] by simp
  then have "vl (n + 1) = 1" using vl_small(1) [of "n + 1"] by linarith
  then have "n + 1 = n + vl (n + 1)" by linarith
  moreover have "header_size n = Some (n + 1)" using True by (simp add: header_size_def)
  ultimately show ?thesis by (intro exI [of _ "n + 1"] conjI) (assumption, assumption, simp)
next
  case False
  let ?l = "vl n" let ?m = "n + vl n"
  have m: "?m < 2 ^ 32" "?m + 1 < 2 ^ 32" using assms vl_small(2) [of n] by simp_all
  have n: "n < 2 ^ (7 * ?l)" using vl_le [of n ?l] assms vl_small(1) [of n] by simp
  have hs: "header_size n = Some (if ?l < vl ?m then ?m + 1 else ?m)"
    using False m assms by (simp add: header_size_def vl_varint Let_def del: of_nat_add)
  have "?l \<le> vl ?m"
  proof (rule ccontr)
    assume "\<not> ?l \<le> vl ?m"
    then have "?m < 2 ^ (7 * vl ?m)" "vl ?m < ?l" using vl_le [of ?m "vl ?m"] m(1) vl_small(1) [of ?m] by simp_all
    then have "?l \<le> vl ?m" using vl_le [of n "vl ?m"] assms vl_small(1) [of ?m] by simp
    then show False using \<open>vl ?m < ?l\<close> by simp
  qed
  moreover have "vl (?m + 1) = ?l + 1" if "?l < vl ?m"
  proof -
    have "2 ^ (7 * ?l) \<le> ?m" using that vl_le [of ?m ?l] m(1) vl_small(1) [of n] by simp
    then have "\<not> vl (?m + 1) \<le> ?l" using vl_le [of "?m + 1" ?l] m(2) vl_small(1) [of n] by simp
    moreover have "?m + 1 < 2 ^ (7 * (?l + 1))"
    proof -
      have "?l < 2 ^ (7 * ?l)" by (rule less_le_trans [OF less_exp [of ?l] power_increasing]) auto
      then have "?l + 1 \<le> 2 ^ (7 * ?l)" by simp
      then have "?m + 1 < 2 ^ (7 * ?l) + 2 ^ (7 * ?l)" using n by linarith
      then show ?thesis by (simp add: power_add)
    qed
    then have "vl (?m + 1) \<le> ?l + 1" using vl_le [of "?m + 1" "?l + 1"] m(2) by simp
    ultimately show ?thesis by simp
  qed
  ultimately show ?thesis using hs vl_small(2) [of n] by (cases "?l < vl ?m") auto
qed


lemma length_put_be [simp]: "length (put_be k v) = k"
  by (induction k arbitrary: v) auto

text \<open>The length that comes with a serial type is the length of the field.\<close>

lemma field_length:
  assumes ok: "cell_ok p" and n: "\<not> (has p MEM_Null \<and> has p MEM_Zero)"
  shows "sqlite3VdbeSerialTypeLen (fst (sqlite3VdbeSerialType p ff)) = snd (sqlite3VdbeSerialType p ff)"
    and "unat (snd (sqlite3VdbeSerialType p ff)) = length (field_bytes ff p)"
proof -
  have ft: "field_type ff p = fst (sqlite3VdbeSerialType p ff)" using n by (auto simp: field_type_def)
  consider (null) "has p MEM_Null" | (int) "\<not> has p MEM_Null" "has p MEM_Int" | (real) "\<not> has p MEM_Null" "\<not> has p MEM_Int" "has p MEM_Real"
    | (blob) "\<not> has p MEM_Null" "\<not> has p MEM_Int" "\<not> has p MEM_Real" by blast
  then have "sqlite3VdbeSerialTypeLen (fst (sqlite3VdbeSerialType p ff)) = snd (sqlite3VdbeSerialType p ff) \<and>
      unat (snd (sqlite3VdbeSerialType p ff)) = length (field_bytes ff p)"
  proof cases
    case null
    then have s: "sqlite3VdbeSerialType p ff = (0, 0)" by (simp add: sqlite3VdbeSerialType_def)
    then show ?thesis using ft bytes_simps(1) [of ff p] by (simp add: sqlite3VdbeSerialTypeLen_def sqlite3SmallTypeSizes_def)
  next
    case int
    show ?thesis
      by (rule int_type_cases [OF int, where ff = ff])
        (use ft bytes_simps [of ff p] in \<open>simp_all add: word_le_nat_alt sqlite3VdbeSerialTypeLen_def sqlite3SmallTypeSizes_def del: put_be.simps\<close>)
  next
    case real
    then have s: "sqlite3VdbeSerialType p ff = (7, 8)" by (simp add: sqlite3VdbeSerialType_def)
    then show ?thesis using ft bytes_simps(8) [of ff p] by (simp add: sqlite3VdbeSerialTypeLen_def sqlite3SmallTypeSizes_def del: put_be.simps)
  next
    case blob
    let ?b = "if has p MEM_Str then 1 else 0 :: nat" let ?N = "m_n p + length (zero_tail p)"
    have b: "?b < 2" by simp
    note n = blob_field(3,4) [OF ok blob] and f = blob_field(1,2) [OF ok blob, where ff = ff] blob_field(5,6) [OF ok blob, where ff = ff]
    have "unat (sqlite3VdbeSerialTypeLen (field_type ff p)) = ?N" using blob_type(5) [OF n(1) b] f(1) by simp
    moreover have u: "unat (word_of_nat ?N :: u32) = ?N" using n(1) by (simp add: unsigned_of_nat take_bit_nat_eq_self del: of_nat_add)
    ultimately have "sqlite3VdbeSerialTypeLen (field_type ff p) = word_of_nat ?N" by (simp only: word_unat_eq_iff)
    then show ?thesis using f u n ft by simp
  qed
  then show "sqlite3VdbeSerialTypeLen (fst (sqlite3VdbeSerialType p ff)) = snd (sqlite3VdbeSerialType p ff)"
    "unat (snd (sqlite3VdbeSerialType p ff)) = length (field_bytes ff p)" by auto
qed

end
