(* ===== verification/Serial_Props.thy ===== *)
theory Serial_Props
  imports Serial_Spec
begin

text \<open>Records: what \<open>OP_MakeRecord\<close> assembles is decoded to the same values.\<close>

section \<open>The first pass\<close>

definition sized :: "int \<Rightarrow> faults \<Rightarrow> Cell list \<Rightarrow> (int + sizes) \<Rightarrow> bool" where
  "sized ff ms0 cs r \<longleftrightarrow> (case r of Inl rc \<Rightarrow> rc = SQLITE_NOMEM \<and> \<not> no_fault ms0
    | Inr (ms, done, nData, nHdr, nZero) \<Rightarrow> (no_fault ms0 \<longrightarrow> no_fault ms) \<and> map m_uTemp done = map (field_type ff) cs \<and>
        nHdr = length (concat (map (\<lambda>c. vbytes (field_type ff c)) cs)) \<and>
        (\<exists>bs. map (\<lambda>c. sqlite3VdbeSerialPut c (m_uTemp c)) done = map Some bs \<and> nData = length (concat bs) \<and>
          concat bs @ replicate nZero 0 = concat (map (field_bytes ff) cs)))"

lemma put_field:
  assumes ok: "cell_ok p" and z: "\<not> has p MEM_Zero"
  shows "sqlite3VdbeSerialPut p (field_type ff p) = Some (field_bytes ff p)"
proof -
  consider (null) "has p MEM_Null" | (int) "\<not> has p MEM_Null" "has p MEM_Int" | (real) "\<not> has p MEM_Null" "\<not> has p MEM_Int" "has p MEM_Real"
    | (blob) "\<not> has p MEM_Null" "\<not> has p MEM_Int" "\<not> has p MEM_Real" by blast
  then show ?thesis
  proof cases
    case null
    then have "field_type ff p = 0" using z by (simp add: field_type_def sqlite3VdbeSerialType_def)
    then show ?thesis using bytes_simps(1) [of ff p] by (simp add: sqlite3VdbeSerialPut_def)
  next
    case int
    have ft: "field_type ff p = fst (sqlite3VdbeSerialType p ff)" using int by (simp add: field_type_def)
    show ?thesis
      by (rule int_type_cases [OF int, where ff = ff])
        (use ft bytes_simps [of ff p] in \<open>simp_all add: sqlite3VdbeSerialPut_def word_le_nat_alt word_less_nat_alt small_sizes [simplified] del: put_be.simps\<close>)
  next
    case real
    then have "field_type ff p = 7" by (simp add: field_type_def sqlite3VdbeSerialType_def)
    then show ?thesis using bytes_simps(8) [of ff p]
      by (simp add: sqlite3VdbeSerialPut_def word_le_nat_alt word_less_nat_alt small_sizes [simplified] del: put_be.simps)
  next
    case blob
    note n = blob_field(3,4) [OF ok blob] and f = blob_field(5,6) [OF ok blob, where ff = ff]
    have "\<not> field_type ff p \<le> 7" using f(2) by (auto simp: word_le_nat_alt)
    moreover have "word_of_nat (m_n p) = sqlite3VdbeSerialTypeLen (field_type ff p)"
      using field_length(1) [OF ok, of ff] blob_field(2) [OF ok blob, of ff] z by (simp add: field_type_def zero_tail_def)
    ultimately show ?thesis using f n z by (simp add: sqlite3VdbeSerialPut_def zero_tail_def)
  qed
qed

lemma put_simps:
  "sqlite3VdbeSerialPut (x\<lparr>m_uTemp := t\<rparr>) t' = sqlite3VdbeSerialPut x t'"
  "sqlite3VdbeSerialPut x 10 = Some []"
  "12 \<le> t \<Longrightarrow> m_n x \<le> length (m_z x) \<Longrightarrow>
    word_of_nat (m_n x) + (if has x MEM_Zero then m_nZero x else 0) = sqlite3VdbeSerialTypeLen t \<Longrightarrow>
    sqlite3VdbeSerialPut x t = Some (take (m_n x) (m_z x))"
proof -
  show "sqlite3VdbeSerialPut (x\<lparr>m_uTemp := t\<rparr>) t' = sqlite3VdbeSerialPut x t'" "sqlite3VdbeSerialPut x 10 = Some []"
    by (simp_all add: sqlite3VdbeSerialPut_def has_def m_nZero_def)
  assume "12 \<le> t" "m_n x \<le> length (m_z x)"
    "word_of_nat (m_n x) + (if has x MEM_Zero then m_nZero x else 0) = sqlite3VdbeSerialTypeLen t"
  moreover from this(1) have "\<not> t \<le> 7" by (auto simp: word_le_nat_alt)
  ultimately show "sqlite3VdbeSerialPut x t = Some (take (m_n x) (m_z x))"
    by (simp add: sqlite3VdbeSerialPut_def split del: if_split)
qed

lemma expand_flags: "alloc_ok ms \<Longrightarrow> \<not> has (snd (sqlite3VdbeMemExpandBlob ms p)) MEM_Zero"
proof -
  have "x AND NOT (MEM_Zero OR MEM_Term) AND MEM_Zero = 0" for x
    by (rule bit_word_eqI) (auto simp: bit_simps)
  then have "(y AND NOT (MEM_Zero OR MEM_Term)) AND MEM_Zero = 0" for y by (simp only: and.assoc)
  moreover have "alloc_ok ms \<Longrightarrow> m_flags (snd (sqlite3VdbeMemExpandBlob ms p)) =
      (m_flags p AND NOT (MEM_Dyn OR MEM_Ephem OR MEM_Static)) AND NOT (MEM_Zero OR MEM_Term)"
    by (simp add: sqlite3VdbeMemExpandBlob_def and.assoc)
  ultimately show "alloc_ok ms \<Longrightarrow> ?thesis" by (simp only: has_def simp_thms)
qed

lemma record_sizes_ok:
  "\<forall>c \<in> set cs. cell_ok c \<Longrightarrow> \<exists>r. record_sizes ff ms cs = Some r \<and> sized ff ms cs r"
proof (induction cs)
  case Nil
  show ?case by (simp add: sized_def)
next
  case (Cons c cs)
  then obtain r where r: "record_sizes ff ms cs = Some r" "sized ff ms cs r" by auto
  have ok: "cell_ok c" using Cons.prems by simp
  show ?case
  proof (cases r)
    case (Inl rc)
    then show ?thesis using r by (auto simp: sized_def)
  next
    case (Inr s)
    obtain ms' dn nData nHdr nZero where s: "s = (ms', dn, nData, nHdr, nZero)" by (cases s)
    have nf: "no_fault ms \<Longrightarrow> no_fault ms'" "no_fault ms' \<Longrightarrow> alloc_ok ms' \<and> no_fault (tl ms')"
      using r(2) Inr s no_fault_alloc [of ms'] by (auto simp: sized_def)
    obtain bs where bs: "map m_uTemp dn = map (field_type ff) cs" "nHdr = length (concat (map (\<lambda>c. vbytes (field_type ff c)) cs))"
        "map (\<lambda>c. sqlite3VdbeSerialPut c (m_uTemp c)) dn = map Some bs" "nData = length (concat bs)"
        "concat bs @ replicate nZero 0 = concat (map (field_bytes ff) cs)"
      using r(2) Inr s by (auto simp: sized_def)
    obtain t len where tl: "sqlite3VdbeSerialType c ff = (t, len)" by fastforce
    show ?thesis
    proof (cases "has c MEM_Zero")
      case False
      have f: "field_type ff c = t" "unat len = length (field_bytes ff c)"
        using False tl field_length(2) [OF ok, of ff] by (simp_all add: field_type_def)
      have "record_sizes ff ms (c # cs) = Some (Inr (ms', c\<lparr>m_uTemp := t\<rparr> # dn, nData + unat len, nHdr + length (vbytes t), nZero))"
        using r(1) Inr s tl False f(1) by (simp add: Let_def vbytes_varint vbytes_len)
      moreover have "sized ff ms (c # cs) (Inr (ms', c\<lparr>m_uTemp := t\<rparr> # dn, nData + unat len, nHdr + length (vbytes t), nZero))"
        using bs nf f put_field [OF ok False, of ff]
        by (auto simp: sized_def put_simps intro!: exI [of _ "field_bytes ff c # bs"])
      ultimately show ?thesis by blast
    next
      case z: True
      show ?thesis
      proof (cases "has c MEM_Null")
        case True
        then have f: "field_type ff c = 10" "field_bytes ff c = []" "t = 0" "len = 0"
          using z tl bytes_simps(1) [of ff c] by (simp_all add: field_type_def sqlite3VdbeSerialType_def)
        have "record_sizes ff ms (c # cs) = Some (Inr (ms', c\<lparr>m_uTemp := 10\<rparr> # dn, nData, nHdr + length (vbytes 10), nZero))"
          using r(1) Inr s tl z f by (simp add: Let_def vbytes_varint vbytes_len)
        moreover have "sized ff ms (c # cs) (Inr (ms', c\<lparr>m_uTemp := 10\<rparr> # dn, nData, nHdr + length (vbytes 10), nZero))"
          using bs nf f by (auto simp: sized_def put_simps intro!: exI [of _ "[] # bs"])
        ultimately show ?thesis by blast
      next
        case nn: False
        then have ni: "\<not> has c MEM_Int" "\<not> has c MEM_Real" using ok z by (auto simp: cell_ok_def split: if_splits)
        note n = blob_field(3,4) [OF ok nn ni] and b = blob_field(1,2,5,6) [OF ok nn ni, where ff = ff]
        have f0: "field_type ff c = t" using nn tl by (simp add: field_type_def)
        have "12 \<le> t" using b(4) f0 by simp
        moreover have "unat len = m_n c + length (zero_tail c)" using tl field_length(2) [OF ok, of ff] nn b(3) n(2) by simp
        ultimately have f: "unat len = m_n c + length (zero_tail c)" "t \<noteq> 0" "\<not> t \<le> 7" by (auto simp: word_le_nat_alt)
        have zt: "zero_tail c = replicate (unat (m_nZero c)) 0" using z by (simp add: zero_tail_def)
        have tlen: "sqlite3VdbeSerialTypeLen t = len" using tl field_length(1) [OF ok, of ff] nn by simp
        have lc: "word_of_nat (m_n c) + m_nZero c = len" using b(2) tl zt by simp
        have "length (field_bytes ff c) = unat len" using tl field_length(2) [OF ok, of ff] nn by simp
        then have le: "word_of_nat (length (field_bytes ff c)) = len" by (simp only: word_unat_eq_iff) simp
        show ?thesis
        proof (cases "nData = 0")
          case True
          have cb: "concat bs = []" using bs(4) True by simp
          have l: "unat (len - m_nZero c) = m_n c" using f(1) zt by (simp add: unat_sub_if')
          have "record_sizes ff ms (c # cs) = Some (Inr (ms', c\<lparr>m_uTemp := t\<rparr> # dn, nData + unat (len - m_nZero c), nHdr + length (vbytes t),
              nZero + unat (m_nZero c)))"
            using r(1) Inr s tl z f(2) f0 True by (simp add: Let_def vbytes_varint vbytes_len)
          moreover have "sized ff ms (c # cs) (Inr (ms', c\<lparr>m_uTemp := t\<rparr> # dn, nData + unat (len - m_nZero c), nHdr + length (vbytes t),
              nZero + unat (m_nZero c)))"
            using nf bs(1-3) bs(5) [unfolded cb] cb f0 l True n(2) b(3,4) zt tlen lc z
            by (auto simp: sized_def put_simps replicate_add add.commute [of nZero] intro!: exI [of _ "take (m_n c) (m_z c) # bs"])
          ultimately show ?thesis by blast
        next
          case nd: False
          show ?thesis
          proof (cases "alloc_ok ms'")
            case False
            then have "record_sizes ff ms (c # cs) = Some (Inl SQLITE_NOMEM)"
              using r(1) Inr s tl z f(2) nd by (simp add: Let_def sqlite3VdbeMemExpandBlob_def SQLITE_NOMEM_def SQLITE_OK_def)
            then show ?thesis using nf False by (auto simp: sized_def)
          next
            case True
            obtain e where e: "sqlite3VdbeMemExpandBlob ms' c = (SQLITE_OK, e)" "m_n e = length (field_bytes ff c)" "m_z e = field_bytes ff c"
                "\<not> has e MEM_Zero"
              using True n(2) b(3) zt expand_flags [OF True, of c]
              by (intro that [of "snd (sqlite3VdbeMemExpandBlob ms' c)"]) (simp_all add: sqlite3VdbeMemExpandBlob_def)
            have "record_sizes ff ms (c # cs) = Some (Inr (tl ms', e\<lparr>m_uTemp := t\<rparr> # dn, nData + unat len, nHdr + length (vbytes t), nZero))"
              using r(1) Inr s tl z f(2) f0 nd e by (simp add: Let_def vbytes_varint vbytes_len)
            moreover have "sized ff ms (c # cs) (Inr (tl ms', e\<lparr>m_uTemp := t\<rparr> # dn, nData + unat len, nHdr + length (vbytes t), nZero))"
              using bs nf f(1) f0 n(2) b(3,4) e tlen le by (auto simp: sized_def put_simps intro!: exI [of _ "field_bytes ff c # bs"])
            ultimately show ?thesis by blast
          qed
        qed
      qed
    qed
  qed
qed

section \<open>The second pass\<close>

lemma buf_write_mid: "length x = length y \<Longrightarrow> buf_write (a @ x @ e) (length a) y = Some (a @ y @ e)"
  by (simp add: buf_write_def)

lemma write_fields_ok:
  "map (\<lambda>c. sqlite3VdbeSerialPut c (m_uTemp c)) dn = map Some bs \<Longrightarrow>
   length t0 = length (concat (map (\<lambda>c. vbytes (m_uTemp c)) dn)) \<Longrightarrow> length b0 = length (concat bs) \<Longrightarrow>
   write_fields (a @ t0 @ m @ b0 @ e) (length a) (length a + length t0 + length m) dn =
     Some (a @ concat (map (\<lambda>c. vbytes (m_uTemp c)) dn) @ m @ concat bs @ e)"
proof (induction dn arbitrary: a t0 m b0 bs)
  case Nil
  then show ?case by simp
next
  case (Cons c dn)
  let ?t = "vbytes (m_uTemp c)"
  obtain v bs' where bs: "bs = v # bs'" using Cons.prems(1) by (cases bs) auto
  obtain t1 t2 where t: "t0 = t1 @ t2" "length t1 = length ?t" "length t2 = length (concat (map (\<lambda>c. vbytes (m_uTemp c)) dn))"
    using Cons.prems(2) by (intro that [of "take (length ?t) t0" "drop (length ?t) t0"]) auto
  obtain b1 b2 where b: "b0 = b1 @ b2" "length b1 = length v" "length b2 = length (concat bs')"
    using Cons.prems(3) bs by (intro that [of "take (length v) b0" "drop (length v) b0"]) auto
  have w1: "buf_write (a @ t0 @ m @ b0 @ e) (length a) ?t = Some (a @ ?t @ t2 @ m @ b0 @ e)"
    using buf_write_mid [OF t(2), of a "t2 @ m @ b0 @ e"] t(1) by simp
  have w2: "buf_write (a @ ?t @ t2 @ m @ b0 @ e) (length a + length t0 + length m) v = Some (a @ ?t @ t2 @ m @ v @ b2 @ e)"
    using buf_write_mid [OF b(2), of "a @ ?t @ t2 @ m" "b2 @ e"] b(1) t by (simp add: add.assoc)
  have "write_fields ((a @ ?t) @ t2 @ (m @ v) @ b2 @ e) (length (a @ ?t)) (length (a @ ?t) + length t2 + length (m @ v)) dn =
      Some ((a @ ?t) @ concat (map (\<lambda>c. vbytes (m_uTemp c)) dn) @ (m @ v) @ concat bs' @ e)"
    using Cons.prems(1) bs t(3) b(3) by (intro Cons.IH) auto
  then show ?case using Cons.prems(1) bs w1 w2 t by (simp add: vbytes_put add.assoc)
qed

section \<open>Decoding\<close>

lemma sint_small: "k < 2 ^ 31 \<Longrightarrow> sint (word_of_nat k :: i32) = int k"
  by (simp add: signed_of_nat signed_take_bit_int_eq_self)

lemma unpack_fields:
  "\<forall>c \<in> set cs. cell_ok c \<Longrightarrow> length cs \<le> n \<Longrightarrow> length cs \<le> length aMem \<Longrightarrow>
   length (ht @ concat (map (\<lambda>c. vbytes (field_type ff c)) cs) @ dt @ concat (map (field_bytes ff) cs)) < 2 ^ 31 \<Longrightarrow>
   nKey = int (length (ht @ concat (map (\<lambda>c. vbytes (field_type ff c)) cs) @ dt @ concat (map (field_bytes ff) cs))) \<Longrightarrow>
   \<exists>out. unpack_loop enc nKey (ht @ concat (map (\<lambda>c. vbytes (field_type ff c)) cs) @ dt @ concat (map (field_bytes ff) cs))
      (word_of_nat (length ht + length (concat (map (\<lambda>c. vbytes (field_type ff c)) cs)))) n (word_of_nat (length ht))
      (word_of_nat (length ht + length (concat (map (\<lambda>c. vbytes (field_type ff c)) cs)) + length dt)) aMem = Some out \<and>
     map cell_value out = map cell_value cs"
proof (induction cs arbitrary: ht dt n aMem)
  case Nil
  show ?case by (subst unpack_loop.simps) simp
next
  case (Cons c cs)
  let ?t = "field_type ff c" let ?v = "field_bytes ff c"
  let ?T = "concat (map (\<lambda>c. vbytes (field_type ff c)) cs)" let ?B = "concat (map (field_bytes ff) cs)"
  let ?key = "ht @ vbytes ?t @ ?T @ dt @ ?v @ ?B"
  let ?H = "length ht + length (vbytes ?t) + length ?T"
  have len: "?H + length dt + length ?v + length ?B < 2 ^ 31" using Cons.prems(4) by simp
  have vt: "1 \<le> length (vbytes ?t)" using vbytes_small by simp
  have w: "unat (word_of_nat (length ht) :: u32) = length ht" "unat (word_of_nat ?H :: u32) = ?H"
      "sint (word_of_nat (?H + length dt) :: i32) = int (?H + length dt)"
    using len by (simp_all add: unsigned_of_nat take_bit_nat_eq_self sint_small del: of_nat_add)
  obtain m ms where am: "aMem = m # ms" using Cons.prems(3) by (cases aMem) auto
  obtain m' where m': "sqlite3VdbeSerialGet (?v @ ?B) ?t (m\<lparr>m_enc := enc, m_own := False, m_z := []\<rparr>) =
      Some (word_of_nat (length ?v), m')" "cell_value m' = cell_value c"
    using get_field [of c ff ?B] Cons.prems(1) by fastforce
  have idx: "word_of_nat (length ht) + u32_of (word_of_nat (length (vbytes ?t)) :: u8) = (word_of_nat (length ht + length (vbytes ?t)) :: u32)"
    using vbytes_small [of ?t] by (simp add: word_unat_eq_iff unsigned_ucast_eq unsigned_of_nat take_bit_nat_eq_self)
  have step: "unpack_loop enc nKey ?key (word_of_nat ?H) n (word_of_nat (length ht)) (word_of_nat (?H + length dt)) aMem =
      (if n \<le> 1 then Some [m'] else map_option ((#) m')
        (unpack_loop enc nKey ?key (word_of_nat ?H) (n - 1) (word_of_nat (length ht + length (vbytes ?t))) (word_of_nat (?H + length dt + length ?v)) ms))"
  proof -
    have "length ht < ?H" using vt by linarith
    then have c: "word_of_nat (length ht) < (word_of_nat ?H :: u32)" by (simp only: word_less_nat_alt w)
    have d: "sint (word_of_nat (?H + length dt) :: i32) \<le> nKey" "nat (sint (word_of_nat (?H + length dt) :: i32)) = ?H + length dt"
        "0 \<le> sint (word_of_nat (?H + length dt) :: i32)"
      using Cons.prems(5) by (simp_all only: w(3), simp_all)
    have k: "drop (?H + length dt) ?key = ?v @ ?B" "getVarint32 (drop (length ht) ?key) = Some (?t, word_of_nat (length (vbytes ?t)))"
      using vbytes_get [of ?t "?T @ dt @ ?v @ ?B"] by simp_all
    have e: "word_of_nat (?H + length dt) + word_of_nat (length ?v) = (word_of_nat (?H + length dt + length ?v) :: i32)" by simp
    show ?thesis
      by (subst unpack_loop.simps)
        (simp only: c d k w(1) am m' idx e Let_def check_def if_True simp_thms if_bool_eq_conj option.case list.case bind.bind_lunit prod.case)
  qed
  show ?case
  proof (cases "n \<le> 1")
    case True
    then have "cs = []" using Cons.prems(2) by (cases cs) auto
    then show ?thesis using step True m'(2) by (simp add: add.assoc)
  next
    case False
    have "\<exists>out. unpack_loop enc nKey ((ht @ vbytes ?t) @ ?T @ (dt @ ?v) @ ?B) (word_of_nat (length (ht @ vbytes ?t) + length ?T)) (n - 1)
        (word_of_nat (length (ht @ vbytes ?t))) (word_of_nat (length (ht @ vbytes ?t) + length ?T + length (dt @ ?v))) ms = Some out \<and>
        map cell_value out = map cell_value cs"
      using Cons.prems am by (intro Cons.IH) auto
    then obtain out where out: "unpack_loop enc nKey ((ht @ vbytes ?t) @ ?T @ (dt @ ?v) @ ?B) (word_of_nat (length (ht @ vbytes ?t) + length ?T)) (n - 1)
        (word_of_nat (length (ht @ vbytes ?t))) (word_of_nat (length (ht @ vbytes ?t) + length ?T + length (dt @ ?v))) ms = Some out"
        "map cell_value out = map cell_value cs" by blast
    have "(ht @ vbytes ?t) @ ?T @ (dt @ ?v) @ ?B = ?key" "length (ht @ vbytes ?t) + length ?T = ?H" "length (ht @ vbytes ?t) = length ht + length (vbytes ?t)"
      "?H + length (dt @ ?v) = ?H + length dt + length ?v" by simp_all
    note out' = out(1) [unfolded this]
    have "\<exists>out. unpack_loop enc nKey ?key (word_of_nat ?H) n (word_of_nat (length ht)) (word_of_nat (?H + length dt)) aMem = Some out \<and>
        map cell_value out = map cell_value (c # cs)"
      unfolding step using False out' out(2) m'(2) by (simp del: of_nat_add)
    moreover have "concat (map (\<lambda>c. vbytes (field_type ff c)) (c # cs)) = vbytes ?t @ ?T" "concat (map (field_bytes ff) (c # cs)) = ?v @ ?B" by simp_all
    ultimately show ?thesis by (simp add: add.assoc del: of_nat_add)
  qed
qed

section \<open>Records\<close>

text \<open>No record is longer than this.\<close>

definition record_bound :: "int \<Rightarrow> Cell list \<Rightarrow> nat" where
  "record_bound ff cs = length (concat (map (\<lambda>c. vbytes (field_type ff c)) cs)) + 6 + length (concat (map (field_bytes ff) cs))"

lemma types_length: "length (concat (map (\<lambda>c. vbytes (field_type ff c)) cs)) \<le> 5 * length cs"
  using vbytes_small by (induction cs) (auto simp: add_le_mono)

lemma blob_value:
  "cell_value (if k \<noteq> 0 then p\<lparr>m_z := z, m_own := b, m_n := length z, m_u := set_nZero (word_of_nat k) u, m_flags := MEM_Blob OR MEM_Zero\<rparr>
     else p\<lparr>m_z := z, m_own := b, m_n := length z, m_flags := MEM_Blob\<rparr>) = VBlob (z @ replicate k 0)" if "k < 2 ^ 31"
  using that by (simp add: cell_value_def zero_tail_def has_def m_nZero_def MEM_Blob_def MEM_Zero_def MEM_Null_def MEM_Int_def MEM_Real_def MEM_Str_def
    unsigned_of_nat unsigned_ucast_eq take_bit_nat_eq_self)

lemma record_roundtrip_aux:
  assumes ok: "\<forall>c \<in> set pData. cell_ok c" and ne: "pData \<noteq> []" "length pData \<le> 32767" and lim: "limit \<le> 2147483647"
  obtains (failed) rc where "OP_MakeRecord ff limit ms fill pData pOut = Some (Inl rc)" "rc = SQLITE_NOMEM \<and> \<not> no_fault ms \<or> rc = SQLITE_TOOBIG \<and> limit < int (record_bound ff pData)"
    | (encoded) out bytes hd where "OP_MakeRecord ff limit ms fill pData pOut = Some (Inr out)" "cell_value out = VBlob bytes" "length bytes < 2 ^ 31"
      "bytes = vbytes hd @ concat (map (\<lambda>c. vbytes (field_type ff c)) pData) @ concat (map (field_bytes ff) pData)"
      "hd = word_of_nat (length (vbytes hd) + length (concat (map (\<lambda>c. vbytes (field_type ff c)) pData)))"
proof -
  obtain r where r: "record_sizes ff ms pData = Some r" "sized ff ms pData r" using record_sizes_ok [OF ok] by blast
  show thesis
  proof (cases r)
    case (Inl rc)
    then show thesis using r ne by (intro failed [of rc]) (auto simp: OP_MakeRecord_def sized_def check_def)
  next
    case (Inr s)
    obtain ms' dn nData nHdr nZero where s: "s = (ms', dn, nData, nHdr, nZero)" by (cases s)
    let ?T = "concat (map (\<lambda>c. vbytes (field_type ff c)) pData)" let ?B = "concat (map (field_bytes ff) pData)"
    have nf: "no_fault ms \<Longrightarrow> no_fault ms'" "no_fault ms' \<Longrightarrow> alloc_ok ms' \<and> no_fault (tl ms')"
      using r(2) Inr s no_fault_alloc [of ms'] by (auto simp: sized_def)
    obtain bs where bs: "map m_uTemp dn = map (field_type ff) pData" "nHdr = length ?T"
        "map (\<lambda>c. sqlite3VdbeSerialPut c (m_uTemp c)) dn = map Some bs" "nData = length (concat bs)" "concat bs @ replicate nZero 0 = ?B"
      using r(2) Inr s by (auto simp: sized_def)
    have T: "concat (map (\<lambda>c. vbytes (m_uTemp c)) dn) = ?T" using arg_cong [OF bs(1), of "\<lambda>ts. concat (map vbytes ts)"] by (simp add: comp_def)
    have "nHdr < 2 ^ 31" using types_length [of ff pData] bs(2) ne(2) by simp
    then obtain h where h: "header_size nHdr = Some h" "h = nHdr + vl h" "h \<le> nHdr + 6" using header_size_ok by blast
    show thesis
    proof (cases "int (h + nData + nZero) > limit \<or> \<not> alloc_ok ms'")
      case True
      then show thesis using r Inr s ne h
        using nf bs(2) bs(4) bs(5) [symmetric]
        by (intro failed [of "if int (h + nData + nZero) > limit then SQLITE_TOOBIG else SQLITE_NOMEM"]) (auto simp: OP_MakeRecord_def check_def Let_def record_bound_def)
    next
      case False
      let ?h = "vbytes (word_of_nat h)"
      have lh: "h = length ?h + length ?T" using h(2) bs(2) by (simp add: vl_def)
      have w: "write_fields (?h @ replicate nHdr fill @ replicate nData fill) (length ?h) (length ?h + nHdr) dn = Some (?h @ ?T @ concat bs)"
        using write_fields_ok [OF bs(3), of "replicate nHdr fill" "replicate nData fill" ?h "[]" "[]"] bs(2,4) T by simp
      have b: "buf_write (replicate (h + nData) fill) 0 ?h = Some (?h @ replicate nHdr fill @ replicate nData fill)"
        using lh bs(2) by (simp add: buf_write_def replicate_add [symmetric])
      have k: "nZero < 2 ^ 31" using False lim by simp
      let ?z = "?h @ ?T @ concat bs"
      have "OP_MakeRecord ff limit ms fill pData pOut = Some (Inr (if nZero \<noteq> 0
          then pOut\<lparr>m_z := ?z, m_own := True, m_n := length ?z, m_u := set_nZero (word_of_nat nZero) (m_u pOut), m_flags := MEM_Blob OR MEM_Zero\<rparr>
          else pOut\<lparr>m_z := ?z, m_own := True, m_n := length ?z, m_flags := MEM_Blob\<rparr>))"
        using r(1) Inr s ne h(1) False b w T lh bs(2,4) by (simp add: OP_MakeRecord_def check_def Let_def vbytes_put)
      then show thesis
      proof (rule encoded [where bytes = "?h @ ?T @ ?B" and hd = "word_of_nat h"], goal_cases)
        case 1
        show ?case unfolding blob_value [OF k] using bs(5) by simp
      next
        case 2
        show ?case using False lim lh bs(4,5) [symmetric] by simp
      next
        case 3
        show ?case by (rule refl)
      next
        case 4
        show ?case using lh by metis
      qed
    qed
  qed
qed

text \<open>C21: a record assembled by \<open>OP_MakeRecord\<close> is decoded by \<open>sqlite3VdbeRecordUnpack\<close> to the values of its fields:
  integers at every width, reals, texts, blobs and blobs with a zero tail, with or without one at the end of the record.
  It fails only when memory runs out or the record may pass the length limit.\<close>

theorem record_roundtrip:
  assumes "\<forall>c \<in> set pData. cell_ok c" and "pData \<noteq> []" and "length pData \<le> 32767" and "limit \<le> 2147483647"
    and "length pData \<le> nField" and "length pData \<le> length aMem"
  shows "(\<exists>out bytes cells. OP_MakeRecord ff limit ms fill pData pOut = Some (Inr out) \<and> cell_value out = VBlob bytes \<and>
        sqlite3VdbeRecordUnpack enc (int (length bytes)) bytes nField aMem = Some cells \<and> map cell_value cells = map cell_value pData) \<or>
      (OP_MakeRecord ff limit ms fill pData pOut = Some (Inl SQLITE_NOMEM) \<and> \<not> no_fault ms) \<or>
      (OP_MakeRecord ff limit ms fill pData pOut = Some (Inl SQLITE_TOOBIG) \<and> limit < int (record_bound ff pData))"
  using assms(1-4)
proof (cases rule: record_roundtrip_aux [where ff = ff and ms = ms and fill = fill and pOut = pOut])
  case (failed rc)
  then show ?thesis by auto
next
  case (encoded out bytes hd)
  let ?T = "concat (map (\<lambda>c. vbytes (field_type ff c)) pData)" let ?B = "concat (map (field_bytes ff) pData)"
  let ?h = "vbytes hd"
  have l: "length bytes = length ?h + length ?T + length ?B" using arg_cong [OF encoded(4), of length] by simp
  have h: "getVarint32 bytes = Some (word_of_nat (length ?h + length ?T), word_of_nat (length ?h))"
    using vbytes_get [of hd "?T @ ?B"] encoded(4,5) by simp
  have i: "u32_of (word_of_nat (length ?h) :: u8) = word_of_nat (length ?h)"
    using vbytes_small [of hd] by (simp add: word_unat_eq_iff unsigned_ucast_eq unsigned_of_nat take_bit_nat_eq_self)
  obtain cells where c: "unpack_loop enc (int (length bytes)) (?h @ ?T @ [] @ ?B) (word_of_nat (length ?h + length ?T)) nField (word_of_nat (length ?h))
      (word_of_nat (length ?h + length ?T + length ([] :: u8 list))) aMem = Some cells" "map cell_value cells = map cell_value pData"
    using unpack_fields [OF assms(1,5,6), of ?h ff "[]" "int (length bytes)" enc] encoded(3) l by auto
  then have "sqlite3VdbeRecordUnpack enc (int (length bytes)) bytes nField aMem = Some cells"
    using h i encoded(4) by (simp add: sqlite3VdbeRecordUnpack_def del: of_nat_add)
  then show ?thesis using encoded(1,2) c(2) by blast
qed

text \<open>A null, an integer, a real number, a text and a blob with a zero tail.\<close>

definition empty_cell :: Cell where
  "empty_cell = \<lparr>m_z = [], m_n = 0, m_enc = 1, m_flags = 0, m_own = False, m_u = 0, m_uTemp = 0\<rparr>"

definition sample_fields :: "Cell list" where
  "sample_fields = [empty_cell\<lparr>m_flags := MEM_Null\<rparr>, empty_cell\<lparr>m_flags := MEM_Int, m_u := - 300\<rparr>,
     empty_cell\<lparr>m_flags := MEM_Real, m_u := 0x3ff8000000000000\<rparr>, empty_cell\<lparr>m_flags := MEM_Str, m_z := [97, 98], m_n := 2\<rparr>,
     empty_cell\<lparr>m_flags := MEM_Blob OR MEM_Zero, m_z := [7], m_n := 1, m_u := 3\<rparr>]"

lemma record_roundtrip_witness:
  "\<exists>out bytes cells. OP_MakeRecord 4 1000000000 [] 0 sample_fields empty_cell = Some (Inr out) \<and> cell_value out = VBlob bytes \<and>
     sqlite3VdbeRecordUnpack 1 (int (length bytes)) bytes 5 (replicate 5 empty_cell) = Some cells \<and>
     map cell_value cells = [VNull, VInt (- 300), VReal 0x3ff8000000000000, VText [97, 98], VBlob [7, 0, 0, 0]]"
proof -
  have "length (concat (map (field_bytes 4) sample_fields)) = 16" by code_simp
  then have b: "record_bound 4 sample_fields \<le> 47"
    using types_length [of 4 sample_fields] by (simp add: record_bound_def sample_fields_def)
  have "\<forall>c \<in> set sample_fields. cell_ok c"
    by (simp add: sample_fields_def empty_cell_def cell_ok_def has_def zero_tail_def m_nZero_def sqlite3IsNaN_def
      MEM_Null_def MEM_Int_def MEM_Real_def MEM_Str_def MEM_Blob_def MEM_Zero_def)
  moreover have "map cell_value sample_fields = [VNull, VInt (- 300), VReal 0x3ff8000000000000, VText [97, 98], VBlob [7, 0, 0, 0]]" by code_simp
  moreover have "no_fault []" by code_simp
  moreover have "sample_fields \<noteq> []" "length sample_fields = 5" by (simp_all add: sample_fields_def)
  ultimately show ?thesis
    using b record_roundtrip [of sample_fields 1000000000 5 "replicate 5 empty_cell" 4 "[]" 0 empty_cell 1] by simp
qed

end
