(* ===== verification/Keyword.thy ===== *)
theory Keyword
  imports Ctype
begin

text \<open>
  The token codes of tsrc/parse.h and the keyword table of tsrc/keywordhash.h: the texts of the keywords overlap in
  \<open>zKWText\<close>, and a keyword is found by its first and last letter and its length.
\<close>

unbundle bit_operations_syntax

section \<open>Token codes\<close>

definition TK_SEMI :: int where "TK_SEMI = 1"
definition TK_EXPLAIN :: int where "TK_EXPLAIN = 2"
definition TK_QUERY :: int where "TK_QUERY = 3"
definition TK_PLAN :: int where "TK_PLAN = 4"
definition TK_BEGIN :: int where "TK_BEGIN = 5"
definition TK_TRANSACTION :: int where "TK_TRANSACTION = 6"
definition TK_DEFERRED :: int where "TK_DEFERRED = 7"
definition TK_IMMEDIATE :: int where "TK_IMMEDIATE = 8"
definition TK_EXCLUSIVE :: int where "TK_EXCLUSIVE = 9"
definition TK_COMMIT :: int where "TK_COMMIT = 10"
definition TK_END :: int where "TK_END = 11"
definition TK_ROLLBACK :: int where "TK_ROLLBACK = 12"
definition TK_SAVEPOINT :: int where "TK_SAVEPOINT = 13"
definition TK_RELEASE :: int where "TK_RELEASE = 14"
definition TK_TO :: int where "TK_TO = 15"
definition TK_TABLE :: int where "TK_TABLE = 16"
definition TK_CREATE :: int where "TK_CREATE = 17"
definition TK_IF :: int where "TK_IF = 18"
definition TK_NOT :: int where "TK_NOT = 19"
definition TK_EXISTS :: int where "TK_EXISTS = 20"
definition TK_TEMP :: int where "TK_TEMP = 21"
definition TK_LP :: int where "TK_LP = 22"
definition TK_RP :: int where "TK_RP = 23"
definition TK_AS :: int where "TK_AS = 24"
definition TK_WITHOUT :: int where "TK_WITHOUT = 25"
definition TK_COMMA :: int where "TK_COMMA = 26"
definition TK_ABORT :: int where "TK_ABORT = 27"
definition TK_ACTION :: int where "TK_ACTION = 28"
definition TK_AFTER :: int where "TK_AFTER = 29"
definition TK_ANALYZE :: int where "TK_ANALYZE = 30"
definition TK_ASC :: int where "TK_ASC = 31"
definition TK_ATTACH :: int where "TK_ATTACH = 32"
definition TK_BEFORE :: int where "TK_BEFORE = 33"
definition TK_BY :: int where "TK_BY = 34"
definition TK_CASCADE :: int where "TK_CASCADE = 35"
definition TK_CAST :: int where "TK_CAST = 36"
definition TK_CONFLICT :: int where "TK_CONFLICT = 37"
definition TK_DATABASE :: int where "TK_DATABASE = 38"
definition TK_DESC :: int where "TK_DESC = 39"
definition TK_DETACH :: int where "TK_DETACH = 40"
definition TK_EACH :: int where "TK_EACH = 41"
definition TK_FAIL :: int where "TK_FAIL = 42"
definition TK_OR :: int where "TK_OR = 43"
definition TK_AND :: int where "TK_AND = 44"
definition TK_IS :: int where "TK_IS = 45"
definition TK_MATCH :: int where "TK_MATCH = 46"
definition TK_LIKE_KW :: int where "TK_LIKE_KW = 47"
definition TK_BETWEEN :: int where "TK_BETWEEN = 48"
definition TK_IN :: int where "TK_IN = 49"
definition TK_ISNULL :: int where "TK_ISNULL = 50"
definition TK_NOTNULL :: int where "TK_NOTNULL = 51"
definition TK_NE :: int where "TK_NE = 52"
definition TK_EQ :: int where "TK_EQ = 53"
definition TK_GT :: int where "TK_GT = 54"
definition TK_LE :: int where "TK_LE = 55"
definition TK_LT :: int where "TK_LT = 56"
definition TK_GE :: int where "TK_GE = 57"
definition TK_ESCAPE :: int where "TK_ESCAPE = 58"
definition TK_ID :: int where "TK_ID = 59"
definition TK_COLUMNKW :: int where "TK_COLUMNKW = 60"
definition TK_DO :: int where "TK_DO = 61"
definition TK_FOR :: int where "TK_FOR = 62"
definition TK_IGNORE :: int where "TK_IGNORE = 63"
definition TK_INITIALLY :: int where "TK_INITIALLY = 64"
definition TK_INSTEAD :: int where "TK_INSTEAD = 65"
definition TK_NO :: int where "TK_NO = 66"
definition TK_KEY :: int where "TK_KEY = 67"
definition TK_OF :: int where "TK_OF = 68"
definition TK_OFFSET :: int where "TK_OFFSET = 69"
definition TK_PRAGMA :: int where "TK_PRAGMA = 70"
definition TK_RAISE :: int where "TK_RAISE = 71"
definition TK_RECURSIVE :: int where "TK_RECURSIVE = 72"
definition TK_REPLACE :: int where "TK_REPLACE = 73"
definition TK_RESTRICT :: int where "TK_RESTRICT = 74"
definition TK_ROW :: int where "TK_ROW = 75"
definition TK_TRIGGER :: int where "TK_TRIGGER = 76"
definition TK_VACUUM :: int where "TK_VACUUM = 77"
definition TK_VIEW :: int where "TK_VIEW = 78"
definition TK_VIRTUAL :: int where "TK_VIRTUAL = 79"
definition TK_WITH :: int where "TK_WITH = 80"
definition TK_REINDEX :: int where "TK_REINDEX = 81"
definition TK_RENAME :: int where "TK_RENAME = 82"
definition TK_CTIME_KW :: int where "TK_CTIME_KW = 83"
definition TK_BITAND :: int where "TK_BITAND = 85"
definition TK_BITOR :: int where "TK_BITOR = 86"
definition TK_LSHIFT :: int where "TK_LSHIFT = 87"
definition TK_RSHIFT :: int where "TK_RSHIFT = 88"
definition TK_PLUS :: int where "TK_PLUS = 89"
definition TK_MINUS :: int where "TK_MINUS = 90"
definition TK_STAR :: int where "TK_STAR = 91"
definition TK_SLASH :: int where "TK_SLASH = 92"
definition TK_REM :: int where "TK_REM = 93"
definition TK_CONCAT :: int where "TK_CONCAT = 94"
definition TK_COLLATE :: int where "TK_COLLATE = 95"
definition TK_BITNOT :: int where "TK_BITNOT = 96"
definition TK_ON :: int where "TK_ON = 97"
definition TK_INDEXED :: int where "TK_INDEXED = 98"
definition TK_STRING :: int where "TK_STRING = 99"
definition TK_JOIN_KW :: int where "TK_JOIN_KW = 100"
definition TK_CONSTRAINT :: int where "TK_CONSTRAINT = 101"
definition TK_DEFAULT :: int where "TK_DEFAULT = 102"
definition TK_NULL :: int where "TK_NULL = 103"
definition TK_PRIMARY :: int where "TK_PRIMARY = 104"
definition TK_UNIQUE :: int where "TK_UNIQUE = 105"
definition TK_CHECK :: int where "TK_CHECK = 106"
definition TK_REFERENCES :: int where "TK_REFERENCES = 107"
definition TK_AUTOINCR :: int where "TK_AUTOINCR = 108"
definition TK_INSERT :: int where "TK_INSERT = 109"
definition TK_DELETE :: int where "TK_DELETE = 110"
definition TK_UPDATE :: int where "TK_UPDATE = 111"
definition TK_SET :: int where "TK_SET = 112"
definition TK_DEFERRABLE :: int where "TK_DEFERRABLE = 113"
definition TK_FOREIGN :: int where "TK_FOREIGN = 114"
definition TK_DROP :: int where "TK_DROP = 115"
definition TK_UNION :: int where "TK_UNION = 116"
definition TK_ALL :: int where "TK_ALL = 117"
definition TK_EXCEPT :: int where "TK_EXCEPT = 118"
definition TK_INTERSECT :: int where "TK_INTERSECT = 119"
definition TK_SELECT :: int where "TK_SELECT = 120"
definition TK_VALUES :: int where "TK_VALUES = 121"
definition TK_DISTINCT :: int where "TK_DISTINCT = 122"
definition TK_DOT :: int where "TK_DOT = 123"
definition TK_FROM :: int where "TK_FROM = 124"
definition TK_JOIN :: int where "TK_JOIN = 125"
definition TK_USING :: int where "TK_USING = 126"
definition TK_ORDER :: int where "TK_ORDER = 127"
definition TK_GROUP :: int where "TK_GROUP = 128"
definition TK_HAVING :: int where "TK_HAVING = 129"
definition TK_LIMIT :: int where "TK_LIMIT = 130"
definition TK_WHERE :: int where "TK_WHERE = 131"
definition TK_INTO :: int where "TK_INTO = 132"
definition TK_NOTHING :: int where "TK_NOTHING = 133"
definition TK_FLOAT :: int where "TK_FLOAT = 134"
definition TK_BLOB :: int where "TK_BLOB = 135"
definition TK_INTEGER :: int where "TK_INTEGER = 136"
definition TK_VARIABLE :: int where "TK_VARIABLE = 137"
definition TK_CASE :: int where "TK_CASE = 138"
definition TK_WHEN :: int where "TK_WHEN = 139"
definition TK_THEN :: int where "TK_THEN = 140"
definition TK_ELSE :: int where "TK_ELSE = 141"
definition TK_INDEX :: int where "TK_INDEX = 142"
definition TK_ALTER :: int where "TK_ALTER = 143"
definition TK_ADD :: int where "TK_ADD = 144"
definition TK_SPACE :: int where "TK_SPACE = 162"
definition TK_ILLEGAL :: int where "TK_ILLEGAL = 163"

lemmas TK_defs =
  TK_SEMI_def TK_EXPLAIN_def TK_QUERY_def TK_PLAN_def TK_BEGIN_def TK_TRANSACTION_def TK_DEFERRED_def TK_IMMEDIATE_def
  TK_EXCLUSIVE_def TK_COMMIT_def TK_END_def TK_ROLLBACK_def TK_SAVEPOINT_def TK_RELEASE_def TK_TO_def TK_TABLE_def
  TK_CREATE_def TK_IF_def TK_NOT_def TK_EXISTS_def TK_TEMP_def TK_LP_def TK_RP_def TK_AS_def
  TK_WITHOUT_def TK_COMMA_def TK_ABORT_def TK_ACTION_def TK_AFTER_def TK_ANALYZE_def TK_ASC_def TK_ATTACH_def
  TK_BEFORE_def TK_BY_def TK_CASCADE_def TK_CAST_def TK_CONFLICT_def TK_DATABASE_def TK_DESC_def TK_DETACH_def
  TK_EACH_def TK_FAIL_def TK_OR_def TK_AND_def TK_IS_def TK_MATCH_def TK_LIKE_KW_def TK_BETWEEN_def
  TK_IN_def TK_ISNULL_def TK_NOTNULL_def TK_NE_def TK_EQ_def TK_GT_def TK_LE_def TK_LT_def
  TK_GE_def TK_ESCAPE_def TK_ID_def TK_COLUMNKW_def TK_DO_def TK_FOR_def TK_IGNORE_def TK_INITIALLY_def
  TK_INSTEAD_def TK_NO_def TK_KEY_def TK_OF_def TK_OFFSET_def TK_PRAGMA_def TK_RAISE_def TK_RECURSIVE_def
  TK_REPLACE_def TK_RESTRICT_def TK_ROW_def TK_TRIGGER_def TK_VACUUM_def TK_VIEW_def TK_VIRTUAL_def TK_WITH_def
  TK_REINDEX_def TK_RENAME_def TK_CTIME_KW_def TK_BITAND_def TK_BITOR_def TK_LSHIFT_def TK_RSHIFT_def TK_PLUS_def
  TK_MINUS_def TK_STAR_def TK_SLASH_def TK_REM_def TK_CONCAT_def TK_COLLATE_def TK_BITNOT_def TK_ON_def
  TK_INDEXED_def TK_STRING_def TK_JOIN_KW_def TK_CONSTRAINT_def TK_DEFAULT_def TK_NULL_def TK_PRIMARY_def TK_UNIQUE_def
  TK_CHECK_def TK_REFERENCES_def TK_AUTOINCR_def TK_INSERT_def TK_DELETE_def TK_UPDATE_def TK_SET_def TK_DEFERRABLE_def
  TK_FOREIGN_def TK_DROP_def TK_UNION_def TK_ALL_def TK_EXCEPT_def TK_INTERSECT_def TK_SELECT_def TK_VALUES_def
  TK_DISTINCT_def TK_DOT_def TK_FROM_def TK_JOIN_def TK_USING_def TK_ORDER_def TK_GROUP_def TK_HAVING_def
  TK_LIMIT_def TK_WHERE_def TK_INTO_def TK_NOTHING_def TK_FLOAT_def TK_BLOB_def TK_INTEGER_def TK_VARIABLE_def
  TK_CASE_def TK_WHEN_def TK_THEN_def TK_ELSE_def TK_INDEX_def TK_ALTER_def TK_ADD_def TK_SPACE_def
  TK_ILLEGAL_def

section \<open>Tables\<close>

definition zKWText :: "u8 list" where
  "zKWText = chs (
     ''REINDEXEDESCAPEACHECKEYBEFOREIGNOREGEXPLAINSTEADDATABASELECTABLEFTHENDEFERRABLEL'' @
     ''SEXCEPTRANSACTIONATURALTERAISEXCLUSIVEXISTSAVEPOINTERSECTRIGGEREFERENCESCONSTRAI'' @
     ''NTOFFSETEMPORARYUNIQUERYWITHOUTERELEASEATTACHAVINGROUPDATEBEGINNERECURSIVEBETWEE'' @
     ''NOTHINGLOBYCASCADELETECASECOLLATECREATECURRENT_DATEDETACHIMMEDIATEJOINSERTLIKEMA'' @
     ''TCHPLANALYZEPRAGMABORTVALUESVIRTUALIMITWHENOTNULLWHERENAMEAFTEREPLACEANDEFAULTAU'' @
     ''TOINCREMENTCASTCOLUMNCOMMITCONFLICTCROSSCURRENT_TIMESTAMPRIMARYDEFERREDISTINCTDO'' @
     ''RDERESTRICTDROPFAILFROMFULLIFISNULLRIGHTROLLBACKROWUNIONUSINGVACUUMVIEWINITIALLY'')"

definition aKWHash :: "nat list" where
  "aKWHash = [
     74, 108, 119, 72, 0, 45, 0, 0, 81, 0, 76, 61, 0, 42, 12, 77, 15, 0, 118, 84,
     54, 116, 0, 19, 0, 0, 123, 0, 121, 111, 0, 22, 96, 0, 9, 0, 0, 68, 69, 0,
     67, 6, 0, 48, 93, 105, 0, 120, 104, 0, 0, 44, 0, 106, 24, 0, 17, 0, 124, 53,
     23, 0, 5, 62, 25, 99, 0, 0, 126, 112, 60, 125, 57, 28, 55, 0, 94, 0, 103, 26,
     0, 102, 0, 0, 0, 98, 95, 100, 91, 115, 14, 39, 114, 0, 80, 0, 109, 92, 90, 32,
     0, 122, 79, 117, 86, 46, 83, 0, 0, 97, 40, 59, 110, 0, 36, 0, 0, 29, 0, 89,
     87, 88, 0, 20, 85, 0, 56]"

definition aKWNext :: "nat list" where
  "aKWNext = [
     0, 0, 0, 0, 4, 0, 0, 0, 0, 0, 0, 0, 0, 0, 2, 0, 0, 0, 0, 0,
     0, 13, 0, 0, 0, 0, 0, 7, 0, 0, 0, 0, 0, 0, 0, 0, 0, 0, 0, 0,
     0, 0, 0, 33, 0, 21, 0, 0, 0, 0, 0, 50, 0, 43, 3, 47, 0, 0, 0, 0,
     0, 0, 0, 0, 0, 0, 1, 64, 0, 0, 65, 0, 41, 0, 38, 0, 0, 0, 0, 0,
     49, 75, 0, 0, 30, 0, 58, 0, 0, 63, 31, 52, 16, 34, 10, 0, 0, 0, 0, 0,
     0, 0, 11, 70, 78, 0, 8, 0, 18, 51, 0, 107, 101, 0, 113, 0, 73, 27, 37, 71,
     82, 0, 35, 66, 0, 0]"

definition aKWLen :: "nat list" where
  "aKWLen = [
     7, 7, 5, 4, 6, 4, 5, 3, 6, 7, 3, 6, 6, 7, 7, 3, 8, 2, 6, 5,
     4, 4, 3, 10, 4, 6, 11, 6, 2, 7, 5, 5, 9, 6, 9, 9, 7, 10, 10, 4,
     6, 2, 3, 9, 4, 2, 6, 5, 7, 4, 5, 7, 6, 6, 5, 6, 5, 5, 9, 7,
     7, 4, 2, 7, 3, 6, 4, 7, 6, 12, 6, 9, 4, 6, 4, 5, 4, 7, 6, 5,
     6, 7, 5, 4, 7, 3, 2, 4, 5, 6, 5, 7, 3, 7, 13, 2, 2, 4, 6, 6,
     8, 5, 17, 12, 7, 8, 8, 2, 2, 5, 8, 4, 4, 4, 4, 2, 6, 5, 8, 3,
     5, 5, 6, 4, 9, 3]"

definition aKWOffset :: "nat list" where
  "aKWOffset = [
     0, 2, 2, 8, 9, 14, 16, 20, 23, 25, 25, 29, 33, 36, 41, 46, 48, 53, 54, 59,
     62, 65, 67, 69, 78, 81, 86, 91, 95, 96, 101, 105, 109, 117, 122, 128, 136, 142, 152, 159,
     162, 162, 165, 167, 167, 171, 176, 179, 184, 184, 188, 192, 199, 204, 209, 212, 218, 221, 225, 234,
     240, 246, 249, 251, 252, 256, 262, 266, 273, 279, 291, 297, 306, 308, 314, 318, 323, 325, 332, 337,
     342, 348, 354, 359, 362, 362, 362, 365, 369, 372, 378, 382, 389, 391, 398, 400, 402, 411, 415, 421,
     427, 435, 440, 440, 456, 463, 470, 471, 478, 479, 483, 491, 495, 499, 503, 507, 509, 515, 520, 528,
     531, 536, 541, 547, 551, 556]"

definition aKWCode :: "int list" where
  "aKWCode = [
     TK_REINDEX, TK_INDEXED, TK_INDEX, TK_DESC, TK_ESCAPE, TK_EACH, TK_CHECK, TK_KEY,
     TK_BEFORE, TK_FOREIGN, TK_FOR, TK_IGNORE, TK_LIKE_KW, TK_EXPLAIN, TK_INSTEAD, TK_ADD,
     TK_DATABASE, TK_AS, TK_SELECT, TK_TABLE, TK_JOIN_KW, TK_THEN, TK_END, TK_DEFERRABLE,
     TK_ELSE, TK_EXCEPT, TK_TRANSACTION, TK_ACTION, TK_ON, TK_JOIN_KW, TK_ALTER, TK_RAISE,
     TK_EXCLUSIVE, TK_EXISTS, TK_SAVEPOINT, TK_INTERSECT, TK_TRIGGER, TK_REFERENCES, TK_CONSTRAINT, TK_INTO,
     TK_OFFSET, TK_OF, TK_SET, TK_TEMP, TK_TEMP, TK_OR, TK_UNIQUE, TK_QUERY,
     TK_WITHOUT, TK_WITH, TK_JOIN_KW, TK_RELEASE, TK_ATTACH, TK_HAVING, TK_GROUP, TK_UPDATE,
     TK_BEGIN, TK_JOIN_KW, TK_RECURSIVE, TK_BETWEEN, TK_NOTHING, TK_LIKE_KW, TK_BY, TK_CASCADE,
     TK_ASC, TK_DELETE, TK_CASE, TK_COLLATE, TK_CREATE, TK_CTIME_KW, TK_DETACH, TK_IMMEDIATE,
     TK_JOIN, TK_INSERT, TK_LIKE_KW, TK_MATCH, TK_PLAN, TK_ANALYZE, TK_PRAGMA, TK_ABORT,
     TK_VALUES, TK_VIRTUAL, TK_LIMIT, TK_WHEN, TK_NOTNULL, TK_NOT, TK_NO, TK_NULL,
     TK_WHERE, TK_RENAME, TK_AFTER, TK_REPLACE, TK_AND, TK_DEFAULT, TK_AUTOINCR, TK_TO,
     TK_IN, TK_CAST, TK_COLUMNKW, TK_COMMIT, TK_CONFLICT, TK_JOIN_KW, TK_CTIME_KW, TK_CTIME_KW,
     TK_PRIMARY, TK_DEFERRED, TK_DISTINCT, TK_IS, TK_DO, TK_ORDER, TK_RESTRICT, TK_DROP,
     TK_FAIL, TK_FROM, TK_JOIN_KW, TK_IF, TK_ISNULL, TK_JOIN_KW, TK_ROLLBACK, TK_ROW,
     TK_UNION, TK_USING, TK_VACUUM, TK_VIEW, TK_INITIALLY, TK_ALL]"

section \<open>Lookup\<close>

abbreviation charMap :: "u8 \<Rightarrow> int" where
  "charMap x \<equiv> uint (sqlite3Tolower x)"

definition kw_hash :: "u8 \<Rightarrow> u8 \<Rightarrow> nat \<Rightarrow> int" where
  "kw_hash z0 z1 n = ((charMap z0 * 4) XOR (charMap z1 * 3) XOR int n) mod 127"

text \<open>The number of characters that agree with the text at \<open>off\<close>.\<close>

partial_function (option) kw_compare :: "u8 list \<Rightarrow> nat \<Rightarrow> nat \<Rightarrow> nat \<Rightarrow> nat option" where
  "kw_compare z n off j =
     (if j < n then do {
        c \<leftarrow> c_at z j;
        k \<leftarrow> nth_opt zKWText (off + j);
        if c AND NOT 0x20 = k then kw_compare z n off (j + 1) else Some j }
      else Some j)"

partial_function (option) kw_chain :: "u8 list \<Rightarrow> nat \<Rightarrow> int \<Rightarrow> int \<Rightarrow> int option" where
  "kw_chain z n i tokenType =
     (if i < 0 then Some tokenType
      else do {
        len \<leftarrow> nth_opt aKWLen (nat i);
        nxt \<leftarrow> nth_opt aKWNext (nat i);
        if len \<noteq> n then kw_chain z n (int nxt - 1) tokenType
        else do {
          off \<leftarrow> nth_opt aKWOffset (nat i);
          j \<leftarrow> kw_compare z n off 0;
          if j < n then kw_chain z n (int nxt - 1) tokenType else nth_opt aKWCode (nat i) } })"

text \<open>The type of the token; its length is \<open>n\<close>.\<close>

definition keywordCode :: "u8 list \<Rightarrow> nat \<Rightarrow> int \<Rightarrow> int option" where
  "keywordCode z n tokenType =
     (if n \<ge> 2 then do {
        z0 \<leftarrow> c_at z 0;
        z1 \<leftarrow> c_at z (n - 1);
        h \<leftarrow> nth_opt aKWHash (nat (kw_hash z0 z1 n));
        kw_chain z n (int h - 1) tokenType }
      else Some tokenType)"

definition sqlite3KeywordCode :: "u8 list \<Rightarrow> nat \<Rightarrow> int option" where
  "sqlite3KeywordCode z n = keywordCode z n TK_ID"

definition SQLITE_N_KEYWORD :: int where "SQLITE_N_KEYWORD = 126"

text \<open>The position in \<open>zKWText\<close> and the length.\<close>

definition sqlite3_keyword_name :: "int \<Rightarrow> (int + nat \<times> nat) option" where
  "sqlite3_keyword_name i =
     (if i < 0 \<or> i \<ge> SQLITE_N_KEYWORD then Some (Inl SQLITE_ERROR)
      else do {
        off \<leftarrow> nth_opt aKWOffset (nat i);
        len \<leftarrow> nth_opt aKWLen (nat i);
        Some (Inr (off, len)) })"

definition sqlite3_keyword_count :: int where
  "sqlite3_keyword_count = SQLITE_N_KEYWORD"

definition sqlite3_keyword_check :: "u8 list \<Rightarrow> nat \<Rightarrow> bool option" where
  "sqlite3_keyword_check zName nName = map_option (\<lambda>t. TK_ID \<noteq> t) (sqlite3KeywordCode zName nName)"

end
