(* ===== verification/Tokenize.thy ===== *)
theory Tokenize
  imports Keyword
begin

text \<open>
  tsrc/tokenize.c: the tokens of an SQL text, and the loop of \<open>sqlite3RunParser\<close> that sends them to the parser. The
  text is a C string; the parser generated by Lemon is a parameter, a function of its own state.
\<close>

section \<open>Character classes\<close>

definition CC_X :: u8 where "CC_X = 0"
definition CC_KYWD :: u8 where "CC_KYWD = 1"
definition CC_ID :: u8 where "CC_ID = 2"
definition CC_DIGIT :: u8 where "CC_DIGIT = 3"
definition CC_DOLLAR :: u8 where "CC_DOLLAR = 4"
definition CC_VARALPHA :: u8 where "CC_VARALPHA = 5"
definition CC_VARNUM :: u8 where "CC_VARNUM = 6"
definition CC_SPACE :: u8 where "CC_SPACE = 7"
definition CC_QUOTE :: u8 where "CC_QUOTE = 8"
definition CC_QUOTE2 :: u8 where "CC_QUOTE2 = 9"
definition CC_PIPE :: u8 where "CC_PIPE = 10"
definition CC_MINUS :: u8 where "CC_MINUS = 11"
definition CC_LT :: u8 where "CC_LT = 12"
definition CC_GT :: u8 where "CC_GT = 13"
definition CC_EQ :: u8 where "CC_EQ = 14"
definition CC_BANG :: u8 where "CC_BANG = 15"
definition CC_SLASH :: u8 where "CC_SLASH = 16"
definition CC_LP :: u8 where "CC_LP = 17"
definition CC_RP :: u8 where "CC_RP = 18"
definition CC_SEMI :: u8 where "CC_SEMI = 19"
definition CC_PLUS :: u8 where "CC_PLUS = 20"
definition CC_STAR :: u8 where "CC_STAR = 21"
definition CC_PERCENT :: u8 where "CC_PERCENT = 22"
definition CC_COMMA :: u8 where "CC_COMMA = 23"
definition CC_AND :: u8 where "CC_AND = 24"
definition CC_TILDA :: u8 where "CC_TILDA = 25"
definition CC_DOT :: u8 where "CC_DOT = 26"
definition CC_ILLEGAL :: u8 where "CC_ILLEGAL = 27"

lemmas CC_defs = CC_X_def CC_KYWD_def CC_ID_def CC_DIGIT_def CC_DOLLAR_def CC_VARALPHA_def CC_VARNUM_def CC_SPACE_def
  CC_QUOTE_def CC_QUOTE2_def CC_PIPE_def CC_MINUS_def CC_LT_def CC_GT_def CC_EQ_def CC_BANG_def CC_SLASH_def CC_LP_def
  CC_RP_def CC_SEMI_def CC_PLUS_def CC_STAR_def CC_PERCENT_def CC_COMMA_def CC_AND_def CC_TILDA_def CC_DOT_def CC_ILLEGAL_def

definition aiClass :: "u8 list" where
  "aiClass = [
     27, 27, 27, 27, 27, 27, 27, 27, 27,  7,  7, 27,  7,  7, 27, 27,
     27, 27, 27, 27, 27, 27, 27, 27, 27, 27, 27, 27, 27, 27, 27, 27,
      7, 15,  8,  5,  4, 22, 24,  8, 17, 18, 21, 20, 23, 11, 26, 16,
      3,  3,  3,  3,  3,  3,  3,  3,  3,  3,  5, 19, 12, 14, 13,  6,
      5,  1,  1,  1,  1,  1,  1,  1,  1,  1,  1,  1,  1,  1,  1,  1,
      1,  1,  1,  1,  1,  1,  1,  1,  0,  1,  1,  9, 27, 27, 27,  1,
      8,  1,  1,  1,  1,  1,  1,  1,  1,  1,  1,  1,  1,  1,  1,  1,
      1,  1,  1,  1,  1,  1,  1,  1,  0,  1,  1, 27, 10, 27, 25, 27,
      2,  2,  2,  2,  2,  2,  2,  2,  2,  2,  2,  2,  2,  2,  2,  2,
      2,  2,  2,  2,  2,  2,  2,  2,  2,  2,  2,  2,  2,  2,  2,  2,
      2,  2,  2,  2,  2,  2,  2,  2,  2,  2,  2,  2,  2,  2,  2,  2,
      2,  2,  2,  2,  2,  2,  2,  2,  2,  2,  2,  2,  2,  2,  2,  2,
      2,  2,  2,  2,  2,  2,  2,  2,  2,  2,  2,  2,  2,  2,  2,  2,
      2,  2,  2,  2,  2,  2,  2,  2,  2,  2,  2,  2,  2,  2,  2,  2,
      2,  2,  2,  2,  2,  2,  2,  2,  2,  2,  2,  2,  2,  2,  2,  2,
      2,  2,  2,  2,  2,  2,  2,  2,  2,  2,  2,  2,  2,  2,  2,  2]"

definition sqlite3IsIdChar :: "u8 \<Rightarrow> bool" where
  "sqlite3IsIdChar c = IdChar c"

section \<open>The parts of a token\<close>

text \<open>A loop that steps over the characters of a kind.\<close>

partial_function (option) scan :: "(u8 \<Rightarrow> bool) \<Rightarrow> u8 list \<Rightarrow> nat \<Rightarrow> nat option" where
  "scan P z i = do { c \<leftarrow> c_at z i; if P c then scan P z (i + 1) else Some i }"

text \<open>A C comment: the position and the last character read.\<close>

partial_function (option) comment_loop :: "u8 list \<Rightarrow> nat \<Rightarrow> u8 \<Rightarrow> (nat \<times> u8) option" where
  "comment_loop z i c = do {
     d \<leftarrow> c_at z i;
     if c = ch CHR ''*'' \<and> d = ch CHR ''/'' then Some (i, c)
     else if d \<noteq> 0 then comment_loop z (i + 1) d else Some (i, d) }"

partial_function (option) quote_loop :: "u8 list \<Rightarrow> u8 \<Rightarrow> nat \<Rightarrow> (nat \<times> u8) option" where
  "quote_loop z delim i = do {
     c \<leftarrow> c_at z i;
     if c = 0 then Some (i, c)
     else if c = delim then do {
       d \<leftarrow> c_at z (i + 1);
       if d = delim then quote_loop z delim (i + 2) else Some (i, c) }
     else quote_loop z delim (i + 1) }"

definition bracket_end :: "u8 list \<Rightarrow> (nat \<times> int) option" where
  "bracket_end z = do {
     i \<leftarrow> scan (\<lambda>c. c \<noteq> 0 \<and> c \<noteq> ch CHR '']'') z 1;
     c \<leftarrow> c_at z i;
     Some (if c = 0 then (i, TK_ILLEGAL) else (i + 1, TK_ID)) }"

text \<open>The exponent of a number ending at \<open>i\<close>.\<close>

definition has_exponent :: "u8 list \<Rightarrow> nat \<Rightarrow> bool option" where
  "has_exponent z i = do {
     c0 \<leftarrow> c_at z i;
     if c0 = ch CHR ''e'' \<or> c0 = ch CHR ''E'' then do {
       c1 \<leftarrow> c_at z (i + 1);
       if sqlite3Isdigit c1 then Some True
       else if c1 = ch CHR ''+'' \<or> c1 = ch CHR ''-'' then map_option sqlite3Isdigit (c_at z (i + 2))
       else Some False }
     else Some False }"

definition is_hex :: "u8 list \<Rightarrow> bool option" where
  "is_hex z = do {
     c0 \<leftarrow> c_at z 0;
     if c0 = ch CHR ''0'' then do {
       c1 \<leftarrow> c_at z 1;
       if c1 = ch CHR ''x'' \<or> c1 = ch CHR ''X'' then map_option sqlite3Isxdigit (c_at z 2) else Some False }
     else Some False }"

definition number_token :: "u8 list \<Rightarrow> (nat \<times> int) option" where
  "number_token z = do {
     hex \<leftarrow> is_hex z;
     if hex then do { i \<leftarrow> scan sqlite3Isxdigit z 3; Some (i, TK_INTEGER) }
     else do {
       i \<leftarrow> scan sqlite3Isdigit z 0;
       c \<leftarrow> c_at z i;
       (i, tt) \<leftarrow> (if c = ch CHR ''.'' then do { i \<leftarrow> scan sqlite3Isdigit z (i + 1); Some (i, TK_FLOAT) } else Some (i, TK_INTEGER));
       e \<leftarrow> has_exponent z i;
       (i, tt) \<leftarrow> (if e then do { i \<leftarrow> scan sqlite3Isdigit z (i + 2); Some (i, TK_FLOAT) } else Some (i, tt));
       j \<leftarrow> scan IdChar z i;
       Some (j, if i < j then TK_ILLEGAL else tt) } }"

text \<open>A variable: the position, the number of its identifier characters and whether its parenthesis is left open.\<close>

partial_function (option) variable_loop :: "u8 list \<Rightarrow> nat \<Rightarrow> nat \<Rightarrow> (nat \<times> nat \<times> bool) option" where
  "variable_loop z i n = do {
     c \<leftarrow> c_at z i;
     if c = 0 then Some (i, n, False)
     else if IdChar c then variable_loop z (i + 1) (n + 1)
     else if c = ch CHR ''('' \<and> n > 0 then do {
       i \<leftarrow> scan (\<lambda>c. c \<noteq> 0 \<and> \<not> sqlite3Isspace c \<and> c \<noteq> ch CHR '')'') z (i + 1);
       c \<leftarrow> c_at z i;
       Some (if c = ch CHR '')'' then (i + 1, n, False) else (i, n, True)) }
     else if c = ch CHR '':'' then do {
       d \<leftarrow> c_at z (i + 1);
       if d = ch CHR '':'' then variable_loop z (i + 2) n else Some (i, n, False) }
     else Some (i, n, False) }"

definition blob_token :: "u8 list \<Rightarrow> (nat \<times> int) option" where
  "blob_token z = do {
     i \<leftarrow> scan sqlite3Isxdigit z 2;
     c \<leftarrow> c_at z i;
     (i, tt) \<leftarrow> (if c \<noteq> 39 \<or> odd i then do { i \<leftarrow> scan (\<lambda>c. c \<noteq> 0 \<and> c \<noteq> 39) z i; Some (i, TK_ILLEGAL) } else Some (i, TK_BLOB));
     c \<leftarrow> c_at z i;
     Some (if c \<noteq> 0 then i + 1 else i, tt) }"

definition id_rest :: "u8 list \<Rightarrow> nat \<Rightarrow> (nat \<times> int) option" where
  "id_rest z i = do { i \<leftarrow> scan IdChar z i; Some (i, TK_ID) }"

section \<open>The next token\<close>

text \<open>The length of the token at the start of the text, and its type.\<close>

definition sqlite3GetToken :: "u8 list \<Rightarrow> (nat \<times> int) option" where
  "sqlite3GetToken z = do {
     z0 \<leftarrow> c_at z 0;
     let class = aiClass ! unat z0;
     if class = CC_SPACE then do { i \<leftarrow> scan sqlite3Isspace z 1; Some (i, TK_SPACE) }
     else if class = CC_MINUS then do {
       c \<leftarrow> c_at z 1;
       if c = ch CHR ''-'' then do { i \<leftarrow> scan (\<lambda>c. c \<noteq> 0 \<and> c \<noteq> 10) z 2; Some (i, TK_SPACE) } else Some (1, TK_MINUS) }
     else if class = CC_LP then Some (1, TK_LP)
     else if class = CC_RP then Some (1, TK_RP)
     else if class = CC_SEMI then Some (1, TK_SEMI)
     else if class = CC_PLUS then Some (1, TK_PLUS)
     else if class = CC_STAR then Some (1, TK_STAR)
     else if class = CC_SLASH then do {
       c1 \<leftarrow> c_at z 1;
       c2 \<leftarrow> (if c1 \<noteq> ch CHR ''*'' then Some 0 else c_at z 2);
       if c1 \<noteq> ch CHR ''*'' \<or> c2 = 0 then Some (1, TK_SLASH)
       else do { (i, c) \<leftarrow> comment_loop z 3 c2; Some (if c \<noteq> 0 then i + 1 else i, TK_SPACE) } }
     else if class = CC_PERCENT then Some (1, TK_REM)
     else if class = CC_EQ then do { c \<leftarrow> c_at z 1; Some (if c = ch CHR ''='' then 2 else 1, TK_EQ) }
     else if class = CC_LT then do {
       c \<leftarrow> c_at z 1;
       Some (if c = ch CHR ''='' then (2, TK_LE) else if c = ch CHR ''>'' then (2, TK_NE)
         else if c = ch CHR ''<'' then (2, TK_LSHIFT) else (1, TK_LT)) }
     else if class = CC_GT then do {
       c \<leftarrow> c_at z 1;
       Some (if c = ch CHR ''='' then (2, TK_GE) else if c = ch CHR ''>'' then (2, TK_RSHIFT) else (1, TK_GT)) }
     else if class = CC_BANG then do {
       c \<leftarrow> c_at z 1;
       Some (if c \<noteq> ch CHR ''='' then (1, TK_ILLEGAL) else (2, TK_NE)) }
     else if class = CC_PIPE then do {
       c \<leftarrow> c_at z 1;
       Some (if c \<noteq> ch CHR ''|'' then (1, TK_BITOR) else (2, TK_CONCAT)) }
     else if class = CC_COMMA then Some (1, TK_COMMA)
     else if class = CC_AND then Some (1, TK_BITAND)
     else if class = CC_TILDA then Some (1, TK_BITNOT)
     else if class = CC_QUOTE then do {
       (i, c) \<leftarrow> quote_loop z z0 1;
       Some (if c = 39 then (i + 1, TK_STRING) else if c \<noteq> 0 then (i + 1, TK_ID) else (i, TK_ILLEGAL)) }
     else if class = CC_DOT then do {
       c \<leftarrow> c_at z 1;
       if \<not> sqlite3Isdigit c then Some (1, TK_DOT) else number_token z }
     else if class = CC_DIGIT then number_token z
     else if class = CC_QUOTE2 then bracket_end z
     else if class = CC_VARNUM then do { i \<leftarrow> scan sqlite3Isdigit z 1; Some (i, TK_VARIABLE) }
     else if class = CC_DOLLAR \<or> class = CC_VARALPHA then do {
       (i, n, open) \<leftarrow> variable_loop z 1 0;
       Some (i, if open \<or> n = 0 then TK_ILLEGAL else TK_VARIABLE) }
     else if class = CC_KYWD then do {
       i \<leftarrow> scan (\<lambda>c. aiClass ! unat c \<le> CC_KYWD) z 1;
       c \<leftarrow> c_at z i;
       if IdChar c then id_rest z (i + 1)
       else do { t \<leftarrow> keywordCode z i TK_ID; Some (i, t) } }
     else if class = CC_X then do {
       c \<leftarrow> c_at z 1;
       if c = 39 then blob_token z else id_rest z 1 }
     else if class = CC_ID then id_rest z 1
     else Some (1, TK_ILLEGAL) }"

section \<open>Running the parser\<close>

text \<open>What \<open>sqlite3RunParser\<close> uses of the \<open>Parse\<close> object and of its connection; \<open>engine\<close> is the state of the parser.\<close>

record 'p Parse =
  engine :: 'p
  parse_rc :: int
  zTail :: "u8 list"
  zErrMsg :: "u8 list option"
  nErr :: nat
  mallocFailed :: bool
  isInterrupted :: bool
  nVdbeActive :: nat
  nVdbeExec :: nat
  bBenignMalloc :: bool
  suppressErr :: bool

definition SQLITE_INTERRUPT :: int where "SQLITE_INTERRUPT = 9"
definition SQLITE_DONE :: int where "SQLITE_DONE = 101"

definition sqlite3OomFault :: "'p Parse \<Rightarrow> 'p Parse" where
  "sqlite3OomFault pParse =
     (if \<not> mallocFailed pParse \<and> \<not> bBenignMalloc pParse then
        (let pParse = pParse\<lparr>mallocFailed := True\<rparr> in
         if nVdbeExec pParse > 0 then pParse\<lparr>isInterrupted := True\<rparr> else pParse)
      else pParse)"

text \<open>Formatting a message needs memory and is limited in length. How it turns out in a state is a parameter;
  without memory the connection is marked.\<close>

datatype print_result = Printed | Print_NoMem | Print_TooBig

type_synonym 'p printer = "u8 list \<Rightarrow> 'p Parse \<Rightarrow> print_result"

definition sqlite3VMPrintf :: "'p printer \<Rightarrow> u8 list \<Rightarrow> 'p Parse \<Rightarrow> u8 list option \<times> 'p Parse" where
  "sqlite3VMPrintf pr z pParse = (case pr z pParse of
     Printed \<Rightarrow> (Some z, pParse)
   | Print_NoMem \<Rightarrow> (None, sqlite3OomFault pParse)
   | Print_TooBig \<Rightarrow> (None, pParse))"

definition sqlite3ErrorMsg :: "'p printer \<Rightarrow> u8 list \<Rightarrow> 'p Parse \<Rightarrow> 'p Parse" where
  "sqlite3ErrorMsg pr z pParse =
     (let (zMsg, pParse) = sqlite3VMPrintf pr z pParse in
      if suppressErr pParse then pParse
      else pParse\<lparr>nErr := nErr pParse + 1, zErrMsg := zMsg, parse_rc := SQLITE_ERROR\<rparr>)"

text \<open>The next token with its length and what is left of the length limit; at the end of the text the parser
  gets a semicolon, unless it just had one, and then 0.\<close>

datatype lexeme = Too_Big | Finished | Token nat int int

definition next_token :: "int \<Rightarrow> int \<Rightarrow> u8 list \<Rightarrow> lexeme option" where
  "next_token mxSqlLen lastTokenParsed zSql = do {
     c \<leftarrow> c_at zSql 0;
     if c \<noteq> 0 then do {
       (n, tokenType) \<leftarrow> sqlite3GetToken zSql;
       let mxSqlLen = mxSqlLen - int n;
       Some (if mxSqlLen < 0 then Too_Big else Token n tokenType mxSqlLen) }
     else if lastTokenParsed = TK_SEMI then Some (Token 0 0 mxSqlLen)
     else if lastTokenParsed = 0 then Some Finished
     else Some (Token 0 TK_SEMI mxSqlLen) }"

type_synonym 'p lemon = "int \<Rightarrow> u8 list \<Rightarrow> nat \<Rightarrow> 'p Parse \<Rightarrow> 'p Parse"

text \<open>The parser gets the type of a token, the text from it on and its length. The result is the text left.\<close>

partial_function (option) parser_loop ::
  "'p lemon \<Rightarrow> 'p printer \<Rightarrow> int \<Rightarrow> int \<Rightarrow> u8 list \<Rightarrow> 'p Parse \<Rightarrow> (u8 list \<times> 'p Parse) option" where
  "parser_loop sqlite3Parser pr mxSqlLen lastTokenParsed zSql pParse = do {
     t \<leftarrow> next_token mxSqlLen lastTokenParsed zSql;
     case t of
       Too_Big \<Rightarrow> Some (zSql, pParse\<lparr>parse_rc := SQLITE_TOOBIG\<rparr>)
     | Finished \<Rightarrow> Some (zSql, pParse)
     | Token n tokenType mxSqlLen \<Rightarrow>
         if tokenType \<ge> TK_SPACE then do {
           check (tokenType = TK_SPACE \<or> tokenType = TK_ILLEGAL);
           if isInterrupted pParse then Some (zSql, pParse\<lparr>parse_rc := SQLITE_INTERRUPT\<rparr>)
           else if tokenType = TK_ILLEGAL then
             Some (zSql, sqlite3ErrorMsg pr (chs ''unrecognized token: '' @ [34] @ take n zSql @ [34]) pParse)
           else parser_loop sqlite3Parser pr mxSqlLen lastTokenParsed (drop n zSql) pParse }
         else
           let pParse = sqlite3Parser tokenType zSql n pParse in
           if parse_rc pParse \<noteq> SQLITE_OK \<or> mallocFailed pParse then Some (drop n zSql, pParse)
           else parser_loop sqlite3Parser pr mxSqlLen tokenType (drop n zSql) pParse }"

text \<open>After the loop: the number of errors and the message for the caller.\<close>

definition parse_report ::
  "'p printer \<Rightarrow> (int \<Rightarrow> u8 list) \<Rightarrow> u8 list \<Rightarrow> 'p Parse \<Rightarrow> int \<times> u8 list option \<times> 'p Parse" where
  "parse_report pr sqlite3ErrStr zSql pParse =
     (let pParse = pParse\<lparr>zTail := zSql\<rparr>;
        pParse = (if mallocFailed pParse then pParse\<lparr>parse_rc := SQLITE_NOMEM\<rparr> else pParse);
        pParse = (if parse_rc pParse \<noteq> SQLITE_OK \<and> parse_rc pParse \<noteq> SQLITE_DONE \<and> zErrMsg pParse = None
          then (let (z, pParse) = sqlite3VMPrintf pr (sqlite3ErrStr (parse_rc pParse)) pParse in pParse\<lparr>zErrMsg := z\<rparr>)
          else pParse)
      in if zErrMsg pParse \<noteq> None then (1, zErrMsg pParse, pParse\<lparr>zErrMsg := None\<rparr>) else (0, None, pParse))"

text \<open>\<open>None\<close> as the first state of the parser is a failed allocation. The result has no value when an assertion of the
  function fails, the one before its return included.
  Objects that the parser left behind are freed, which this state does not show.\<close>

definition sqlite3RunParser ::
  "'p lemon \<Rightarrow> 'p printer \<Rightarrow> (int \<Rightarrow> u8 list) \<Rightarrow> int \<Rightarrow> 'p option \<Rightarrow> 'p Parse \<Rightarrow> u8 list
    \<Rightarrow> (int \<times> u8 list option \<times> 'p Parse) option" where
  "sqlite3RunParser sqlite3Parser pr sqlite3ErrStr mxSqlLen pEngine pParse zSql =
     (let pParse = (if nVdbeActive pParse = 0 then pParse\<lparr>isInterrupted := False\<rparr> else pParse)\<lparr>parse_rc := SQLITE_OK, zTail := zSql\<rparr> in
      case pEngine of None \<Rightarrow> Some (SQLITE_NOMEM, None, sqlite3OomFault pParse)
      | Some e \<Rightarrow> do {
          (zSql, pParse) \<leftarrow> parser_loop sqlite3Parser pr mxSqlLen (- 1) zSql (pParse\<lparr>engine := e\<rparr>);
          let (n, zMsg, pParse) = parse_report pr sqlite3ErrStr zSql pParse;
          check (n = 0 \<or> parse_rc pParse \<noteq> SQLITE_OK);
          Some (n, zMsg, pParse) })"

end
