(* ===== verification/Keyword_Props.thy ===== *)
theory Keyword_Props
  imports Keyword
begin

text \<open>
  The keyword table finds exactly the keywords. The reference is their list, in the order of the table's comments.
\<close>

unbundle bit_operations_syntax

section \<open>The reference\<close>

definition kw_list :: "(string \<times> int) list" where
  "kw_list = [
     (''REINDEX'', TK_REINDEX), (''INDEXED'', TK_INDEXED), (''INDEX'', TK_INDEX), (''DESC'', TK_DESC),
     (''ESCAPE'', TK_ESCAPE), (''EACH'', TK_EACH), (''CHECK'', TK_CHECK), (''KEY'', TK_KEY),
     (''BEFORE'', TK_BEFORE), (''FOREIGN'', TK_FOREIGN), (''FOR'', TK_FOR), (''IGNORE'', TK_IGNORE),
     (''REGEXP'', TK_LIKE_KW), (''EXPLAIN'', TK_EXPLAIN), (''INSTEAD'', TK_INSTEAD), (''ADD'', TK_ADD),
     (''DATABASE'', TK_DATABASE), (''AS'', TK_AS), (''SELECT'', TK_SELECT), (''TABLE'', TK_TABLE),
     (''LEFT'', TK_JOIN_KW), (''THEN'', TK_THEN), (''END'', TK_END), (''DEFERRABLE'', TK_DEFERRABLE),
     (''ELSE'', TK_ELSE), (''EXCEPT'', TK_EXCEPT), (''TRANSACTION'', TK_TRANSACTION), (''ACTION'', TK_ACTION),
     (''ON'', TK_ON), (''NATURAL'', TK_JOIN_KW), (''ALTER'', TK_ALTER), (''RAISE'', TK_RAISE),
     (''EXCLUSIVE'', TK_EXCLUSIVE), (''EXISTS'', TK_EXISTS), (''SAVEPOINT'', TK_SAVEPOINT), (''INTERSECT'', TK_INTERSECT),
     (''TRIGGER'', TK_TRIGGER), (''REFERENCES'', TK_REFERENCES), (''CONSTRAINT'', TK_CONSTRAINT), (''INTO'', TK_INTO),
     (''OFFSET'', TK_OFFSET), (''OF'', TK_OF), (''SET'', TK_SET), (''TEMPORARY'', TK_TEMP),
     (''TEMP'', TK_TEMP), (''OR'', TK_OR), (''UNIQUE'', TK_UNIQUE), (''QUERY'', TK_QUERY),
     (''WITHOUT'', TK_WITHOUT), (''WITH'', TK_WITH), (''OUTER'', TK_JOIN_KW), (''RELEASE'', TK_RELEASE),
     (''ATTACH'', TK_ATTACH), (''HAVING'', TK_HAVING), (''GROUP'', TK_GROUP), (''UPDATE'', TK_UPDATE),
     (''BEGIN'', TK_BEGIN), (''INNER'', TK_JOIN_KW), (''RECURSIVE'', TK_RECURSIVE), (''BETWEEN'', TK_BETWEEN),
     (''NOTHING'', TK_NOTHING), (''GLOB'', TK_LIKE_KW), (''BY'', TK_BY), (''CASCADE'', TK_CASCADE),
     (''ASC'', TK_ASC), (''DELETE'', TK_DELETE), (''CASE'', TK_CASE), (''COLLATE'', TK_COLLATE),
     (''CREATE'', TK_CREATE), (''CURRENT_DATE'', TK_CTIME_KW), (''DETACH'', TK_DETACH), (''IMMEDIATE'', TK_IMMEDIATE),
     (''JOIN'', TK_JOIN), (''INSERT'', TK_INSERT), (''LIKE'', TK_LIKE_KW), (''MATCH'', TK_MATCH),
     (''PLAN'', TK_PLAN), (''ANALYZE'', TK_ANALYZE), (''PRAGMA'', TK_PRAGMA), (''ABORT'', TK_ABORT),
     (''VALUES'', TK_VALUES), (''VIRTUAL'', TK_VIRTUAL), (''LIMIT'', TK_LIMIT), (''WHEN'', TK_WHEN),
     (''NOTNULL'', TK_NOTNULL), (''NOT'', TK_NOT), (''NO'', TK_NO), (''NULL'', TK_NULL),
     (''WHERE'', TK_WHERE), (''RENAME'', TK_RENAME), (''AFTER'', TK_AFTER), (''REPLACE'', TK_REPLACE),
     (''AND'', TK_AND), (''DEFAULT'', TK_DEFAULT), (''AUTOINCREMENT'', TK_AUTOINCR), (''TO'', TK_TO),
     (''IN'', TK_IN), (''CAST'', TK_CAST), (''COLUMN'', TK_COLUMNKW), (''COMMIT'', TK_COMMIT),
     (''CONFLICT'', TK_CONFLICT), (''CROSS'', TK_JOIN_KW), (''CURRENT_TIMESTAMP'', TK_CTIME_KW), (''CURRENT_TIME'', TK_CTIME_KW),
     (''PRIMARY'', TK_PRIMARY), (''DEFERRED'', TK_DEFERRED), (''DISTINCT'', TK_DISTINCT), (''IS'', TK_IS),
     (''DO'', TK_DO), (''ORDER'', TK_ORDER), (''RESTRICT'', TK_RESTRICT), (''DROP'', TK_DROP),
     (''FAIL'', TK_FAIL), (''FROM'', TK_FROM), (''FULL'', TK_JOIN_KW), (''IF'', TK_IF),
     (''ISNULL'', TK_ISNULL), (''RIGHT'', TK_JOIN_KW), (''ROLLBACK'', TK_ROLLBACK), (''ROW'', TK_ROW),
     (''UNION'', TK_UNION), (''USING'', TK_USING), (''VACUUM'', TK_VACUUM), (''VIEW'', TK_VIEW),
     (''INITIALLY'', TK_INITIALLY), (''ALL'', TK_ALL)]"

section \<open>The tables\<close>

definition kw_text :: "nat \<Rightarrow> u8 list" where
  "kw_text i = take (aKWLen ! i) (drop (aKWOffset ! i) zKWText)"

lemma table_lengths: "length aKWHash = 127" "length aKWNext = 126" "length aKWLen = 126" "length aKWOffset = 126" "length aKWCode = 126"
    "length kw_list = 126" "length zKWText = 560"
  by (simp_all add: aKWHash_def aKWNext_def aKWLen_def aKWOffset_def aKWCode_def kw_list_def zKWText_def)

text \<open>The offsets grow, so that the texts can be read in one pass.\<close>

fun read_texts :: "nat \<Rightarrow> u8 list \<Rightarrow> nat list \<Rightarrow> nat list \<Rightarrow> u8 list list" where
  "read_texts p t (off # offs) (len # lens) = take len (drop (off - p) t) # read_texts off (drop (off - p) t) offs lens"
| "read_texts p t _ _ = []"

lemma read_texts_map: "sorted (p # offs) \<Longrightarrow> read_texts p (drop p t) offs lens = map2 (\<lambda>off len. take len (drop off t)) offs lens"
  by (induction p "drop p t" offs lens rule: read_texts.induct) auto

lemma table_texts: "map2 (\<lambda>off len. take len (drop off zKWText)) aKWOffset aKWLen = map (chs \<circ> fst) kw_list"
proof -
  have "read_texts 0 zKWText aKWOffset aKWLen = map (chs \<circ> fst) kw_list"
    unfolding aKWOffset_def aKWLen_def kw_list_def zKWText_def by simp
  moreover have "sorted (0 # aKWOffset)" unfolding aKWOffset_def by (simp only: sorted2_simps) simp
  ultimately show ?thesis using read_texts_map [of 0 aKWOffset zKWText aKWLen] by simp
qed

lemma table_lens: "aKWLen = map (length \<circ> fst) kw_list"
  by (simp add: aKWLen_def kw_list_def)

lemma table_codes: "aKWCode = map snd kw_list"
  by (simp add: aKWCode_def kw_list_def)

section \<open>Chains\<close>

text \<open>A chain ends and stays in the tables.\<close>

fun chain :: "nat \<Rightarrow> int \<Rightarrow> nat list option" where
  "chain k i = (if i < 0 then Some [] else
     case k of 0 \<Rightarrow> None
     | Suc k \<Rightarrow> if nat i < 126 then map_option ((#) (nat i)) (chain k (int (aKWNext ! nat i) - 1)) else None)"

declare chain.simps [simp del]

definition text_hash :: "u8 list \<Rightarrow> int" where
  "text_hash t = kw_hash (hd t) (last t) (length t)"

definition hashes :: "nat list" where
  "hashes = [
     40, 16, 74, 62, 62, 41, 73, 69, 34, 86, 78, 14, 31, 90, 16, 44, 56, 96, 23, 123,
     105, 31, 60, 54, 64, 79, 18, 73, 117, 124, 88, 99, 51, 76, 26, 114, 2, 28, 91, 110,
     103, 13, 20, 51, 5, 105, 126, 43, 8, 97, 112, 97, 59, 20, 74, 126, 72, 120, 111, 70,
     11, 63, 98, 37, 47, 58, 40, 37, 38, 48, 47, 3, 103, 0, 28, 10, 15, 45, 102, 94,
     8, 28, 106, 19, 124, 104, 120, 121, 119, 98, 88, 97, 44, 76, 86, 32, 109, 85, 65, 87,
     89, 81, 78, 48, 45, 53, 69, 1, 96, 112, 29, 69, 89, 92, 89, 21, 103, 18, 2, 47,
     28, 101, 26, 58, 71, 68]"

definition bucket_chains :: "nat list list" where
  "bucket_chains = [
     [73], [107], [118, 36], [71], [], [44], [], [], [80, 48],
     [], [75], [60], [], [41], [11], [76], [14, 1], [],
     [117, 26], [83], [53, 42], [115], [], [18], [], [], [122, 34],
     [], [120, 81, 74, 37], [110], [], [21, 12], [95], [], [8], [],
     [], [67, 63], [68], [], [66, 0], [5], [], [47], [92, 15],
     [104, 77], [], [119, 70, 64], [103, 69], [], [], [43, 32], [], [105],
     [23], [], [16], [], [123, 65], [52], [22], [], [4, 3],
     [61], [24], [98], [], [], [125], [111, 106, 7], [59], [124],
     [56], [27, 6], [54, 2], [], [93, 33], [], [102, 10], [25], [],
     [101], [], [], [], [97], [94, 9], [99], [90, 30], [114, 112, 100],
     [13], [38], [113], [], [79], [], [108, 17], [91, 51, 49], [89, 62],
     [31], [], [121], [78], [116, 72, 40], [85], [45, 20], [82], [],
     [], [96], [39], [58], [109, 50], [], [35], [], [],
     [28], [], [88], [86, 57], [87], [], [19], [84, 29], [],
     [55, 46]]"

lemma table_chains: "map (\<lambda>h. chain 9 (int h - 1)) aKWHash = map Some bucket_chains"
  unfolding aKWHash_def bucket_chains_def by (simp add: chain.simps aKWNext_def)

lemma table_hashes: "map (text_hash \<circ> chs \<circ> fst) kw_list = map int hashes"
  unfolding kw_list_def hashes_def by (simp add: text_hash_def kw_hash_def tolower_range word_le_nat_alt)

lemma table_members: "list_all2 (\<lambda>i h. i \<in> set (bucket_chains ! h)) [0..<126] hashes"
proof -
  have u: "[0..<126] = [0, 1, 2, 3, 4, 5, 6, 7, 8, 9, 10, 11, 12, 13, 14, 15, 16, 17, 18, 19, 20, 21, 22, 23, 24, 25, 26, 27, 28, 29, 30, 31, 32, 33, 34, 35, 36, 37, 38, 39, 40, 41, 42, 43, 44, 45, 46, 47, 48, 49, 50, 51, 52, 53, 54, 55, 56, 57, 58, 59, 60, 61, 62, 63, 64, 65, 66, 67, 68, 69, 70, 71, 72, 73, 74, 75, 76, 77, 78, 79, 80, 81, 82, 83, 84, 85, 86, 87, 88, 89, 90, 91, 92, 93, 94, 95, 96, 97, 98, 99, 100, 101, 102, 103, 104, 105, 106, 107, 108, 109, 110, 111, 112, 113, 114, 115, 116, 117, 118, 119, 120, 121, 122, 123, 124, 125]" by code_simp
  show ?thesis unfolding u hashes_def bucket_chains_def by simp
qed

lemma kw_letters: "list_all (\<lambda>t. t \<noteq> [] \<and> 65 \<le> hd t \<and> hd t \<le> 90 \<and> 65 \<le> last t \<and> last t \<le> 90 \<and> 2 \<le> length t) (map (chs \<circ> fst) kw_list)"
  unfolding kw_list_def by (simp add: word_le_nat_alt)

lemma chs_inj: "chs a = chs b \<Longrightarrow> a = b"
proof -
  have "unat (ch c) = of_char c" for c
  proof -
    have "unat (word_of_nat (of_char c) :: u8) = of_char c"
      using nat_of_char_less_256 [of c] by (simp only: unsigned_of_nat) (simp add: take_bit_nat_eq_self)
    then show ?thesis by (simp only: of_nat_of_char)
  qed
  then have "inj (of_char :: char \<Rightarrow> u8)" by (metis injI of_char_eq_iff)
  then show "chs a = chs b \<Longrightarrow> a = b" using inj_map_eq_map by metis
qed

lemma kw_distinct: "distinct (map (chs \<circ> fst) kw_list)"
proof -
  have "distinct (map fst kw_list)" unfolding kw_list_def by simp
  moreover have "inj chs" using chs_inj by (rule injI)
  ultimately have "distinct (map chs (map fst kw_list))" 
    using distinct_map [of chs "map fst kw_list"] inj_on_subset [of chs UNIV] by blast
  then show ?thesis by (simp only: map_map)
qed

section \<open>The lookup\<close>

abbreviation upper :: "u8 \<Rightarrow> u8" where
  "upper c \<equiv> c AND NOT 0x20"

lemma bit_0x20: "bit (0x20 :: u8) n \<longleftrightarrow> n = 5"
proof -
  have e: "(0x20 :: u8) = push_bit 5 1" by (simp add: push_bit_eq_mult)
  show ?thesis unfolding e bit_push_bit_iff bit_1_iff by auto
qed
lemma and_split: "c = (c AND NOT m) + (c AND m :: 'a::len word)"
proof -
  have "(c AND NOT m) AND (c AND m) = 0" by (rule bit_word_eqI) (simp add: bit_and_iff bit_not_iff)
  then have "(c AND NOT m) + (c AND m) = (c AND NOT m) OR (c AND m)" by (rule disjunctive_add_eq_or)
  also have "\<dots> = c" by (rule bit_word_eqI) (auto simp: bit_or_iff bit_and_iff bit_not_iff)
  finally show ?thesis by (rule sym)
qed

lemma upper_cases: "c = upper c \<or> c = upper c + 32"
proof -
  have "c AND 0x20 = 0 \<or> c AND 0x20 = 0x20"
  proof (cases "bit c 5")
    case True
    then have "c AND 0x20 = 0x20" by (intro bit_word_eqI) (auto simp only: bit_and_iff bit_0x20)
    then show ?thesis by blast
  next
    case False
    then have "c AND 0x20 = 0" by (intro bit_word_eqI) (auto simp only: bit_and_iff bit_0x20 bit_0_eq bot_fun_def bot_bool_def)
    then show ?thesis by blast
  qed
  moreover have "c = upper c + (c AND 0x20)" by (rule and_split)
  ultimately show ?thesis by (metis add.right_neutral)
qed

lemma upper_tolower: "65 \<le> upper c \<Longrightarrow> upper c \<le> 90 \<Longrightarrow> sqlite3Tolower c = sqlite3Tolower (upper c)"
proof -
  define u where "u = upper c"
  assume "65 \<le> upper c" "upper c \<le> 90"
  then have u: "65 \<le> u" "u \<le> 90" by (simp_all only: u_def)
  then have l: "unat (u + 32) = unat u + 32" by (simp add: unat_word_ariths word_le_nat_alt)
  have "c = u \<or> c = u + 32" unfolding u_def by (rule upper_cases)
  then have "sqlite3Tolower c = sqlite3Tolower u" using l u by (auto simp: tolower_range word_le_nat_alt)
  then show ?thesis by (simp only: u_def)
qed
lemma kw_text_name: "i < 126 \<Longrightarrow> kw_text i = chs (fst (kw_list ! i))"
  using arg_cong [OF table_texts, of "\<lambda>l. l ! i"] by (simp add: kw_text_def table_lengths)

lemma kw_text_length: "i < 126 \<Longrightarrow> length (kw_text i) = aKWLen ! i"
  by (simp add: kw_text_name table_lens table_lengths)

lemma kw_text_letters:
  "i < 126 \<Longrightarrow> kw_text i \<noteq> [] \<and> 65 \<le> hd (kw_text i) \<and> hd (kw_text i) \<le> 90 \<and> 65 \<le> last (kw_text i) \<and> last (kw_text i) \<le> 90 \<and> 2 \<le> length (kw_text i)"
  using kw_letters by (simp add: list_all_length table_lengths kw_text_name)

lemma kw_offset: "i < 126 \<Longrightarrow> aKWOffset ! i + aKWLen ! i \<le> 560"
  using kw_text_length [of i] kw_text_letters [of i] by (simp add: kw_text_def table_lengths min_def split: if_splits)

lemma kw_compare_ok:
  assumes "n \<le> length z" "off + n \<le> 560"
  shows "j \<le> n \<Longrightarrow> \<exists>j'. kw_compare z n off j = Some j' \<and> j' \<le> n \<and> (j' = n \<longleftrightarrow> map upper (drop j (take n z)) = take (n - j) (drop (off + j) zKWText))"
proof (induction "n - j" arbitrary: j)
  case 0
  then show ?case by (subst kw_compare.simps) simp
next
  case (Suc k)
  then have j: "j < n" by simp
  have d: "drop j (take n z) = z ! j # drop (Suc j) (take n z)" using j assms(1) by (simp add: Cons_nth_drop_Suc [symmetric])
  have t: "take (n - j) (drop (off + j) zKWText) = zKWText ! (off + j) # take (n - Suc j) (drop (off + Suc j) zKWText)"
    using j assms(2) by (simp add: table_lengths Cons_nth_drop_Suc [symmetric] take_Cons' Suc_diff_Suc)
  have c: "c_at z j = Some (z ! j)" "nth_opt zKWText (off + j) = Some (zKWText ! (off + j))"
    using j assms by (simp_all add: nth_opt_def table_lengths)
  obtain j' where j': "kw_compare z n off (Suc j) = Some j'" "j' \<le> n"
      "j' = n \<longleftrightarrow> map upper (drop (Suc j) (take n z)) = take (n - Suc j) (drop (off + Suc j) zKWText)"
    using Suc.hyps(1) [of "Suc j"] Suc.hyps(2) j by force
  show ?case using j j' by (subst kw_compare.simps) (simp add: c d t)
qed

definition kw_find :: "u8 list \<Rightarrow> nat list \<Rightarrow> int \<Rightarrow> int" where
  "kw_find w c t = (case List.find (\<lambda>i. kw_text i = w) c of Some i \<Rightarrow> aKWCode ! i | None \<Rightarrow> t)"

lemma kw_chain_ok:
  assumes n: "n \<le> length z"
  shows "chain k i = Some c \<Longrightarrow> kw_chain z n i t = Some (kw_find (map upper (take n z)) c t)"
proof (induction c arbitrary: k i)
  case Nil
  then have "i < 0" by (subst (asm) chain.simps) (auto split: nat.splits if_splits)
  then show ?case by (subst kw_chain.simps) (simp add: kw_find_def)
next
  case (Cons a c)
  then obtain k' where k: "\<not> i < 0" "a = nat i" "nat i < 126" "chain k' (int (aKWNext ! nat i) - 1) = Some c"
    by (subst (asm) chain.simps) (auto split: nat.splits if_splits)
  note IH = Cons.IH [OF k(4)]
  have o: "nth_opt aKWLen (nat i) = Some (aKWLen ! nat i)" "nth_opt aKWNext (nat i) = Some (aKWNext ! nat i)"
      "nth_opt aKWOffset (nat i) = Some (aKWOffset ! nat i)" "nth_opt aKWCode (nat i) = Some (aKWCode ! nat i)"
    using k(3) by (simp_all add: nth_opt_def table_lengths)
  show ?case
  proof (cases "aKWLen ! nat i = n")
    case False
    then have "kw_text a \<noteq> map upper (take n z)" using kw_text_length [OF k(3)] k(2) n by (auto dest: arg_cong [of _ _ length])
    then show ?thesis using k IH o False by (subst kw_chain.simps) (simp add: kw_find_def)
  next
    case True
    obtain j where j: "kw_compare z n (aKWOffset ! nat i) 0 = Some j" "j \<le> n" "j = n \<longleftrightarrow> map upper (take n z) = kw_text (nat i)"
      using kw_compare_ok [OF n, of "aKWOffset ! nat i" 0] kw_offset [OF k(3)] True by (auto simp: kw_text_def)
    then show ?thesis using k IH o True by (subst kw_chain.simps) (auto simp: kw_find_def)
  qed
qed

text \<open>The chain of a hash has every keyword with this hash.\<close>

lemma kw_chains:
  assumes "h < 127"
  shows "chain 9 (int (aKWHash ! h) - 1) = Some (bucket_chains ! h)"
  using arg_cong [OF table_chains, of "\<lambda>l. l ! h"] arg_cong [OF table_chains, of length] assms by (simp add: table_lengths)

lemma kw_member:
  assumes "i < 126"
  shows "i \<in> set (bucket_chains ! nat (text_hash (kw_text i)))"
proof -
  have l: "length hashes = 126" using arg_cong [OF table_hashes, of length] by (simp add: table_lengths)
  have "text_hash (kw_text i) = int (hashes ! i)"
    using arg_cong [OF table_hashes, of "\<lambda>l. l ! i"] assms l by (simp add: table_lengths kw_text_name)
  then show ?thesis using list_all2_nthD [OF table_members, of i] assms by simp
qed

lemma chain_range: "chain k i = Some c \<Longrightarrow> a \<in> set c \<Longrightarrow> a < 126"
proof (induction c arbitrary: k i)
  case (Cons b c)
  then obtain k' where "b = nat i" "nat i < 126" "chain k' (int (aKWNext ! nat i) - 1) = Some c"
    by (subst (asm) (3) chain.simps) (auto split: nat.splits if_splits)
  then show ?case using Cons by auto
qed simp

lemma kw_hash_range: "0 \<le> kw_hash a b n" "nat (kw_hash a b n) < 127"
  using pos_mod_bound [of 127 "(charMap a * 4) XOR (charMap b * 3) XOR int n"] by (simp_all add: kw_hash_def nat_less_iff)

lemma kw_hash_upper:
  assumes i: "i < 126" and w: "map upper (take n z) = kw_text i" and n: "n \<le> length z"
  shows "kw_hash (z ! 0) (z ! (n - 1)) n = text_hash (kw_text i)"
proof -
  note l = kw_text_letters [OF i]
  have len: "length (kw_text i) = n" using n arg_cong [OF w, of length] by simp
  have hd: "hd (kw_text i) = upper (z ! 0)" using l len n w [symmetric] by (simp add: hd_conv_nth)
  have lt: "last (kw_text i) = upper (z ! (n - 1))" using l len n w [symmetric] by (simp add: last_conv_nth)
  show ?thesis
    using upper_tolower [of "z ! 0"] upper_tolower [of "z ! (n - 1)"] l len hd lt by (simp add: text_hash_def kw_hash_def)
qed

text \<open>The code of a keyword, in any case.\<close>

definition kw_code :: "u8 list \<Rightarrow> int" where
  "kw_code w = (case map_of (map (\<lambda>(s, t). (chs s, t)) kw_list) w of Some t \<Rightarrow> t | None \<Rightarrow> TK_ID)"

lemma kw_code_text: "i < 126 \<Longrightarrow> kw_code (kw_text i) = aKWCode ! i"
proof -
  assume i: "i < 126"
  have "map fst (map (\<lambda>(s, t). (chs s, t)) kw_list) = map (chs \<circ> fst) kw_list" by (simp add: comp_def case_prod_beta)
  moreover have "(kw_text i, aKWCode ! i) \<in> set (map (\<lambda>(s, t). (chs s, t)) kw_list)"
    using i by (auto simp: kw_text_name table_codes table_lengths case_prod_beta intro!: image_eqI [of _ _ "kw_list ! i"])
  ultimately have "map_of (map (\<lambda>(s, t). (chs s, t)) kw_list) (kw_text i) = Some (aKWCode ! i)"
    using kw_distinct by (metis map_of_is_SomeI)
  then show ?thesis by (simp add: kw_code_def)
qed

lemma kw_code_none: "(\<And>i. i < 126 \<Longrightarrow> kw_text i \<noteq> w) \<Longrightarrow> kw_code w = TK_ID"
proof -
  assume n: "\<And>i. i < 126 \<Longrightarrow> kw_text i \<noteq> w"
  have "w \<notin> fst ` set (map (\<lambda>(s, t). (chs s, t)) kw_list)"
  proof
    assume "w \<in> fst ` set (map (\<lambda>(s, t). (chs s, t)) kw_list)"
    then obtain i where "i < length kw_list" "w = chs (fst (kw_list ! i))" by (auto simp: in_set_conv_nth case_prod_beta)
    then show False using n [of i] by (simp add: table_lengths kw_text_name)
  qed
  then have "map_of (map (\<lambda>(s, t). (chs s, t)) kw_list) w = None" by (rule map_of_eq_None_iff [THEN iffD2])
  then show ?thesis by (simp add: kw_code_def)
qed

lemma kw_find_code:
  assumes "h < 127" and "\<And>i. i < 126 \<Longrightarrow> w = kw_text i \<Longrightarrow> h = nat (text_hash (kw_text i))"
  shows "kw_find w (bucket_chains ! h) TK_ID = kw_code w"
proof (cases "List.find (\<lambda>i. kw_text i = w) (bucket_chains ! h)")
  case None
  have "kw_text i \<noteq> w" if "i < 126" for i
    using None kw_member [OF that] assms(2) [OF that] by (auto simp: find_None_iff)
  then show ?thesis using None kw_code_none [of w] by (simp add: kw_find_def)
next
  case (Some i)
  then have "kw_text i = w" "i \<in> set (bucket_chains ! h)" by (auto simp: find_Some_iff)
  then show ?thesis using Some chain_range [OF kw_chains [OF assms(1)], of i] kw_code_text [of i] by (simp add: kw_find_def)
qed

lemma keywordCode_ok:
  assumes "n \<le> length z"
  shows "keywordCode z n TK_ID = Some (kw_code (map upper (take n z)))"
proof (cases "2 \<le> n")
  case False
  have "kw_text i \<noteq> map upper (take n z)" if "i < 126" for i
    using kw_text_letters [OF that] False assms by (auto dest: arg_cong [of _ _ length])
  then show ?thesis using False kw_code_none by (simp add: keywordCode_def)
next
  case True
  let ?h = "nat (kw_hash (z ! 0) (z ! (n - 1)) n)" and ?w = "map upper (take n z)"
  have c: "c_at z 0 = Some (z ! 0)" "c_at z (n - 1) = Some (z ! (n - 1))" using True assms by (auto simp: c_at_def)
  have h: "nth_opt aKWHash ?h = Some (aKWHash ! ?h)" using kw_hash_range(2) by (simp add: nth_opt_def table_lengths)
  have "keywordCode z n TK_ID = Some (kw_find ?w (bucket_chains ! ?h) TK_ID)"
    using True kw_chain_ok [OF assms kw_chains [OF kw_hash_range(2)]] by (simp add: keywordCode_def c c [simplified] h h [simplified])
  also have "kw_find ?w (bucket_chains ! ?h) TK_ID = kw_code ?w"
    using kw_hash_upper assms by (intro kw_find_code kw_hash_range(2)) metis
  finally show ?thesis .
qed

text \<open>C26: the perfect-hash lookup agrees with a linear search of the list of the 126 keywords: on every buffer and
  every length the lookup is safe, ends, and gives the code of the keyword that the bytes spell once the bit 0x20 of each is
  cleared, or \<open>TK_ID\<close>.\<close>

theorem keyword_lookup_is_search:
  assumes "n \<le> length z"
  shows "sqlite3KeywordCode z n = Some (kw_code (map upper (take n z)))"
  unfolding sqlite3KeywordCode_def using assms by (rule keywordCode_ok)

theorem keyword_lookup_is_search_witness:
  "sqlite3KeywordCode (chs ''sElect*'') 6 = Some TK_SELECT"
  using keyword_lookup_is_search [of 6 "chs ''sElect*''"] by (simp add: kw_code_def kw_list_def)

text \<open>clearing the bit 0x20 turns the byte 0x7F into an underscore, so \<open>sqlite3_keyword_check\<close> takes
  CURRENT, 0x7F, DATE for a keyword.\<close>

theorem keyword_check_accepts_del:
  "sqlite3_keyword_check (chs ''current'' @ [0x7F] @ chs ''date'') 12 = Some True"
proof -
  have "sqlite3KeywordCode (chs ''current'' @ [0x7F] @ chs ''date'') 12 = Some TK_CTIME_KW"
    using keywordCode_ok [of 12 "chs ''current'' @ [0x7F] @ chs ''date''"]
    by (simp add: sqlite3KeywordCode_def kw_code_def kw_list_def)
  then show ?thesis by (simp add: sqlite3_keyword_check_def TK_defs)
qed

end
