(* ===== verification/Tokenize_Props.thy ===== *)
theory Tokenize_Props
  imports Tokenize Keyword_Props Numtext_Props
begin

text \<open>
  The tokenizer on any C string: it stays inside, makes progress, and returns a type that the loop over the tokens expects. So
  the loop ends, and what the parser gets is the list of the tokens of the text.
\<close>

section \<open>Scanning\<close>

text \<open>A C string has no zero inside; \<open>within z i j\<close> bounds a result.\<close>

abbreviation c_string :: "u8 list \<Rightarrow> bool" where
  "c_string z \<equiv> 0 \<notin> set z"

lemma c_at_total: "i \<le> length z \<Longrightarrow> \<exists>c. c_at z i = Some c"
  by (auto simp: c_at_def)

lemma c_at_lt: "i < length z \<Longrightarrow> c_at z i = Some (z ! i)" and c_at_len: "i = length z \<Longrightarrow> c_at z i = Some 0"
  by (simp_all add: c_at_def)

lemma c_at_zero: "c_string z \<Longrightarrow> c_at z i = Some c \<Longrightarrow> c \<noteq> 0 \<longleftrightarrow> i < length z"
  using nth_mem [of i z] by (auto simp: c_at_def simp del: nth_mem split: if_splits)

lemma c_at_bound: "c_at z i = Some c \<Longrightarrow> i \<le> length z"
  by (auto simp: c_at_def split: if_splits)

lemma scan_ok:
  assumes "\<not> P 0"
  shows "i \<le> length z \<Longrightarrow> \<exists>j. scan P z i = Some j \<and> i \<le> j \<and> j \<le> length z"
proof (induction "length z - i" arbitrary: i)
  case 0
  then have "c_at z i = Some 0" by (simp add: c_at_def)
  then show ?case using 0 assms by (subst scan.simps) auto
next
  case (Suc k)
  then have "i < length z" by simp
  then have i: "c_at z i = Some (z ! i)" "i < length z" by (simp_all add: c_at_lt)
  show ?case
  proof (cases "P (z ! i)")
    case True
    then show ?thesis using Suc.hyps(1) [of "Suc i"] Suc.hyps(2) i by (subst scan.simps) (fastforce simp: Suc_leD)
  next
    case False
    then show ?thesis using i by (subst scan.simps) simp
  qed
qed

lemma scan_stop: "scan P z i = Some j \<Longrightarrow> \<exists>c. c_at z j = Some c \<and> \<not> P c"
proof (induction "length z - i" arbitrary: i rule: less_induct)
  case less
  obtain c where c: "c_at z i = Some c" "(if P c then scan P z (i + 1) else Some i) = Some j"
    using less.prems by (subst (asm) scan.simps) (auto simp: bind_eq_Some_conv)
  show ?case
  proof (cases "P c")
    case True
    then have s: "scan P z (i + 1) = Some j" using c(2) by simp
    then have "i + 1 \<le> length z" by (subst (asm) scan.simps) (auto simp: bind_eq_Some_conv dest: c_at_bound)
    then show ?thesis using less.hyps [OF _ s] by simp
  next
    case False
    then show ?thesis using c by auto
  qed
qed

lemma class_zero: "aiClass ! unat 0 = 27" "\<not> sqlite3Isspace 0" "\<not> sqlite3Isdigit 0" "\<not> sqlite3Isxdigit 0" "\<not> IdChar 0"
  by (simp_all add: aiClass_def ctype_ranges)

lemma comment_loop_ok: "c_string z \<Longrightarrow> i \<le> length z \<Longrightarrow>
   \<exists>j c'. comment_loop z i c = Some (j, c') \<and> i \<le> j \<and> j \<le> length z \<and> (c' \<noteq> 0 \<longrightarrow> j < length z)"
proof (induction "length z - i" arbitrary: i c)
  case 0
  then show ?case by (subst comment_loop.simps) auto
next
  case (Suc k)
  then have "i < length z" by simp
  then have i: "c_at z i = Some (z ! i)" "i < length z" by (simp_all add: c_at_lt)
  obtain j c' where "comment_loop z (i + 1) (z ! i) = Some (j, c')" "i + 1 \<le> j \<and> j \<le> length z" "c' \<noteq> 0 \<longrightarrow> j < length z"
    using Suc.hyps(1) [of "Suc i" "z ! i"] Suc.hyps(2) Suc.prems i by fastforce
  then show ?case using i by (subst comment_loop.simps) auto
qed

lemma quote_loop_ok: "c_string z \<Longrightarrow> delim \<noteq> 0 \<Longrightarrow> i \<le> length z \<Longrightarrow>
   \<exists>j c. quote_loop z delim i = Some (j, c) \<and> i \<le> j \<and> j \<le> length z \<and> (c \<noteq> 0 \<longrightarrow> j < length z)"
proof (induction "length z - i" arbitrary: i rule: less_induct)
  case less
  show ?case
  proof (cases "i < length z")
    case False
    then show ?thesis using less.prems by (subst quote_loop.simps) auto
  next
    case True
    then have c: "c_at z i = Some (z ! i)" by simp
    obtain d where d: "c_at z (i + 1) = Some d" using c_at_total [of "i + 1" z] True by auto
    have "d = delim \<Longrightarrow> i + 2 \<le> length z" using d less.prems by (auto simp: c_at_def split: if_splits)
    then have "d = delim \<Longrightarrow> \<exists>j c. quote_loop z delim (i + 2) = Some (j, c) \<and> i \<le> j \<and> j \<le> length z \<and> (c \<noteq> 0 \<longrightarrow> j < length z)"
      using less.hyps [of "i + 2"] less.prems True by fastforce
    moreover have "\<exists>j c. quote_loop z delim (i + 1) = Some (j, c) \<and> i \<le> j \<and> j \<le> length z \<and> (c \<noteq> 0 \<longrightarrow> j < length z)"
      using less.hyps [of "i + 1"] less.prems True by fastforce
    ultimately show ?thesis using True c d by (subst quote_loop.simps) auto
  qed
qed

lemma variable_loop_ok: "i \<le> length z \<Longrightarrow> \<exists>j m b. variable_loop z i n = Some (j, m, b) \<and> i \<le> j \<and> j \<le> length z"
proof (induction "length z - i" arbitrary: i n rule: less_induct)
  case less
  show ?case
  proof (cases "i < length z")
    case False
    then show ?thesis using less.prems by (subst variable_loop.simps) auto
  next
    case True
    then have c: "c_at z i = Some (z ! i)" by simp
    obtain d where d: "c_at z (i + 1) = Some d" using c_at_total [of "i + 1" z] True by auto
    have "d = ch CHR '':'' \<Longrightarrow> i + 2 \<le> length z" using d by (auto simp: c_at_def split: if_splits)
    then have two: "d = ch CHR '':'' \<Longrightarrow> \<exists>j m b. variable_loop z (i + 2) n = Some (j, m, b) \<and> i \<le> j \<and> j \<le> length z"
      using less.hyps [of "i + 2" n] True by fastforce
    have one: "\<exists>j m b. variable_loop z (i + 1) (n + 1) = Some (j, m, b) \<and> i \<le> j \<and> j \<le> length z"
      using less.hyps [of "i + 1" "n + 1"] True by fastforce
    obtain k e where k: "scan (\<lambda>c. c \<noteq> 0 \<and> \<not> sqlite3Isspace c \<and> c \<noteq> ch CHR '')'') z (i + 1) = Some k" "i + 1 \<le> k" "k \<le> length z" "c_at z k = Some e"
      using scan_ok [of "\<lambda>c. c \<noteq> 0 \<and> \<not> sqlite3Isspace c \<and> c \<noteq> ch CHR '')''" "i + 1" z] c_at_total True by fastforce
    have "e = ch CHR '')'' \<Longrightarrow> k + 1 \<le> length z" using k by (auto simp: c_at_def split: if_splits)
    then show ?thesis using True c d one two k by (subst variable_loop.simps) auto
  qed
qed

section \<open>One token\<close>

definition token_ok :: "u8 list \<Rightarrow> (nat \<times> int) option \<Rightarrow> bool" where
  "token_ok z r \<longleftrightarrow> (\<exists>n t. r = Some (n, t) \<and> 1 \<le> n \<and> n \<le> length z \<and> 1 \<le> t \<and> t \<le> TK_ILLEGAL)"

lemma token_okI: "1 \<le> n \<Longrightarrow> n \<le> length z \<Longrightarrow> 1 \<le> t \<Longrightarrow> t \<le> TK_ILLEGAL \<Longrightarrow> token_ok z (Some (n, t))"
  by (simp add: token_ok_def)

lemma class_facts: "(aiClass ! unat c = 3 \<longrightarrow> sqlite3Isdigit c) \<and> (aiClass ! unat c = 26 \<longrightarrow> c = 46) \<and>
    (aiClass ! unat c = 9 \<longrightarrow> c = 91) \<and> (aiClass ! unat c \<le> 27)"
proof -
  have "list_all2 (\<lambda>c k. (k = 3 \<longrightarrow> 48 \<le> c \<and> c \<le> 57) \<and> (k = 26 \<longrightarrow> c = 46) \<and> (k = 9 \<longrightarrow> c = 91) \<and> k \<le> 27) all_u8 aiClass"
    unfolding all_u8_def aiClass_def by (simp add: word_le_nat_alt)
  then show ?thesis unfolding ctype_ranges by (rule table_entry)
qed

lemma scan_obtain:
  assumes "\<not> P 0" "i \<le> length z"
  obtains j where "scan P z i = Some j" "i \<le> j" "j \<le> length z"
  using scan_ok [of P i z] assms by auto

lemma number_token_ok:
  assumes z: "z \<noteq> []" and z0: "sqlite3Isdigit (z ! 0) \<or> z ! 0 = 46"
  shows "token_ok z (number_token z)"
proof -
  note cl = class_zero(3-5)
  have l: "1 \<le> length z" using z by (cases z) auto
  have c0: "c_at z 0 = Some (z ! 0)" using z by (simp add: c_at_lt)
  obtain hex where hex: "is_hex z = Some hex" "hex \<Longrightarrow> 3 \<le> length z"
  proof -
    obtain c1 where c1: "c_at z 1 = Some c1" using c_at_total l by blast
    have "c1 \<noteq> 0 \<Longrightarrow> 2 \<le> length z" using c1 by (auto simp: c_at_def split: if_splits)
    then have "c1 \<noteq> 0 \<Longrightarrow> \<exists>c2. c_at z 2 = Some c2" using c_at_total by blast
    moreover have "c_at z 2 = Some c2 \<Longrightarrow> sqlite3Isxdigit c2 \<Longrightarrow> 3 \<le> length z" for c2
      using cl by (auto simp: c_at_def split: if_splits)
    ultimately show thesis using c0 c1 by (intro that [of "the (is_hex z)"]) (auto simp: is_hex_def split: if_splits)
  qed
  show ?thesis
  proof (cases hex)
    case True
    obtain i where "scan sqlite3Isxdigit z 3 = Some i" "3 \<le> i" "i \<le> length z" using scan_obtain hex(2) True cl by metis
    then show ?thesis using hex True by (simp add: number_token_def token_ok_def TK_defs)
  next
    case False
    obtain i c where i: "scan sqlite3Isdigit z 0 = Some i" "i \<le> length z" "c_at z i = Some c" "1 \<le> i \<or> c = 46"
    proof -
      obtain i where i: "scan sqlite3Isdigit z 0 = Some i" "i \<le> length z" using scan_obtain cl by (metis le0)
      obtain c where c: "c_at z i = Some c" "\<not> sqlite3Isdigit c" using scan_stop [OF i(1)] by auto
      have "1 \<le> i \<or> c = 46" using c c0 z0 by (cases i) auto
      then show thesis using that i c by blast
    qed
    obtain j t where j: "(if c = 46 then do { i \<leftarrow> scan sqlite3Isdigit z (i + 1); Some (i, TK_FLOAT) } else Some (i, TK_INTEGER)) = Some (j, t)"
        "1 \<le> j" "j \<le> length z" "t \<in> {TK_FLOAT, TK_INTEGER}"
    proof (cases "c = 46")
      case True
      then have "i + 1 \<le> length z" using i by (auto simp: c_at_def split: if_splits)
      then show thesis using True scan_obtain [of sqlite3Isdigit "i + 1" z] cl that by fastforce
    next
      case False
      then show thesis using i that by auto
    qed
    obtain e where e: "has_exponent z j = Some e" "e \<Longrightarrow> j + 2 \<le> length z"
    proof -
      obtain d0 where d0: "c_at z j = Some d0" using c_at_total j(3) by blast
      have "d0 \<noteq> 0 \<Longrightarrow> j + 1 \<le> length z" using d0 by (auto simp: c_at_def split: if_splits)
      then obtain d1 where d1: "d0 \<noteq> 0 \<Longrightarrow> c_at z (j + 1) = Some d1" using c_at_total by metis
      have two: "d0 \<noteq> 0 \<Longrightarrow> d1 \<noteq> 0 \<Longrightarrow> j + 2 \<le> length z" using d1 by (auto simp: c_at_def split: if_splits)
      then obtain d2 where d2: "d0 \<noteq> 0 \<Longrightarrow> d1 \<noteq> 0 \<Longrightarrow> c_at z (j + 2) = Some d2" using c_at_total by metis
      have "sqlite3Isdigit d1 \<Longrightarrow> d1 \<noteq> 0" using cl by auto
      then show thesis using d0 d1 d2 two by (intro that [of "the (has_exponent z j)"]) (auto simp: has_exponent_def split: if_splits)
    qed
    obtain k t' where k: "(if e then do { i \<leftarrow> scan sqlite3Isdigit z (j + 2); Some (i, TK_FLOAT) } else Some (j, t)) = Some (k, t')"
        "1 \<le> k" "k \<le> length z" "t' \<in> {TK_FLOAT, TK_INTEGER}"
    proof (cases e)
      case True
      then show thesis using e(2) scan_obtain [of sqlite3Isdigit "j + 2" z] cl that by fastforce
    next
      case False
      then show thesis using j that by auto
    qed
    obtain m where "scan IdChar z k = Some m" "k \<le> m" "m \<le> length z" using scan_obtain k(3) cl by metis
    then show ?thesis using hex False i j k e by (auto simp: number_token_def token_ok_def TK_defs)
  qed
qed

lemma token_ok_if: "(b \<Longrightarrow> token_ok z x) \<Longrightarrow> (\<not> b \<Longrightarrow> token_ok z y) \<Longrightarrow> token_ok z (if b then x else y)"
  by simp

lemma token_ok_scan: "\<not> P 0 \<Longrightarrow> i \<le> length z \<Longrightarrow> 1 \<le> i \<Longrightarrow> 1 \<le> t \<Longrightarrow> t \<le> TK_ILLEGAL \<Longrightarrow>
    token_ok z (do { j \<leftarrow> scan P z i; Some (j, t) })"
  using scan_ok [of P i z] by (auto simp: token_ok_def)

lemma token_ok_two:
  assumes "z \<noteq> []" "\<And>c. 1 \<le> fst (g c) \<and> fst (g c) \<le> (if c = 0 then 1 else 2) \<and> 1 \<le> snd (g c) \<and> snd (g c) \<le> TK_ILLEGAL"
  shows "token_ok z (do { c \<leftarrow> c_at z 1; Some (g c) })"
proof -
  obtain c where c: "c_at z 1 = Some c" using c_at_total [of 1 z] assms(1) by (cases z) auto
  have "1 \<le> length z" "c \<noteq> 0 \<Longrightarrow> 2 \<le> length z" using assms(1) c by (auto simp: c_at_def Suc_le_eq split: if_splits)
  then have "fst (g c) \<le> length z" using assms(2) [of c] by (auto split: if_splits)
  then show ?thesis using c assms(2) [of c] by (cases "g c") (simp add: token_ok_def)
qed

lemma blob_token_ok:
  assumes "2 \<le> length z"
  shows "token_ok z (blob_token z)"
proof -
  obtain i where i: "scan sqlite3Isxdigit z 2 = Some i" "2 \<le> i" "i \<le> length z" using scan_obtain assms class_zero by metis
  obtain c where c: "c_at z i = Some c" using c_at_total i by blast
  obtain j t where j: "(if c \<noteq> 39 \<or> odd i then do { i \<leftarrow> scan (\<lambda>c. c \<noteq> 0 \<and> c \<noteq> 39) z i; Some (i, TK_ILLEGAL) } else Some (i, TK_BLOB)) = Some (j, t)"
      "2 \<le> j" "j \<le> length z" "t \<in> {TK_ILLEGAL, TK_BLOB}"
  proof (cases "c \<noteq> 39 \<or> odd i")
    case True
    then show thesis using scan_obtain [of "\<lambda>c. c \<noteq> 0 \<and> c \<noteq> 39" i z] i that by fastforce
  next
    case False
    then show thesis using i that by auto
  qed
  obtain d where d: "c_at z j = Some d" using c_at_total j by blast
  then have "d \<noteq> 0 \<Longrightarrow> j + 1 \<le> length z" by (auto simp: c_at_def split: if_splits)
  then show ?thesis using i c j d by (auto simp: blob_token_def token_ok_def TK_defs)
qed

lemma keyword_type: "1 \<le> kw_code w \<and> kw_code w \<le> TK_ILLEGAL"
proof (cases "\<exists>i < 126. kw_text i = w")
  case True
  moreover have "list_all (\<lambda>t. 1 \<le> t \<and> t \<le> 163) aKWCode" by (simp add: aKWCode_def TK_defs)
  ultimately show ?thesis using kw_code_text by (auto simp: list_all_length table_lengths TK_defs)
next
  case False
  then show ?thesis using kw_code_none [of w] by (auto simp: TK_defs)
qed

lemma kyword_ok:
  assumes "z \<noteq> []"
  shows "token_ok z (do {
       i \<leftarrow> scan (\<lambda>c. aiClass ! unat c \<le> CC_KYWD) z 1;
       c \<leftarrow> c_at z i;
       if IdChar c then id_rest z (i + 1)
       else do { t \<leftarrow> keywordCode z i TK_ID; Some (i, t) } })"
proof -
  have l: "1 \<le> length z" using assms by (cases z) auto
  obtain i where i: "scan (\<lambda>c. aiClass ! unat c \<le> CC_KYWD) z 1 = Some i" "1 \<le> i" "i \<le> length z"
    using scan_obtain [of "\<lambda>c. aiClass ! unat c \<le> CC_KYWD" 1 z] l class_zero(1) by (auto simp: CC_defs word_le_nat_alt)
  obtain c where c: "c_at z i = Some c" using c_at_total i by blast
  then have "IdChar c \<Longrightarrow> i + 1 \<le> length z" using class_zero(5) by (auto simp: c_at_def split: if_splits)
  then have "IdChar c \<Longrightarrow> token_ok z (id_rest z (i + 1))"
    unfolding id_rest_def using class_zero(5) by (intro token_ok_scan) (auto simp: TK_defs)
  then show ?thesis using i c keywordCode_ok [OF i(3)] keyword_type by (auto simp: token_ok_def)
qed

lemma get_token_ok:
  assumes z: "z \<noteq> []" "c_string z"
  shows "token_ok z (sqlite3GetToken z)"
proof -
  have l: "1 \<le> length z" using z by (cases z) auto
  have z0: "c_at z 0 = Some (z ! 0)" "z ! 0 \<noteq> 0" using z by (auto simp: c_at_lt) (metis length_greater_0_conv nth_mem)
  obtain c1 where c1: "c_at z 1 = Some c1" using c_at_total l by blast
  have l2: "c1 \<noteq> 0 \<Longrightarrow> 2 \<le> length z" using c1 by (auto simp: c_at_def split: if_splits)
  have one: "token_ok z (Some (1, t))" if "1 \<le> t" "t \<le> TK_ILLEGAL" for t using that l by (simp add: token_ok_def)
  have minus: "token_ok z (do {
       c \<leftarrow> c_at z 1;
       if c = ch CHR ''-'' then do { i \<leftarrow> scan (\<lambda>c. c \<noteq> 0 \<and> c \<noteq> 10) z 2; Some (i, TK_SPACE) } else Some (1, TK_MINUS) })"
    using c1 l2 one token_ok_scan [of "\<lambda>c. c \<noteq> 0 \<and> c \<noteq> 10" 2 z TK_SPACE] by (auto simp: TK_defs)
  have slash: "token_ok z (do {
       c1 \<leftarrow> c_at z 1;
       c2 \<leftarrow> (if c1 \<noteq> ch CHR ''*'' then Some 0 else c_at z 2);
       if c1 \<noteq> ch CHR ''*'' \<or> c2 = 0 then Some (1, TK_SLASH)
       else do { (i, c) \<leftarrow> comment_loop z 3 c2; Some (if c \<noteq> 0 then i + 1 else i, TK_SPACE) } })"
  proof (cases "c1 = ch CHR ''*''")
    case False
    then show ?thesis using c1 one [of TK_SLASH] by (simp add: TK_defs)
  next
    case True
    then obtain c2 where c2: "c_at z 2 = Some c2" using l2 c_at_total by fastforce
    then have "c2 \<noteq> 0 \<Longrightarrow> 3 \<le> length z" by (auto simp: c_at_def split: if_splits)
    then show ?thesis using True c1 c2 one [of TK_SLASH] comment_loop_ok [of z 3 c2] z(2) by (auto simp: TK_defs token_ok_def)
  qed
  have quote: "token_ok z (do {
       (i, c) \<leftarrow> quote_loop z (z ! 0) 1;
       Some (if c = 39 then (i + 1, TK_STRING) else if c \<noteq> 0 then (i + 1, TK_ID) else (i, TK_ILLEGAL)) })"
    using quote_loop_ok [OF z(2) z0(2) l] by (auto simp: token_ok_def TK_defs)
  have dot: "token_ok z (do { c \<leftarrow> c_at z 1; if \<not> sqlite3Isdigit c then Some (1, TK_DOT) else number_token z })" if "aiClass ! unat (z ! 0) = CC_DOT"
    using that c1 one [of TK_DOT] number_token_ok [OF z(1)] class_facts [of "z ! 0"] by (simp add: CC_defs TK_defs)
  have digit: "token_ok z (number_token z)" if "aiClass ! unat (z ! 0) = CC_DIGIT"
    using that number_token_ok [OF z(1)] class_facts [of "z ! 0"] by (simp add: CC_defs)
  have bracket: "token_ok z (bracket_end z)"
  proof -
    obtain i where i: "scan (\<lambda>c. c \<noteq> 0 \<and> c \<noteq> ch CHR '']'') z 1 = Some i" "1 \<le> i" "i \<le> length z"
      using scan_obtain [of "\<lambda>c. c \<noteq> 0 \<and> c \<noteq> ch CHR '']''" 1 z] l by auto
    obtain c where c: "c_at z i = Some c" using c_at_total i by blast
    then have "c \<noteq> 0 \<Longrightarrow> i + 1 \<le> length z" by (auto simp: c_at_def split: if_splits)
    then show ?thesis using i c by (simp add: bracket_end_def token_ok_def TK_defs)
  qed
  have variable: "token_ok z (do { (i, n, open) \<leftarrow> variable_loop z 1 0; Some (i, if open \<or> n = 0 then TK_ILLEGAL else TK_VARIABLE) })"
    using variable_loop_ok [OF l, of 0] by (auto simp: token_ok_def TK_defs)
  have blob: "token_ok z (do { c \<leftarrow> c_at z 1; if c = 39 then blob_token z else id_rest z 1 })"
    using c1 l2 blob_token_ok token_ok_scan [of IdChar 1 z TK_ID] class_zero(5) l by (auto simp: id_rest_def TK_defs)
  have ident: "token_ok z (id_rest z 1)"
    using token_ok_scan [of IdChar 1 z TK_ID] class_zero(5) l by (auto simp: id_rest_def TK_defs)
  show ?thesis
    unfolding sqlite3GetToken_def z0(1) Let_def bind.bind_lunit
    by (intro token_ok_if; (rule one | rule minus | rule slash | rule quote | rule dot | rule digit | rule bracket | rule variable
        | rule kyword_ok [OF z(1)] | rule blob | rule ident | rule token_ok_scan | rule token_ok_two [OF z(1)]);
      simp add: TK_defs class_zero l [unfolded One_nat_def])
qed

text \<open>Only white space, comments and illegal tokens have types from \<open>TK_SPACE\<close> on; \<open>sqlite3RunParser\<close> asserts it.\<close>

lemma token_obtain:
  assumes "z \<noteq> []" "c_string z"
  obtains n t where "sqlite3GetToken z = Some (n, t)" "1 \<le> n" "n \<le> length z" "1 \<le> t" "t \<le> TK_ILLEGAL" "0 < t" "t \<noteq> 0"
  using get_token_ok [OF assms] that by (fastforce simp: token_ok_def)

text \<open>C24: on every C string that is not empty the tokenizer returns: it reads nothing behind the terminator, the token has
  at least one byte and lies inside the string, and its type is a token type, where only \<open>TK_SPACE\<close> and \<open>TK_ILLEGAL\<close> are
  not for the parser.\<close>

theorem token_inside:
  assumes "z \<noteq> []" and "0 \<notin> set z"
  shows "\<exists>n t. sqlite3GetToken z = Some (n, t) \<and> 1 \<le> n \<and> n \<le> length z \<and> 1 \<le> t \<and> (t < TK_SPACE \<or> t = TK_SPACE \<or> t = TK_ILLEGAL)"
  using get_token_ok [OF assms] by (fastforce simp: token_ok_def TK_defs)

theorem token_inside_witness:
  "\<exists>n t. sqlite3GetToken (chs ''x1'') = Some (n, t) \<and> 1 \<le> n \<and> n \<le> 2"
  using token_inside [of "chs ''x1''"] by auto

section \<open>The tokens of a text\<close>

function tokens :: "u8 list \<Rightarrow> (int \<times> u8 list) list" where
  "tokens z = (case sqlite3GetToken z of
     Some (n, t) \<Rightarrow> if z \<noteq> [] \<and> 0 < n then (t, take n z) # tokens (drop n z) else []
   | None \<Rightarrow> [])"
  by pat_completeness auto
termination
  by (relation "measure length") auto

declare tokens.simps [simp del]

lemma c_string_drop: "c_string z \<Longrightarrow> c_string (drop n z)"
  by (auto dest: in_set_dropD)

lemma tokens_nil: "tokens [] = []"
  by (subst tokens.simps) (auto split: option.splits)

lemma tokens_cons: "sqlite3GetToken z = Some (n, t) \<Longrightarrow> z \<noteq> [] \<Longrightarrow> 1 \<le> n \<Longrightarrow> tokens z = (t, take n z) # tokens (drop n z)"
  by (subst tokens.simps) simp

lemma tokens_concat: "c_string z \<Longrightarrow> concat (map snd (tokens z)) = z"
proof (induction z rule: length_induct)
  case (1 z)
  show ?case
  proof (cases "z = []")
    case False
    then obtain n t where t: "sqlite3GetToken z = Some (n, t)" "1 \<le> n" "n \<le> length z" using 1 token_obtain by metis
    then have "concat (map snd (tokens (drop n z))) = drop n z" using 1 False c_string_drop [of z n] by simp
    then show ?thesis using t False by (simp add: tokens_cons)
  qed (simp add: tokens_nil)
qed

section \<open>The loop of the parser\<close>



lemma oom_fields [simp]:
  "zErrMsg (sqlite3OomFault P) = zErrMsg P" "parse_rc (sqlite3OomFault P) = parse_rc P"
  by (simp_all add: sqlite3OomFault_def Let_def)







section \<open>What the parser gets\<close>

text \<open>The calls of the parser for a list of tokens: type, text from the token on, length.\<close>

fun calls :: "int \<Rightarrow> u8 list \<Rightarrow> (int \<times> u8 list) list \<Rightarrow> (int \<times> u8 list \<times> nat) list" where
  "calls k z [] = (if k = TK_SEMI then [(0, z, 0)] else if k = 0 then [] else [(TK_SEMI, z, 0), (0, z, 0)])"
| "calls k z ((t, w) # ts) =
     (if t = TK_SPACE then calls k (drop (length w) z) ts else (t, z, length w) # calls t (drop (length w) z) ts)"

abbreviation feed :: "'p lemon \<Rightarrow> (int \<times> u8 list \<times> nat) list \<Rightarrow> 'p Parse \<Rightarrow> 'p Parse" where
  "feed f \<equiv> fold (\<lambda>(t, z, n). f t z n)"

text \<open>No call fails or is interrupted.\<close>

definition fine :: "'p Parse \<Rightarrow> bool" where
  "fine P \<longleftrightarrow> parse_rc P = SQLITE_OK \<and> \<not> mallocFailed P \<and> \<not> isInterrupted P"

fun quiet :: "'p lemon \<Rightarrow> (int \<times> u8 list \<times> nat) list \<Rightarrow> 'p Parse \<Rightarrow> bool" where
  "quiet f [] P = fine P"
| "quiet f ((t, z, n) # cs) P = (fine P \<and> quiet f cs (f t z n P))"

lemma loop_nil: "quiet f (calls k [] []) P \<Longrightarrow> parser_loop f pr mx k [] P = Some ([], feed f (calls k [] []) P)"
proof -
  have n: "next_token mx k [] = Some (if k = TK_SEMI then Token 0 0 mx else if k = 0 then Finished else Token 0 TK_SEMI mx)" for k
    by (simp add: next_token_def)
  have zero: "parser_loop f pr mx 0 [] P = Some ([], P)" for P
    by (subst parser_loop.simps) (simp add: n TK_defs)
  have semi: "fine (f 0 [] 0 P) \<Longrightarrow> parser_loop f pr mx TK_SEMI [] P = Some ([], f 0 [] 0 P)" for P
    by (subst parser_loop.simps) (simp add: n zero Let_def fine_def, simp add: TK_defs)
  assume q: "quiet f (calls k [] []) P"
  show ?thesis
  proof (cases "k = TK_SEMI \<or> k = 0")
    case True
    then show ?thesis using q zero semi by (auto simp: TK_defs)
  next
    case False
    then have "fine (f TK_SEMI [] 0 P)" "fine (f 0 [] 0 (f TK_SEMI [] 0 P))" using q by auto
    then show ?thesis using False semi [of "f TK_SEMI [] 0 P"]
      by (subst parser_loop.simps) (simp add: n Let_def fine_def, simp add: TK_defs)
  qed
qed

lemma loop_feeds:
  "c_string z \<Longrightarrow> int (length z) \<le> mx \<Longrightarrow> TK_ILLEGAL \<notin> fst ` set (tokens z) \<Longrightarrow> quiet f (calls k z (tokens z)) P \<Longrightarrow>
   parser_loop f pr mx k z P = Some ([], feed f (calls k z (tokens z)) P)"
proof (induction "length z" arbitrary: z mx k P rule: less_induct)
  case less
  show ?case
  proof (cases "z = []")
    case True
    then show ?thesis using less.prems(4) loop_nil by (simp only: tokens_nil)
  next
    case False
    then obtain n t where t: "sqlite3GetToken z = Some (n, t)" "1 \<le> n" "n \<le> length z" "t \<le> TK_ILLEGAL" using less.prems(1) token_obtain by metis
    have c: "c_at z 0 = Some (z ! 0)" "z ! 0 \<noteq> 0" using False less.prems(1) by (auto simp: c_at_lt) (metis length_greater_0_conv nth_mem)
    have tk: "tokens z = (t, take n z) # tokens (drop n z)" using tokens_cons [OF t(1) False t(2)] .
    have sp: "t < TK_SPACE \<or> t = TK_SPACE" using less.prems(3) tk t(4) by (auto simp: TK_defs)
    have nt: "next_token mx k z = Some (Token n t (mx - int n))" using c t(1,3) less.prems(2) by (simp add: next_token_def Let_def)
    have l: "length (drop n z) < length z" "int (length (drop n z)) \<le> mx - int n" "TK_ILLEGAL \<notin> fst ` set (tokens (drop n z))"
      using t(2,3) False less.prems(2,3) tk by auto
    note IH = less.hyps [OF l(1) c_string_drop [OF less.prems(1)] l(2,3)]
    have ln: "length (take n z) = n" using t(3) by simp
    show ?thesis
    proof (cases "t = TK_SPACE")
      case True
      have cs: "calls k z (tokens z) = calls k (drop n z) (tokens (drop n z))" unfolding tk using True ln by simp
      have "fine P" using less.prems(4) by (cases "calls k z (tokens z)") auto
      then have i: "\<not> isInterrupted P" by (simp add: fine_def)
      have "parser_loop f pr mx k z P = parser_loop f pr (mx - int n) k (drop n z) P"
        using i True by (subst parser_loop.simps) (simp add: nt, simp add: TK_defs)
      then show ?thesis using IH less.prems(4) unfolding cs by simp
    next
      case False
      then have s: "\<not> TK_SPACE \<le> t" using sp by simp
      have cs: "calls k z (tokens z) = (t, z, n) # calls t (drop n z) (tokens (drop n z))" unfolding tk using False ln by simp
      have q: "quiet f (calls t (drop n z) (tokens (drop n z))) (f t z n P)" using less.prems(4) unfolding cs by simp
      then have "fine (f t z n P)" by (cases "calls t (drop n z) (tokens (drop n z))") auto
      then have "parser_loop f pr mx k z P = parser_loop f pr (mx - int n) t (drop n z) (f t z n P)"
        using s by (subst parser_loop.simps) (simp add: nt Let_def fine_def)
      then show ?thesis using IH [OF q] unfolding cs by simp
    qed
  qed
qed

text \<open>C22: on a text that is no longer than the limit and has no illegal token, and with a parser that could be allocated and none of whose calls
  fails, leaves a message or is interrupted, \<open>sqlite3RunParser\<close> gives the parser the tokens of the text one by one,
  without white space and comments, then a semicolon unless the last token was one, then the end; these tokens, with
  the white space, make up the text, and all of it is consumed without an error.\<close>

theorem run_parser_feeds_tokens:
  assumes "0 \<notin> set z" and "int (length z) \<le> mx" and "TK_ILLEGAL \<notin> fst ` set (tokens z)"
    and "quiet f (calls (- 1) z (tokens z)) P" and "zErrMsg (feed f (calls (- 1) z (tokens z)) P) = None"
    and "P = (if nVdbeActive pParse = 0 then pParse\<lparr>isInterrupted := False\<rparr> else pParse)\<lparr>parse_rc := SQLITE_OK, zTail := z, engine := e\<rparr>"
  shows "sqlite3RunParser f pr errStr mx (Some e) pParse z = Some (0, None, (feed f (calls (- 1) z (tokens z)) P)\<lparr>zTail := []\<rparr>) \<and>
    concat (map snd (tokens z)) = z"
proof
  have q: "quiet f cs Q \<Longrightarrow> fine (feed f cs Q)" for cs Q by (induction f cs Q rule: quiet.induct) auto
  have "fine (feed f (calls (- 1) z (tokens z)) P)" using q assms(4) .
  moreover have "parser_loop f pr mx (- 1) z P = Some ([], feed f (calls (- 1) z (tokens z)) P)"
    using assms(1-4) by (rule loop_feeds)
  ultimately show "sqlite3RunParser f pr errStr mx (Some e) pParse z = Some (0, None, (feed f (calls (- 1) z (tokens z)) P)\<lparr>zTail := []\<rparr>)"
    using assms(5) by (simp add: sqlite3RunParser_def Let_def assms(6) [symmetric] parse_report_def fine_def)
  show "concat (map snd (tokens z)) = z" using assms(1) by (rule tokens_concat)
qed

text \<open>A parser that records what it gets.\<close>

definition recorder :: "(int \<times> u8 list) list lemon" where
  "recorder t z n P = P\<lparr>engine := engine P @ [(t, take n z)]\<rparr>"

definition start_parse :: "(int \<times> u8 list) list Parse" where
  "start_parse = \<lparr>engine = [], parse_rc = 0, zTail = [], zErrMsg = None, nErr = 0, mallocFailed = False, isInterrupted = False,
     nVdbeActive = 0, nVdbeExec = 0, bBenignMalloc = False, suppressErr = False\<rparr>"

lemmas token_eval = sqlite3GetToken_def aiClass_def CC_defs TK_defs c_at_def scan.simps ctype_ranges number_token_def is_hex_def
  has_exponent_def Let_def

lemma sample_tokens: "tokens (chs ''- 1.5;'') = [(TK_MINUS, chs ''-''), (TK_SPACE, chs '' ''), (TK_FLOAT, chs ''1.5''), (TK_SEMI, chs '';'')]"
proof -
  have "sqlite3GetToken (chs ''- 1.5;'') = Some (1, TK_MINUS)" "sqlite3GetToken (chs '' 1.5;'') = Some (1, TK_SPACE)"
    "sqlite3GetToken (chs ''1.5;'') = Some (3, TK_FLOAT)" "sqlite3GetToken (chs '';'') = Some (1, TK_SEMI)"
    by (simp_all add: token_eval)
  then show ?thesis by (simp add: tokens_cons tokens_nil)
qed

theorem run_parser_feeds_tokens_witness:
  "\<exists>P. sqlite3RunParser recorder (\<lambda>_ _. Printed) (\<lambda>_. []) 100 (Some []) start_parse (chs ''- 1.5;'') = Some (0, None, P) \<and>
     engine P = [(TK_MINUS, chs ''-''), (TK_FLOAT, chs ''1.5''), (TK_SEMI, chs '';''), (0, [])]"
proof -
  let ?P = "(if nVdbeActive start_parse = 0 then start_parse\<lparr>isInterrupted := False\<rparr> else start_parse)
    \<lparr>parse_rc := SQLITE_OK, zTail := chs ''- 1.5;'', engine := []\<rparr>"
  let ?c = "calls (- 1) (chs ''- 1.5;'') (tokens (chs ''- 1.5;''))"
  have c: "?c = [(TK_MINUS, chs ''- 1.5;'', 1), (TK_FLOAT, chs ''1.5;'', 3), (TK_SEMI, chs '';'', 1), (0, [], 0)]"
    unfolding sample_tokens by (simp add: TK_defs)
  have "quiet recorder ?c ?P" "zErrMsg (feed recorder ?c ?P) = None"
    "engine (feed recorder ?c ?P) = [(TK_MINUS, chs ''-''), (TK_FLOAT, chs ''1.5''), (TK_SEMI, chs '';''), (0, [])]"
    unfolding c by (simp_all add: recorder_def start_parse_def fine_def)
  note q = this
  have "TK_ILLEGAL \<notin> fst ` set (tokens (chs ''- 1.5;''))" unfolding sample_tokens by (simp add: TK_defs)
  then have "sqlite3RunParser recorder (\<lambda>_ _. Printed) (\<lambda>_. []) 100 (Some []) start_parse (chs ''- 1.5;'') = Some (0, None, (feed recorder ?c ?P)\<lparr>zTail := []\<rparr>)"
    by (intro run_parser_feeds_tokens [THEN conjunct1] q(1,2) refl) simp_all
  then show ?thesis using q(3) by simp
qed



section \<open>Quoted text\<close>

lemma quote_loop_quoted:
  assumes "0 \<notin> set s" "q \<noteq> 0" "r = [] \<or> hd r \<noteq> q"
  shows "quote_loop (w @ quoted q s @ q # r) q (length w) = Some (length w + length (quoted q s), q)"
  using assms
proof (induction s arbitrary: w)
  case Nil
  have "c_at (w @ q # r) (length w) = Some q" using c_at_append [of w "q # r" 0] by simp
  moreover have "c_at (w @ q # r) (length w + 1) = Some (if r = [] then 0 else hd r)"
    using c_at_append [of w "q # r" 1] by (cases r) simp_all
  ultimately show ?case using Nil by (subst quote_loop.simps) (auto simp: quoted_def)
next
  case (Cons c s)
  let ?r = "quoted q s @ q # r"
  have IH: "quote_loop (w @ x @ ?r) q (length w + length x) = Some (length w + length x + length (quoted q s), q)" for x
    using Cons.IH [of "w @ x"] Cons.prems by simp
  show ?case
  proof (cases "c = q")
    case True
    have "c_at (w @ q # q # ?r) (length w) = Some q" "c_at (w @ q # q # ?r) (length w + 1) = Some q"
      using c_at_append [of w "q # q # ?r" 0] c_at_append [of w "q # q # ?r" 1] by simp_all
    moreover have "quoted q (c # s) = q # q # quoted q s" using True by (simp add: quoted_def)
    ultimately show ?thesis using IH [of "[q, q]"] Cons.prems(2) by (subst quote_loop.simps) simp
  next
    case False
    have "c_at (w @ c # ?r) (length w) = Some c" using c_at_append [of w "c # ?r" 0] by simp
    moreover have "quoted q (c # s) = c # quoted q s" using False by (simp add: quoted_def)
    ultimately show ?thesis using False IH [of "[c]"] Cons.prems(1) by (subst quote_loop.simps) simp
  qed
qed

text \<open>C25: quoting a text, with its quotes doubled, gives one token, a string or an identifier, whatever follows it except the same
  quote character (two of them are one inside the quotes); and dequoting this token gives the text back.\<close>

theorem quoted_token_roundtrip:
  assumes "q \<in> {34, 39, 96}" and "0 \<notin> set s" and "r = [] \<or> hd r \<noteq> q"
  shows "\<exists>n tail. sqlite3GetToken (q # quoted q s @ q # r) = Some (n, if q = 39 then TK_STRING else TK_ID) \<and>
    take n (q # quoted q s @ q # r) = q # quoted q s @ [q] \<and>
    sqlite3Dequote (Some (take n (q # quoted q s @ q # r) @ [0])) = Some (Some (s @ 0 # tail))"
proof -
  have q: "q \<noteq> 0" "aiClass ! unat q = CC_QUOTE" "close_quote q = q" "sqlite3Isquote q"
    using assms(1) by (auto simp: aiClass_def CC_defs close_quote_def ctype_ranges)
  have "quote_loop (q # quoted q s @ q # r) q (Suc 0) = Some (1 + length (quoted q s), q)"
    using quote_loop_quoted [OF assms(2) q(1) assms(3), of "[q]"] by simp
  then have t: "sqlite3GetToken (q # quoted q s @ q # r) = Some (2 + length (quoted q s), if q = 39 then TK_STRING else TK_ID)"
    using q(1,2) by (simp add: sqlite3GetToken_def CC_defs)
  have k: "take (2 + length (quoted q s)) (q # quoted q s @ q # r) = q # quoted q s @ [q]" by simp
  obtain tail where "sqlite3Dequote (Some (q # quoted q s @ q # [0])) = Some (Some (s @ 0 # tail))"
    using dequote_roundtrip [of q s 0 "[]"] q assms(2) by auto
  then show ?thesis using t k by (intro exI [of _ "2 + length (quoted q s)"] exI [of _ tail]) simp
qed

theorem quoted_token_roundtrip_witness:
  "\<exists>n tail. sqlite3GetToken ([34] @ chs ''a'' @ [34, 34] @ chs ''b'' @ [34] @ chs '' c'') = Some (n, TK_ID)"
  using quoted_token_roundtrip [of 34 "chs ''a'' @ [34] @ chs ''b''" "chs '' c''"] by (auto simp: quoted_def)

end
