(* ===== verification/Spec2Isabelle.thy ===== *)
theory Spec2Isabelle
  imports Varint_Props Numtext_Props Utf_Props Slist_Props Dlist_Spec Onefile_Props Fsopen Bitvec_Test Complete_Props Prng Base_Props Rowset_Props Memjournal_Props Like_Props Hash_Props Serial_Props Tokenize_Props
begin

text \<open>
  A verification library for sqlitefs: SQLite (src/tsrc), with a VFS that keeps a database and its journal in one
  file or on a raw device (src/test/test_onefile.c, src/tsrc/win32io.c), and the helpers of src/util.

  \<^bold>\<open>Conventions.\<close> Machine integers are words of their width, read by \<open>unat\<close>, \<open>sint\<close>; a buffer or string is a list of
  bytes; a C object that is shared or linked lives in a store (Prelude), a map from addresses to records. A function
  of type \<open>'a option\<close> gives \<open>None\<close> when the code has no defined result: it reads out of bounds or through a bad
  pointer, an assertion fails, or a loop does not end. So each theorem that a model returns \<open>Some\<close> says that the code
  is safe and ends. Error codes are values. A failing allocator is a list of outcomes of the coming allocations
  (\<open>faults\<close>) or the number of allocations left in the store. Code that is called through a pointer or generated (the
  parent VFS, a user's comparison, the source of the random seed, the LALR parser that receives the tokens) is a
  parameter, and what is assumed of it a locale or a named hypothesis.

  \<^bold>\<open>The one-file VFS.\<close> Files holds result codes and the contract of an \<open>sqlite3_io_methods\<close> file as the locales
  \<open>rw_file\<close>, \<open>vfs_file\<close>: what a read returns after a write. Onefile is \<open>fsOpen\<close>, \<open>fsClose\<close>, \<open>fsRead\<close>, \<open>fsWrite\<close> and the
  other methods of test_onefile.c over a parent VFS; the list of open files is in a store (Onefile_List), and
  Onefile_Spec shows in the locale \<open>blob\<close> that database and journal are two files inside the blob, so that \<open>fsRead\<close>
  and \<open>fsWrite\<close> again satisfy the contract. Onefile_Props has the properties and the cases in which the code breaks
  them. Fsopen is \<open>fs_open\<close>, \<open>fs_read\<close> on a raw device, with the transfers of win32io.c. Memdb is the in-memory file
  of memdb.c, an instance of the contract and the concrete parent of the witnesses. Memjournal is the journal of
  memjournal.c, kept in chunks until it spills into a file; Memjournal_Props relates it to a plain byte string.

  \<^bold>\<open>Containers.\<close> Nslice, Slist, Dlist_Impl are the allocator and the lists of nlist.c, one definition per function;
  Slist_Spec, Dlist_Spec read a store as a list; Compare has the contract \<open>comparator\<close> of a comparison callback and the
  merge sort on lists, which Slist_Sort refines to the store; Slist_Props has the properties. Bitvec, Rowset, Hash are
  bitvec.c, rowset.c, hash.c. Their clients' interfaces are the locales \<open>number_set\<close> and \<open>dictionary\<close>, interpreted on the
  models; Bitvec_Spec, Hash_Spec hold the representation invariants, Bitvec_Test the self test of bitvec.c, Rowset_Props
  the order and the batches of row sets.

  \<^bold>\<open>Numbers, text, records.\<close> Varint (variable-length integers, with their unrolled reader), Intmath (checked 64-bit
  arithmetic, logarithmic estimates), Ctype (character tables, comparisons), Numtext (text to numbers, blob literals,
  dequoting) are util.c; Utf is the conversions of utf.c; Prng is random.c; Like is the pattern matching of func.c;
  Serial is the record format: \<open>OP_MakeRecord\<close> of vdbe.c and the decoding of vdbeaux.c. The \<open>_Spec\<close> theories restate the
  bit operations as arithmetic or give the reference, the \<open>_Props\<close> theories the properties. Base_Util, Base_Props are the
  string splitting and time arithmetic of util/base.c, on top of Slist.

  \<^bold>\<open>SQL text.\<close> Keyword is the perfect-hash table of keywordhash.h, compared with the list of keywords in Keyword_Props. Tokenize is
  \<open>sqlite3GetToken\<close> and \<open>sqlite3RunParser\<close> of tokenize.c, for any parser; Tokenize_Props shows that the tokenizer stays inside
  the text, that the loop ends, and which calls the parser gets. Complete is the state machine of complete.c;
  Complete_Lex gives the words of a text by a grammar and shows that the scanner finds them, Complete_Props compares the
  machine with a grammar of statements.

  \<^bold>\<open>Bounds and loops.\<close> Loops over a text or a list are structural or \<open>partial_function (option)\<close>, whose termination
  follows from the theorems that give \<open>Some\<close>. No model takes fuel, except the chains and probes of Bitvec and Hash, which are
  bounded by the table's size as in the code. Builds: 64 bits, ASCII, little-endian; assertions are modelled
  as checks, other debugging code is not.

  \<^bold>\<open>Not modelled.\<close> The B-tree, the pager, the write-ahead log, the virtual machine apart from \<open>OP_MakeRecord\<close>, the parser
  and code generator, the schema and the extensions (rtree, json1, session, rbu, icu): they need the whole
  database state, and their specification is that of SQL. os_unix.c, os_win.c, the mutexes and malloc back ends call the
  operating system. Floating-point text and dates compute with doubles. Methods of modelled files that only forward a
  call are left out where the manifest says so. xopen_linux takes other arguments than its caller passes, so the linux branch
  of test_onefile.c does not compile.
\<close>

end
